(* ===== verification/Prelude.thy ===== *)
theory Prelude
  imports Main "HOL-Library.Multiset"
begin

text \<open>
  Shared vocabulary of the development: the result type of fallible Rust code, the machine
  integer bounds and the saturating and checked operations the sources use, \<open>Vec\<close>
  operations of the Rust standard library, and generic facts on lists that several
  components share.
\<close>

named_theorems result_simps \<open>rewriting of chained fallible calls\<close>

subsection \<open>Results\<close>

text \<open>
  \<^verbatim>\<open>Result<T, E>\<close> is the sum \<open>'e + 'a\<close> with \<open>Inl\<close> the error; the \<^verbatim>\<open>?\<close> operator is
  \<open>and_then\<close>. Error messages are strings.
\<close>

type_synonym 'a result = "string + 'a"

fun and_then :: "'e + 'a \<Rightarrow> ('a \<Rightarrow> 'e + 'b) \<Rightarrow> 'e + 'b" where
  "and_then (Inl e) f = Inl e"
| "and_then (Inr x) f = f x"

fun map_err :: "('e \<Rightarrow> 'd) \<Rightarrow> 'e + 'a \<Rightarrow> 'd + 'a" where
  "map_err g (Inl e) = Inl (g e)"
| "map_err g (Inr x) = Inr x"

text \<open>A fallible \<^verbatim>\<open>map(...).collect::<Result<Vec<_>, _>>()\<close>: stops at the first error.\<close>

fun collect_results :: "('a \<Rightarrow> 'e + 'b) \<Rightarrow> 'a list \<Rightarrow> 'e + 'b list" where
  "collect_results f [] = Inr []"
| "collect_results f (x # xs) =
     and_then (f x) (\<lambda>y. and_then (collect_results f xs) (\<lambda>ys. Inr (y # ys)))"

lemma and_then_Inr_iff [result_simps]:
  "and_then r f = Inr y \<longleftrightarrow> (\<exists>x. r = Inr x \<and> f x = Inr y)"
  by (cases r) auto

lemma map_err_Inr_iff [result_simps, simp]: "map_err g r = Inr x \<longleftrightarrow> r = Inr x"
  by (cases r) auto

lemma and_then_assoc: "and_then (and_then r f) g = and_then r (\<lambda>x. and_then (f x) g)"
  by (cases r) auto

lemma and_then_cong [fundef_cong]:
  "r = r' \<Longrightarrow> (\<And>x. r' = Inr x \<Longrightarrow> f x = f' x) \<Longrightarrow> and_then r f = and_then r' f'"
  by (cases r') auto

lemma collect_results_cong [fundef_cong]:
  "xs = ys \<Longrightarrow> (\<And>x. x \<in> set ys \<Longrightarrow> f x = g x) \<Longrightarrow> collect_results f xs = collect_results g ys"
  by (induction ys arbitrary: xs) auto

lemma collect_results_Inr_length:
  "collect_results f xs = Inr ys \<Longrightarrow> length ys = length xs"
  by (induction xs arbitrary: ys) (auto simp: result_simps)

lemma collect_results_all_Inr:
  "(\<And>x. x \<in> set xs \<Longrightarrow> f x = Inr (g x)) \<Longrightarrow> collect_results f xs = Inr (map g xs)"
  by (induction xs) auto

lemma collect_results_Inr_nth:
  "collect_results f xs = Inr ys \<Longrightarrow> i < length xs \<Longrightarrow> f (xs ! i) = Inr (ys ! i)"
proof (induction xs arbitrary: ys i)
  case Nil
  then show ?case by simp
next
  case (Cons x xs)
  then show ?case by (cases i) (auto simp: result_simps)
qed

subsection \<open>Unsigned machine integers\<close>

text \<open>
  Unsigned integers are natural numbers; every place where the sources saturate or check
  against the width writes the bound out.
\<close>

abbreviation u32_max :: nat where "u32_max \<equiv> 2 ^ 32 - 1"
abbreviation u64_max :: nat where "u64_max \<equiv> 2 ^ 64 - 1"
abbreviation u128_max :: nat where "u128_max \<equiv> 2 ^ 128 - 1"

definition saturating_add_u64 :: "nat \<Rightarrow> nat \<Rightarrow> nat" where
  "saturating_add_u64 a b = min (a + b) u64_max"

definition checked_mul_u128 :: "nat \<Rightarrow> nat \<Rightarrow> nat option" where
  "checked_mul_u128 a b = (if a * b \<le> u128_max then Some (a * b) else None)"

definition checked_pow_u128 :: "nat \<Rightarrow> nat \<Rightarrow> nat option" where
  "checked_pow_u128 a n = (if a ^ n \<le> u128_max then Some (a ^ n) else None)"

lemma saturating_add_u64_le: "saturating_add_u64 a b \<le> u64_max"
  by (simp add: saturating_add_u64_def)

subsection \<open>Vectors\<close>

text \<open>
  \<^verbatim>\<open>Vec::swap_remove(i)\<close> moves the last element into the vacated slot and panics (here
  \<open>None\<close>) when the index is out of range.
\<close>

definition swap_remove :: "'a list \<Rightarrow> nat \<Rightarrow> 'a list option" where
  "swap_remove xs i =
     (if i < length xs
      then Some (if i = length xs - 1 then butlast xs else (butlast xs)[i := last xs])
      else None)"

lemma swap_remove_length:
  "swap_remove xs i = Some ys \<Longrightarrow> Suc (length ys) = length xs"
  by (auto simp: swap_remove_def split: if_splits)

lemma swap_remove_nth:
  assumes "swap_remove xs i = Some ys" and "j < length ys"
  shows "ys ! j = (if j = i then last xs else xs ! j)"
  using assms by (auto simp: swap_remove_def nth_butlast nth_list_update split: if_splits)

lemma swap_remove_mset:
  assumes "swap_remove xs i = Some ys"
  shows "mset xs = add_mset (xs ! i) (mset ys)"
proof -
  from assms have i: "i < length xs" and ne: "xs \<noteq> []"
    by (auto simp: swap_remove_def split: if_splits)
  define zs where "zs = butlast xs"
  define z where "z = last xs"
  have xs: "xs = zs @ [z]" using ne by (simp add: zs_def z_def)
  show ?thesis
  proof (cases "i = length zs")
    case True
    then show ?thesis using assms unfolding xs by (auto simp: swap_remove_def)
  next
    case False
    then have iz: "i < length zs" using i xs by simp
    then have ys: "ys = zs[i := z]" using assms unfolding xs by (auto simp: swap_remove_def)
    have "mset ys = add_mset z (mset zs - {#zs ! i#})"
      using iz by (simp add: ys mset_update)
    then have "add_mset (zs ! i) (mset ys) = add_mset z (add_mset (zs ! i) (mset zs - {#zs ! i#}))"
      by (simp add: add_mset_commute)
    also have "\<dots> = add_mset z (mset zs)" using iz by simp
    finally show ?thesis using iz unfolding xs by (simp add: nth_append)
  qed
qed

lemma swap_remove_distinct:
  assumes "swap_remove xs i = Some ys" and "distinct xs"
  shows "distinct ys" and "set ys = set xs - {xs ! i}"
proof -
  have m: "mset xs = mset (xs ! i # ys)" using swap_remove_mset[OF assms(1)] by simp
  then have d: "distinct (xs ! i # ys)" using assms(2) mset_eq_imp_distinct_iff by blast
  then show "distinct ys" by simp
  have "set xs = insert (xs ! i) (set ys)" using mset_eq_setD[OF m] by simp
  with d show "set ys = set xs - {xs ! i}" by auto
qed

text \<open>Where a surviving element ends up: its old slot, or the vacated one if it was last.\<close>

lemma swap_remove_slot:
  assumes sr: "swap_remove xs i = Some ys" and x: "x \<noteq> xs ! i"
    and keep: "\<not> (i < length ys \<and> x = ys ! i)"
  shows "j < length ys \<and> ys ! j = x \<longleftrightarrow> j < length xs \<and> xs ! j = x"
proof -
  have len: "length xs = Suc (length ys)" using swap_remove_length[OF sr] by simp
  have last: "last xs = xs ! length ys"
    using len by (cases xs rule: rev_cases) (simp_all add: nth_append)
  have i: "i \<le> length ys" using sr len by (auto simp: swap_remove_def split: if_splits)
  have "x \<noteq> xs ! length ys"
    using keep x i swap_remove_nth[OF sr, of i] last by (cases "i = length ys") auto
  then show ?thesis
    using swap_remove_nth[OF sr, of j] len x keep by (cases "j = i") (auto simp: less_Suc_eq)
qed

end
