(* ===== verification/Arrow.thy ===== *)
theory Arrow
  imports Prelude
begin

text \<open>
  The Arrow data the sources pass around: data types, fields, arrays and record batches as
  plain data (a logical array is its type and its optional cells), and the compute kernels of
  the Arrow crates the sources call. The kernels are third-party code: they are the fields
  of a record \<open>kernels\<close> that every definition using them takes as an argument, and
  \<open>kernels_ok\<close> names the documented behaviour the theorems rely on.
\<close>

subsection \<open>Data\<close>

datatype time_unit = Second | Millisecond | Microsecond | Nanosecond

datatype data_type =
    DNull | DBoolean
  | DInt8 | DInt16 | DInt32 | DInt64 | DUInt8 | DUInt16 | DUInt32 | DUInt64
  | DFloat16 | DFloat32 | DFloat64
  | DDecimal128 nat int | DDecimal256 nat int
  | DUtf8 | DLargeUtf8 | DUtf8View | DBinary | DLargeBinary | DBinaryView
  | DDate32 | DDate64 | DTime32 time_unit | DTime64 time_unit
  | DTimestamp time_unit "string option" | DDuration time_unit | DInterval nat
  | DOther string

record field =
  fld_name :: string
  fld_type :: data_type
  fld_nullable :: bool

type_synonym schema = "field list"

datatype cell = CInt int | CStr string | CRaw string

record array =
  arr_type :: data_type
  arr_cells :: "cell option list"

record record_batch =
  rb_schema :: schema
  rb_columns :: "array list"
  rb_num_rows :: nat

text \<open>\<^verbatim>\<open>Schema::index_of\<close>: the position of the first field with the name.\<close>

fun index_of :: "schema \<Rightarrow> string \<Rightarrow> nat option" where
  "index_of [] name = None"
| "index_of (f # fs) name =
     (if fld_name f = name then Some 0 else map_option Suc (index_of fs name))"

text \<open>\<^verbatim>\<open>Array::is_null\<close> looks at the validity buffer, which an array of type \<^verbatim>\<open>Null\<close> does not have.\<close>

definition is_null :: "array \<Rightarrow> nat \<Rightarrow> bool" where
  "is_null a row \<longleftrightarrow> arr_type a \<noteq> DNull \<and> arr_cells a ! row = None"

definition rows :: "record_batch \<Rightarrow> cell option list list" where
  "rows b = map (\<lambda>i. map (\<lambda>a. arr_cells a ! i) (rb_columns b)) [0..<rb_num_rows b]"

definition wf_column :: "nat \<Rightarrow> field \<Rightarrow> array \<Rightarrow> bool" where
  "wf_column n f a \<longleftrightarrow> length (arr_cells a) = n \<and> arr_type a = fld_type f
     \<and> (fld_nullable f \<or> None \<notin> set (arr_cells a))"

definition wf_batch :: "record_batch \<Rightarrow> bool" where
  "wf_batch b \<longleftrightarrow> list_all2 (wf_column (rb_num_rows b)) (rb_schema b) (rb_columns b)"

subsection \<open>Kernels\<close>

record kernels =
  k_slice :: "record_batch \<Rightarrow> nat \<Rightarrow> nat \<Rightarrow> record_batch"
  k_concat_batches :: "schema \<Rightarrow> record_batch list \<Rightarrow> record_batch result"
  k_try_new :: "schema \<Rightarrow> array list \<Rightarrow> record_batch result"
  k_gc :: "array \<Rightarrow> array"
  k_sort_to_indices :: "array \<Rightarrow> nat list result"
  k_take :: "array \<Rightarrow> nat list \<Rightarrow> array result"
  k_null_str :: string  \<comment> \<open>what \<open>StringArray::value\<close> yields on a null slot\<close>

definition slice_array :: "nat \<Rightarrow> nat \<Rightarrow> array \<Rightarrow> array" where
  "slice_array off len a = a\<lparr>arr_cells := take len (drop off (arr_cells a))\<rparr>"

definition slice_spec :: "(record_batch \<Rightarrow> nat \<Rightarrow> nat \<Rightarrow> record_batch) \<Rightarrow> bool" where
  "slice_spec sl \<longleftrightarrow> (\<forall>b off len. off + len \<le> rb_num_rows b \<longrightarrow>
     sl b off len = \<lparr>rb_schema = rb_schema b, rb_columns = map (slice_array off len) (rb_columns b),
                     rb_num_rows = len\<rparr>)"

definition concat_columns :: "record_batch list \<Rightarrow> nat \<Rightarrow> cell option list" where
  "concat_columns bs j = concat (map (\<lambda>b. arr_cells (rb_columns b ! j)) bs)"

definition concat_spec :: "(schema \<Rightarrow> record_batch list \<Rightarrow> record_batch result) \<Rightarrow> bool" where
  "concat_spec cc \<longleftrightarrow> (\<forall>s bs. bs \<noteq> [] \<longrightarrow> (\<forall>b \<in> set bs. wf_batch b \<and> rb_schema b = s) \<longrightarrow>
     cc s bs = Inr \<lparr>rb_schema = s,
       rb_columns = map (\<lambda>j. \<lparr>arr_type = fld_type (s ! j), arr_cells = concat_columns bs j\<rparr>) [0..<length s],
       rb_num_rows = sum_list (map rb_num_rows bs)\<rparr>)"

definition try_new_spec :: "(schema \<Rightarrow> array list \<Rightarrow> record_batch result) \<Rightarrow> bool" where
  "try_new_spec tn \<longleftrightarrow> (\<forall>s cols n. s \<noteq> [] \<longrightarrow> list_all2 (wf_column n) s cols \<longrightarrow>
     tn s cols = Inr \<lparr>rb_schema = s, rb_columns = cols, rb_num_rows = n\<rparr>)"

definition gc_spec :: "(array \<Rightarrow> array) \<Rightarrow> bool" where
  "gc_spec g \<longleftrightarrow> (\<forall>a. arr_type (g a) = arr_type a \<and> arr_cells (g a) = arr_cells a)"

fun cell_int :: "cell option \<Rightarrow> int" where
  "cell_int (Some (CInt i)) = i"
| "cell_int _ = 0"

definition int_cells :: "array \<Rightarrow> bool" where
  "int_cells a \<longleftrightarrow> arr_type a = DInt64 \<and> (\<forall>c \<in> set (arr_cells a). \<exists>i. c = Some (CInt i))"

definition sort_spec :: "(array \<Rightarrow> nat list result) \<Rightarrow> bool" where
  "sort_spec so \<longleftrightarrow> (\<forall>a. int_cells a \<longrightarrow>
     (\<exists>idx. so a = Inr idx \<and> mset idx = mset [0..<length (arr_cells a)]
        \<and> sorted (map (\<lambda>i. cell_int (arr_cells a ! i)) idx)))"

definition take_spec :: "(array \<Rightarrow> nat list \<Rightarrow> array result) \<Rightarrow> bool" where
  "take_spec tk \<longleftrightarrow> (\<forall>a idx. (\<forall>i \<in> set idx. i < length (arr_cells a)) \<longrightarrow>
     tk a idx = Inr (a\<lparr>arr_cells := map (\<lambda>i. arr_cells a ! i) idx\<rparr>))"

definition kernels_ok :: "kernels \<Rightarrow> bool" where
  "kernels_ok K \<longleftrightarrow> slice_spec (k_slice K) \<and> concat_spec (k_concat_batches K)
     \<and> try_new_spec (k_try_new K) \<and> gc_spec (k_gc K) \<and> sort_spec (k_sort_to_indices K)
     \<and> take_spec (k_take K)"

lemma kernels_okD:
  assumes "kernels_ok K"
  shows "slice_spec (k_slice K)" "concat_spec (k_concat_batches K)" "try_new_spec (k_try_new K)"
    "gc_spec (k_gc K)" "sort_spec (k_sort_to_indices K)" "take_spec (k_take K)"
  using assms by (simp_all add: kernels_ok_def)

subsection \<open>Rows under the kernels\<close>

lemma length_rows [simp]: "length (rows b) = rb_num_rows b"
  by (simp add: rows_def)

lemma rows_nth: "i < rb_num_rows b \<Longrightarrow> rows b ! i = map (\<lambda>a. arr_cells a ! i) (rb_columns b)"
  by (simp add: rows_def)

lemma wf_column_slice:
  "wf_column n f a \<Longrightarrow> off + len \<le> n \<Longrightarrow> wf_column len f (slice_array off len a)"
  by (auto simp: wf_column_def slice_array_def dest: in_set_takeD in_set_dropD)

lemma wf_slice:
  assumes "slice_spec sl" "wf_batch b" "off + len \<le> rb_num_rows b"
  shows "wf_batch (sl b off len)"
  using assms wf_column_slice[OF _ assms(3)]
  by (auto simp: slice_spec_def wf_batch_def list_all2_map2 elim!: list_all2_mono)

lemma slice_simps:
  assumes "slice_spec sl" "off + len \<le> rb_num_rows b"
  shows "rb_num_rows (sl b off len) = len" "rb_schema (sl b off len) = rb_schema b"
  using assms by (simp_all add: slice_spec_def)

lemma rows_slice:
  assumes "slice_spec sl" "wf_batch b" "off + len \<le> rb_num_rows b"
  shows "rows (sl b off len) = take len (drop off (rows b))"
proof (rule nth_equalityI)
  show "length (rows (sl b off len)) = length (take len (drop off (rows b)))"
    using assms by (simp add: slice_simps)
next
  fix i assume "i < length (rows (sl b off len))"
  then have i: "i < len" using assms by (simp add: slice_simps)
  have "length (arr_cells a) = rb_num_rows b" if "a \<in> set (rb_columns b)" for a
    using assms(2) that by (auto simp: wf_batch_def wf_column_def list_all2_conv_all_nth in_set_conv_nth)
  then show "rows (sl b off len) ! i = take len (drop off (rows b)) ! i"
    using i assms by (simp add: rows_nth slice_simps slice_spec_def slice_array_def)
qed

lemma rows_congruent:
  assumes "rb_num_rows b = rb_num_rows c" "map arr_cells (rb_columns b) = map arr_cells (rb_columns c)"
  shows "rows b = rows c"
proof -
  have "map (\<lambda>a. arr_cells a ! i) (rb_columns b) = map (\<lambda>a. arr_cells a ! i) (rb_columns c)" for i
    using arg_cong[OF assms(2), of "map (\<lambda>cs. cs ! i)"] by (simp add: comp_def)
  then show ?thesis by (simp add: rows_def assms(1))
qed

lemma concat_nth_row:
  assumes "\<And>b. b \<in> set bs \<Longrightarrow> length (f b) = n b" "\<And>b. b \<in> set bs \<Longrightarrow> length (g b) = n b"
    and "i < sum_list (map n bs)" and "\<And>b k. b \<in> set bs \<Longrightarrow> k < n b \<Longrightarrow> f b ! k = h (g b ! k)"
  shows "concat (map f bs) ! i = h (concat (map g bs) ! i)"
  using assms
proof (induction bs arbitrary: i)
  case Nil
  then show ?case by simp
next
  case (Cons b bs)
  show ?case
  proof (cases "i < n b")
    case True
    then show ?thesis using Cons.prems(1)[of b] Cons.prems(2)[of b] Cons.prems(4)[of b i]
      by (simp add: nth_append)
  next
    case False
    have "concat (map f bs) ! (i - n b) = h (concat (map g bs) ! (i - n b))"
      by (rule Cons.IH) (use Cons.prems False in auto)
    then show ?thesis using False Cons.prems(1)[of b] Cons.prems(2)[of b] by (simp add: nth_append)
  qed
qed

lemma concat_batches_ok:
  assumes cc: "concat_spec cc" and ne: "bs \<noteq> []"
    and wf: "\<And>b. b \<in> set bs \<Longrightarrow> wf_batch b \<and> rb_schema b = s"
  shows "\<exists>c. cc s bs = Inr c \<and> wf_batch c \<and> rb_schema c = s \<and> rows c = concat (map rows bs)"
proof -
  define c where "c = \<lparr>rb_schema = s,
       rb_columns = map (\<lambda>j. \<lparr>arr_type = fld_type (s ! j), arr_cells = concat_columns bs j\<rparr>) [0..<length s],
       rb_num_rows = sum_list (map rb_num_rows bs)\<rparr>"
  have eq: "cc s bs = Inr c" using cc ne wf by (simp add: concat_spec_def c_def)
  have cells: "length (arr_cells (rb_columns b ! j)) = rb_num_rows b"
      "fld_nullable (s ! j) \<or> None \<notin> set (arr_cells (rb_columns b ! j))"
      "length (rb_columns b) = length s"
    if "b \<in> set bs" "j < length s" for b j
    using wf[OF that(1)] that(2) by (auto simp: wf_batch_def wf_column_def list_all2_conv_all_nth)
  have cl: "length (rb_columns b) = length s" if "b \<in> set bs" for b
    using wf[OF that] by (auto simp: wf_batch_def list_all2_conv_all_nth)
  have len: "length (concat_columns bs j) = sum_list (map rb_num_rows bs)" if "j < length s" for j
    using cells(1)[OF _ that] by (simp add: concat_columns_def length_concat comp_def cong: map_cong)
  have "wf_batch c"
    using len cells(2) by (auto simp: c_def wf_batch_def wf_column_def list_all2_conv_all_nth concat_columns_def)
  moreover have "rows c = concat (map rows bs)"
  proof (rule nth_equalityI)
    show "length (rows c) = length (concat (map rows bs))"
      by (simp add: c_def length_concat comp_def)
    fix i assume "i < length (rows c)"
    then have i: "i < sum_list (map rb_num_rows bs)" by (simp add: c_def)
    have col: "concat_columns bs j ! i = concat (map rows bs) ! i ! j" if j: "j < length s" for j
      unfolding concat_columns_def
      by (rule concat_nth_row[where n = rb_num_rows and h = "\<lambda>r. r ! j"])
        (use cells(1) cl j i in \<open>auto simp: rows_nth\<close>)
    have "\<forall>r \<in> set (concat (map rows bs)). length r = length s" using cl by (auto simp: rows_def)
    moreover have "i < length (concat (map rows bs))" using i by (simp add: length_concat comp_def)
    ultimately have "length (concat (map rows bs) ! i) = length s" using nth_mem by blast
    then show "rows c ! i = concat (map rows bs) ! i"
      using i col by (intro nth_equalityI) (simp_all add: c_def rows_nth)
  qed
  ultimately show ?thesis using eq by (auto simp: c_def)
qed

subsection \<open>Kernels on lists\<close>

text \<open>A concrete instance of the kernels, which shows that the contract can be met.\<close>

definition list_kernels :: kernels where
  "list_kernels = \<lparr>
     k_slice = (\<lambda>b off len. \<lparr>rb_schema = rb_schema b, rb_columns = map (slice_array off len) (rb_columns b),
                              rb_num_rows = len\<rparr>),
     k_concat_batches = (\<lambda>s bs. Inr \<lparr>rb_schema = s,
       rb_columns = map (\<lambda>j. \<lparr>arr_type = fld_type (s ! j), arr_cells = concat_columns bs j\<rparr>) [0..<length s],
       rb_num_rows = sum_list (map rb_num_rows bs)\<rparr>),
     k_try_new = (\<lambda>s cols. case cols of [] \<Rightarrow> Inl ''no columns''
        | a # _ \<Rightarrow> if list_all2 (wf_column (length (arr_cells a))) s cols
                   then Inr \<lparr>rb_schema = s, rb_columns = cols, rb_num_rows = length (arr_cells a)\<rparr>
                   else Inl ''column mismatch''),
     k_gc = (\<lambda>a. a),
     k_sort_to_indices = (\<lambda>a. Inr (sort_key (\<lambda>i. cell_int (arr_cells a ! i)) [0..<length (arr_cells a)])),
     k_take = (\<lambda>a idx. if list_all (\<lambda>i. i < length (arr_cells a)) idx
                        then Inr (a\<lparr>arr_cells := map (\<lambda>i. arr_cells a ! i) idx\<rparr>)
                        else Inl ''index out of bounds''),
     k_null_str = []\<rparr>"

lemma list_try_new_spec: "try_new_spec (k_try_new list_kernels)"
proof (unfold try_new_spec_def, intro allI impI)
  fix s cols n assume "s \<noteq> []" and l: "list_all2 (wf_column n) s cols"
  then obtain a as where "cols = a # as" by (cases cols) auto
  moreover from this l have "length (arr_cells a) = n" by (cases s) (auto simp: wf_column_def)
  ultimately show "k_try_new list_kernels s cols = Inr \<lparr>rb_schema = s, rb_columns = cols, rb_num_rows = n\<rparr>"
    using l by (simp add: list_kernels_def)
qed

lemma list_kernels_ok: "kernels_ok list_kernels"
  using list_try_new_spec
  by (auto simp: kernels_ok_def list_kernels_def slice_spec_def concat_spec_def gc_spec_def sort_spec_def
      take_spec_def list_all_iff)

end
