(* ===== verification/F64.thy ===== *)
theory F64
  imports Complex_Main "HOL-Library.Log_Nat"
begin

text \<open>
  Finite IEEE-754 doubles as rationals: every arithmetic operation is the exact operation
  followed by rounding to 53 significant bits, ties to even. Overflow to infinity, NaN and
  subnormals are outside the model: the sources use doubles for ratios, row counts and
  durations, far inside the normal range. Conversions follow Rust: \<^verbatim>\<open>round\<close> rounds half away
  from zero, \<^verbatim>\<open>as usize\<close> truncates and saturates at zero.
\<close>

type_synonym f64 = rat

definition floor_log2 :: "rat \<Rightarrow> int" where
  "floor_log2 x =
     (case quotient_of x of (p, q) \<Rightarrow>
        let k = bitlen p - bitlen q in if 2 powi k \<le> x then k else k - 1)"

definition round_half_even :: "rat \<Rightarrow> int" where
  "round_half_even y =
     (let f = \<lfloor>y\<rfloor>; d = y - of_int f
      in if d < 1 / 2 then f else if d > 1 / 2 then f + 1 else if even f then f else f + 1)"

definition f64_round :: "rat \<Rightarrow> f64" where
  "f64_round x =
     (if x = 0 then 0
      else let e = floor_log2 \<bar>x\<bar> - 52 in of_int (round_half_even (x / 2 powi e)) * 2 powi e)"

definition f64_of_nat :: "nat \<Rightarrow> f64" where
  "f64_of_nat n = f64_round (of_nat n)"

definition f64_add :: "f64 \<Rightarrow> f64 \<Rightarrow> f64" where "f64_add a b = f64_round (a + b)"
definition f64_mul :: "f64 \<Rightarrow> f64 \<Rightarrow> f64" where "f64_mul a b = f64_round (a * b)"
definition f64_div :: "f64 \<Rightarrow> f64 \<Rightarrow> f64" where "f64_div a b = f64_round (a / b)"

text \<open>\<^verbatim>\<open>x as usize\<close> (truncation, negative values saturate to 0), \<^verbatim>\<open>x.round() as usize\<close>.\<close>

definition f64_as_usize :: "f64 \<Rightarrow> nat" where "f64_as_usize x = nat \<lfloor>x\<rfloor>"

definition f64_round_usize :: "f64 \<Rightarrow> nat" where "f64_round_usize x = nat \<lfloor>x + 1 / 2\<rfloor>"

definition f64_ceil_usize :: "f64 \<Rightarrow> nat" where "f64_ceil_usize x = nat \<lceil>x\<rceil>"

subsection \<open>Rounding error\<close>

lemma round_half_even_error: "\<bar>of_int (round_half_even y) - y\<bar> \<le> 1 / 2"
proof -
  define d where "d = y - of_int \<lfloor>y\<rfloor>"
  have y: "y = d + of_int \<lfloor>y\<rfloor>" by (simp add: d_def)
  have "0 \<le> d" "d < 1" unfolding d_def by linarith+
  then have "\<bar>- d\<bar> \<le> 1 / 2 \<or> \<bar>1 - d\<bar> \<le> 1 / 2" "d \<le> 1 / 2 \<Longrightarrow> \<bar>- d\<bar> \<le> 1 / 2"
    "1 / 2 \<le> d \<Longrightarrow> \<bar>1 - d\<bar> \<le> 1 / 2" by (auto simp: abs_if)
  then show ?thesis unfolding round_half_even_def Let_def d_def by (auto simp: algebra_simps)
qed

lemma floor_log2_lower:
  assumes "0 < x"
  shows "2 powi floor_log2 x \<le> x"
proof -
  obtain p q where pq: "quotient_of x = (p, q)" by (cases "quotient_of x")
  have q: "0 < q" using quotient_of_denom_pos[OF pq] .
  have x: "x = of_int p / of_int q" by (rule quotient_of_div[OF pq])
  have p: "0 < p" using assms q by (simp add: x zero_less_divide_iff)
  let ?a = "bitlen p" and ?b = "bitlen q"
  have "0 \<le> \<lfloor>log 2 (real_of_int p)\<rfloor>" "0 \<le> \<lfloor>log 2 (real_of_int q)\<rfloor>" using p q by simp_all
  moreover have "?a = \<lfloor>log 2 (real_of_int p)\<rfloor> + 1" "?b = \<lfloor>log 2 (real_of_int q)\<rfloor> + 1"
    using p q by (simp_all add: bitlen_def floorlog_def)
  ultimately have pos: "0 < ?a" "0 < ?b" by linarith+
  have lo: "2 ^ nat (?a - 1) \<le> p" and hi: "q < 2 ^ nat ?b"
    using bitlen_bounds[OF p] bitlen_bounds[OF q] by auto
  have "(2::rat) powi (?a - 1) \<le> of_int p"
  proof -
    have "(2::rat) ^ nat (?a - 1) \<le> of_int p" using lo by (metis of_int_le_iff of_int_numeral of_int_power)
    then show ?thesis using pos(1) by (simp add: power_int_def)
  qed
  moreover have "of_int q \<le> (2::rat) powi ?b"
  proof -
    have "of_int q \<le> (2::rat) ^ nat ?b" using hi by (metis less_imp_le of_int_le_iff of_int_numeral of_int_power)
    then show ?thesis using pos(2) by (simp add: power_int_def)
  qed
  ultimately have "(2::rat) powi (?a - 1) / 2 powi ?b \<le> x"
    unfolding x using p q by (intro frac_le) simp_all
  moreover have "(2::rat) powi (?a - 1) / 2 powi ?b = 2 powi (?a - ?b - 1)"
    by (simp add: power_int_diff)
  ultimately show ?thesis by (simp add: floor_log2_def pq Let_def)
qed

text \<open>The relative error of a rounding is at most \<open>2 powi -53\<close>.\<close>

lemma f64_round_error: "\<bar>f64_round x - x\<bar> \<le> \<bar>x\<bar> / 2 ^ 53"
proof (cases "x = 0")
  case True
  then show ?thesis by (simp add: f64_round_def)
next
  case False
  define e where "e = floor_log2 \<bar>x\<bar> - 52"
  have pos: "(0::rat) < 2 powi e" by simp
  have "f64_round x - x = (of_int (round_half_even (x / 2 powi e)) - x / 2 powi e) * 2 powi e"
    using False pos by (simp add: f64_round_def e_def Let_def algebra_simps)
  then have "\<bar>f64_round x - x\<bar> = \<bar>of_int (round_half_even (x / 2 powi e)) - x / 2 powi e\<bar> * 2 powi e"
    using pos by (simp add: abs_mult)
  also have "\<dots> \<le> 1 / 2 * 2 powi e"
    using round_half_even_error pos by (intro mult_right_mono) simp_all
  also have "\<dots> = 2 powi floor_log2 \<bar>x\<bar> / 2 ^ 53"
    by (simp add: e_def power_int_diff)
  also have "\<dots> \<le> \<bar>x\<bar> / 2 ^ 53"
    using floor_log2_lower[of "\<bar>x\<bar>"] False by (intro divide_right_mono) simp_all
  finally show ?thesis .
qed

lemma f64_round_zero [simp]: "f64_round 0 = 0"
  by (simp add: f64_round_def)

lemma f64_round_nonneg: "0 \<le> x \<Longrightarrow> 0 \<le> f64_round x"
  using f64_round_error[of x] by (simp add: abs_if split: if_splits)

lemma f64_round_upper: "0 \<le> x \<Longrightarrow> f64_round x \<le> x * (1 + 1 / 2 ^ 53)"
  using f64_round_error[of x] by (simp add: abs_if algebra_simps split: if_splits)

lemma f64_round_lower: "0 \<le> x \<Longrightarrow> x * (1 - 1 / 2 ^ 53) \<le> f64_round x"
  using f64_round_error[of x] by (simp add: abs_if algebra_simps split: if_splits)

lemma f64_round_usize_le: "x < of_nat n + 1 / 2 \<Longrightarrow> f64_round_usize x \<le> n"
proof -
  assume "x < of_nat n + 1 / 2"
  then have "x + 1 / 2 < of_int (int n + 1)" by simp
  then have "\<lfloor>x + 1 / 2\<rfloor> < int n + 1" by (simp only: floor_less_iff)
  then show ?thesis unfolding f64_round_usize_def by linarith
qed

subsection \<open>Exactness\<close>

lemma round_half_even_int [simp]: "round_half_even (of_int n) = n"
  by (simp add: round_half_even_def)

text \<open>Dyadic numbers with at most 53 significant bits are representable.\<close>

lemma f64_round_exact:
  assumes "\<bar>m\<bar> < 2 ^ 53"
  shows "f64_round (of_int m * 2 powi k) = of_int m * 2 powi k"
proof (cases "m = 0")
  case False
  define x :: rat where "x = of_int m * 2 powi k"
  define e where "e = floor_log2 \<bar>x\<bar> - 52"
  have "x \<noteq> 0" using False by (simp add: x_def)
  have "of_int \<bar>m\<bar> < (2::rat) ^ 53" using assms by (metis of_int_less_iff of_int_numeral of_int_power)
  then have "\<bar>x\<bar> < 2 ^ 53 * 2 powi k" by (simp add: x_def abs_mult)
  also have "\<dots> = 2 powi (53 + k)" by (simp add: power_int_add)
  finally have "(2::rat) powi floor_log2 \<bar>x\<bar> < 2 powi (53 + k)"
    using floor_log2_lower[of "\<bar>x\<bar>"] \<open>x \<noteq> 0\<close> by simp
  then have "floor_log2 \<bar>x\<bar> < 53 + k"
    using power_int_increasing[of "53 + k" "floor_log2 \<bar>x\<bar>" "2::rat"] by (meson leI not_le one_le_numeral)
  then obtain d :: nat where d: "k - e = int d" using zero_le_imp_eq_int[of "k - e"] by (auto simp: e_def)
  have "x / 2 powi e = of_int m * 2 powi (k - e)" by (simp add: x_def power_int_diff)
  also have "\<dots> = of_int (m * 2 ^ d)" by (simp add: d)
  finally have "round_half_even (x / 2 powi e) = m * 2 ^ d" by (metis round_half_even_int)
  then have "f64_round x = of_int (m * 2 ^ d) * 2 powi e"
    using \<open>x \<noteq> 0\<close> by (simp add: f64_round_def e_def Let_def)
  also have "\<dots> = x" using \<open>x / 2 powi e = of_int m * 2 powi (k - e)\<close> d by (simp add: field_simps)
  finally show ?thesis by (simp add: x_def)
qed simp

lemma rat_floor_numeral [simp]: "\<lfloor>numeral a / numeral b :: rat\<rfloor> = numeral a div numeral b"
  by (metis floor_divide_of_int_eq of_int_numeral)

lemma f64_round_dyadic: "\<bar>m\<bar> < 2 ^ 53 \<Longrightarrow> f64_round (of_int m / 2 ^ k) = of_int m / 2 ^ k"
  using f64_round_exact[of m "- int k"] by (simp add: power_int_minus divide_inverse)

lemma f64_of_nat_exact: "n < 2 ^ 53 \<Longrightarrow> f64_of_nat n = of_nat n"
  using f64_round_exact[of "int n" 0] by (simp add: f64_of_nat_def)

lemma f64_of_nat_nonneg: "0 \<le> f64_of_nat n"
  by (simp add: f64_of_nat_def f64_round_nonneg)

subsection \<open>Counts from ratios\<close>

text \<open>
  Two counts scaled to a capacity stay within it: with counts up to \<open>2 ^ 25\<close> the two
  roundings of \<^verbatim>\<open>num * (existing / total)\<close> stay below the next integer.
\<close>

lemma scaled_floor_le:
  assumes t: "0 < t" and ue: "u * e \<le> 2 ^ 51" and u: "u < 2 ^ 53" and e: "e < 2 ^ 53" and t': "t < 2 ^ 53"
  shows "f64_as_usize (f64_mul (f64_of_nat u) (f64_div (f64_of_nat e) (f64_of_nat t))) \<le> u * e div t"
proof -
  define q :: rat where "q = of_nat (u * e) / of_nat t"
  define c :: rat where "c = 1 + 1 / 2 ^ 53"
  define x where "x = f64_round (of_nat u * f64_round (of_nat e / of_nat t))"
  have x: "f64_mul (f64_of_nat u) (f64_div (f64_of_nat e) (f64_of_nat t)) = x"
    by (simp add: f64_of_nat_exact[OF u] f64_of_nat_exact[OF e] f64_of_nat_exact[OF t'] f64_mul_def f64_div_def x_def)
  have inner: "0 \<le> f64_round (of_nat e / of_nat t)" "f64_round (of_nat e / of_nat t) \<le> of_nat e / of_nat t * c"
    unfolding c_def by (rule f64_round_nonneg, simp) (rule f64_round_upper, simp)
  have c0: "0 \<le> c" by (simp add: c_def)
  have "x \<le> of_nat u * f64_round (of_nat e / of_nat t) * c"
    unfolding x_def c_def by (rule f64_round_upper) (simp add: inner(1))
  also have "\<dots> \<le> of_nat u * (of_nat e / of_nat t * c) * c"
    using inner(2) c0 by (intro mult_right_mono mult_left_mono) simp_all
  also have "\<dots> = q * (c * c)" by (simp add: q_def)
  finally have "x \<le> q * (c * c)" .
  moreover have "q * (c * c) < q + 1 / of_nat t"
  proof -
    have "of_nat (u * e) \<le> (2::rat) ^ 51" using ue by (metis of_nat_le_iff of_nat_numeral of_nat_power)
    then have "of_nat (u * e) * (c * c - 1) \<le> 2 ^ 51 * (c * c - 1)"
      by (intro mult_right_mono) (simp_all add: c_def)
    also have "\<dots> < 1" by (simp add: c_def)
    finally have "of_nat (u * e) * (c * c - 1) / of_nat t < 1 / of_nat t"
      using t by (intro divide_strict_right_mono) simp_all
    then show ?thesis by (simp add: q_def algebra_simps diff_divide_distrib)
  qed
  ultimately have up: "x < q + 1 / of_nat t" by simp
  have "0 \<le> x" unfolding x_def by (simp add: f64_round_nonneg inner(1))
  define k where "k = nat \<lfloor>x\<rfloor>"
  have "of_nat k \<le> x" using \<open>0 \<le> x\<close> by (simp add: k_def)
  then have "of_nat k < q + 1 / of_nat t" using up by simp
  then have "(of_nat k :: rat) * of_nat t < (q + 1 / of_nat t) * of_nat t" using t by (intro mult_strict_right_mono) simp_all
  also have "\<dots> = of_nat (u * e + 1)" using t by (simp add: q_def field_simps)
  finally have "of_nat (k * t) < (of_nat (u * e + 1) :: rat)" by simp
  then have "k * t < u * e + 1" by (simp only: of_nat_less_iff)
  then have "k \<le> u * e div t" using t by (simp add: less_eq_div_iff_mult_less_eq)
  then show ?thesis by (simp add: x f64_as_usize_def k_def)
qed

lemma capped_sum_le:
  assumes "u \<le> 2 ^ 25" "d \<le> 2 ^ 25" and cap: "e < u + d"
  shows "f64_as_usize (f64_mul (f64_of_nat u) (f64_div (f64_of_nat e) (f64_of_nat (u + d))))
     + f64_as_usize (f64_mul (f64_of_nat d) (f64_div (f64_of_nat e) (f64_of_nat (u + d)))) \<le> e"
proof -
  let ?t = "u + d"
  let ?f = "\<lambda>x. f64_as_usize (f64_mul (f64_of_nat x) (f64_div (f64_of_nat e) (f64_of_nat ?t)))"
  have b: "e < 2 ^ 53" "?t < 2 ^ 53" "e \<le> 2 ^ 26" using assms by simp_all
  have ub: "u < 2 ^ 53" "d < 2 ^ 53" using assms(1,2) by simp_all
  have m: "u * e \<le> 2 ^ 51" "d * e \<le> 2 ^ 51"
    using mult_le_mono[OF assms(1) b(3)] mult_le_mono[OF assms(2) b(3)] by simp_all
  have t: "0 < ?t" using cap by linarith
  have "(?f u + ?f d) * ?t \<le> u * e div ?t * ?t + d * e div ?t * ?t"
    using scaled_floor_le[OF t m(1) ub(1) b(1,2)] scaled_floor_le[OF t m(2) ub(2) b(1,2)]
    by (simp only: distrib_right add_mono mult_le_mono le_refl)
  also have "\<dots> \<le> u * e + d * e" by (intro add_mono) (simp_all add: div_times_less_eq_dividend)
  also have "\<dots> = e * ?t" by (simp add: algebra_simps)
  finally show ?thesis using t by (rule mult_right_le_imp_le)
qed

lemma ratio_count_le:
  assumes n: "n < 2 ^ 25" and q: "0 \<le> q" "q \<le> 1"
  shows "f64_round_usize (f64_mul (f64_of_nat n) q) \<le> n"
proof -
  have nn: "n < 2 ^ 53" using n by simp
  have "(of_nat n :: rat) < of_nat (2 ^ 25)" using n by (simp only: of_nat_less_iff)
  then have nr: "(of_nat n :: rat) < 2 ^ 25" by simp
  have nq: "0 \<le> of_nat n * q" "of_nat n * q \<le> of_nat n" using q by (simp_all add: mult_left_le)
  have "f64_round (of_nat n * q) \<le> of_nat n * q * (1 + 1 / 2 ^ 53)" using nq(1) by (rule f64_round_upper)
  also have "\<dots> \<le> of_nat n * (1 + 1 / 2 ^ 53)" using nq(2) by (intro mult_right_mono) simp_all
  also have "\<dots> < of_nat n + 1 / 2" using nr by (simp add: algebra_simps)
  finally show ?thesis unfolding f64_mul_def f64_of_nat_exact[OF nn] by (rule f64_round_usize_le)
qed

end
