(* ===== verification/Dataset.thy ===== *)
theory Dataset
  imports Arrow F64
begin

text \<open>
  \<^verbatim>\<open>crates/data-generation/src/dataset/mod.rs\<close>, \<^verbatim>\<open>config.rs\<close>, \<^verbatim>\<open>version.rs\<close> and the provided
  methods of \<^verbatim>\<open>storage/mod.rs\<close>: dataset tables and their schema checks, the mutation
  configuration, the version metadata a generation run persists, and what readers recover
  from it.
\<close>

subsection \<open>Tables and schema checks\<close>

record DatasetTable =
  dt_name :: string
  dt_schema :: schema
  dt_time_column :: string

text \<open>
  The lines of the mismatch report, one constructor per message the code formats (the index
  and the expected and actual values it prints).
\<close>

datatype schema_diff =
    NameDiff nat string string
  | TypeDiff nat data_type data_type
  | NullableDiff nat bool bool
  | MissingColumn nat string
  | ExtraColumn nat string
  | CountDiff nat nat

definition field_diffs :: "nat \<Rightarrow> field \<Rightarrow> field \<Rightarrow> schema_diff list" where
  "field_diffs i expected actual =
     (if fld_name actual \<noteq> fld_name expected
      then [NameDiff i (fld_name expected) (fld_name actual)] else []) @
     (if fld_type actual \<noteq> fld_type expected
      then [TypeDiff i (fld_type expected) (fld_type actual)] else []) @
     (if fld_nullable actual \<noteq> fld_nullable expected
      then [NullableDiff i (fld_nullable expected) (fld_nullable actual)] else [])"

definition schema_diffs :: "schema \<Rightarrow> schema \<Rightarrow> schema_diff list" where
  "schema_diffs expected actual =
     concat (map (\<lambda>i. if i < length actual
                      then (if actual ! i \<noteq> expected ! i
                            then field_diffs i (expected ! i) (actual ! i) else [])
                      else [MissingColumn i (fld_name (expected ! i))]) [0..<length expected]) @
     map (\<lambda>i. ExtraColumn i (fld_name (actual ! i))) [length expected..<length actual] @
     (if length expected \<noteq> length actual then [CountDiff (length expected) (length actual)] else [])"

datatype dataset_error =
    SchemaMismatch string "schema_diff list"
  | UnknownTable string
  | OtherError string

definition rehydrated_schema :: "DatasetTable \<Rightarrow> schema" where
  "rehydrated_schema t =
     dt_schema t @ [\<lparr>fld_name = dt_time_column t,
       fld_type = DTimestamp Microsecond (Some ''UTC''), fld_nullable = True\<rparr>]"

definition rehydrate :: "kernels \<Rightarrow> DatasetTable \<Rightarrow> int \<Rightarrow> record_batch \<Rightarrow> dataset_error + record_batch" where
  "rehydrate K t now_us batch =
     (if rb_schema batch \<noteq> dt_schema t
      then Inl (SchemaMismatch (dt_name t) (schema_diffs (dt_schema t) (rb_schema batch)))
      else let timestamps = \<lparr>arr_type = DTimestamp Microsecond (Some ''UTC''),
                 arr_cells = replicate (rb_num_rows batch) (Some (CInt now_us))\<rparr>
           in map_err OtherError
                (k_try_new K (rehydrated_schema t) (rb_columns batch @ [timestamps])))"

text \<open>
  The provided method \<^verbatim>\<open>Dataset::next_batch\<close>: \<open>raw\<close> is the implementation's
  \<^verbatim>\<open>raw_next_batch\<close> on the dataset state.
\<close>

definition next_batch ::
  "(string \<rightharpoonup> DatasetTable) \<Rightarrow> ('s \<Rightarrow> string \<Rightarrow> (dataset_error + record_batch option) \<times> 's)
     \<Rightarrow> 's \<Rightarrow> string \<Rightarrow> (dataset_error + record_batch option) \<times> 's" where
  "next_batch tables raw s table =
     (case tables table of
        None \<Rightarrow> (Inl (UnknownTable table), s)
      | Some dt \<Rightarrow>
          (case raw s table of
             (Inl e, s') \<Rightarrow> (Inl e, s')
           | (Inr None, s') \<Rightarrow> (Inr None, s')
           | (Inr (Some batch), s') \<Rightarrow>
               (if rb_schema batch \<noteq> dt_schema dt
                then (Inl (SchemaMismatch table (schema_diffs (dt_schema dt) (rb_schema batch))), s')
                else (Inr (Some batch), s'))))"

subsection \<open>Mutation configuration and version metadata\<close>

record MutationConfig =
  update_ratio :: f64
  delete_ratio :: f64
  bootstrap :: bool
  num_mutation_steps :: nat
  churn_fraction :: f64

text \<open>\<open>None\<close> is the panic on ratios that sum to more than one.\<close>

definition MutationConfig_new :: "f64 \<Rightarrow> f64 \<Rightarrow> MutationConfig option" where
  "MutationConfig_new u d =
     (let total = f64_add u d
      in if total > 1 then None
         else Some \<lparr>update_ratio = u, delete_ratio = d, bootstrap = False,
                    num_mutation_steps = 0, churn_fraction = 0\<rparr>)"

definition with_bootstrap :: "MutationConfig \<Rightarrow> nat \<Rightarrow> f64 \<Rightarrow> MutationConfig" where
  "with_bootstrap m steps churn =
     m\<lparr>bootstrap := True, num_mutation_steps := steps, churn_fraction := churn\<rparr>"

text \<open>Ratios in the range the documentation gives them.\<close>

definition ratios_ok :: "MutationConfig \<Rightarrow> bool" where
  "ratios_ok m \<longleftrightarrow> 0 \<le> update_ratio m \<and> update_ratio m \<le> 1 \<and> 0 \<le> delete_ratio m \<and> delete_ratio m \<le> 1"

record DatasetConfig =
  dc_dataset_type :: string
  dc_scale_factor :: f64
  dc_num_steps :: nat

record TableMetadata =
  tm_name :: string
  tm_schema :: schema
  tm_time_column :: string
  tm_key_columns :: "string list"
  tm_batch_ids :: "nat list"
  tm_batch_parts :: "nat \<rightharpoonup> nat list"

record VersionMetadata =
  vm_version :: string
  vm_scenario :: string
  vm_scale_factor :: f64
  vm_num_steps :: nat
  vm_dataset_type :: string
  vm_mutations :: MutationConfig
  vm_tables :: "string \<rightharpoonup> TableMetadata"

definition vm_dataset_config :: "VersionMetadata \<Rightarrow> DatasetConfig" where
  "vm_dataset_config vm = \<lparr>dc_dataset_type = vm_dataset_type vm,
     dc_scale_factor = vm_scale_factor vm, dc_num_steps = vm_num_steps vm\<rparr>"

definition vm_mutation_config :: "VersionMetadata \<Rightarrow> MutationConfig option" where
  "vm_mutation_config vm =
     (case MutationConfig_new (update_ratio (vm_mutations vm)) (delete_ratio (vm_mutations vm)) of
        None \<Rightarrow> None
      | Some cfg \<Rightarrow>
          Some (if bootstrap (vm_mutations vm)
                then with_bootstrap cfg (num_mutation_steps (vm_mutations vm)) (churn_fraction (vm_mutations vm))
                else cfg))"

definition etl_type :: "VersionMetadata \<Rightarrow> string" where
  "etl_type vm =
     (if update_ratio (vm_mutations vm) = 0 \<and> delete_ratio (vm_mutations vm) = 0
      then ''events'' else ''changes'')"

definition build_version_prefix :: "string \<Rightarrow> string \<Rightarrow> string \<Rightarrow> string" where
  "build_version_prefix prefix scenario version =
     (if prefix = [] then scenario @ ''/'' @ version
      else prefix @ ''/'' @ scenario @ ''/'' @ version)"

subsection \<open>What readers recover from the metadata\<close>

text \<open>
  \<open>md\<close> is the result of \<^verbatim>\<open>read_version_metadata\<close>.
\<close>

definition read_key_columns :: "VersionMetadata option result \<Rightarrow> string \<Rightarrow> string list result" where
  "read_key_columns md table =
     and_then md (\<lambda>m. Inr (case m of None \<Rightarrow> [] | Some vm \<Rightarrow>
       (case vm_tables vm table of None \<Rightarrow> [] | Some tm \<Rightarrow> tm_key_columns tm)))"

definition read_batch_ids :: "VersionMetadata option result \<Rightarrow> string \<Rightarrow> nat list result" where
  "read_batch_ids md table =
     and_then md (\<lambda>m. Inr (case m of None \<Rightarrow> [] | Some vm \<Rightarrow>
       (case vm_tables vm table of None \<Rightarrow> [] | Some tm \<Rightarrow> sort (tm_batch_ids tm))))"

definition read_batch_parts :: "VersionMetadata option result \<Rightarrow> string \<Rightarrow> nat \<Rightarrow> nat list result" where
  "read_batch_parts md table batch_id =
     and_then md (\<lambda>m. Inr (case m of None \<Rightarrow> [] | Some vm \<Rightarrow>
       (case vm_tables vm table of None \<Rightarrow> [] | Some tm \<Rightarrow>
          (case tm_batch_parts tm batch_id of None \<Rightarrow> [] | Some ps \<Rightarrow> sort ps))))"

text \<open>The provided method \<^verbatim>\<open>Dataset::batch_ids\<close>: falls back to \<open>0..num_batches\<close>.\<close>

definition batch_ids :: "nat \<Rightarrow> nat list result \<Rightarrow> nat list" where
  "batch_ids num_batches stored =
     (case stored of
        Inr ids \<Rightarrow> if ids \<noteq> [] then ids else [0..<num_batches]
      | Inl _ \<Rightarrow> [0..<num_batches])"

subsection \<open>Schema checks are exact\<close>

lemma field_diffs_Nil: "field_diffs i e a = [] \<longleftrightarrow> a = e"
  by (auto simp: field_diffs_def)

lemma schema_diffs_Nil_iff: "schema_diffs expected actual = [] \<longleftrightarrow> actual = expected"
proof
  assume d: "schema_diffs expected actual = []"
  then have len: "length expected = length actual" by (auto simp: schema_diffs_def split: if_splits)
  moreover have "actual ! i = expected ! i" if "i < length actual" for i
  proof (rule ccontr)
    assume ne: "actual ! i \<noteq> expected ! i"
    have "field_diffs i (expected ! i) (actual ! i) = []"
      using d that len ne by (fastforce simp: schema_diffs_def)
    then show False using ne by (simp add: field_diffs_Nil)
  qed
  ultimately show "actual = expected" by (simp add: nth_equalityI)
next
  assume "actual = expected"
  then show "schema_diffs expected actual = []" by (simp add: schema_diffs_def)
qed

lemma next_batch_schema:
  "next_batch tables raw s table = (Inr (Some b), s') \<Longrightarrow>
     \<exists>dt. tables table = Some dt \<and> rb_schema b = dt_schema dt \<and> raw s table = (Inr (Some b), s')"
  by (auto simp: next_batch_def split: option.splits prod.splits sum.splits if_splits)

lemma rehydrate_ok:
  assumes K: "kernels_ok K" and wf: "wf_batch b" and sch: "rb_schema b = dt_schema t"
  shows "\<exists>c. rehydrate K t now b = Inr c \<and> wf_batch c \<and> rb_schema c = rehydrated_schema t
     \<and> rows c = map (\<lambda>r. r @ [Some (CInt now)]) (rows b)"
proof -
  let ?ts = "\<lparr>arr_type = DTimestamp Microsecond (Some ''UTC''),
                 arr_cells = replicate (rb_num_rows b) (Some (CInt now))\<rparr>"
  let ?c = "\<lparr>rb_schema = rehydrated_schema t, rb_columns = rb_columns b @ [?ts], rb_num_rows = rb_num_rows b\<rparr>"
  have wf': "list_all2 (wf_column (rb_num_rows b)) (rehydrated_schema t) (rb_columns b @ [?ts])"
    using wf sch by (auto simp: wf_batch_def rehydrated_schema_def wf_column_def intro!: list_all2_appendI)
  moreover have "rehydrated_schema t \<noteq> []" by (simp add: rehydrated_schema_def)
  ultimately have "rehydrate K t now b = Inr ?c"
    using kernels_okD(3)[OF K] sch by (simp add: rehydrate_def try_new_spec_def Let_def)
  moreover have "rows ?c = map (\<lambda>r. r @ [Some (CInt now)]) (rows b)"
    by (rule nth_equalityI) (simp_all add: rows_nth)
  ultimately show ?thesis using wf' by (auto simp: wf_batch_def)
qed

lemma read_batch_ids_sorted: "read_batch_ids md t = Inr ids \<Longrightarrow> sorted ids"
  by (cases md) (auto simp: read_batch_ids_def split: option.splits)

lemma batch_ids_sorted: "sorted (batch_ids n (read_batch_ids md t))"
  by (auto simp: batch_ids_def read_batch_ids_sorted split: sum.splits)

end
