(* ===== verification/EtlBatch.thy ===== *)
theory EtlBatch
  imports Dataset Decimal
begin

text \<open>
  The batch transformations of \<^verbatim>\<open>crates/etl/src/lib.rs\<close>: environment knobs, schema rewriting,
  coalescing of source batches, splitting by operation and chunking for the sink.
\<close>

subsection \<open>Environment knobs\<close>

text \<open>Each knob takes the value of its environment variable, \<open>None\<close> when it is unset.\<close>

definition env_positive :: "nat \<Rightarrow> nat \<Rightarrow> string option \<Rightarrow> nat" where
  "env_positive mx dflt v =
     (case Option.bind v (parse_unsigned mx) of
        Some n \<Rightarrow> if n > 0 then n else dflt
      | None \<Rightarrow> dflt)"

definition target_batch_rows :: "string option \<Rightarrow> nat" where
  "target_batch_rows v = env_positive u64_max (8192 * 4) v"

definition sink_chunk_rows :: "string option \<Rightarrow> nat" where
  "sink_chunk_rows v = (case Option.bind v (parse_unsigned u64_max) of Some n \<Rightarrow> n | None \<Rightarrow> 5000)"

text \<open>\<^verbatim>\<open>Semaphore::MAX_PERMITS\<close> is \<^verbatim>\<open>usize::MAX >> 3\<close>.\<close>

definition sink_parallelism :: "string option \<Rightarrow> nat" where
  "sink_parallelism v = env_positive u64_max (u64_max div 8) v"

definition sink_parallelism_per_table :: "string option \<Rightarrow> nat" where
  "sink_parallelism_per_table v = env_positive u64_max 1 v"

definition sink_max_records_per_sec :: "string option \<Rightarrow> nat option" where
  "sink_max_records_per_sec v =
     (case Option.bind v (parse_unsigned u64_max) of
        Some n \<Rightarrow> if n > 0 then Some n else None
      | None \<Rightarrow> None)"

subsection \<open>Schemas\<close>

definition CREATED_AT_COLUMN :: string where "CREATED_AT_COLUMN = ''__created_at''"

definition INTERNAL_COLUMNS :: "string list" where "INTERNAL_COLUMNS = [''_op'', ''_op_index'']"

definition created_at_field :: field where
  "created_at_field = \<lparr>fld_name = CREATED_AT_COLUMN, fld_type = DTimestamp Microsecond None, fld_nullable = True\<rparr>"

definition schema_with_created_at :: "schema \<Rightarrow> schema" where
  "schema_with_created_at s = s @ [created_at_field]"

definition schema_without_internal_columns :: "schema \<Rightarrow> schema" where
  "schema_without_internal_columns s = filter (\<lambda>f. fld_name f \<notin> set INTERNAL_COLUMNS) s"

definition append_created_at :: "kernels \<Rightarrow> record_batch \<Rightarrow> schema \<Rightarrow> int \<Rightarrow> record_batch result" where
  "append_created_at K batch output_schema created_at_us =
     (let timestamps = \<lparr>arr_type = DTimestamp Microsecond None,
            arr_cells = replicate (rb_num_rows batch) (Some (CInt created_at_us))\<rparr>
      in k_try_new K output_schema (rb_columns batch @ [timestamps]))"

fun push_partition_columns :: "string list \<Rightarrow> string list \<Rightarrow> string list" where
  "push_partition_columns columns [] = columns"
| "push_partition_columns columns (c # cs) =
     (if c = CREATED_AT_COLUMN \<or> c \<in> set columns then push_partition_columns columns cs
      else push_partition_columns (columns @ [c]) cs)"

definition build_partition_columns :: "string list \<Rightarrow> string list" where
  "build_partition_columns dataset_columns = push_partition_columns [CREATED_AT_COLUMN] dataset_columns"

subsection \<open>Coalescing source batches\<close>

definition is_view_type :: "data_type \<Rightarrow> bool" where
  "is_view_type t \<longleftrightarrow> t = DUtf8View \<or> t = DBinaryView"

definition gc_byte_view_columns :: "kernels \<Rightarrow> record_batch \<Rightarrow> record_batch result" where
  "gc_byte_view_columns K batch =
     (if \<not> list_ex (\<lambda>f. is_view_type (fld_type f)) (rb_schema batch) then Inr batch
      else map_err (\<lambda>e. ''Failed to rebuild batch after gc: '' @ e)
        (k_try_new K (rb_schema batch)
          (map (\<lambda>(f, col). if is_view_type (fld_type f) then k_gc K col else col)
             (zip (rb_schema batch) (rb_columns batch)))))"

record coalesce_state =
  cs_result :: "record_batch list"
  cs_pending :: "record_batch list"
  cs_pending_rows :: nat

definition merge_pending :: "kernels \<Rightarrow> schema \<Rightarrow> string \<Rightarrow> record_batch list \<Rightarrow> record_batch result" where
  "merge_pending K s msg pending =
     (if length pending = 1 then Inr (hd pending)
      else and_then (map_err (\<lambda>e. msg @ e) (k_concat_batches K s pending)) (gc_byte_view_columns K))"

definition flush_pending :: "kernels \<Rightarrow> schema \<Rightarrow> string \<Rightarrow> coalesce_state \<Rightarrow> coalesce_state result" where
  "flush_pending K s msg st =
     and_then (merge_pending K s msg (cs_pending st))
       (\<lambda>merged. Inr \<lparr>cs_result = cs_result st @ [merged], cs_pending = [], cs_pending_rows = 0\<rparr>)"

text \<open>One iteration of the inner loop, once the chunk has been cut.\<close>

definition coalesce_chunk ::
  "kernels \<Rightarrow> nat \<Rightarrow> schema \<Rightarrow> record_batch \<Rightarrow> nat \<Rightarrow> coalesce_state \<Rightarrow> coalesce_state result" where
  "coalesce_chunk K target s chunk chunk_rows st =
     and_then
       (if cs_pending_rows st > 0 \<and> cs_pending_rows st + chunk_rows > target
        then flush_pending K s ''Failed to concat input batches: '' st else Inr st)
       (\<lambda>st1.
          if chunk_rows = target \<and> cs_pending_rows st1 = 0
          then Inr (st1\<lparr>cs_result := cs_result st1 @ [chunk]\<rparr>)
          else let st2 = st1\<lparr>cs_pending := cs_pending st1 @ [chunk],
                             cs_pending_rows := cs_pending_rows st1 + chunk_rows\<rparr>
               in if cs_pending_rows st2 = target
                  then flush_pending K s ''Failed to concat input batches at threshold: '' st2
                  else Inr st2)"

text \<open>
  The inner \<^verbatim>\<open>while offset < total_rows\<close>. The target is positive (\<open>target_batch_rows_pos\<close>);
  the guard \<open>0 < target\<close> only makes the definition total.
\<close>

function coalesce_batch ::
  "kernels \<Rightarrow> nat \<Rightarrow> schema \<Rightarrow> record_batch \<Rightarrow> nat \<Rightarrow> coalesce_state \<Rightarrow> coalesce_state result" where
  "coalesce_batch K target s batch offset st =
     (if offset < rb_num_rows batch \<and> 0 < target
      then let total_rows = rb_num_rows batch;
               chunk_rows = min target (total_rows - offset);
               chunk = (if offset = 0 \<and> chunk_rows = total_rows then batch
                        else k_slice K batch offset chunk_rows)
           in and_then (coalesce_chunk K target s chunk chunk_rows st)
                (\<lambda>st'. coalesce_batch K target s batch (offset + chunk_rows) st')
      else Inr st)"
  by pat_completeness auto
termination
  by (relation "measure (\<lambda>(K, target, s, batch, offset, st). rb_num_rows batch - offset)") auto

declare coalesce_batch.simps [simp del]

fun coalesce_all ::
  "kernels \<Rightarrow> nat \<Rightarrow> schema \<Rightarrow> record_batch list \<Rightarrow> coalesce_state \<Rightarrow> coalesce_state result" where
  "coalesce_all K target s [] st = Inr st"
| "coalesce_all K target s (b # bs) st =
     and_then (coalesce_batch K target s b 0 st) (coalesce_all K target s bs)"

definition coalesce_batches :: "kernels \<Rightarrow> nat \<Rightarrow> record_batch list \<Rightarrow> record_batch list result" where
  "coalesce_batches K target batches =
     (case batches of
        [] \<Rightarrow> Inr []
      | b # _ \<Rightarrow>
          and_then (coalesce_all K target (rb_schema b) batches
                      \<lparr>cs_result = [], cs_pending = [], cs_pending_rows = 0\<rparr>)
            (\<lambda>st. if cs_pending st \<noteq> []
                  then and_then (merge_pending K (rb_schema b) ''Failed to concat trailing input batches: ''
                                   (cs_pending st))
                         (\<lambda>merged. Inr (cs_result st @ [merged]))
                  else Inr (cs_result st)))"

subsection \<open>Coalescing keeps every row, in order, within the target size\<close>

lemma env_positive_pos: "0 < dflt \<Longrightarrow> 0 < env_positive mx dflt v"
  by (auto simp: env_positive_def split: option.splits)

lemma target_batch_rows_pos: "0 < target_batch_rows v"
  by (simp add: target_batch_rows_def env_positive_pos)

lemma gc_byte_view_columns_ok:
  assumes K: "kernels_ok K" and wf: "wf_batch b"
  shows "\<exists>c. gc_byte_view_columns K b = Inr c \<and> wf_batch c \<and> rb_schema c = rb_schema b \<and> rows c = rows b"
proof (cases "list_ex (\<lambda>f. is_view_type (fld_type f)) (rb_schema b)")
  case False
  then show ?thesis using wf by (simp add: gc_byte_view_columns_def)
next
  case True
  define cols where "cols = map (\<lambda>(f, col). if is_view_type (fld_type f) then k_gc K col else col)
             (zip (rb_schema b) (rb_columns b))"
  have gc: "arr_type (k_gc K a) = arr_type a" "arr_cells (k_gc K a) = arr_cells a" for a
    using kernels_okD(4)[OF K] by (simp_all add: gc_spec_def)
  have len: "length (rb_schema b) = length (rb_columns b)"
    using wf by (simp add: wf_batch_def list_all2_lengthD)
  have wf': "list_all2 (wf_column (rb_num_rows b)) (rb_schema b) cols"
    using wf len gc by (auto simp: cols_def wf_batch_def wf_column_def list_all2_conv_all_nth)
  have "rb_schema b \<noteq> []" using True by auto
  with wf' have "gc_byte_view_columns K b
      = Inr \<lparr>rb_schema = rb_schema b, rb_columns = cols, rb_num_rows = rb_num_rows b\<rparr>"
    using True kernels_okD(3)[OF K] by (simp add: gc_byte_view_columns_def cols_def try_new_spec_def)
  moreover have "map arr_cells cols = map arr_cells (rb_columns b)"
    using len gc by (intro nth_equalityI) (auto simp: cols_def)
  ultimately show ?thesis
    using wf' rows_congruent[of "\<lparr>rb_schema = rb_schema b, rb_columns = cols, rb_num_rows = rb_num_rows b\<rparr>" b]
    by (auto simp: wf_batch_def)
qed

lemma merge_pending_ok:
  assumes K: "kernels_ok K" and ne: "pending \<noteq> []"
    and wf: "\<And>b. b \<in> set pending \<Longrightarrow> wf_batch b \<and> rb_schema b = s"
  shows "\<exists>c. merge_pending K s msg pending = Inr c \<and> wf_batch c \<and> rb_schema c = s
     \<and> rows c = concat (map rows pending)"
proof (cases "length pending = 1")
  case True
  then obtain b where "pending = [b]" by (auto simp: length_Suc_conv)
  then show ?thesis using wf by (simp add: merge_pending_def)
next
  case False
  obtain c where c: "k_concat_batches K s pending = Inr c" "wf_batch c" "rb_schema c = s"
      "rows c = concat (map rows pending)"
    using concat_batches_ok[OF kernels_okD(2)[OF K] ne wf] by blast
  then show ?thesis using False gc_byte_view_columns_ok[OF K c(2)] by (auto simp: merge_pending_def)
qed

text \<open>
  The state of the loop: emitted batches are non-empty and within the target, pending
  batches are non-empty, below the target together, and counted by \<open>cs_pending_rows\<close>.
\<close>

definition good_batch :: "schema \<Rightarrow> record_batch \<Rightarrow> bool" where
  "good_batch s b \<longleftrightarrow> wf_batch b \<and> rb_schema b = s \<and> 0 < rb_num_rows b"

definition coalesce_inv :: "nat \<Rightarrow> schema \<Rightarrow> coalesce_state \<Rightarrow> bool" where
  "coalesce_inv target s st \<longleftrightarrow>
     list_all (\<lambda>b. good_batch s b \<and> rb_num_rows b \<le> target) (cs_result st)
     \<and> list_all (good_batch s) (cs_pending st)
     \<and> cs_pending_rows st = sum_list (map rb_num_rows (cs_pending st))
     \<and> cs_pending_rows st < target"

definition coalesce_rows :: "coalesce_state \<Rightarrow> cell option list list" where
  "coalesce_rows st = concat (map rows (cs_result st)) @ concat (map rows (cs_pending st))"

lemma rows_length_sum: "length (concat (map rows bs)) = sum_list (map rb_num_rows bs)"
  by (simp add: length_concat comp_def)

lemma flush_pending_ok:
  assumes K: "kernels_ok K" and t: "0 < target"
    and res: "list_all (\<lambda>b. good_batch s b \<and> rb_num_rows b \<le> target) (cs_result st)"
    and pend: "list_all (good_batch s) (cs_pending st)" "cs_pending st \<noteq> []"
    and sum: "sum_list (map rb_num_rows (cs_pending st)) \<le> target"
  shows "\<exists>st'. flush_pending K s msg st = Inr st' \<and> coalesce_inv target s st' \<and> cs_pending st' = []
     \<and> coalesce_rows st' = coalesce_rows st"
proof -
  have wf: "\<And>b. b \<in> set (cs_pending st) \<Longrightarrow> wf_batch b \<and> rb_schema b = s"
    using pend(1) by (auto simp: list_all_iff good_batch_def)
  obtain c where c: "merge_pending K s msg (cs_pending st) = Inr c" "wf_batch c" "rb_schema c = s"
      "rows c = concat (map rows (cs_pending st))"
    using merge_pending_ok[OF K pend(2) wf] by blast
  have n: "rb_num_rows c = sum_list (map rb_num_rows (cs_pending st))"
    using arg_cong[OF c(4), of length] by (simp add: rows_length_sum)
  have "0 < rb_num_rows c"
    using pend unfolding n by (cases "cs_pending st") (auto simp: good_batch_def)
  then have "good_batch s c \<and> rb_num_rows c \<le> target" using c sum n by (simp add: good_batch_def)
  then show ?thesis using c res t by (simp add: flush_pending_def coalesce_inv_def coalesce_rows_def)
qed

lemma coalesce_chunk_ok:
  assumes K: "kernels_ok K" and inv: "coalesce_inv target s st"
    and chunk: "good_batch s chunk" "rb_num_rows chunk = n" "n \<le> target"
  shows "\<exists>st'. coalesce_chunk K target s chunk n st = Inr st' \<and> coalesce_inv target s st'
     \<and> coalesce_rows st' = coalesce_rows st @ rows chunk"
proof -
  have t: "0 < target" using inv by (simp add: coalesce_inv_def)
  have invD: "list_all (\<lambda>b. good_batch s b \<and> rb_num_rows b \<le> target) (cs_result st)"
      "list_all (good_batch s) (cs_pending st)" "sum_list (map rb_num_rows (cs_pending st)) < target"
    using inv by (simp_all add: coalesce_inv_def)
  let ?r = "if cs_pending_rows st > 0 \<and> cs_pending_rows st + n > target
        then flush_pending K s ''Failed to concat input batches: '' st else Inr st"
  have "\<exists>st1. ?r = Inr st1 \<and> coalesce_inv target s st1 \<and> coalesce_rows st1 = coalesce_rows st
      \<and> cs_pending_rows st1 + n \<le> target"
  proof (cases "cs_pending_rows st > 0 \<and> cs_pending_rows st + n > target")
    case True
    then have "cs_pending st \<noteq> []" using inv by (auto simp: coalesce_inv_def)
    then obtain st1 where f: "flush_pending K s ''Failed to concat input batches: '' st = Inr st1"
        "coalesce_inv target s st1" "cs_pending st1 = []" "coalesce_rows st1 = coalesce_rows st"
      using flush_pending_ok[OF K t invD(1,2) _ less_imp_le[OF invD(3)]] by blast
    then have "cs_pending_rows st1 = 0" by (simp add: coalesce_inv_def)
    then show ?thesis using True chunk(3) f by simp
  next
    case False
    then have "cs_pending_rows st + n \<le> target" using chunk(3) by linarith
    with False show ?thesis using inv by simp
  qed
  then obtain st1 where st1: "?r = Inr st1" "coalesce_inv target s st1"
      "coalesce_rows st1 = coalesce_rows st" "cs_pending_rows st1 + n \<le> target" by blast
  have npos: "0 < n" using chunk by (simp add: good_batch_def)
  define st2 where "st2 = st1\<lparr>cs_pending := cs_pending st1 @ [chunk],
                             cs_pending_rows := cs_pending_rows st1 + n\<rparr>"
  have rows2: "coalesce_rows st2 = coalesce_rows st @ rows chunk"
    using st1(3) by (simp add: st2_def coalesce_rows_def)
  have step: "coalesce_chunk K target s chunk n st =
      (if n = target \<and> cs_pending_rows st1 = 0
       then Inr (st1\<lparr>cs_result := cs_result st1 @ [chunk]\<rparr>)
       else if cs_pending_rows st2 = target
       then flush_pending K s ''Failed to concat input batches at threshold: '' st2 else Inr st2)"
    unfolding coalesce_chunk_def st1(1) st2_def Let_def by (simp only: and_then.simps)
  have res2: "list_all (\<lambda>b. good_batch s b \<and> rb_num_rows b \<le> target) (cs_result st2)"
    and pend2: "list_all (good_batch s) (cs_pending st2)" "cs_pending st2 \<noteq> []"
    and sum2: "sum_list (map rb_num_rows (cs_pending st2)) \<le> target"
      "cs_pending_rows st2 = sum_list (map rb_num_rows (cs_pending st2))"
    using st1(2,4) chunk by (simp_all add: st2_def coalesce_inv_def)
  consider (emit) "n = target" "cs_pending_rows st1 = 0"
    | (full) "\<not> (n = target \<and> cs_pending_rows st1 = 0)" "cs_pending_rows st2 = target"
    | (hold) "\<not> (n = target \<and> cs_pending_rows st1 = 0)" "cs_pending_rows st2 \<noteq> target" by argo
  then show ?thesis
  proof cases
    case emit
    then have "cs_pending st1 = []"
      using st1(2) by (cases "cs_pending st1") (auto simp: coalesce_inv_def good_batch_def)
    moreover have "coalesce_chunk K target s chunk n st = Inr (st1\<lparr>cs_result := cs_result st1 @ [chunk]\<rparr>)"
      using emit step by simp
    ultimately show ?thesis using st1(2,3) chunk by (simp add: coalesce_inv_def coalesce_rows_def)
  next
    case full
    have eq: "coalesce_chunk K target s chunk n st
        = flush_pending K s ''Failed to concat input batches at threshold: '' st2"
      unfolding step by (simp only: full if_False simp_thms if_True)
    show ?thesis unfolding eq
      using flush_pending_ok[OF K t res2 pend2 sum2(1)] rows2 by fastforce
  next
    case hold
    have eq: "coalesce_chunk K target s chunk n st = Inr st2"
      unfolding step by (simp only: hold if_False simp_thms)
    have "coalesce_inv target s st2" using res2 pend2 sum2 hold unfolding coalesce_inv_def by simp
    then show ?thesis using eq rows2 by blast
  qed
qed

lemma coalesce_batch_ok:
  assumes K: "kernels_ok K" and b: "wf_batch b" "rb_schema b = s"
    and inv: "coalesce_inv target s st"
  shows "\<exists>st'. coalesce_batch K target s b off st = Inr st' \<and> coalesce_inv target s st'
     \<and> coalesce_rows st' = coalesce_rows st @ drop off (rows b)"
  using inv
proof (induction "rb_num_rows b - off" arbitrary: off st rule: less_induct)
  case less
  have t: "0 < target" using less.prems by (simp add: coalesce_inv_def)
  show ?case
  proof (cases "off < rb_num_rows b")
    case False
    then show ?thesis using less.prems by (subst coalesce_batch.simps) simp
  next
    case True
    define n where "n = min target (rb_num_rows b - off)"
    define chunk where "chunk = (if off = 0 \<and> n = rb_num_rows b then b else k_slice K b off n)"
    have n: "0 < n" "n \<le> target" "off + n \<le> rb_num_rows b" using True t by (auto simp: n_def)
    note sl = kernels_okD(1)[OF K]
    have chunk: "good_batch s chunk" "rb_num_rows chunk = n" "rows chunk = take n (drop off (rows b))"
      using b n wf_slice[OF sl b(1) n(3)] slice_simps[OF sl n(3)] rows_slice[OF sl b(1) n(3)]
      by (auto simp: chunk_def good_batch_def)
    obtain st1 where st1: "coalesce_chunk K target s chunk n st = Inr st1" "coalesce_inv target s st1"
        "coalesce_rows st1 = coalesce_rows st @ rows chunk"
      using coalesce_chunk_ok[OF K less.prems chunk(1,2) n(2)] by blast
    have "rb_num_rows b - (off + n) < rb_num_rows b - off" using n True by simp
    from less.hyps[OF this st1(2)] obtain st2 where st2: "coalesce_batch K target s b (off + n) st1 = Inr st2"
        "coalesce_inv target s st2" "coalesce_rows st2 = coalesce_rows st1 @ drop (off + n) (rows b)" by blast
    have "coalesce_batch K target s b off st = Inr st2"
      using True t st1(1) st2(1)
      by (subst coalesce_batch.simps) (simp only: Let_def flip: n_def chunk_def, simp)
    moreover have "take n (drop off (rows b)) @ drop (off + n) (rows b) = drop off (rows b)"
      by (metis append_take_drop_id drop_drop add.commute)
    ultimately show ?thesis using st1(3) st2 chunk(3) by simp
  qed
qed

lemma coalesce_all_ok:
  assumes K: "kernels_ok K" and "\<And>b. b \<in> set bs \<Longrightarrow> wf_batch b \<and> rb_schema b = s"
    and "coalesce_inv target s st"
  shows "\<exists>st'. coalesce_all K target s bs st = Inr st' \<and> coalesce_inv target s st'
     \<and> coalesce_rows st' = coalesce_rows st @ concat (map rows bs)"
  using assms(2,3)
proof (induction bs arbitrary: st)
  case Nil
  then show ?case by simp
next
  case (Cons b bs)
  obtain st1 where st1: "coalesce_batch K target s b 0 st = Inr st1" "coalesce_inv target s st1"
      "coalesce_rows st1 = coalesce_rows st @ rows b"
    using coalesce_batch_ok[OF K _ _ Cons.prems(2), of b 0] Cons.prems(1) by auto
  then show ?case using Cons.IH[OF _ st1(2)] Cons.prems(1) by auto
qed

lemma coalesce_batches_ok:
  assumes K: "kernels_ok K" and t: "0 < target"
    and wf: "list_all (\<lambda>b. wf_batch b \<and> rb_schema b = s) batches"
  shows "\<exists>out. coalesce_batches K target batches = Inr out
     \<and> list_all (\<lambda>b. wf_batch b \<and> rb_schema b = s \<and> 0 < rb_num_rows b \<and> rb_num_rows b \<le> target) out
     \<and> concat (map rows out) = concat (map rows batches)"
proof (cases batches)
  case Nil
  then show ?thesis by (simp add: coalesce_batches_def)
next
  case (Cons b bs)
  have s: "rb_schema b = s" using wf Cons by simp
  let ?st0 = "\<lparr>cs_result = [], cs_pending = [], cs_pending_rows = 0\<rparr>"
  have inv0: "coalesce_inv target s ?st0" using t by (simp add: coalesce_inv_def)
  have wf': "\<And>b. b \<in> set batches \<Longrightarrow> wf_batch b \<and> rb_schema b = s" using wf by (simp add: list_all_iff)
  obtain st where st: "coalesce_all K target s batches ?st0 = Inr st" "coalesce_inv target s st"
      "coalesce_rows st = concat (map rows batches)"
    using coalesce_all_ok[OF K wf' inv0] by (auto simp: coalesce_rows_def)
  show ?thesis
  proof (cases "cs_pending st = []")
    case True
    then show ?thesis using st Cons s
      by (auto simp: coalesce_batches_def coalesce_inv_def coalesce_rows_def good_batch_def list_all_iff)
  next
    case False
    obtain st' where st': "flush_pending K s ''Failed to concat trailing input batches: '' st = Inr st'"
        "coalesce_inv target s st'" "cs_pending st' = []" "coalesce_rows st' = coalesce_rows st"
      using flush_pending_ok[OF K t, of s st] st(2) False unfolding coalesce_inv_def by fastforce
    from st'(1) have "and_then (merge_pending K s ''Failed to concat trailing input batches: '' (cs_pending st))
        (\<lambda>merged. Inr (cs_result st @ [merged])) = Inr (cs_result st')"
      by (auto simp: flush_pending_def result_simps)
    then have "coalesce_batches K target batches = Inr (cs_result st')"
      using Cons s st(1) False by (simp add: coalesce_batches_def)
    then show ?thesis using st' st(3)
      by (auto simp: coalesce_inv_def coalesce_rows_def good_batch_def list_all_iff)
  qed
qed

text \<open>
  C17. Coalescing never fails on well-formed batches of one schema, emits only non-empty
  batches of at most the target size with the input's schema, and the rows of the output,
  read in order, are exactly the rows of the input, read in order.
\<close>

theorem coalesce_batches_keeps_rows:
  assumes K: "kernels_ok K" and t: "0 < target"
    and wf: "list_all (\<lambda>b. wf_batch b \<and> rb_schema b = s) batches"
  shows "\<exists>out. coalesce_batches K target batches = Inr out
     \<and> list_all (\<lambda>b. wf_batch b \<and> rb_schema b = s \<and> 0 < rb_num_rows b \<and> rb_num_rows b \<le> target) out
     \<and> concat (map rows out) = concat (map rows batches)"
  by (rule coalesce_batches_ok[OF assms])

end
