(* ===== verification/EtlSplit.thy ===== *)
theory EtlSplit
  imports EtlBatch
begin

text \<open>
  From a source batch to sink writes, \<^verbatim>\<open>crates/etl/src/lib.rs\<close>: removal of the bookkeeping
  columns, the insert-only fast path, the split into runs of one operation in \<^verbatim>\<open>_op_index\<close>
  order, and the chunked writes of \<^verbatim>\<open>write_segments_for_batch\<close>.
\<close>

subsection \<open>Operations and segments\<close>

datatype InsertOp = Insert | Update "string list" | Delete "string list"

record OpSegment =
  seg_op :: InsertOp
  seg_batch :: record_batch

definition op_str_to_insert_op :: "string \<Rightarrow> string list \<Rightarrow> InsertOp" where
  "op_str_to_insert_op op key_columns =
     (if op = ''u'' then Update key_columns
      else if op = ''d'' then Delete key_columns
      else Insert)"

definition indices_to_keep :: "schema \<Rightarrow> nat list" where
  "indices_to_keep s = filter (\<lambda>i. fld_name (s ! i) \<notin> set INTERNAL_COLUMNS) [0..<length s]"

definition strip_internal_columns :: "kernels \<Rightarrow> record_batch \<Rightarrow> record_batch result" where
  "strip_internal_columns K batch =
     (let s = rb_schema batch; keep = indices_to_keep s
      in if length keep = length s then Inr batch
         else k_try_new K (map (\<lambda>i. s ! i) keep) (map (\<lambda>i. rb_columns batch ! i) keep))"

text \<open>
  \<^verbatim>\<open>downcast_ref::<StringArray>\<close> succeeds exactly on \<open>DUtf8\<close> arrays. The value of a null slot
  is whatever the array implementation yields there, the field \<open>k_null_str\<close> of the kernels.
\<close>

definition string_value :: "kernels \<Rightarrow> array \<Rightarrow> nat \<Rightarrow> string" where
  "string_value K a i = (case arr_cells a ! i of Some (CStr s) \<Rightarrow> s | _ \<Rightarrow> k_null_str K)"

definition batch_is_insert_only :: "kernels \<Rightarrow> record_batch \<Rightarrow> MutationConfig \<Rightarrow> bool result" where
  "batch_is_insert_only K batch mutations =
     (if update_ratio mutations = 0 \<and> delete_ratio mutations = 0 then Inr True
      else case index_of (rb_schema batch) ''_op'' of
        None \<Rightarrow> Inr True
      | Some op_idx \<Rightarrow>
          (let op_array = rb_columns batch ! op_idx
           in if arr_type op_array \<noteq> DUtf8 then Inl ''_op column is not a StringArray''
              else Inr (list_all (\<lambda>i. arr_cells op_array ! i \<noteq> None \<and> string_value K op_array i = ''c'')
                     [0..<length (arr_cells op_array)])))"

text \<open>
  The walk of \<^verbatim>\<open>split_batch_by_op\<close> over the rows \<open>i, ..., n - 1\<close>: a run ends where the
  operation changes, and the last run is flushed after the loop.
\<close>

definition flush_run :: "kernels \<Rightarrow> record_batch \<Rightarrow> string list \<Rightarrow> nat \<Rightarrow> nat \<Rightarrow> string \<Rightarrow> OpSegment" where
  "flush_run K projected key_columns run_start i current_op =
     \<lparr>seg_op = op_str_to_insert_op current_op key_columns,
      seg_batch = k_slice K projected run_start (i - run_start)\<rparr>"

function split_loop ::
  "kernels \<Rightarrow> record_batch \<Rightarrow> string list \<Rightarrow> (nat \<Rightarrow> string) \<Rightarrow> nat \<Rightarrow> nat \<Rightarrow> nat \<Rightarrow> string
     \<Rightarrow> OpSegment list \<Rightarrow> OpSegment list" where
  "split_loop K projected key_columns val n i run_start current_op segments =
     (if i < n
      then if val i \<noteq> current_op
           then split_loop K projected key_columns val n (Suc i) i (val i)
                  (segments @ [flush_run K projected key_columns run_start i current_op])
           else split_loop K projected key_columns val n (Suc i) run_start current_op segments
      else segments @ [flush_run K projected key_columns run_start n current_op])"
  by pat_completeness auto
termination
  by (relation "measure (\<lambda>(K, p, ks, val, n, i, r, c, segs). n - i)") auto

declare split_loop.simps [simp del]

definition sort_by_op_index :: "kernels \<Rightarrow> record_batch \<Rightarrow> record_batch result" where
  "sort_by_op_index K batch =
     (case index_of (rb_schema batch) ''_op_index'' of
        None \<Rightarrow> Inr batch
      | Some oi_idx \<Rightarrow>
          and_then (k_sort_to_indices K (rb_columns batch ! oi_idx)) (\<lambda>sort_indices.
          and_then (collect_results (\<lambda>c. k_take K c sort_indices) (rb_columns batch)) (\<lambda>columns.
            k_try_new K (rb_schema batch) columns)))"

definition split_batch_by_op :: "kernels \<Rightarrow> record_batch \<Rightarrow> string list \<Rightarrow> OpSegment list result" where
  "split_batch_by_op K batch key_columns =
     (case index_of (rb_schema batch) ''_op'' of
        None \<Rightarrow> and_then (strip_internal_columns K batch)
                  (\<lambda>stripped. Inr [\<lparr>seg_op = Insert, seg_batch = stripped\<rparr>])
      | Some op_idx \<Rightarrow>
          and_then (sort_by_op_index K batch) (\<lambda>sorted_batch.
            let op_array = rb_columns sorted_batch ! op_idx; num_rows = rb_num_rows sorted_batch
            in if arr_type op_array \<noteq> DUtf8 then Inl ''_op column is not a StringArray''
               else if num_rows = 0 then Inr []
               else and_then (strip_internal_columns K sorted_batch) (\<lambda>projected.
                 Inr (split_loop K projected key_columns (string_value K op_array) num_rows 1 0
                        (string_value K op_array 0) []))))"

definition build_segments_for_batch ::
  "kernels \<Rightarrow> record_batch \<Rightarrow> string list \<Rightarrow> MutationConfig \<Rightarrow> OpSegment list result" where
  "build_segments_for_batch K batch key_columns mutations =
     and_then (batch_is_insert_only K batch mutations) (\<lambda>insert_only.
       if insert_only
       then and_then (strip_internal_columns K batch)
              (\<lambda>stripped. Inr [\<lparr>seg_op = Insert, seg_batch = stripped\<rparr>])
       else split_batch_by_op K batch key_columns)"

subsection \<open>Removing the bookkeeping columns\<close>

definition strip_row :: "schema \<Rightarrow> 'a list \<Rightarrow> 'a list" where
  "strip_row s r = map (\<lambda>i. r ! i) (indices_to_keep s)"

lemma indices_to_keep_lt: "i \<in> set (indices_to_keep s) \<Longrightarrow> i < length s"
  by (simp add: indices_to_keep_def)

lemma indices_to_keep_all:
  assumes "length (indices_to_keep s) = length s"
  shows "indices_to_keep s = [0..<length s]"
proof -
  have "length (filter (\<lambda>i. fld_name (s ! i) \<notin> set INTERNAL_COLUMNS) [0..<length s]) = length [0..<length s]"
    using assms by (simp add: indices_to_keep_def)
  then show ?thesis unfolding indices_to_keep_def
    by (metis filter_True length_filter_less less_irrefl)
qed

lemma strip_row_all:
  assumes "length (indices_to_keep s) = length s" "length r = length s"
  shows "strip_row s r = r"
  using assms(2) unfolding strip_row_def indices_to_keep_all[OF assms(1)] by (metis map_nth)

lemma map_nth_keep: "map (\<lambda>i. s ! i) (indices_to_keep s) = schema_without_internal_columns s"
proof -
  have "filter (\<lambda>f. fld_name f \<notin> set INTERNAL_COLUMNS) (map (\<lambda>i. s ! i) [0..<length s])
      = map (\<lambda>i. s ! i) (indices_to_keep s)"
    by (simp add: filter_map comp_def indices_to_keep_def)
  then show ?thesis by (simp add: map_nth schema_without_internal_columns_def)
qed

lemma wf_batch_columns: "wf_batch b \<Longrightarrow> length (rb_columns b) = length (rb_schema b)"
  by (simp add: wf_batch_def list_all2_lengthD)

lemma row_width: "r \<in> set (rows b) \<Longrightarrow> length r = length (rb_columns b)"
  by (auto simp: rows_def)

lemma strip_internal_columns_ok:
  assumes K: "kernels_ok K" and wf: "wf_batch b"
    and ne: "schema_without_internal_columns (rb_schema b) \<noteq> []"
  shows "\<exists>c. strip_internal_columns K b = Inr c \<and> wf_batch c
     \<and> rb_schema c = schema_without_internal_columns (rb_schema b)
     \<and> rb_num_rows c = rb_num_rows b \<and> rows c = map (strip_row (rb_schema b)) (rows b)"
proof (cases "length (indices_to_keep (rb_schema b)) = length (rb_schema b)")
  case True
  have "map (strip_row (rb_schema b)) (rows b) = rows b"
    by (intro map_idI strip_row_all[OF True]) (simp add: row_width wf_batch_columns[OF wf])
  moreover have "schema_without_internal_columns (rb_schema b) = rb_schema b"
    using indices_to_keep_all[OF True] map_nth_keep[of "rb_schema b"] by (simp add: map_nth)
  ultimately show ?thesis using True wf by (simp add: strip_internal_columns_def Let_def)
next
  case False
  let ?s = "rb_schema b" and ?keep = "indices_to_keep (rb_schema b)"
  let ?c = "\<lparr>rb_schema = map (\<lambda>i. ?s ! i) ?keep, rb_columns = map (\<lambda>i. rb_columns b ! i) ?keep,
             rb_num_rows = rb_num_rows b\<rparr>"
  have cols: "list_all2 (wf_column (rb_num_rows b)) (rb_schema ?c) (rb_columns ?c)"
    using wf indices_to_keep_lt[of _ ?s]
    by (auto simp: wf_batch_def list_all2_conv_all_nth dest!: nth_mem)
  have "?keep \<noteq> []" using ne by (auto simp flip: map_nth_keep)
  then have "strip_internal_columns K b = Inr ?c"
    using False cols kernels_okD(3)[OF K] by (simp add: strip_internal_columns_def Let_def try_new_spec_def)
  moreover have "rows ?c = map (strip_row ?s) (rows b)"
    using wf_batch_columns[OF wf] indices_to_keep_lt[of _ ?s]
    by (auto simp: rows_def strip_row_def comp_def)
  ultimately show ?thesis using cols map_nth_keep[of ?s] by (simp add: wf_batch_def)
qed

subsection \<open>Splitting into runs\<close>

definition row_op :: "kernels \<Rightarrow> schema \<Rightarrow> cell option list \<Rightarrow> string" where
  "row_op K s r = (case index_of s ''_op'' of
     None \<Rightarrow> ''c'' | Some j \<Rightarrow> (case r ! j of Some (CStr op) \<Rightarrow> op | _ \<Rightarrow> k_null_str K))"

definition row_op_index :: "schema \<Rightarrow> cell option list \<Rightarrow> int" where
  "row_op_index s r = (case index_of s ''_op_index'' of None \<Rightarrow> 0 | Some j \<Rightarrow> cell_int (r ! j))"

text \<open>The rows of a list of segments in order, each with the operation applied to it.\<close>

definition tagged_rows :: "OpSegment list \<Rightarrow> (InsertOp \<times> cell option list) list" where
  "tagged_rows segs = concat (map (\<lambda>seg. map (Pair (seg_op seg)) (rows (seg_batch seg))) segs)"

definition good_segment :: "schema \<Rightarrow> OpSegment \<Rightarrow> bool" where
  "good_segment s seg \<longleftrightarrow> wf_batch (seg_batch seg) \<and> rb_schema (seg_batch seg) = s
     \<and> 0 < rb_num_rows (seg_batch seg)"

lemma tagged_rows_simps [simp]:
  "tagged_rows [] = []"
  "tagged_rows (xs @ ys) = tagged_rows xs @ tagged_rows ys"
  "tagged_rows (x # xs) = map (Pair (seg_op x)) (rows (seg_batch x)) @ tagged_rows xs"
  by (simp_all add: tagged_rows_def)

lemma index_of_lt: "index_of s name = Some j \<Longrightarrow> j < length s"
  by (induction s arbitrary: j) (auto split: if_splits)

lemma take_drop_nth_map: "b \<le> length xs \<Longrightarrow> take (b - a) (drop a xs) = map (\<lambda>j. xs ! j) [a..<b]"
  by (rule nth_equalityI) auto

lemma flush_run_ok:
  assumes K: "kernels_ok K" and wf: "wf_batch p" and i: "r < i" "i \<le> rb_num_rows p"
  shows "good_segment (rb_schema p) (flush_run K p ks r i c)"
    and "rows (seg_batch (flush_run K p ks r i c)) = map (\<lambda>j. rows p ! j) [r..<i]"
    and "seg_op (flush_run K p ks r i c) = op_str_to_insert_op c ks"
proof -
  have le: "r + (i - r) \<le> rb_num_rows p" using i by simp
  note sl = kernels_okD(1)[OF K]
  show "good_segment (rb_schema p) (flush_run K p ks r i c)"
    using wf_slice[OF sl wf le] slice_simps[OF sl le] i by (simp add: good_segment_def flush_run_def)
  show "rows (seg_batch (flush_run K p ks r i c)) = map (\<lambda>j. rows p ! j) [r..<i]"
    using rows_slice[OF sl wf le] take_drop_nth_map[of i "rows p" r] i by (simp add: flush_run_def)
  show "seg_op (flush_run K p ks r i c) = op_str_to_insert_op c ks"
    by (simp add: flush_run_def)
qed

lemma split_loop_steps:
  "\<not> i < n \<Longrightarrow> split_loop K p ks val n i r c segs = segs @ [flush_run K p ks r n c]"
  "i < n \<Longrightarrow> val i = c \<Longrightarrow> split_loop K p ks val n i r c segs = split_loop K p ks val n (Suc i) r c segs"
  "i < n \<Longrightarrow> val i \<noteq> c \<Longrightarrow> split_loop K p ks val n i r c segs
     = split_loop K p ks val n (Suc i) i (val i) (segs @ [flush_run K p ks r i c])"
  by (simp_all add: split_loop.simps[of K p ks val n i])

lemma split_loop_tagged:
  assumes K: "kernels_ok K" and wf: "wf_batch p"
    and r: "r < i" "i \<le> rb_num_rows p" and run: "\<And>j. r \<le> j \<Longrightarrow> j < i \<Longrightarrow> val j = c"
  shows "tagged_rows (split_loop K p ks val (rb_num_rows p) i r c segs)
     = tagged_rows segs @ map (\<lambda>j. (op_str_to_insert_op (val j) ks, rows p ! j)) [r..<rb_num_rows p]"
  using r run
proof (induction "rb_num_rows p - i" arbitrary: i r c segs)
  case 0
  then have "i = rb_num_rows p" by simp
  then show ?case using 0 flush_run_ok[OF K wf, of r i ks c]
    by (simp add: split_loop_steps(1))
next
  case (Suc x)
  then have i: "i < rb_num_rows p" "x = rb_num_rows p - Suc i" by simp_all
  show ?case
  proof (cases "val i = c")
    case True
    have "val j = c" if "r \<le> j" "j < Suc i" for j
      using that True Suc.prems(3)[of j] by (cases "j = i") simp_all
    then have "tagged_rows (split_loop K p ks val (rb_num_rows p) (Suc i) r c segs)
        = tagged_rows segs @ map (\<lambda>j. (op_str_to_insert_op (val j) ks, rows p ! j)) [r..<rb_num_rows p]"
      using Suc.prems(1) i by (intro Suc.hyps(1)[OF i(2)]) simp_all
    then show ?thesis by (simp only: split_loop_steps(2)[of i _ val c, OF i(1) True])
  next
    case False
    have "[r..<rb_num_rows p] = [r..<i] @ [i..<rb_num_rows p]"
      using i Suc.prems(1) upt_add_eq_append[of r i "rb_num_rows p - i"] by simp
    moreover have "map (Pair (op_str_to_insert_op c ks)) (map (\<lambda>j. rows p ! j) [r..<i])
        = map (\<lambda>j. (op_str_to_insert_op (val j) ks, rows p ! j)) [r..<i]"
      using Suc.prems(3) by simp
    ultimately show ?thesis
      using False i Suc.prems(1,2) Suc.hyps(1)[OF i(2), of i "val i"] flush_run_ok[OF K wf, of r i ks c]
      by (simp add: split_loop_steps(3) less_Suc_eq)
  qed
qed

text \<open>Runs are maximal, as far as the operation strings are the three the generator emits.\<close>

definition op_strings :: "string set" where "op_strings = {''c'', ''u'', ''d''}"

lemma op_str_to_insert_op_inj:
  "a \<in> op_strings \<Longrightarrow> b \<in> op_strings \<Longrightarrow> a \<noteq> b \<Longrightarrow> op_str_to_insert_op a ks \<noteq> op_str_to_insert_op b ks"
  by (auto simp: op_strings_def op_str_to_insert_op_def)

lemma split_loop_segments:
  assumes K: "kernels_ok K" and wf: "wf_batch p"
    and r: "r < i" "i \<le> rb_num_rows p" and c: "c \<in> op_strings"
    and val: "\<And>j. j < rb_num_rows p \<Longrightarrow> val j \<in> op_strings"
    and segs: "list_all (good_segment (rb_schema p)) segs"
      "distinct_adj (map seg_op segs @ [op_str_to_insert_op c ks])"
  shows "list_all (good_segment (rb_schema p)) (split_loop K p ks val (rb_num_rows p) i r c segs)
     \<and> distinct_adj (map seg_op (split_loop K p ks val (rb_num_rows p) i r c segs))"
  using r c segs
proof (induction "rb_num_rows p - i" arbitrary: i r c segs)
  case 0
  then have "i = rb_num_rows p" by simp
  then show ?case using 0 flush_run_ok[OF K wf, of r i ks c] by (simp add: split_loop_steps(1))
next
  case (Suc x)
  then have i: "i < rb_num_rows p" "x = rb_num_rows p - Suc i" by simp_all
  show ?case
  proof (cases "val i = c")
    case True
    then show ?thesis using i Suc.prems Suc.hyps(1)[OF i(2), of r c segs]
      by (simp add: split_loop_steps(2))
  next
    case False
    have "op_str_to_insert_op c ks \<noteq> op_str_to_insert_op (val i) ks"
      using op_str_to_insert_op_inj[OF Suc.prems(3) val[OF i(1)]] False by blast
    then show ?thesis
      using False i Suc.prems Suc.hyps(1)[OF i(2), of i "val i" "segs @ [flush_run K p ks r i c]"] val
        flush_run_ok[OF K wf, of r i ks c]
      by (simp add: split_loop_steps(3) distinct_adj_append_iff)
  qed
qed

subsection \<open>Sorting by operation index\<close>

text \<open>
  A batch as the generator writes it: an \<^verbatim>\<open>_op\<close> column of the three operation strings, an
  \<^verbatim>\<open>_op_index\<close> column of integers, and at least one column of data.
\<close>

definition op_batch :: "record_batch \<Rightarrow> bool" where
  "op_batch b \<longleftrightarrow> wf_batch b
     \<and> (case index_of (rb_schema b) ''_op'' of None \<Rightarrow> False
        | Some j \<Rightarrow> arr_type (rb_columns b ! j) = DUtf8
            \<and> (\<forall>c \<in> set (arr_cells (rb_columns b ! j)). \<exists>op \<in> op_strings. c = Some (CStr op)))
     \<and> (case index_of (rb_schema b) ''_op_index'' of None \<Rightarrow> False
        | Some j \<Rightarrow> int_cells (rb_columns b ! j))
     \<and> schema_without_internal_columns (rb_schema b) \<noteq> []"

lemma op_batchD:
  assumes "op_batch b"
  obtains op oi where "wf_batch b" "index_of (rb_schema b) ''_op'' = Some op"
    "arr_type (rb_columns b ! op) = DUtf8"
    "\<And>i. i < rb_num_rows b \<Longrightarrow> \<exists>s \<in> op_strings. arr_cells (rb_columns b ! op) ! i = Some (CStr s)"
    "index_of (rb_schema b) ''_op_index'' = Some oi" "int_cells (rb_columns b ! oi)"
    "schema_without_internal_columns (rb_schema b) \<noteq> []" "op < length (rb_columns b)" "oi < length (rb_columns b)"
proof -
  from assms obtain op oi where a: "wf_batch b" "index_of (rb_schema b) ''_op'' = Some op"
    "arr_type (rb_columns b ! op) = DUtf8"
    "\<forall>c \<in> set (arr_cells (rb_columns b ! op)). \<exists>s \<in> op_strings. c = Some (CStr s)"
    "index_of (rb_schema b) ''_op_index'' = Some oi" "int_cells (rb_columns b ! oi)"
    "schema_without_internal_columns (rb_schema b) \<noteq> []"
    by (auto simp: op_batch_def split: option.splits)
  have len: "length (rb_columns b) = length (rb_schema b)" using wf_batch_columns a(1) .
  have "length (arr_cells (rb_columns b ! op)) = rb_num_rows b"
    using a(1) index_of_lt[OF a(2)] by (simp add: wf_batch_def list_all2_conv_all_nth wf_column_def)
  then show thesis
    using that[OF a(1,2,3) _ a(5,6,7)] a(4) index_of_lt[OF a(2)] index_of_lt[OF a(5)] len by auto
qed

lemma wf_batch_cells: "wf_batch b \<Longrightarrow> a \<in> set (rb_columns b) \<Longrightarrow> length (arr_cells a) = rb_num_rows b"
  by (auto simp: wf_batch_def list_all2_conv_all_nth wf_column_def in_set_conv_nth)

lemma wf_column_permute:
  "wf_column n f a \<Longrightarrow> (\<And>i. i \<in> set idx \<Longrightarrow> i < n)
     \<Longrightarrow> wf_column (length idx) f (a\<lparr>arr_cells := map (\<lambda>i. arr_cells a ! i) idx\<rparr>)"
  unfolding wf_column_def by (auto dest!: nth_mem) (metis nth_mem)

lemma mset_map_upt:
  assumes "mset idx = mset [0..<length xs]"
  shows "mset (map (\<lambda>i. xs ! i) idx) = mset xs"
proof -
  have "mset (map (\<lambda>i. xs ! i) idx) = mset (map (\<lambda>i. xs ! i) [0..<length xs])"
    using assms by (metis mset_map)
  then show ?thesis by (simp add: map_nth)
qed

lemma sort_by_op_index_ok:
  assumes K: "kernels_ok K" and b: "op_batch b"
  shows "\<exists>sb. sort_by_op_index K b = Inr sb \<and> wf_batch sb \<and> rb_schema sb = rb_schema b
     \<and> mset (rows sb) = mset (rows b) \<and> rb_num_rows sb = rb_num_rows b
     \<and> sorted (map (row_op_index (rb_schema b)) (rows sb))
     \<and> map arr_type (rb_columns sb) = map arr_type (rb_columns b)"
proof -
  obtain op oi where wf: "wf_batch b" and oi: "index_of (rb_schema b) ''_op_index'' = Some oi"
      "int_cells (rb_columns b ! oi)" "oi < length (rb_columns b)" using op_batchD[OF b] by metis
  let ?n = "rb_num_rows b"
  have cells: "length (arr_cells a) = ?n" if "a \<in> set (rb_columns b)" for a
    using wf_batch_cells[OF wf that] .
  obtain idx where idx: "k_sort_to_indices K (rb_columns b ! oi) = Inr idx" "mset idx = mset [0..<?n]"
      "sorted (map (\<lambda>i. cell_int (arr_cells (rb_columns b ! oi) ! i)) idx)"
    using kernels_okD(5)[OF K] oi cells[of "rb_columns b ! oi"] by (fastforce simp: sort_spec_def)
  have lt: "i < ?n" if "i \<in> set idx" for i using that mset_eq_setD[OF idx(2)] by simp
  have len: "length idx = ?n" using arg_cong[OF idx(2), of size] by simp
  define tk where "tk a = a\<lparr>arr_cells := map (\<lambda>i. arr_cells a ! i) idx\<rparr>" for a :: array
  define sb where "sb = \<lparr>rb_schema = rb_schema b, rb_columns = map tk (rb_columns b), rb_num_rows = ?n\<rparr>"
  have cols: "collect_results (\<lambda>c. k_take K c idx) (rb_columns b) = Inr (map tk (rb_columns b))"
    using kernels_okD(6)[OF K] lt cells by (intro collect_results_all_Inr) (simp add: take_spec_def tk_def)
  have wfs: "list_all2 (wf_column ?n) (rb_schema b) (map tk (rb_columns b))"
    using wf wf_column_permute[of ?n _ _ idx] lt len
    by (simp add: wf_batch_def list_all2_map2 tk_def list_all2_conv_all_nth)
  have "rb_schema b \<noteq> []" using oi(1) by auto
  then have "sort_by_op_index K b = Inr sb"
    using idx(1) cols oi(1) wfs kernels_okD(3)[OF K]
    by (simp add: sort_by_op_index_def try_new_spec_def sb_def)
  moreover have rows: "rows sb = map (\<lambda>i. rows b ! i) idx"
    using lt len by (intro nth_equalityI) (simp_all add: sb_def rows_nth tk_def)
  moreover have key: "map (row_op_index (rb_schema b)) (rows sb)
      = map (\<lambda>i. cell_int (arr_cells (rb_columns b ! oi) ! i)) idx"
    using lt oi(1,3) unfolding rows by (simp add: row_op_index_def rows_nth)
  moreover have "sorted (map (row_op_index (rb_schema b)) (rows sb))" using idx(3) by (simp only: key)
  moreover have "mset (rows sb) = mset (rows b)"
    unfolding rows using mset_map_upt[of idx "rows b"] idx(2) by simp
  ultimately show ?thesis using wfs by (simp add: sb_def wf_batch_def tk_def comp_def)
qed

definition tag_row :: "kernels \<Rightarrow> schema \<Rightarrow> string list \<Rightarrow> cell option list \<Rightarrow> InsertOp \<times> cell option list" where
  "tag_row K s key_columns r = (op_str_to_insert_op (row_op K s r) key_columns, strip_row s r)"

lemma row_op_sorted:
  assumes wf: "wf_batch b" and j: "index_of (rb_schema b) ''_op'' = Some j" and i: "i < rb_num_rows b"
  shows "string_value K (rb_columns b ! j) i = row_op K (rb_schema b) (rows b ! i)"
  using i index_of_lt[OF j] wf_batch_columns[OF wf]
  by (simp add: string_value_def row_op_def j rows_nth split: option.splits)

lemma op_batch_row_op:
  assumes "op_batch b" and "r \<in> set (rows b)"
  shows "row_op K (rb_schema b) r \<in> op_strings"
proof -
  obtain op oi where b: "index_of (rb_schema b) ''_op'' = Some op" "op < length (rb_columns b)"
    "\<And>i. i < rb_num_rows b \<Longrightarrow> \<exists>s \<in> op_strings. arr_cells (rb_columns b ! op) ! i = Some (CStr s)"
    using op_batchD[OF assms(1)] by metis
  obtain i where i: "i < rb_num_rows b" "r = rows b ! i"
    using assms(2) by (metis in_set_conv_nth length_rows)
  then show ?thesis using b(1,2) b(3)[OF i(1)] by (auto simp: row_op_def rows_nth)
qed

lemma filter_eq_distinct: "distinct zs \<Longrightarrow> k \<in> set zs \<Longrightarrow> filter (\<lambda>x. x = k) zs = [k]"
  by (induction zs) (auto simp: filter_empty_conv)

lemma sorted_key_unique:
  assumes "mset xs = mset ys" "sorted (map f xs)" "distinct (map f ys)"
  shows "xs = sort_key f ys"
proof (rule sym, rule properties_for_sort_key)
  show "mset xs = mset ys" by fact
  show "sorted (map f xs)" by fact
next
  fix k assume k: "k \<in> set xs"
  have inj: "inj_on f (set ys)" and d: "distinct ys" using assms(3) by (simp_all add: distinct_map)
  have set: "set xs = set ys" using mset_eq_setD[OF assms(1)] .
  have dx: "distinct xs" using mset_eq_imp_distinct_iff[OF assms(1)] d by simp
  have *: "filter (\<lambda>x. f k = f x) zs = [k]" if "distinct zs" "set zs = set ys" "k \<in> set zs" for zs
  proof -
    have "filter (\<lambda>x. f k = f x) zs = filter (\<lambda>x. x = k) zs"
      using that inj k set by (intro filter_cong) (auto dest: inj_onD)
    then show ?thesis by (simp only: filter_eq_distinct[OF that(1,3)])
  qed
  show "filter (\<lambda>x. f k = f x) xs = filter (\<lambda>x. f k = f x) ys"
    using *[OF dx set k] *[OF d refl] k set by simp
qed

lemma split_batch_by_op_ok:
  assumes K: "kernels_ok K" and b: "op_batch b"
  shows "\<exists>segs srt. split_batch_by_op K b key_columns = Inr segs
     \<and> mset srt = mset (rows b) \<and> sorted (map (row_op_index (rb_schema b)) srt)
     \<and> (distinct (map (row_op_index (rb_schema b)) (rows b))
          \<longrightarrow> srt = sort_key (row_op_index (rb_schema b)) (rows b))
     \<and> tagged_rows segs = map (tag_row K (rb_schema b) key_columns) srt
     \<and> list_all (good_segment (schema_without_internal_columns (rb_schema b))) segs
     \<and> distinct_adj (map seg_op segs)"
proof -
  let ?s = "rb_schema b"
  obtain op oi where op: "index_of ?s ''_op'' = Some op" "arr_type (rb_columns b ! op) = DUtf8"
      "op < length (rb_columns b)" and ne: "schema_without_internal_columns ?s \<noteq> []"
    using op_batchD[OF b] by metis
  obtain sb where sb: "sort_by_op_index K b = Inr sb" "wf_batch sb" "rb_schema sb = ?s"
      "mset (rows sb) = mset (rows b)" "rb_num_rows sb = rb_num_rows b"
      "sorted (map (row_op_index ?s) (rows sb))" "map arr_type (rb_columns sb) = map arr_type (rb_columns b)"
    using sort_by_op_index_ok[OF K b] by blast
  have ty: "arr_type (rb_columns sb ! op) = DUtf8"
    using op(2,3) sb(7) by (metis length_map nth_map)
  let ?val = "string_value K (rb_columns sb ! op)"
  have val: "?val i = row_op K ?s (rows sb ! i)" if "i < rb_num_rows sb" for i
    using row_op_sorted[OF sb(2)] op(1) sb(3) that by metis
  have vals: "?val i \<in> op_strings" if "i < rb_num_rows sb" for i
    using that op_batch_row_op[OF b] mset_eq_setD[OF sb(4)] nth_mem[of i "rows sb"] by (simp add: val)
  obtain p where p: "strip_internal_columns K sb = Inr p" "wf_batch p"
      "rb_schema p = schema_without_internal_columns ?s" "rb_num_rows p = rb_num_rows sb"
      "rows p = map (strip_row ?s) (rows sb)"
    using strip_internal_columns_ok[OF K sb(2)] ne sb(3) by metis
  have uniq: "distinct (map (row_op_index ?s) (rows b)) \<longrightarrow> rows sb = sort_key (row_op_index ?s) (rows b)"
    using sorted_key_unique[OF sb(4,6)] by blast
  show ?thesis
  proof (cases "rb_num_rows sb = 0")
    case True
    then have "split_batch_by_op K b key_columns = Inr []" "rows sb = []"
      using op(1) sb(1) ty by (simp_all add: split_batch_by_op_def rows_def)
    then show ?thesis using uniq sb(4) by (intro exI[of _ "[]"]) simp
  next
    case False
    define segs where "segs = split_loop K p key_columns ?val (rb_num_rows p) 1 0 (?val 0) []"
    have eq: "split_batch_by_op K b key_columns = Inr segs"
      using op(1) sb(1) ty False p(1,4) by (simp add: split_batch_by_op_def segs_def Let_def)
    have "tagged_rows segs = map (\<lambda>j. (op_str_to_insert_op (?val j) key_columns, rows p ! j)) [0..<rb_num_rows p]"
      using split_loop_tagged[OF K p(2), of 0 1 ?val "?val 0"] False p(4) by (simp add: segs_def)
    also have "\<dots> = map (\<lambda>j. tag_row K ?s key_columns (rows sb ! j)) [0..<rb_num_rows sb]"
      using p(4,5) val by (simp add: tag_row_def)
    also have "\<dots> = map (tag_row K ?s key_columns) (rows sb)"
      by (rule nth_equalityI) simp_all
    finally have tagged: "tagged_rows segs = map (tag_row K ?s key_columns) (rows sb)" .
    have "list_all (good_segment (rb_schema p)) segs \<and> distinct_adj (map seg_op segs)"
      unfolding segs_def using False p(4) vals
      by (intro split_loop_segments[OF K p(2)]) simp_all
    then show ?thesis using eq tagged sb(4,6) uniq p(3) by metis
  qed
qed

text \<open>
  C16. Splitting a batch never fails on the batches the generator writes. The rows of the
  segments, read in order and each with the operation its segment is written with, are the
  rows of the batch in ascending \<^verbatim>\<open>_op_index\<close> order (the only such order when the indices are
  distinct), each with its own operation and without the bookkeeping columns. No segment is
  empty, and two neighbouring segments have different operations.
\<close>

theorem split_batch_by_op_replays:
  assumes K: "kernels_ok K" and b: "op_batch b"
  shows "\<exists>segs srt. split_batch_by_op K b key_columns = Inr segs
     \<and> mset srt = mset (rows b) \<and> sorted (map (row_op_index (rb_schema b)) srt)
     \<and> (distinct (map (row_op_index (rb_schema b)) (rows b))
          \<longrightarrow> srt = sort_key (row_op_index (rb_schema b)) (rows b))
     \<and> tagged_rows segs = map (tag_row K (rb_schema b) key_columns) srt
     \<and> list_all (good_segment (schema_without_internal_columns (rb_schema b))) segs
     \<and> distinct_adj (map seg_op segs)"
  by (rule split_batch_by_op_ok[OF assms])

text \<open>A batch for the witnesses: four rows over one data column, stored out of index order.\<close>

definition int_column :: "int list \<Rightarrow> array" where
  "int_column xs = \<lparr>arr_type = DInt64, arr_cells = map (\<lambda>x. Some (CInt x)) xs\<rparr>"

definition str_column :: "string list \<Rightarrow> array" where
  "str_column xs = \<lparr>arr_type = DUtf8, arr_cells = map (\<lambda>x. Some (CStr x)) xs\<rparr>"

definition sample_schema :: schema where
  "sample_schema =
     [\<lparr>fld_name = ''k'', fld_type = DInt64, fld_nullable = False\<rparr>,
      \<lparr>fld_name = ''_op'', fld_type = DUtf8, fld_nullable = False\<rparr>,
      \<lparr>fld_name = ''_op_index'', fld_type = DInt64, fld_nullable = False\<rparr>]"

definition sample_batch :: record_batch where
  "sample_batch = \<lparr>rb_schema = sample_schema,
     rb_columns = [int_column [7, 7, 8, 9], str_column [''d'', ''c'', ''c'', ''u''], int_column [3, 0, 1, 2]],
     rb_num_rows = 4\<rparr>"

lemma sample_batch_ok: "op_batch sample_batch"
  by (simp add: op_batch_def wf_batch_def wf_column_def sample_batch_def sample_schema_def int_column_def
      str_column_def op_strings_def int_cells_def schema_without_internal_columns_def INTERNAL_COLUMNS_def)

theorem split_batch_by_op_replays_witness:
  "\<exists>segs. split_batch_by_op list_kernels sample_batch [''k''] = Inr segs
     \<and> tagged_rows segs = [(Insert, [Some (CInt 7)]), (Insert, [Some (CInt 8)]),
          (Update [''k''], [Some (CInt 9)]), (Delete [''k''], [Some (CInt 7)])]"
proof -
  have "distinct (map (row_op_index (rb_schema sample_batch)) (rows sample_batch))" by code_simp
  moreover have "map (tag_row list_kernels (rb_schema sample_batch) [''k''])
      (sort_key (row_op_index (rb_schema sample_batch)) (rows sample_batch))
      = [(Insert, [Some (CInt 7)]), (Insert, [Some (CInt 8)]),
          (Update [''k''], [Some (CInt 9)]), (Delete [''k''], [Some (CInt 7)])]" by code_simp
  ultimately show ?thesis
    using split_batch_by_op_replays[OF list_kernels_ok sample_batch_ok, of "[''k'']"] by metis
qed

subsection \<open>The insert-only fast path\<close>

lemma batch_is_insert_only_iff:
  assumes "op_batch b" and "\<not> (update_ratio m = 0 \<and> delete_ratio m = 0)"
  shows "batch_is_insert_only K b m = Inr (\<forall>r \<in> set (rows b). row_op K (rb_schema b) r = ''c'')"
proof -
  obtain op oi where b: "wf_batch b" "index_of (rb_schema b) ''_op'' = Some op" "op < length (rb_columns b)"
    "arr_type (rb_columns b ! op) = DUtf8"
    "\<And>i. i < rb_num_rows b \<Longrightarrow> \<exists>s \<in> op_strings. arr_cells (rb_columns b ! op) ! i = Some (CStr s)"
    using op_batchD[OF assms(1)] by metis
  have len: "length (arr_cells (rb_columns b ! op)) = rb_num_rows b"
    using wf_batch_cells[OF b(1)] b(3) by simp
  have nn: "arr_cells (rb_columns b ! op) ! i \<noteq> None" if "i < rb_num_rows b" for i
    using b(5)[OF that] by auto
  have "batch_is_insert_only K b m
      = Inr (list_all (\<lambda>i. row_op K (rb_schema b) (rows b ! i) = ''c'') [0..<rb_num_rows b])"
    using assms(2) b(2,4) nn row_op_sorted[OF b(1,2)] len
    by (auto simp: batch_is_insert_only_def list_all_iff)
  then show ?thesis by (auto simp: list_all_iff all_set_conv_all_nth)
qed

lemma insert_only_segment:
  assumes K: "kernels_ok K" and b: "op_batch b"
  shows "\<exists>p. strip_internal_columns K b = Inr p
     \<and> rows p = map (strip_row (rb_schema b)) (rows b) \<and> wf_batch p
     \<and> rb_schema p = schema_without_internal_columns (rb_schema b)"
  using strip_internal_columns_ok[OF K] op_batchD[OF b] by metis

lemma build_segments_ok:
  assumes K: "kernels_ok K" and b: "op_batch b" and m: "\<not> (update_ratio m = 0 \<and> delete_ratio m = 0)"
  shows "\<exists>segs srt. build_segments_for_batch K b key_columns m = Inr segs
     \<and> tagged_rows segs = map (tag_row K (rb_schema b) key_columns) srt \<and> mset srt = mset (rows b)
     \<and> ((\<exists>r \<in> set (rows b). row_op K (rb_schema b) r \<noteq> ''c'') \<longrightarrow> sorted (map (row_op_index (rb_schema b)) srt))
     \<and> list_all (\<lambda>seg. wf_batch (seg_batch seg)
          \<and> rb_schema (seg_batch seg) = schema_without_internal_columns (rb_schema b)) segs"
proof (cases "\<forall>r \<in> set (rows b). row_op K (rb_schema b) r = ''c''")
  case True
  obtain p where p: "strip_internal_columns K b = Inr p" "rows p = map (strip_row (rb_schema b)) (rows b)"
      "wf_batch p" "rb_schema p = schema_without_internal_columns (rb_schema b)"
    using insert_only_segment[OF K b] by blast
  then have "tagged_rows [\<lparr>seg_op = Insert, seg_batch = p\<rparr>] = map (tag_row K (rb_schema b) key_columns) (rows b)"
    using True by (simp add: tag_row_def op_str_to_insert_op_def)
  moreover have "build_segments_for_batch K b key_columns m = Inr [\<lparr>seg_op = Insert, seg_batch = p\<rparr>]"
    using True p(1) batch_is_insert_only_iff[OF b m] by (simp add: build_segments_for_batch_def)
  ultimately show ?thesis using True p(3,4)
    by (intro exI[of _ "[\<lparr>seg_op = Insert, seg_batch = p\<rparr>]"] exI[of _ "rows b"]) simp
next
  case False
  then have "build_segments_for_batch K b key_columns m = split_batch_by_op K b key_columns"
    using batch_is_insert_only_iff[OF b m] by (auto simp: build_segments_for_batch_def)
  moreover obtain segs srt where "split_batch_by_op K b key_columns = Inr segs" "mset srt = mset (rows b)"
      "sorted (map (row_op_index (rb_schema b)) srt)" "tagged_rows segs = map (tag_row K (rb_schema b) key_columns) srt"
      "list_all (good_segment (schema_without_internal_columns (rb_schema b))) segs"
    using split_batch_by_op_ok[OF K b, of key_columns] by blast
  ultimately show ?thesis
    by (intro exI[of _ segs] exI[of _ srt]) (simp add: list_all_iff good_segment_def)
qed

text \<open>
  On a dataset generated with updates or deletes, building the segments never fails and
  writes every row once, with its own operation and without the bookkeeping columns; unless
  all rows are inserts, they are written in ascending \<^verbatim>\<open>_op_index\<close> order.
\<close>

theorem build_segments_keeps_rows:
  assumes K: "kernels_ok K" and b: "op_batch b" and m: "\<not> (update_ratio m = 0 \<and> delete_ratio m = 0)"
  shows "\<exists>segs srt. build_segments_for_batch K b key_columns m = Inr segs
     \<and> tagged_rows segs = map (tag_row K (rb_schema b) key_columns) srt \<and> mset srt = mset (rows b)
     \<and> ((\<exists>r \<in> set (rows b). row_op K (rb_schema b) r \<noteq> ''c'') \<longrightarrow> sorted (map (row_op_index (rb_schema b)) srt))"
  using build_segments_ok[OF assms] by blast

definition sample_mutations :: MutationConfig where
  "sample_mutations = \<lparr>update_ratio = 1 / 4, delete_ratio = 0, bootstrap = False, num_mutation_steps = 0,
     churn_fraction = 0\<rparr>"

theorem build_segments_keeps_rows_witness:
  "\<exists>segs srt. build_segments_for_batch list_kernels sample_batch [''k''] sample_mutations = Inr segs
     \<and> tagged_rows segs = map (tag_row list_kernels sample_schema [''k'']) srt
     \<and> mset srt = mset (rows sample_batch) \<and> sorted (map (row_op_index sample_schema) srt)"
proof -
  have m: "\<not> (update_ratio sample_mutations = 0 \<and> delete_ratio sample_mutations = 0)"
    by (simp add: sample_mutations_def)
  have s: "rb_schema sample_batch = sample_schema" by (simp add: sample_batch_def)
  have "\<exists>r \<in> set (rows sample_batch). row_op list_kernels sample_schema r \<noteq> ''c''" by code_simp
  then show ?thesis
    using build_segments_keeps_rows[OF list_kernels_ok sample_batch_ok m, of "[''k'']"] unfolding s by blast
qed

theorem coalesce_batches_keeps_rows_witness:
  "\<exists>out. coalesce_batches list_kernels 3 [sample_batch, sample_batch] = Inr out
     \<and> list_all (\<lambda>b. wf_batch b \<and> rb_schema b = sample_schema \<and> 0 < rb_num_rows b \<and> rb_num_rows b \<le> 3) out
     \<and> concat (map rows out) = rows sample_batch @ rows sample_batch"
proof -
  have "list_all (\<lambda>b. wf_batch b \<and> rb_schema b = sample_schema) [sample_batch, sample_batch]"
    using sample_batch_ok by (simp add: op_batch_def) (simp add: sample_batch_def)
  from coalesce_batches_keeps_rows[OF list_kernels_ok _ this, of 3] show ?thesis by simp
qed

end
