(* ===== verification/EtlWrite.thy ===== *)
theory EtlWrite
  imports EtlSplit
begin

text \<open>
  The writing half of a table task, \<^verbatim>\<open>write_segments_for_batch\<close> of \<^verbatim>\<open>crates/etl/src/lib.rs\<close> and
  the loop over the coalesced batches that calls it: segments are written one after the
  other, the chunks of one segment concurrently. The sink is the trait object the pipeline is
  built with: a state and a write operation that may fail, parameters of the model.
\<close>

subsection \<open>Sinks\<close>

record write_call =
  wc_table :: string
  wc_batch_id :: nat
  wc_batch :: record_batch
  wc_op :: InsertOp
  wc_partition_columns :: "string list"

text \<open>\<^verbatim>\<open>Sink::write\<close>: the error, if any, and the state of the sink after the call.\<close>

type_synonym 's sink = "'s \<Rightarrow> write_call \<Rightarrow> string option \<times> 's"

text \<open>
  What the writes of a pipeline change: the sink, the counter \<^verbatim>\<open>ingest_rows_total\<close>, the map
  \<^verbatim>\<open>net_rows\<close> and the trackers \<^verbatim>\<open>last_created_at_us\<close>.
\<close>

record 's ingest_state =
  is_sink :: 's
  is_ingest_rows :: nat
  is_net_rows :: "string \<rightharpoonup> int"
  is_last_created_at :: "string \<rightharpoonup> int"

subsection \<open>Chunks\<close>

text \<open>\<^verbatim>\<open>(start..n).step_by(c)\<close>; a step of zero would panic, and is never asked for.\<close>

function step_by :: "nat \<Rightarrow> nat \<Rightarrow> nat \<Rightarrow> nat list" where
  "step_by start n c = (if start < n \<and> 0 < c then start # step_by (start + c) n c else [])"
  by pat_completeness auto
termination
  by (relation "measure (\<lambda>(start, n, c). n - start)") auto

declare step_by.simps [simp del]

definition segment_chunks :: "kernels \<Rightarrow> nat \<Rightarrow> record_batch \<Rightarrow> record_batch list" where
  "segment_chunks K chunk_size batch =
     (let n = rb_num_rows batch
      in if chunk_size > 0 \<and> n > chunk_size
         then map (\<lambda>start. k_slice K batch start (min (start + chunk_size) n - start)) (step_by 0 n chunk_size)
         else [batch])"

subsection \<open>Writing the segments\<close>

record write_ctx =
  ctx_table :: string
  ctx_batch_id :: nat
  ctx_batch_ts :: int
  ctx_output_schema :: schema
  ctx_partition_columns :: "string list"
  ctx_chunk_rows :: nat  \<comment> \<open>\<open>sink_chunk_rows()\<close>\<close>

definition in_context :: "string \<Rightarrow> write_ctx \<Rightarrow> string" where
  "in_context what ctx = what @ ctx_table ctx @ '' batch '' @ show_nat (ctx_batch_id ctx) @ '': ''"

definition chunk_call :: "kernels \<Rightarrow> write_ctx \<Rightarrow> InsertOp \<Rightarrow> record_batch \<Rightarrow> write_call result" where
  "chunk_call K ctx op chunk =
     and_then (map_err (\<lambda>e. in_context ''append __created_at to '' ctx @ e)
                 (append_created_at K chunk (ctx_output_schema ctx) (ctx_batch_ts ctx)))
       (\<lambda>out. Inr \<lparr>wc_table = ctx_table ctx, wc_batch_id = ctx_batch_id ctx, wc_batch = out, wc_op = op,
                   wc_partition_columns = ctx_partition_columns ctx\<rparr>)"

text \<open>
  One spawned chunk task: append the timestamp, write, count the rows. The semaphores are
  never closed and the rate limiter only delays, so neither shows in the outcome.
\<close>

definition chunk_task ::
  "kernels \<Rightarrow> 's sink \<Rightarrow> write_ctx \<Rightarrow> InsertOp \<Rightarrow> record_batch \<Rightarrow> 's ingest_state \<Rightarrow> string option \<times> 's ingest_state" where
  "chunk_task K sink ctx op chunk st =
     (case chunk_call K ctx op chunk of
        Inl e \<Rightarrow> (Some e, st)
      | Inr call \<Rightarrow>
          (case sink (is_sink st) call of
             (Some e, s) \<Rightarrow> (Some (in_context ''write '' ctx @ e), st\<lparr>is_sink := s\<rparr>)
           | (None, s) \<Rightarrow> (None, st\<lparr>is_sink := s, is_ingest_rows := is_ingest_rows st + rb_num_rows chunk\<rparr>)))"

text \<open>
  The chunk tasks of one segment in the order they complete. The first failure is returned;
  \<open>late\<close> of the tasks behind it still complete before the abort reaches them.
\<close>

fun run_chunks ::
  "kernels \<Rightarrow> 's sink \<Rightarrow> write_ctx \<Rightarrow> InsertOp \<Rightarrow> nat \<Rightarrow> record_batch list \<Rightarrow> 's ingest_state
     \<Rightarrow> string option \<times> 's ingest_state" where
  "run_chunks K sink ctx op late [] st = (None, st)"
| "run_chunks K sink ctx op late (c # cs) st =
     (case chunk_task K sink ctx op c st of
        (None, st') \<Rightarrow> run_chunks K sink ctx op late cs st'
      | (Some e, st') \<Rightarrow> (Some e, fold (\<lambda>c st. snd (chunk_task K sink ctx op c st)) (take late cs) st'))"

text \<open>
  A schedule fixes, for the \<open>k\<close>-th segment, the completion order of its chunks and the number
  of late completions.
\<close>

record chunk_schedule =
  sch_order :: "nat \<Rightarrow> record_batch list \<Rightarrow> record_batch list"
  sch_late :: "nat \<Rightarrow> nat"

fun write_segments ::
  "kernels \<Rightarrow> 's sink \<Rightarrow> write_ctx \<Rightarrow> chunk_schedule \<Rightarrow> nat \<Rightarrow> OpSegment list \<Rightarrow> 's ingest_state
     \<Rightarrow> string option \<times> 's ingest_state" where
  "write_segments K sink ctx sch k [] st = (None, st)"
| "write_segments K sink ctx sch k (seg # segs) st =
     (case run_chunks K sink ctx (seg_op seg) (sch_late sch k)
             (sch_order sch k (segment_chunks K (ctx_chunk_rows ctx) (seg_batch seg))) st of
        (None, st') \<Rightarrow> write_segments K sink ctx sch (Suc k) segs st'
      | (Some e, st') \<Rightarrow> (Some e, st'))"

fun segment_delta :: "OpSegment \<Rightarrow> int" where
  "segment_delta seg = (case seg_op seg of
     Insert \<Rightarrow> int (rb_num_rows (seg_batch seg))
   | Update _ \<Rightarrow> 0
   | Delete _ \<Rightarrow> - int (rb_num_rows (seg_batch seg)))"

definition add_net_rows :: "string \<Rightarrow> int \<Rightarrow> (string \<rightharpoonup> int) \<Rightarrow> string \<rightharpoonup> int" where
  "add_net_rows table delta net =
     (if delta \<noteq> 0 then net(table \<mapsto> (case net table of Some n \<Rightarrow> n | None \<Rightarrow> 0) + delta) else net)"

definition write_segments_for_batch ::
  "kernels \<Rightarrow> 's sink \<Rightarrow> write_ctx \<Rightarrow> chunk_schedule \<Rightarrow> OpSegment list \<Rightarrow> 's ingest_state
     \<Rightarrow> string option \<times> 's ingest_state" where
  "write_segments_for_batch K sink ctx sch segments st =
     write_segments K sink ctx sch 0 segments
       (st\<lparr>is_net_rows := add_net_rows (ctx_table ctx) (sum_list (map segment_delta segments)) (is_net_rows st)\<rparr>)"

text \<open>The loop of a table task over its coalesced batches.\<close>

fun write_coalesced ::
  "kernels \<Rightarrow> 's sink \<Rightarrow> write_ctx \<Rightarrow> (nat \<Rightarrow> chunk_schedule) \<Rightarrow> string list \<Rightarrow> MutationConfig
     \<Rightarrow> nat \<Rightarrow> record_batch list \<Rightarrow> 's ingest_state \<Rightarrow> string option \<times> 's ingest_state" where
  "write_coalesced K sink ctx schs key_columns mutations k [] st = (None, st)"
| "write_coalesced K sink ctx schs key_columns mutations k (b # bs) st =
     (case build_segments_for_batch K b key_columns mutations of
        Inl e \<Rightarrow> (Some (in_context ''split batch by op for '' ctx @ e), st)
      | Inr segments \<Rightarrow>
          (case write_segments_for_batch K sink ctx (schs k) segments st of
             (Some e, st') \<Rightarrow> (Some e, st')
           | (None, st') \<Rightarrow>
               write_coalesced K sink ctx schs key_columns mutations (Suc k) bs
                 (st'\<lparr>is_last_created_at := (is_last_created_at st')(ctx_table ctx \<mapsto> ctx_batch_ts ctx)\<rparr>)))"

definition write_source_batches ::
  "kernels \<Rightarrow> nat \<Rightarrow> 's sink \<Rightarrow> write_ctx \<Rightarrow> (nat \<Rightarrow> chunk_schedule) \<Rightarrow> string list \<Rightarrow> MutationConfig
     \<Rightarrow> record_batch list \<Rightarrow> 's ingest_state \<Rightarrow> string option \<times> 's ingest_state" where
  "write_source_batches K target sink ctx schs key_columns mutations batches st =
     (case coalesce_batches K target batches of
        Inl e \<Rightarrow> (Some (in_context ''coalesce batches for '' ctx @ e), st)
      | Inr coalesced \<Rightarrow> write_coalesced K sink ctx schs key_columns mutations 0 coalesced st)"

definition expected_row_counts :: "(string \<rightharpoonup> int) \<Rightarrow> string \<rightharpoonup> nat" where
  "expected_row_counts net = (\<lambda>t. map_option (\<lambda>n. nat (max n 0)) (net t))"

subsection \<open>Chunks partition a segment\<close>

lemma step_by_slices:
  assumes sl: "slice_spec (k_slice K)" and wf: "wf_batch b" and c: "0 < c"
  shows "concat (map (\<lambda>x. rows (k_slice K b x (min (x + c) (rb_num_rows b) - x))) (step_by start (rb_num_rows b) c))
     = drop start (rows b)"
  using c
proof (induction start "rb_num_rows b" c rule: step_by.induct)
  case (1 start c)
  show ?case
  proof (cases "start < rb_num_rows b \<and> 0 < c")
    case True
    let ?n = "rb_num_rows b"
    have le: "start + (min (start + c) ?n - start) \<le> ?n" using True by simp
    have "rows (k_slice K b start (min (start + c) ?n - start)) = take c (drop start (rows b))"
      using rows_slice[OF sl wf le] True by (cases "start + c \<le> ?n") (simp_all add: min_def)
    then show ?thesis using True 1(1)
      by (subst step_by.simps) (simp, metis append_take_drop_id drop_drop add.commute)
  next
    case False
    then have "rb_num_rows b \<le> start" using 1(2) by simp
    then show ?thesis by (simp add: step_by.simps)
  qed
qed

lemma step_by_bounds:
  "x \<in> set (step_by start n c) \<Longrightarrow> x < n \<and> 0 < c"
  by (induction start n c rule: step_by.induct) (subst (asm) (2) step_by.simps, auto split: if_splits)

lemma segment_chunks_ok:
  assumes K: "kernels_ok K" and wf: "wf_batch b"
  shows "concat (map rows (segment_chunks K c b)) = rows b"
    and "ch \<in> set (segment_chunks K c b) \<Longrightarrow> wf_batch ch \<and> rb_schema ch = rb_schema b
           \<and> (0 < c \<longrightarrow> rb_num_rows ch \<le> c)"
proof -
  note sl = kernels_okD(1)[OF K]
  show "concat (map rows (segment_chunks K c b)) = rows b"
    using step_by_slices[OF sl wf, of c 0] by (simp add: segment_chunks_def Let_def comp_def)
  assume ch: "ch \<in> set (segment_chunks K c b)"
  show "wf_batch ch \<and> rb_schema ch = rb_schema b \<and> (0 < c \<longrightarrow> rb_num_rows ch \<le> c)"
  proof (cases "c > 0 \<and> rb_num_rows b > c")
    case False
    then show ?thesis using ch wf by (auto simp: segment_chunks_def Let_def)
  next
    case True
    then obtain x where x: "x < rb_num_rows b" "ch = k_slice K b x (min (x + c) (rb_num_rows b) - x)"
      using ch by (force simp: segment_chunks_def Let_def dest: step_by_bounds)
    have "x + (min (x + c) (rb_num_rows b) - x) \<le> rb_num_rows b" using x by simp
    from wf_slice[OF sl wf this] slice_simps[OF sl this] show ?thesis using x(2) by auto
  qed
qed

subsection \<open>What the sink receives\<close>

definition stamp :: "int \<Rightarrow> cell option list \<Rightarrow> cell option list" where
  "stamp ts r = r @ [Some (CInt ts)]"

lemma append_created_at_ok:
  assumes K: "kernels_ok K" and wf: "wf_batch b"
  shows "\<exists>out. append_created_at K b (schema_with_created_at (rb_schema b)) ts = Inr out
     \<and> wf_batch out \<and> rb_num_rows out = rb_num_rows b \<and> rows out = map (stamp ts) (rows b)
     \<and> rb_schema out = schema_with_created_at (rb_schema b)"
proof -
  define col where "col = \<lparr>arr_type = DTimestamp Microsecond None,
            arr_cells = replicate (rb_num_rows b) (Some (CInt ts))\<rparr>"
  define out where "out = \<lparr>rb_schema = schema_with_created_at (rb_schema b),
      rb_columns = rb_columns b @ [col], rb_num_rows = rb_num_rows b\<rparr>"
  have "wf_column (rb_num_rows b) created_at_field col"
    by (simp add: wf_column_def created_at_field_def col_def)
  then have "list_all2 (wf_column (rb_num_rows b)) (schema_with_created_at (rb_schema b)) (rb_columns b @ [col])"
    using wf unfolding wf_batch_def schema_with_created_at_def by (intro list_all2_appendI) simp_all
  moreover have "schema_with_created_at (rb_schema b) \<noteq> []" by (simp add: schema_with_created_at_def)
  ultimately have "append_created_at K b (schema_with_created_at (rb_schema b)) ts = Inr out" "wf_batch out"
    using kernels_okD(3)[OF K]
    by (simp_all add: append_created_at_def try_new_spec_def col_def out_def wf_batch_def)
  moreover have "rows out = map (stamp ts) (rows b)"
    by (simp add: out_def rows_def stamp_def col_def)
  ultimately show ?thesis by (auto simp: out_def)
qed

text \<open>The calls of a pipeline as the sink sees them, applied one after the other.\<close>

definition accepts :: "'s sink \<Rightarrow> bool" where
  "accepts sink \<longleftrightarrow> (\<forall>s call. fst (sink s call) = None)"

definition apply_calls :: "'s sink \<Rightarrow> write_call list \<Rightarrow> 's \<Rightarrow> 's" where
  "apply_calls sink calls s = fold (\<lambda>call s. snd (sink s call)) calls s"

text \<open>A call that writes part of a segment: the context's table, batch id and partition columns.\<close>

definition call_in :: "write_ctx \<Rightarrow> InsertOp \<Rightarrow> write_call \<Rightarrow> bool" where
  "call_in ctx op call \<longleftrightarrow> wc_table call = ctx_table ctx \<and> wc_batch_id call = ctx_batch_id ctx \<and> wc_op call = op
     \<and> wc_partition_columns call = ctx_partition_columns ctx \<and> wf_batch (wc_batch call)
     \<and> rb_schema (wc_batch call) = ctx_output_schema ctx
     \<and> (0 < ctx_chunk_rows ctx \<longrightarrow> rb_num_rows (wc_batch call) \<le> ctx_chunk_rows ctx)"

definition call_rows :: "write_call list \<Rightarrow> cell option list list" where
  "call_rows calls = concat (map (\<lambda>call. rows (wc_batch call)) calls)"

lemma chunk_task_accepts:
  assumes K: "kernels_ok K" and sink: "accepts sink" and wf: "wf_batch ch"
    and out: "ctx_output_schema ctx = schema_with_created_at (rb_schema ch)"
    and n: "0 < ctx_chunk_rows ctx \<longrightarrow> rb_num_rows ch \<le> ctx_chunk_rows ctx"
  shows "\<exists>call. call_in ctx op call \<and> rows (wc_batch call) = map (stamp (ctx_batch_ts ctx)) (rows ch)
     \<and> chunk_task K sink ctx op ch st = (None, st\<lparr>is_sink := apply_calls sink [call] (is_sink st),
          is_ingest_rows := is_ingest_rows st + rb_num_rows ch\<rparr>)"
proof -
  obtain out where out': "append_created_at K ch (ctx_output_schema ctx) (ctx_batch_ts ctx) = Inr out"
      "wf_batch out" "rb_num_rows out = rb_num_rows ch" "rows out = map (stamp (ctx_batch_ts ctx)) (rows ch)"
      "rb_schema out = ctx_output_schema ctx"
    using append_created_at_ok[OF K wf] out by metis
  define call where "call = \<lparr>wc_table = ctx_table ctx, wc_batch_id = ctx_batch_id ctx, wc_batch = out, wc_op = op,
                   wc_partition_columns = ctx_partition_columns ctx\<rparr>"
  have "chunk_call K ctx op ch = Inr call" using out'(1) by (simp add: chunk_call_def call_def)
  moreover obtain s where "sink (is_sink st) call = (None, s)"
    using sink unfolding accepts_def by (metis prod.collapse)
  ultimately have "chunk_task K sink ctx op ch st = (None, st\<lparr>is_sink := apply_calls sink [call] (is_sink st),
          is_ingest_rows := is_ingest_rows st + rb_num_rows ch\<rparr>)"
    by (simp add: chunk_task_def apply_calls_def)
  moreover have "call_in ctx op call" "rows (wc_batch call) = map (stamp (ctx_batch_ts ctx)) (rows ch)"
    using out' n by (simp_all add: call_in_def call_def)
  ultimately show ?thesis by blast
qed

lemma apply_calls_append: "apply_calls sink (xs @ ys) s = apply_calls sink ys (apply_calls sink xs s)"
  by (simp add: apply_calls_def)

lemma call_rows_simps [simp]:
  "call_rows [] = []" "call_rows (c # cs) = rows (wc_batch c) @ call_rows cs"
  "call_rows (xs @ ys) = call_rows xs @ call_rows ys"
  by (simp_all add: call_rows_def)

lemma run_chunks_accepts:
  assumes K: "kernels_ok K" and sink: "accepts sink"
    and wf: "\<And>ch. ch \<in> set chunks \<Longrightarrow> wf_batch ch
       \<and> ctx_output_schema ctx = schema_with_created_at (rb_schema ch)
       \<and> (0 < ctx_chunk_rows ctx \<longrightarrow> rb_num_rows ch \<le> ctx_chunk_rows ctx)"
  shows "\<exists>calls. list_all (call_in ctx op) calls
     \<and> call_rows calls = map (stamp (ctx_batch_ts ctx)) (concat (map rows chunks))
     \<and> run_chunks K sink ctx op late chunks st = (None, st\<lparr>is_sink := apply_calls sink calls (is_sink st),
          is_ingest_rows := is_ingest_rows st + sum_list (map rb_num_rows chunks)\<rparr>)"
  using wf
proof (induction chunks arbitrary: st)
  case Nil
  show ?case by (intro exI[of _ "[]"]) (simp add: apply_calls_def)
next
  case (Cons ch chunks)
  obtain call where call: "call_in ctx op call" "rows (wc_batch call) = map (stamp (ctx_batch_ts ctx)) (rows ch)"
      "chunk_task K sink ctx op ch st = (None, st\<lparr>is_sink := apply_calls sink [call] (is_sink st),
          is_ingest_rows := is_ingest_rows st + rb_num_rows ch\<rparr>)"
    using chunk_task_accepts[OF K sink, of ch ctx op st] Cons.prems[of ch] by auto
  let ?st = "st\<lparr>is_sink := apply_calls sink [call] (is_sink st),
          is_ingest_rows := is_ingest_rows st + rb_num_rows ch\<rparr>"
  obtain calls where calls: "list_all (call_in ctx op) calls"
      "call_rows calls = map (stamp (ctx_batch_ts ctx)) (concat (map rows chunks))"
      "run_chunks K sink ctx op late chunks ?st = (None, ?st\<lparr>is_sink := apply_calls sink calls (is_sink ?st),
          is_ingest_rows := is_ingest_rows ?st + sum_list (map rb_num_rows chunks)\<rparr>)"
    using Cons.IH[of ?st] Cons.prems by auto
  have "apply_calls sink (call # calls) (is_sink st) = apply_calls sink calls (apply_calls sink [call] (is_sink st))"
    by (simp add: apply_calls_def)
  then show ?case using call calls by (intro exI[of _ "call # calls"]) (simp add: add.assoc)
qed

definition fair_order :: "chunk_schedule \<Rightarrow> bool" where
  "fair_order sch \<longleftrightarrow> (\<forall>k xs. mset (sch_order sch k xs) = mset xs)"

text \<open>The calls of one segment: all its rows, each stamped, in chunks within the limit.\<close>

definition writes_segment :: "write_ctx \<Rightarrow> write_call list \<Rightarrow> OpSegment \<Rightarrow> bool" where
  "writes_segment ctx calls seg \<longleftrightarrow> list_all (call_in ctx (seg_op seg)) calls
     \<and> mset (call_rows calls) = mset (map (stamp (ctx_batch_ts ctx)) (rows (seg_batch seg)))"

lemma mset_concat_perm: "mset xs = mset ys \<Longrightarrow> mset (concat (map f xs)) = mset (concat (map f ys))"
  by (simp add: mset_concat flip: sum_mset_sum_list)

lemma run_segment:
  assumes K: "kernels_ok K" and sink: "accepts sink" and ord: "mset chunks = mset (segment_chunks K (ctx_chunk_rows ctx) (seg_batch seg))"
    and wf: "wf_batch (seg_batch seg)" "ctx_output_schema ctx = schema_with_created_at (rb_schema (seg_batch seg))"
  shows "\<exists>calls. writes_segment ctx calls seg
     \<and> run_chunks K sink ctx (seg_op seg) late chunks st = (None, st\<lparr>is_sink := apply_calls sink calls (is_sink st),
          is_ingest_rows := is_ingest_rows st + rb_num_rows (seg_batch seg)\<rparr>)"
proof -
  let ?chs = "segment_chunks K (ctx_chunk_rows ctx) (seg_batch seg)"
  have set: "set chunks = set ?chs" using mset_eq_setD[OF ord] .
  obtain calls where calls: "list_all (call_in ctx (seg_op seg)) calls"
      "call_rows calls = map (stamp (ctx_batch_ts ctx)) (concat (map rows chunks))"
      "run_chunks K sink ctx (seg_op seg) late chunks st = (None, st\<lparr>is_sink := apply_calls sink calls (is_sink st),
          is_ingest_rows := is_ingest_rows st + sum_list (map rb_num_rows chunks)\<rparr>)"
    using run_chunks_accepts[OF K sink, of chunks ctx "seg_op seg" late st]
      segment_chunks_ok(2)[OF K wf(1)] wf(2) set by auto
  have m: "mset (concat (map rows chunks)) = mset (rows (seg_batch seg))"
    using mset_concat_perm[OF ord, of rows] segment_chunks_ok(1)[OF K wf(1)] by simp
  then have "sum_list (map rb_num_rows chunks) = rb_num_rows (seg_batch seg)"
    using mset_eq_length[OF m] by (simp add: rows_length_sum)
  then show ?thesis using calls m by (auto simp: writes_segment_def)
qed

lemma write_segments_accepts:
  assumes K: "kernels_ok K" and sink: "accepts sink" and sch: "fair_order sch"
    and wf: "list_all (\<lambda>seg. wf_batch (seg_batch seg) \<and> rb_schema (seg_batch seg) = s) segs"
      "ctx_output_schema ctx = schema_with_created_at s"
  shows "\<exists>groups. list_all2 (writes_segment ctx) groups segs
     \<and> write_segments K sink ctx sch k segs st
       = (None, st\<lparr>is_sink := apply_calls sink (concat groups) (is_sink st),
            is_ingest_rows := is_ingest_rows st + sum_list (map (\<lambda>seg. rb_num_rows (seg_batch seg)) segs)\<rparr>)"
  using wf(1)
proof (induction segs arbitrary: k st)
  case Nil
  show ?case by (intro exI[of _ "[]"]) (simp add: apply_calls_def)
next
  case (Cons seg segs)
  let ?chs = "sch_order sch k (segment_chunks K (ctx_chunk_rows ctx) (seg_batch seg))"
  have "mset ?chs = mset (segment_chunks K (ctx_chunk_rows ctx) (seg_batch seg))"
    using sch by (simp add: fair_order_def)
  then obtain calls where calls: "writes_segment ctx calls seg"
     "run_chunks K sink ctx (seg_op seg) (sch_late sch k) ?chs st
       = (None, st\<lparr>is_sink := apply_calls sink calls (is_sink st),
          is_ingest_rows := is_ingest_rows st + rb_num_rows (seg_batch seg)\<rparr>)"
    using run_segment[OF K sink] Cons.prems wf(2) by fastforce
  let ?st = "st\<lparr>is_sink := apply_calls sink calls (is_sink st),
          is_ingest_rows := is_ingest_rows st + rb_num_rows (seg_batch seg)\<rparr>"
  obtain groups where "list_all2 (writes_segment ctx) groups segs"
      "write_segments K sink ctx sch (Suc k) segs ?st
       = (None, ?st\<lparr>is_sink := apply_calls sink (concat groups) (is_sink ?st),
            is_ingest_rows := is_ingest_rows ?st + sum_list (map (\<lambda>seg. rb_num_rows (seg_batch seg)) segs)\<rparr>)"
    using Cons.IH[of "Suc k" ?st] Cons.prems by auto
  then show ?case using calls
    by (intro exI[of _ "calls # groups"]) (simp add: apply_calls_append add.assoc)
qed

text \<open>
  With a sink that accepts its writes, writing the segments of a batch succeeds whatever
  order the chunks of a segment complete in. The sink sees the segments one after the other:
  for each, calls of at most the chunk size that together carry every row of the segment
  once, stamped with the batch timestamp and with the segment's operation. The ingest counter
  grows by the rows written, and the table's net count by its inserts less its deletes.
\<close>

theorem write_segments_in_order:
  assumes K: "kernels_ok K" and sink: "accepts sink" and sch: "fair_order sch"
    and wf: "list_all (\<lambda>seg. wf_batch (seg_batch seg) \<and> rb_schema (seg_batch seg) = s) segs"
      "ctx_output_schema ctx = schema_with_created_at s"
  shows "\<exists>groups st'. write_segments_for_batch K sink ctx sch segs st = (None, st')
     \<and> list_all2 (writes_segment ctx) groups segs
     \<and> is_sink st' = apply_calls sink (concat groups) (is_sink st)
     \<and> is_ingest_rows st' = is_ingest_rows st + sum_list (map (\<lambda>seg. rb_num_rows (seg_batch seg)) segs)
     \<and> is_net_rows st' = add_net_rows (ctx_table ctx) (sum_list (map segment_delta segs)) (is_net_rows st)"
  using write_segments_accepts[OF K sink sch wf, of 0] by (fastforce simp: write_segments_for_batch_def)

definition trace_sink :: "write_call list sink" where
  "trace_sink calls call = (None, calls @ [call])"

definition reversed_schedule :: chunk_schedule where
  "reversed_schedule = \<lparr>sch_order = (\<lambda>_. rev), sch_late = (\<lambda>_. 0)\<rparr>"

definition sample_ctx :: write_ctx where
  "sample_ctx = \<lparr>ctx_table = ''t'', ctx_batch_id = 1, ctx_batch_ts = 42,
     ctx_output_schema = schema_with_created_at [\<lparr>fld_name = ''k'', fld_type = DInt64, fld_nullable = False\<rparr>],
     ctx_partition_columns = [CREATED_AT_COLUMN], ctx_chunk_rows = 2\<rparr>"

definition sample_segments :: "OpSegment list" where
  "sample_segments = map (\<lambda>(op, xs). \<lparr>seg_op = op, seg_batch = \<lparr>
       rb_schema = [\<lparr>fld_name = ''k'', fld_type = DInt64, fld_nullable = False\<rparr>],
       rb_columns = [int_column xs], rb_num_rows = length xs\<rparr>\<rparr>) [(Insert, [1, 2, 3]), (Delete [''k''], [2])]"

definition empty_ingest :: "write_call list ingest_state" where
  "empty_ingest = \<lparr>is_sink = [], is_ingest_rows = 0, is_net_rows = Map.empty, is_last_created_at = Map.empty\<rparr>"

lemma trace_sink_accepts: "accepts trace_sink"
  by (simp add: accepts_def trace_sink_def)

lemma reversed_schedule_fair: "fair_order reversed_schedule"
  by (simp add: fair_order_def reversed_schedule_def)

theorem write_segments_in_order_witness:
  "\<exists>groups st'. write_segments_for_batch list_kernels trace_sink sample_ctx reversed_schedule sample_segments empty_ingest
       = (None, st')
     \<and> list_all2 (writes_segment sample_ctx) groups sample_segments
     \<and> is_sink st' = apply_calls trace_sink (concat groups) []
     \<and> is_ingest_rows st' = 4 \<and> is_net_rows st' ''t'' = Some 2"
proof -
  let ?s = "[\<lparr>fld_name = ''k'', fld_type = DInt64, fld_nullable = False\<rparr>]"
  have "list_all (\<lambda>seg. wf_batch (seg_batch seg) \<and> rb_schema (seg_batch seg) = ?s) sample_segments"
    by (simp add: sample_segments_def wf_batch_def wf_column_def int_column_def)
  moreover have "ctx_output_schema sample_ctx = schema_with_created_at ?s" by (simp add: sample_ctx_def)
  ultimately obtain groups st' where
      "write_segments_for_batch list_kernels trace_sink sample_ctx reversed_schedule sample_segments empty_ingest
        = (None, st')"
      "list_all2 (writes_segment sample_ctx) groups sample_segments"
      "is_sink st' = apply_calls trace_sink (concat groups) (is_sink empty_ingest)"
      "is_ingest_rows st' = is_ingest_rows empty_ingest + sum_list (map (\<lambda>seg. rb_num_rows (seg_batch seg)) sample_segments)"
      "is_net_rows st' = add_net_rows (ctx_table sample_ctx) (sum_list (map segment_delta sample_segments))
        (is_net_rows empty_ingest)"
    using write_segments_in_order[OF list_kernels_ok trace_sink_accepts reversed_schedule_fair, of ?s sample_segments
        sample_ctx empty_ingest] by blast
  moreover have "sum_list (map (\<lambda>seg. rb_num_rows (seg_batch seg)) sample_segments) = 4"
    "sum_list (map segment_delta sample_segments) = 2" by (simp_all add: sample_segments_def)
  ultimately show ?thesis
    by (intro exI[of _ groups] exI[of _ st']) (simp add: empty_ingest_def sample_ctx_def add_net_rows_def)
qed

text \<open>Any sink, with a log of the calls it received and what it answered to each.\<close>

definition recording :: "'s sink \<Rightarrow> ('s \<times> (write_call \<times> string option) list) sink" where
  "recording sink = (\<lambda>(s, l) call. case sink s call of (r, s') \<Rightarrow> (r, s', l @ [(call, r)]))"

definition written_rows :: "(write_call \<times> string option) list \<Rightarrow> nat" where
  "written_rows L = sum_list (map (\<lambda>(c, r). if r = None then rb_num_rows (wc_batch c) else 0) L)"

lemma written_rows_simps [simp]:
  "written_rows [] = 0" "written_rows ((c, r) # L) = (if r = None then rb_num_rows (wc_batch c) else 0) + written_rows L"
  "written_rows (L @ M) = written_rows L + written_rows M"
  by (simp_all add: written_rows_def)

lemma chunk_task_recorded:
  assumes K: "kernels_ok K" and wf: "wf_batch ch"
    and out: "ctx_output_schema ctx = schema_with_created_at (rb_schema ch)"
    and n: "0 < ctx_chunk_rows ctx \<longrightarrow> rb_num_rows ch \<le> ctx_chunk_rows ctx"
  shows "\<exists>call r st'. chunk_task K (recording sink) ctx op ch st = (map_option (\<lambda>e. in_context ''write '' ctx @ e) r, st')
     \<and> call_in ctx op call \<and> rows (wc_batch call) = map (stamp (ctx_batch_ts ctx)) (rows ch)
     \<and> snd (is_sink st') = snd (is_sink st) @ [(call, r)]
     \<and> is_ingest_rows st' = is_ingest_rows st + written_rows [(call, r)]"
proof -
  obtain out where out': "append_created_at K ch (ctx_output_schema ctx) (ctx_batch_ts ctx) = Inr out"
      "wf_batch out" "rb_num_rows out = rb_num_rows ch" "rows out = map (stamp (ctx_batch_ts ctx)) (rows ch)"
      "rb_schema out = ctx_output_schema ctx"
    using append_created_at_ok[OF K wf] out by metis
  define call where "call = \<lparr>wc_table = ctx_table ctx, wc_batch_id = ctx_batch_id ctx, wc_batch = out, wc_op = op,
                   wc_partition_columns = ctx_partition_columns ctx\<rparr>"
  have c: "chunk_call K ctx op ch = Inr call" using out'(1) by (simp add: chunk_call_def call_def)
  obtain s l where s: "is_sink st = (s, l)" by force
  obtain r s' where r: "sink s call = (r, s')" by force
  have n': "rb_num_rows (wc_batch call) = rb_num_rows ch" using out'(3) by (simp add: call_def)
  have "call_in ctx op call" "rows (wc_batch call) = map (stamp (ctx_batch_ts ctx)) (rows ch)"
    using out' n by (simp_all add: call_in_def call_def)
  then show ?thesis
    by (intro exI[of _ call] exI[of _ r]) (cases r; simp add: chunk_task_def c recording_def s r n')
qed

lemma late_chunks_recorded:
  assumes K: "kernels_ok K"
    and wf: "\<And>ch. ch \<in> set chunks \<Longrightarrow> wf_batch ch \<and> ctx_output_schema ctx = schema_with_created_at (rb_schema ch)
       \<and> (0 < ctx_chunk_rows ctx \<longrightarrow> rb_num_rows ch \<le> ctx_chunk_rows ctx)"
  shows "\<exists>L. snd (is_sink (fold (\<lambda>c st. snd (chunk_task K (recording sink) ctx op c st)) chunks st)) = snd (is_sink st) @ L
     \<and> list_all (call_in ctx op) (map fst L) \<and> call_rows (map fst L) = map (stamp (ctx_batch_ts ctx)) (concat (map rows chunks))
     \<and> is_ingest_rows (fold (\<lambda>c st. snd (chunk_task K (recording sink) ctx op c st)) chunks st) = is_ingest_rows st + written_rows L"
  using wf
proof (induction chunks arbitrary: st)
  case Nil
  show ?case by (intro exI[of _ "[]"]) simp
next
  case (Cons ch chunks)
  obtain call r st1 where c: "chunk_task K (recording sink) ctx op ch st = (map_option (\<lambda>e. in_context ''write '' ctx @ e) r, st1)"
      "call_in ctx op call" "rows (wc_batch call) = map (stamp (ctx_batch_ts ctx)) (rows ch)"
      "snd (is_sink st1) = snd (is_sink st) @ [(call, r)]" "is_ingest_rows st1 = is_ingest_rows st + written_rows [(call, r)]"
    using chunk_task_recorded[OF K, of ch ctx sink op st] Cons.prems[of ch] by auto
  have prem: "wf_batch c \<and> ctx_output_schema ctx = schema_with_created_at (rb_schema c)
       \<and> (0 < ctx_chunk_rows ctx \<longrightarrow> rb_num_rows c \<le> ctx_chunk_rows ctx)" if "c \<in> set chunks" for c
    using Cons.prems[of c] that by simp
  from Cons.IH[OF prem, of st1] obtain L where L:
      "snd (is_sink (fold (\<lambda>c st. snd (chunk_task K (recording sink) ctx op c st)) chunks st1)) = snd (is_sink st1) @ L"
      "list_all (call_in ctx op) (map fst L)" "call_rows (map fst L) = map (stamp (ctx_batch_ts ctx)) (concat (map rows chunks))"
      "is_ingest_rows (fold (\<lambda>c st. snd (chunk_task K (recording sink) ctx op c st)) chunks st1) = is_ingest_rows st1 + written_rows L"
    by blast
  then show ?case using c by (intro exI[of _ "(call, r) # L"]) simp
qed

text \<open>The calls succeed up to one that fails with the error \<open>e\<close>.\<close>

definition first_failure :: "write_ctx \<Rightarrow> string \<Rightarrow> (write_call \<times> string option) list \<Rightarrow> bool" where
  "first_failure ctx e L \<longleftrightarrow> (\<exists>good call err late. L = map (\<lambda>c. (c, None)) good @ (call, Some err) # late
     \<and> e = in_context ''write '' ctx @ err)"

lemma first_failure_Cons: "first_failure ctx e L \<Longrightarrow> first_failure ctx e ((c, None) # L)"
proof -
  assume "first_failure ctx e L"
  then obtain good call err late where "L = map (\<lambda>c. (c, None)) good @ (call, Some err) # late" "e = in_context ''write '' ctx @ err"
    unfolding first_failure_def by blast
  then show ?thesis unfolding first_failure_def by (intro exI[of _ "c # good"] exI[of _ call] exI[of _ err] exI[of _ late]) simp
qed

lemma first_failure_here: "first_failure ctx (in_context ''write '' ctx @ err) ((c, Some err) # L)"
  unfolding first_failure_def by (intro exI[of _ "[]"]) auto

text \<open>
  What the log of a segment shows: with no error every call succeeded and the calls carry the whole
  segment; with an error, the calls up to one succeeded, that one failed with the error returned,
  and what came after it belongs to the same segment.
\<close>

definition segment_log :: "write_ctx \<Rightarrow> OpSegment \<Rightarrow> string option \<Rightarrow> (write_call \<times> string option) list \<Rightarrow> bool" where
  "segment_log ctx seg res L \<longleftrightarrow> (case res of
     None \<Rightarrow> list_all (\<lambda>(_, r). r = None) L \<and> writes_segment ctx (map fst L) seg
   | Some e \<Rightarrow> first_failure ctx e L
       \<and> list_all (call_in ctx (seg_op seg)) (map fst L)
       \<and> mset (call_rows (map fst L)) \<subseteq># mset (map (stamp (ctx_batch_ts ctx)) (rows (seg_batch seg))))"

lemma run_chunks_recorded:
  assumes K: "kernels_ok K"
    and wf: "\<And>ch. ch \<in> set chunks \<Longrightarrow> wf_batch ch \<and> ctx_output_schema ctx = schema_with_created_at (rb_schema ch)
       \<and> (0 < ctx_chunk_rows ctx \<longrightarrow> rb_num_rows ch \<le> ctx_chunk_rows ctx)"
    and run: "run_chunks K (recording sink) ctx op late chunks st = (res, st')"
  shows "\<exists>L rest. snd (is_sink st') = snd (is_sink st) @ L \<and> is_ingest_rows st' = is_ingest_rows st + written_rows L
     \<and> list_all (call_in ctx op) (map fst L)
     \<and> call_rows (map fst L) @ rest = map (stamp (ctx_batch_ts ctx)) (concat (map rows chunks))
     \<and> (case res of None \<Rightarrow> list_all (\<lambda>(_, r). r = None) L \<and> rest = []
        | Some e \<Rightarrow> first_failure ctx e L)"
  using wf run
proof (induction chunks arbitrary: st)
  case Nil
  then show ?case by (intro exI[of _ "[]"]) simp
next
  case (Cons ch chunks)
  obtain call r st1 where c: "chunk_task K (recording sink) ctx op ch st = (map_option (\<lambda>e. in_context ''write '' ctx @ e) r, st1)"
      "call_in ctx op call" "rows (wc_batch call) = map (stamp (ctx_batch_ts ctx)) (rows ch)"
      "snd (is_sink st1) = snd (is_sink st) @ [(call, r)]" "is_ingest_rows st1 = is_ingest_rows st + written_rows [(call, r)]"
    using chunk_task_recorded[OF K, of ch ctx sink op st] Cons.prems(1)[of ch] by auto
  have prem: "wf_batch c \<and> ctx_output_schema ctx = schema_with_created_at (rb_schema c)
       \<and> (0 < ctx_chunk_rows ctx \<longrightarrow> rb_num_rows c \<le> ctx_chunk_rows ctx)" if "c \<in> set chunks" for c
    using Cons.prems(1)[of c] that by simp
  show ?case
  proof (cases r)
    case None
    then have "run_chunks K (recording sink) ctx op late chunks st1 = (res, st')" using Cons.prems(2) c(1) by simp
    from Cons.IH[OF prem this] obtain L rest where L: "snd (is_sink st') = snd (is_sink st1) @ L"
        "is_ingest_rows st' = is_ingest_rows st1 + written_rows L" "list_all (call_in ctx op) (map fst L)"
        "call_rows (map fst L) @ rest = map (stamp (ctx_batch_ts ctx)) (concat (map rows chunks))"
        "case res of None \<Rightarrow> list_all (\<lambda>(_, r). r = None) L \<and> rest = []
          | Some e \<Rightarrow> first_failure ctx e L"
      by blast
    show ?thesis using c L None first_failure_Cons by (intro exI[of _ "(call, None) # L"] exI[of _ rest]) (auto split: option.splits)
  next
    case (Some err)
    have res: "res = Some (in_context ''write '' ctx @ err)"
      "st' = fold (\<lambda>c st. snd (chunk_task K (recording sink) ctx op c st)) (take late chunks) st1"
      using Cons.prems(2) c(1) Some by auto
    have "ch \<in> set chunks" if "ch \<in> set (take late chunks)" for ch using that by (rule in_set_takeD)
    then obtain L where L: "snd (is_sink st') = snd (is_sink st1) @ L" "list_all (call_in ctx op) (map fst L)"
        "call_rows (map fst L) = map (stamp (ctx_batch_ts ctx)) (concat (map rows (take late chunks)))"
        "is_ingest_rows st' = is_ingest_rows st1 + written_rows L"
      using late_chunks_recorded[OF K prem, of "take late chunks" sink op st1] unfolding res(2) by blast
    have "concat (map rows chunks) = concat (map rows (take late chunks)) @ concat (map rows (drop late chunks))"
      by (metis append_take_drop_id concat_append map_append)
    then show ?thesis using c L Some res(1)
      by (intro exI[of _ "(call, Some err) # L"] exI[of _ "map (stamp (ctx_batch_ts ctx)) (concat (map rows (drop late chunks)))"])
        (auto intro: first_failure_here)
  qed
qed

lemma run_segment_recorded:
  assumes K: "kernels_ok K" and ord: "mset chunks = mset (segment_chunks K (ctx_chunk_rows ctx) (seg_batch seg))"
    and wf: "wf_batch (seg_batch seg)" "ctx_output_schema ctx = schema_with_created_at (rb_schema (seg_batch seg))"
    and run: "run_chunks K (recording sink) ctx (seg_op seg) late chunks st = (res, st')"
  shows "\<exists>L. snd (is_sink st') = snd (is_sink st) @ L \<and> is_ingest_rows st' = is_ingest_rows st + written_rows L \<and> segment_log ctx seg res L"
proof -
  have "wf_batch ch \<and> ctx_output_schema ctx = schema_with_created_at (rb_schema ch)
       \<and> (0 < ctx_chunk_rows ctx \<longrightarrow> rb_num_rows ch \<le> ctx_chunk_rows ctx)" if "ch \<in> set chunks" for ch
    using segment_chunks_ok(2)[OF K wf(1)] wf(2) mset_eq_setD[OF ord] that by auto
  from run_chunks_recorded[OF K this run] obtain L rest where L: "snd (is_sink st') = snd (is_sink st) @ L"
      "is_ingest_rows st' = is_ingest_rows st + written_rows L" "list_all (call_in ctx (seg_op seg)) (map fst L)"
      "call_rows (map fst L) @ rest = map (stamp (ctx_batch_ts ctx)) (concat (map rows chunks))"
      "case res of None \<Rightarrow> list_all (\<lambda>(_, r). r = None) L \<and> rest = []
        | Some e \<Rightarrow> first_failure ctx e L"
    by blast
  have "mset (concat (map rows chunks)) = mset (rows (seg_batch seg))"
    using mset_concat_perm[OF ord, of rows] segment_chunks_ok(1)[OF K wf(1)] by simp
  then have m: "mset (call_rows (map fst L)) + mset rest = mset (map (stamp (ctx_batch_ts ctx)) (rows (seg_batch seg)))"
    using arg_cong[OF L(4), of mset] by simp
  then have "mset (call_rows (map fst L)) \<subseteq># mset (map (stamp (ctx_batch_ts ctx)) (rows (seg_batch seg)))"
    by (metis mset_subset_eq_add_left)
  then have "segment_log ctx seg res L"
    using L(3,5) m by (cases res) (simp_all add: segment_log_def writes_segment_def)
  then show ?thesis using L(1,2) by blast
qed

lemma write_segments_recorded:
  assumes K: "kernels_ok K" and sch: "fair_order sch" and out: "ctx_output_schema ctx = schema_with_created_at s"
    and wf: "list_all (\<lambda>seg. wf_batch (seg_batch seg) \<and> rb_schema (seg_batch seg) = s) segs"
    and run: "write_segments K (recording sink) ctx sch k segs st = (res, st')"
  shows "\<exists>logs. snd (is_sink st') = snd (is_sink st) @ concat logs \<and> is_ingest_rows st' = is_ingest_rows st + written_rows (concat logs)
     \<and> (case res of None \<Rightarrow> list_all2 (\<lambda>L seg. segment_log ctx seg None L) logs segs
        | Some e \<Rightarrow> logs \<noteq> [] \<and> length logs \<le> length segs
            \<and> list_all2 (\<lambda>L seg. segment_log ctx seg None L) (butlast logs) (take (length logs - 1) segs)
            \<and> segment_log ctx (segs ! (length logs - 1)) (Some e) (last logs))"
  using wf run
proof (induction segs arbitrary: k st)
  case Nil
  then show ?case by (intro exI[of _ "[]"]) simp
next
  case (Cons seg segs)
  let ?chs = "sch_order sch k (segment_chunks K (ctx_chunk_rows ctx) (seg_batch seg))"
  have ord: "mset ?chs = mset (segment_chunks K (ctx_chunk_rows ctx) (seg_batch seg))"
    using sch by (simp add: fair_order_def)
  obtain r st1 where r: "run_chunks K (recording sink) ctx (seg_op seg) (sch_late sch k) ?chs st = (r, st1)" by force
  obtain L where L: "snd (is_sink st1) = snd (is_sink st) @ L" "is_ingest_rows st1 = is_ingest_rows st + written_rows L"
      "segment_log ctx seg r L"
    using run_segment_recorded[OF K ord _ _ r] Cons.prems(1) out by auto
  show ?case
  proof (cases r)
    case (Some e)
    then show ?thesis using L r Cons.prems(2) by (intro exI[of _ "[L]"]) auto
  next
    case None
    have w: "list_all (\<lambda>seg. wf_batch (seg_batch seg) \<and> rb_schema (seg_batch seg) = s) segs" using Cons.prems(1) by simp
    have "write_segments K (recording sink) ctx sch (Suc k) segs st1 = (res, st')" using Cons.prems(2) r None by simp
    from Cons.IH[OF w this] obtain logs where logs: "snd (is_sink st') = snd (is_sink st1) @ concat logs"
        "is_ingest_rows st' = is_ingest_rows st1 + written_rows (concat logs)"
        "case res of None \<Rightarrow> list_all2 (\<lambda>L seg. segment_log ctx seg None L) logs segs
        | Some e \<Rightarrow> logs \<noteq> [] \<and> length logs \<le> length segs
            \<and> list_all2 (\<lambda>L seg. segment_log ctx seg None L) (butlast logs) (take (length logs - 1) segs)
            \<and> segment_log ctx (segs ! (length logs - 1)) (Some e) (last logs)" by blast
    have "take (length (L # logs) - 1) (seg # segs) = seg # take (length logs - 1) segs" if "logs \<noteq> []"
      using that by (cases logs) auto
    then show ?thesis using L None logs
      by (intro exI[of _ "L # logs"]) (auto split: option.splits simp: nth_Cons' )
  qed
qed

text \<open>
  C19. A write that fails is never swallowed and stops the batch. Whatever the sink answers, look
  at the log of the calls it received: without an error every call succeeded and the segments
  were written one after the other, each completely; and an error is that of a call the sink
  refused, where the segments before that call's segment were written completely and without
  error, the calls of its own segment that completed before it succeeded, those that still
  completed after it carry other rows of the same segment, and no later segment was
  started. The ingest counter grows by the rows of the calls that succeeded.
\<close>

theorem write_segments_stops_at_error:
  assumes "kernels_ok K" "fair_order sch" "ctx_output_schema ctx = schema_with_created_at s"
    and "list_all (\<lambda>seg. wf_batch (seg_batch seg) \<and> rb_schema (seg_batch seg) = s) segs" "is_sink st = (sk, [])"
    and "write_segments_for_batch K (recording sink) ctx sch segs st = (res, st')"
  shows "\<exists>logs. snd (is_sink st') = concat logs \<and> is_ingest_rows st' = is_ingest_rows st + written_rows (concat logs)
     \<and> (case res of
          None \<Rightarrow> list_all2 (\<lambda>L seg. segment_log ctx seg None L) logs segs
        | Some e \<Rightarrow> logs \<noteq> [] \<and> length logs \<le> length segs
            \<and> list_all2 (\<lambda>L seg. segment_log ctx seg None L) (butlast logs) (take (length logs - 1) segs)
            \<and> segment_log ctx (segs ! (length logs - 1)) (Some e) (last logs))"
  using write_segments_recorded[OF assms(1,2,3,4) assms(6)[unfolded write_segments_for_batch_def]] assms(5) by simp

definition rejecting_sink :: "nat sink" where
  "rejecting_sink n call = (if wc_op call = Insert then (None, Suc n) else (Some ''denied'', n))"

definition recorded_ingest :: "(nat \<times> (write_call \<times> string option) list) ingest_state" where
  "recorded_ingest = \<lparr>is_sink = (0, []), is_ingest_rows = 0, is_net_rows = Map.empty, is_last_created_at = Map.empty\<rparr>"

theorem write_segments_stops_at_error_witness:
  "\<exists>logs st'. write_segments_for_batch list_kernels (recording rejecting_sink) sample_ctx reversed_schedule sample_segments recorded_ingest
       = (Some ''write t batch 1: denied'', st')
     \<and> snd (is_sink st') = concat logs \<and> logs \<noteq> [] \<and> length logs \<le> 2
     \<and> segment_log sample_ctx (sample_segments ! (length logs - 1)) (Some ''write t batch 1: denied'') (last logs)"
proof -
  let ?s = "[\<lparr>fld_name = ''k'', fld_type = DInt64, fld_nullable = False\<rparr>]"
  have wf: "list_all (\<lambda>seg. wf_batch (seg_batch seg) \<and> rb_schema (seg_batch seg) = ?s) sample_segments"
    by (simp add: sample_segments_def wf_batch_def wf_column_def int_column_def)
  have out: "ctx_output_schema sample_ctx = schema_with_created_at ?s" by (simp add: sample_ctx_def)
  have "fst (write_segments_for_batch list_kernels (recording rejecting_sink) sample_ctx reversed_schedule sample_segments recorded_ingest)
      = Some ''write t batch 1: denied''" by code_simp
  then obtain st' where run: "write_segments_for_batch list_kernels (recording rejecting_sink) sample_ctx reversed_schedule sample_segments
      recorded_ingest = (Some ''write t batch 1: denied'', st')" by (metis prod.collapse)
  have st: "is_sink recorded_ingest = (0, [])" by (simp add: recorded_ingest_def)
  have "length sample_segments = 2" by (simp add: sample_segments_def)
  then show ?thesis
    using write_segments_stops_at_error[OF list_kernels_ok reversed_schedule_fair out wf st run] run by auto
qed

subsection \<open>A whole table task\<close>

text \<open>The shape of a source batch, in terms of its schema and its rows.\<close>

definition op_schema :: "schema \<Rightarrow> bool" where
  "op_schema s \<longleftrightarrow>
     (case index_of s ''_op'' of None \<Rightarrow> False | Some j \<Rightarrow> fld_type (s ! j) = DUtf8)
     \<and> (case index_of s ''_op_index'' of None \<Rightarrow> False | Some j \<Rightarrow> fld_type (s ! j) = DInt64)
     \<and> schema_without_internal_columns s \<noteq> []"

definition op_row :: "schema \<Rightarrow> cell option list \<Rightarrow> bool" where
  "op_row s r \<longleftrightarrow>
     (case index_of s ''_op'' of None \<Rightarrow> False | Some j \<Rightarrow> \<exists>op \<in> op_strings. r ! j = Some (CStr op))
     \<and> (case index_of s ''_op_index'' of None \<Rightarrow> False | Some j \<Rightarrow> \<exists>i. r ! j = Some (CInt i))"

lemma set_column_rows:
  assumes "wf_batch b" "j < length (rb_columns b)"
  shows "(\<forall>c \<in> set (arr_cells (rb_columns b ! j)). P c) \<longleftrightarrow> (\<forall>r \<in> set (rows b). P (r ! j))"
  using assms wf_batch_cells[OF assms(1), of "rb_columns b ! j"]
  by (auto simp: all_set_conv_all_nth rows_nth)

lemma op_batch_iff:
  assumes "wf_batch b"
  shows "op_batch b \<longleftrightarrow> op_schema (rb_schema b) \<and> (\<forall>r \<in> set (rows b). op_row (rb_schema b) r)"
proof (cases "index_of (rb_schema b) ''_op'' = None \<or> index_of (rb_schema b) ''_op_index'' = None")
  case True
  then show ?thesis by (auto simp: op_batch_def op_schema_def)
next
  case False
  then obtain op oi where i: "index_of (rb_schema b) ''_op'' = Some op" "index_of (rb_schema b) ''_op_index'' = Some oi"
    by auto
  have lt: "op < length (rb_columns b)" "oi < length (rb_columns b)"
    using index_of_lt i wf_batch_columns[OF assms] by simp_all
  have ty: "arr_type (rb_columns b ! j) = fld_type (rb_schema b ! j)" if "j < length (rb_columns b)" for j
    using assms that by (simp add: wf_batch_def wf_column_def list_all2_conv_all_nth)
  show ?thesis
    using set_column_rows[OF assms lt(1), of "\<lambda>c. \<exists>op \<in> op_strings. c = Some (CStr op)"]
      set_column_rows[OF assms lt(2), of "\<lambda>c. \<exists>i. c = Some (CInt i)"] assms
    by (auto simp: op_batch_def op_schema_def op_row_def i ty[OF lt(1)] ty[OF lt(2)] int_cells_def)
qed

definition net_count :: "(string \<rightharpoonup> int) \<Rightarrow> string \<Rightarrow> int" where
  "net_count net t = (case net t of Some n \<Rightarrow> n | None \<Rightarrow> 0)"

lemma net_count_add: "net_count (add_net_rows t d net) t = net_count net t + d"
  by (simp add: net_count_def add_net_rows_def split: option.splits)

definition op_delta :: "InsertOp \<Rightarrow> int" where
  "op_delta op = (case op of Insert \<Rightarrow> 1 | Update _ \<Rightarrow> 0 | Delete _ \<Rightarrow> -1)"

lemma segment_delta_rows: "segment_delta seg = (\<Sum>x\<leftarrow>map (Pair (seg_op seg)) (rows (seg_batch seg)). op_delta (fst x))"
  by (simp add: op_delta_def comp_def sum_list_triv split: InsertOp.splits)

lemma segments_delta_rows: "sum_list (map segment_delta segs) = (\<Sum>x\<leftarrow>tagged_rows segs. op_delta (fst x))"
  by (induction segs) (simp_all only: tagged_rows_simps list.map sum_list.Nil sum_list.Cons segment_delta_rows
      map_append sum_list_append)

text \<open>The rows of a list of calls, each with the operation it is written with.\<close>

definition tagged_calls :: "write_call list \<Rightarrow> (InsertOp \<times> cell option list) list" where
  "tagged_calls calls = concat (map (\<lambda>call. map (Pair (wc_op call)) (rows (wc_batch call))) calls)"

lemma tagged_calls_append [simp]: "tagged_calls (xs @ ys) = tagged_calls xs @ tagged_calls ys"
  by (simp add: tagged_calls_def)

lemma tagged_calls_uniform:
  "list_all (call_in ctx op) calls \<Longrightarrow> tagged_calls calls = map (Pair op) (call_rows calls)"
  by (induction calls) (simp_all add: tagged_calls_def call_in_def)

lemma writes_segments_tagged:
  assumes "list_all2 (writes_segment ctx) groups segs"
  shows "mset (tagged_calls (concat groups)) = mset (map (apsnd (stamp (ctx_batch_ts ctx))) (tagged_rows segs))"
  using assms
proof (induction rule: list_all2_induct)
  case Nil
  show ?case by (simp add: tagged_calls_def)
next
  case (Cons g groups seg segs)
  have "tagged_calls g = map (Pair (seg_op seg)) (call_rows g)"
    using Cons(1) tagged_calls_uniform by (auto simp: writes_segment_def)
  then have "mset (tagged_calls g) = image_mset (Pair (seg_op seg)) (mset (call_rows g))" by simp
  also have "\<dots> = mset (map (apsnd (stamp (ctx_batch_ts ctx))) (map (Pair (seg_op seg)) (rows (seg_batch seg))))"
    using Cons(1) by (simp add: writes_segment_def comp_def image_mset.compositionality)
  finally show ?case using Cons by simp
qed

definition deliver :: "kernels \<Rightarrow> write_ctx \<Rightarrow> schema \<Rightarrow> string list \<Rightarrow> cell option list \<Rightarrow> InsertOp \<times> cell option list" where
  "deliver K ctx s key_columns r = apsnd (stamp (ctx_batch_ts ctx)) (tag_row K s key_columns r)"

definition row_delta :: "kernels \<Rightarrow> schema \<Rightarrow> cell option list \<Rightarrow> int" where
  "row_delta K s r = op_delta (op_str_to_insert_op (row_op K s r) [])"

lemma op_delta_keys: "op_delta (op_str_to_insert_op op ks) = op_delta (op_str_to_insert_op op [])"
  by (simp add: op_delta_def op_str_to_insert_op_def)

lemma op_delta_tag: "op_delta (fst (tag_row K s ks r)) = row_delta K s r"
  unfolding tag_row_def row_delta_def fst_conv by (rule op_delta_keys)

lemma sum_list_mset_cong:
  fixes f :: "'a \<Rightarrow> int"
  shows "mset xs = mset ys \<Longrightarrow> sum_list (map f xs) = sum_list (map f ys)"
  by (metis mset_map sum_mset_sum_list)

lemma write_coalesced_ok:
  assumes K: "kernels_ok K" and sink: "accepts sink" and sch: "\<And>k. fair_order (schs k)"
    and b: "\<And>b. b \<in> set bs \<Longrightarrow> op_batch b \<and> rb_schema b = s"
    and out: "ctx_output_schema ctx = schema_with_created_at (schema_without_internal_columns s)"
    and m: "\<not> (update_ratio m = 0 \<and> delete_ratio m = 0)"
  shows "\<exists>calls st'. write_coalesced K sink ctx schs key_columns m k bs st = (None, st')
     \<and> is_sink st' = apply_calls sink calls (is_sink st)
     \<and> mset (tagged_calls calls) = mset (map (deliver K ctx s key_columns) (concat (map rows bs)))
     \<and> is_ingest_rows st' = is_ingest_rows st + sum_list (map rb_num_rows bs)
     \<and> net_count (is_net_rows st') (ctx_table ctx)
         = net_count (is_net_rows st) (ctx_table ctx) + sum_list (map (row_delta K s) (concat (map rows bs)))"
  using b
proof (induction bs arbitrary: k st)
  case Nil
  show ?case by (intro exI[of _ "[]"] exI[of _ st]) (simp add: apply_calls_def tagged_calls_def)
next
  case (Cons b bs)
  have bb: "op_batch b" "rb_schema b = s" using Cons.prems by simp_all
  obtain segs srt where segs: "build_segments_for_batch K b key_columns m = Inr segs"
      "tagged_rows segs = map (tag_row K s key_columns) srt" "mset srt = mset (rows b)"
      "list_all (\<lambda>seg. wf_batch (seg_batch seg) \<and> rb_schema (seg_batch seg) = schema_without_internal_columns s) segs"
    using build_segments_ok[OF K bb(1) m, of key_columns] bb(2) by auto
  let ?st0 = "st\<lparr>is_net_rows := add_net_rows (ctx_table ctx) (sum_list (map segment_delta segs)) (is_net_rows st)\<rparr>"
  obtain groups where groups: "list_all2 (writes_segment ctx) groups segs"
      "write_segments_for_batch K sink ctx (schs k) segs st
       = (None, ?st0\<lparr>is_sink := apply_calls sink (concat groups) (is_sink st),
            is_ingest_rows := is_ingest_rows st + sum_list (map (\<lambda>seg. rb_num_rows (seg_batch seg)) segs)\<rparr>)"
    using write_segments_accepts[OF K sink sch segs(4) out, of k 0 ?st0] by (auto simp: write_segments_for_batch_def)
  let ?st1 = "?st0\<lparr>is_sink := apply_calls sink (concat groups) (is_sink st),
      is_ingest_rows := is_ingest_rows st + sum_list (map (\<lambda>seg. rb_num_rows (seg_batch seg)) segs),
      is_last_created_at := (is_last_created_at st)(ctx_table ctx \<mapsto> ctx_batch_ts ctx)\<rparr>"
  obtain calls st' where ih: "write_coalesced K sink ctx schs key_columns m (Suc k) bs ?st1 = (None, st')"
      "is_sink st' = apply_calls sink calls (is_sink ?st1)"
      "mset (tagged_calls calls) = mset (map (deliver K ctx s key_columns) (concat (map rows bs)))"
      "is_ingest_rows st' = is_ingest_rows ?st1 + sum_list (map rb_num_rows bs)"
      "net_count (is_net_rows st') (ctx_table ctx)
         = net_count (is_net_rows ?st1) (ctx_table ctx) + sum_list (map (row_delta K s) (concat (map rows bs)))"
    using Cons.IH[of "Suc k" ?st1] Cons.prems by auto
  have "length (tagged_rows segs) = sum_list (map (\<lambda>seg. rb_num_rows (seg_batch seg)) segs)"
    by (simp add: tagged_rows_def length_concat comp_def)
  then have n: "sum_list (map (\<lambda>seg. rb_num_rows (seg_batch seg)) segs) = rb_num_rows b"
    using mset_eq_length[OF segs(3)] by (simp add: segs(2))
  have "mset (tagged_calls (concat groups)) = mset (map (deliver K ctx s key_columns) (rows b))"
    using writes_segments_tagged[OF groups(1)] segs(3)
    by (simp add: segs(2) deliver_def[abs_def] image_mset.compositionality comp_def)
  moreover have "sum_list (map segment_delta segs) = sum_list (map (row_delta K s) (rows b))"
    using sum_list_mset_cong[OF segs(3), of "row_delta K s"]
    by (simp add: segments_delta_rows segs(2) comp_def op_delta_tag)
  ultimately show ?case using ih groups(2) segs(1) n
    by (intro exI[of _ "concat groups @ calls"] exI[of _ st']) (simp add: apply_calls_append net_count_add)
qed

lemma write_source_batches_ok:
  assumes K: "kernels_ok K" and sink: "accepts sink" and sch: "\<And>k. fair_order (schs k)" and t: "0 < target"
    and b: "list_all (\<lambda>b. op_batch b \<and> rb_schema b = s) batches"
    and out: "ctx_output_schema ctx = schema_with_created_at (schema_without_internal_columns s)"
    and m: "\<not> (update_ratio m = 0 \<and> delete_ratio m = 0)"
  shows "\<exists>calls st'. write_source_batches K target sink ctx schs key_columns m batches st = (None, st')
     \<and> is_sink st' = apply_calls sink calls (is_sink st)
     \<and> mset (tagged_calls calls) = mset (map (deliver K ctx s key_columns) (concat (map rows batches)))
     \<and> is_ingest_rows st' = is_ingest_rows st + sum_list (map rb_num_rows batches)
     \<and> net_count (is_net_rows st') (ctx_table ctx)
         = net_count (is_net_rows st) (ctx_table ctx) + sum_list (map (row_delta K s) (concat (map rows batches)))"
proof -
  have "list_all (\<lambda>b. wf_batch b \<and> rb_schema b = s) batches"
    using b by (auto simp: list_all_iff op_batch_def)
  from coalesce_batches_ok[OF K t this] obtain cs where cs: "coalesce_batches K target batches = Inr cs"
      "list_all (\<lambda>b. wf_batch b \<and> rb_schema b = s \<and> 0 < rb_num_rows b \<and> rb_num_rows b \<le> target) cs"
      "concat (map rows cs) = concat (map rows batches)" by blast
  have ok: "op_schema s \<and> op_row s r" if "r \<in> set (concat (map rows batches))" for r
    using that b op_batch_iff by (fastforce simp: list_all_iff op_batch_def)
  have "op_batch c \<and> rb_schema c = s" if c: "c \<in> set cs" for c
  proof -
    have wf: "wf_batch c" "rb_schema c = s" "0 < rb_num_rows c" using cs(2) c by (auto simp: list_all_iff)
    have sub: "set (rows c) \<subseteq> set (concat (map rows batches))" using c by (auto simp flip: cs(3))
    have "rows c ! 0 \<in> set (rows c)" using wf(3) by simp
    then have "op_schema s" "\<forall>r \<in> set (rows c). op_row s r" using ok sub by blast+
    then show ?thesis using op_batch_iff[OF wf(1)] wf(2) by simp
  qed
  from write_coalesced_ok[where schs = schs and bs = cs and k = 0 and key_columns = key_columns and st = st, OF K sink sch this out m]
  obtain calls st' where r: "write_coalesced K sink ctx schs key_columns m 0 cs st = (None, st')"
     "is_sink st' = apply_calls sink calls (is_sink st)"
     "mset (tagged_calls calls) = mset (map (deliver K ctx s key_columns) (concat (map rows cs)))"
     "is_ingest_rows st' = is_ingest_rows st + sum_list (map rb_num_rows cs)"
     "net_count (is_net_rows st') (ctx_table ctx)
         = net_count (is_net_rows st) (ctx_table ctx) + sum_list (map (row_delta K s) (concat (map rows cs)))"
    by blast
  have "sum_list (map rb_num_rows cs) = sum_list (map rb_num_rows batches)"
    using arg_cong[OF cs(3), of length] by (simp only: rows_length_sum)
  then show ?thesis using r cs(1,3)
    by (intro exI[of _ calls] exI[of _ st']) (simp add: write_source_batches_def)
qed



end
