(* ===== verification/EtlWork.thy ===== *)
theory EtlWork
  imports EtlWrite
begin

text \<open>
  The shared work plan of the pipeline, \<^verbatim>\<open>PipelineWorkState\<close> of \<^verbatim>\<open>crates/etl/src/lib.rs\<close>: how it
  is built, how a table task reserves later batches of its table and hands back the ones it
  did not use. The \<^verbatim>\<open>BTreeMap\<close> is an association list with ascending keys.
\<close>

subsection \<open>The plan\<close>

type_synonym steps = "(nat \<times> string list) list"

record PipelineWorkState =
  ws_steps :: steps
  ws_finished_tables :: "string set"

text \<open>\<^verbatim>\<open>steps.entry(id).or_default()\<close> followed by an update of the entry.\<close>

fun entry_or_default :: "nat \<Rightarrow> (string list \<Rightarrow> string list) \<Rightarrow> steps \<Rightarrow> steps" where
  "entry_or_default bid f [] = [(bid, f [])]"
| "entry_or_default bid f ((k, ts) # rest) =
     (if bid < k then (bid, f []) # (k, ts) # rest
      else if bid = k then (k, f ts) # rest
      else (k, ts) # entry_or_default bid f rest)"

fun plan_table :: "string \<Rightarrow> nat option \<Rightarrow> nat set \<Rightarrow> nat list \<Rightarrow> steps \<Rightarrow> steps" where
  "plan_table name initialized_id seen [] steps = steps"
| "plan_table name initialized_id seen (i # is) steps =
     (if Some i = initialized_id then plan_table name initialized_id seen is steps
      else if i \<in> seen then plan_table name initialized_id seen is steps
      else plan_table name initialized_id (insert i seen) is (entry_or_default i (\<lambda>ts. ts @ [name]) steps))"

text \<open>
  \<^verbatim>\<open>build_work_plan\<close>: the tables with their batch ids, in the iteration order of the dataset's
  hash map; \<open>skip_first\<close> tells that the pipeline is in the \<open>Initialized\<close> state.
\<close>

fun plan_tables :: "bool \<Rightarrow> (string \<times> nat list) list \<Rightarrow> steps \<Rightarrow> steps" where
  "plan_tables skip_first [] steps = steps"
| "plan_tables skip_first ((name, ids) # tables) steps =
     plan_tables skip_first tables
       (plan_table name (if skip_first then (case ids of [] \<Rightarrow> None | i # _ \<Rightarrow> Some i) else None) {} ids steps)"

definition build_work_plan :: "bool \<Rightarrow> (string \<times> nat list) list \<Rightarrow> PipelineWorkState" where
  "build_work_plan skip_first tables =
     \<lparr>ws_steps = plan_tables skip_first tables [], ws_finished_tables = {}\<rparr>"

subsection \<open>Reservations\<close>

text \<open>
  The scan of \<^verbatim>\<open>reserve_next_batch_id_for_table\<close> over \<^verbatim>\<open>range_mut(start..)\<close>: the first entry
  that lists the table loses it, and is dropped when it becomes empty.
\<close>

fun reserve_scan :: "string \<Rightarrow> nat \<Rightarrow> nat option \<Rightarrow> steps \<Rightarrow> (nat \<times> bool) option \<times> steps" where
  "reserve_scan table start mx [] = (None, [])"
| "reserve_scan table start mx ((k, ts) # rest) =
     (if k < start
      then (case reserve_scan table start mx rest of (r, rest') \<Rightarrow> (r, (k, ts) # rest'))
      else if (case mx of Some m \<Rightarrow> k > m | None \<Rightarrow> False) then (None, (k, ts) # rest)
      else if table \<in> set ts
      then (let ts' = remove1 table ts
            in if ts' = [] then (Some (k, True), rest) else (Some (k, False), (k, ts') # rest))
      else (case reserve_scan table start mx rest of (r, rest') \<Rightarrow> (r, (k, ts) # rest')))"

definition reserve_steps :: "string \<Rightarrow> nat \<Rightarrow> nat option \<Rightarrow> steps \<Rightarrow> (nat \<times> bool) option \<times> steps" where
  "reserve_steps table after mx steps = reserve_scan table (min (after + 1) u64_max) mx steps"

definition reserve_next_batch_id_for_table ::
  "PipelineWorkState \<Rightarrow> string \<Rightarrow> nat \<Rightarrow> nat option \<Rightarrow> (nat \<times> bool) option \<times> PipelineWorkState" where
  "reserve_next_batch_id_for_table ws table after mx =
     (case reserve_steps table after mx (ws_steps ws) of (r, steps) \<Rightarrow> (r, ws\<lparr>ws_steps := steps\<rparr>))"

text \<open>One iteration of \<^verbatim>\<open>restore_unconsumed_reservations\<close>.\<close>

definition restore_step :: "string \<Rightarrow> nat \<Rightarrow> steps \<Rightarrow> steps" where
  "restore_step table bid steps = entry_or_default bid (\<lambda>ts. if table \<in> set ts then ts else ts @ [table]) steps"

subsection \<open>The plan per table\<close>

definition table_ids :: "string \<Rightarrow> steps \<Rightarrow> nat list" where
  "table_ids t steps = map fst (filter (\<lambda>(_, ts). t \<in> set ts) steps)"

definition wf_steps :: "steps \<Rightarrow> bool" where
  "wf_steps steps \<longleftrightarrow> sorted_wrt (<) (map fst steps)
     \<and> list_all (\<lambda>(k, ts). ts \<noteq> [] \<and> distinct ts \<and> k \<le> u64_max) steps"

lemma wf_steps_simps [simp]:
  "wf_steps []"
  "wf_steps ((k, ts) # rest) \<longleftrightarrow>
     (\<forall>k' \<in> set (map fst rest). k < k') \<and> ts \<noteq> [] \<and> distinct ts \<and> k \<le> u64_max \<and> wf_steps rest"
  by (auto simp: wf_steps_def)

lemma table_ids_simps [simp]:
  "table_ids t [] = []"
  "table_ids t ((k, ts) # rest) = (if t \<in> set ts then k # table_ids t rest else table_ids t rest)"
  by (simp_all add: table_ids_def)

lemma table_ids_subset: "set (table_ids t steps) \<subseteq> set (map fst steps)"
  by (auto simp: table_ids_def)

lemma table_ids_sorted: "wf_steps steps \<Longrightarrow> sorted_wrt (<) (table_ids t steps)"
  using table_ids_subset by (induction steps) fastforce+

lemma table_ids_le: "wf_steps steps \<Longrightarrow> k \<in> set (table_ids t steps) \<Longrightarrow> k \<le> u64_max"
  by (induction steps) (auto split: if_splits)

definition in_bound :: "nat option \<Rightarrow> nat \<Rightarrow> bool" where
  "in_bound mx k = (case mx of Some m \<Rightarrow> k \<le> m | None \<Rightarrow> True)"

lemma entry_or_default_keys: "set (map fst (entry_or_default i f steps)) = insert i (set (map fst steps))"
  by (induction i f steps rule: entry_or_default.induct) auto

text \<open>Adding a table to an entry that does not list it inserts the id into the table's ids.\<close>

lemma entry_add:
  assumes "wf_steps steps" "i \<notin> set (table_ids t steps)" "i \<le> u64_max"
    and f: "f [] = [t]" "\<And>ts. t \<notin> set ts \<Longrightarrow> f ts = ts @ [t]"
  shows "wf_steps (entry_or_default i f steps)
     \<and> table_ids t (entry_or_default i f steps) = insort i (table_ids t steps)
     \<and> (\<forall>u. u \<noteq> t \<longrightarrow> table_ids u (entry_or_default i f steps) = table_ids u steps)"
  using assms(1,2)
proof (induction steps)
  case Nil
  then show ?case using f assms(3) by auto
next
  case (Cons e rest)
  obtain k ts where e: "e = (k, ts)" by (cases e)
  have lt: "\<forall>k' \<in> set (map fst rest). k < k'" using Cons.prems e by simp
  have ins: "insort i (table_ids t rest) = i # table_ids t rest" if "i \<le> k"
    using that lt table_ids_subset[of t rest]
    by (cases "table_ids t rest") fastforce+
  consider "i < k" | "i = k" | "k < i" by linarith
  then show ?case
  proof cases
    case 1
    then show ?thesis using Cons.prems e f assms(3) lt ins by fastforce
  next
    case 2
    then show ?thesis using Cons.prems e f ins by auto
  next
    case 3
    have "wf_steps rest" "i \<notin> set (table_ids t rest)" using Cons.prems e by (auto split: if_splits)
    then have ih: "wf_steps (entry_or_default i f rest)"
       "table_ids t (entry_or_default i f rest) = insort i (table_ids t rest)"
       "\<forall>u. u \<noteq> t \<longrightarrow> table_ids u (entry_or_default i f rest) = table_ids u rest"
      using Cons.IH by blast+
    have keys: "\<forall>k' \<in> set (map fst (entry_or_default i f rest)). k < k'"
      using 3 lt unfolding entry_or_default_keys by blast
    show ?thesis using 3 Cons.prems e ih keys by (auto simp del: set_map)
  qed
qed

definition reservable :: "string \<Rightarrow> nat \<Rightarrow> nat option \<Rightarrow> steps \<Rightarrow> nat list" where
  "reservable t start mx steps = filter (\<lambda>k. start \<le> k \<and> in_bound mx k) (table_ids t steps)"

lemma reservable_beyond:
  "wf_steps steps \<Longrightarrow> \<forall>k' \<in> set (map fst steps). k < k' \<Longrightarrow> \<not> in_bound mx k \<Longrightarrow> reservable t start mx steps = []"
  using table_ids_subset[of t steps]
  by (fastforce simp: reservable_def filter_empty_conv in_bound_def split: option.splits)

definition reserve_post :: "string \<Rightarrow> nat \<Rightarrow> nat option \<Rightarrow> steps \<Rightarrow> (nat \<times> bool) option \<Rightarrow> steps \<Rightarrow> bool" where
  "reserve_post t start mx steps r steps' \<longleftrightarrow>
     wf_steps steps' \<and> set (map fst steps') \<subseteq> set (map fst steps)
     \<and> (\<forall>u. u \<noteq> t \<longrightarrow> table_ids u steps' = table_ids u steps)
     \<and> (case r of None \<Rightarrow> reservable t start mx steps = [] \<and> steps' = steps
        | Some (k, gone) \<Rightarrow> reservable t start mx steps \<noteq> [] \<and> k = hd (reservable t start mx steps)
            \<and> table_ids t steps' = remove1 k (table_ids t steps) \<and> gone = (k \<notin> set (map fst steps')))"

lemma reserve_post_cons:
  assumes p: "reserve_post t start mx rest r rest'" and wf: "wf_steps ((k, ts) # rest)"
    and eq: "reservable t start mx ((k, ts) # rest) = reservable t start mx rest"
  shows "reserve_post t start mx ((k, ts) # rest) r ((k, ts) # rest')"
proof -
  have lt: "\<forall>k' \<in> set (map fst rest). k < k'" using wf by simp
  have keys: "set (map fst rest') \<subseteq> set (map fst rest)" using p by (simp add: reserve_post_def)
  then have "\<forall>k' \<in> set (map fst rest'). k < k'" using lt by blast
  then have wf': "wf_steps ((k, ts) # rest')" using p wf by (simp add: reserve_post_def)
  have other: "table_ids u ((k, ts) # rest') = table_ids u ((k, ts) # rest)" if "u \<noteq> t" for u
    using p that by (simp add: reserve_post_def)
  show ?thesis
  proof (cases r)
    case None
    then show ?thesis using p wf' eq by (simp add: reserve_post_def)
  next
    case (Some kg)
    obtain i gone where i: "r = Some (i, gone)" using Some by (cases kg) simp
    have ih: "reservable t start mx rest \<noteq> []" "i = hd (reservable t start mx rest)"
        "table_ids t rest' = remove1 i (table_ids t rest)" "gone = (i \<notin> set (map fst rest'))"
      using p i by (simp_all add: reserve_post_def)
    have "i \<in> set (table_ids t rest)" using hd_in_set[OF ih(1)] ih(2) by (simp add: reservable_def)
    then have "i \<noteq> k" using lt table_ids_subset[of t rest] by blast
    then show ?thesis using wf' keys other ih eq unfolding reserve_post_def i by auto
  qed
qed

lemma reserve_scan_spec:
  "wf_steps steps \<Longrightarrow> reserve_scan t start mx steps = (r, steps') \<Longrightarrow> reserve_post t start mx steps r steps'"
proof (induction steps arbitrary: r steps')
  case Nil
  then show ?case by (simp add: reserve_post_def reservable_def)
next
  case (Cons e rest)
  obtain k ts where e: "e = (k, ts)" by (cases e)
  have lt: "\<forall>k' \<in> set (map fst rest). k < k'" and wf: "wf_steps rest" and d: "distinct ts" using Cons.prems e by simp_all
  obtain r1 rest1 where scan: "reserve_scan t start mx rest = (r1, rest1)" by (cases "reserve_scan t start mx rest")
  note ih = Cons.IH[OF wf scan]
  have notin: "k \<notin> set (table_ids t rest)" "k \<notin> set (map fst rest)" using lt table_ids_subset[of t rest] by auto
  consider (skip) "k < start \<or> in_bound mx k \<and> t \<notin> set ts" | (beyond) "start \<le> k" "\<not> in_bound mx k"
    | (hit) "start \<le> k" "in_bound mx k" "t \<in> set ts" by linarith
  then show ?case
  proof cases
    case skip
    then have "r = r1" "steps' = (k, ts) # rest1"
      using Cons.prems(2) e scan by (auto simp: in_bound_def split: if_splits option.splits)
    moreover have "reservable t start mx ((k, ts) # rest) = reservable t start mx rest"
      using skip by (auto simp: reservable_def)
    ultimately show ?thesis using reserve_post_cons[OF ih] Cons.prems(1) e by simp
  next
    case beyond
    then have "r = None" "steps' = (k, ts) # rest"
      using Cons.prems(2) e by (auto simp: in_bound_def split: option.splits)
    moreover have "reservable t start mx ((k, ts) # rest) = []"
      using reservable_beyond[OF wf lt beyond(2), of t start] beyond by (simp add: reservable_def)
    ultimately show ?thesis using Cons.prems e by (simp add: reserve_post_def)
  next
    case hit
    have res: "reservable t start mx ((k, ts) # rest) = k # reservable t start mx rest"
      using hit by (simp add: reservable_def)
    have "(r, steps') = (if remove1 t ts = [] then (Some (k, True), rest) else (Some (k, False), (k, remove1 t ts) # rest))"
      using Cons.prems(2) hit e by (auto simp: in_bound_def Let_def split: option.splits)
    moreover have "table_ids u ((k, ts) # rest) = table_ids u rest" if "remove1 t ts = []" "u \<noteq> t" for u
      using that hit(3) in_set_remove1[of u t ts] by auto
    ultimately show ?thesis
      using Cons.prems(1) d e lt notin wf hit(3) res unfolding reserve_post_def e
      by (cases "remove1 t ts = []") auto
  qed
qed

subsection \<open>The work queue as an interface\<close>

text \<open>
  What a table task relies on: every table sees an ascending queue of batch ids; a
  reservation takes the first id behind the cursor and within the bound, or tells that there is
  none; a restored id is back in the table's queue; and no operation for one table changes
  the queue of another.
\<close>

locale work_queue =
  fixes inv :: "'w \<Rightarrow> bool"
    and ids :: "string \<Rightarrow> 'w \<Rightarrow> nat list"
    and reserve :: "string \<Rightarrow> nat \<Rightarrow> nat option \<Rightarrow> 'w \<Rightarrow> (nat \<times> bool) option \<times> 'w"
    and restore :: "string \<Rightarrow> nat \<Rightarrow> 'w \<Rightarrow> 'w"
  assumes ids_sorted: "inv w \<Longrightarrow> sorted_wrt (<) (ids t w)"
    and ids_u64: "inv w \<Longrightarrow> k \<in> set (ids t w) \<Longrightarrow> k \<le> u64_max"
    and reserve_inv: "inv w \<Longrightarrow> reserve t after mx w = (r, w') \<Longrightarrow> inv w'"
    and reserve_other: "inv w \<Longrightarrow> reserve t after mx w = (r, w') \<Longrightarrow> u \<noteq> t \<Longrightarrow> ids u w' = ids u w"
    and reserve_none: "inv w \<Longrightarrow> reserve t after mx w = (None, w')
       \<Longrightarrow> \<forall>k \<in> set (ids t w). after < k \<longrightarrow> \<not> in_bound mx k"
    and reserve_none_same: "inv w \<Longrightarrow> reserve t after mx w = (None, w') \<Longrightarrow> w' = w"
    and reserve_some: "inv w \<Longrightarrow> reserve t after mx w = (Some (k, gone), w')
       \<Longrightarrow> \<forall>x \<in> set (ids t w). after < x
       \<Longrightarrow> in_bound mx k \<and> ids t w = k # ids t w'"
    and restore_inv: "inv w \<Longrightarrow> k \<notin> set (ids t w) \<Longrightarrow> k \<le> u64_max \<Longrightarrow> inv (restore t k w)"
    and restore_same: "inv w \<Longrightarrow> k \<notin> set (ids t w) \<Longrightarrow> k \<le> u64_max \<Longrightarrow> ids t (restore t k w) = insort k (ids t w)"
    and restore_other: "inv w \<Longrightarrow> k \<notin> set (ids t w) \<Longrightarrow> k \<le> u64_max \<Longrightarrow> u \<noteq> t \<Longrightarrow> ids u (restore t k w) = ids u w"
begin

text \<open>Restoring reserved ids, in order, puts them back in front of the queue.\<close>

lemma restore_all:
  assumes "inv w" "sorted_wrt (<) (ks @ ids t w)" "\<forall>k \<in> set ks. k \<le> u64_max"
  shows "inv (fold (restore t) ks w) \<and> ids t (fold (restore t) ks w) = ks @ ids t w
     \<and> (\<forall>u. u \<noteq> t \<longrightarrow> ids u (fold (restore t) ks w) = ids u w)"
proof -
  have "inv (fold (restore t) ks w) \<and> mset (ids t (fold (restore t) ks w)) = mset ks + mset (ids t w)
     \<and> (\<forall>u. u \<noteq> t \<longrightarrow> ids u (fold (restore t) ks w) = ids u w)"
    if "inv w" "distinct (ks @ ids t w)" "\<forall>k \<in> set ks. k \<le> u64_max" for ks w
    using that
  proof (induction ks arbitrary: w)
    case Nil
    then show ?case by simp
  next
    case (Cons k ks)
    have k: "k \<notin> set (ids t w)" "k \<le> u64_max" using Cons.prems by auto
    note w = restore_inv[OF Cons.prems(1) k] restore_same[OF Cons.prems(1) k] restore_other[OF Cons.prems(1) k]
    have "distinct (ks @ ids t (restore t k w))"
      using Cons.prems(2) by (auto simp: w(2) set_insort_key distinct_insort)
    with Cons.IH[OF w(1) this] Cons.prems(3) w(2,3) show ?case by simp
  qed
  moreover have "distinct (ks @ ids t w)" using assms(2) by (simp add: strict_sorted_iff)
  ultimately have r: "inv (fold (restore t) ks w)" "mset (ids t (fold (restore t) ks w)) = mset (ks @ ids t w)"
     "\<forall>u. u \<noteq> t \<longrightarrow> ids u (fold (restore t) ks w) = ids u w"
    using assms(1,3) by auto
  have "sorted (ids t (fold (restore t) ks w))" "sorted (ks @ ids t w)"
    using ids_sorted[OF r(1)] assms(2) strict_sorted_imp_sorted by blast+
  then have "ids t (fold (restore t) ks w) = ks @ ids t w"
    using properties_for_sort[OF r(2)] by (simp add: sorted_sort_id del: mset_append)
  then show ?thesis using r by blast
qed

end

lemma reserve_steps_front:
  assumes wf: "wf_steps w" and r: "reserve_steps t after mx w = (Some (k, gone), w')"
    and after: "\<forall>x \<in> set (table_ids t w). after < x"
  shows "in_bound mx k \<and> table_ids t w = k # table_ids t w'"
proof -
  define start where "start = min (after + 1) u64_max"
  have post: "reserve_post t start mx w (Some (k, gone)) w'"
    using reserve_scan_spec[OF wf] r by (simp add: reserve_steps_def start_def)
  have "start \<le> x" if "x \<in> set (table_ids t w)" for x using after that by (fastforce simp: start_def)
  then have res: "reservable t start mx w = filter (in_bound mx) (table_ids t w)"
    unfolding reservable_def by (intro filter_cong) auto
  obtain i rest where ids: "table_ids t w = i # rest"
    using post by (cases "table_ids t w") (auto simp: reserve_post_def res)
  have "in_bound mx i"
  proof (rule ccontr)
    assume "\<not> in_bound mx i"
    then have "\<forall>x \<in> set (table_ids t w). \<not> in_bound mx x"
      using table_ids_sorted[OF wf, of t] ids by (auto simp: in_bound_def split: option.splits)
    then show False using post by (simp add: reserve_post_def res filter_empty_conv)
  qed
  then show ?thesis using post ids by (simp add: reserve_post_def res)
qed

interpretation wq: work_queue wf_steps table_ids reserve_steps restore_step
proof
  fix w t after mx r w' assume wf: "wf_steps w" and r: "reserve_steps t after mx w = (r, w')"
  have post: "reserve_post t (min (after + 1) u64_max) mx w r w'"
    using reserve_scan_spec[OF wf] r by (simp add: reserve_steps_def)
  show "wf_steps w'" using post by (simp add: reserve_post_def)
  show "table_ids u w' = table_ids u w" if "u \<noteq> t" for u using post that by (simp add: reserve_post_def)
next
  fix w t after mx w' assume wf: "wf_steps w" and r: "reserve_steps t after mx w = (None, w')"
  have post: "reserve_post t (min (after + 1) u64_max) mx w None w'"
    using reserve_scan_spec[OF wf] r by (simp add: reserve_steps_def)
  show "w' = w" using post by (simp add: reserve_post_def)
  show "\<forall>k \<in> set (table_ids t w). after < k \<longrightarrow> \<not> in_bound mx k"
    using post by (auto simp: reserve_post_def reservable_def filter_empty_conv)
next
  fix w t after mx k gone w'
  assume "wf_steps w" "reserve_steps t after mx w = (Some (k, gone), w')" "\<forall>x \<in> set (table_ids t w). after < x"
  then show "in_bound mx k \<and> table_ids t w = k # table_ids t w'" by (rule reserve_steps_front)
next
  fix w :: steps and k t assume "wf_steps w" "k \<notin> set (table_ids t w)" "k \<le> u64_max"
  from entry_add[OF this, of "\<lambda>ts. if t \<in> set ts then ts else ts @ [t]"]
  show "wf_steps (restore_step t k w)" "table_ids t (restore_step t k w) = insort k (table_ids t w)"
    "\<And>u. u \<noteq> t \<Longrightarrow> table_ids u (restore_step t k w) = table_ids u w"
    by (auto simp: restore_step_def)
next
  fix w t k assume "wf_steps w" "k \<in> set (table_ids t w)"
  then show "k \<le> u64_max" by (rule table_ids_le)
qed (simp add: table_ids_sorted)

subsection \<open>The work plan covers every batch once\<close>

lemma plan_table_spec:
  assumes "wf_steps steps" "\<forall>i \<in> set is. i \<le> u64_max" "set (table_ids t steps) \<subseteq> seen"
  shows "wf_steps (plan_table t init seen is steps)
     \<and> set (table_ids t (plan_table t init seen is steps))
         = set (table_ids t steps) \<union> {i \<in> set is. Some i \<noteq> init \<and> i \<notin> seen}
     \<and> (\<forall>u. u \<noteq> t \<longrightarrow> table_ids u (plan_table t init seen is steps) = table_ids u steps)"
  using assms
proof (induction "is" arbitrary: seen steps)
  case Nil
  then show ?case by simp
next
  case (Cons i "is")
  show ?case
  proof (cases "Some i = init \<or> i \<in> seen")
    case True
    then show ?thesis using Cons.IH[OF Cons.prems(1) _ Cons.prems(3)] Cons.prems(2) by auto
  next
    case False
    let ?s = "entry_or_default i (\<lambda>ts. ts @ [t]) steps"
    have "i \<notin> set (table_ids t steps)" "i \<le> u64_max" using False Cons.prems by auto
    note add = entry_add[OF Cons.prems(1) this, of "\<lambda>ts. ts @ [t]"]
    then have "set (table_ids t ?s) \<subseteq> insert i seen" using Cons.prems(3) by (auto simp: set_insort_key)
    with Cons.IH[of ?s "insert i seen"] add Cons.prems(2) False
    show ?thesis by (auto simp: set_insort_key)
  qed
qed

lemma plan_tables_spec:
  assumes "wf_steps steps" "distinct (map fst tables)" "\<forall>(t, is) \<in> set tables. \<forall>i \<in> set is. i \<le> u64_max"
    "\<forall>t \<in> set (map fst tables). table_ids t steps = []"
  shows "wf_steps (plan_tables skip tables steps)
     \<and> (\<forall>(t, is) \<in> set tables. set (table_ids t (plan_tables skip tables steps))
           = {i \<in> set is. \<not> (skip \<and> i = hd is)})
     \<and> (\<forall>u. u \<notin> set (map fst tables) \<longrightarrow> table_ids u (plan_tables skip tables steps) = table_ids u steps)"
  using assms
proof (induction skip tables steps rule: plan_tables.induct)
  case (1 skip steps)
  then show ?case by simp
next
  case (2 skip t "is" tables steps)
  let ?init = "if skip then (case is of [] \<Rightarrow> None | i # _ \<Rightarrow> Some i) else None"
  let ?s = "plan_table t ?init {} is steps"
  have spec: "wf_steps ?s" "set (table_ids t ?s) = {i \<in> set is. Some i \<noteq> ?init}"
      "\<And>u. u \<noteq> t \<Longrightarrow> table_ids u ?s = table_ids u steps"
    using plan_table_spec[of steps "is" t "{}" ?init] 2(2-5) by auto
  have init: "Some i \<noteq> ?init \<longleftrightarrow> \<not> (skip \<and> i = hd is)" if "i \<in> set is" for i
    using that by (cases "is") auto
  have "\<forall>u \<in> set (map fst tables). table_ids u ?s = []"
  proof
    fix u assume u: "u \<in> set (map fst tables)"
    then have "u \<noteq> t" using 2(3) by auto
    from spec(3)[OF this] show "table_ids u ?s = []" using u 2(5) by fastforce
  qed
  with 2(1) spec(1) 2(3,4) have ih: "wf_steps (plan_tables skip tables ?s)"
     "\<forall>(t, is) \<in> set tables. set (table_ids t (plan_tables skip tables ?s)) = {i \<in> set is. \<not> (skip \<and> i = hd is)}"
     "\<forall>u. u \<notin> set (map fst tables) \<longrightarrow> table_ids u (plan_tables skip tables ?s) = table_ids u ?s"
    by auto
  have "t \<notin> set (map fst tables)" using 2(3) by simp
  then have "set (table_ids t (plan_tables skip tables ?s)) = {i \<in> set is. \<not> (skip \<and> i = hd is)}"
    using ih(3) spec(2) init by auto
  then show ?case using ih spec(3) by auto
qed

lemma build_work_plan_ok:
  assumes "distinct (map fst tables)" "\<forall>(t, is) \<in> set tables. \<forall>i \<in> set is. i \<le> u64_max"
  shows "wf_steps (ws_steps (build_work_plan skip_first tables))
     \<and> (\<forall>(t, is) \<in> set tables. table_ids t (ws_steps (build_work_plan skip_first tables))
           = sorted_list_of_set {i \<in> set is. \<not> (skip_first \<and> i = hd is)})"
proof -
  let ?s = "plan_tables skip_first tables []"
  have spec: "wf_steps ?s" "\<forall>(t, is) \<in> set tables. set (table_ids t ?s) = {i \<in> set is. \<not> (skip_first \<and> i = hd is)}"
    using plan_tables_spec[OF _ assms, of "[]" skip_first] by auto
  have ids: "table_ids t ?s = sorted_list_of_set (set (table_ids t ?s))" for t
    using table_ids_sorted[OF spec(1), of t]
    by (metis strict_sorted_iff sorted_list_of_set.idem_if_sorted_distinct)
  have "table_ids t ?s = sorted_list_of_set {i \<in> set is. \<not> (skip_first \<and> i = hd is)}"
    if "(t, is) \<in> set tables" for t "is"
  proof -
    have "set (table_ids t ?s) = {i \<in> set is. \<not> (skip_first \<and> i = hd is)}" using spec(2) that by blast
    then show ?thesis by (rule subst[where P = "\<lambda>A. table_ids t ?s = sorted_list_of_set A"]) (rule ids)
  qed
  then show ?thesis using spec(1) by (auto simp: build_work_plan_def)
qed

text \<open>
  The work plan lists, for every table of the dataset, each of its batch ids once and in
  ascending order, without the first id when that batch was loaded by \<^verbatim>\<open>initialize\<close>.
\<close>

theorem build_work_plan_covers:
  assumes "distinct (map fst tables)" "\<forall>(t, is) \<in> set tables. \<forall>i \<in> set is. i \<le> u64_max"
  shows "wf_steps (ws_steps (build_work_plan skip_first tables))
     \<and> (\<forall>(t, is) \<in> set tables. table_ids t (ws_steps (build_work_plan skip_first tables))
           = sorted_list_of_set {i \<in> set is. \<not> (skip_first \<and> i = hd is)})"
  by (rule build_work_plan_ok[OF assms])

theorem build_work_plan_covers_witness:
  "table_ids ''a'' (ws_steps (build_work_plan True [(''a'', [0, 2, 1]), (''b'', [1, 2, 2])])) = [1, 2]
   \<and> table_ids ''b'' (ws_steps (build_work_plan True [(''a'', [0, 2, 1]), (''b'', [1, 2, 2])])) = [2]"
proof -
  have "{i \<in> set [0, 2, 1]. \<not> (True \<and> i = hd [0, 2, 1 :: nat])} = {1, 2}"
    "{i \<in> set [1, 2, 2]. \<not> (True \<and> i = hd [1, 2, 2 :: nat])} = {2}" by auto
  then show ?thesis
    using build_work_plan_covers[of "[(''a'', [0, 2, 1]), (''b'', [1, 2, 2])]" True] by simp
qed

text \<open>
  A reservation takes the smallest batch id of the table behind \<open>after\<close> and within the
  bound, and reports none exactly when there is none. It removes that table from that step
  alone, reports whether the step disappeared with it, and changes neither the queue of
  another table nor the finished tables.
\<close>

theorem reserve_takes_next:
  assumes wf: "wf_steps (ws_steps ws)" and after: "after < u64_max"
    and r: "reserve_next_batch_id_for_table ws t after mx = (r, ws')"
  shows "wf_steps (ws_steps ws') \<and> ws_finished_tables ws' = ws_finished_tables ws
     \<and> (\<forall>u. u \<noteq> t \<longrightarrow> table_ids u (ws_steps ws') = table_ids u (ws_steps ws))
     \<and> (case r of
          None \<Rightarrow> ws' = ws \<and> (\<forall>k \<in> set (table_ids t (ws_steps ws)). \<not> (after < k \<and> in_bound mx k))
        | Some (k, gone) \<Rightarrow> k \<in> set (table_ids t (ws_steps ws)) \<and> after < k \<and> in_bound mx k
            \<and> (\<forall>x \<in> set (table_ids t (ws_steps ws)). after < x \<longrightarrow> k \<le> x)
            \<and> table_ids t (ws_steps ws') = remove1 k (table_ids t (ws_steps ws))
            \<and> gone = (k \<notin> set (map fst (ws_steps ws'))))"
proof -
  have start: "min (after + 1) u64_max = after + 1" using after by simp
  have res: "reserve_scan t (after + 1) mx (ws_steps ws) = (r, ws_steps ws')" and ws': "ws' = ws\<lparr>ws_steps := ws_steps ws'\<rparr>"
    using r unfolding reserve_next_batch_id_for_table_def reserve_steps_def start by (auto split: prod.splits)
  have post: "reserve_post t (after + 1) mx (ws_steps ws) r (ws_steps ws')"
    using reserve_scan_spec[OF wf res] .
  define c where "c = reservable t (after + 1) mx (ws_steps ws)"
  have c: "set c = {k \<in> set (table_ids t (ws_steps ws)). after < k \<and> in_bound mx k}"
    by (auto simp: c_def reservable_def)
  have "sorted_wrt (<) c" unfolding c_def reservable_def using table_ids_sorted[OF wf] by (rule sorted_wrt_filter)
  then have least: "hd c \<le> x" if "x \<in> set c" for x using that by (cases c) auto
  have bound: "in_bound mx x" if "in_bound mx k" "x \<le> k" for x k
    using that by (auto simp: in_bound_def split: option.splits)
  have ws_eq: "ws' = ws" if "ws_steps ws' = ws_steps ws" using ws' that by simp
  have fin: "ws_finished_tables ws' = ws_finished_tables ws" using ws' by (metis PipelineWorkState.select_convs(2)
        PipelineWorkState.surjective PipelineWorkState.update_convs(1))
  show ?thesis
  proof (cases r)
    case None
    then show ?thesis using post c fin ws_eq by (auto simp: reserve_post_def c_def)
  next
    case (Some kg)
    obtain k gone where k: "r = Some (k, gone)" using Some by (cases kg) simp
    have ne: "c \<noteq> []" and hd: "k = hd c" using post k by (auto simp: reserve_post_def c_def)
    have kc: "k \<in> set c" using ne hd by simp
    have "k \<le> x" if "x \<in> set (table_ids t (ws_steps ws))" "after < x" for x
      using that least[of x] hd c bound[of k x] kc by (cases "x \<le> k") auto
    then show ?thesis using post k kc c fin by (simp add: reserve_post_def)
  qed
qed

theorem reserve_takes_next_witness:
  "fst (reserve_next_batch_id_for_table (build_work_plan False [(''a'', [1, 3]), (''b'', [2, 3])]) ''a'' 1 (Some 3))
     = Some (3, False)
   \<and> table_ids ''b'' (ws_steps (snd (reserve_next_batch_id_for_table
        (build_work_plan False [(''a'', [1, 3]), (''b'', [2, 3])]) ''a'' 1 (Some 3)))) = [2, 3]"
proof -
  let ?ws = "build_work_plan False [(''a'', [1, 3]), (''b'', [2, 3])]"
  have steps: "ws_steps ?ws = [(1, [''a'']), (2, [''b'']), (3, [''a'', ''b''])]"
    by (simp add: build_work_plan_def)
  have r: "fst (reserve_next_batch_id_for_table ?ws ''a'' 1 (Some 3)) = Some (3, False)"
    by (simp add: reserve_next_batch_id_for_table_def reserve_steps_def build_work_plan_def)
  have wf: "wf_steps (ws_steps ?ws)" unfolding steps by simp
  have eq: "reserve_next_batch_id_for_table ?ws ''a'' 1 (Some 3)
      = (Some (3, False), snd (reserve_next_batch_id_for_table ?ws ''a'' 1 (Some 3)))"
    using r by (metis prod.collapse)
  have "1 < u64_max" by simp
  from reserve_takes_next[OF wf this eq] r show ?thesis unfolding steps by simp
qed

end
