(* ===== verification/EtlRead.thy ===== *)
theory EtlRead
  imports EtlWork
begin

text \<open>
  Reading from storage, \<^verbatim>\<open>read_logical_batch\<close> of \<^verbatim>\<open>crates/etl/src/lib.rs\<close>: the parts of a split
  batch are downloaded concurrently, at most two at a time, and merged in part order. The
  storage is a parameter; a schedule says which of the downloads in flight completes next and
  which of the spawned tasks fail to join.
\<close>

subsection \<open>Storage\<close>

record ReadResult =
  rr_batches :: "record_batch list"
  rr_rows_read :: nat
  rr_bytes_read :: nat
  rr_key_columns :: "string list"

definition rr_num_rows :: "ReadResult \<Rightarrow> nat" where
  "rr_num_rows r = sum_list (map rb_num_rows (rr_batches r))"

record data_storage =
  ds_read_batch_parts :: "string \<Rightarrow> nat \<Rightarrow> nat list result"
  ds_read_batch :: "string \<Rightarrow> nat \<Rightarrow> nat option \<Rightarrow> ReadResult option result"

definition MAX_IN_FLIGHT_SOURCE_PART_READS :: nat where "MAX_IN_FLIGHT_SOURCE_PART_READS = 2"

text \<open>\<open>pick k n\<close> is the choice, among \<open>n\<close> tasks in flight, made by the \<open>k\<close>-th \<^verbatim>\<open>join_next\<close>.\<close>

record join_schedule =
  js_pick :: "nat \<Rightarrow> nat \<Rightarrow> nat"
  js_join_error :: "nat \<Rightarrow> string option"

definition pick_index :: "join_schedule \<Rightarrow> nat \<Rightarrow> nat \<Rightarrow> nat" where
  "pick_index js k n = js_pick js k n mod n"

lemma pick_index_lt: "0 < n \<Longrightarrow> pick_index js k n < n"
  by (simp add: pick_index_def)

subsection \<open>Split parts\<close>

record part_state =
  ps_iter :: "nat list"
  ps_in_flight :: "nat list"
  ps_scheduled :: "nat list"
  ps_completed :: "nat \<rightharpoonup> ReadResult"
  ps_merged :: "record_batch list"
  ps_rows :: nat
  ps_bytes :: nat
  ps_keys :: "string list option"

definition part_read :: "data_storage \<Rightarrow> string \<Rightarrow> nat \<Rightarrow> nat \<Rightarrow> ReadResult result" where
  "part_read ds table batch_id part_id =
     (case ds_read_batch ds table batch_id (Some part_id) of
        Inr (Some r) \<Rightarrow> Inr r
      | Inr None \<Rightarrow> Inl (''Missing object for '' @ table @ '' batch '' @ show_nat batch_id @ '' part ''
                        @ show_nat part_id @ '' listed in metadata'')
      | Inl e \<Rightarrow> Inl (''read '' @ table @ '' batch '' @ show_nat batch_id @ '' part '' @ show_nat part_id @ '': '' @ e))"

fun spawn_parts :: "nat list \<Rightarrow> nat list \<Rightarrow> nat list \<Rightarrow> nat list \<times> nat list \<times> nat list" where
  "spawn_parts [] in_flight scheduled = ([], in_flight, scheduled)"
| "spawn_parts (p # ps) in_flight scheduled =
     (if length in_flight < max MAX_IN_FLIGHT_SOURCE_PART_READS 1
      then spawn_parts ps (in_flight @ [p]) (scheduled @ [p])
      else (p # ps, in_flight, scheduled))"

definition spawn :: "part_state \<Rightarrow> part_state" where
  "spawn st = (case spawn_parts (ps_iter st) (ps_in_flight st) (ps_scheduled st) of
     (iter, in_flight, scheduled) \<Rightarrow>
        st\<lparr>ps_iter := iter, ps_in_flight := in_flight, ps_scheduled := scheduled\<rparr>)"

text \<open>The inner \<^verbatim>\<open>while\<close>: completed parts are merged as long as the next one in order is there.\<close>

definition merge_part :: "ReadResult \<Rightarrow> part_state \<Rightarrow> part_state" where
  "merge_part r st = st\<lparr>ps_merged := ps_merged st @ rr_batches r, ps_rows := ps_rows st + rr_rows_read r,
     ps_bytes := ps_bytes st + rr_bytes_read r,
     ps_keys := (case ps_keys st of Some ks \<Rightarrow> Some ks | None \<Rightarrow> Some (rr_key_columns r))\<rparr>"

fun drain_parts :: "nat list \<Rightarrow> part_state \<Rightarrow> part_state" where
  "drain_parts [] st = st\<lparr>ps_scheduled := []\<rparr>"
| "drain_parts (p # ps) st =
     (case ps_completed st p of
        None \<Rightarrow> st\<lparr>ps_scheduled := p # ps\<rparr>
      | Some r \<Rightarrow> drain_parts ps (merge_part r (st\<lparr>ps_completed := (ps_completed st)(p := None)\<rparr>)))"

definition join_part ::
  "data_storage \<Rightarrow> string \<Rightarrow> nat \<Rightarrow> join_schedule \<Rightarrow> nat \<Rightarrow> part_state \<Rightarrow> part_state result" where
  "join_part ds table batch_id js k st =
     (let i = pick_index js k (length (ps_in_flight st)); part_id = ps_in_flight st ! i;
          st1 = st\<lparr>ps_in_flight := take i (ps_in_flight st) @ drop (Suc i) (ps_in_flight st)\<rparr>
      in case js_join_error js k of
           Some e \<Rightarrow> Inl (''join error reading '' @ table @ '' batch '' @ show_nat batch_id @ '' part: '' @ e)
         | None \<Rightarrow> and_then (part_read ds table batch_id part_id) (\<lambda>r.
             Inr (drain_parts (ps_scheduled st1) (st1\<lparr>ps_completed := (ps_completed st1)(part_id \<mapsto> r)\<rparr>))))"

lemma spawn_parts_spec:
  assumes "spawn_parts iter fl sc = (iter', fl', sc')"
  shows "\<exists>new. iter = new @ iter' \<and> fl' = fl @ new \<and> sc' = sc @ new \<and> (iter \<noteq> [] \<longrightarrow> fl' \<noteq> [])"
  using assms
proof (induction iter fl sc rule: spawn_parts.induct)
  case (1 fl sc)
  then show ?case by simp
next
  case (2 p ps fl sc)
  show ?case
  proof (cases "length fl < max MAX_IN_FLIGHT_SOURCE_PART_READS 1")
    case True
    then obtain new where "ps = new @ iter'" "fl' = fl @ [p] @ new" "sc' = sc @ [p] @ new"
      using 2 by auto
    then show ?thesis by (intro exI[of _ "p # new"]) simp
  next
    case False
    then show ?thesis using 2(2) by (auto simp: MAX_IN_FLIGHT_SOURCE_PART_READS_def)
  qed
qed

lemma spawn_spec:
  obtains new where "ps_iter st = new @ ps_iter (spawn st)"
    "ps_in_flight (spawn st) = ps_in_flight st @ new" "ps_scheduled (spawn st) = ps_scheduled st @ new"
    "ps_iter st \<noteq> [] \<longrightarrow> ps_in_flight (spawn st) \<noteq> []"
proof -
  obtain iter fl sc where s: "spawn_parts (ps_iter st) (ps_in_flight st) (ps_scheduled st) = (iter, fl, sc)"
    by (metis prod_cases3)
  then have "ps_iter (spawn st) = iter" "ps_in_flight (spawn st) = fl" "ps_scheduled (spawn st) = sc"
    by (simp_all add: spawn_def)
  with spawn_parts_spec[OF s] that show thesis by metis
qed

lemma spawn_keeps [simp]:
  "ps_completed (spawn st) = ps_completed st" "ps_merged (spawn st) = ps_merged st"
  "ps_rows (spawn st) = ps_rows st" "ps_bytes (spawn st) = ps_bytes st" "ps_keys (spawn st) = ps_keys st"
  by (simp_all add: spawn_def split: prod.splits)

lemma drain_parts_keeps: "ps_iter (drain_parts ps st) = ps_iter st" "ps_in_flight (drain_parts ps st) = ps_in_flight st"
  by (induction ps st rule: drain_parts.induct) (auto simp: merge_part_def split: option.splits)

lemma join_part_measure:
  assumes "join_part ds table batch_id js k st = Inr st'" "ps_in_flight st \<noteq> []"
  shows "length (ps_iter st') + length (ps_in_flight st') < length (ps_iter st) + length (ps_in_flight st)"
  using assms pick_index_lt[of "length (ps_in_flight st)" js k]
  by (auto simp: join_part_def Let_def result_simps drain_parts_keeps split: option.splits)

function read_parts_loop ::
  "data_storage \<Rightarrow> string \<Rightarrow> nat \<Rightarrow> join_schedule \<Rightarrow> nat \<Rightarrow> part_state \<Rightarrow> part_state result" where
  "read_parts_loop ds table batch_id js k st =
     (if ps_in_flight st \<noteq> [] \<or> ps_iter st \<noteq> []
      then let st1 = spawn st
           in if ps_in_flight st1 = [] then Inr st1
              else and_then (join_part ds table batch_id js k st1)
                     (read_parts_loop ds table batch_id js (Suc k))
      else Inr st)"
  by pat_completeness auto
termination
proof (relation "measure (\<lambda>(ds, table, batch_id, js, k, st). length (ps_iter st) + length (ps_in_flight st))")
  fix ds table batch_id js k st x st'
  assume x: "x = spawn st" "ps_in_flight x \<noteq> []" and j: "join_part ds table batch_id js k x = Inr st'"
  obtain new where "ps_iter st = new @ ps_iter (spawn st)" "ps_in_flight (spawn st) = ps_in_flight st @ new"
    by (rule spawn_spec)
  then have "length (ps_iter x) + length (ps_in_flight x) = length (ps_iter st) + length (ps_in_flight st)"
    by (simp add: x(1))
  then show "((ds, table, batch_id, js, Suc k, st'), ds, table, batch_id, js, k, st) \<in>
      measure (\<lambda>(ds, table, batch_id, js, k, st). length (ps_iter st) + length (ps_in_flight st))"
    using join_part_measure[OF j x(2)] by simp
qed simp

declare read_parts_loop.simps [simp del]

definition read_logical_batch ::
  "data_storage \<Rightarrow> join_schedule \<Rightarrow> string \<Rightarrow> nat \<Rightarrow> ReadResult option result" where
  "read_logical_batch ds js table batch_id =
     and_then (map_err (\<lambda>e. ''read '' @ table @ '' batch '' @ show_nat batch_id @ '' parts: '' @ e)
                 (ds_read_batch_parts ds table batch_id)) (\<lambda>part_ids.
       if part_ids = []
       then map_err (\<lambda>e. ''read '' @ table @ '' batch '' @ show_nat batch_id @ '': '' @ e)
              (ds_read_batch ds table batch_id None)
       else and_then (read_parts_loop ds table batch_id js 0
                \<lparr>ps_iter = sort part_ids, ps_in_flight = [], ps_scheduled = [], ps_completed = Map.empty,
                 ps_merged = [], ps_rows = 0, ps_bytes = 0, ps_keys = None\<rparr>) (\<lambda>st.
              Inr (Some \<lparr>rr_batches = ps_merged st, rr_rows_read = ps_rows st, rr_bytes_read = ps_bytes st,
                         rr_key_columns = (case ps_keys st of Some ks \<Rightarrow> ks | None \<Rightarrow> [])\<rparr>)))"

subsection \<open>Merging in part order, whatever completes first\<close>

definition merge_results :: "ReadResult list \<Rightarrow> ReadResult" where
  "merge_results rs = \<lparr>rr_batches = concat (map rr_batches rs), rr_rows_read = sum_list (map rr_rows_read rs),
     rr_bytes_read = sum_list (map rr_bytes_read rs),
     rr_key_columns = (case rs of [] \<Rightarrow> [] | r # _ \<Rightarrow> rr_key_columns r)\<rparr>"

text \<open>
  The parts split into those merged, those scheduled (in flight or completed) and those not
  yet spawned; \<open>rd\<close> is what reading each part yields.
\<close>

definition merged_upto :: "(nat \<Rightarrow> ReadResult result) \<Rightarrow> nat list \<Rightarrow> part_state \<Rightarrow> bool" where
  "merged_upto rd fin st \<longleftrightarrow> (\<forall>p \<in> set fin. \<exists>r. rd p = Inr r)
     \<and> ps_merged st = concat (map (\<lambda>p. rr_batches (projr (rd p))) fin)
     \<and> ps_rows st = sum_list (map (\<lambda>p. rr_rows_read (projr (rd p))) fin)
     \<and> ps_bytes st = sum_list (map (\<lambda>p. rr_bytes_read (projr (rd p))) fin)
     \<and> ps_keys st = (case fin of [] \<Rightarrow> None | p # _ \<Rightarrow> Some (rr_key_columns (projr (rd p))))"

definition reads_completed :: "(nat \<Rightarrow> ReadResult result) \<Rightarrow> part_state \<Rightarrow> bool" where
  "reads_completed rd st \<longleftrightarrow> (\<forall>p r. ps_completed st p = Some r \<longrightarrow> rd p = Inr r)"

definition part_inv :: "(nat \<Rightarrow> ReadResult result) \<Rightarrow> nat list \<Rightarrow> part_state \<Rightarrow> bool" where
  "part_inv rd parts st \<longleftrightarrow> (\<exists>fin. parts = fin @ ps_scheduled st @ ps_iter st \<and> merged_upto rd fin st)
     \<and> reads_completed rd st
     \<and> set (ps_in_flight st) \<inter> dom (ps_completed st) = {}
     \<and> set (ps_scheduled st) = set (ps_in_flight st) \<union> dom (ps_completed st) \<and> distinct (ps_in_flight st)
     \<and> (ps_scheduled st \<noteq> [] \<longrightarrow> ps_completed st (hd (ps_scheduled st)) = None)"

lemma merge_part_upto:
  assumes "merged_upto rd fin st" "rd p = Inr r"
  shows "merged_upto rd (fin @ [p]) (merge_part r (st\<lparr>ps_completed := c\<rparr>))"
  using assms by (cases fin) (auto simp: merged_upto_def merge_part_def)

lemma drain_parts_spec:
  assumes "merged_upto rd fin st" "reads_completed rd st" "distinct ps"
  shows "\<exists>now. ps = now @ ps_scheduled (drain_parts ps st) \<and> merged_upto rd (fin @ now) (drain_parts ps st)
     \<and> reads_completed rd (drain_parts ps st)
     \<and> set now \<subseteq> dom (ps_completed st) \<and> dom (ps_completed (drain_parts ps st)) = dom (ps_completed st) - set now
     \<and> (ps_scheduled (drain_parts ps st) \<noteq> []
          \<longrightarrow> ps_completed (drain_parts ps st) (hd (ps_scheduled (drain_parts ps st))) = None)"
  using assms
proof (induction ps st arbitrary: fin rule: drain_parts.induct)
  case (1 st)
  then show ?case by (simp add: merged_upto_def reads_completed_def)
next
  case (2 p ps st)
  show ?case
  proof (cases "ps_completed st p")
    case None
    then show ?thesis using 2(2,3) by (simp add: merged_upto_def reads_completed_def)
  next
    case (Some r)
    let ?st = "merge_part r (st\<lparr>ps_completed := (ps_completed st)(p := None)\<rparr>)"
    have "rd p = Inr r" using 2(3) Some by (simp add: reads_completed_def)
    then have m: "merged_upto rd (fin @ [p]) ?st" using merge_part_upto[OF 2(2)] by blast
    have c: "ps_completed ?st = (ps_completed st)(p := None)" by (simp add: merge_part_def)
    have rc: "reads_completed rd ?st" using 2(3) by (simp add: reads_completed_def c)
    obtain now where now: "ps = now @ ps_scheduled (drain_parts ps ?st)"
        "merged_upto rd ((fin @ [p]) @ now) (drain_parts ps ?st)" "reads_completed rd (drain_parts ps ?st)"
        "set now \<subseteq> dom (ps_completed ?st)" "dom (ps_completed (drain_parts ps ?st)) = dom (ps_completed ?st) - set now"
        "ps_scheduled (drain_parts ps ?st) \<noteq> []
          \<longrightarrow> ps_completed (drain_parts ps ?st) (hd (ps_scheduled (drain_parts ps ?st))) = None"
      using 2(1)[OF Some m rc] 2(4) by auto
    show ?thesis using Some now by (intro exI[of _ "p # now"]) (auto simp: c)
  qed
qed

lemma part_inv_spawn:
  assumes "part_inv rd parts st" "distinct parts"
  shows "part_inv rd parts (spawn st)"
proof -
  obtain new where new: "ps_iter st = new @ ps_iter (spawn st)" "ps_in_flight (spawn st) = ps_in_flight st @ new"
     "ps_scheduled (spawn st) = ps_scheduled st @ new" by (rule spawn_spec)
  obtain fin where fin: "parts = fin @ ps_scheduled st @ ps_iter st" "merged_upto rd fin st"
    using assms(1) by (auto simp: part_inv_def)
  have d: "distinct (fin @ ps_scheduled st @ new @ ps_iter (spawn st))" using assms(2) fin(1) new(1) by simp
  have sub: "dom (ps_completed st) \<subseteq> set (ps_scheduled st)" "set (ps_in_flight st) \<subseteq> set (ps_scheduled st)"
    "distinct (ps_in_flight st)" using assms(1) by (auto simp: part_inv_def)
  have "parts = fin @ ps_scheduled (spawn st) @ ps_iter (spawn st) \<and> merged_upto rd fin (spawn st)"
    using fin new by (simp add: merged_upto_def)
  moreover have "set (ps_in_flight (spawn st)) \<inter> dom (ps_completed st) = {}" "distinct (ps_in_flight (spawn st))"
    using assms(1) d sub by (auto simp: part_inv_def new(2))
  moreover have "ps_completed st (hd (ps_scheduled st @ new)) = None" if "ps_scheduled st @ new \<noteq> []"
  proof (cases "ps_scheduled st")
    case Nil
    then show ?thesis using sub(1) by (auto simp: domIff)
  next
    case (Cons a list)
    then show ?thesis using assms(1) by (simp add: part_inv_def)
  qed
  ultimately show ?thesis using assms(1) new(2,3) by (auto simp: part_inv_def reads_completed_def)
qed

lemma set_remove_nth:
  assumes "distinct xs" "i < length xs"
  shows "distinct (take i xs @ drop (Suc i) xs)" "set (take i xs @ drop (Suc i) xs) = set xs - {xs ! i}"
proof -
  have xs: "xs = take i xs @ xs ! i # drop (Suc i) xs" using assms(2) by (rule id_take_nth_drop)
  then have d: "distinct (take i xs @ xs ! i # drop (Suc i) xs)" using assms(1) by simp
  then show "distinct (take i xs @ drop (Suc i) xs)" by simp
  have "set xs = insert (xs ! i) (set (take i xs @ drop (Suc i) xs))" by (subst xs) simp
  then show "set (take i xs @ drop (Suc i) xs) = set xs - {xs ! i}" using d by auto
qed

lemma part_inv_join:
  assumes inv: "part_inv (part_read ds t b) parts st" and ne: "ps_in_flight st \<noteq> []" and d: "distinct parts"
    and j: "join_part ds t b js k st = Inr st'"
  shows "part_inv (part_read ds t b) parts st'"
proof -
  let ?rd = "part_read ds t b" and ?fl = "ps_in_flight st"
  define i where "i = pick_index js k (length ?fl)"
  define fl where "fl = take i ?fl @ drop (Suc i) ?fl"
  have i: "i < length ?fl" using pick_index_lt ne by (simp add: i_def)
  obtain r where r: "?rd (?fl ! i) = Inr r"
    and st': "st' = drain_parts (ps_scheduled st)
        (st\<lparr>ps_in_flight := fl, ps_completed := (ps_completed st)(?fl ! i \<mapsto> r)\<rparr>)"
    using j by (auto simp: join_part_def Let_def result_simps i_def fl_def split: option.splits)
  let ?st = "st\<lparr>ps_in_flight := fl, ps_completed := (ps_completed st)(?fl ! i \<mapsto> r)\<rparr>"
  obtain fin where fin: "parts = fin @ ps_scheduled st @ ps_iter st" "merged_upto ?rd fin st"
    using inv by (auto simp: part_inv_def)
  have fl: "distinct fl" "set fl = set ?fl - {?fl ! i}"
    using set_remove_nth[OF _ i] inv by (auto simp: part_inv_def fl_def)
  have m: "merged_upto ?rd fin ?st" "reads_completed ?rd ?st" "distinct (ps_scheduled st)"
    using fin inv r d by (auto simp: merged_upto_def reads_completed_def part_inv_def)
  obtain now where now: "ps_scheduled st = now @ ps_scheduled st'" "merged_upto ?rd (fin @ now) st'"
      "reads_completed ?rd st'" "set now \<subseteq> dom (ps_completed ?st)"
      "dom (ps_completed st') = dom (ps_completed ?st) - set now"
      "ps_scheduled st' \<noteq> [] \<longrightarrow> ps_completed st' (hd (ps_scheduled st')) = None"
    using drain_parts_spec[OF m] unfolding st' by blast
  have keeps: "ps_iter st' = ps_iter st" "ps_in_flight st' = fl" by (simp_all add: st' drain_parts_keeps)
  have dom: "dom (ps_completed ?st) = insert (?fl ! i) (dom (ps_completed st))" by simp
  have sch: "set (ps_scheduled st) = set ?fl \<union> dom (ps_completed st)" "set ?fl \<inter> dom (ps_completed st) = {}"
    using inv by (simp_all add: part_inv_def)
  have in_i: "?fl ! i \<in> set ?fl" using i by simp
  have "set now \<inter> set (ps_scheduled st') = {}" using m(3) now(1) by (metis distinct_append)
  then have sch': "set (ps_scheduled st') = set (ps_scheduled st) - set now" using now(1) by (metis Diff_cancel
        Diff_triv Un_Diff Un_empty_left inf_commute set_append)
  have "set (ps_scheduled st') = set fl \<union> dom (ps_completed st')"
    unfolding sch' sch(1) now(5) dom fl(2) using now(4) sch(2) in_i unfolding dom by blast
  moreover have "set fl \<inter> dom (ps_completed st') = {}"
    unfolding now(5) dom fl(2) using sch(2) by blast
  moreover have "parts = (fin @ now) @ ps_scheduled st' @ ps_iter st'"
    using fin(1) now(1) keeps(1) by (metis append.assoc)
  ultimately show ?thesis using now(2,3,6) fl(1) unfolding part_inv_def keeps(2) by blast
qed

lemma read_parts_loop_ok:
  assumes "part_inv (part_read ds t b) parts st" "distinct parts"
  shows "case read_parts_loop ds t b js k st of
      Inr st' \<Rightarrow> merged_upto (part_read ds t b) parts st'
    | Inl e \<Rightarrow> (\<exists>p \<in> set parts. part_read ds t b p = Inl e) \<or> (\<exists>j. js_join_error js j \<noteq> None)"
  using assms
proof (induction ds t b js k st rule: read_parts_loop.induct)
  case (1 ds t b js k st)
  show ?case
  proof (cases "ps_in_flight st \<noteq> [] \<or> ps_iter st \<noteq> []")
    case False
    then have "ps_scheduled st = []"
      using 1(2) unfolding part_inv_def by (metis Un_empty_left domIff empty_set list.set_sel(1))
    then show ?thesis using False 1(2) by (auto simp: read_parts_loop.simps part_inv_def)
  next
    case True
    obtain new where new: "ps_in_flight (spawn st) = ps_in_flight st @ new" "ps_iter st \<noteq> [] \<longrightarrow> ps_in_flight (spawn st) \<noteq> []"
      by (rule spawn_spec)
    then have ne: "ps_in_flight (spawn st) \<noteq> []" using True by auto
    have inv: "part_inv (part_read ds t b) parts (spawn st)" using part_inv_spawn 1(2,3) .
    have unf: "read_parts_loop ds t b js k st
        = and_then (join_part ds t b js k (spawn st)) (read_parts_loop ds t b js (Suc k))"
      using True ne by (subst read_parts_loop.simps) (simp add: Let_def)
    show ?thesis
    proof (cases "join_part ds t b js k (spawn st)")
      case (Inr st1)
      then show ?thesis unfolding unf
        using 1(1)[OF True refl ne Inr part_inv_join[OF inv ne 1(3) Inr] 1(3)] by simp
    next
      case (Inl e)
      let ?i = "pick_index js k (length (ps_in_flight (spawn st)))"
      have "ps_in_flight (spawn st) ! ?i \<in> set parts"
        using inv ne pick_index_lt[of "length (ps_in_flight (spawn st))" js k]
        by (fastforce simp: part_inv_def)
      moreover have "part_read ds t b (ps_in_flight (spawn st) ! ?i) = Inl e \<or> js_join_error js k \<noteq> None"
        using Inl by (cases "part_read ds t b (ps_in_flight (spawn st) ! ?i)")
          (auto simp: join_part_def Let_def split: option.splits)
      ultimately show ?thesis unfolding unf using Inl by auto
    qed
  qed
qed

lemma read_logical_batch_parts:
  assumes parts: "ds_read_batch_parts ds t b = Inr parts" "parts \<noteq> []" "distinct parts"
    and join: "\<And>j. js_join_error js j = None"
  shows "if \<forall>p \<in> set parts. \<exists>r. part_read ds t b p = Inr r
     then read_logical_batch ds js t b
            = Inr (Some (merge_results (map (\<lambda>p. projr (part_read ds t b p)) (sort parts))))
     else \<exists>p \<in> set parts. \<exists>e. part_read ds t b p = Inl e \<and> read_logical_batch ds js t b = Inl e"
proof -
  define st0 where "st0 = \<lparr>ps_iter = sort parts, ps_in_flight = [], ps_scheduled = [], ps_completed = Map.empty,
                 ps_merged = [], ps_rows = 0, ps_bytes = 0, ps_keys = None\<rparr>"
  have inv: "part_inv (part_read ds t b) (sort parts) st0"
    by (auto simp: part_inv_def st0_def merged_upto_def reads_completed_def)
  have d: "distinct (sort parts)" using parts(3) by simp
  note loop = read_parts_loop_ok[OF inv d, of js 0]
  have unf: "read_logical_batch ds js t b = and_then (read_parts_loop ds t b js 0 st0) (\<lambda>st.
      Inr (Some \<lparr>rr_batches = ps_merged st, rr_rows_read = ps_rows st, rr_bytes_read = ps_bytes st,
                         rr_key_columns = (case ps_keys st of Some ks \<Rightarrow> ks | None \<Rightarrow> [])\<rparr>))"
    using parts(1,2) by (simp add: read_logical_batch_def st0_def)
  show ?thesis
  proof (cases "read_parts_loop ds t b js 0 st0")
    case (Inl e)
    then obtain p where p: "p \<in> set parts" "part_read ds t b p = Inl e" using loop join by auto
    then have "\<not> (\<forall>p \<in> set parts. \<exists>r. part_read ds t b p = Inr r)" by force
    moreover have "read_logical_batch ds js t b = Inl e" using Inl unf by simp
    ultimately show ?thesis using p by auto
  next
    case (Inr st)
    then have m: "merged_upto (part_read ds t b) (sort parts) st" using loop by simp
    have "sort parts \<noteq> []" using parts(2) by (metis set_empty set_sort)
    then have "read_logical_batch ds js t b
            = Inr (Some (merge_results (map (\<lambda>p. projr (part_read ds t b p)) (sort parts))))"
      unfolding unf Inr using m by (cases "sort parts") (simp_all add: merged_upto_def merge_results_def comp_def)
    then show ?thesis using m by (simp add: merged_upto_def)
  qed
qed

text \<open>
  C18. Reading a split batch does not depend on the order in which the downloads complete. If
  every part can be read, the result is the parts' batches in ascending part order, the sums
  of their row and byte counts and the key columns of the first part; otherwise the read
  fails with the error of one of the parts, never with a partial batch.
\<close>

theorem read_logical_batch_order_free:
  assumes parts: "ds_read_batch_parts ds t b = Inr parts" "parts \<noteq> []" "distinct parts"
    and join: "\<And>j. js_join_error js j = None"
  shows "if \<forall>p \<in> set parts. \<exists>r. part_read ds t b p = Inr r
     then read_logical_batch ds js t b
            = Inr (Some (merge_results (map (\<lambda>p. projr (part_read ds t b p)) (sort parts))))
     else \<exists>p \<in> set parts. \<exists>e. part_read ds t b p = Inl e \<and> read_logical_batch ds js t b = Inl e"
  by (rule read_logical_batch_parts[OF assms])

definition sample_storage :: data_storage where
  "sample_storage = \<lparr>ds_read_batch_parts = (\<lambda>t b. Inr [2, 0, 1]),
     ds_read_batch = (\<lambda>t b p. case p of None \<Rightarrow> Inr None
        | Some i \<Rightarrow> Inr (Some \<lparr>rr_batches = [sample_batch], rr_rows_read = i, rr_bytes_read = 1, rr_key_columns = [''k'']\<rparr>))\<rparr>"

definition last_first :: join_schedule where
  "last_first = \<lparr>js_pick = (\<lambda>k n. n - 1), js_join_error = (\<lambda>_. None)\<rparr>"

theorem read_logical_batch_order_free_witness:
  "read_logical_batch sample_storage last_first ''t'' 5
     = Inr (Some \<lparr>rr_batches = [sample_batch, sample_batch, sample_batch], rr_rows_read = 3, rr_bytes_read = 3,
                  rr_key_columns = [''k'']\<rparr>)"
proof -
  have "ds_read_batch_parts sample_storage ''t'' 5 = Inr [2, 0, 1]" "\<And>j. js_join_error last_first j = None"
    by (simp_all add: sample_storage_def last_first_def)
  moreover have "part_read sample_storage ''t'' 5 p
      = Inr \<lparr>rr_batches = [sample_batch], rr_rows_read = p, rr_bytes_read = 1, rr_key_columns = [''k'']\<rparr>" for p
    by (simp add: part_read_def sample_storage_def)
  ultimately show ?thesis
    using read_logical_batch_order_free[of sample_storage "''t''" 5 "[2, 0, 1]" last_first]
    by (simp add: merge_results_def)
qed

end
