(* ===== verification/EtlTask.thy ===== *)
theory EtlTask
  imports EtlRead
begin

text \<open>
  \<^verbatim>\<open>read_batches_until_min_rows\<close> of \<^verbatim>\<open>crates/etl/src/lib.rs\<close> as a state machine. A table task
  reads its start batch and keeps reserving the next batch ids of its table, at most two reads
  in flight, until it has enough rows; results are consumed in id order and reservations
  that were not needed go back to the shared plan. Every lock section of the source is one
  step, so that the tasks of different tables can interleave between them.
\<close>

subsection \<open>The task\<close>

definition MAX_IN_FLIGHT_SOURCE_BATCH_READS :: nat where "MAX_IN_FLIGHT_SOURCE_BATCH_READS = 2"

record table_task =
  tt_table :: string
  tt_max_batch_id :: "nat option"
  tt_all_batches :: "record_batch list"
  tt_total_rows :: nat
  tt_key_columns :: "string list option"
  tt_reserve_cursor :: nat
  tt_table_finished :: bool
  tt_read_any :: bool
  tt_consumed_work_units :: nat
  tt_rows_read :: nat
  tt_can_reserve_more :: bool
  tt_in_flight :: "nat list"
  tt_scheduled :: "nat list"
  tt_completed :: "(nat \<times> ReadResult option) list"
  tt_removed_step :: "nat \<rightharpoonup> bool"

record shared_state =
  sh_work :: PipelineWorkState
  sh_logical_steps :: nat

datatype task_status =
    Reading table_task
  | ReadOk "record_batch list" "string list" bool nat nat
  | ReadErr string

definition start_task :: "string \<Rightarrow> nat \<Rightarrow> nat option \<Rightarrow> table_task" where
  "start_task table start_batch_id max_batch_id =
     \<lparr>tt_table = table, tt_max_batch_id = max_batch_id, tt_all_batches = [], tt_total_rows = 0,
      tt_key_columns = None, tt_reserve_cursor = start_batch_id, tt_table_finished = False, tt_read_any = False,
      tt_consumed_work_units = 1, tt_rows_read = 0, tt_can_reserve_more = True,
      tt_in_flight = [start_batch_id], tt_scheduled = [start_batch_id], tt_completed = [],
      tt_removed_step = [start_batch_id \<mapsto> False]\<rparr>"

text \<open>Awaiting a spawned read: a join error, or the outcome of \<^verbatim>\<open>read_logical_batch\<close>.\<close>

definition spawned_read ::
  "data_storage \<Rightarrow> (string \<Rightarrow> nat \<Rightarrow> join_schedule) \<Rightarrow> (string \<Rightarrow> nat \<Rightarrow> string option)
     \<Rightarrow> string \<Rightarrow> nat \<Rightarrow> ReadResult option result" where
  "spawned_read ds js join_error table batch_id =
     (case join_error table batch_id of
        Some e \<Rightarrow> Inl (''join error reading '' @ table @ '' batch: '' @ e)
      | None \<Rightarrow> read_logical_batch ds (js table batch_id) table batch_id)"

definition may_reserve :: "nat \<Rightarrow> table_task \<Rightarrow> bool" where
  "may_reserve target tt \<longleftrightarrow> tt_can_reserve_more tt
     \<and> length (tt_in_flight tt) < max MAX_IN_FLIGHT_SOURCE_BATCH_READS 1
     \<and> tt_total_rows tt < target \<and> \<not> tt_table_finished tt"

definition reserve_one :: "table_task \<Rightarrow> shared_state \<Rightarrow> table_task \<times> shared_state" where
  "reserve_one tt sh =
     (case reserve_next_batch_id_for_table (sh_work sh) (tt_table tt) (tt_reserve_cursor tt) (tt_max_batch_id tt) of
        (None, ws) \<Rightarrow> (tt\<lparr>tt_can_reserve_more := False\<rparr>, sh\<lparr>sh_work := ws\<rparr>)
      | (Some (next_batch_id, removed), ws) \<Rightarrow>
          (tt\<lparr>tt_reserve_cursor := next_batch_id, tt_consumed_work_units := tt_consumed_work_units tt + 1,
              tt_scheduled := tt_scheduled tt @ [next_batch_id],
              tt_removed_step := (tt_removed_step tt)(next_batch_id \<mapsto> removed),
              tt_in_flight := tt_in_flight tt @ [next_batch_id]\<rparr>,
           sh\<lparr>sh_work := ws, sh_logical_steps := (if removed then (sh_logical_steps sh + 1) mod 2 ^ 64
                                                 else sh_logical_steps sh)\<rparr>))"

definition restore_unconsumed_reservations :: "table_task \<Rightarrow> shared_state \<Rightarrow> table_task \<times> shared_state" where
  "restore_unconsumed_reservations tt sh =
     (let restored_removed_steps = length (filter (\<lambda>b. tt_removed_step tt b = Some True) (tt_scheduled tt))
      in (tt\<lparr>tt_consumed_work_units := tt_consumed_work_units tt - length (tt_scheduled tt)\<rparr>,
          sh\<lparr>sh_work := (sh_work sh)\<lparr>ws_steps := fold (restore_step (tt_table tt)) (tt_scheduled tt) (ws_steps (sh_work sh))\<rparr>,
             sh_logical_steps := (if restored_removed_steps > 0
                then (sh_logical_steps sh + 2 ^ 64 - restored_removed_steps mod 2 ^ 64) mod 2 ^ 64
                else sh_logical_steps sh)\<rparr>))"

definition finish_read :: "table_task \<Rightarrow> task_status" where
  "finish_read tt = ReadOk (tt_all_batches tt) (case tt_key_columns tt of Some ks \<Rightarrow> ks | None \<Rightarrow> [])
     (tt_table_finished tt) (tt_consumed_work_units tt) (tt_rows_read tt)"

definition take_result :: "ReadResult \<Rightarrow> table_task \<Rightarrow> table_task" where
  "take_result r tt = tt\<lparr>
     tt_key_columns := (case tt_key_columns tt of Some ks \<Rightarrow> Some ks | None \<Rightarrow> Some (rr_key_columns r)),
     tt_total_rows := tt_total_rows tt + rr_num_rows r, tt_rows_read := tt_rows_read tt + rr_num_rows r,
     tt_all_batches := tt_all_batches tt @ rr_batches r, tt_read_any := True\<rparr>"

text \<open>The inner \<^verbatim>\<open>while let\<close>: results are taken in the order the batches were scheduled.\<close>

fun consume :: "nat \<Rightarrow> nat list \<Rightarrow> table_task \<Rightarrow> shared_state \<Rightarrow> task_status \<times> shared_state" where
  "consume target [] tt sh = (Reading (tt\<lparr>tt_scheduled := []\<rparr>), sh)"
| "consume target (b # bs) tt sh =
     (case map_of (tt_completed tt) b of
        None \<Rightarrow> (Reading (tt\<lparr>tt_scheduled := b # bs\<rparr>), sh)
      | Some res \<Rightarrow>
          (let tt1 = tt\<lparr>tt_completed := filter (\<lambda>(k, _). k \<noteq> b) (tt_completed tt), tt_scheduled := bs,
                        tt_removed_step := (tt_removed_step tt)(b := None)\<rparr>
           in case res of
                Some r \<Rightarrow>
                  (let tt2 = take_result r tt1
                   in if tt_total_rows tt2 \<ge> target
                      then (case restore_unconsumed_reservations tt2 sh of (tt3, sh') \<Rightarrow> (finish_read tt3, sh'))
                      else consume target bs tt2 sh)
              | None \<Rightarrow>
                  if \<not> tt_read_any tt1
                  then (case restore_unconsumed_reservations tt1 sh of
                          (tt2, sh') \<Rightarrow> (ReadOk [] [] True (tt_consumed_work_units tt2) (tt_rows_read tt2), sh'))
                  else (finish_read (tt1\<lparr>tt_table_finished := True\<rparr>), sh)))"

definition join_batch ::
  "(string \<Rightarrow> nat \<Rightarrow> ReadResult option result) \<Rightarrow> nat \<Rightarrow> nat \<Rightarrow> table_task \<Rightarrow> shared_state \<Rightarrow> task_status \<times> shared_state" where
  "join_batch rd target i tt sh =
     (let batch_id = tt_in_flight tt ! i;
          tt1 = tt\<lparr>tt_in_flight := take i (tt_in_flight tt) @ drop (Suc i) (tt_in_flight tt)\<rparr>
      in case rd (tt_table tt) batch_id of
           Inl e \<Rightarrow> (ReadErr e, sh)
         | Inr res \<Rightarrow> consume target (tt_scheduled tt1)
             (tt1\<lparr>tt_completed := (batch_id, res) # filter (\<lambda>(k, _). k \<noteq> batch_id) (tt_completed tt1)\<rparr>) sh)"

text \<open>
  One step of a task; \<open>choice\<close> picks the read that completes next when the task waits. The
  loop condition of the source is the first test; it reserves before it waits.
\<close>

definition task_step ::
  "(string \<Rightarrow> nat \<Rightarrow> ReadResult option result) \<Rightarrow> nat \<Rightarrow> nat \<Rightarrow> table_task \<Rightarrow> shared_state \<Rightarrow> task_status \<times> shared_state" where
  "task_step rd target choice tt sh =
     (if tt_in_flight tt = [] \<and> tt_completed tt = [] then (finish_read tt, sh)
      else if may_reserve target tt then (case reserve_one tt sh of (tt', sh') \<Rightarrow> (Reading tt', sh'))
      else if tt_in_flight tt = [] then (finish_read tt, sh)
      else join_batch rd target (choice mod length (tt_in_flight tt)) tt sh)"

subsection \<open>Invariant of a task\<close>

text \<open>
  \<open>I\<close> is the queue of the task when it starts: its start batch followed by the table's ids
  within the bound; \<open>R\<close> are the table's ids beyond the bound. At any moment \<open>I\<close> is the ids
  already taken, those scheduled, and those still in the shared plan.
\<close>

definition result_of :: "(string \<Rightarrow> nat \<Rightarrow> ReadResult option result) \<Rightarrow> string \<Rightarrow> nat \<Rightarrow> ReadResult" where
  "result_of rd t k = the (projr (rd t k))"

definition data_of :: "(string \<Rightarrow> nat \<Rightarrow> ReadResult option result) \<Rightarrow> string \<Rightarrow> nat list \<Rightarrow> record_batch list" where
  "data_of rd t ks = concat (map (\<lambda>k. rr_batches (result_of rd t k)) ks)"

definition rows_of :: "(string \<Rightarrow> nat \<Rightarrow> ReadResult option result) \<Rightarrow> string \<Rightarrow> nat list \<Rightarrow> nat" where
  "rows_of rd t ks = sum_list (map (\<lambda>k. rr_num_rows (result_of rd t k)) ks)"

definition has_data :: "(string \<Rightarrow> nat \<Rightarrow> ReadResult option result) \<Rightarrow> string \<Rightarrow> nat \<Rightarrow> bool" where
  "has_data rd t k \<longleftrightarrow> (\<exists>r. rd t k = Inr (Some r))"

definition took :: "(string \<Rightarrow> nat \<Rightarrow> ReadResult option result) \<Rightarrow> nat list \<Rightarrow> table_task \<Rightarrow> bool" where
  "took rd fin tt \<longleftrightarrow> list_all (has_data rd (tt_table tt)) fin
     \<and> tt_all_batches tt = data_of rd (tt_table tt) fin
     \<and> tt_total_rows tt = rows_of rd (tt_table tt) fin \<and> tt_rows_read tt = tt_total_rows tt
     \<and> tt_key_columns tt = (case fin of [] \<Rightarrow> None | k # _ \<Rightarrow> Some (rr_key_columns (result_of rd (tt_table tt) k)))
     \<and> tt_read_any tt = (fin \<noteq> [])"

definition flight_ok :: "(string \<Rightarrow> nat \<Rightarrow> ReadResult option result) \<Rightarrow> nat list \<Rightarrow> table_task \<Rightarrow> bool" where
  "flight_ok rd sc tt \<longleftrightarrow> (\<forall>(k, r) \<in> set (tt_completed tt). rd (tt_table tt) k = Inr r)
     \<and> set sc = set (tt_in_flight tt) \<union> fst ` set (tt_completed tt)
     \<and> set (tt_in_flight tt) \<inter> fst ` set (tt_completed tt) = {} \<and> distinct (tt_in_flight tt)"

definition queue_ok :: "nat list \<Rightarrow> nat list \<Rightarrow> nat list \<Rightarrow> nat list \<Rightarrow> table_task \<Rightarrow> steps \<Rightarrow> bool" where
  "queue_ok I R fin sc tt steps \<longleftrightarrow> wf_steps steps \<and> sorted_wrt (<) (I @ R) \<and> (\<forall>k \<in> set (I @ R). k \<le> u64_max)
     \<and> (\<forall>k \<in> set I. in_bound (tt_max_batch_id tt) k) \<and> (\<forall>k \<in> set R. \<not> in_bound (tt_max_batch_id tt) k)
     \<and> (\<exists>avail. table_ids (tt_table tt) steps = avail @ R \<and> I = fin @ sc @ avail
          \<and> (tt_can_reserve_more tt \<or> avail = []))"

definition task_core ::
  "(string \<Rightarrow> nat \<Rightarrow> ReadResult option result) \<Rightarrow> nat \<Rightarrow> nat list \<Rightarrow> nat list \<Rightarrow> nat list \<Rightarrow> nat list
     \<Rightarrow> table_task \<Rightarrow> steps \<Rightarrow> bool" where
  "task_core rd target I R fin sc tt steps \<longleftrightarrow> queue_ok I R fin sc tt steps \<and> took rd fin tt \<and> flight_ok rd sc tt
     \<and> tt_total_rows tt < target \<and> \<not> tt_table_finished tt \<and> tt_consumed_work_units tt = length fin + length sc
     \<and> fin @ sc \<noteq> [] \<and> tt_reserve_cursor tt = last (fin @ sc)"

definition task_inv ::
  "(string \<Rightarrow> nat \<Rightarrow> ReadResult option result) \<Rightarrow> nat \<Rightarrow> nat list \<Rightarrow> nat list \<Rightarrow> table_task \<Rightarrow> steps \<Rightarrow> bool" where
  "task_inv rd target I R tt steps \<longleftrightarrow> (\<exists>fin. task_core rd target I R fin (tt_scheduled tt) tt steps)
     \<and> (tt_scheduled tt \<noteq> [] \<longrightarrow> hd (tt_scheduled tt) \<notin> fst ` set (tt_completed tt))"

text \<open>
  What a finished read phase has done. Without the end of the table: a non-empty prefix of the
  queue was taken, the rest is in the plan again, and either the target is reached (and was not
  before the last batch) or nothing is left. At the end of the table: everything before the
  first missing batch was taken.
\<close>

definition task_post ::
  "(string \<Rightarrow> nat \<Rightarrow> ReadResult option result) \<Rightarrow> nat \<Rightarrow> string \<Rightarrow> nat list \<Rightarrow> nat list \<Rightarrow> steps
     \<Rightarrow> record_batch list \<Rightarrow> string list \<Rightarrow> bool \<Rightarrow> nat \<Rightarrow> nat \<Rightarrow> bool" where
  "task_post rd target t I R steps bs ks finished units n \<longleftrightarrow>
     (\<exists>fin rest. I = fin @ rest \<and> list_all (has_data rd t) fin \<and> bs = data_of rd t fin \<and> n = rows_of rd t fin
        \<and> ks = (case fin of [] \<Rightarrow> [] | k # _ \<Rightarrow> rr_key_columns (result_of rd t k))
        \<and> wf_steps steps \<and> rows_of rd t (butlast fin) < target
        \<and> (if finished
           then rest \<noteq> [] \<and> rd t (hd rest) = Inr None \<and> rows_of rd t fin < target
             \<and> (\<exists>avail. table_ids t steps = avail @ R \<and> set avail \<subseteq> set (tl rest))
           else fin \<noteq> [] \<and> table_ids t steps = rest @ R \<and> units = length fin
             \<and> (target \<le> rows_of rd t fin \<or> rest = [])))"

lemma data_of_simps [simp]:
  "data_of rd t [] = []" "data_of rd t (xs @ ys) = data_of rd t xs @ data_of rd t ys"
  "data_of rd t (k # ks) = rr_batches (result_of rd t k) @ data_of rd t ks"
  by (simp_all add: data_of_def)

lemma rows_of_simps [simp]:
  "rows_of rd t [] = 0" "rows_of rd t (xs @ ys) = rows_of rd t xs + rows_of rd t ys"
  "rows_of rd t (k # ks) = rr_num_rows (result_of rd t k) + rows_of rd t ks"
  by (simp_all add: rows_of_def)

lemma took_take_result:
  assumes "took rd fin tt" "rd (tt_table tt) b = Inr (Some r)"
  shows "took rd (fin @ [b]) (take_result r (tt\<lparr>tt_completed := c, tt_scheduled := sc, tt_removed_step := rm\<rparr>))"
  using assms by (cases fin) (auto simp: took_def take_result_def result_of_def has_data_def)

lemma flight_ok_next:
  assumes "flight_ok rd (b # bs) tt" "distinct (b # bs)" "map_of (tt_completed tt) b = Some res"
  shows "flight_ok rd bs (tt\<lparr>tt_completed := filter (\<lambda>(k, _). k \<noteq> b) (tt_completed tt), tt_scheduled := sc,
      tt_removed_step := rm\<rparr>)"
proof -
  have b: "b \<in> fst ` set (tt_completed tt)" using assms(3) by (metis domI dom_map_of_conv_image_fst)
  have f: "fst ` set (filter (\<lambda>(k, _). k \<noteq> b) (tt_completed tt)) = fst ` set (tt_completed tt) - {b}" by force
  have s: "insert b (set bs) = set (tt_in_flight tt) \<union> fst ` set (tt_completed tt)"
    "set (tt_in_flight tt) \<inter> fst ` set (tt_completed tt) = {}" "distinct (tt_in_flight tt)"
    using assms(1) by (simp_all add: flight_ok_def)
  have "set bs = set (tt_in_flight tt) \<union> (fst ` set (tt_completed tt) - {b})"
    using s(1,2) b assms(2) by auto
  then show ?thesis using assms(1) s(2,3) by (auto simp: flight_ok_def f)
qed

lemma restore_back:
  assumes "queue_ok I R fin sc tt (ws_steps (sh_work sh))" "tt_scheduled tt = sc"
    and r: "restore_unconsumed_reservations tt sh = (tt', sh')"
  shows "tt' = tt\<lparr>tt_consumed_work_units := tt_consumed_work_units tt - length sc\<rparr>"
    and "wf_steps (ws_steps (sh_work sh'))" and "fin @ table_ids (tt_table tt) (ws_steps (sh_work sh')) = I @ R"
    and "\<And>u. u \<noteq> tt_table tt \<Longrightarrow> table_ids u (ws_steps (sh_work sh')) = table_ids u (ws_steps (sh_work sh))"
    and "ws_finished_tables (sh_work sh') = ws_finished_tables (sh_work sh)"
proof -
  obtain avail where q: "table_ids (tt_table tt) (ws_steps (sh_work sh)) = avail @ R" "I = fin @ sc @ avail"
    "wf_steps (ws_steps (sh_work sh))" "sorted_wrt (<) (I @ R)" "\<forall>k \<in> set (I @ R). k \<le> u64_max"
    using assms(1) by (auto simp: queue_ok_def)
  have "sorted_wrt (<) (sc @ table_ids (tt_table tt) (ws_steps (sh_work sh)))"
    using q(4) unfolding q(1,2) by (simp add: sorted_wrt_append)
  moreover have "\<forall>k \<in> set sc. k \<le> u64_max" using q(5) unfolding q(2) by simp
  ultimately have all: "wf_steps (fold (restore_step (tt_table tt)) sc (ws_steps (sh_work sh)))"
     "table_ids (tt_table tt) (fold (restore_step (tt_table tt)) sc (ws_steps (sh_work sh)))
        = sc @ table_ids (tt_table tt) (ws_steps (sh_work sh))"
     "\<forall>u. u \<noteq> tt_table tt \<longrightarrow> table_ids u (fold (restore_step (tt_table tt)) sc (ws_steps (sh_work sh)))
        = table_ids u (ws_steps (sh_work sh))"
    using wq.restore_all[OF q(3)] by blast+
  have s: "ws_steps (sh_work sh') = fold (restore_step (tt_table tt)) sc (ws_steps (sh_work sh))"
    using r assms(2) by (auto simp: restore_unconsumed_reservations_def Let_def)
  show "tt' = tt\<lparr>tt_consumed_work_units := tt_consumed_work_units tt - length sc\<rparr>"
    "ws_finished_tables (sh_work sh') = ws_finished_tables (sh_work sh)"
    using r assms(2) by (auto simp: restore_unconsumed_reservations_def Let_def)
  show "wf_steps (ws_steps (sh_work sh'))"
    "fin @ table_ids (tt_table tt) (ws_steps (sh_work sh')) = I @ R"
    "\<And>u. u \<noteq> tt_table tt \<Longrightarrow> table_ids u (ws_steps (sh_work sh')) = table_ids u (ws_steps (sh_work sh))"
    using all q(1,2) by (simp_all add: s)
qed

text \<open>The part of the shared plan that a task of table \<open>t\<close> never changes.\<close>

definition frame :: "string \<Rightarrow> shared_state \<Rightarrow> shared_state \<Rightarrow> bool" where
  "frame t sh sh' \<longleftrightarrow> wf_steps (ws_steps (sh_work sh'))
     \<and> (\<forall>u. u \<noteq> t \<longrightarrow> table_ids u (ws_steps (sh_work sh')) = table_ids u (ws_steps (sh_work sh)))
     \<and> ws_finished_tables (sh_work sh') = ws_finished_tables (sh_work sh)"

lemma queue_ok_distinct: "queue_ok I R fin sc tt steps \<Longrightarrow> distinct sc"
  by (auto simp: queue_ok_def strict_sorted_iff)

lemma queue_ok_shift:
  assumes "queue_ok I R fin (b # bs) tt steps" "tt_table tt' = tt_table tt"
    "tt_max_batch_id tt' = tt_max_batch_id tt" "tt_can_reserve_more tt' = tt_can_reserve_more tt"
  shows "queue_ok I R (fin @ [b]) bs tt' steps"
  using assms by (auto simp: queue_ok_def)

lemma task_core_scheduled [simp]:
  "task_core rd target I R fin sc (tt\<lparr>tt_scheduled := x\<rparr>) steps = task_core rd target I R fin sc tt steps"
  by (cases fin) (simp_all add: task_core_def queue_ok_def took_def flight_ok_def)

lemma consume_target:
  assumes core: "queue_ok I R (fin @ [b]) bs tt (ws_steps (sh_work sh))" "took rd (fin @ [b]) tt"
      "tt_consumed_work_units tt = length (fin @ [b]) + length bs" "\<not> tt_table_finished tt" "tt_scheduled tt = bs"
    and prev: "rows_of rd (tt_table tt) fin < target" "target \<le> tt_total_rows tt"
    and r: "restore_unconsumed_reservations tt sh = (tt3, sh')"
  shows "frame (tt_table tt) sh sh' \<and> (\<exists>bs ks f u n. finish_read tt3 = ReadOk bs ks f u n
     \<and> task_post rd target (tt_table tt) I R (ws_steps (sh_work sh')) bs ks f u n)"
proof -
  note rst = restore_back[OF core(1,5) r]
  obtain avail where q: "I = (fin @ [b]) @ bs @ avail" using core(1) by (auto simp: queue_ok_def)
  have ids: "table_ids (tt_table tt) (ws_steps (sh_work sh')) = (bs @ avail) @ R"
    using rst(3) q by simp
  have "task_post rd target (tt_table tt) I R (ws_steps (sh_work sh')) (tt_all_batches tt)
      (case tt_key_columns tt of Some ks \<Rightarrow> ks | None \<Rightarrow> []) False (length (fin @ [b])) (tt_rows_read tt)"
    unfolding task_post_def
    using core(2) q ids rst(2) prev
    by (intro exI[of _ "fin @ [b]"] exI[of _ "bs @ avail"]) (auto simp: took_def split: list.splits)
  moreover have "finish_read tt3 = ReadOk (tt_all_batches tt) (case tt_key_columns tt of Some ks \<Rightarrow> ks | None \<Rightarrow> [])
      False (length (fin @ [b])) (tt_rows_read tt)"
    using rst(1) core(3,4) by (simp add: finish_read_def)
  ultimately show ?thesis using rst(2,4,5) by (auto simp: frame_def)
qed

lemma consume_spec:
  assumes "task_core rd target I R fin sc tt (ws_steps (sh_work sh))" "consume target sc tt sh = (st, sh')"
  shows "frame (tt_table tt) sh sh' \<and> (case st of
      Reading tt' \<Rightarrow> sh' = sh \<and> task_inv rd target I R tt' (ws_steps (sh_work sh))
        \<and> tt_table tt' = tt_table tt \<and> tt_in_flight tt' = tt_in_flight tt \<and> tt_max_batch_id tt' = tt_max_batch_id tt
        \<and> tt_can_reserve_more tt' = tt_can_reserve_more tt
    | ReadOk bs ks f u n \<Rightarrow> task_post rd target (tt_table tt) I R (ws_steps (sh_work sh')) bs ks f u n
    | ReadErr e \<Rightarrow> False)"
  using assms
proof (induction target sc tt sh arbitrary: fin rule: consume.induct)
  case (1 target tt sh)
  then have "wf_steps (ws_steps (sh_work sh))" by (simp add: task_core_def queue_ok_def)
  then show ?case using 1 by (auto simp: task_inv_def frame_def)
next
  case (2 target b bs tt sh)
  note core = 2(2)
  let ?t = "tt_table tt"
  have wf: "wf_steps (ws_steps (sh_work sh))" using core by (simp add: task_core_def queue_ok_def)
  have d: "distinct (b # bs)" using core queue_ok_distinct[of I R fin "b # bs"] unfolding task_core_def by blast
  show ?case
  proof (cases "map_of (tt_completed tt) b")
    case None
    then have "b \<notin> fst ` set (tt_completed tt)" by (simp add: map_of_eq_None_iff)
    then show ?thesis using 2(3) None core wf by (auto simp: task_inv_def frame_def)
  next
    case (Some res)
    let ?tt1 = "tt\<lparr>tt_completed := filter (\<lambda>(k, _). k \<noteq> b) (tt_completed tt), tt_scheduled := bs,
                        tt_removed_step := (tt_removed_step tt)(b := None)\<rparr>"
    have rb: "rd ?t b = Inr res"
      using core map_of_SomeD[OF Some] by (auto simp: task_core_def flight_ok_def)
    have fl: "flight_ok rd bs ?tt1" using flight_ok_next[OF _ d Some] core by (simp add: task_core_def)
    have q: "queue_ok I R (fin @ [b]) bs ?tt1 (ws_steps (sh_work sh))"
      by (rule queue_ok_shift[of I R fin b bs tt]) (use core in \<open>simp_all add: task_core_def\<close>)
    have units: "tt_consumed_work_units tt = length (fin @ [b]) + length bs" "\<not> tt_table_finished tt"
      and prev: "rows_of rd ?t fin < target" and tk: "took rd fin tt"
      using core by (simp_all add: task_core_def took_def)
    show ?thesis
    proof (cases res)
      case (Some r)
      let ?tt2 = "take_result r ?tt1"
      have tk2: "took rd (fin @ [b]) ?tt2" using took_take_result[OF tk] rb Some by simp
      have same: "tt_table ?tt2 = ?t" "tt_consumed_work_units ?tt2 = tt_consumed_work_units tt"
        "tt_table_finished ?tt2 = tt_table_finished tt" "tt_scheduled ?tt2 = bs" "tt_in_flight ?tt2 = tt_in_flight tt"
        "tt_max_batch_id ?tt2 = tt_max_batch_id tt" "tt_can_reserve_more ?tt2 = tt_can_reserve_more tt"
        "tt_reserve_cursor ?tt2 = tt_reserve_cursor tt" "tt_completed ?tt2 = tt_completed ?tt1"
        by (simp_all add: take_result_def)
      have q2: "queue_ok I R (fin @ [b]) bs ?tt2 (ws_steps (sh_work sh))"
        using q by (simp add: queue_ok_def take_result_def)
      show ?thesis
      proof (cases "target \<le> tt_total_rows ?tt2")
        case True
        obtain tt3 sh3 where r3: "restore_unconsumed_reservations ?tt2 sh = (tt3, sh3)" by (metis prod.collapse)
        have "st = finish_read tt3" "sh' = sh3"
          using 2(3) \<open>map_of (tt_completed tt) b = Some res\<close> Some True r3 by (simp_all add: Let_def)
        with consume_target[OF q2 tk2 _ _ same(4) _ True r3] units prev same show ?thesis by auto
      next
        case False
        have core2: "task_core rd target I R (fin @ [b]) bs ?tt2 (ws_steps (sh_work sh))"
          using core q2 tk2 fl False same by (simp add: task_core_def flight_ok_def)
        have "consume target bs ?tt2 sh = (st, sh')"
          using 2(3) \<open>map_of (tt_completed tt) b = Some res\<close> Some False by (simp add: Let_def)
        from 2(1)[OF \<open>map_of (tt_completed tt) b = Some res\<close> refl Some refl False core2 this]
        show ?thesis by (simp only: same)
      qed
    next
      case None
      obtain avail where av: "table_ids ?t (ws_steps (sh_work sh)) = avail @ R" "I = fin @ b # bs @ avail"
        using q by (auto simp: queue_ok_def)
      show ?thesis
      proof (cases "tt_read_any tt")
        case True
        then have st: "st = finish_read (?tt1\<lparr>tt_table_finished := True\<rparr>)" "sh' = sh"
          using 2(3) \<open>map_of (tt_completed tt) b = Some res\<close> None by (simp_all add: Let_def)
        have "rows_of rd ?t (butlast fin) \<le> rows_of rd ?t fin" by (cases fin rule: rev_cases) simp_all
        then have "task_post rd target ?t I R (ws_steps (sh_work sh)) (tt_all_batches tt)
            (case tt_key_columns tt of Some ks \<Rightarrow> ks | None \<Rightarrow> []) True (tt_consumed_work_units tt) (tt_rows_read tt)"
          unfolding task_post_def using tk av wf prev rb None
          by (intro exI[of _ fin] exI[of _ "b # bs @ avail"]) (auto simp: took_def split: list.splits)
        then show ?thesis using st wf by (simp add: finish_read_def frame_def)
      next
        case False
        then have fin: "fin = []" using tk by (simp add: took_def)
        obtain tt2 sh2 where r2: "restore_unconsumed_reservations ?tt1 sh = (tt2, sh2)" by (metis prod.collapse)
        have st: "st = ReadOk [] [] True (tt_consumed_work_units tt2) (tt_rows_read tt2)" "sh' = sh2"
          using 2(3) \<open>map_of (tt_completed tt) b = Some res\<close> None False r2 by (simp_all add: Let_def)
        note rst = restore_back[OF q _ r2]
        have "tt_rows_read tt2 = 0" using rst(1) tk fin by (simp add: took_def)
        moreover have "table_ids ?t (ws_steps (sh_work sh2)) = (bs @ avail) @ R" using rst(3) av fin by simp
        ultimately have "task_post rd target ?t I R (ws_steps (sh_work sh2)) [] [] True (tt_consumed_work_units tt2) (tt_rows_read tt2)"
          unfolding task_post_def using av rst(2) prev rb None fin
          by (intro exI[of _ "[]"] exI[of _ "b # bs @ avail"]) auto
        then show ?thesis using st rst(2,4,5) by (simp add: frame_def)
      qed
    qed
  qed
qed

subsection \<open>Every step keeps the invariant\<close>

definition task_ok ::
  "(string \<Rightarrow> nat \<Rightarrow> ReadResult option result) \<Rightarrow> nat \<Rightarrow> nat list \<Rightarrow> nat list \<Rightarrow> table_task \<Rightarrow> steps \<Rightarrow> bool" where
  "task_ok rd target I R tt steps \<longleftrightarrow> task_inv rd target I R tt steps
     \<and> (tt_in_flight tt = [] \<longrightarrow> \<not> tt_can_reserve_more tt)"

text \<open>How far a task is from its end: reads to reserve, reads in flight, a last reservation to try.\<close>

definition task_measure :: "table_task \<Rightarrow> steps \<Rightarrow> nat" where
  "task_measure tt steps =
     2 * length (filter (in_bound (tt_max_batch_id tt)) (table_ids (tt_table tt) steps)) + length (tt_in_flight tt)
     + (if tt_can_reserve_more tt then 1 else 0)"

lemma reserve_one_spec:
  assumes core: "task_core rd target I R fin (tt_scheduled tt) tt (ws_steps (sh_work sh))"
    and r: "reserve_one tt sh = (tt', sh')"
  shows "task_core rd target I R fin (tt_scheduled tt') tt' (ws_steps (sh_work sh')) \<and> frame (tt_table tt) sh sh'
     \<and> tt_table tt' = tt_table tt \<and> tt_max_batch_id tt' = tt_max_batch_id tt \<and> tt_completed tt' = tt_completed tt
     \<and> (tt_in_flight tt' = [] \<longrightarrow> \<not> tt_can_reserve_more tt')
     \<and> (\<exists>new. tt_scheduled tt' = tt_scheduled tt @ new \<and> set new \<inter> set (tt_scheduled tt) = {})
     \<and> (tt_can_reserve_more tt \<longrightarrow> task_measure tt' (ws_steps (sh_work sh')) < task_measure tt (ws_steps (sh_work sh)))"
proof -
  let ?t = "tt_table tt" and ?mx = "tt_max_batch_id tt" and ?w = "ws_steps (sh_work sh)"
  obtain avail where av: "table_ids ?t ?w = avail @ R" "I = fin @ tt_scheduled tt @ avail"
      "wf_steps ?w" "sorted_wrt (<) (I @ R)" "\<forall>k \<in> set I. in_bound ?mx k" "\<forall>k \<in> set R. \<not> in_bound ?mx k"
    using core by (auto simp: task_core_def queue_ok_def)
  have cur: "tt_reserve_cursor tt \<in> set (fin @ tt_scheduled tt)"
    using core last_in_set[of "fin @ tt_scheduled tt"] unfolding task_core_def by metis
  then have after: "\<forall>x \<in> set (table_ids ?t ?w). tt_reserve_cursor tt < x"
    using av(4) unfolding av(1,2) by (auto simp: sorted_wrt_append)
  obtain res w' where rs: "reserve_steps ?t (tt_reserve_cursor tt) ?mx ?w = (res, w')"
    by (cases "reserve_steps ?t (tt_reserve_cursor tt) ?mx ?w")
  have wf': "wf_steps w'" using wq.reserve_inv[OF av(3) rs] .
  have other: "\<And>u. u \<noteq> ?t \<Longrightarrow> table_ids u w' = table_ids u ?w" using wq.reserve_other[OF av(3) rs] .
  have filt: "filter (in_bound ?mx) (as @ R) = as" if "\<forall>k \<in> set as. in_bound ?mx k" for as
    using that av(6) by (simp add: filter_empty_conv)
  show ?thesis
  proof (cases res)
    case None
    have e: "tt' = tt\<lparr>tt_can_reserve_more := False\<rparr>" and w: "ws_steps (sh_work sh') = w'"
        "ws_finished_tables (sh_work sh') = ws_finished_tables (sh_work sh)"
      using r rs None by (auto simp: reserve_one_def reserve_next_batch_id_for_table_def)
    have w': "w' = ?w" using wq.reserve_none_same[OF av(3)] rs None by blast
    have "avail = []"
    proof (rule ccontr)
      assume "avail \<noteq> []"
      then have "hd avail \<in> set (table_ids ?t ?w)" "in_bound ?mx (hd avail)" using av(1,2,5) by auto
      then show False using wq.reserve_none[OF av(3), of ?t _ ?mx w'] rs None after by blast
    qed
    then have "task_core rd target I R fin (tt_scheduled tt') tt' (ws_steps (sh_work sh'))"
      using core av e w w' by (cases fin) (auto simp: task_core_def queue_ok_def took_def flight_ok_def)
    then show ?thesis using e w w' wf' by (auto simp: frame_def task_measure_def)
  next
    case (Some kg)
    obtain k g where kg: "res = Some (k, g)" using Some by (cases kg) simp
    have e: "tt' = tt\<lparr>tt_reserve_cursor := k, tt_consumed_work_units := tt_consumed_work_units tt + 1,
              tt_scheduled := tt_scheduled tt @ [k], tt_removed_step := (tt_removed_step tt)(k \<mapsto> g),
              tt_in_flight := tt_in_flight tt @ [k]\<rparr>" and w: "ws_steps (sh_work sh') = w'"
        "ws_finished_tables (sh_work sh') = ws_finished_tables (sh_work sh)"
      using r rs kg by (auto simp: reserve_one_def reserve_next_batch_id_for_table_def)
    have k: "in_bound ?mx k" "avail @ R = k # table_ids ?t w'"
      using wq.reserve_some[OF av(3) rs[unfolded kg] after] av(1) by auto
    then obtain avail' where av': "avail = k # avail'" "table_ids ?t w' = avail' @ R"
      using av(6) by (cases avail) auto
    have "k \<notin> set (fin @ tt_scheduled tt)" using av(4) unfolding av(2) av'(1) by (auto simp: sorted_wrt_append)
    then have new: "k \<notin> set (tt_scheduled tt)" "k \<notin> set (tt_in_flight tt)" "k \<notin> fst ` set (tt_completed tt)"
      using core by (auto simp: task_core_def flight_ok_def)
    have q: "queue_ok I R fin (tt_scheduled tt') tt' w'"
      using core wf' av(2) av' e by (auto simp: task_core_def queue_ok_def)
    have "task_core rd target I R fin (tt_scheduled tt') tt' w'"
      using core q new e by (cases fin) (auto simp: task_core_def took_def flight_ok_def)
    moreover have "task_measure tt' w' < task_measure tt ?w"
      using e av(1) av' filt[of avail] filt[of avail'] av(5) unfolding av(2) by (simp add: task_measure_def)
    ultimately show ?thesis using e w wf' other new(1) by (auto simp: frame_def)
  qed
qed

lemma join_batch_spec:
  assumes core: "task_core rd target I R fin (tt_scheduled tt) tt (ws_steps (sh_work sh))" and i: "i < length (tt_in_flight tt)"
    and j: "join_batch rd target i tt sh = (st, sh')"
  shows "frame (tt_table tt) sh sh' \<and> (case st of
      Reading tt' \<Rightarrow> sh' = sh \<and> task_inv rd target I R tt' (ws_steps (sh_work sh))
        \<and> tt_table tt' = tt_table tt \<and> Suc (length (tt_in_flight tt')) = length (tt_in_flight tt)
        \<and> tt_max_batch_id tt' = tt_max_batch_id tt \<and> tt_can_reserve_more tt' = tt_can_reserve_more tt
    | ReadOk bs ks f u n \<Rightarrow> task_post rd target (tt_table tt) I R (ws_steps (sh_work sh')) bs ks f u n
    | ReadErr e \<Rightarrow> \<exists>k \<in> set I. rd (tt_table tt) k = Inl e)"
proof -
  let ?b = "tt_in_flight tt ! i"
  define fl where "fl = take i (tt_in_flight tt) @ drop (Suc i) (tt_in_flight tt)"
  have d: "distinct (tt_in_flight tt)" and sc: "set (tt_scheduled tt) = set (tt_in_flight tt) \<union> fst ` set (tt_completed tt)"
      "set (tt_in_flight tt) \<inter> fst ` set (tt_completed tt) = {}"
    using core by (simp_all add: task_core_def flight_ok_def)
  have wf: "wf_steps (ws_steps (sh_work sh))" and sub: "set (tt_scheduled tt) \<subseteq> set I"
    using core unfolding task_core_def queue_ok_def by auto
  have fl: "distinct fl" "set fl = set (tt_in_flight tt) - {?b}" using set_remove_nth[OF d i] by (simp_all add: fl_def)
  have b: "?b \<in> set (tt_in_flight tt)" using i by simp
  show ?thesis
  proof (cases "rd (tt_table tt) ?b")
    case (Inl e)
    then have "st = ReadErr e" "sh' = sh" using j by (simp_all add: join_batch_def Let_def)
    moreover have "?b \<in> set I" using b sc(1) sub by blast
    ultimately show ?thesis using Inl wf by (auto simp: frame_def)
  next
    case (Inr res)
    let ?tt = "tt\<lparr>tt_in_flight := fl, tt_completed := (?b, res) # filter (\<lambda>(k, _). k \<noteq> ?b) (tt_completed tt)\<rparr>"
    have "fst ` set (filter (\<lambda>(k, _). k \<noteq> ?b) (tt_completed tt)) = fst ` set (tt_completed tt) - {?b}" by force
    then have fl_ok: "flight_ok rd (tt_scheduled tt) ?tt"
      using core fl b sc Inr by (auto simp: task_core_def flight_ok_def)
    have core2: "task_core rd target I R fin (tt_scheduled tt) ?tt (ws_steps (sh_work sh))"
      using core fl_ok by (cases fin) (simp_all add: task_core_def queue_ok_def took_def)
    have "consume target (tt_scheduled tt) ?tt sh = (st, sh')"
      using j Inr by (simp add: join_batch_def Let_def fl_def)
    from consume_spec[OF core2 this] show ?thesis using i
      by (auto simp: fl_def split: task_status.splits)
  qed
qed

lemma finish_post:
  assumes core: "task_core rd target I R fin [] tt steps" and r: "\<not> tt_can_reserve_more tt"
  shows "\<exists>bs ks f u n. finish_read tt = ReadOk bs ks f u n \<and> task_post rd target (tt_table tt) I R steps bs ks f u n"
proof -
  have q: "table_ids (tt_table tt) steps = R" "I = fin" "wf_steps steps"
    using core r by (auto simp: task_core_def queue_ok_def)
  have "rows_of rd (tt_table tt) (butlast fin) \<le> rows_of rd (tt_table tt) fin" by (cases fin rule: rev_cases) simp_all
  then have "task_post rd target (tt_table tt) I R steps (tt_all_batches tt)
      (case tt_key_columns tt of Some ks \<Rightarrow> ks | None \<Rightarrow> []) (tt_table_finished tt) (tt_consumed_work_units tt) (tt_rows_read tt)"
    unfolding task_post_def using core q
    by (intro exI[of _ fin] exI[of _ "[]"]) (auto simp: task_core_def took_def split: list.splits)
  then show ?thesis by (simp add: finish_read_def)
qed

lemma task_step_spec:
  assumes ok: "task_ok rd target I R tt (ws_steps (sh_work sh))" and s: "task_step rd target c tt sh = (st, sh')"
  shows "frame (tt_table tt) sh sh' \<and> (case st of
      Reading tt' \<Rightarrow> task_ok rd target I R tt' (ws_steps (sh_work sh')) \<and> tt_table tt' = tt_table tt
        \<and> tt_max_batch_id tt' = tt_max_batch_id tt
        \<and> task_measure tt' (ws_steps (sh_work sh')) < task_measure tt (ws_steps (sh_work sh))
    | ReadOk bs ks f u n \<Rightarrow> task_post rd target (tt_table tt) I R (ws_steps (sh_work sh')) bs ks f u n
    | ReadErr e \<Rightarrow> \<exists>k \<in> set I. rd (tt_table tt) k = Inl e)"
proof -
  obtain fin where core: "task_core rd target I R fin (tt_scheduled tt) tt (ws_steps (sh_work sh))"
    and hd: "tt_scheduled tt \<noteq> [] \<longrightarrow> hd (tt_scheduled tt) \<notin> fst ` set (tt_completed tt)"
    and idle: "tt_in_flight tt = [] \<longrightarrow> \<not> tt_can_reserve_more tt"
    using ok by (auto simp: task_ok_def task_inv_def)
  have wf: "wf_steps (ws_steps (sh_work sh))" using core by (simp add: task_core_def queue_ok_def)
  have sc: "set (tt_scheduled tt) = set (tt_in_flight tt) \<union> fst ` set (tt_completed tt)"
    and run: "tt_total_rows tt < target" "\<not> tt_table_finished tt"
    using core by (simp_all add: task_core_def flight_ok_def)
  show ?thesis
  proof (cases "tt_in_flight tt = []")
    case True
    then have "tt_scheduled tt = []" using hd sc hd_in_set[of "tt_scheduled tt"] by auto
    then have "tt_completed tt = []" using sc by simp
    then have "st = finish_read tt" "sh' = sh" using s True by (simp_all add: task_step_def)
    moreover obtain bs ks f u n where "finish_read tt = ReadOk bs ks f u n"
        "task_post rd target (tt_table tt) I R (ws_steps (sh_work sh)) bs ks f u n"
      using finish_post[of rd target I R fin tt "ws_steps (sh_work sh)"] core \<open>tt_scheduled tt = []\<close> idle True by auto
    ultimately show ?thesis using wf by (simp add: frame_def)
  next
    case False
    show ?thesis
    proof (cases "may_reserve target tt")
      case True
      obtain tt' sh1 where r: "reserve_one tt sh = (tt', sh1)" by (cases "reserve_one tt sh")
      have e: "st = Reading tt'" "sh' = sh1" using s False True r by (simp_all add: task_step_def)
      note rs = reserve_one_spec[OF core r]
      have "tt_scheduled tt \<noteq> []" using False sc by auto
      then have "hd (tt_scheduled tt') = hd (tt_scheduled tt)" using rs by auto
      then have "task_ok rd target I R tt' (ws_steps (sh_work sh1))"
        using rs hd \<open>tt_scheduled tt \<noteq> []\<close> by (auto simp: task_ok_def task_inv_def)
      then show ?thesis using rs e True by (auto simp: may_reserve_def)
    next
      case wait: False
      let ?i = "c mod length (tt_in_flight tt)"
      have i: "?i < length (tt_in_flight tt)" using False by simp
      have j: "join_batch rd target ?i tt sh = (st, sh')" using s False wait by (simp add: task_step_def)
      have two: "\<not> tt_can_reserve_more tt \<or> 2 \<le> length (tt_in_flight tt)"
        using wait run by (auto simp: may_reserve_def MAX_IN_FLIGHT_SOURCE_BATCH_READS_def)
      from join_batch_spec[OF core i j] two show ?thesis
        by (auto simp: task_ok_def task_measure_def split: task_status.splits)
    qed
  qed
qed

lemma split_bound:
  "sorted_wrt (<) xs \<Longrightarrow> xs = filter (in_bound mx) xs @ filter (\<lambda>k. \<not> in_bound mx k) xs"
proof (induction xs)
  case Nil
  show ?case by simp
next
  case (Cons x xs)
  show ?case
  proof (cases "in_bound mx x")
    case True
    then show ?thesis using Cons by simp
  next
    case False
    then have "\<forall>k \<in> set xs. \<not> in_bound mx k"
      using Cons.prems by (auto simp: in_bound_def split: option.splits)
    then show ?thesis using False by (simp add: filter_empty_conv)
  qed
qed

text \<open>The start of a task: the outer loop has just removed its step from the plan.\<close>

lemma start_task_ok:
  assumes wf: "wf_steps steps" and t: "0 < target" and b: "in_bound mx b" "b \<le> u64_max"
    and ids: "\<forall>k \<in> set (table_ids t steps). b < k"
  shows "task_ok rd target (b # filter (in_bound mx) (table_ids t steps))
     (filter (\<lambda>k. \<not> in_bound mx k) (table_ids t steps)) (start_task t b mx) steps"
proof -
  let ?ids = "table_ids t steps"
  note split = split_bound[OF table_ids_sorted[OF wf, of t], of mx]
  have "queue_ok (b # filter (in_bound mx) ?ids) (filter (\<lambda>k. \<not> in_bound mx k) ?ids) [] [b] (start_task t b mx) steps"
    unfolding queue_ok_def append_Cons split[symmetric]
    using wf b ids table_ids_sorted[OF wf, of t] table_ids_le[OF wf, of _ t] split
    by (auto simp: start_task_def)
  then show ?thesis using t
    by (auto simp: task_ok_def task_inv_def task_core_def took_def flight_ok_def start_task_def)
qed

subsection \<open>Running a task to its end\<close>

text \<open>
  A task alone, with the other tables' tasks allowed to change the plan between its steps:
  \<open>env\<close> is any change that respects the frame of the task's table.
\<close>

inductive task_run ::
  "(string \<Rightarrow> nat \<Rightarrow> ReadResult option result) \<Rightarrow> nat \<Rightarrow> task_status \<Rightarrow> shared_state \<Rightarrow> task_status \<Rightarrow> shared_state \<Rightarrow> bool"
  for rd target where
  run_done: "task_run rd target st sh st sh"
| run_step: "task_step rd target c tt sh = (st, sh') \<Longrightarrow> task_run rd target st sh' st2 sh2
     \<Longrightarrow> task_run rd target (Reading tt) sh st2 sh2"
| run_env: "wf_steps (ws_steps (sh_work sh'))
     \<Longrightarrow> table_ids (tt_table tt) (ws_steps (sh_work sh')) = table_ids (tt_table tt) (ws_steps (sh_work sh))
     \<Longrightarrow> task_run rd target (Reading tt) sh' st2 sh2 \<Longrightarrow> task_run rd target (Reading tt) sh st2 sh2"

lemma task_ok_env:
  assumes "task_ok rd target I R tt steps" "wf_steps steps'"
    "table_ids (tt_table tt) steps' = table_ids (tt_table tt) steps"
  shows "task_ok rd target I R tt steps'" and "task_measure tt steps' = task_measure tt steps"
  using assms by (auto simp: task_ok_def task_inv_def task_core_def queue_ok_def task_measure_def)

definition status_spec ::
  "(string \<Rightarrow> nat \<Rightarrow> ReadResult option result) \<Rightarrow> nat \<Rightarrow> string \<Rightarrow> nat list \<Rightarrow> nat list \<Rightarrow> task_status \<Rightarrow> steps \<Rightarrow> bool" where
  "status_spec rd target t I R st steps = (case st of
      Reading tt \<Rightarrow> task_ok rd target I R tt steps \<and> tt_table tt = t
    | ReadOk bs ks f u n \<Rightarrow> task_post rd target t I R steps bs ks f u n
    | ReadErr e \<Rightarrow> \<exists>k \<in> set I. rd t k = Inl e)"

lemma task_run_spec:
  assumes "task_run rd target st sh st' sh'" "status_spec rd target t I R st (ws_steps (sh_work sh))"
  shows "status_spec rd target t I R st' (ws_steps (sh_work sh'))"
  using assms
proof (induction rule: task_run.induct)
  case (run_done st sh)
  then show ?case .
next
  case (run_step c tt sh st sh' st2 sh2)
  then show ?case using task_step_spec[of rd target I R tt sh c st sh']
    by (auto simp: status_spec_def split: task_status.splits)
next
  case (run_env sh' tt sh st2 sh2)
  then show ?case using task_ok_env(1)[of rd target I R tt "ws_steps (sh_work sh)" "ws_steps (sh_work sh')"]
    by (auto simp: status_spec_def)
qed

text \<open>The sequential reference: take batches in order until the target, a missing batch, or the end.\<close>

fun read_in_order ::
  "(nat \<Rightarrow> ReadResult option) \<Rightarrow> nat \<Rightarrow> nat \<Rightarrow> nat list \<Rightarrow> nat list \<times> nat list \<times> bool" where
  "read_in_order f target n [] = ([], [], False)"
| "read_in_order f target n (i # is) =
     (case f i of
        None \<Rightarrow> ([], i # is, True)
      | Some r \<Rightarrow>
          if n + rr_num_rows r \<ge> target then ([i], is, False)
          else (case read_in_order f target (n + rr_num_rows r) is of (taken, rest, fin) \<Rightarrow> (i # taken, rest, fin)))"

lemma read_in_order_unique:
  assumes "list_all (\<lambda>k. f k \<noteq> None) fin"
    "n + sum_list (map (\<lambda>k. rr_num_rows (the (f k))) (butlast fin)) < target"
    "if finished then rest \<noteq> [] \<and> f (hd rest) = None \<and> n + sum_list (map (\<lambda>k. rr_num_rows (the (f k))) fin) < target
     else fin \<noteq> [] \<and> (target \<le> n + sum_list (map (\<lambda>k. rr_num_rows (the (f k))) fin) \<or> rest = [])"
  shows "read_in_order f target n (fin @ rest) = (fin, rest, finished)"
  using assms
proof (induction fin arbitrary: n)
  case Nil
  then show ?case by (cases rest) (auto split: if_splits)
next
  case (Cons k fin)
  obtain r where r: "f k = Some r" using Cons.prems(1) by auto
  show ?case
  proof (cases "n + rr_num_rows r \<ge> target")
    case True
    then have "fin = []" using Cons.prems(2) r by (cases fin) auto
    then show ?thesis using True r Cons.prems(3) by (auto split: if_splits)
  next
    case False
    show ?thesis
    proof (cases "fin = [] \<and> \<not> finished")
      case True
      then show ?thesis using False r Cons.prems(3) by auto
    next
      case more: False
      have "read_in_order f target (n + rr_num_rows r) (fin @ rest) = (fin, rest, finished)"
        by (rule Cons.IH) (use Cons.prems r False more in \<open>auto simp: add.assoc split: if_splits\<close>)
      then show ?thesis using False r by simp
    qed
  qed
qed

text \<open>
  C9. A table task is schedule independent. Started on a plan whose remaining ids for its
  table all follow the start batch, and with every read succeeding, however its reads
  complete and however the tasks of other tables interleave with it, when it returns it has
  read what a sequential reader takes from its queue: the same batches, key columns and row
  count, the same verdict on whether the table is finished, and, unless it is, the batches not
  taken are all back in the plan.
\<close>

theorem task_reads_in_order:
  assumes wf: "wf_steps (ws_steps (sh_work sh))" and target: "0 < target" and b: "in_bound mx b" "b \<le> u64_max"
    and ids: "\<forall>k \<in> set (table_ids t (ws_steps (sh_work sh))). b < k"
    and run: "task_run rd target (Reading (start_task t b mx)) sh (ReadOk batches keys finished units n) sh'"
    and rd: "\<And>k. rd t k = Inr (f k)"
  shows "\<exists>taken rest. read_in_order f target 0 (b # filter (in_bound mx) (table_ids t (ws_steps (sh_work sh)))) = (taken, rest, finished)
     \<and> batches = concat (map (\<lambda>k. rr_batches (the (f k))) taken) \<and> n = sum_list (map (\<lambda>k. rr_num_rows (the (f k))) taken)
     \<and> keys = (case taken of [] \<Rightarrow> [] | k # _ \<Rightarrow> rr_key_columns (the (f k)))
     \<and> (\<not> finished \<longrightarrow> taken \<noteq> [] \<and> units = length taken
          \<and> table_ids t (ws_steps (sh_work sh')) = rest @ filter (\<lambda>k. \<not> in_bound mx k) (table_ids t (ws_steps (sh_work sh))))"
proof -
  let ?I = "b # filter (in_bound mx) (table_ids t (ws_steps (sh_work sh)))"
  let ?R = "filter (\<lambda>k. \<not> in_bound mx k) (table_ids t (ws_steps (sh_work sh)))"
  have "status_spec rd target t ?I ?R (Reading (start_task t b mx)) (ws_steps (sh_work sh))"
    using start_task_ok[OF wf target b ids] by (simp add: status_spec_def start_task_def)
  from task_run_spec[OF run this]
  obtain fin rest where post: "?I = fin @ rest" "list_all (has_data rd t) fin" "batches = data_of rd t fin"
      "n = rows_of rd t fin" "keys = (case fin of [] \<Rightarrow> [] | k # _ \<Rightarrow> rr_key_columns (result_of rd t k))"
      "rows_of rd t (butlast fin) < target"
      "if finished then rest \<noteq> [] \<and> rd t (hd rest) = Inr None \<and> rows_of rd t fin < target
        \<and> (\<exists>avail. table_ids t (ws_steps (sh_work sh')) = avail @ ?R \<and> set avail \<subseteq> set (tl rest))
       else fin \<noteq> [] \<and> table_ids t (ws_steps (sh_work sh')) = rest @ ?R \<and> units = length fin
             \<and> (target \<le> rows_of rd t fin \<or> rest = [])"
    by (auto simp: status_spec_def task_post_def)
  have res: "result_of rd t = (\<lambda>k. the (f k))" by (simp add: result_of_def rd fun_eq_iff)
  have "read_in_order f target 0 (fin @ rest) = (fin, rest, finished)"
    by (rule read_in_order_unique)
      (use post(2,6,7) in \<open>auto simp: rows_of_def res has_data_def rd list_all_iff split: if_splits\<close>)
  then have "read_in_order f target 0 ?I = (fin, rest, finished)" using post(1) by simp
  moreover have "batches = concat (map (\<lambda>k. rr_batches (the (f k))) fin)" "n = sum_list (map (\<lambda>k. rr_num_rows (the (f k))) fin)"
    "keys = (case fin of [] \<Rightarrow> [] | k # _ \<Rightarrow> rr_key_columns (the (f k)))"
    using post(3,4,5) by (simp_all add: data_of_def rows_of_def res split: list.splits)
  ultimately show ?thesis using post(7) by (auto split: if_splits)
qed

text \<open>A task driven alone for a number of steps, with the completion choices given.\<close>

fun run_task ::
  "(string \<Rightarrow> nat \<Rightarrow> ReadResult option result) \<Rightarrow> nat \<Rightarrow> nat \<Rightarrow> (nat \<Rightarrow> nat) \<Rightarrow> task_status \<Rightarrow> shared_state
     \<Rightarrow> task_status \<times> shared_state" where
  "run_task rd target 0 choice st sh = (st, sh)"
| "run_task rd target (Suc fuel) choice st sh =
     (case st of
        Reading tt \<Rightarrow> (case task_step rd target (choice fuel) tt sh of (st', sh') \<Rightarrow> run_task rd target fuel choice st' sh')
      | _ \<Rightarrow> (st, sh))"

lemma run_task_run: "run_task rd target fuel choice st sh = (st', sh') \<Longrightarrow> task_run rd target st sh st' sh'"
  by (induction rd target fuel choice st sh rule: run_task.induct)
    (auto split: task_status.splits prod.splits intro: task_run.intros)

lemma run_task_returns:
  assumes "task_ok rd target I R tt (ws_steps (sh_work sh))" "task_measure tt (ws_steps (sh_work sh)) < fuel"
  shows "\<forall>tt'. fst (run_task rd target fuel choice (Reading tt) sh) \<noteq> Reading tt'"
  using assms
proof (induction fuel arbitrary: tt sh)
  case 0
  then show ?case by simp
next
  case (Suc fuel)
  obtain st sh' where s: "task_step rd target (choice fuel) tt sh = (st, sh')" by (metis prod.collapse)
  show ?case
  proof (cases st)
    case (Reading tt')
    then show ?thesis using task_step_spec[OF Suc.prems(1) s] Suc.prems(2) Suc.IH[of tt' sh'] s by simp
  qed (use s in \<open>cases fuel; simp\<close>)+
qed

lemma task_returns_ok:
  assumes wf: "wf_steps (ws_steps (sh_work sh))" and target: "0 < target" and b: "in_bound mx b" "b \<le> u64_max"
    and ids: "\<forall>k \<in> set (table_ids t (ws_steps (sh_work sh))). b < k"
    and rd: "\<And>k. \<exists>r. rd t k = Inr r"
  shows "\<exists>batches keys finished units n sh'.
     run_task rd target (2 * length (table_ids t (ws_steps (sh_work sh))) + 3) choice (Reading (start_task t b mx)) sh
       = (ReadOk batches keys finished units n, sh')"
proof -
  let ?w = "ws_steps (sh_work sh)" and ?fuel = "2 * length (table_ids t (ws_steps (sh_work sh))) + 3"
  let ?I = "b # filter (in_bound mx) (table_ids t ?w)" and ?R = "filter (\<lambda>k. \<not> in_bound mx k) (table_ids t ?w)"
  have ok: "task_ok rd target ?I ?R (start_task t b mx) ?w" using start_task_ok[OF wf target b ids] .
  have "task_measure (start_task t b mx) ?w < ?fuel"
    by (simp add: task_measure_def start_task_def less_Suc_eq_le)
  from run_task_returns[OF ok this] obtain st sh'
    where st: "run_task rd target ?fuel choice (Reading (start_task t b mx)) sh = (st, sh')" "\<forall>tt. st \<noteq> Reading tt"
    by (metis prod.collapse)
  have "status_spec rd target t ?I ?R (Reading (start_task t b mx)) ?w"
    using ok by (simp add: status_spec_def start_task_def)
  note spec = task_run_spec[OF run_task_run[OF st(1)] this]
  have "st \<noteq> ReadErr e" for e
  proof
    assume "st = ReadErr e"
    then obtain k where "rd t k = Inl e" using spec by (auto simp: status_spec_def)
    then show False using rd[of k] by simp
  qed
  then show ?thesis using st by (cases st) auto
qed

text \<open>
  C10. A table task always returns. With every read succeeding, the task alone needs at most
  two steps for each batch id of its table in the plan and three more, whichever read
  completes first at each point.
\<close>

theorem task_returns:
  assumes wf: "wf_steps (ws_steps (sh_work sh))" and target: "0 < target" and b: "in_bound mx b" "b \<le> u64_max"
    and ids: "\<forall>k \<in> set (table_ids t (ws_steps (sh_work sh))). b < k"
    and rd: "\<And>k. \<exists>r. rd t k = Inr r"
  shows "\<exists>batches keys finished units n sh'.
     run_task rd target (2 * length (table_ids t (ws_steps (sh_work sh))) + 3) choice (Reading (start_task t b mx)) sh
       = (ReadOk batches keys finished units n, sh')"
  by (rule task_returns_ok[where rd = rd and t = t, OF assms])

text \<open>A plan and a storage for the witnesses: the table ends after batch 3.\<close>

definition sample_shared :: shared_state where
  "sample_shared = \<lparr>sh_work = \<lparr>ws_steps = [(2, [''a'', ''b'']), (3, [''a'']), (4, [''b'', ''a''])], ws_finished_tables = {}\<rparr>,
     sh_logical_steps = 0\<rparr>"

definition sample_result :: ReadResult where
  "sample_result = \<lparr>rr_batches = [sample_batch], rr_rows_read = 4, rr_bytes_read = 1, rr_key_columns = [''k'']\<rparr>"

definition sample_reads :: "nat \<Rightarrow> ReadResult option" where
  "sample_reads k = (if k \<le> 3 then Some sample_result else None)"

lemma sample_shared_facts:
  "wf_steps (ws_steps (sh_work sample_shared))" "\<forall>k \<in> set (table_ids ''a'' (ws_steps (sh_work sample_shared))). 1 < k"
  "table_ids ''a'' (ws_steps (sh_work sample_shared)) = [2, 3, 4]"
  by (simp_all add: sample_shared_def)

theorem task_returns_witness:
  "\<exists>batches keys finished units n sh'.
     run_task (\<lambda>t k. Inr (sample_reads k)) 100 9 (\<lambda>_. 1) (Reading (start_task ''a'' 1 (Some 4))) sample_shared
       = (ReadOk batches keys finished units n, sh')"
proof -
  have "(1 :: nat) \<le> u64_max" "in_bound (Some 4) 1" by (simp_all add: in_bound_def)
  from task_returns[OF sample_shared_facts(1) _ this(2,1) sample_shared_facts(2),
      where target = 100 and choice = "\<lambda>_. 1" and rd = "\<lambda>t k. Inr (sample_reads k)"]
  show ?thesis by (simp add: sample_shared_facts(3))
qed

theorem task_reads_in_order_witness:
  "\<exists>sh'. task_run (\<lambda>t k. Inr (sample_reads k)) 6 (Reading (start_task ''a'' 1 (Some 3))) sample_shared
         (ReadOk [sample_batch, sample_batch] [''k''] False 2 8) sh'
     \<and> table_ids ''a'' (ws_steps (sh_work sh')) = [3, 4]"
proof -
  have rows: "rr_num_rows sample_result = 4" by (simp add: rr_num_rows_def sample_result_def sample_batch_def)
  let ?rd = "\<lambda>(t :: string) k. Inr (sample_reads k) :: ReadResult option result"
  have b: "(1 :: nat) \<le> u64_max" "in_bound (Some 3) 1" by (simp_all add: in_bound_def)
  have f: "2 * length (table_ids ''a'' (ws_steps (sh_work sample_shared))) + 3 = 9" by (simp add: sample_shared_facts(3))
  obtain batches keys finished units n sh' where
    run: "run_task ?rd 6 9 (\<lambda>_. 1) (Reading (start_task ''a'' 1 (Some 3))) sample_shared
       = (ReadOk batches keys finished units n, sh')"
    using task_returns_ok[OF sample_shared_facts(1) _ b(2,1) sample_shared_facts(2), of 6 ?rd "\<lambda>_. 1"]
    unfolding f by auto
  note r = task_reads_in_order[OF sample_shared_facts(1) _ b(2,1) sample_shared_facts(2) run_task_run[OF run],
      of sample_reads]
  have "filter (in_bound (Some 3)) [2, 3, 4] = [2, 3 :: nat]" "filter (\<lambda>k. \<not> in_bound (Some 3) k) [2, 3, 4] = [4 :: nat]"
    by (simp_all add: in_bound_def)
  with r rows have "\<not> finished \<and> batches = [sample_batch, sample_batch] \<and> n = 8 \<and> keys = [''k''] \<and> units = 2
      \<and> table_ids ''a'' (ws_steps (sh_work sh')) = [3, 4]"
    by (simp add: sample_shared_facts(3) sample_reads_def) (simp add: sample_result_def)
  then show ?thesis using run_task_run[OF run] by auto
qed

end
