(* ===== verification/EtlRun.thy ===== *)
theory EtlRun
  imports EtlTask
begin

text \<open>
  The pipeline's background task, \<^verbatim>\<open>run_pipeline\<close> of \<^verbatim>\<open>crates/etl/src/lib.rs\<close>, as a step relation:
  the outer loop over the plan's steps, the concurrent table tasks of one step, cancellation,
  failures and the pause at a checkpoint boundary.
\<close>

subsection \<open>States\<close>

datatype StopReason = Completed | Cancelled | Error string

datatype PipelineState = NotStarted | Initialized | Running | Paused | Stopped StopReason

text \<open>
  A table task of the current step: reading, about to write what it read, returned and not yet
  joined, or failed.
\<close>

datatype task_phase =
    TReading table_task
  | TWriting "record_batch list" "string list" bool nat nat
  | TReturned bool nat nat
  | TFailed string

datatype run_phase =
    AtTop
  | InStep nat "(string \<times> task_phase) list" nat nat
  | Ended PipelineState

text \<open>
  \<open>rs_ingest\<close> is what the writes change: the sink and the counters. The ghost component
  \<open>rs_delivered\<close> records, per table, the source batches whose writing half has completed.
\<close>

record 's run_state =
  rs_shared :: shared_state
  rs_phase :: run_phase
  rs_outer_steps :: nat
  rs_batches_processed :: nat
  rs_rows_processed :: nat
  rs_tables_finished :: nat
  rs_cancelled :: bool
  rs_ingest :: "'s ingest_state"
  rs_delivered :: "string \<Rightarrow> record_batch list"

text \<open>
  The arguments of a run: the storage, the sink and its \<^verbatim>\<open>flush\<close>, the maps from tables to output
  schemas and partition columns, and the configuration.
\<close>

record 's run_params =
  rp_read :: "string \<Rightarrow> nat \<Rightarrow> ReadResult option result"
  rp_target :: nat
  rp_step_limit :: "nat option"
  rp_max_batch_id :: "nat option"
  rp_kernels :: kernels
  rp_sink :: "'s sink"
  rp_flush :: "'s \<Rightarrow> string option \<times> 's"
  rp_mutations :: MutationConfig
  rp_output_schema :: "string \<Rightarrow> schema"
  rp_partition_columns :: "string \<Rightarrow> string list"
  rp_chunk_rows :: nat

text \<open>The checkpoint boundary: the highest batch id among the first \<open>limit\<close> steps of the plan.\<close>

definition checkpoint_max_batch_id :: "nat option \<Rightarrow> steps \<Rightarrow> nat option" where
  "checkpoint_max_batch_id step_limit steps =
     (case step_limit of
        None \<Rightarrow> None
      | Some limit \<Rightarrow> if limit - 1 < length steps then Some (fst (steps ! (limit - 1))) else None)"

definition start_run :: "shared_state \<Rightarrow> 's ingest_state \<Rightarrow> bool \<Rightarrow> 's run_state" where
  "start_run sh ing cancelled = \<lparr>rs_shared = sh\<lparr>sh_logical_steps := 0\<rparr>, rs_phase = AtTop, rs_outer_steps = 0,
     rs_batches_processed = 0, rs_rows_processed = 0, rs_tables_finished = 0, rs_cancelled = cancelled,
     rs_ingest = ing, rs_delivered = (\<lambda>_. [])\<rparr>"

subsection \<open>The top of the outer loop\<close>

definition pop_step :: "nat option \<Rightarrow> PipelineWorkState \<Rightarrow> (nat \<times> string list \<times> nat) option \<times> PipelineWorkState" where
  "pop_step mx ws =
     (case ws_steps ws of
        [] \<Rightarrow> (None, ws)
      | (batch_id, tables) # rest \<Rightarrow>
          if \<not> in_bound mx batch_id then (None, ws)
          else let active = filter (\<lambda>t. t \<notin> ws_finished_tables ws) tables
               in (Some (batch_id, active, length tables - length active), ws\<lparr>ws_steps := rest\<rparr>))"

definition flushed :: "string \<Rightarrow> string option \<Rightarrow> PipelineState \<Rightarrow> PipelineState" where
  "flushed msg flush ok = (case flush of Some e \<Rightarrow> Stopped (Error (msg @ e)) | None \<Rightarrow> ok)"

text \<open>The loop ends with a flush of the sink where it pauses or completes.\<close>

definition end_flushed :: "'s run_params \<Rightarrow> string \<Rightarrow> PipelineState \<Rightarrow> 's run_state \<Rightarrow> 's run_state" where
  "end_flushed P msg ok s = (case rp_flush P (is_sink (rs_ingest s)) of (flush, sk) \<Rightarrow>
     s\<lparr>rs_phase := Ended (flushed msg flush ok), rs_ingest := (rs_ingest s)\<lparr>is_sink := sk\<rparr>\<rparr>)"

definition top_step :: "'s run_params \<Rightarrow> 's run_state \<Rightarrow> 's run_state" where
  "top_step P s =
     (if (case rp_step_limit P of Some limit \<Rightarrow> limit \<le> rs_outer_steps s | None \<Rightarrow> False)
      then end_flushed P ''Failed to flush sink at pause: '' Paused s
      else if rs_cancelled s then s\<lparr>rs_phase := Ended (Stopped Cancelled)\<rparr>
      else case pop_step (rp_max_batch_id P) (sh_work (rs_shared s)) of
        (Some (batch_id, active, skipped), ws) \<Rightarrow>
          (let s1 = s\<lparr>rs_shared := (rs_shared s)\<lparr>sh_work := ws\<rparr>,
                      rs_batches_processed := rs_batches_processed s + skipped\<rparr>
           in if active = [] then s1
              else s1\<lparr>rs_phase := InStep batch_id
                     (map (\<lambda>t. (t, TReading (start_task t batch_id (rp_max_batch_id P)))) active) 0 0\<rparr>)
      | (None, ws) \<Rightarrow>
          (case rp_max_batch_id P of
             Some _ \<Rightarrow> end_flushed P ''Failed to flush sink at checkpoint boundary: '' Paused s
           | None \<Rightarrow> end_flushed P ''Failed to flush sink after pipeline completion: '' (Stopped Completed) s))"

subsection \<open>The tasks of a step\<close>

text \<open>A task that has its batches returns at once when there are none, and else writes them.\<close>

definition after_read :: "task_status \<Rightarrow> task_phase" where
  "after_read st = (case st of
     Reading tt \<Rightarrow> TReading tt
   | ReadOk batches keys finished units n \<Rightarrow>
       if batches = [] then TReturned True units n else TWriting batches keys finished units n
   | ReadErr e \<Rightarrow> TFailed e)"

text \<open>The writing half of a task, at time \<open>ts\<close> and with the chunk schedules \<open>schs\<close>.\<close>

definition run_ctx :: "'s run_params \<Rightarrow> string \<Rightarrow> nat \<Rightarrow> int \<Rightarrow> write_ctx" where
  "run_ctx P t batch_id ts = \<lparr>ctx_table = t, ctx_batch_id = batch_id, ctx_batch_ts = ts,
     ctx_output_schema = rp_output_schema P t, ctx_partition_columns = rp_partition_columns P t,
     ctx_chunk_rows = rp_chunk_rows P\<rparr>"

definition task_writes ::
  "'s run_params \<Rightarrow> string \<Rightarrow> nat \<Rightarrow> int \<Rightarrow> (nat \<Rightarrow> chunk_schedule) \<Rightarrow> string list \<Rightarrow> record_batch list
     \<Rightarrow> 's ingest_state \<Rightarrow> string option \<times> 's ingest_state" where
  "task_writes P t batch_id ts schs keys batches =
     write_source_batches (rp_kernels P) (rp_target P) (rp_sink P) (run_ctx P t batch_id ts) schs keys
       (rp_mutations P) batches"

definition set_task :: "nat \<Rightarrow> task_phase \<Rightarrow> (string \<times> task_phase) list \<Rightarrow> (string \<times> task_phase) list" where
  "set_task i ph tasks = tasks[i := (fst (tasks ! i), ph)]"

definition remove_task :: "nat \<Rightarrow> (string \<times> task_phase) list \<Rightarrow> (string \<times> task_phase) list" where
  "remove_task i tasks = take i tasks @ drop (Suc i) tasks"

text \<open>
  The steps of the machine. A task in flight advances its read, finishes its writes or fails
  in them, or panics; a task that has returned is joined; the token may be cancelled at any
  moment, and a cancelled step ends before another task is joined.
\<close>

inductive run_step :: "'s run_params \<Rightarrow> 's run_state \<Rightarrow> 's run_state \<Rightarrow> bool" for P where
  step_top: "rs_phase s = AtTop \<Longrightarrow> run_step P s (top_step P s)"
| step_read: "rs_phase s = InStep b tasks units n \<Longrightarrow> i < length tasks \<Longrightarrow> snd (tasks ! i) = TReading tt
     \<Longrightarrow> task_step (rp_read P) (rp_target P) c tt (rs_shared s) = (st, sh)
     \<Longrightarrow> run_step P s (s\<lparr>rs_shared := sh, rs_phase := InStep b (set_task i (after_read st) tasks) units n\<rparr>)"
| step_write: "rs_phase s = InStep b tasks units n \<Longrightarrow> i < length tasks
     \<Longrightarrow> tasks ! i = (t, TWriting batches keys finished u m)
     \<Longrightarrow> task_writes P t b ts schs keys batches (rs_ingest s) = (None, ing) \<Longrightarrow> \<forall>k. fair_order (schs k)
     \<Longrightarrow> run_step P s (s\<lparr>rs_phase := InStep b (set_task i (TReturned finished u m) tasks) units n,
            rs_ingest := ing, rs_delivered := (rs_delivered s)(t := rs_delivered s t @ batches)\<rparr>)"
| step_write_error: "rs_phase s = InStep b tasks units n \<Longrightarrow> i < length tasks
     \<Longrightarrow> tasks ! i = (t, TWriting batches keys finished u m)
     \<Longrightarrow> task_writes P t b ts schs keys batches (rs_ingest s) = (Some e, ing) \<Longrightarrow> \<forall>k. fair_order (schs k)
     \<Longrightarrow> run_step P s (s\<lparr>rs_phase := InStep b (set_task i (TFailed e) tasks) units n, rs_ingest := ing\<rparr>)"
| step_join: "rs_phase s = InStep b tasks units n \<Longrightarrow> \<not> rs_cancelled s \<Longrightarrow> i < length tasks
     \<Longrightarrow> tasks ! i = (t, TReturned finished u m)
     \<Longrightarrow> run_step P s (s\<lparr>rs_phase := InStep b (remove_task i tasks) (units + u) (n + m),
            rs_tables_finished := rs_tables_finished s + (if finished then 1 else 0),
            rs_shared := (rs_shared s)\<lparr>sh_work := (sh_work (rs_shared s))\<lparr>ws_finished_tables :=
               (if finished then insert t (ws_finished_tables (sh_work (rs_shared s)))
                else ws_finished_tables (sh_work (rs_shared s)))\<rparr>\<rparr>\<rparr>)"
| step_join_error: "rs_phase s = InStep b tasks units n \<Longrightarrow> \<not> rs_cancelled s \<Longrightarrow> i < length tasks
     \<Longrightarrow> tasks ! i = (t, TFailed e)
     \<Longrightarrow> run_step P s (s\<lparr>rs_phase := Ended (Stopped (Error e))\<rparr>)"
| step_panic: "rs_phase s = InStep b tasks units n \<Longrightarrow> \<not> rs_cancelled s \<Longrightarrow> tasks \<noteq> []
     \<Longrightarrow> run_step P s (s\<lparr>rs_phase := Ended (Stopped (Error (''Task panicked: '' @ e)))\<rparr>)"
| step_all_joined: "rs_phase s = InStep b [] units n \<Longrightarrow> \<not> rs_cancelled s
     \<Longrightarrow> run_step P s (s\<lparr>rs_phase := AtTop, rs_outer_steps := rs_outer_steps s + 1,
            rs_batches_processed := rs_batches_processed s + units, rs_rows_processed := rs_rows_processed s + n,
            rs_shared := (rs_shared s)\<lparr>sh_logical_steps := (sh_logical_steps (rs_shared s) + 1) mod 2 ^ 64\<rparr>\<rparr>)"
| step_cancel: "run_step P s (s\<lparr>rs_cancelled := True\<rparr>)"
| step_cancelled: "rs_phase s = InStep b tasks units n \<Longrightarrow> rs_cancelled s
     \<Longrightarrow> run_step P s (s\<lparr>rs_phase := Ended (Stopped Cancelled)\<rparr>)"

inductive_cases run_step_cases: "run_step P s s'"

definition reachable :: "'s run_params \<Rightarrow> 's run_state \<Rightarrow> 's run_state \<Rightarrow> bool" where
  "reachable P = (run_step P)\<^sup>*\<^sup>*"

subsection \<open>What a run owes each table\<close>

text \<open>The batches of a table up to the first id without data.\<close>

definition due :: "(string \<Rightarrow> nat \<Rightarrow> ReadResult option result) \<Rightarrow> string \<Rightarrow> nat list \<Rightarrow> record_batch list" where
  "due rd t ks = data_of rd t (takeWhile (has_data rd t) ks)"

definition bounded_ids :: "'s run_params \<Rightarrow> string \<Rightarrow> steps \<Rightarrow> nat list" where
  "bounded_ids P t w = filter (in_bound (rp_max_batch_id P)) (table_ids t w)"

definition beyond_ids :: "'s run_params \<Rightarrow> string \<Rightarrow> steps \<Rightarrow> nat list" where
  "beyond_ids P t w = filter (\<lambda>k. \<not> in_bound (rp_max_batch_id P) k) (table_ids t w)"

definition bounded_keys :: "'s run_params \<Rightarrow> steps \<Rightarrow> nat list" where
  "bounded_keys P w = filter (in_bound (rp_max_batch_id P)) (map fst w)"

text \<open>
  What the run from plan \<open>w\<close> with the tables \<open>F\<close> already finished, followed by runs over the ids
  \<open>X t\<close>, has to deliver to \<open>t\<close>. The ids that follow are arbitrary: a table whose end was met
  gets nothing more.
\<close>

definition run_goal ::
  "'s run_params \<Rightarrow> steps \<Rightarrow> string set \<Rightarrow> (string \<Rightarrow> nat list) \<Rightarrow> string \<Rightarrow> record_batch list" where
  "run_goal P w F X t = (if t \<in> F then [] else due (rp_read P) t (bounded_ids P t w @ X t))"

abbreviation run_steps :: "'s run_state \<Rightarrow> steps" where
  "run_steps s \<equiv> ws_steps (sh_work (rs_shared s))"

abbreviation run_finished :: "'s run_state \<Rightarrow> string set" where
  "run_finished s \<equiv> ws_finished_tables (sh_work (rs_shared s))"

text \<open>
  A table that no task is working on: its ids beyond the bound are untouched, its ids within
  the bound are among the keys behind the first \<open>n\<close>, and what it received and what is still in
  the plan add up to its goal.
\<close>

definition settled :: "'s run_params \<Rightarrow> steps \<Rightarrow> string set \<Rightarrow> (string \<Rightarrow> nat list) \<Rightarrow> nat \<Rightarrow> 's run_state \<Rightarrow> bool \<Rightarrow> string \<Rightarrow> bool" where
  "settled P w F X n s finished t \<longleftrightarrow> beyond_ids P t (run_steps s) = beyond_ids P t w
     \<and> set (bounded_ids P t (run_steps s)) \<subseteq> set (drop n (bounded_keys P w))
     \<and> rs_delivered s t @ (if finished then [] else due (rp_read P) t (bounded_ids P t (run_steps s) @ X t)) = run_goal P w F X t"

definition task_settled :: "'s run_params \<Rightarrow> steps \<Rightarrow> string set \<Rightarrow> (string \<Rightarrow> nat list) \<Rightarrow> nat \<Rightarrow> 's run_state \<Rightarrow> string \<Rightarrow> task_phase \<Rightarrow> bool" where
  "task_settled P w F X n s t ph \<longleftrightarrow> t \<notin> run_finished s \<and> (case ph of
     TReading tt \<Rightarrow> tt_table tt = t \<and> (\<exists>I. task_ok (rp_read P) (rp_target P) I (beyond_ids P t w) tt (run_steps s)
        \<and> (\<forall>k \<in> set I. in_bound (rp_max_batch_id P) k) \<and> set (tl I) \<subseteq> set (drop n (bounded_keys P w))
        \<and> rs_delivered s t @ due (rp_read P) t (I @ X t) = run_goal P w F X t)
   | TWriting bs ks f u m \<Rightarrow> (\<exists>I. task_post (rp_read P) (rp_target P) t I (beyond_ids P t w) (run_steps s) bs ks f u m
        \<and> (\<forall>k \<in> set I. in_bound (rp_max_batch_id P) k) \<and> set (tl I) \<subseteq> set (drop n (bounded_keys P w))
        \<and> rs_delivered s t @ due (rp_read P) t (I @ X t) = run_goal P w F X t)
   | TReturned f u m \<Rightarrow> settled P w F X n s f t
   | TFailed e \<Rightarrow> True)"

text \<open>
  What a run leaves behind for a table: nothing within the bound, all that is beyond it, and what it
  delivered is its share of every continuation.
\<close>

definition run_left :: "'s run_params \<Rightarrow> steps \<Rightarrow> string set \<Rightarrow> (string \<Rightarrow> nat list) \<Rightarrow> 's run_state \<Rightarrow> string \<Rightarrow> bool" where
  "run_left P w F X s t \<longleftrightarrow> bounded_ids P t (run_steps s) = [] \<and> beyond_ids P t (run_steps s) = beyond_ids P t w
     \<and> rs_delivered s t @ (if t \<in> run_finished s then [] else due (rp_read P) t (X t)) = run_goal P w F X t"

text \<open>
  \<open>N\<close> counts the keys of the plan within the bound that the outer loop has passed; it bounds the
  outer steps, and the ids still to come are behind it.
\<close>

definition run_inv ::
  "'s run_params \<Rightarrow> steps \<Rightarrow> string set \<Rightarrow> (string \<Rightarrow> nat list) \<Rightarrow> nat \<Rightarrow> 's run_state \<Rightarrow> bool" where
  "run_inv P w F X N s \<longleftrightarrow> (case rs_phase s of
     AtTop \<Rightarrow> wf_steps (run_steps s) \<and> rs_outer_steps s \<le> N \<and> N \<le> length (bounded_keys P w)
        \<and> (\<forall>t. settled P w F X N s (t \<in> run_finished s) t)
   | InStep b tasks units m \<Rightarrow> wf_steps (run_steps s) \<and> distinct (map fst tasks)
        \<and> rs_outer_steps s < N \<and> N \<le> length (bounded_keys P w)
        \<and> (\<forall>(t, ph) \<in> set tasks. task_settled P w F X N s t ph)
        \<and> (\<forall>t. t \<notin> fst ` set tasks \<longrightarrow> settled P w F X N s (t \<in> run_finished s) t)
   | Ended st \<Rightarrow> (st = Paused \<or> st = Stopped Completed) \<longrightarrow>
        wf_steps (run_steps s) \<and> (\<forall>t. run_left P w F X s t) \<and> (st = Paused \<longleftrightarrow> rp_max_batch_id P \<noteq> None))"

lemma due_Nil [simp]: "due rd t [] = []"
  by (simp add: due_def data_of_def)

lemma due_prefix: "list_all (has_data rd t) fin \<Longrightarrow> due rd t (fin @ rest) = data_of rd t fin @ due rd t rest"
  by (induction fin) (auto simp: due_def)

lemma settled_cong:
  assumes "table_ids t (run_steps s') = table_ids t (run_steps s)" "rs_delivered s' t = rs_delivered s t"
  shows "settled P w F X n s' f t = settled P w F X n s f t"
  using assms by (simp add: settled_def beyond_ids_def bounded_ids_def)

lemma task_post_env:
  assumes "task_post rd target t I R w1 bs ks f u m" "wf_steps w2" "table_ids t w2 = table_ids t w1"
  shows "task_post rd target t I R w2 bs ks f u m"
  using assms(1,2) unfolding task_post_def assms(3) by blast

text \<open>The settled predicates of a table survive every step that leaves its ids and its data alone.\<close>

lemma task_settled_cong:
  assumes "task_settled P w F X n s t ph" "table_ids t (run_steps s') = table_ids t (run_steps s)"
    "rs_delivered s' t = rs_delivered s t" "wf_steps (run_steps s')" "t \<notin> run_finished s'"
  shows "task_settled P w F X n s' t ph"
proof (cases ph)
  case (TReading tt)
  then obtain I where I: "tt_table tt = t" "task_ok (rp_read P) (rp_target P) I (beyond_ids P t w) tt (run_steps s)"
      "\<forall>k \<in> set I. in_bound (rp_max_batch_id P) k" "set (tl I) \<subseteq> set (drop n (bounded_keys P w))"
      "rs_delivered s t @ due (rp_read P) t (I @ X t) = run_goal P w F X t"
    using assms(1) by (auto simp: task_settled_def)
  moreover have "task_ok (rp_read P) (rp_target P) I (beyond_ids P t w) tt (run_steps s')"
    using task_ok_env(1)[OF I(2) assms(4)] I(1) assms(2) by simp
  ultimately show ?thesis using assms(3,5) TReading by (auto simp: task_settled_def)
next
  case (TWriting bs ks f u m)
  then show ?thesis using assms(1,3,5) task_post_env[OF _ assms(4,2)] unfolding task_settled_def by fastforce
next
  case (TReturned f u m)
  then show ?thesis using assms settled_cong[of t s' s] by (simp add: task_settled_def)
next
  case (TFailed e)
  then show ?thesis using assms by (simp add: task_settled_def)
qed

subsection \<open>The top of the loop keeps the invariant\<close>

lemma in_set_drop_iff: "x \<in> set (drop n xs) \<longleftrightarrow> (\<exists>i. n \<le> i \<and> i < length xs \<and> xs ! i = x)"
proof
  assume "x \<in> set (drop n xs)"
  then obtain i where "i < length (drop n xs)" "drop n xs ! i = x" by (auto simp: in_set_conv_nth)
  then show "\<exists>i. n \<le> i \<and> i < length xs \<and> xs ! i = x" by (intro exI[of _ "n + i"]) auto
next
  assume "\<exists>i. n \<le> i \<and> i < length xs \<and> xs ! i = x"
  then obtain i where i: "n \<le> i" "i < length xs" "xs ! i = x" by blast
  then have "i - n < length (drop n xs)" "drop n xs ! (i - n) = x" by auto
  then show "x \<in> set (drop n xs)" by (metis nth_mem)
qed

lemma in_drop_Suc:
  fixes xs :: "nat list"
  assumes "sorted_wrt (<) xs" "x \<in> set xs" "xs ! j < x" and j: "j < length xs"
  shows "x \<in> set (drop (Suc j) xs)"
proof -
  obtain i where i: "i < length xs" "xs ! i = x" using assms(2) by (auto simp: in_set_conv_nth)
  have "j < i"
  proof (rule ccontr)
    assume "\<not> j < i"
    then consider "j = i" | "i < j" by linarith
    then show False
    proof cases
      case 2
      then show ?thesis using assms(3) i sorted_wrt_nth_less[OF assms(1) 2 j] by simp
    qed (use assms(3) i in simp)
  qed
  then show ?thesis using i by (metis Suc_leI in_set_drop_iff)
qed

lemma bounded_keys_sorted: "wf_steps w \<Longrightarrow> sorted_wrt (<) (bounded_keys P w)"
  unfolding bounded_keys_def wf_steps_def by (blast intro: sorted_wrt_filter)

lemma pop_settled:
  assumes wf: "wf_steps w" "wf_steps ((b, ts) # rest)" and b: "in_bound (rp_max_batch_id P) b"
    and steps: "run_steps s = (b, ts) # rest" "run_steps s1 = rest" and target: "0 < rp_target P"
    and same: "rs_delivered s1 = rs_delivered s" "run_finished s1 = run_finished s"
    and set: "\<And>t. settled P w F X n s (t \<in> run_finished s) t"
  shows "\<exists>n'. n < n' \<and> n' \<le> length (bounded_keys P w)
     \<and> (\<forall>t. t \<notin> set ts \<or> t \<in> run_finished s \<longrightarrow> settled P w F X n' s1 (t \<in> run_finished s1) t)
     \<and> (\<forall>t \<in> set ts. t \<notin> run_finished s
          \<longrightarrow> task_settled P w F X n' s1 t (TReading (start_task t b (rp_max_batch_id P))))"
proof -
  let ?K = "bounded_keys P w" and ?mx = "rp_max_batch_id P"
  have ids: "table_ids t (run_steps s) = (if t \<in> set ts then b # table_ids t rest else table_ids t rest)" for t
    by (simp add: steps)
  have lt: "b < k" if "k \<in> set (table_ids t rest)" for k t
    using that table_ids_subset[of t rest] wf(2) by auto
  obtain t0 where "t0 \<in> set ts" using wf(2) by (cases ts) auto
  then have "b \<in> set (drop n ?K)" using set[of t0] b by (auto simp: settled_def bounded_ids_def ids)
  then obtain j where j: "n \<le> j" "j < length ?K" "?K ! j = b" by (auto simp: in_set_drop_iff)
  have sub: "set (bounded_ids P t rest) \<subseteq> set (drop (Suc j) ?K)" for t
  proof
    fix k assume k: "k \<in> set (bounded_ids P t rest)"
    then have "k \<in> set (bounded_ids P t (run_steps s))" by (simp add: bounded_ids_def ids)
    then have "k \<in> set ?K" using set[of t] in_set_dropD by (fastforce simp: settled_def)
    moreover have "?K ! j < k" using k lt j(3) by (auto simp: bounded_ids_def)
    ultimately show "k \<in> set (drop (Suc j) ?K)" using in_drop_Suc[OF bounded_keys_sorted[OF wf(1)] _ _ j(2)] by blast
  qed
  have beyond: "beyond_ids P t rest = beyond_ids P t w" for t
    using set[of t] b by (auto simp: settled_def beyond_ids_def ids split: if_splits)
  have "settled P w F X (Suc j) s1 (t \<in> run_finished s1) t" if "t \<notin> set ts \<or> t \<in> run_finished s" for t
  proof -
    have "rs_delivered s1 t @ (if t \<in> run_finished s1 then [] else due (rp_read P) t (bounded_ids P t rest @ X t)) = run_goal P w F X t"
      using set[of t] that by (auto simp: settled_def same bounded_ids_def ids split: if_splits)
    then show ?thesis using beyond sub by (auto simp: settled_def steps(2) split: if_splits)
  qed
  moreover have "task_settled P w F X (Suc j) s1 t (TReading (start_task t b ?mx))"
    if t: "t \<in> set ts" "t \<notin> run_finished s" for t
  proof -
    let ?I = "b # bounded_ids P t rest"
    have "task_ok (rp_read P) (rp_target P) ?I (beyond_ids P t w) (start_task t b ?mx) rest"
      unfolding beyond[symmetric] unfolding bounded_ids_def beyond_ids_def
      by (rule start_task_ok) (use wf(2) b target lt in auto)
    moreover have "rs_delivered s1 t @ due (rp_read P) t (?I @ X t) = run_goal P w F X t"
      using set[of t] t b by (simp add: settled_def bounded_ids_def ids same)
    ultimately show ?thesis using t sub[of t] b
      by (auto simp: task_settled_def steps(2) same start_task_def bounded_ids_def intro!: exI[of _ ?I])
  qed
  ultimately show ?thesis using j by (intro exI[of _ "Suc j"]) auto
qed

text \<open>With the boundary computed from the plan, the number of steps within it is the limit.\<close>

lemma bounded_keys_limit:
  assumes wf: "wf_steps w" and l: "rp_step_limit P = Some l" "0 < l"
    and mx: "rp_max_batch_id P = checkpoint_max_batch_id (Some l) w"
  shows "length (bounded_keys P w) \<le> l" and "rp_max_batch_id P = None \<Longrightarrow> length (bounded_keys P w) < l"
proof -
  let ?ks = "map fst w"
  have srt: "sorted_wrt (<) ?ks" using wf by (simp add: wf_steps_def)
  show none: "length (bounded_keys P w) < l" if "rp_max_batch_id P = None"
    using that mx l(2) by (auto simp: checkpoint_max_batch_id_def bounded_keys_def in_bound_def split: if_splits)
  show "length (bounded_keys P w) \<le> l"
  proof (cases "rp_max_batch_id P")
    case None
    then show ?thesis using none by simp
  next
    case (Some m)
    then have m: "l - 1 < length w" "m = ?ks ! (l - 1)"
      using mx by (auto simp: checkpoint_max_batch_id_def split: if_splits)
    have late: "\<not> in_bound (Some m) k" if "k \<in> set (drop l ?ks)" for k
    proof -
      obtain i where i: "l \<le> i" "i < length ?ks" "?ks ! i = k" using \<open>k \<in> set (drop l ?ks)\<close> unfolding in_set_drop_iff by blast
      then have "l - 1 < i" using l(2) by simp
      from sorted_wrt_nth_less[OF srt this i(2)] have "m < k" using i(3) m(2) by simp
      then show ?thesis by (simp add: in_bound_def)
    qed
    have "bounded_keys P w = filter (in_bound (Some m)) (take l ?ks @ drop l ?ks)"
      by (simp add: bounded_keys_def Some)
    also have "\<dots> = filter (in_bound (Some m)) (take l ?ks)"
      using late by (simp only: filter_append) (simp add: filter_empty_conv)
    finally show ?thesis
      using length_filter_le[of "in_bound (Some m)" "take l ?ks"] by (metis length_take min.bounded_iff)
  qed
qed

lemma settled_exhausted:
  assumes "settled P w F X n s f t" "bounded_ids P t (run_steps s) = []"
  shows "f = (t \<in> run_finished s) \<Longrightarrow> run_left P w F X s t"
  using assms by (auto simp: settled_def run_left_def split: if_splits)

text \<open>A run as the pipeline starts it: the boundary belongs to the limit and the plan.\<close>

definition run_setup :: "'s run_params \<Rightarrow> steps \<Rightarrow> bool" where
  "run_setup P w \<longleftrightarrow> wf_steps w \<and> 0 < rp_target P \<and> rp_step_limit P \<noteq> Some 0
     \<and> rp_max_batch_id P = checkpoint_max_batch_id (rp_step_limit P) w"

lemma pop_none_beyond:
  assumes "wf_steps (ws_steps ws)" "pop_step mx ws = (None, ws')" "k \<in> set (map fst (ws_steps ws))"
  shows "\<not> in_bound mx k"
proof (cases "ws_steps ws")
  case Nil
  then show ?thesis using assms(3) by simp
next
  case (Cons e rest)
  obtain b ts where e: "e = (b, ts)" by (cases e)
  have "\<not> in_bound mx b" using assms(2) Cons e by (auto simp: pop_step_def Let_def split: if_splits)
  moreover have "b \<le> k" using assms(1,3) Cons e by fastforce
  ultimately show ?thesis by (auto simp: in_bound_def split: option.splits)
qed

lemma run_inv_AtTopI:
  "rs_phase s = AtTop \<Longrightarrow> wf_steps (run_steps s) \<Longrightarrow> rs_outer_steps s \<le> N \<Longrightarrow> N \<le> length (bounded_keys P w)
     \<Longrightarrow> (\<And>t. settled P w F X N s (t \<in> run_finished s) t) \<Longrightarrow> run_inv P w F X N s"
  unfolding run_inv_def by auto

lemma run_inv_InStepI:
  "rs_phase s = InStep b tasks units m \<Longrightarrow> wf_steps (run_steps s) \<Longrightarrow> distinct (map fst tasks)
     \<Longrightarrow> rs_outer_steps s < N \<Longrightarrow> N \<le> length (bounded_keys P w)
     \<Longrightarrow> (\<And>t ph. (t, ph) \<in> set tasks \<Longrightarrow> task_settled P w F X N s t ph)
     \<Longrightarrow> (\<And>t. t \<notin> fst ` set tasks \<Longrightarrow> settled P w F X N s (t \<in> run_finished s) t) \<Longrightarrow> run_inv P w F X N s"
  unfolding run_inv_def by auto

lemma run_inv_InStepE:
  assumes "run_inv P w F X N s" "rs_phase s = InStep b tasks units m"
  shows "wf_steps (run_steps s)" "distinct (map fst tasks)" "rs_outer_steps s < N"
    "N \<le> length (bounded_keys P w)" "(t, ph) \<in> set tasks \<Longrightarrow> task_settled P w F X N s t ph"
    "t \<notin> fst ` set tasks \<Longrightarrow> settled P w F X N s (t \<in> run_finished s) t"
  using assms unfolding run_inv_def by auto

text \<open>Taking the next step off the plan and starting its tasks.\<close>

lemma start_step_inv:
  assumes su: "run_setup P w" and wf: "wf_steps ((b, ts) # rest)" and b: "in_bound (rp_max_batch_id P) b"
    and steps: "run_steps s = (b, ts) # rest" "run_steps s1 = rest"
    and same: "rs_delivered s1 = rs_delivered s" "run_finished s1 = run_finished s" "rs_outer_steps s1 = rs_outer_steps s"
    and n: "rs_outer_steps s \<le> N" and set: "\<And>t. settled P w F X N s (t \<in> run_finished s) t"
    and active: "active = filter (\<lambda>t. t \<notin> run_finished s) ts"
    and ph: "rs_phase s1 = (if active = [] then AtTop
      else InStep b (map (\<lambda>t. (t, TReading (start_task t b (rp_max_batch_id P)))) active) 0 0)"
  shows "\<exists>N'. N < N' \<and> run_inv P w F X N' s1"
proof -
  have ww: "wf_steps w" "0 < rp_target P" using su by (simp_all add: run_setup_def)
  obtain n' where n': "N < n'" "n' \<le> length (bounded_keys P w)"
     "\<forall>t. t \<notin> set ts \<or> t \<in> run_finished s \<longrightarrow> settled P w F X n' s1 (t \<in> run_finished s1) t"
     "\<forall>t \<in> set ts. t \<notin> run_finished s
        \<longrightarrow> task_settled P w F X n' s1 t (TReading (start_task t b (rp_max_batch_id P)))"
    using pop_settled[OF ww(1) wf b steps ww(2) same(1,2) set] by blast
  have wf1: "wf_steps (run_steps s1)" using wf steps(2) by simp
  show ?thesis
  proof (cases "active = []")
    case True
    then have all: "t \<notin> set ts \<or> t \<in> run_finished s" for t using active by (metis filter_empty_conv)
    have "run_inv P w F X n' s1"
      by (rule run_inv_AtTopI) (use True ph wf1 same(3) n n' all in auto)
    then show ?thesis using n'(1) by blast
  next
    case False
    define tasks where "tasks = map (\<lambda>t. (t, TReading (start_task t b (rp_max_batch_id P)))) active"
    have idle: "t \<notin> set ts \<or> t \<in> run_finished s" if "t \<notin> fst ` set tasks" for t
      using that by (force simp: tasks_def active)
    have d: "distinct (map fst tasks)" using wf active by (simp add: tasks_def comp_def)
    have busy: "task_settled P w F X n' s1 t ph" if "(t, ph) \<in> set tasks" for t ph
      using n'(4) that by (auto simp: tasks_def active)
    have "run_inv P w F X n' s1"
      by (rule run_inv_InStepI[OF _ wf1 d _ n'(2) busy]) (use False ph same(3) n n'(1,3) idle in \<open>auto simp: tasks_def\<close>)
    then show ?thesis using n'(1) by blast
  qed
qed

lemma top_step_inv:
  assumes su: "run_setup P w" and top: "rs_phase s = AtTop" and inv: "run_inv P w F X N s"
  shows "\<exists>N'. run_inv P w F X N' (top_step P s) \<and> (N < N' \<or> (\<exists>st. rs_phase (top_step P s) = Ended st))"
proof -
  have wf: "wf_steps (run_steps s)" and n: "rs_outer_steps s \<le> N" "N \<le> length (bounded_keys P w)"
    and set: "\<And>t. settled P w F X N s (t \<in> run_finished s) t"
    using inv top by (auto simp: run_inv_def)
  have endI: "run_inv P w F X N (end_flushed P msg st s) \<and> (\<exists>st'. rs_phase (end_flushed P msg st s) = Ended st')"
    if "\<And>t. bounded_ids P t (run_steps s) = []" "st = Paused \<longleftrightarrow> rp_max_batch_id P \<noteq> None" for msg st
    using settled_exhausted[OF set that(1) refl] wf that(2)
    by (auto simp: run_inv_def run_left_def end_flushed_def flushed_def split: prod.splits option.splits)
  show ?thesis
  proof (cases "case rp_step_limit P of Some l \<Rightarrow> l \<le> rs_outer_steps s | None \<Rightarrow> False")
    case True
    then obtain l where l: "rp_step_limit P = Some l" "l \<le> N" "0 < l"
      using n su by (auto simp: run_setup_def split: option.splits)
    have w: "wf_steps w" "rp_max_batch_id P = checkpoint_max_batch_id (Some l) w"
      using su l(1) by (simp_all add: run_setup_def)
    have mx: "rp_max_batch_id P \<noteq> None"
      using bounded_keys_limit(2)[OF w(1) l(1,3) w(2)] l(2) n(2) by fastforce
    have "length (bounded_keys P w) \<le> N"
      using bounded_keys_limit(1)[OF w(1) l(1,3) w(2)] l(2) by simp
    then have "bounded_ids P t (run_steps s) = []" for t using set[of t] by (simp add: settled_def)
    then show ?thesis using True endI mx by (auto simp: top_step_def)
  next
    case no_limit: False
    show ?thesis
    proof (cases "rs_cancelled s")
      case True
      then show ?thesis using no_limit by (simp add: top_step_def run_inv_def)
    next
      case False
      show ?thesis
      proof (cases "pop_step (rp_max_batch_id P) (sh_work (rs_shared s))")
        case (Pair res ws)
        show ?thesis
        proof (cases res)
          case None
          have "\<not> in_bound (rp_max_batch_id P) k" if "k \<in> set (map fst (run_steps s))" for k
            using pop_none_beyond[OF wf] that Pair None by blast
          then have bd: "bounded_ids P t (run_steps s) = []" for t
            using table_ids_subset[of t "run_steps s"] unfolding bounded_ids_def filter_empty_conv by blast
          obtain msg where "top_step P s =
              end_flushed P msg (if rp_max_batch_id P = None then Stopped Completed else Paused) s"
            using no_limit False Pair None by (cases "rp_max_batch_id P") (auto simp: top_step_def)
          then show ?thesis
            using endI[OF bd, of "if rp_max_batch_id P = None then Stopped Completed else Paused" msg] by auto
        next
          case (Some r)
          obtain b active skipped where r: "r = (b, active, skipped)" by (cases r)
          obtain ts rest where st: "run_steps s = (b, ts) # rest" "in_bound (rp_max_batch_id P) b"
              "active = filter (\<lambda>t. t \<notin> run_finished s) ts" "ws = (sh_work (rs_shared s))\<lparr>ws_steps := rest\<rparr>"
            using Pair Some r by (auto simp: pop_step_def Let_def split: list.splits if_splits)
          have wf1: "wf_steps ((b, ts) # rest)" using wf st(1) by simp
          have eq: "top_step P s = s\<lparr>rs_shared := (rs_shared s)\<lparr>sh_work := ws\<rparr>,
              rs_batches_processed := rs_batches_processed s + skipped,
              rs_phase := (if active = [] then AtTop
                else InStep b (map (\<lambda>t. (t, TReading (start_task t b (rp_max_batch_id P)))) active) 0 0)\<rparr>"
            using no_limit False Pair Some r top by (simp add: top_step_def Let_def)
          have "\<exists>N'. N < N' \<and> run_inv P w F X N' (top_step P s)" unfolding eq
            by (rule start_step_inv[OF su wf1 st(2) st(1) _ _ _ _ n(1) set st(3)]) (simp_all add: st(4))
          then show ?thesis by blast
        qed
      qed
    qed
  qed
qed

subsection \<open>The tasks of a step keep the invariant\<close>

text \<open>
  Every batch that exists has at least one record batch. (A table task takes a read without
  record batches for the end of its table.)
\<close>

definition reads_nonempty :: "'s run_params \<Rightarrow> bool" where
  "reads_nonempty P \<longleftrightarrow> (\<forall>t k r. rp_read P t k = Inr (Some r) \<longrightarrow> rr_batches r \<noteq> [])"

lemma data_of_nonempty:
  assumes "reads_nonempty P" "list_all (has_data (rp_read P) t) fin" "data_of (rp_read P) t fin = []"
  shows "fin = []"
proof (rule ccontr)
  assume "fin \<noteq> []"
  then obtain k ks where k: "fin = k # ks" by (cases fin) auto
  then obtain r where "rp_read P t k = Inr (Some r)" using assms(2) by (auto simp: has_data_def)
  then show False using assms(1,3) k by (auto simp: reads_nonempty_def result_of_def)
qed

lemma post_settled:
  assumes post: "task_post (rp_read P) (rp_target P) t I (beyond_ids P t w) (run_steps s) bs ks f u m"
    and I: "\<forall>k \<in> set I. in_bound (rp_max_batch_id P) k" "set (tl I) \<subseteq> set (drop n (bounded_keys P w))"
    and goal: "d @ due (rp_read P) t (I @ X t) = run_goal P w F X t" and d: "rs_delivered s t = d @ bs"
  shows "settled P w F X n s f t"
proof -
  let ?rd = "rp_read P"
  obtain fin rest where fr: "I = fin @ rest" "list_all (has_data ?rd t) fin" "bs = data_of ?rd t fin"
      "if f then rest \<noteq> [] \<and> ?rd t (hd rest) = Inr None \<and> rows_of ?rd t fin < rp_target P
             \<and> (\<exists>avail. table_ids t (run_steps s) = avail @ beyond_ids P t w \<and> set avail \<subseteq> set (tl rest))
       else fin \<noteq> [] \<and> table_ids t (run_steps s) = rest @ beyond_ids P t w \<and> u = length fin
             \<and> (rp_target P \<le> rows_of ?rd t fin \<or> rest = [])"
    using post unfolding task_post_def by auto
  have due: "rs_delivered s t @ due ?rd t (rest @ X t) = run_goal P w F X t"
    using goal fr(1-3) d by (simp add: due_prefix)
  obtain left where l: "table_ids t (run_steps s) = left @ beyond_ids P t w" "set left \<subseteq> set (tl I)"
      "f \<or> left = rest" "f \<longrightarrow> due ?rd t (rest @ X t) = []"
  proof (cases f)
    case True
    then obtain avail where "table_ids t (run_steps s) = avail @ beyond_ids P t w" "set avail \<subseteq> set (tl rest)" "rest \<noteq> []"
        "?rd t (hd rest) = Inr None" using fr(4) by auto
    moreover have "set (tl rest) \<subseteq> set (tl I)" using fr(1) by (cases fin; cases rest) auto
    moreover have "due ?rd t (rest @ X t) = []"
      using \<open>rest \<noteq> []\<close> \<open>?rd t (hd rest) = Inr None\<close> by (cases rest) (auto simp: due_def has_data_def)
    ultimately show ?thesis using that True by blast
  next
    case False
    then show ?thesis using that[of rest] fr(1,4) by (cases fin) auto
  qed
  have "\<forall>k \<in> set left. in_bound (rp_max_batch_id P) k" using l(2) I(1) by (metis in_mono list.sel(2) list.set_sel(2))
  then have "bounded_ids P t (run_steps s) = left" "beyond_ids P t (run_steps s) = beyond_ids P t w"
    unfolding bounded_ids_def beyond_ids_def l(1) by (auto simp: filter_empty_conv)
  then show ?thesis using l due I(2) unfolding settled_def by auto
qed

lemma set_task_facts:
  assumes "i < length tasks" "tasks ! i = (t, ph0)" "distinct (map fst tasks)"
  shows "map fst (set_task i ph tasks) = map fst tasks"
    and "(u, ph') \<in> set (set_task i ph tasks) \<Longrightarrow> (u = t \<and> ph' = ph) \<or> (u \<noteq> t \<and> (u, ph') \<in> set tasks)"
proof -
  show "map fst (set_task i ph tasks) = map fst tasks"
    using assms(1) by (simp add: set_task_def map_update list_update_same_conv)
  assume "(u, ph') \<in> set (set_task i ph tasks)"
  then obtain j where j: "j < length tasks" "set_task i ph tasks ! j = (u, ph')"
    by (auto simp: in_set_conv_nth set_task_def)
  show "(u = t \<and> ph' = ph) \<or> (u \<noteq> t \<and> (u, ph') \<in> set tasks)"
  proof (cases "j = i")
    case True
    then show ?thesis using j assms(1,2) by (simp add: set_task_def)
  next
    case False
    then have "tasks ! j = (u, ph')" using j by (simp add: set_task_def)
    moreover have "u \<noteq> t"
      using assms j(1) False calculation nth_eq_iff_index_eq[OF assms(3), of j i] by auto
    ultimately show ?thesis using j(1) nth_mem by fastforce
  qed
qed

lemma remove_task_facts:
  assumes "i < length tasks" "tasks ! i = (t, ph)" "distinct (map fst tasks)"
  shows "distinct (map fst (remove_task i tasks))"
    and "(u, ph') \<in> set (remove_task i tasks) \<Longrightarrow> u \<noteq> t \<and> (u, ph') \<in> set tasks"
    and "fst ` set (remove_task i tasks) = fst ` set tasks - {t}"
proof -
  have eq: "map fst (remove_task i tasks) = take i (map fst tasks) @ drop (Suc i) (map fst tasks)"
    by (simp add: remove_task_def take_map drop_map)
  have i: "i < length (map fst tasks)" using assms(1) by simp
  show "distinct (map fst (remove_task i tasks))" unfolding eq by (rule set_remove_nth(1)[OF assms(3) i])
  have "set (map fst (remove_task i tasks)) = set (map fst tasks) - {t}"
    unfolding eq using set_remove_nth(2)[OF assms(3) i] assms(1,2) by simp
  then show f: "fst ` set (remove_task i tasks) = fst ` set tasks - {t}" by simp
  assume u: "(u, ph') \<in> set (remove_task i tasks)"
  then have "u \<in> fst ` set (remove_task i tasks)" by force
  then have "u \<noteq> t" using f by blast
  moreover have "(u, ph') \<in> set tasks" using u by (auto simp: remove_task_def dest: in_set_takeD in_set_dropD)
  ultimately show "u \<noteq> t \<and> (u, ph') \<in> set tasks" by simp
qed

text \<open>A step of one task: the other tables of the step and the idle tables are not affected.\<close>

lemma task_change_inv:
  assumes inv: "run_inv P w F X N s" and ph: "rs_phase s = InStep b tasks units m"
    and i: "i < length tasks" "tasks ! i = (t, ph0)"
    and ph': "rs_phase s' = InStep b (set_task i ph1 tasks) units m" and wf: "wf_steps (run_steps s')"
    and other: "\<And>u. u \<noteq> t \<Longrightarrow> table_ids u (run_steps s') = table_ids u (run_steps s)"
      "\<And>u. u \<noteq> t \<Longrightarrow> rs_delivered s' u = rs_delivered s u"
    and same: "run_finished s' = run_finished s" "rs_outer_steps s' = rs_outer_steps s"
    and own: "task_settled P w F X N s t ph0 \<Longrightarrow> task_settled P w F X N s' t ph1"
  shows "run_inv P w F X N s'"
proof -
  note n = run_inv_InStepE(2-6)[OF inv ph]
  note st = set_task_facts[OF i n(1)]
  have mem: "(t, ph0) \<in> set tasks" using i by (metis nth_mem)
  have keys: "fst ` set (set_task i ph1 tasks) = fst ` set tasks" by (metis st(1) set_map)
  have busy: "task_settled P w F X N s' u ph'" if "(u, ph') \<in> set (set_task i ph1 tasks)" for u ph'
  proof (cases "u = t")
    case True
    then show ?thesis using st(2)[OF that] own[OF n(4)[OF mem]] by simp
  next
    case False
    then have "(u, ph') \<in> set tasks" using st(2)[OF that] by blast
    from n(4)[OF this] show ?thesis
      by (rule task_settled_cong) (use other False wf same n(4)[OF \<open>(u, ph') \<in> set tasks\<close>] in \<open>auto simp: task_settled_def\<close>)
  qed
  have idle: "settled P w F X N s' (u \<in> run_finished s') u" if "u \<notin> fst ` set (set_task i ph1 tasks)" for u
  proof -
    have "u \<notin> fst ` set tasks" "u \<noteq> t" using that keys mem by force+
    then show ?thesis using n(5)[of u] settled_cong[of u s' s] other same by simp
  qed
  show ?thesis
    by (rule run_inv_InStepI[OF ph' wf _ _ n(3) busy idle]) (use st(1) n(1,2) same in simp_all)
qed

lemma step_read_inv:
  assumes ne: "reads_nonempty P" and inv: "run_inv P w F X N s" and ph: "rs_phase s = InStep b tasks units m"
    and i: "i < length tasks" "snd (tasks ! i) = TReading tt"
    and step: "task_step (rp_read P) (rp_target P) c tt (rs_shared s) = (st, sh)"
  shows "run_inv P w F X N (s\<lparr>rs_shared := sh, rs_phase := InStep b (set_task i (after_read st) tasks) units m\<rparr>)"
    (is "run_inv P w F X N ?s'")
proof -
  obtain t where t: "tasks ! i = (t, TReading tt)" using i(2) by (metis prod.collapse)
  have "task_settled P w F X N s t (TReading tt)" "wf_steps (run_steps s)"
    using run_inv_InStepE[OF inv ph] i(1) t by (metis nth_mem)+
  then obtain I0 where "tt_table tt = t" "task_ok (rp_read P) (rp_target P) I0 (beyond_ids P t w) tt (run_steps s)"
    by (auto simp: task_settled_def)
  then have fr: "frame t (rs_shared s) sh" using task_step_spec[OF _ step] by blast
  have own: "task_settled P w F X N ?s' t (after_read st)" if set: "task_settled P w F X N s t (TReading tt)"
  proof -
    obtain I where I: "tt_table tt = t" "task_ok (rp_read P) (rp_target P) I (beyond_ids P t w) tt (run_steps s)"
        "\<forall>k \<in> set I. in_bound (rp_max_batch_id P) k" "set (tl I) \<subseteq> set (drop N (bounded_keys P w))"
        "rs_delivered s t @ due (rp_read P) t (I @ X t) = run_goal P w F X t" and tf: "t \<notin> run_finished s"
      using set by (auto simp: task_settled_def)
    note spec = task_step_spec[OF I(2) step, unfolded I(1)]
    have tf': "t \<notin> run_finished ?s'" using fr tf by (simp add: frame_def)
    show ?thesis
    proof (cases st)
      case (Reading tt')
      then show ?thesis using spec I tf' by (auto simp: task_settled_def after_read_def intro!: exI[of _ I])
    next
      case (ReadErr e)
      then show ?thesis using tf' by (simp add: task_settled_def after_read_def)
    next
      case (ReadOk bs ks f u m')
      then have post: "task_post (rp_read P) (rp_target P) t I (beyond_ids P t w) (run_steps ?s') bs ks f u m'"
        using spec by simp
      show ?thesis
      proof (cases "bs = []")
        case False
        then show ?thesis using ReadOk post I tf' by (auto simp: task_settled_def after_read_def intro!: exI[of _ I])
      next
        case True
        have "f"
        proof (rule ccontr)
          assume "\<not> f"
          then obtain fin where "fin \<noteq> []" "list_all (has_data (rp_read P) t) fin" "bs = data_of (rp_read P) t fin"
            using post by (auto simp: task_post_def)
          then show False using True data_of_nonempty[OF ne] by blast
        qed
        moreover have "settled P w F X N ?s' f t"
          by (rule post_settled[OF post I(3,4,5)]) (simp add: True)
        ultimately show ?thesis using ReadOk True tf' by (simp add: task_settled_def after_read_def)
      qed
    qed
  qed
  show ?thesis
    by (rule task_change_inv[OF inv ph i(1) t _ _ _ _ _ _ own]) (use fr in \<open>auto simp: frame_def\<close>)
qed

lemma step_write_inv:
  assumes inv: "run_inv P w F X N s" and ph: "rs_phase s = InStep b tasks units m"
    and i: "i < length tasks" "tasks ! i = (t, TWriting bs ks f u m')"
  shows "run_inv P w F X N (s\<lparr>rs_phase := InStep b (set_task i (TReturned f u m') tasks) units m,
            rs_ingest := ing, rs_delivered := (rs_delivered s)(t := rs_delivered s t @ bs)\<rparr>)" (is "run_inv P w F X N ?s'")
proof -
  have wf: "wf_steps (run_steps s)" using run_inv_InStepE(1)[OF inv ph] .
  have "task_settled P w F X N ?s' t (TReturned f u m')" if set: "task_settled P w F X N s t (TWriting bs ks f u m')"
  proof -
    obtain I where I: "task_post (rp_read P) (rp_target P) t I (beyond_ids P t w) (run_steps s) bs ks f u m'"
        "\<forall>k \<in> set I. in_bound (rp_max_batch_id P) k" "set (tl I) \<subseteq> set (drop N (bounded_keys P w))"
        "rs_delivered s t @ due (rp_read P) t (I @ X t) = run_goal P w F X t" and tf: "t \<notin> run_finished s"
      using set by (auto simp: task_settled_def)
    have post: "task_post (rp_read P) (rp_target P) t I (beyond_ids P t w) (run_steps ?s') bs ks f u m'"
      using I(1) by simp
    have "settled P w F X N ?s' f t" by (rule post_settled[OF post I(2,3,4)]) simp
    then show ?thesis using tf by (simp add: task_settled_def)
  qed
  then show ?thesis by (rule task_change_inv[OF inv ph i, rotated -1]) (use wf in auto)
qed

lemma step_write_error_inv:
  assumes inv: "run_inv P w F X N s" and ph: "rs_phase s = InStep b tasks units m"
    and i: "i < length tasks" "tasks ! i = (t, ph0)"
  shows "run_inv P w F X N (s\<lparr>rs_phase := InStep b (set_task i (TFailed e) tasks) units m, rs_ingest := ing\<rparr>)"
proof -
  have "wf_steps (run_steps s)" using run_inv_InStepE(1)[OF inv ph] .
  then show ?thesis by (intro task_change_inv[OF inv ph i]) (auto simp: task_settled_def)
qed

lemma step_join_inv:
  assumes inv: "run_inv P w F X N s" and ph: "rs_phase s = InStep b tasks units m"
    and i: "i < length tasks" "tasks ! i = (t, TReturned f u m')"
    and s': "rs_phase s' = InStep b (remove_task i tasks) units' m2" "run_steps s' = run_steps s"
      "run_finished s' = (if f then insert t (run_finished s) else run_finished s)"
      "rs_delivered s' = rs_delivered s" "rs_outer_steps s' = rs_outer_steps s"
  shows "run_inv P w F X N s'"
proof -
  note n = run_inv_InStepE[OF inv ph]
  note rm = remove_task_facts[OF i n(2)]
  have mem: "(t, TReturned f u m') \<in> set tasks" using i by (metis nth_mem)
  have t: "t \<notin> run_finished s" "settled P w F X N s f t" using n(5)[OF mem] by (simp_all add: task_settled_def)
  have busy: "task_settled P w F X N s' v ph'" if "(v, ph') \<in> set (remove_task i tasks)" for v ph'
  proof -
    have v: "v \<noteq> t" "(v, ph') \<in> set tasks" using rm(2)[OF that] by auto
    from n(5)[OF v(2)] show ?thesis
      by (rule task_settled_cong) (use n(1) n(5)[OF v(2)] v(1) s' in \<open>auto simp: task_settled_def\<close>)
  qed
  have idle: "settled P w F X N s' (v \<in> run_finished s') v" if "v \<notin> fst ` set (remove_task i tasks)" for v
  proof (cases "v = t")
    case True
    then show ?thesis using t s' settled_cong[of t s' s] by auto
  next
    case False
    then have "v \<notin> fst ` set tasks" using that rm(3) by auto
    then show ?thesis using n(6)[of v] settled_cong[of v s' s] s' False by auto
  qed
  show ?thesis
    by (rule run_inv_InStepI[OF s'(1) _ rm(1) _ n(4) busy idle]) (use n(1,3) s' in simp_all)
qed

lemma run_inv_ended:
  "rs_phase s = Ended st \<Longrightarrow> st \<noteq> Paused \<Longrightarrow> st \<noteq> Stopped Completed \<Longrightarrow> run_inv P w F X N s"
  by (simp add: run_inv_def)

subsection \<open>Progress\<close>

text \<open>How far the tasks of a step are from being joined.\<close>

definition task_rank :: "steps \<Rightarrow> task_phase \<Rightarrow> nat" where
  "task_rank w ph = (case ph of
     TReading tt \<Rightarrow> 3 + task_measure tt w | TWriting _ _ _ _ _ \<Rightarrow> 2 | TReturned _ _ _ \<Rightarrow> 1 | TFailed _ \<Rightarrow> 1)"

definition tasks_rank :: "steps \<Rightarrow> (string \<times> task_phase) list \<Rightarrow> nat" where
  "tasks_rank w tasks = sum_list (map (task_rank w \<circ> snd) tasks)"

definition run_rank :: "'s run_state \<Rightarrow> nat" where
  "run_rank s = (case rs_phase s of InStep b tasks _ _ \<Rightarrow> Suc (tasks_rank (run_steps s) tasks) | _ \<Rightarrow> 0)"

lemma set_task_rank:
  assumes i: "i < length tasks" "tasks ! i = (t, ph0)" "distinct (map fst tasks)"
    and other: "\<And>u ph. (u, ph) \<in> set tasks \<Longrightarrow> u \<noteq> t \<Longrightarrow> task_rank w' ph = task_rank w ph"
    and own: "task_rank w' ph1 < task_rank w ph0"
  shows "tasks_rank w' (set_task i ph1 tasks) < tasks_rank w tasks"
proof -
  let ?ranks = "map (task_rank w \<circ> snd) tasks"
  have "map (task_rank w' \<circ> snd) (set_task i ph1 tasks) = ?ranks[i := task_rank w' ph1]"
  proof (rule nth_equalityI)
    fix j assume "j < length (map (task_rank w' \<circ> snd) (set_task i ph1 tasks))"
    then have j: "j < length tasks" by (simp add: set_task_def)
    show "map (task_rank w' \<circ> snd) (set_task i ph1 tasks) ! j = ?ranks[i := task_rank w' ph1] ! j"
    proof (cases "j = i")
      case False
      then have "fst (tasks ! j) \<noteq> t" using i j nth_eq_iff_index_eq[OF i(3), of j i] by simp
      then have "task_rank w' (snd (tasks ! j)) = task_rank w (snd (tasks ! j))"
        using other[of "fst (tasks ! j)" "snd (tasks ! j)"] j by simp
      then show ?thesis using False j by (simp add: set_task_def)
    qed (use j in \<open>simp add: set_task_def\<close>)
  qed (simp add: set_task_def)
  moreover have "?ranks ! i = task_rank w ph0" using i by simp
  moreover have "?ranks ! i \<le> sum_list ?ranks" using i(1) by (intro elem_le_sum_list) simp
  ultimately show ?thesis using own i(1) by (simp add: tasks_rank_def sum_list_update)
qed

lemma remove_task_rank:
  assumes "i < length tasks" "tasks ! i = (t, ph)"
  shows "tasks_rank w tasks = task_rank w ph + tasks_rank w (remove_task i tasks)"
proof -
  have "tasks = take i tasks @ (t, ph) # drop (Suc i) tasks" using id_take_nth_drop[OF assms(1)] assms(2) by simp
  then have "tasks_rank w tasks = tasks_rank w (take i tasks @ (t, ph) # drop (Suc i) tasks)" by simp
  then show ?thesis by (simp add: tasks_rank_def remove_task_def)
qed

lemma step_read_rank:
  assumes inv: "run_inv P w F X N s" and ph: "rs_phase s = InStep b tasks units m"
    and i: "i < length tasks" "snd (tasks ! i) = TReading tt"
    and step: "task_step (rp_read P) (rp_target P) c tt (rs_shared s) = (st, sh)"
  shows "tasks_rank (ws_steps (sh_work sh)) (set_task i (after_read st) tasks) < tasks_rank (run_steps s) tasks"
proof -
  obtain t where t: "tasks ! i = (t, TReading tt)" using i(2) by (metis prod.collapse)
  note E = run_inv_InStepE[OF inv ph]
  have "task_settled P w F X N s t (TReading tt)" using E(5) i(1) t by (metis nth_mem)
  then obtain I where I: "tt_table tt = t" "task_ok (rp_read P) (rp_target P) I (beyond_ids P t w) tt (run_steps s)"
    by (auto simp: task_settled_def)
  note spec = task_step_spec[OF I(2) step, unfolded I(1)]
  show ?thesis
  proof (rule set_task_rank[OF i(1) t E(2)])
    fix u ph' assume "(u, ph') \<in> set tasks" "u \<noteq> t"
    then show "task_rank (ws_steps (sh_work sh)) ph' = task_rank (run_steps s) ph'"
      using E(5)[of u ph'] spec
      by (auto simp: task_rank_def task_settled_def task_measure_def frame_def split: task_phase.splits)
  next
    show "task_rank (ws_steps (sh_work sh)) (after_read st) < task_rank (run_steps s) (TReading tt)"
      using spec by (auto simp: task_rank_def after_read_def split: task_status.splits)
  qed
qed

lemma step_task_rank:
  assumes inv: "run_inv P w F X N s" and ph: "rs_phase s = InStep b tasks units m"
    and i: "i < length tasks" "tasks ! i = (t, ph0)" and own: "task_rank (run_steps s) ph1 < task_rank (run_steps s) ph0"
  shows "tasks_rank (run_steps s) (set_task i ph1 tasks) < tasks_rank (run_steps s) tasks"
  by (rule set_task_rank[OF i run_inv_InStepE(2)[OF inv ph] refl own])

text \<open>
  Every step keeps the invariant; it ends the run, passes a key of the plan, brings the tasks of
  the step closer to their end, or only cancels the token.
\<close>

lemma run_step_inv:
  assumes su: "run_setup P w" and ne: "reads_nonempty P" and step: "run_step P s s'" and inv: "run_inv P w F X N s"
  shows "\<exists>N'. run_inv P w F X N' s' \<and> ((\<exists>st. rs_phase s' = Ended st) \<or> N < N'
     \<or> N' = N \<and> (run_rank s' < run_rank s \<or> s' = s\<lparr>rs_cancelled := True\<rparr>))"
  using step inv
proof cases
  case step_top
  then show ?thesis using top_step_inv[OF su _ inv] by blast
next
  case (step_read b tasks units n i tt c st sh)
  have "run_rank s' < run_rank s"
    using step_read_rank[OF inv step_read(2-5)] step_read(1,2) by (simp add: run_rank_def)
  then show ?thesis using step_read_inv[OF ne inv step_read(2,3,4,5)] step_read(1) by auto
next
  case (step_write b tasks units n i t batches keys finished u m ts schs ing)
  have "run_rank s' < run_rank s"
    using step_task_rank[OF inv step_write(2,3,4), of "TReturned finished u m"] step_write(1,2)
    by (simp add: run_rank_def task_rank_def)
  then show ?thesis using step_write_inv[OF inv step_write(2,3,4)] step_write(1) by blast
next
  case (step_write_error b tasks units n i t batches keys finished u m ts schs e ing)
  have "run_rank s' < run_rank s"
    using step_task_rank[OF inv step_write_error(2,3,4), of "TFailed e"] step_write_error(1,2)
    by (simp add: run_rank_def task_rank_def)
  then show ?thesis using step_write_error_inv[OF inv step_write_error(2,3,4)] step_write_error(1) by blast
next
  case (step_join b tasks units n i t finished u m)
  have "run_rank s' < run_rank s"
    using remove_task_rank[OF step_join(4,5), of "run_steps s"] step_join(1,2) by (simp add: run_rank_def task_rank_def)
  then show ?thesis using step_join_inv[OF inv step_join(2,4,5), of s'] step_join(1) by auto
next
  case (step_join_error b tasks units n i t e)
  then show ?thesis using run_inv_ended[of s' "Stopped (Error e)"] by auto
next
  case (step_panic b tasks units n e)
  then show ?thesis using run_inv_ended[of s' "Stopped (Error (''Task panicked: '' @ e))"] by auto
next
  case (step_all_joined b units n)
  note k = run_inv_InStepE[OF inv step_all_joined(2)]
  have same: "run_steps s' = run_steps s" "run_finished s' = run_finished s" "rs_delivered s' = rs_delivered s"
      "rs_phase s' = AtTop" "rs_outer_steps s' = rs_outer_steps s + 1"
    by (simp_all add: step_all_joined(1))
  have "run_inv P w F X N s'"
  proof (rule run_inv_AtTopI)
    show "settled P w F X N s' (t \<in> run_finished s') t" for t
      using k(6)[of t] settled_cong[of t s' s] same by simp
  qed (use k(1,3,4) same in simp_all)
  moreover have "run_rank s' < run_rank s" using same(4) step_all_joined(2) by (simp add: run_rank_def)
  ultimately show ?thesis by blast
next
  case step_cancel
  have "settled P w F X n (s\<lparr>rs_cancelled := True\<rparr>) f t = settled P w F X n s f t" for n f t
    by (rule settled_cong) simp_all
  moreover have "task_settled P w F X n (s\<lparr>rs_cancelled := True\<rparr>) = task_settled P w F X n s" for n
    by (intro ext) (simp add: task_settled_def calculation split: task_phase.splits)
  moreover have "run_left P w F X (s\<lparr>rs_cancelled := True\<rparr>) = run_left P w F X s"
    by (intro ext) (simp add: run_left_def)
  ultimately have "run_inv P w F X N s'" using inv unfolding step_cancel run_inv_def by (auto split: run_phase.splits)
  then show ?thesis using step_cancel by blast
next
  case (step_cancelled b tasks units n)
  then show ?thesis using run_inv_ended[of s' "Stopped Cancelled"] by auto
qed

text \<open>A run ends paused or stopped, in no other state.\<close>

lemma top_step_outcome:
  "rs_phase s = AtTop \<Longrightarrow> rs_phase (top_step P s) = Ended st \<Longrightarrow> st = Paused \<or> (\<exists>r. st = Stopped r)"
  by (auto simp: top_step_def end_flushed_def flushed_def Let_def split: option.splits prod.splits if_splits)

lemma run_step_outcome:
  assumes "run_step P s s'" "\<forall>st. rs_phase s = Ended st \<longrightarrow> st = Paused \<or> (\<exists>r. st = Stopped r)" "rs_phase s' = Ended st"
  shows "st = Paused \<or> (\<exists>r. st = Stopped r)"
  using assms(1)
proof cases
  case step_top
  then show ?thesis using top_step_outcome assms(3) by blast
next
  case step_cancel
  then show ?thesis using assms(2,3) by simp
qed (use assms(3) in auto)

lemma reachable_outcome:
  assumes "reachable P (start_run sh ing c) s" "rs_phase s = Ended st"
  shows "st = Paused \<or> (\<exists>r. st = Stopped r)"
proof -
  have "(run_step P)\<^sup>*\<^sup>* (start_run sh ing c) s" using assms(1) by (simp add: reachable_def)
  then have "\<forall>st. rs_phase s = Ended st \<longrightarrow> st = Paused \<or> (\<exists>r. st = Stopped r)"
    by (induction rule: rtranclp_induct) (simp add: start_run_def, blast dest: run_step_outcome)
  then show ?thesis using assms(2) by blast
qed

lemma start_run_inv:
  assumes su: "run_setup P (ws_steps (sh_work sh))"
  shows "run_inv P (ws_steps (sh_work sh)) (ws_finished_tables (sh_work sh)) X 0 (start_run sh ing c)"
proof (rule run_inv_AtTopI)
  fix t
  have "set (bounded_ids P t (ws_steps (sh_work sh))) \<subseteq> set (bounded_keys P (ws_steps (sh_work sh)))"
    using table_ids_subset by (auto simp: bounded_ids_def bounded_keys_def)
  then show "settled P (ws_steps (sh_work sh)) (ws_finished_tables (sh_work sh)) X 0 (start_run sh ing c)
      (t \<in> run_finished (start_run sh ing c)) t"
    by (simp add: settled_def start_run_def run_goal_def)
qed (use su in \<open>simp_all add: start_run_def run_setup_def\<close>)

lemma reachable_inv:
  assumes su: "run_setup P (ws_steps (sh_work sh))" and ne: "reads_nonempty P"
    and r: "reachable P (start_run sh ing c) s"
  shows "\<exists>N. run_inv P (ws_steps (sh_work sh)) (ws_finished_tables (sh_work sh)) X N s"
  using r unfolding reachable_def
  by (induction rule: rtranclp_induct) (blast intro: start_run_inv[OF su], blast dest: run_step_inv[OF su ne])

lemma reachable_left:
  assumes "run_setup P (ws_steps (sh_work sh))" "reads_nonempty P" "reachable P (start_run sh ing c) s"
    and "rs_phase s = Ended st" "st = Paused \<or> st = Stopped Completed"
  shows "wf_steps (run_steps s)" "st = Paused \<longleftrightarrow> rp_max_batch_id P \<noteq> None" "run_left P (ws_steps (sh_work sh)) (ws_finished_tables (sh_work sh)) X s t"
  using reachable_inv[OF assms(1,2,3), of X] assms(4,5) by (auto simp: run_inv_def)

lemma run_left_delivered:
  "run_left P w F (\<lambda>_. []) s t \<Longrightarrow> t \<notin> F \<Longrightarrow> rs_delivered s t = due (rp_read P) t (bounded_ids P t w)"
  by (auto simp: run_left_def run_goal_def due_def data_of_def split: if_splits)

subsection \<open>Checkpoints are deterministic\<close>

text \<open>
  C5. A run that pauses has delivered, to every table not finished before, exactly the
  batches of its ids among the first \<open>limit\<close> steps of the plan (up to the end of the table),
  in ascending order, and has left its ids beyond the boundary in the plan. Neither the target
  batch size nor the interleaving of the tasks matters.
\<close>

theorem paused_run_delivers_checkpoint:
  assumes "run_setup P (ws_steps (sh_work sh))" "reads_nonempty P"
    and "reachable P (start_run sh ing c) s" "rs_phase s = Ended Paused"
    and "t \<notin> ws_finished_tables (sh_work sh)"
  shows "rs_delivered s t = due (rp_read P) t (bounded_ids P t (ws_steps (sh_work sh)))
     \<and> beyond_ids P t (run_steps s) = beyond_ids P t (ws_steps (sh_work sh))"
  using run_left_delivered[OF reachable_left(3)[OF assms(1-4)] assms(5)]
    reachable_left(3)[OF assms(1-4), of "\<lambda>_. []" t] by (simp add: run_left_def)

text \<open>
  C6. A run that completes has delivered every batch of the plan: to each table not finished
  before, all of its batches up to the end of the table, in ascending order of their ids.
\<close>

theorem completed_run_delivers_all:
  assumes "run_setup P (ws_steps (sh_work sh))" "reads_nonempty P" "rp_step_limit P = None"
    and "reachable P (start_run sh ing c) s" "rs_phase s = Ended (Stopped Completed)"
    and "t \<notin> ws_finished_tables (sh_work sh)"
  shows "rs_delivered s t = due (rp_read P) t (table_ids t (ws_steps (sh_work sh)))"
proof -
  have "rp_max_batch_id P = None" using assms(1,3) by (simp add: run_setup_def checkpoint_max_batch_id_def)
  then have "bounded_ids P t (ws_steps (sh_work sh)) = table_ids t (ws_steps (sh_work sh))"
    by (simp add: bounded_ids_def in_bound_def)
  then show ?thesis using run_left_delivered[OF reachable_left(3)[OF assms(1,2,4,5)] assms(6)] by simp
qed

end
