(* ===== verification/EtlLive.thy ===== *)
theory EtlLive
  imports EtlRun
begin

text \<open>
  Liveness of the background task: every schedule of a run ends, and with a storage, a sink and a
  flush that do not fail a run without cancellation pauses at its checkpoint or completes.
\<close>

subsection \<open>Every schedule ends\<close>

lemma run_step_cancelled_mono: "run_step P s s' \<Longrightarrow> rs_cancelled s \<Longrightarrow> rs_cancelled s'"
  by (erule run_step.cases)
    (auto simp: top_step_def end_flushed_def Let_def split: option.splits prod.splits)

definition live_order :: "((nat \<times> nat \<times> nat) \<times> (nat \<times> nat \<times> nat)) set" where
  "live_order = less_than <*lex*> less_than <*lex*> less_than"

lemma live_order_wf: "wf live_order"
  unfolding live_order_def by (intro wf_lex_prod wf_less_than)

definition live_rank :: "'s run_params \<Rightarrow> steps \<Rightarrow> nat \<Rightarrow> 's run_state \<Rightarrow> nat \<times> nat \<times> nat" where
  "live_rank P w N s = (length (bounded_keys P w) - N, run_rank s, if rs_cancelled s then 0 else 1)"

lemma run_inv_bound:
  "run_inv P w F X N s \<Longrightarrow> \<nexists>st. rs_phase s = Ended st \<Longrightarrow> N \<le> length (bounded_keys P w)"
  by (cases "rs_phase s") (auto simp: run_inv_def)

lemma schedule_ends:
  assumes su: "run_setup P w" and ne: "reads_nonempty P"
    and step: "\<And>n. (\<exists>st. rs_phase (\<sigma> n) = Ended st)
      \<or> run_step P (\<sigma> n) (\<sigma> (Suc n)) \<and> (rs_cancelled (\<sigma> n) \<longrightarrow> \<sigma> (Suc n) \<noteq> \<sigma> n)"
  shows "run_inv P w F X N (\<sigma> n) \<Longrightarrow> \<exists>m st. rs_phase (\<sigma> m) = Ended st"
proof (induction "live_rank P w N (\<sigma> n)" arbitrary: n N rule: wf_induct_rule[OF live_order_wf])
  case (1 n N)
  show ?case
  proof (cases "(\<exists>st. rs_phase (\<sigma> n) = Ended st) \<or> (\<exists>st. rs_phase (\<sigma> (Suc n)) = Ended st)")
    case True
    then show ?thesis by blast
  next
    case False
    then have r: "run_step P (\<sigma> n) (\<sigma> (Suc n))" "rs_cancelled (\<sigma> n) \<longrightarrow> \<sigma> (Suc n) \<noteq> \<sigma> n" using step by blast+
    obtain N' where N': "run_inv P w F X N' (\<sigma> (Suc n))" "N < N' \<or> N' = N
        \<and> (run_rank (\<sigma> (Suc n)) < run_rank (\<sigma> n) \<or> \<sigma> (Suc n) = (\<sigma> n)\<lparr>rs_cancelled := True\<rparr>)"
      using run_step_inv[OF su ne r(1) 1(2)] False by blast
    have le: "N' \<le> length (bounded_keys P w)" using run_inv_bound[OF N'(1)] False by blast
    have "(live_rank P w N' (\<sigma> (Suc n)), live_rank P w N (\<sigma> n)) \<in> live_order"
    proof (cases "\<sigma> (Suc n) = (\<sigma> n)\<lparr>rs_cancelled := True\<rparr>")
      case True
      then have "\<not> rs_cancelled (\<sigma> n)" "run_rank (\<sigma> (Suc n)) = run_rank (\<sigma> n)"
        using r(2) by (auto simp: run_rank_def split: run_phase.splits)
      then show ?thesis using N'(2) True le by (auto simp: live_rank_def live_order_def)
    next
      case False
      then show ?thesis using N'(2) le by (auto simp: live_rank_def live_order_def)
    qed
    from 1(1)[OF this N'(1)] show ?thesis .
  qed
qed

subsection \<open>A scheduler\<close>

text \<open>One schedule among the many: always the first task of the step, chunks written in order.\<close>

definition in_order :: chunk_schedule where
  "in_order = \<lparr>sch_order = (\<lambda>_ cs. cs), sch_late = (\<lambda>_. 0)\<rparr>"

lemma in_order_fair: "\<forall>k. fair_order in_order"
  by (simp add: fair_order_def in_order_def)

definition next_step :: "'s run_params \<Rightarrow> 's run_state \<Rightarrow> 's run_state" where
  "next_step P s = (case rs_phase s of
     AtTop \<Rightarrow> top_step P s
   | InStep b [] units n \<Rightarrow> s\<lparr>rs_phase := AtTop, rs_outer_steps := rs_outer_steps s + 1,
            rs_batches_processed := rs_batches_processed s + units, rs_rows_processed := rs_rows_processed s + n,
            rs_shared := (rs_shared s)\<lparr>sh_logical_steps := (sh_logical_steps (rs_shared s) + 1) mod 2 ^ 64\<rparr>\<rparr>
   | InStep b ((t, ph) # tasks) units n \<Rightarrow>
       (case ph of
          TReading tt \<Rightarrow> (case task_step (rp_read P) (rp_target P) 0 tt (rs_shared s) of
            (st, sh) \<Rightarrow> s\<lparr>rs_shared := sh, rs_phase := InStep b ((t, after_read st) # tasks) units n\<rparr>)
        | TWriting batches keys finished u m \<Rightarrow>
            (let w = task_writes P t b 0 (\<lambda>_. in_order) keys batches (rs_ingest s)
             in case fst w of
                  None \<Rightarrow> s\<lparr>rs_phase := InStep b ((t, TReturned finished u m) # tasks) units n, rs_ingest := snd w,
                            rs_delivered := (rs_delivered s)(t := rs_delivered s t @ batches)\<rparr>
                | Some e \<Rightarrow> s\<lparr>rs_phase := InStep b ((t, TFailed e) # tasks) units n, rs_ingest := snd w\<rparr>)
        | TReturned finished u m \<Rightarrow> s\<lparr>rs_phase := InStep b tasks (units + u) (n + m),
            rs_tables_finished := rs_tables_finished s + (if finished then 1 else 0),
            rs_shared := (rs_shared s)\<lparr>sh_work := (sh_work (rs_shared s))\<lparr>ws_finished_tables :=
               (if finished then insert t (ws_finished_tables (sh_work (rs_shared s)))
                else ws_finished_tables (sh_work (rs_shared s)))\<rparr>\<rparr>\<rparr>
        | TFailed e \<Rightarrow> s\<lparr>rs_phase := Ended (Stopped (Error e))\<rparr>)
   | Ended st \<Rightarrow> s)"

lemma next_step_run:
  assumes "\<not> rs_cancelled s"
  shows "(\<exists>st. rs_phase s = Ended st) \<or> run_step P s (next_step P s)"
proof (cases "rs_phase s")
  case AtTop
  then show ?thesis using step_top[of s P] by (simp add: next_step_def)
next
  case (InStep b tasks units n)
  show ?thesis
  proof (cases tasks)
    case Nil
    then show ?thesis using InStep assms step_all_joined[of s b units n P] by (simp add: next_step_def)
  next
    case (Cons e rest)
    obtain t ph where e: "e = (t, ph)" by (cases e)
    have ph: "rs_phase s = InStep b ((t, ph) # rest) units n" using InStep Cons e by simp
    show ?thesis
    proof (cases ph)
      case (TReading tt)
      obtain st sh where r: "task_step (rp_read P) (rp_target P) 0 tt (rs_shared s) = (st, sh)" by (metis prod.collapse)
      show ?thesis using step_read[OF ph, of 0 tt P 0 st sh] TReading ph r by (simp add: next_step_def set_task_def)
    next
      case (TWriting bs ks f u m)
      obtain o' ing where w: "task_writes P t b 0 (\<lambda>_. in_order) ks bs (rs_ingest s) = (o', ing)" by (metis prod.collapse)
      have i: "0 < length ((t, ph) # rest)" "((t, ph) # rest) ! 0 = (t, TWriting bs ks f u m)" by (simp_all add: TWriting)
      show ?thesis
      proof (cases o')
        case None
        have "next_step P s = s\<lparr>rs_phase := InStep b (set_task 0 (TReturned f u m) ((t, ph) # rest)) units n, rs_ingest := ing,
            rs_delivered := (rs_delivered s)(t := rs_delivered s t @ bs)\<rparr>"
          by (simp add: next_step_def ph TWriting w None set_task_def)
        then show ?thesis using step_write[OF ph i w[unfolded None] in_order_fair] by simp
      next
        case (Some e)
        have "next_step P s = s\<lparr>rs_phase := InStep b (set_task 0 (TFailed e) ((t, ph) # rest)) units n, rs_ingest := ing\<rparr>"
          by (simp add: next_step_def ph TWriting w Some set_task_def)
        then show ?thesis using step_write_error[OF ph i w[unfolded Some] in_order_fair] by simp
      qed
    next
      case (TReturned f u m)
      then show ?thesis using step_join[OF ph assms, of 0 t f u m P] ph by (simp add: next_step_def remove_task_def)
    next
      case (TFailed e)
      then show ?thesis using step_join_error[OF ph assms, of 0 t e P] ph by (simp add: next_step_def)
    qed
  qed
next
  case (Ended st)
  then show ?thesis by simp
qed

lemma next_step_cancelled: "rs_cancelled (next_step P s) = rs_cancelled s"
  by (auto simp: next_step_def top_step_def end_flushed_def Let_def split: run_phase.splits task_phase.splits list.splits
      option.splits prod.splits)

lemma next_steps_cancelled: "rs_cancelled ((next_step P ^^ k) s) = rs_cancelled s"
  by (induction k) (simp_all add: next_step_cancelled)

lemma next_step_ended: "rs_phase s = Ended st \<Longrightarrow> next_step P s = s"
  by (simp add: next_step_def)

lemma next_steps_reachable:
  assumes "\<not> rs_cancelled s"
  shows "reachable P s ((next_step P ^^ k) s)"
proof (induction k)
  case 0
  then show ?case by (simp add: reachable_def)
next
  case (Suc k)
  have "\<not> rs_cancelled ((next_step P ^^ k) s)" using assms by (simp add: next_steps_cancelled)
  then show ?case using Suc next_step_run[of "(next_step P ^^ k) s" P] next_step_ended unfolding reachable_def
    by (metis (no_types, lifting) funpow.simps(2) comp_apply rtranclp.rtrancl_into_rtrancl)
qed

subsection \<open>Runs without failures\<close>

definition read_batches :: "'s run_params \<Rightarrow> string \<Rightarrow> record_batch set" where
  "read_batches P t = {b. \<exists>k r. rp_read P t k = Inr (Some r) \<and> b \<in> set (rr_batches r)}"

text \<open>No read fails, no write of what was read fails, whatever the order its chunks complete in, no flush fails.\<close>

definition faultless :: "'s run_params \<Rightarrow> bool" where
  "faultless P \<longleftrightarrow> (\<forall>t k. \<exists>r. rp_read P t k = Inr r) \<and> (\<forall>sk. fst (rp_flush P sk) = None)
     \<and> (\<forall>t b ts schs ks bs ing. set bs \<subseteq> read_batches P t \<longrightarrow> (\<forall>k. fair_order (schs k))
          \<longrightarrow> fst (task_writes P t b ts schs ks bs ing) = None)"

text \<open>A quiet step: no task panics and the token is not cancelled.\<close>

definition quiet_step :: "'s run_params \<Rightarrow> 's run_state \<Rightarrow> 's run_state \<Rightarrow> bool" where
  "quiet_step P s s' \<longleftrightarrow> run_step P s s' \<and> \<not> rs_cancelled s'
     \<and> (\<forall>e. rs_phase s' \<noteq> Ended (Stopped (Error (''Task panicked: '' @ e))))"

definition healthy :: "'s run_params \<Rightarrow> 's run_state \<Rightarrow> bool" where
  "healthy P s \<longleftrightarrow> (case rs_phase s of
     AtTop \<Rightarrow> True
   | InStep b tasks units n \<Rightarrow> (\<forall>(t, ph) \<in> set tasks. \<forall>e. ph \<noteq> TFailed e)
   | Ended st \<Rightarrow> st = Paused \<and> rp_step_limit P \<noteq> None \<or> st = Stopped Completed \<and> rp_max_batch_id P = None)"

lemma data_of_read_batches:
  "list_all (has_data (rp_read P) t) fin \<Longrightarrow> set (data_of (rp_read P) t fin) \<subseteq> read_batches P t"
  by (fastforce simp: data_of_def read_batches_def list_all_iff has_data_def result_of_def)

lemma end_flushed_healthy:
  assumes "faultless P" "st = Paused \<and> rp_step_limit P \<noteq> None \<or> st = Stopped Completed \<and> rp_max_batch_id P = None"
  shows "healthy P (end_flushed P msg st s)"
proof -
  obtain sk where "rp_flush P (is_sink (rs_ingest s)) = (None, sk)" using assms(1) by (metis faultless_def prod.collapse)
  then show ?thesis using assms(2) by (simp add: healthy_def end_flushed_def flushed_def)
qed

lemma top_step_healthy:
  assumes "faultless P" "run_setup P w" "\<not> rs_cancelled s" "rs_phase s = AtTop"
  shows "healthy P (top_step P s)"
proof -
  have lim: "rp_step_limit P \<noteq> None" if "rp_max_batch_id P = Some m" for m
    using assms(2) that by (auto simp: run_setup_def checkpoint_max_batch_id_def split: option.splits)
  show ?thesis using assms(3,4) lim
    by (auto simp: top_step_def Let_def intro!: end_flushed_healthy[OF assms(1)] split: option.splits prod.splits)
      (auto simp: healthy_def)
qed

lemma run_step_healthy:
  assumes f: "faultless P" and su: "run_setup P w" and inv: "run_inv P w F X N s"
    and h: "healthy P s" and step: "quiet_step P s s'"
  shows "healthy P s'"
proof -
  have r: "run_step P s s'" and c': "\<not> rs_cancelled s'" and np: "\<And>e. rs_phase s' \<noteq> Ended (Stopped (Error (''Task panicked: '' @ e)))"
    using step by (auto simp: quiet_step_def)
  have c: "\<not> rs_cancelled s" using run_step_cancelled_mono[OF r] c' by blast
  have keep: "healthy P s2" if ph: "rs_phase s = InStep b tasks units n" and i: "i < length tasks"
    and s2: "rs_phase s2 = InStep b (set_task i ph' tasks) units n" and ph': "\<forall>e. ph' \<noteq> TFailed e" for b tasks units n i s2 ph'
  proof -
    have "set (set_task i ph' tasks) \<subseteq> insert (fst (tasks ! i), ph') (set tasks)"
      unfolding set_task_def by (rule set_update_subset_insert)
    then show ?thesis using h ph s2 ph' by (fastforce simp: healthy_def)
  qed
  show ?thesis using r
  proof cases
    case step_top
    then show ?thesis using top_step_healthy[OF f su c] by simp
  next
    case (step_read b tasks units n i tt cc st sh)
    obtain t where t: "tasks ! i = (t, TReading tt)" using step_read(4) by (metis prod.collapse)
    have "task_settled P w F X N s t (TReading tt)"
      using run_inv_InStepE(5)[OF inv step_read(2)] step_read(3) t by (metis nth_mem)
    then obtain I where "task_ok (rp_read P) (rp_target P) I (beyond_ids P t w) tt (run_steps s)"
      by (auto simp: task_settled_def)
    note spec = task_step_spec[OF this step_read(5)]
    have "st \<noteq> ReadErr e" for e
    proof
      assume "st = ReadErr e"
      then obtain k where "rp_read P (tt_table tt) k = Inl e" using spec by auto
      moreover obtain r where "rp_read P (tt_table tt) k = Inr r" using f unfolding faultless_def by blast
      ultimately show False by simp
    qed
    then have "\<forall>e. after_read st \<noteq> TFailed e" by (auto simp: after_read_def split: task_status.splits)
    then show ?thesis using keep[OF step_read(2,3)] step_read(1) by simp
  next
    case (step_write b tasks units n i t batches keys finished u m ts schs ing)
    then show ?thesis using keep[OF step_write(2,3)] by simp
  next
    case (step_write_error b tasks units n i t bs ks fi u m ts schs e ing)
    have "task_settled P w F X N s t (TWriting bs ks fi u m)"
      using run_inv_InStepE(5)[OF inv step_write_error(2)] step_write_error(3,4) by (metis nth_mem)
    then obtain fin where "list_all (has_data (rp_read P) t) fin" "bs = data_of (rp_read P) t fin"
      by (auto simp: task_settled_def task_post_def)
    then have "fst (task_writes P t b ts schs ks bs (rs_ingest s)) = None"
      using f data_of_read_batches step_write_error(6) unfolding faultless_def by metis
    then show ?thesis using step_write_error(5) by simp
  next
    case (step_join b tasks units n i t finished u m)
    then show ?thesis using h by (auto simp: healthy_def remove_task_def dest: in_set_takeD in_set_dropD)
  next
    case (step_join_error b tasks units n i t e)
    then have "(t, TFailed e) \<in> set tasks" by (metis nth_mem)
    then show ?thesis using h step_join_error(2) by (auto simp: healthy_def)
  next
    case (step_panic b tasks units n e)
    then have "rs_phase s' = Ended (Stopped (Error (''Task panicked: '' @ e)))" by simp
    then show ?thesis using np by blast
  next
    case step_all_joined
    then show ?thesis by (simp add: healthy_def)
  next
    case step_cancel
    then show ?thesis using c' by simp
  next
    case step_cancelled
    then show ?thesis using c by simp
  qed
qed

text \<open>No deadlock: a run that has not ended can take a quiet step.\<close>

lemma quiet_progress:
  assumes "faultless P" "run_setup P w" "\<not> rs_cancelled s" "healthy P s" "\<nexists>st. rs_phase s = Ended st"
  shows "quiet_step P s (next_step P s)"
proof -
  have "rs_phase (next_step P s) \<noteq> Ended (Stopped (Error e))" for e
  proof (cases "rs_phase s")
    case AtTop
    then show ?thesis using top_step_healthy[OF assms(1,2,3) AtTop] by (auto simp: next_step_def healthy_def)
  next
    case (InStep b tasks units n)
    then show ?thesis using assms(4)
      by (auto simp: next_step_def healthy_def Let_def split: list.splits prod.splits task_phase.splits option.splits)
  qed (use assms(5) in blast)
  then show ?thesis using next_step_run[OF assms(3), of P] assms(3,5)
    by (auto simp: quiet_step_def next_step_cancelled)
qed

subsection \<open>Fair schedules\<close>

text \<open>
  A schedule of the steps of a system, with idle calls and pauses in between: as long as a step is
  possible, one is taken again and again.
\<close>

definition fair_schedule :: "('a \<Rightarrow> 'a \<Rightarrow> bool) \<Rightarrow> ('a \<Rightarrow> 'a \<Rightarrow> bool) \<Rightarrow> (nat \<Rightarrow> 'a) \<Rightarrow> bool" where
  "fair_schedule step idle \<sigma> \<longleftrightarrow>
     (\<forall>k. step (\<sigma> k) (\<sigma> (Suc k)) \<or> idle (\<sigma> k) (\<sigma> (Suc k)) \<or> \<sigma> (Suc k) = \<sigma> k)
     \<and> (\<forall>k. \<exists>j \<ge> k. step (\<sigma> j) (\<sigma> (Suc j)) \<or> (\<nexists>s'. step (\<sigma> j) s'))"

lemma fair_schedule_arrives:
  assumes fair: "fair_schedule step idle \<sigma>" and wf: "wf r"
    and step: "\<And>x s s'. J x s \<Longrightarrow> step s s' \<Longrightarrow> \<exists>x'. J x' s' \<and> (rank x' s', rank x s) \<in> r"
    and idle: "\<And>x s s'. J x s \<Longrightarrow> idle s s' \<Longrightarrow> J x s' \<and> rank x s' = rank x s"
    and stuck: "\<And>x s. J x s \<Longrightarrow> \<nexists>s'. step s s' \<Longrightarrow> Q s"
  shows "J x (\<sigma> n) \<Longrightarrow> \<exists>k. Q (\<sigma> k)"
proof (induction "rank x (\<sigma> n)" arbitrary: x n rule: wf_induct_rule[OF wf])
  case (1 x n)
  define live where "live j \<longleftrightarrow> step (\<sigma> j) (\<sigma> (Suc j)) \<or> (\<nexists>s'. step (\<sigma> j) s')" for j
  have "\<exists>j \<ge> n. live j" using fair unfolding fair_schedule_def live_def by blast
  then have "\<exists>j. live (n + j)" by (metis le_Suc_ex)
  then obtain j where j: "live (n + j)" "\<And>i. i < j \<Longrightarrow> \<not> live (n + i)" using exists_least_iff[of "\<lambda>j. live (n + j)"] by blast
  have quiet: "J x (\<sigma> (n + i)) \<and> rank x (\<sigma> (n + i)) = rank x (\<sigma> n)" if "i \<le> j" for i
    using that
  proof (induction i)
    case 0
    then show ?case using 1(2) by simp
  next
    case (Suc i)
    then have "\<not> live (n + i)" "J x (\<sigma> (n + i))" "rank x (\<sigma> (n + i)) = rank x (\<sigma> n)" using j(2)[of i] by auto
    moreover from this(1) have "idle (\<sigma> (n + i)) (\<sigma> (Suc (n + i))) \<or> \<sigma> (Suc (n + i)) = \<sigma> (n + i)"
      using fair unfolding fair_schedule_def live_def by blast
    ultimately show ?case using idle[of x "\<sigma> (n + i)" "\<sigma> (Suc (n + i))"] by auto
  qed
  from quiet[of j] have J: "J x (\<sigma> (n + j))" "rank x (\<sigma> (n + j)) = rank x (\<sigma> n)" by auto
  show ?case
  proof (cases "step (\<sigma> (n + j)) (\<sigma> (Suc (n + j)))")
    case True
    obtain x' where x': "J x' (\<sigma> (Suc (n + j)))" "(rank x' (\<sigma> (Suc (n + j))), rank x (\<sigma> (n + j))) \<in> r"
      using step[OF J(1) True] by blast
    from 1(1)[OF x'(2)[unfolded J(2)] x'(1)] show ?thesis .
  next
    case False
    then show ?thesis using j(1) stuck[OF J(1)] unfolding live_def by blast
  qed
qed

subsection \<open>Faultless runs arrive\<close>

definition run_live :: "'s run_params \<Rightarrow> steps \<Rightarrow> string set \<Rightarrow> nat \<Rightarrow> 's run_state \<Rightarrow> bool" where
  "run_live P w F N s \<longleftrightarrow> run_inv P w F (\<lambda>_. []) N s \<and> healthy P s \<and> \<not> rs_cancelled s"

definition run_stage :: "'s run_params \<Rightarrow> steps \<Rightarrow> nat \<Rightarrow> 's run_state \<Rightarrow> nat \<times> nat \<times> nat \<times> nat" where
  "run_stage P w N s = (case rs_phase s of Ended _ \<Rightarrow> (0, 0, 0, 0) | _ \<Rightarrow> (1, live_rank P w N s))"

abbreviation stage_order :: "((nat \<times> nat \<times> nat \<times> nat) \<times> (nat \<times> nat \<times> nat \<times> nat)) set" where
  "stage_order \<equiv> less_than <*lex*> live_order"

lemma stage_order_wf: "wf stage_order"
  by (intro wf_lex_prod wf_less_than live_order_wf)

lemma run_stage_ended: "rs_phase s = Ended st \<Longrightarrow> run_stage P w N s = (0, 0, 0, 0)"
  by (simp add: run_stage_def)

lemma run_stage_running: "\<nexists>st. rs_phase s = Ended st \<Longrightarrow> run_stage P w N s = (1, live_rank P w N s)"
  by (cases "rs_phase s") (simp_all add: run_stage_def)

lemma quiet_not_ended: "quiet_step P s s' \<Longrightarrow> \<nexists>st. rs_phase s = Ended st"
  unfolding quiet_step_def by (auto elim: run_step_cases)

lemma quiet_step_live:
  assumes f: "faultless P" and su: "run_setup P w" and ne: "reads_nonempty P" and J: "run_live P w F N s"
    and q: "quiet_step P s s'"
  shows "\<exists>N'. run_live P w F N' s' \<and> (run_stage P w N' s', run_stage P w N s) \<in> stage_order"
proof -
  have s: "run_step P s s'" "\<not> rs_cancelled s'" using q by (auto simp: quiet_step_def)
  have inv: "run_inv P w F (\<lambda>_. []) N s" "healthy P s" "\<not> rs_cancelled s" using J by (auto simp: run_live_def)
  note run = run_stage_running[OF quiet_not_ended[OF q]]
  have h: "healthy P s'" by (rule run_step_healthy[OF f su inv(1,2) q])
  obtain N' where N': "run_inv P w F (\<lambda>_. []) N' s'" "(\<exists>st. rs_phase s' = Ended st) \<or> N < N'
      \<or> N' = N \<and> (run_rank s' < run_rank s \<or> s' = s\<lparr>rs_cancelled := True\<rparr>)"
    using run_step_inv[OF su ne s(1) inv(1)] by blast
  have "(run_stage P w N' s', run_stage P w N s) \<in> stage_order"
  proof (cases "\<exists>st. rs_phase s' = Ended st")
    case True
    then show ?thesis by (auto simp: run run_stage_ended)
  next
    case False
    have "N' \<le> length (bounded_keys P w)" using run_inv_bound[OF N'(1)] False by blast
    moreover have "s' \<noteq> s\<lparr>rs_cancelled := True\<rparr>" using s(2) by auto
    ultimately show ?thesis using False N'(2) by (auto simp: run run_stage_running live_rank_def live_order_def)
  qed
  then show ?thesis using N'(1) h s(2) by (auto simp: run_live_def)
qed

lemma start_run_live:
  assumes "run_setup P (ws_steps (sh_work sh))"
  shows "run_live P (ws_steps (sh_work sh)) (ws_finished_tables (sh_work sh)) 0 (start_run sh ing False)"
  using start_run_inv[OF assms] by (simp add: run_live_def healthy_def start_run_def)

text \<open>The state a faultless run has to end in: it pauses at a limit within the plan, and else completes.\<close>

definition run_target :: "'s run_params \<Rightarrow> steps \<Rightarrow> PipelineState" where
  "run_target P w = (case rp_step_limit P of
     Some limit \<Rightarrow> if limit \<le> length w then Paused else Stopped Completed
   | None \<Rightarrow> Stopped Completed)"

lemma run_live_ended:
  assumes "run_setup P w" "run_live P w F N s" "rs_phase s = Ended st"
  shows "st = run_target P w"
proof -
  have "st = Paused \<or> st = Stopped Completed" "st = Paused \<longleftrightarrow> rp_max_batch_id P \<noteq> None"
    using assms(2,3) by (auto simp: run_live_def run_inv_def healthy_def)
  moreover have "rp_max_batch_id P = checkpoint_max_batch_id (rp_step_limit P) w" "rp_step_limit P \<noteq> Some 0"
    using assms(1) by (auto simp: run_setup_def)
  ultimately show ?thesis
    by (auto simp: run_target_def checkpoint_max_batch_id_def split: option.splits if_splits)
qed

lemma faultless_arrives:
  assumes su: "run_setup P (ws_steps (sh_work sh))" and ne: "reads_nonempty P" and f: "faultless P"
    and \<sigma>: "\<sigma> 0 = start_run sh ing False" "fair_schedule (quiet_step P) (\<lambda>_ _. False) \<sigma>"
  shows "\<exists>k. rs_phase (\<sigma> k) = Ended (run_target P (ws_steps (sh_work sh)))"
proof (rule fair_schedule_arrives[OF \<sigma>(2) stage_order_wf, where n = 0 and x = 0
      and J = "run_live P (ws_steps (sh_work sh)) (ws_finished_tables (sh_work sh))"])
  fix N s s'
  assume J: "run_live P (ws_steps (sh_work sh)) (ws_finished_tables (sh_work sh)) N s"
  show "quiet_step P s s' \<Longrightarrow> \<exists>N'. run_live P (ws_steps (sh_work sh)) (ws_finished_tables (sh_work sh)) N' s'
     \<and> (run_stage P (ws_steps (sh_work sh)) N' s', run_stage P (ws_steps (sh_work sh)) N s) \<in> stage_order"
    by (rule quiet_step_live[OF f su ne J])
  assume "\<nexists>s'. quiet_step P s s'"
  then obtain st where "rs_phase s = Ended st" using quiet_progress[OF f su] J by (auto simp: run_live_def)
  then show "rs_phase s = Ended (run_target P (ws_steps (sh_work sh)))" using run_live_ended[OF su J] by simp
qed (simp_all add: \<sigma>(1) start_run_live[OF su])

text \<open>The scheduler of the previous section takes only quiet steps and is fair.\<close>

lemma next_steps_live:
  assumes su: "run_setup P (ws_steps (sh_work sh))" and ne: "reads_nonempty P" and f: "faultless P"
  shows "\<exists>N. run_live P (ws_steps (sh_work sh)) (ws_finished_tables (sh_work sh)) N
    ((next_step P ^^ k) (start_run sh ing False))" (is "\<exists>N. ?J N (?s k)")
proof (induction k)
  case 0
  then show ?case using start_run_live[OF su] by auto
next
  case (Suc k)
  then obtain N where N: "?J N (?s k)" by blast
  show ?case
  proof (cases "\<exists>st. rs_phase (?s k) = Ended st")
    case True
    then show ?thesis using N by (auto simp: next_step_ended)
  next
    case False
    then have "quiet_step P (?s k) (?s (Suc k))" using quiet_progress[OF f su] N by (auto simp: run_live_def)
    from quiet_step_live[OF f su ne N this] show ?thesis by blast
  qed
qed

lemma next_steps_fair:
  assumes su: "run_setup P (ws_steps (sh_work sh))" and ne: "reads_nonempty P" and f: "faultless P"
  shows "fair_schedule (quiet_step P) (\<lambda>_ _. False) (\<lambda>k. (next_step P ^^ k) (start_run sh ing False))"
proof -
  let ?s = "\<lambda>k. (next_step P ^^ k) (start_run sh ing False)"
  have "quiet_step P (?s k) (?s (Suc k)) \<or> ?s (Suc k) = ?s k \<and> (\<nexists>s'. quiet_step P (?s k) s')" for k
  proof (cases "\<exists>st. rs_phase (?s k) = Ended st")
    case True
    then show ?thesis using quiet_not_ended by (fastforce simp: next_step_ended)
  next
    case False
    then show ?thesis using quiet_progress[OF f su] next_steps_live[OF assms, of k ing] by (auto simp: run_live_def)
  qed
  then show ?thesis unfolding fair_schedule_def by (metis order_refl)
qed

lemma next_steps_end:
  assumes su: "run_setup P (ws_steps (sh_work sh))" and ne: "reads_nonempty P" and f: "faultless P"
  shows "\<exists>k. rs_phase ((next_step P ^^ k) (start_run sh ing False)) = Ended (run_target P (ws_steps (sh_work sh)))"
  using faultless_arrives[OF assms _ next_steps_fair[OF assms], of ing] by simp

text \<open>
  C4. A run ends. Whatever the order in which tasks read, write and are joined, whatever fails
  and whenever the token is cancelled, after finitely many steps the run has paused or stopped;
  the only step that changes nothing, cancelling a cancelled token, is left out of the schedule.
\<close>

theorem every_run_ends:
  assumes "run_setup P (ws_steps (sh_work sh))" "reads_nonempty P" "\<sigma> 0 = start_run sh ing c"
    and "\<And>n. (\<exists>st. rs_phase (\<sigma> n) = Ended st)
      \<or> run_step P (\<sigma> n) (\<sigma> (Suc n)) \<and> (rs_cancelled (\<sigma> n) \<longrightarrow> \<sigma> (Suc n) \<noteq> \<sigma> n)"
  shows "\<exists>n st. rs_phase (\<sigma> n) = Ended st"
  using schedule_ends[where \<sigma> = \<sigma> and n = 0, OF assms(1,2,4)] start_run_inv[OF assms(1)] assms(3) by metis

text \<open>
  C8. A faultless run arrives. With a storage, a sink and a flush that do not fail, every schedule
  of a run in which no task panics and nobody cancels, and in which some step is taken as long
  as one is possible, ends in the state the limit asks for: it pauses when the limit lies within
  the plan, and completes when there is no limit or the plan is shorter. The order in which tasks
  read, write and are joined does not matter, and no such run gets stuck before.
\<close>

theorem faultless_run_arrives:
  assumes "run_setup P (ws_steps (sh_work sh))" "reads_nonempty P" "faultless P"
    and "\<sigma> 0 = start_run sh ing False" "fair_schedule (quiet_step P) (\<lambda>_ _. False) \<sigma>"
  shows "\<exists>k. rs_phase (\<sigma> k) = Ended (case rp_step_limit P of
       Some limit \<Rightarrow> if limit \<le> length (ws_steps (sh_work sh)) then Paused else Stopped Completed
     | None \<Rightarrow> Stopped Completed)"
  using faultless_arrives[OF assms] by (simp add: run_target_def)

subsection \<open>A small run\<close>

text \<open>Two steps of one table, run with a limit of one step and without a limit.\<close>

definition demo_shared :: shared_state where
  "demo_shared = \<lparr>sh_work = \<lparr>ws_steps = [(2, [''a'']), (3, [''a''])], ws_finished_tables = {}\<rparr>, sh_logical_steps = 0\<rparr>"

definition demo_params :: "nat option \<Rightarrow> nat \<Rightarrow> write_call list run_params" where
  "demo_params limit target = \<lparr>rp_read = (\<lambda>t k. Inr (sample_reads k)), rp_target = target, rp_step_limit = limit,
     rp_max_batch_id = checkpoint_max_batch_id limit (ws_steps (sh_work demo_shared)),
     rp_kernels = list_kernels, rp_sink = trace_sink, rp_flush = (\<lambda>sk. (None, sk)), rp_mutations = sample_mutations,
     rp_output_schema = (\<lambda>_. schema_with_created_at (schema_without_internal_columns sample_schema)),
     rp_partition_columns = (\<lambda>_. [CREATED_AT_COLUMN]), rp_chunk_rows = 100\<rparr>"

lemma demo_setup: "limit \<noteq> Some 0 \<Longrightarrow> 0 < target \<Longrightarrow> run_setup (demo_params limit target) (ws_steps (sh_work demo_shared))"
  by (simp add: run_setup_def demo_params_def demo_shared_def)

lemma demo_nonempty: "reads_nonempty (demo_params limit target)"
  by (simp add: reads_nonempty_def demo_params_def sample_reads_def sample_result_def)


text \<open>Reads of well-formed change batches, with correct kernels and an accepting sink, are faultless.\<close>

lemma faultless_intro:
  assumes "kernels_ok (rp_kernels P)" "accepts (rp_sink P)" "0 < rp_target P"
    and "\<not> (update_ratio (rp_mutations P) = 0 \<and> delete_ratio (rp_mutations P) = 0)"
    and rd: "\<And>t k. \<exists>r. rp_read P t k = Inr r" and fl: "\<And>sk. fst (rp_flush P sk) = None"
    and b: "\<And>t b. b \<in> read_batches P t \<Longrightarrow> op_batch b \<and> rb_schema b = sc t"
    and out: "\<And>t. rp_output_schema P t = schema_with_created_at (schema_without_internal_columns (sc t))"
  shows "faultless P"
proof -
  have "fst (task_writes P t b ts schs ks bs ing) = None"
    if bs: "set bs \<subseteq> read_batches P t" and sch: "\<And>k. fair_order (schs k)" for t b ts schs ks bs ing
  proof -
    have "list_all (\<lambda>b. op_batch b \<and> rb_schema b = sc t) bs" using b bs by (auto simp: list_all_iff)
    moreover have "ctx_output_schema (run_ctx P t b ts) = schema_with_created_at (schema_without_internal_columns (sc t))"
      by (simp add: run_ctx_def out)
    ultimately obtain st' where "write_source_batches (rp_kernels P) (rp_target P) (rp_sink P) (run_ctx P t b ts) schs ks
        (rp_mutations P) bs ing = (None, st')"
      using write_source_batches_ok[OF assms(1,2) _ assms(3) _ _ assms(4), where st = ing and key_columns = ks and schs = schs] sch by blast
    then show ?thesis by (simp add: task_writes_def)
  qed
  then show ?thesis using rd fl unfolding faultless_def by blast
qed

lemma demo_faultless:
  assumes "0 < target"
  shows "faultless (demo_params limit target)"
proof (rule faultless_intro[where sc = "\<lambda>_. sample_schema"])
  fix t b
  assume "b \<in> read_batches (demo_params limit target) t"
  then have "b = sample_batch"
    by (auto simp: read_batches_def demo_params_def sample_reads_def sample_result_def split: if_splits)
  then show "op_batch b \<and> rb_schema b = sample_schema" using sample_batch_ok by (simp add: sample_batch_def)
qed (use assms list_kernels_ok trace_sink_accepts in \<open>simp_all add: demo_params_def sample_mutations_def\<close>)

theorem every_run_ends_witness:
  "\<exists>n st. rs_phase ((next_step (demo_params None 100) ^^ n) (start_run demo_shared empty_ingest False)) = Ended st"
proof (rule every_run_ends[OF demo_setup demo_nonempty])
  fix n
  let ?s = "\<lambda>n. (next_step (demo_params None 100) ^^ n) (start_run demo_shared empty_ingest False)"
  have "\<not> rs_cancelled (?s n)" by (simp add: next_steps_cancelled start_run_def)
  then show "(\<exists>st. rs_phase (?s n) = Ended st)
      \<or> run_step (demo_params None 100) (?s n) (?s (Suc n)) \<and> (rs_cancelled (?s n) \<longrightarrow> ?s (Suc n) \<noteq> ?s n)"
    using next_step_run[of "?s n" "demo_params None 100"] by simp
qed simp_all

theorem faultless_run_arrives_witness:
  "\<exists>k. rs_phase ((next_step (demo_params (Some 1) 100) ^^ k) (start_run demo_shared empty_ingest False)) = Ended Paused"
  using faultless_run_arrives[OF demo_setup demo_nonempty demo_faultless _ next_steps_fair[OF demo_setup demo_nonempty demo_faultless],
      of "Some 1" 100 empty_ingest]
  by (simp add: demo_params_def demo_shared_def)

lemma demo_arrives:
  assumes "limit \<noteq> Some 0" "0 < target"
  shows "\<exists>s. reachable (demo_params limit target) (start_run demo_shared ing False) s
     \<and> (limit = None \<longrightarrow> rs_phase s = Ended (Stopped Completed)) \<and> (limit = Some 1 \<longrightarrow> rs_phase s = Ended Paused)"
proof -
  let ?P = "demo_params limit target"
  obtain k where k: "rs_phase ((next_step ?P ^^ k) (start_run demo_shared ing False)) = Ended (run_target ?P (ws_steps (sh_work demo_shared)))"
    using next_steps_end[OF demo_setup[OF assms] demo_nonempty demo_faultless[OF assms(2)]] by blast
  then show ?thesis
    by (intro exI[of _ "(next_step ?P ^^ k) (start_run demo_shared ing False)"] conjI next_steps_reachable)
      (auto simp: start_run_def run_target_def demo_params_def demo_shared_def)
qed

theorem paused_run_delivers_checkpoint_witness:
  "\<exists>s. reachable (demo_params (Some 1) 4) (start_run demo_shared empty_ingest False) s \<and> rs_phase s = Ended Paused
     \<and> rs_delivered s ''a'' = [sample_batch] \<and> beyond_ids (demo_params (Some 1) 4) ''a'' (run_steps s) = [3]"
proof -
  let ?P = "demo_params (Some 1) 4"
  obtain s where s: "reachable ?P (start_run demo_shared empty_ingest False) s" "rs_phase s = Ended Paused"
    using demo_arrives[of "Some 1" 4 empty_ingest] by auto
  have su: "run_setup ?P (ws_steps (sh_work demo_shared))" by (rule demo_setup) simp_all
  have "''a'' \<notin> ws_finished_tables (sh_work demo_shared)" by (simp add: demo_shared_def)
  note del = paused_run_delivers_checkpoint[OF su demo_nonempty s this]
  have "bounded_ids ?P ''a'' (ws_steps (sh_work demo_shared)) = [2]" "beyond_ids ?P ''a'' (ws_steps (sh_work demo_shared)) = [3]"
    by (simp_all add: bounded_ids_def beyond_ids_def demo_params_def checkpoint_max_batch_id_def demo_shared_def in_bound_def)
  moreover have "due (rp_read ?P) ''a'' [2] = [sample_batch]"
    by (simp add: due_def has_data_def demo_params_def sample_reads_def data_of_def result_of_def sample_result_def)
  ultimately show ?thesis using del s by (intro exI[of _ s]) simp
qed

theorem completed_run_delivers_all_witness:
  "\<exists>s. reachable (demo_params None 100) (start_run demo_shared empty_ingest False) s \<and> rs_phase s = Ended (Stopped Completed)
     \<and> rs_delivered s ''a'' = [sample_batch, sample_batch]"
proof -
  let ?P = "demo_params None 100"
  obtain s where s: "reachable ?P (start_run demo_shared empty_ingest False) s" "rs_phase s = Ended (Stopped Completed)"
    using demo_arrives[of None 100 empty_ingest] by auto
  have su: "run_setup ?P (ws_steps (sh_work demo_shared))" by (rule demo_setup) simp_all
  have lim: "rp_step_limit ?P = None" "''a'' \<notin> ws_finished_tables (sh_work demo_shared)"
    by (simp_all add: demo_params_def demo_shared_def)
  note del = completed_run_delivers_all[OF su demo_nonempty lim(1) s lim(2)]
  have "due (rp_read ?P) ''a'' (table_ids ''a'' (ws_steps (sh_work demo_shared))) = [sample_batch, sample_batch]"
    by (simp add: due_def has_data_def demo_params_def demo_shared_def sample_reads_def data_of_def result_of_def sample_result_def)
  then show ?thesis using del s by (intro exI[of _ s]) simp
qed

end
