(* ===== verification/EtlPipeline.thy ===== *)
theory EtlPipeline
  imports EtlLive
begin

text \<open>
  \<^verbatim>\<open>ETLPipeline\<close> of \<^verbatim>\<open>crates/etl/src/lib.rs\<close>: creation, \<^verbatim>\<open>initialize\<close>, \<^verbatim>\<open>start\<close>, \<^verbatim>\<open>run\<close>,
  \<^verbatim>\<open>continue_pipeline\<close> and the setters, the background task they spawn, and what the runs between
  checkpoints add up to. The memory the pipeline shares with its task (the plan, the sink and its
  counters, the cancellation token) is the \<open>run_state\<close> of the last task.
\<close>

subsection \<open>The pipeline\<close>

datatype DatasetSource = SimpleSequence | Tpch

definition from_dataset_type :: "string \<Rightarrow> DatasetSource result" where
  "from_dataset_type s =
     (if s = ''tpch'' then Inr Tpch
      else if s = ''simple_sequence'' then Inr SimpleSequence
      else Inl (''Unknown dataset type: '' @ s @ ''. Use '' @ [CHR 0x27] @ ''tpch'' @ [CHR 0x27] @ '' or ''
                @ [CHR 0x27] @ ''simple_sequence'' @ [CHR 0x27] @ ''.''))"

text \<open>What the pipeline asks of its dataset: per table, the schema, the key, the partition columns and the batch ids.\<close>

record dataset_table =
  pt_name :: string
  pt_schema :: schema
  pt_primary_key :: "string list"
  pt_partition_columns :: "string list"
  pt_batch_ids :: "nat list"

text \<open>\<^verbatim>\<open>DatasetSource::create\<close> picks the factory of the variant; the factories are arguments.\<close>

definition create_dataset ::
  "dataset_table list result \<Rightarrow> dataset_table list result \<Rightarrow> DatasetSource \<Rightarrow> dataset_table list result" where
  "create_dataset simple tpch src = (case src of SimpleSequence \<Rightarrow> simple | Tpch \<Rightarrow> tpch)"

record TargetConfig =
  tc_bucket :: string
  tc_prefix :: string

record 's pipeline =
  pl_source :: DatasetSource
  pl_dataset :: "dataset_table list"
  pl_mutations :: MutationConfig
  pl_state :: PipelineState
  pl_handle :: bool
  pl_target_config :: "TargetConfig option"
  pl_batch_budget :: "nat option"
  pl_checkpoint_idx :: nat
  pl_rate_limit_enabled :: bool
  pl_params :: "'s run_params"  \<comment> \<open>the arguments of the last spawned run\<close>
  pl_run :: "'s run_state"
  pl_delivered :: "string \<Rightarrow> record_batch list"  \<comment> \<open>ghost: what earlier runs delivered\<close>

text \<open>
  \<open>B\<close> holds what every run of the pipeline is given: the storage, the sink, the configuration.
  \<open>sk\<close> is the sink before the first write.
\<close>

definition fresh_run :: "'s \<Rightarrow> dataset_table list \<Rightarrow> 's run_state" where
  "fresh_run sk tables = (start_run \<lparr>sh_work = \<lparr>ws_steps = [], ws_finished_tables = {}\<rparr>, sh_logical_steps = 0\<rparr>
     \<lparr>is_sink = sk, is_ingest_rows = 0, is_net_rows = Map.empty,
      is_last_created_at = map_of (map (\<lambda>t. (pt_name t, 0)) tables)\<rparr> False)\<lparr>rs_phase := Ended NotStarted\<rparr>"

definition pl_new ::
  "dataset_table list result \<Rightarrow> 's run_params \<Rightarrow> 's \<Rightarrow> DatasetSource \<Rightarrow> MutationConfig \<Rightarrow> 's pipeline result" where
  "pl_new created B sk src mutations =
     and_then created (\<lambda>tables. Inr
       \<lparr>pl_source = src, pl_dataset = tables, pl_mutations = mutations, pl_state = NotStarted, pl_handle = False,
        pl_target_config = None, pl_batch_budget = None, pl_checkpoint_idx = 0, pl_rate_limit_enabled = True,
        pl_params = B, pl_run = fresh_run sk tables, pl_delivered = (\<lambda>_. [])\<rparr>)"

definition set_rate_limit_enabled :: "bool \<Rightarrow> 's pipeline \<Rightarrow> 's pipeline" where
  "set_rate_limit_enabled enabled pl = pl\<lparr>pl_rate_limit_enabled := enabled\<rparr>"

definition set_batch_budget :: "nat \<Rightarrow> 's pipeline \<Rightarrow> 's pipeline" where
  "set_batch_budget n pl = pl\<lparr>pl_batch_budget := Some n\<rparr>"

definition with_target_config :: "TargetConfig \<Rightarrow> 's pipeline \<Rightarrow> 's pipeline" where
  "with_target_config tc pl = pl\<lparr>pl_target_config := Some tc\<rparr>"

definition pl_cancel :: "'s pipeline \<Rightarrow> 's pipeline" where
  "pl_cancel pl = pl\<lparr>pl_run := (pl_run pl)\<lparr>rs_cancelled := True\<rparr>\<rparr>"

definition pl_expected_row_counts :: "'s pipeline \<Rightarrow> string \<rightharpoonup> nat" where
  "pl_expected_row_counts pl = expected_row_counts (is_net_rows (rs_ingest (pl_run pl)))"

text \<open>The datasets of a \<^verbatim>\<open>create_tables\<close> request, as the system adapter receives them.\<close>

record ProtocolDatasetConfig =
  pd_schema :: schema
  pd_primary_key_columns :: "string list"
  pd_location :: "string option"
  pd_time_column :: "string option"
  pd_partition_columns :: "string list"

definition create_tables_request_datasets ::
  "dataset_table list result \<Rightarrow> TargetConfig option \<Rightarrow> (string \<times> ProtocolDatasetConfig) list result" where
  "create_tables_request_datasets created target_config =
     and_then created (\<lambda>tables. Inr (map (\<lambda>t.
       (pt_name t,
        \<lparr>pd_schema = schema_with_created_at (schema_without_internal_columns (pt_schema t)),
         pd_primary_key_columns = pt_primary_key t,
         pd_location = map_option (\<lambda>tc. ''s3://'' @ tc_bucket tc @ ''/'' @ tc_prefix tc @ ''/'' @ pt_name t @ ''/'')
                         target_config,
         pd_time_column = Some CREATED_AT_COLUMN,
         pd_partition_columns = pt_partition_columns t\<rparr>)) tables))"

subsection \<open>Initialization\<close>

text \<open>Debug rendering of a state; \<open>dbg\<close> is the debug rendering of a string.\<close>

fun show_state :: "(string \<Rightarrow> string) \<Rightarrow> PipelineState \<Rightarrow> string" where
  "show_state dbg NotStarted = ''NotStarted''"
| "show_state dbg Initialized = ''Initialized''"
| "show_state dbg Running = ''Running''"
| "show_state dbg Paused = ''Paused''"
| "show_state dbg (Stopped Completed) = ''Stopped(Completed)''"
| "show_state dbg (Stopped Cancelled) = ''Stopped(Cancelled)''"
| "show_state dbg (Stopped (Error e)) = ''Stopped(Error('' @ dbg e @ ''))''"

definition init_batches :: "dataset_table list \<Rightarrow> (string \<times> nat) list" where
  "init_batches tables = concat (map (\<lambda>t. case pt_batch_ids t of i # _ \<Rightarrow> [(pt_name t, i)] | [] \<Rightarrow> []) tables)"

text \<open>
  The task of one table: read its first batch and write it. The schedule \<open>sch\<close> fixes the time and
  the chunk schedules of each table's writes and the panics of tasks.
\<close>

record init_schedule =
  in_ts :: "string \<Rightarrow> int"
  in_chunks :: "string \<Rightarrow> nat \<Rightarrow> chunk_schedule"
  in_panic :: "string \<Rightarrow> string option"
  in_order_of :: "(string \<times> nat) list \<Rightarrow> (string \<times> nat) list"  \<comment> \<open>completion order of the tasks\<close>
  in_late :: nat  \<comment> \<open>tasks that still complete after the first failure\<close>

definition init_task ::
  "'s run_params \<Rightarrow> init_schedule \<Rightarrow> string \<times> nat \<Rightarrow> 's ingest_state \<Rightarrow> string option \<times> 's ingest_state" where
  "init_task B sch = (\<lambda>(table, first_id) ing.
     (case rp_read B table first_id of
        Inl e \<Rightarrow> (Some e, ing)
      | Inr None \<Rightarrow> (Some (''No data for table '' @ table @ '' at batch '' @ show_nat first_id), ing)
      | Inr (Some r) \<Rightarrow>
          task_writes B table first_id (in_ts sch table) (in_chunks sch table) (rr_key_columns r) (rr_batches r) ing))"

text \<open>
  The join loop. An error of a task and a panic end it with different messages: the first is the
  state's reason, the second the error returned.
\<close>

fun init_join ::
  "'s run_params \<Rightarrow> init_schedule \<Rightarrow> (string \<times> nat) list \<Rightarrow> 's ingest_state
     \<Rightarrow> (string \<times> string) option \<times> 's ingest_state" where
  "init_join B sch [] ing = (None, ing)"
| "init_join B sch (tb # tbs) ing =
     (let late = (\<lambda>st. fold (\<lambda>tb st. snd (init_task B sch tb st)) (take (in_late sch) tbs) st)
      in case in_panic sch (fst tb) of
           Some e \<Rightarrow> (let msg = ''Task panicked during initialization: '' @ e in (Some (msg, msg), late ing))
         | None \<Rightarrow>
             (case init_task B sch tb ing of
                (None, ing') \<Rightarrow> init_join B sch tbs ing'
              | (Some e, ing') \<Rightarrow> (Some (e, ''ETL initialization failed: '' @ e), late ing')))"

definition first_batches :: "'s run_params \<Rightarrow> (string \<times> nat) list \<Rightarrow> string \<Rightarrow> record_batch list" where
  "first_batches B tbs t = concat (map (\<lambda>(u, i). if u = t then data_of (rp_read B) t [i] else []) tbs)"

definition pl_initialize ::
  "(string \<Rightarrow> string) \<Rightarrow> 's run_params \<Rightarrow> init_schedule \<Rightarrow> 's pipeline \<Rightarrow> unit result \<times> 's pipeline" where
  "pl_initialize dbg B sch pl =
     (if pl_state pl \<noteq> NotStarted
      then (Inl (''Cannot initialize pipeline: current state is '' @ show_state dbg (pl_state pl)), pl)
      else
        let tbs = in_order_of sch (init_batches (pl_dataset pl));
            joined = init_join B sch tbs (rs_ingest (pl_run pl));
            pl1 = pl\<lparr>pl_run := (pl_run pl)\<lparr>rs_ingest := snd joined\<rparr>\<rparr>
        in case fst joined of
             Some (reason, msg) \<Rightarrow> (Inl msg, pl1\<lparr>pl_state := Stopped (Error reason)\<rparr>)
           | None \<Rightarrow>
               (case rp_flush B (is_sink (snd joined)) of
                  (flush, sk) \<Rightarrow>
                    let pl2 = pl1\<lparr>pl_run := (pl_run pl1)\<lparr>rs_ingest := (rs_ingest (pl_run pl1))\<lparr>is_sink := sk\<rparr>\<rparr>\<rparr>
                    in (case flush of
                          Some e \<Rightarrow>
                            let msg = ''Failed to flush sink after initialization: '' @ e
                            in (Inl msg, pl2\<lparr>pl_state := Stopped (Error msg)\<rparr>)
                        | None \<Rightarrow>
                            (Inr (), pl2\<lparr>pl_state := Initialized,
                               pl_delivered := (\<lambda>t. pl_delivered pl t @ first_batches B tbs t)\<rparr>))))"

subsection \<open>Runs\<close>

definition params_for :: "'s run_params \<Rightarrow> nat option \<Rightarrow> steps \<Rightarrow> 's run_params" where
  "params_for B limit steps = B\<lparr>rp_step_limit := limit, rp_max_batch_id := checkpoint_max_batch_id limit steps\<rparr>"

definition spawn_run_task :: "'s run_params \<Rightarrow> nat option \<Rightarrow> 's pipeline \<Rightarrow> 's pipeline" where
  "spawn_run_task B step_limit pl =
     pl\<lparr>pl_state := Running, pl_handle := True,
        pl_params := params_for B step_limit (ws_steps (sh_work (rs_shared (pl_run pl)))),
        pl_delivered := (\<lambda>t. pl_delivered pl t @ rs_delivered (pl_run pl) t),
        pl_run := start_run (rs_shared (pl_run pl)) (rs_ingest (pl_run pl)) (rs_cancelled (pl_run pl))\<rparr>"

definition pl_plan :: "'s pipeline \<Rightarrow> PipelineWorkState" where
  "pl_plan pl = build_work_plan (pl_state pl = Initialized) (map (\<lambda>t. (pt_name t, pt_batch_ids t)) (pl_dataset pl))"

definition pl_build_work_plan :: "'s pipeline \<Rightarrow> 's pipeline" where
  "pl_build_work_plan pl = pl\<lparr>pl_run := (pl_run pl)\<lparr>rs_shared := (rs_shared (pl_run pl))\<lparr>sh_work := pl_plan pl\<rparr>\<rparr>\<rparr>"

definition pl_start :: "(string \<Rightarrow> string) \<Rightarrow> 's run_params \<Rightarrow> 's pipeline \<Rightarrow> unit result \<times> 's pipeline" where
  "pl_start dbg B pl =
     (if pl_state pl \<noteq> Initialized
      then (Inl (''Cannot start pipeline: current state is '' @ show_state dbg (pl_state pl) @ '' (must be Initialized)''), pl)
      else (Inr (), spawn_run_task B None (pl_build_work_plan (pl\<lparr>pl_batch_budget := None\<rparr>))))"

definition pl_run_steps :: "'s run_params \<Rightarrow> nat \<Rightarrow> 's pipeline \<Rightarrow> unit result \<times> 's pipeline" where
  "pl_run_steps B step_count pl =
     (Inr (), spawn_run_task B (Some step_count) (pl_build_work_plan (pl\<lparr>pl_batch_budget := Some step_count\<rparr>)))"

definition continue_pipeline :: "(string \<Rightarrow> string) \<Rightarrow> 's run_params \<Rightarrow> 's pipeline \<Rightarrow> unit result \<times> 's pipeline" where
  "continue_pipeline dbg B pl =
     (if pl_state pl \<noteq> Paused
      then (Inl (''Cannot continue pipeline: current state is '' @ show_state dbg (pl_state pl) @ '' (must be Paused)''), pl)
      else (Inr (), spawn_run_task B (pl_batch_budget pl)
              (pl\<lparr>pl_checkpoint_idx := pl_checkpoint_idx pl + 1, pl_handle := False\<rparr>)))"

text \<open>\<^verbatim>\<open>wait\<close> takes the handle; it returns once the task has sent its outcome.\<close>

definition pl_wait :: "'s pipeline \<Rightarrow> PipelineState \<times> 's pipeline" where
  "pl_wait pl = (pl_state pl, pl\<lparr>pl_handle := False\<rparr>)"

text \<open>
  The pipeline between its calls: a step of the task, the task sending its outcome, a resumption
  after a pause, and calls that do not touch the data.
\<close>

inductive pl_step :: "(string \<Rightarrow> string) \<Rightarrow> 's run_params \<Rightarrow> 's pipeline \<Rightarrow> 's pipeline \<Rightarrow> bool" for dbg B where
  pl_task: "pl_state pl = Running \<Longrightarrow> run_step (pl_params pl) (pl_run pl) r \<Longrightarrow> pl_step dbg B pl (pl\<lparr>pl_run := r\<rparr>)"
| pl_outcome: "pl_state pl = Running \<Longrightarrow> rs_phase (pl_run pl) = Ended st \<Longrightarrow> pl_step dbg B pl (pl\<lparr>pl_state := st\<rparr>)"
| pl_continue: "continue_pipeline dbg B pl = (Inr (), pl') \<Longrightarrow> pl_step dbg B pl pl'"
| pl_waited: "pl_state pl \<noteq> Running \<Longrightarrow> pl_step dbg B pl (snd (pl_wait pl))"
| pl_cancelled: "pl_step dbg B pl (pl_cancel pl)"
| pl_rate: "pl_step dbg B pl (set_rate_limit_enabled b pl)"

definition pl_total :: "'s pipeline \<Rightarrow> string \<Rightarrow> record_batch list" where
  "pl_total pl t = pl_delivered pl t @ rs_delivered (pl_run pl) t"

subsection \<open>Plans and their keys\<close>

lemma keys_of_tables: "wf_steps w \<Longrightarrow> k \<in> set (map fst w) \<longleftrightarrow> (\<exists>t. k \<in> set (table_ids t w))"
proof (induction w)
  case Nil
  then show ?case by simp
next
  case (Cons e w)
  obtain b ts where e: "e = (b, ts)" by (cases e)
  then obtain t0 where "t0 \<in> set ts" using Cons.prems by (cases ts) auto
  then show ?case using Cons e by auto
qed

lemma keys_filter:
  assumes "wf_steps w" "wf_steps w'" "\<And>t. table_ids t w' = filter Q (table_ids t w)"
  shows "map fst w' = filter Q (map fst w)"
proof -
  have s: "sorted_wrt (<) (map fst w')" "sorted_wrt (<) (filter Q (map fst w))"
    using assms(1,2) by (auto simp: wf_steps_def intro: sorted_wrt_filter)
  have "k \<in> set (map fst w') \<longleftrightarrow> k \<in> set (filter Q (map fst w))" for k
    unfolding set_filter mem_Collect_eq keys_of_tables[OF assms(1)] keys_of_tables[OF assms(2)] assms(3) by auto
  then have "set (map fst w') = set (filter Q (map fst w))" by blast
  then show ?thesis using s
    by (metis strict_sorted_iff sorted_list_of_set.idem_if_sorted_distinct)
qed

text \<open>A bound at the \<open>n\<close>-th key splits ascending keys into the first \<open>n\<close> and the rest.\<close>

lemma sorted_split:
  fixes ks :: "nat list"
  assumes "sorted_wrt (<) ks" "0 < n" "n \<le> length ks"
  shows "filter (\<lambda>k. k \<le> ks ! (n - 1)) ks = take n ks" "filter (\<lambda>k. \<not> k \<le> ks ! (n - 1)) ks = drop n ks"
proof -
  let ?m = "ks ! (n - 1)"
  have lo: "k \<le> ?m" if k: "k \<in> set (take n ks)" for k
  proof -
    obtain i where "i < n" "i < length ks" "k = ks ! i" using k by (auto simp: in_set_conv_nth)
    then show ?thesis using sorted_wrt_nth_less[OF assms(1), of i "n - 1"] assms(2,3) by (cases "i = n - 1") (auto simp: less_imp_le)
  qed
  have hi: "\<not> k \<le> ?m" if k: "k \<in> set (drop n ks)" for k
  proof -
    obtain i where i: "n \<le> i" "i < length ks" "k = ks ! i" using k by (auto simp: in_set_drop_iff)
    then have "n - 1 < i" using assms(2) by simp
    from sorted_wrt_nth_less[OF assms(1) this i(2)] show ?thesis using i(3) by simp
  qed
  have "filter P ks = filter P (take n ks) @ filter P (drop n ks)" for P
    by (metis append_take_drop_id filter_append)
  then show "filter (\<lambda>k. k \<le> ?m) ks = take n ks" "filter (\<lambda>k. \<not> k \<le> ?m) ks = drop n ks"
    using lo hi by (simp_all add: filter_id_conv filter_empty_conv)
qed

definition ids_within :: "nat \<Rightarrow> steps \<Rightarrow> string \<Rightarrow> nat list" where
  "ids_within n w t = filter (\<lambda>i. i \<in> set (take n (map fst w))) (table_ids t w)"

definition ids_behind :: "nat \<Rightarrow> steps \<Rightarrow> string \<Rightarrow> nat list" where
  "ids_behind n w t = filter (\<lambda>i. i \<in> set (drop n (map fst w))) (table_ids t w)"

lemma bounded_is_within:
  assumes "wf_steps w" "0 < n" "n \<le> length w" and mx: "rp_max_batch_id P = checkpoint_max_batch_id (Some n) w"
  shows "bounded_ids P t w = ids_within n w t" "beyond_ids P t w = ids_behind n w t"
proof -
  let ?ks = "map fst w"
  have srt: "sorted_wrt (<) ?ks" using assms(1) by (simp add: wf_steps_def)
  have m: "rp_max_batch_id P = Some (?ks ! (n - 1))" using mx assms(2,3) by (simp add: checkpoint_max_batch_id_def)
  note split = sorted_split[OF srt assms(2)]
  have "i \<in> set (take n ?ks) \<longleftrightarrow> i \<le> ?ks ! (n - 1)" "i \<in> set (drop n ?ks) \<longleftrightarrow> \<not> i \<le> ?ks ! (n - 1)"
    if "i \<in> set (table_ids t w)" for i
    using that table_ids_subset[of t w] split assms(3) by (auto simp flip: split(1) split(2))
  then show "bounded_ids P t w = ids_within n w t" "beyond_ids P t w = ids_behind n w t"
    by (auto simp: bounded_ids_def beyond_ids_def ids_within_def ids_behind_def m in_bound_def intro!: filter_cong)
qed

subsection \<open>Resumed runs\<close>

text \<open>
  The state between runs after \<open>n\<close> keys of the plan \<open>w0\<close>: what is left of the plan, and what was
  delivered so far, for every continuation \<open>ys\<close>.
\<close>

definition resume_ok ::
  "(string \<Rightarrow> nat \<Rightarrow> ReadResult option result) \<Rightarrow> steps \<Rightarrow> (string \<Rightarrow> record_batch list) \<Rightarrow> nat
     \<Rightarrow> PipelineWorkState \<Rightarrow> (string \<Rightarrow> record_batch list) \<Rightarrow> bool" where
  "resume_ok rd w0 d0 n ws del \<longleftrightarrow> wf_steps w0 \<and> wf_steps (ws_steps ws) \<and> n \<le> length w0
     \<and> map fst (ws_steps ws) = drop n (map fst w0)
     \<and> (\<forall>t. table_ids t (ws_steps ws) = ids_behind n w0 t)
     \<and> (\<forall>t ys. del t @ (if t \<in> ws_finished_tables ws then [] else due rd t ys)
          = d0 t @ due rd t (ids_within n w0 t @ ys))"

lemma resume_ok_start:
  "wf_steps (ws_steps ws) \<Longrightarrow> ws_finished_tables ws = {} \<Longrightarrow> resume_ok rd (ws_steps ws) d0 0 ws d0"
  using table_ids_subset[of _ "ws_steps ws"]
  by (auto simp: resume_ok_def ids_within_def ids_behind_def filter_id_conv subset_iff)

lemma ids_split:
  assumes "wf_steps w"
  shows "ids_within (m + n) w t = ids_within m w t @ filter (\<lambda>i. i \<in> set (take n (drop m (map fst w)))) (ids_behind m w t)"
proof -
  have app: "filter (\<lambda>x. x \<in> set (take m ks) \<or> x \<in> A) xs = filter (\<lambda>x. x \<in> set (take m ks)) xs @ filter (\<lambda>x. x \<in> A) (filter (\<lambda>x. x \<in> set (drop m ks)) xs)"
    if "sorted_wrt (<) ks" "sorted_wrt (<) xs" "set xs \<subseteq> set ks" "A \<subseteq> set (drop m ks)" for ks xs and A :: "nat set"
    using that
  proof (induction xs)
    case Nil
    then show ?case by simp
  next
    case (Cons x xs)
    have disj: "y \<in> set (take m ks) \<Longrightarrow> z \<in> set (drop m ks) \<Longrightarrow> y < z" for y z
      using Cons.prems(1) by (metis append_take_drop_id sorted_wrt_append)
    show ?case
    proof (cases "x \<in> set (take m ks)")
      case True
      then show ?thesis using Cons disj by (auto dest: disj[of x x])
    next
      case False
      then have d: "x \<in> set (drop m ks)" using Cons.prems(3) by (metis Un_iff append_take_drop_id in_mono list.set_intros(1) set_append)
      have "y \<notin> set (take m ks)" if "y \<in> set xs" for y
        using Cons.prems(2) that disj[OF _ d, of y] by fastforce
      then have "filter (\<lambda>x. x \<in> set (take m ks)) xs = []" by (simp add: filter_empty_conv)
      then show ?thesis using Cons False d by auto
    qed
  qed
  have "set (take n (drop m (map fst w))) \<subseteq> set (drop m (map fst w))" by (rule set_take_subset)
  from app[OF _ table_ids_sorted[OF assms] table_ids_subset this] assms
  have "filter (\<lambda>x. x \<in> set (take m (map fst w)) \<or> x \<in> set (take n (drop m (map fst w)))) (table_ids t w)
      = ids_within m w t @ filter (\<lambda>i. i \<in> set (take n (drop m (map fst w)))) (ids_behind m w t)"
    by (simp add: wf_steps_def ids_within_def ids_behind_def)
  then show ?thesis by (simp add: ids_within_def take_add)
qed

text \<open>One more paused run takes the state between runs \<open>n\<close> keys further.\<close>

lemma resume_step:
  assumes ok: "resume_ok rd w0 d0 m (sh_work sh) del" and B: "rp_read B = rd" "0 < rp_target B" "reads_nonempty B" and n: "0 < n"
    and r: "reachable (params_for B (Some n) (ws_steps (sh_work sh))) (start_run sh ing c) s" and p: "rs_phase s = Ended Paused"
  shows "resume_ok rd w0 d0 (m + n) (sh_work (rs_shared s)) (\<lambda>t. del t @ rs_delivered s t)"
proof -
  let ?w = "ws_steps (sh_work sh)" and ?F = "ws_finished_tables (sh_work sh)" and ?K = "map fst w0"
  define P where "P = params_for B (Some n) ?w"
  have wf: "wf_steps ?w" "wf_steps w0" "m \<le> length w0" and keys: "map fst ?w = drop m ?K"
    and ids: "\<And>t. table_ids t ?w = ids_behind m w0 t"
    and del: "\<And>t ys. del t @ (if t \<in> ?F then [] else due rd t ys) = d0 t @ due rd t (ids_within m w0 t @ ys)"
    using ok by (simp_all add: resume_ok_def)
  have P: "run_setup P ?w" "reads_nonempty P" "rp_read P = rd" "rp_max_batch_id P = checkpoint_max_batch_id (Some n) ?w"
    using wf B n by (simp_all add: P_def params_for_def run_setup_def reads_nonempty_def)
  note left = reachable_left[OF P(1,2) r[folded P_def] p]
  have len: "n \<le> length ?w"
    using left(2) P(4) n by (auto simp: checkpoint_max_batch_id_def split: if_splits)
  have "length ?w = length w0 - m" using arg_cong[OF keys, of length] by simp
  then have mn: "m + n \<le> length w0" using len wf(3) by simp
  note bw = bounded_is_within[OF wf(1) n len P(4)]
  have tk: "take n (map fst ?w) = take n (drop m ?K)" "drop n (map fst ?w) = drop (m + n) ?K"
    by (simp_all add: keys add.commute)
  have left': "bounded_ids P t (run_steps s) = []" "beyond_ids P t (run_steps s) = ids_behind n ?w t" for t
    using left(3) bw by (simp_all add: run_left_def)
  have ids': "table_ids t (run_steps s) = filter (\<lambda>i. i \<in> set (drop (m + n) ?K)) (table_ids t ?w)" for t
  proof -
    have "table_ids t (run_steps s) = beyond_ids P t (run_steps s)"
      using left'(1)[of t] unfolding bounded_ids_def beyond_ids_def by (simp add: filter_empty_conv filter_id_conv)
    then show ?thesis using left'(2)[of t] tk(2) by (simp add: ids_behind_def)
  qed
  have ids0: "table_ids t (run_steps s) = ids_behind (m + n) w0 t" for t
  proof -
    have "set (drop (m + n) ?K) \<subseteq> set (drop m ?K)" by (metis add.commute drop_drop set_drop_subset)
    then show ?thesis unfolding ids'[of t] ids ids_behind_def by (auto intro!: filter_cong)
  qed
  have "map fst (run_steps s) = filter (\<lambda>i. i \<in> set (drop (m + n) ?K)) ?K"
    using keys_filter[OF wf(2) left(1)] ids0 by (simp add: ids_behind_def)
  also have "\<dots> = drop (m + n) ?K"
  proof -
    have srt: "sorted_wrt (<) ?K" using wf(2) by (simp add: wf_steps_def)
    have "i \<notin> set (drop (m + n) ?K)" if "i \<in> set (take (m + n) ?K)" for i
      using srt that by (metis append_take_drop_id less_irrefl sorted_wrt_append)
    then have "filter (\<lambda>i. i \<in> set (drop (m + n) ?K)) (take (m + n) ?K @ drop (m + n) ?K) = drop (m + n) ?K"
      by (simp only: filter_append) (simp add: filter_empty_conv filter_id_conv)
    then show ?thesis by simp
  qed
  finally have keys': "map fst (run_steps s) = drop (m + n) ?K" .
  have within: "ids_within (m + n) w0 t = ids_within m w0 t @ bounded_ids P t ?w" for t
    unfolding ids_split[OF wf(2)] bw(1) by (simp add: ids_within_def[of n ?w] tk(1) ids)
  have "(del t @ rs_delivered s t) @ (if t \<in> run_finished s then [] else due rd t ys)
      = d0 t @ due rd t (ids_within (m + n) w0 t @ ys)" for t ys
  proof -
    have eq: "rs_delivered s t @ (if t \<in> run_finished s then [] else due rd t ys)
        = (if t \<in> ?F then [] else due rd t (bounded_ids P t ?w @ ys))"
      using left(3)[of "\<lambda>_. ys" t, unfolded run_left_def run_goal_def P(3)] by blast
    show ?thesis unfolding append_assoc eq del within by (simp only: append_assoc)
  qed
  then show ?thesis using wf left(1) mn keys' ids0 by (simp add: resume_ok_def)
qed

lemma resume_complete:
  assumes ok: "resume_ok rd w0 d0 m (sh_work sh) del" and B: "rp_read B = rd" "0 < rp_target B" "reads_nonempty B"
    and n: "limit \<noteq> Some 0"
    and r: "reachable (params_for B limit (ws_steps (sh_work sh))) (start_run sh ing c) s"
    and p: "rs_phase s = Ended (Stopped Completed)"
  shows "del t @ rs_delivered s t = d0 t @ due rd t (table_ids t w0)"
proof -
  let ?w = "ws_steps (sh_work sh)" and ?F = "ws_finished_tables (sh_work sh)"
  define P where "P = params_for B limit ?w"
  have wf: "wf_steps ?w" "wf_steps w0" and ids: "table_ids t ?w = ids_behind m w0 t"
    and del: "\<And>ys. del t @ (if t \<in> ?F then [] else due rd t ys) = d0 t @ due rd t (ids_within m w0 t @ ys)"
    using ok by (simp_all add: resume_ok_def)
  have P: "run_setup P ?w" "reads_nonempty P" "rp_read P = rd"
    using wf B n by (simp_all add: P_def params_for_def run_setup_def reads_nonempty_def)
  note left = reachable_left[OF P(1,2) r[folded P_def] p]
  have "rp_max_batch_id P = None" using left(2) by simp
  then have bd: "bounded_ids P t ?w = table_ids t ?w" by (simp add: bounded_ids_def in_bound_def)
  have "rs_delivered s t = (if t \<in> ?F then [] else due rd t (table_ids t ?w))"
    using left(3)[of "\<lambda>_. []" t, unfolded run_left_def run_goal_def P(3) bd] by (simp split: if_splits)
  moreover have "ids_within m w0 t @ ids_behind m w0 t = table_ids t w0"
  proof -
    let ?l = "length w0"
    have "ids_within (m + ?l) w0 t = table_ids t w0" "take ?l (drop m (map fst w0)) = drop m (map fst w0)"
      using table_ids_subset[of t w0] by (auto simp: ids_within_def filter_id_conv subset_iff)
    then show ?thesis using ids_split[OF wf(2), of m ?l t] by (simp add: ids_behind_def)
  qed
  ultimately show ?thesis using del[of "table_ids t ?w"] ids by (simp split: if_splits)
qed

text \<open>
  The pipeline after a \<^verbatim>\<open>run(n)\<close> on plan \<open>w0\<close> with \<open>d0\<close> already delivered and checkpoint index \<open>c0\<close>.
\<close>

definition pl_inv ::
  "'s run_params \<Rightarrow> nat \<Rightarrow> steps \<Rightarrow> (string \<Rightarrow> record_batch list) \<Rightarrow> nat \<Rightarrow> 's pipeline \<Rightarrow> bool" where
  "pl_inv B n w0 d0 c0 pl \<longleftrightarrow> pl_batch_budget pl = Some n \<and> c0 \<le> pl_checkpoint_idx pl
     \<and> (pl_state pl = Running \<longrightarrow> (\<exists>sh ing c. pl_params pl = params_for B (Some n) (ws_steps (sh_work sh))
          \<and> reachable (pl_params pl) (start_run sh ing c) (pl_run pl)
          \<and> resume_ok (rp_read B) w0 d0 ((pl_checkpoint_idx pl - c0) * n) (sh_work sh) (pl_delivered pl)))
     \<and> (pl_state pl = Paused \<longrightarrow>
          resume_ok (rp_read B) w0 d0 (Suc (pl_checkpoint_idx pl - c0) * n) (sh_work (rs_shared (pl_run pl))) (pl_total pl))
     \<and> (pl_state pl = Stopped Completed \<longrightarrow> (\<forall>t. pl_total pl t = d0 t @ due (rp_read B) t (table_ids t w0)))"

lemma run_step_cancel_reachable: "reachable P s0 s \<Longrightarrow> reachable P s0 (s\<lparr>rs_cancelled := True\<rparr>)"
  unfolding reachable_def by (erule rtranclp.rtrancl_into_rtrancl) (rule step_cancel)

lemma pl_step_inv:
  assumes B: "0 < rp_target B" "reads_nonempty B" and n: "0 < n"
    and step: "pl_step dbg B pl pl'" and inv: "pl_inv B n w0 d0 c0 pl"
  shows "pl_inv B n w0 d0 c0 pl'"
  using step
proof cases
  case (pl_task r)
  then show ?thesis using inv unfolding pl_inv_def reachable_def
    by (auto intro: rtranclp.rtrancl_into_rtrancl)
next
  case (pl_outcome st)
  from inv pl_outcome(2) obtain sh ing c where run: "reachable (params_for B (Some n) (ws_steps (sh_work sh))) (start_run sh ing c) (pl_run pl)"
      "resume_ok (rp_read B) w0 d0 ((pl_checkpoint_idx pl - c0) * n) (sh_work sh) (pl_delivered pl)"
    by (auto simp: pl_inv_def)
  have "st \<noteq> Running" using reachable_outcome[OF run(1) pl_outcome(3)] by auto
  moreover have "resume_ok (rp_read B) w0 d0 (Suc (pl_checkpoint_idx pl - c0) * n) (sh_work (rs_shared (pl_run pl))) (pl_total pl)"
    if "st = Paused"
    using resume_step[OF run(2) refl B n run(1)] pl_outcome(3) that by (simp add: pl_total_def[abs_def] add.commute)
  moreover have "pl_total pl t = d0 t @ due (rp_read B) t (table_ids t w0)" if "st = Stopped Completed" for t
    using resume_complete[OF run(2) refl B _ run(1)] n pl_outcome(3) that by (simp add: pl_total_def)
  moreover have "pl_total pl' = pl_total pl" "pl_run pl' = pl_run pl" "pl_state pl' = st"
      "pl_batch_budget pl' = pl_batch_budget pl" "pl_checkpoint_idx pl' = pl_checkpoint_idx pl"
    by (simp_all add: pl_outcome(1) pl_total_def[abs_def])
  ultimately show ?thesis using inv unfolding pl_inv_def by simp
next
  case pl_continue
  then have p: "pl_state pl = Paused" and pl': "pl' = spawn_run_task B (pl_batch_budget pl)
      (pl\<lparr>pl_checkpoint_idx := pl_checkpoint_idx pl + 1, pl_handle := False\<rparr>)"
    by (auto simp: continue_pipeline_def split: if_splits)
  have c: "c0 \<le> pl_checkpoint_idx pl" "pl_batch_budget pl = Some n"
    and ok: "resume_ok (rp_read B) w0 d0 (Suc (pl_checkpoint_idx pl - c0) * n) (sh_work (rs_shared (pl_run pl))) (pl_total pl)"
    using inv p by (simp_all add: pl_inv_def)
  have idx: "Suc (pl_checkpoint_idx pl) - c0 = Suc (pl_checkpoint_idx pl - c0)" using c(1) by simp
  have tot: "(\<lambda>t. pl_delivered pl t @ rs_delivered (pl_run pl) t) = pl_total pl" by (simp add: pl_total_def[abs_def])
  show ?thesis unfolding pl_inv_def pl' using c(1) ok
    by (simp add: spawn_run_task_def c(2) idx tot)
      (intro exI[of _ "rs_shared (pl_run pl)"] exI[of _ "rs_ingest (pl_run pl)"] exI[of _ "rs_cancelled (pl_run pl)"] conjI;
       simp add: reachable_def)
next
  case pl_waited
  then show ?thesis using inv by (simp add: pl_inv_def pl_wait_def pl_total_def[abs_def])
next
  case pl_cancelled
  then show ?thesis using inv run_step_cancel_reachable by (fastforce simp: pl_inv_def pl_cancel_def pl_total_def[abs_def])
next
  case (pl_rate b)
  then show ?thesis using inv by (simp add: pl_inv_def set_rate_limit_enabled_def pl_total_def[abs_def])
qed

lemma pl_run_steps_inv:
  assumes "wf_steps (ws_steps (pl_plan pl))" "pl_run_steps B n pl = (Inr (), pl')"
  shows "pl_inv B n (ws_steps (pl_plan pl)) (pl_total pl) (pl_checkpoint_idx pl) pl'"
proof -
  let ?sh = "(rs_shared (pl_run pl))\<lparr>sh_work := pl_plan pl\<rparr>"
  have plan: "pl_plan (pl\<lparr>pl_batch_budget := Some n\<rparr>) = pl_plan pl" by (simp add: pl_plan_def)
  have "ws_finished_tables (pl_plan pl) = {}" by (simp add: pl_plan_def build_work_plan_def)
  then have ok: "resume_ok (rp_read B) (ws_steps (pl_plan pl)) (pl_total pl) 0 (sh_work ?sh) (pl_total pl)"
    using resume_ok_start[OF assms(1)] by simp
  have pl': "pl' = spawn_run_task B (Some n) (pl_build_work_plan (pl\<lparr>pl_batch_budget := Some n\<rparr>))"
    using assms(2) by (simp add: pl_run_steps_def)
  have tot: "(\<lambda>t. pl_delivered pl t @ rs_delivered (pl_run pl) t) = pl_total pl" by (simp add: pl_total_def[abs_def])
  show ?thesis unfolding pl_inv_def pl' using ok
    by (simp add: spawn_run_task_def pl_build_work_plan_def plan tot)
      (intro exI[of _ ?sh] exI[of _ "rs_ingest (pl_run pl)"] exI[of _ "rs_cancelled (pl_run pl)"] conjI;
       simp add: reachable_def)
qed

lemma pl_steps_inv:
  assumes "(pl_step dbg B)\<^sup>*\<^sup>* pl pl'" "0 < rp_target B" "reads_nonempty B" "0 < n" "pl_inv B n w0 d0 c0 pl"
  shows "pl_inv B n w0 d0 c0 pl'"
  using assms(1,5) by (induction rule: rtranclp_induct) (auto intro: pl_step_inv[OF assms(2,3,4)])

text \<open>The plan a pipeline builds is well-formed when batch ids are 64-bit numbers.\<close>

definition dataset_ok :: "dataset_table list \<Rightarrow> bool" where
  "dataset_ok tables \<longleftrightarrow> distinct (map pt_name tables) \<and> (\<forall>t \<in> set tables. \<forall>i \<in> set (pt_batch_ids t). i \<le> u64_max)"

lemma pl_plan_ok:
  assumes "dataset_ok (pl_dataset pl)"
  shows "wf_steps (ws_steps (pl_plan pl))"
    and "t \<in> set (pl_dataset pl) \<Longrightarrow> table_ids (pt_name t) (ws_steps (pl_plan pl))
       = sorted_list_of_set {i \<in> set (pt_batch_ids t). \<not> (pl_state pl = Initialized \<and> i = hd (pt_batch_ids t))}"
proof -
  let ?tables = "map (\<lambda>t. (pt_name t, pt_batch_ids t)) (pl_dataset pl)"
  have "distinct (map fst ?tables)" "\<forall>(t, is) \<in> set ?tables. \<forall>i \<in> set is. i \<le> u64_max"
    using assms by (auto simp: dataset_ok_def comp_def)
  note ok = build_work_plan_ok[OF this, of "pl_state pl = Initialized"]
  show "wf_steps (ws_steps (pl_plan pl))" using ok by (simp add: pl_plan_def)
  assume "t \<in> set (pl_dataset pl)"
  then have "(pt_name t, pt_batch_ids t) \<in> set ?tables" by auto
  with ok show "table_ids (pt_name t) (ws_steps (pl_plan pl))
       = sorted_list_of_set {i \<in> set (pt_batch_ids t). \<not> (pl_state pl = Initialized \<and> i = hd (pt_batch_ids t))}"
    unfolding pl_plan_def by blast
qed

text \<open>
  C1. Checkpoints are deterministic. A pipeline that was told to run in intervals of \<open>n\<close> steps and
  has been resumed \<open>k\<close> times is paused with exactly the batches of the first \<open>(k + 1) * n\<close> steps of its
  plan delivered, each once and in ascending order, up to the end of each table; this holds for
  every target batch size, every interleaving of the tasks and every completion order of reads
  and writes, so the answers checked at a checkpoint depend on the dataset alone.
\<close>

theorem checkpoints_are_deterministic:
  assumes "dataset_ok (pl_dataset pl)" "0 < rp_target B" "reads_nonempty B" "0 < n"
    and "pl_run_steps B n pl = (Inr (), pl1)" "(pl_step dbg B)\<^sup>*\<^sup>* pl1 pl2" "pl_state pl2 = Paused"
  shows "pl_total pl2 t = pl_total pl t @
    due (rp_read B) t (ids_within (Suc (pl_checkpoint_idx pl2 - pl_checkpoint_idx pl) * n) (ws_steps (pl_plan pl)) t)"
proof -
  have "pl_inv B n (ws_steps (pl_plan pl)) (pl_total pl) (pl_checkpoint_idx pl) pl2"
    by (rule pl_steps_inv[OF assms(6,2,3,4) pl_run_steps_inv[OF pl_plan_ok(1)[OF assms(1)] assms(5)]])
  then have "\<And>ys. pl_total pl2 t @ (if t \<in> run_finished (pl_run pl2) then [] else due (rp_read B) t ys) = pl_total pl t @
      due (rp_read B) t (ids_within (Suc (pl_checkpoint_idx pl2 - pl_checkpoint_idx pl) * n) (ws_steps (pl_plan pl)) t @ ys)"
    using assms(7) by (simp add: pl_inv_def resume_ok_def)
  from this[of "[]"] show ?thesis by (simp split: if_splits)
qed

text \<open>
  C7. However often it was interrupted by checkpoints, a pipeline that completes has delivered all
  batches of its plan: the intervals neither lose a batch nor deliver one twice.
\<close>

theorem interrupted_pipeline_delivers_all:
  assumes "dataset_ok (pl_dataset pl)" "0 < rp_target B" "reads_nonempty B" "0 < n"
    and "pl_run_steps B n pl = (Inr (), pl1)" "(pl_step dbg B)\<^sup>*\<^sup>* pl1 pl2" "pl_state pl2 = Stopped Completed"
    and "t \<in> set (pl_dataset pl)"
  shows "pl_total pl2 (pt_name t) = pl_total pl (pt_name t) @ due (rp_read B) (pt_name t)
    (sorted_list_of_set {i \<in> set (pt_batch_ids t). \<not> (pl_state pl = Initialized \<and> i = hd (pt_batch_ids t))})"
proof -
  have "pl_inv B n (ws_steps (pl_plan pl)) (pl_total pl) (pl_checkpoint_idx pl) pl2"
    by (rule pl_steps_inv[OF assms(6,2,3,4) pl_run_steps_inv[OF pl_plan_ok(1)[OF assms(1)] assms(5)]])
  then show ?thesis using assms(7) pl_plan_ok(2)[OF assms(1,8)] by (simp add: pl_inv_def)
qed

subsection \<open>A faultless pipeline completes\<close>

lemma pl_task_steps:
  assumes "reachable (pl_params pl) (pl_run pl) s" "pl_state pl = Running"
  shows "(pl_step dbg B)\<^sup>*\<^sup>* pl (pl\<lparr>pl_run := s\<rparr>)"
  using assms(1) unfolding reachable_def
proof (induction rule: rtranclp_induct)
  case base
  then show ?case by simp
next
  case (step y z)
  have "pl_step dbg B (pl\<lparr>pl_run := y\<rparr>) ((pl\<lparr>pl_run := y\<rparr>)\<lparr>pl_run := z\<rparr>)"
    using assms(2) step(2) by (intro pl_task) simp_all
  then show ?case using step(3) by (simp add: rtranclp.rtrancl_into_rtrancl)
qed

lemma faultless_params_for: "faultless (params_for B limit w) = faultless B"
  by (simp add: faultless_def params_for_def read_batches_def task_writes_def run_ctx_def)

text \<open>
  The steps of a pipeline without failures and cancellation whose caller resumes it after each
  pause, and the calls that may come in between.
\<close>

inductive pl_live :: "(string \<Rightarrow> string) \<Rightarrow> 's run_params \<Rightarrow> 's pipeline \<Rightarrow> 's pipeline \<Rightarrow> bool" for dbg B where
  live_task: "pl_state pl = Running \<Longrightarrow> quiet_step (pl_params pl) (pl_run pl) r \<Longrightarrow> pl_live dbg B pl (pl\<lparr>pl_run := r\<rparr>)"
| live_outcome: "pl_state pl = Running \<Longrightarrow> rs_phase (pl_run pl) = Ended st \<Longrightarrow> pl_live dbg B pl (pl\<lparr>pl_state := st\<rparr>)"
| live_continue: "continue_pipeline dbg B pl = (Inr (), pl') \<Longrightarrow> pl_live dbg B pl pl'"

inductive pl_idle :: "'s pipeline \<Rightarrow> 's pipeline \<Rightarrow> bool" where
  idle_waited: "pl_state pl \<noteq> Running \<Longrightarrow> pl_idle pl (snd (pl_wait pl))"
| idle_rate: "pl_idle pl (set_rate_limit_enabled b pl)"

lemma pl_live_step: "pl_live dbg B pl pl' \<Longrightarrow> pl_step dbg B pl pl'"
  by (induction rule: pl_live.induct) (auto simp: quiet_step_def intro: pl_step.intros)

text \<open>
  A pipeline after \<open>m\<close> keys of its plan, in a run from the shared state \<open>sh\<close> that has passed \<open>N\<close>
  keys; the third component tells where the run and its outcome stand.
\<close>

definition pl_going ::
  "'s run_params \<Rightarrow> nat \<Rightarrow> steps \<Rightarrow> (string \<Rightarrow> record_batch list) \<Rightarrow> nat \<times> shared_state \<times> nat \<Rightarrow> 's pipeline \<Rightarrow> bool" where
  "pl_going B n w0 d0 = (\<lambda>(m, sh, N) pl. pl_batch_budget pl = Some n
     \<and> pl_params pl = params_for B (Some n) (ws_steps (sh_work sh))
     \<and> resume_ok (rp_read B) w0 d0 m (sh_work sh) (pl_delivered pl)
     \<and> (\<exists>ing. reachable (pl_params pl) (start_run sh ing False) (pl_run pl))
     \<and> run_live (pl_params pl) (ws_steps (sh_work sh)) (ws_finished_tables (sh_work sh)) N (pl_run pl)
     \<and> (pl_state pl = Running \<or> rs_phase (pl_run pl) = Ended (pl_state pl)))"

definition pl_rank ::
  "steps \<Rightarrow> nat \<times> shared_state \<times> nat \<Rightarrow> 's pipeline \<Rightarrow> nat \<times> nat \<times> nat \<times> nat \<times> nat \<times> nat" where
  "pl_rank w0 = (\<lambda>(m, sh, N) pl. (length w0 - m, if pl_state pl = Running then 1 else 0,
     run_stage (pl_params pl) (ws_steps (sh_work sh)) N (pl_run pl)))"

abbreviation pl_order :: "((nat \<times> nat \<times> nat \<times> nat \<times> nat \<times> nat) \<times> (nat \<times> nat \<times> nat \<times> nat \<times> nat \<times> nat)) set" where
  "pl_order \<equiv> less_than <*lex*> less_than <*lex*> stage_order"

lemma pl_order_wf: "wf pl_order"
  by (intro wf_lex_prod wf_less_than stage_order_wf)

lemma params_for_setup:
  assumes "0 < rp_target B" "reads_nonempty B" "faultless B" "0 < n" "wf_steps w"
  shows "run_setup (params_for B (Some n) w) w" "reads_nonempty (params_for B (Some n) w)"
    "faultless (params_for B (Some n) w)"
  using assms unfolding faultless_params_for by (simp_all add: params_for_def run_setup_def reads_nonempty_def)

lemma pl_going_outcome:
  assumes "pl_going B n w0 d0 (m, sh, N) pl" "rs_phase (pl_run pl) = Ended st"
  shows "st = Paused \<or> st = Stopped Completed"
  using assms by (auto simp: pl_going_def run_live_def healthy_def)

lemma pl_continue_going:
  assumes B: "0 < rp_target B" "reads_nonempty B" "faultless B" and n: "0 < n"
    and J: "pl_going B n w0 d0 (m, sh, N) pl" and c: "continue_pipeline dbg B pl = (Inr (), pl')"
  shows "pl_going B n w0 d0 (m + n, rs_shared (pl_run pl), 0) pl' \<and> length w0 - (m + n) < length w0 - m"
proof -
  have p: "pl_state pl = Paused" and pl': "pl' = spawn_run_task B (Some n)
      (pl\<lparr>pl_checkpoint_idx := pl_checkpoint_idx pl + 1, pl_handle := False\<rparr>)"
    using c J by (auto simp: continue_pipeline_def pl_going_def split: if_splits)
  obtain ing where r: "reachable (params_for B (Some n) (ws_steps (sh_work sh))) (start_run sh ing False) (pl_run pl)"
      "rs_phase (pl_run pl) = Ended Paused" "\<not> rs_cancelled (pl_run pl)"
      "resume_ok (rp_read B) w0 d0 m (sh_work sh) (pl_delivered pl)"
    using J p by (auto simp: pl_going_def run_live_def)
  note ok = resume_step[OF r(4) refl B(1,2) n r(1,2)]
  have lt: "length w0 - (m + n) < length w0 - m" using ok n by (auto simp: resume_ok_def)
  have wf: "wf_steps (run_steps (pl_run pl))" using ok by (simp add: resume_ok_def)
  have "run_live (pl_params pl') (run_steps (pl_run pl)) (run_finished (pl_run pl)) 0 (pl_run pl')"
    using start_run_live[OF params_for_setup(1)[OF B n wf], of "rs_ingest (pl_run pl)"] r(3) by (simp add: pl' spawn_run_task_def)
  moreover have "reachable (pl_params pl') (start_run (rs_shared (pl_run pl)) (rs_ingest (pl_run pl)) False) (pl_run pl')"
    using r(3) by (simp add: pl' spawn_run_task_def reachable_def)
  moreover have "pl_batch_budget pl' = Some n"
    using J by (simp add: pl_going_def pl' spawn_run_task_def)
  ultimately show ?thesis using ok lt unfolding pl_going_def by (auto simp: pl' spawn_run_task_def)
qed

lemma pl_live_going:
  assumes B: "0 < rp_target B" "reads_nonempty B" "faultless B" and n: "0 < n"
    and J: "pl_going B n w0 d0 x pl" and step: "pl_live dbg B pl pl'"
  shows "\<exists>x'. pl_going B n w0 d0 x' pl' \<and> (pl_rank w0 x' pl', pl_rank w0 x pl) \<in> pl_order"
proof -
  obtain m sh N where x: "x = (m, sh, N)" by (cases x)
  have wf: "wf_steps (ws_steps (sh_work sh))" using J by (simp add: x pl_going_def resume_ok_def)
  have P: "pl_params pl = params_for B (Some n) (ws_steps (sh_work sh))" using J by (simp add: x pl_going_def)
  note su = params_for_setup[OF B n wf, folded P]
  show ?thesis using step
  proof cases
    case (live_task r)
    have "run_live (pl_params pl) (ws_steps (sh_work sh)) (ws_finished_tables (sh_work sh)) N (pl_run pl)"
      using J by (auto simp: x pl_going_def)
    from quiet_step_live[OF su(3,1,2) this live_task(3)] obtain N' where
      N': "run_live (pl_params pl) (ws_steps (sh_work sh)) (ws_finished_tables (sh_work sh)) N' r"
        "(run_stage (pl_params pl) (ws_steps (sh_work sh)) N' r, run_stage (pl_params pl) (ws_steps (sh_work sh)) N (pl_run pl)) \<in> stage_order"
      by blast
    have st: "run_step (pl_params pl) (pl_run pl) r" using live_task(3) by (simp add: quiet_step_def)
    obtain ing where "reachable (pl_params pl) (start_run sh ing False) (pl_run pl)" using J by (auto simp: x pl_going_def)
    then have "reachable (pl_params pl) (start_run sh ing False) r"
      using st unfolding reachable_def by (rule rtranclp.rtrancl_into_rtrancl)
    then have "pl_going B n w0 d0 (m, sh, N') pl'" using J N'(1) by (auto simp: x live_task(1,2) pl_going_def)
    moreover have "(pl_rank w0 (m, sh, N') pl', pl_rank w0 x pl) \<in> pl_order"
      using N'(2) by (simp add: x live_task(1,2) pl_rank_def)
    ultimately show ?thesis by blast
  next
    case (live_outcome st)
    have "st \<noteq> Running" using pl_going_outcome[OF J[unfolded x] live_outcome(3)] by auto
    then show ?thesis using J live_outcome by (intro exI[of _ x]) (auto simp: x pl_going_def pl_rank_def)
  next
    case live_continue
    then show ?thesis using pl_continue_going[OF B n J[unfolded x] live_continue]
      by (intro exI[of _ "(m + n, rs_shared (pl_run pl), 0)"]) (simp add: x pl_rank_def)
  qed
qed

lemma pl_idle_going:
  "pl_going B n w0 d0 x pl \<Longrightarrow> pl_idle pl pl' \<Longrightarrow> pl_going B n w0 d0 x pl' \<and> pl_rank w0 x pl' = pl_rank w0 x pl"
  by (erule pl_idle.cases) (auto simp: pl_going_def pl_rank_def pl_wait_def set_rate_limit_enabled_def split: prod.splits)

text \<open>One pipeline scheduler among the many, which shows that a pipeline not stopped can take a step.\<close>

definition pl_next :: "(string \<Rightarrow> string) \<Rightarrow> 's run_params \<Rightarrow> 's pipeline \<Rightarrow> 's pipeline" where
  "pl_next dbg B pl = (case pl_state pl of
     Running \<Rightarrow> (case rs_phase (pl_run pl) of
         Ended st \<Rightarrow> pl\<lparr>pl_state := st\<rparr>
       | _ \<Rightarrow> pl\<lparr>pl_run := next_step (pl_params pl) (pl_run pl)\<rparr>)
   | Paused \<Rightarrow> snd (continue_pipeline dbg B pl)
   | _ \<Rightarrow> pl)"

lemma pl_next_live:
  assumes B: "0 < rp_target B" "reads_nonempty B" "faultless B" and n: "0 < n" and J: "pl_going B n w0 d0 x pl"
  shows "pl_live dbg B pl (pl_next dbg B pl) \<or> pl_state pl = Stopped Completed"
proof -
  obtain m sh N where x: "x = (m, sh, N)" by (cases x)
  have wf: "wf_steps (ws_steps (sh_work sh))" using J by (simp add: x pl_going_def resume_ok_def)
  have P: "pl_params pl = params_for B (Some n) (ws_steps (sh_work sh))" using J by (simp add: x pl_going_def)
  note su = params_for_setup[OF B n wf, folded P]
  show ?thesis
  proof (cases "pl_state pl = Running")
    case True
    show ?thesis
    proof (cases "\<exists>st. rs_phase (pl_run pl) = Ended st")
      case ended: True
      then show ?thesis using True live_outcome[of pl _ dbg B] by (auto simp: pl_next_def)
    next
      case False
      have "\<not> rs_cancelled (pl_run pl)" "healthy (pl_params pl) (pl_run pl)" using J by (auto simp: x pl_going_def run_live_def)
      from live_task[OF True quiet_progress[OF su(3,1) this False], of dbg B] show ?thesis
        using True False by (cases "rs_phase (pl_run pl)") (simp_all add: pl_next_def)
    qed
  next
    case False
    then have "rs_phase (pl_run pl) = Ended (pl_state pl)" using J by (simp add: x pl_going_def)
    with pl_going_outcome[OF J[unfolded x] this] show ?thesis
      using live_continue[of dbg B pl "snd (continue_pipeline dbg B pl)"] by (auto simp: pl_next_def continue_pipeline_def)
  qed
qed

lemma pl_run_steps_going:
  assumes "dataset_ok (pl_dataset pl)" "0 < rp_target B" "reads_nonempty B" "faultless B" "0 < n"
    and "\<not> rs_cancelled (pl_run pl)" "pl_run_steps B n pl = (Inr (), pl1)"
  shows "pl_going B n (ws_steps (pl_plan pl)) (pl_delivered pl1) (0, (rs_shared (pl_run pl))\<lparr>sh_work := pl_plan pl\<rparr>, 0) pl1"
proof -
  let ?sh = "(rs_shared (pl_run pl))\<lparr>sh_work := pl_plan pl\<rparr>"
  have pl1: "pl1 = spawn_run_task B (Some n) (pl_build_work_plan (pl\<lparr>pl_batch_budget := Some n\<rparr>))"
    using assms(7) by (simp add: pl_run_steps_def)
  have plan: "pl_plan (pl\<lparr>pl_batch_budget := Some n\<rparr>) = pl_plan pl" by (simp add: pl_plan_def)
  have wf: "wf_steps (ws_steps (sh_work ?sh))" using pl_plan_ok(1)[OF assms(1)] by simp
  have "ws_finished_tables (pl_plan pl) = {}" by (simp add: pl_plan_def build_work_plan_def)
  then have ok: "resume_ok (rp_read B) (ws_steps (pl_plan pl)) (pl_delivered pl1) 0 (sh_work ?sh) (pl_delivered pl1)"
    using resume_ok_start[OF pl_plan_ok(1)[OF assms(1)]] by simp
  have run: "pl_run pl1 = start_run ?sh (rs_ingest (pl_run pl)) False"
      "pl_params pl1 = params_for B (Some n) (ws_steps (sh_work ?sh))" "pl_state pl1 = Running" "pl_batch_budget pl1 = Some n"
    using assms(6) by (simp_all add: pl1 spawn_run_task_def pl_build_work_plan_def plan)
  have "run_live (pl_params pl1) (ws_steps (sh_work ?sh)) (ws_finished_tables (sh_work ?sh)) 0 (pl_run pl1)"
    unfolding run(1,2) by (rule start_run_live[OF params_for_setup(1)[OF assms(2-5) wf]])
  then show ?thesis using ok run unfolding pl_going_def by (auto simp: reachable_def)
qed

lemma going_arrives:
  assumes B: "0 < rp_target B" "reads_nonempty B" "faultless B" and n: "0 < n"
    and \<sigma>: "fair_schedule (pl_live dbg B) pl_idle \<sigma>" and J: "pl_going B n w0 d0 x (\<sigma> 0)"
  shows "\<exists>k. pl_state (\<sigma> k) = Stopped Completed"
proof (rule fair_schedule_arrives[OF \<sigma> pl_order_wf, where J = "pl_going B n w0 d0" and rank = "pl_rank w0"])
  show "pl_going B n w0 d0 x (\<sigma> 0)" by (rule J)
  fix x pl pl'
  assume x: "pl_going B n w0 d0 x pl"
  show "pl_live dbg B pl pl' \<Longrightarrow> \<exists>x'. pl_going B n w0 d0 x' pl' \<and> (pl_rank w0 x' pl', pl_rank w0 x pl) \<in> pl_order"
    by (rule pl_live_going[OF B n x])
  show "pl_idle pl pl' \<Longrightarrow> pl_going B n w0 d0 x pl' \<and> pl_rank w0 x pl' = pl_rank w0 x pl"
    by (rule pl_idle_going[OF x])
  show "\<nexists>pl'. pl_live dbg B pl pl' \<Longrightarrow> pl_state pl = Stopped Completed"
    using pl_next_live[OF B n x] by blast
qed

text \<open>
  C3. A resumed pipeline completes. In every schedule without failures, panics and cancellation in
  which the tasks take their steps, outcomes are received and the caller continues the pipeline
  after each pause (with other calls in between, and as long as such a step is possible), the
  pipeline completes, whatever the length of its intervals and the order of the steps.
\<close>

theorem resumed_pipeline_completes:
  assumes "dataset_ok (pl_dataset pl)" "0 < rp_target B" "reads_nonempty B" "faultless B" "0 < n"
    and "\<not> rs_cancelled (pl_run pl)" "pl_run_steps B n pl = (Inr (), pl1)"
    and "\<sigma> 0 = pl1" "fair_schedule (pl_live dbg B) pl_idle \<sigma>"
  shows "\<exists>k. pl_state (\<sigma> k) = Stopped Completed"
  using going_arrives[OF assms(2-5,9)] pl_run_steps_going[OF assms(1-7)] assms(8) by blast

lemma pl_next_stays: "pl_state pl = Stopped r \<Longrightarrow> pl_next dbg B pl = pl"
  by (simp add: pl_next_def)

lemma pl_nexts:
  assumes "dataset_ok (pl_dataset pl)" "0 < rp_target B" "reads_nonempty B" "faultless B" "0 < n"
    and "\<not> rs_cancelled (pl_run pl)" "pl_run_steps B n pl = (Inr (), pl1)"
  shows "\<exists>x. pl_going B n (ws_steps (pl_plan pl)) (pl_delivered pl1) x ((pl_next dbg B ^^ k) pl1)"
    and "(pl_step dbg B)\<^sup>*\<^sup>* pl1 ((pl_next dbg B ^^ k) pl1)"
proof (induction k)
  case 0
  {
    case 1
    then show ?case using pl_run_steps_going[OF assms] by auto
  next
    case 2
    then show ?case by simp
  }
next
  case (Suc k)
  let ?s = "\<lambda>k. (pl_next dbg B ^^ k) pl1"
  obtain x where x: "pl_going B n (ws_steps (pl_plan pl)) (pl_delivered pl1) x (?s k)" using Suc(1) by blast
  consider "pl_live dbg B (?s k) (?s (Suc k))" | "?s (Suc k) = ?s k"
    using pl_next_live[OF assms(2-5) x, of dbg] pl_next_stays by auto
  note step = this
  {
    case 1
    show ?case using step
    proof cases
      case 1
      from pl_live_going[OF assms(2-5) x this] show ?thesis by blast
    next
      case 2
      then show ?thesis using x by metis
    qed
  next
    case 2
    show ?case using step
    proof cases
      case 1
      from pl_live_step[OF this] Suc(2) show ?thesis by (rule rtranclp.rtrancl_into_rtrancl[rotated])
    qed (use Suc(2) in auto)
  }
qed

lemma pl_nexts_fair:
  assumes "dataset_ok (pl_dataset pl)" "0 < rp_target B" "reads_nonempty B" "faultless B" "0 < n"
    and "\<not> rs_cancelled (pl_run pl)" "pl_run_steps B n pl = (Inr (), pl1)"
  shows "fair_schedule (pl_live dbg B) pl_idle (\<lambda>k. (pl_next dbg B ^^ k) pl1)"
proof -
  let ?s = "\<lambda>k. (pl_next dbg B ^^ k) pl1"
  have stuck: "\<not> pl_live dbg B pl' pl2" if "pl_state pl' = Stopped Completed" for pl' pl2
    using that by (auto elim!: pl_live.cases simp: continue_pipeline_def)
  have "pl_live dbg B (?s k) (?s (Suc k)) \<or> ?s (Suc k) = ?s k \<and> (\<nexists>s'. pl_live dbg B (?s k) s')" for k
  proof -
    obtain x where "pl_going B n (ws_steps (pl_plan pl)) (pl_delivered pl1) x (?s k)" using pl_nexts(1)[OF assms] by blast
    from pl_next_live[OF assms(2-5) this, of dbg] show ?thesis
    proof
      assume "pl_state (?s k) = Stopped Completed"
      then show ?thesis using stuck[of "?s k"] pl_next_stays[of "?s k"] by auto
    qed auto
  qed
  then show ?thesis unfolding fair_schedule_def by (metis order_refl)
qed

lemma resumed_completes_ok:
  assumes "dataset_ok (pl_dataset pl)" "0 < rp_target B" "reads_nonempty B" "faultless B" "0 < n"
    and "\<not> rs_cancelled (pl_run pl)" "pl_run_steps B n pl = (Inr (), pl1)"
  shows "\<exists>pl2. (pl_step dbg B)\<^sup>*\<^sup>* pl1 pl2 \<and> pl_state pl2 = Stopped Completed"
proof -
  have "\<exists>k. pl_state ((pl_next dbg B ^^ k) pl1) = Stopped Completed"
    using going_arrives[OF assms(2-5) pl_nexts_fair[OF assms]] pl_run_steps_going[OF assms] by simp
  then show ?thesis using pl_nexts(2)[OF assms] by blast
qed

subsection \<open>Initialization loads the first batches\<close>

lemma init_join_ok:
  "init_join B sch tbs ing = (None, ing') \<Longrightarrow> (t, i) \<in> set tbs \<Longrightarrow> has_data (rp_read B) t i"
proof (induction B sch tbs ing rule: init_join.induct)
  case (1 B sch ing)
  then show ?case by simp
next
  case (2 B sch tb tbs ing)
  obtain ing1 where i: "in_panic sch (fst tb) = None" "init_task B sch tb ing = (None, ing1)"
      "init_join B sch tbs ing1 = (None, ing')"
    using 2(2) by (auto simp: Let_def split: option.splits prod.splits)
  show ?case
  proof (cases "(t, i) = tb")
    case True
    then show ?thesis using i(2) by (auto simp: init_task_def has_data_def split: sum.splits option.splits)
  next
    case False
    then show ?thesis using 2(1)[OF refl i(1) i(2)[symmetric] refl i(3)] 2(3) by simp
  qed
qed

lemma pl_initialize_keeps:
  "pl_dataset (snd (pl_initialize dbg B sch pl)) = pl_dataset pl"
  "rs_cancelled (pl_run (snd (pl_initialize dbg B sch pl))) = rs_cancelled (pl_run pl)"
  by (simp_all add: pl_initialize_def Let_def split: option.splits prod.splits)

lemma init_batches_mem:
  assumes "distinct (map pt_name tables)" "t \<in> set tables"
  shows "filter (\<lambda>(u, _). u = pt_name t) (init_batches tables)
    = (case pt_batch_ids t of i # _ \<Rightarrow> [(pt_name t, i)] | [] \<Rightarrow> [])"
  using assms
proof (induction tables)
  case Nil
  then show ?case by simp
next
  case (Cons a tables)
  have none: "filter (\<lambda>(u, _). u = pt_name a) (init_batches tables) = []" if "pt_name a \<notin> pt_name ` set tables"
    using that by (induction tables) (auto simp: init_batches_def split: list.splits)
  show ?case
  proof (cases "t = a")
    case True
    then show ?thesis using Cons.prems none by (auto simp: init_batches_def split: list.splits)
  next
    case False
    then have "pt_name a \<noteq> pt_name t" "t \<in> set tables" using Cons.prems by auto
    then show ?thesis using Cons by (auto simp: init_batches_def split: list.splits)
  qed
qed

lemma first_batches_filter:
  "first_batches B tbs t = concat (map (\<lambda>(u, i). data_of (rp_read B) t [i]) (filter (\<lambda>(u, _). u = t) tbs))"
  by (induction tbs) (auto simp: first_batches_def)

lemma filter_single_mset: "mset xs = mset ys \<Longrightarrow> filter P ys = [y] \<Longrightarrow> filter P xs = [y]"
  by (metis mset_filter mset_single_iff_right)

lemma pl_initialize_ok:
  assumes "dataset_ok (pl_dataset pl)" "\<And>xs. mset (in_order_of sch xs) = mset xs"
    and i: "pl_initialize dbg B sch pl = (Inr (), pl1)" and t: "t \<in> set (pl_dataset pl)" "pt_batch_ids t \<noteq> []"
  shows "pl_state pl1 = Initialized" "pl_dataset pl1 = pl_dataset pl" "has_data (rp_read B) (pt_name t) (hd (pt_batch_ids t))"
    "pl_delivered pl1 (pt_name t) = pl_delivered pl (pt_name t) @ data_of (rp_read B) (pt_name t) [hd (pt_batch_ids t)]"
    "rs_delivered (pl_run pl1) = rs_delivered (pl_run pl)"
proof -
  let ?tbs = "in_order_of sch (init_batches (pl_dataset pl))"
  obtain ing where j: "init_join B sch ?tbs (rs_ingest (pl_run pl)) = (None, ing)"
    using i by (cases "init_join B sch ?tbs (rs_ingest (pl_run pl))")
      (auto simp: pl_initialize_def Let_def split: if_splits option.splits prod.splits)
  show "pl_state pl1 = Initialized" "pl_dataset pl1 = pl_dataset pl" "rs_delivered (pl_run pl1) = rs_delivered (pl_run pl)"
    using i by (auto simp: pl_initialize_def j Let_def split: if_splits option.splits prod.splits)
  obtain k ks where k: "pt_batch_ids t = k # ks" using t(2) by (cases "pt_batch_ids t") auto
  have "filter (\<lambda>(u, _). u = pt_name t) (init_batches (pl_dataset pl)) = [(pt_name t, k)]"
    using init_batches_mem[of "pl_dataset pl" t] assms(1) t k by (simp add: dataset_ok_def)
  from filter_single_mset[OF assms(2) this] have f: "filter (\<lambda>(u, _). u = pt_name t) ?tbs = [(pt_name t, k)]" .
  have "(pt_name t, k) \<in> set (filter (\<lambda>(u, _). u = pt_name t) ?tbs)" unfolding f by simp
  then have "(pt_name t, k) \<in> set ?tbs" by simp
  then show "has_data (rp_read B) (pt_name t) (hd (pt_batch_ids t))" using init_join_ok[OF j] k by simp
  have "first_batches B ?tbs (pt_name t) = data_of (rp_read B) (pt_name t) [k]" by (simp add: first_batches_filter f)
  then show "pl_delivered pl1 (pt_name t) = pl_delivered pl (pt_name t) @ data_of (rp_read B) (pt_name t) [hd (pt_batch_ids t)]"
    using i k by (auto simp: pl_initialize_def j Let_def split: if_splits option.splits prod.splits)
qed

text \<open>
  C2. A benchmark loads its whole dataset: a new pipeline that is initialized and then run in
  intervals until it completes has delivered to each table all its batches from the first one on,
  in ascending order, the batch loaded by the initialization included and not repeated.
\<close>

theorem initialized_pipeline_delivers_dataset:
  assumes "pl_new (Inr tables) B sk src m = Inr pl" "dataset_ok tables"
    and "\<And>xs. mset (in_order_of sch xs) = mset xs" "pl_initialize dbg B sch pl = (Inr (), pl1)"
    and "0 < rp_target B" "reads_nonempty B" "0 < n" "pl_run_steps B n pl1 = (Inr (), pl2)" "(pl_step dbg B)\<^sup>*\<^sup>* pl2 pl3"
    and "pl_state pl3 = Stopped Completed" "t \<in> set tables" "pt_batch_ids t \<noteq> []" "sorted (pt_batch_ids t)"
  shows "pl_total pl3 (pt_name t) = due (rp_read B) (pt_name t) (sorted_list_of_set (set (pt_batch_ids t)))"
proof -
  have pl: "pl_dataset pl = tables" "pl_delivered pl = (\<lambda>_. [])" "rs_delivered (pl_run pl) = (\<lambda>_. [])"
    using assms(1) by (auto simp: pl_new_def fresh_run_def start_run_def)
  note init = pl_initialize_ok[OF assms(2)[folded pl(1)] assms(3,4) assms(11)[folded pl(1)] assms(12)]
  have ds: "dataset_ok (pl_dataset pl1)" "t \<in> set (pl_dataset pl1)" using assms(2,11) init(2) pl(1) by simp_all
  let ?k = "hd (pt_batch_ids t)" and ?ids = "set (pt_batch_ids t)"
  have "pl_inv B n (ws_steps (pl_plan pl1)) (pl_total pl1) (pl_checkpoint_idx pl1) pl3"
    by (rule pl_steps_inv[OF assms(9,5,6,7) pl_run_steps_inv[OF pl_plan_ok(1)[OF ds(1)] assms(8)]])
  then have tot: "pl_total pl3 (pt_name t) = pl_total pl1 (pt_name t)
      @ due (rp_read B) (pt_name t) (sorted_list_of_set {i \<in> ?ids. i \<noteq> ?k})"
    using assms(10) pl_plan_ok(2)[OF ds] init(1) by (simp add: pl_inv_def)
  have first: "pl_total pl1 (pt_name t) = data_of (rp_read B) (pt_name t) [?k]"
    by (simp add: pl_total_def init(4,5) pl)
  have "\<forall>i \<in> ?ids. ?k \<le> i" using assms(12,13) by (cases "pt_batch_ids t") auto
  then have "sorted_list_of_set ?ids = ?k # sorted_list_of_set {i \<in> ?ids. i \<noteq> ?k}"
    using sorted_list_of_set_nonempty[of ?ids] assms(12) Min_eqI[of ?ids ?k]
    by (simp add: set_diff_eq hd_in_set)
  then show ?thesis unfolding tot first using due_prefix[of "rp_read B" "pt_name t" "[?k]"] init(3) by simp
qed

subsection \<open>A small pipeline\<close>

definition demo_table :: dataset_table where
  "demo_table = \<lparr>pt_name = ''a'', pt_schema = sample_schema, pt_primary_key = [''k''], pt_partition_columns = [],
     pt_batch_ids = [2, 3]\<rparr>"

definition demo_pipeline :: "write_call list pipeline" where
  "demo_pipeline = projr (pl_new (Inr [demo_table]) (demo_params None 4) [] Tpch sample_mutations)"

definition demo_running :: "write_call list pipeline" where
  "demo_running = snd (pl_run_steps (demo_params None 4) 1 demo_pipeline)"

lemma demo_pipeline_facts:
  "dataset_ok (pl_dataset demo_pipeline)" "\<not> rs_cancelled (pl_run demo_pipeline)" "pl_total demo_pipeline = (\<lambda>_. [])"
  "pl_run_steps (demo_params None 4) 1 demo_pipeline = (Inr (), demo_running)" "pl_checkpoint_idx demo_pipeline = 0"
  "0 < rp_target (demo_params None 4)" "ws_steps (pl_plan demo_pipeline) = [(2, [''a'']), (3, [''a''])]"
  "pl_dataset demo_pipeline = [demo_table]" "pl_state demo_pipeline = NotStarted"
  by (simp_all add: demo_pipeline_def pl_new_def dataset_ok_def demo_table_def fresh_run_def start_run_def pl_total_def[abs_def]
      demo_running_def pl_run_steps_def demo_params_def pl_plan_def build_work_plan_def)

lemma demo_due: "due (rp_read (demo_params None 4)) t ids = replicate (length (takeWhile (\<lambda>k. k \<le> 3) ids)) sample_batch"
  by (induction ids) (auto simp: due_def demo_params_def has_data_def sample_reads_def data_of_def result_of_def sample_result_def)

theorem checkpoints_are_deterministic_witness:
  "\<exists>pl. (pl_step (\<lambda>s. s) (demo_params None 4))\<^sup>*\<^sup>* demo_running pl \<and> pl_state pl = Paused \<and> pl_total pl ''a'' = [sample_batch]"
proof -
  let ?B = "demo_params None 4 :: write_call list run_params" and ?sh = "(rs_shared (pl_run demo_pipeline))\<lparr>sh_work := pl_plan demo_pipeline\<rparr>"
  have run: "pl_state demo_running = Running" "pl_params demo_running = params_for ?B (Some 1) (ws_steps (sh_work ?sh))"
      "pl_run demo_running = start_run ?sh (rs_ingest (pl_run demo_pipeline)) False" "pl_checkpoint_idx demo_running = 0"
    using demo_pipeline_facts(2,5)
    by (simp_all add: demo_running_def pl_run_steps_def spawn_run_task_def pl_build_work_plan_def pl_plan_def)
  have wf: "wf_steps (ws_steps (sh_work ?sh))" by (simp add: demo_pipeline_facts(7))
  note su = params_for_setup[OF demo_pipeline_facts(6) demo_nonempty demo_faultless _ wf, of 1, folded run(2)]
  have "run_target (pl_params demo_running) (ws_steps (sh_work ?sh)) = Paused"
    unfolding run(2) by (simp add: run_target_def params_for_def demo_pipeline_facts(7))
  then obtain k where k: "rs_phase ((next_step (pl_params demo_running) ^^ k) (pl_run demo_running)) = Ended Paused"
    using next_steps_end[OF su, of "rs_ingest (pl_run demo_pipeline)"] run(3) by auto
  let ?s = "(next_step (pl_params demo_running) ^^ k) (pl_run demo_running)"
  let ?pl = "demo_running\<lparr>pl_run := ?s, pl_state := Paused\<rparr>"
  have "reachable (pl_params demo_running) (pl_run demo_running) ?s"
    by (rule next_steps_reachable) (simp add: run(3) start_run_def)
  from pl_task_steps[OF this run(1), of "\<lambda>s. s" ?B]
  have s: "(pl_step (\<lambda>s. s) ?B)\<^sup>*\<^sup>* demo_running ?pl"
    using pl_outcome[of "demo_running\<lparr>pl_run := ?s\<rparr>" Paused "\<lambda>s. s" ?B] k run(1)
    by (simp add: rtranclp.rtrancl_into_rtrancl)
  have "pl_total ?pl ''a'' = [sample_batch]"
    using checkpoints_are_deterministic[OF demo_pipeline_facts(1,6) demo_nonempty _ demo_pipeline_facts(4) s, of "''a''"]
    by (simp add: run(4) demo_pipeline_facts(3,5,7) ids_within_def demo_due)
  then show ?thesis using s by (intro exI[of _ ?pl]) simp
qed

lemma demo_completes: "\<exists>pl. (pl_step dbg (demo_params None 4))\<^sup>*\<^sup>* demo_running pl \<and> pl_state pl = Stopped Completed"
  by (rule resumed_completes_ok[OF demo_pipeline_facts(1,6) demo_nonempty demo_faultless _ demo_pipeline_facts(2,4)]) simp_all

theorem resumed_pipeline_completes_witness:
  "\<exists>k. pl_state ((pl_next (\<lambda>s. s) (demo_params None 4) ^^ k) demo_running) = Stopped Completed"
  by (rule resumed_pipeline_completes[OF demo_pipeline_facts(1,6) demo_nonempty demo_faultless _ demo_pipeline_facts(2,4) _
        pl_nexts_fair[OF demo_pipeline_facts(1,6) demo_nonempty demo_faultless _ demo_pipeline_facts(2,4)]]) simp_all

theorem interrupted_pipeline_delivers_all_witness:
  "\<exists>pl. (pl_step (\<lambda>s. s) (demo_params None 4))\<^sup>*\<^sup>* demo_running pl \<and> pl_state pl = Stopped Completed
     \<and> pl_total pl ''a'' = [sample_batch, sample_batch]"
proof -
  obtain pl where pl: "(pl_step (\<lambda>s. s) (demo_params None 4))\<^sup>*\<^sup>* demo_running pl" "pl_state pl = Stopped Completed"
    using demo_completes by blast
  have t: "demo_table \<in> set (pl_dataset demo_pipeline)" by (simp add: demo_pipeline_facts(8))
  have "{i. i = 2 \<or> i = 3} = {2, 3 :: nat}" by auto
  with interrupted_pipeline_delivers_all[OF demo_pipeline_facts(1,6) demo_nonempty _ demo_pipeline_facts(4) pl t]
  have "pl_total pl ''a'' = [sample_batch, sample_batch]"
    by (simp add: demo_pipeline_facts(3,9) demo_table_def demo_due)
  then show ?thesis using pl by blast
qed

definition demo_init :: init_schedule where
  "demo_init = \<lparr>in_ts = (\<lambda>_. 0), in_chunks = (\<lambda>_ _. in_order), in_panic = (\<lambda>_. None), in_order_of = (\<lambda>xs. xs), in_late = 0\<rparr>"

definition demo_initialized :: "write_call list pipeline" where
  "demo_initialized = snd (pl_initialize (\<lambda>s. s) (demo_params None 4) demo_init demo_pipeline)"

lemma demo_initialize: "pl_initialize (\<lambda>s. s) (demo_params None 4) demo_init demo_pipeline = (Inr (), demo_initialized)"
proof -
  let ?B = "demo_params None 4 :: write_call list run_params"
  have rd: "rp_read ?B ''a'' 2 = Inr (Some sample_result)" by (simp add: demo_params_def sample_reads_def)
  have fl: "rp_flush ?B = (\<lambda>sk. (None, sk))" by (simp add: demo_params_def)
  have w: "fst (task_writes ?B ''a'' 2 0 (\<lambda>_. in_order) [''k''] [sample_batch] ing) = None" for ing
  proof -
    have "sample_batch \<in> read_batches ?B ''a''" using rd unfolding read_batches_def by (fastforce simp: sample_result_def)
    then show ?thesis using demo_faultless[of 4 None] in_order_fair unfolding faultless_def by simp
  qed
  have "fst (init_join ?B demo_init [(''a'', 2)] ing) = None" for ing
    using w[of ing] by (cases "task_writes ?B ''a'' 2 0 (\<lambda>_. in_order) [''k''] [sample_batch] ing")
      (simp add: init_task_def demo_init_def rd sample_result_def)
  moreover have "init_batches (pl_dataset demo_pipeline) = [(''a'', 2)]" "in_order_of demo_init = (\<lambda>xs. xs)"
    by (simp_all add: demo_pipeline_facts(8) init_batches_def demo_table_def demo_init_def)
  ultimately have "fst (pl_initialize (\<lambda>s. s) ?B demo_init demo_pipeline) = Inr ()"
    by (simp add: pl_initialize_def demo_pipeline_facts(9) Let_def fl)
  then show ?thesis unfolding demo_initialized_def by (metis prod.collapse)
qed

theorem initialized_pipeline_delivers_dataset_witness:
  "\<exists>pl. (pl_step (\<lambda>s. s) (demo_params None 4))\<^sup>*\<^sup>* (snd (pl_run_steps (demo_params None 4) 1 demo_initialized)) pl
     \<and> pl_state pl = Stopped Completed \<and> pl_total pl ''a'' = [sample_batch, sample_batch]"
proof -
  let ?B = "demo_params None 4 :: write_call list run_params"
  have new: "pl_new (Inr [demo_table]) ?B [] Tpch sample_mutations = Inr demo_pipeline"
    by (simp add: demo_pipeline_def pl_new_def)
  have ds: "dataset_ok [demo_table]" using demo_pipeline_facts(1,8) by simp
  have o: "mset (in_order_of demo_init xs) = mset xs" for xs by (simp add: demo_init_def)
  have run: "pl_run_steps ?B 1 demo_initialized = (Inr (), snd (pl_run_steps ?B 1 demo_initialized))"
    by (simp add: pl_run_steps_def)
  have di: "pl_dataset demo_initialized = [demo_table]" "\<not> rs_cancelled (pl_run demo_initialized)"
    using pl_initialize_keeps[of "\<lambda>s. s" ?B demo_init demo_pipeline] demo_pipeline_facts(2,8)
    by (simp_all add: demo_initialized_def)
  obtain pl where pl: "(pl_step (\<lambda>s. s) ?B)\<^sup>*\<^sup>* (snd (pl_run_steps ?B 1 demo_initialized)) pl" "pl_state pl = Stopped Completed"
    using resumed_completes_ok[OF _ demo_pipeline_facts(6) demo_nonempty demo_faultless _ di(2) run] ds di(1) by auto
  have "pl_total pl ''a'' = [sample_batch, sample_batch]"
    using initialized_pipeline_delivers_dataset[OF new ds o demo_initialize demo_pipeline_facts(6) demo_nonempty _ run pl, of demo_table]
    by (simp add: demo_table_def demo_due)
  then show ?thesis using pl by blast
qed

end
