(* ===== verification/DurationParse.thy ===== *)
theory DurationParse
  imports Decimal F64
begin

text \<open>
  \<^verbatim>\<open>crates/duration-parse/src/lib.rs\<close>: parsing of human-readable durations such as
  \<^verbatim>\<open>1h30m\<close>, \<^verbatim>\<open>2.5d\<close> or \<^verbatim>\<open>15e-1s\<close> without floating point, and their formatting.
  A \<^verbatim>\<open>&str\<close> is its list of UTF-8 bytes. The outer option of the fallible parsers is a panic
  (\<open>None\<close>), the sum is the \<^verbatim>\<open>Result\<close>.
\<close>

datatype ParseError = InvalidInput string | Syntax nat string

type_synonym 'a parse_result = "(ParseError + 'a) option"

subsection \<open>Standard library: durations, whitespace and prefixes\<close>

record duration =
  d_secs :: nat
  d_nanos :: nat

definition duration_max :: duration where
  "duration_max = \<lparr>d_secs = u64_max, d_nanos = 999999999\<rparr>"

definition duration_zero :: duration where
  "duration_zero = \<lparr>d_secs = 0, d_nanos = 0\<rparr>"

definition duration_ok :: "duration \<Rightarrow> bool" where
  "duration_ok d \<longleftrightarrow> d_secs d \<le> u64_max \<and> d_nanos d < 1000000000"

definition duration_saturating_add :: "duration \<Rightarrow> duration \<Rightarrow> duration" where
  "duration_saturating_add a b =
     (let secs = d_secs a + d_secs b; nanos = d_nanos a + d_nanos b;
          secs' = (if nanos \<ge> 1000000000 then secs + 1 else secs);
          nanos' = (if nanos \<ge> 1000000000 then nanos - 1000000000 else nanos)
      in if secs > u64_max \<or> secs' > u64_max then duration_max
         else \<lparr>d_secs = secs', d_nanos = nanos'\<rparr>)"

text \<open>
  Length in bytes of the white space character (\<^verbatim>\<open>char::is_whitespace\<close>) a byte string starts
  with, 0 when it does not start with one.
\<close>

fun ws_len :: "nat list \<Rightarrow> nat" where
  "ws_len (b # bs) =
     (if 9 \<le> b \<and> b \<le> 13 \<or> b = 32 then 1
      else case bs of
          [] \<Rightarrow> 0
        | c # cs \<Rightarrow>
            if b = 194 \<and> (c = 133 \<or> c = 160) then 2
            else case cs of
                [] \<Rightarrow> 0
              | d # _ \<Rightarrow>
                  if b = 225 \<and> c = 154 \<and> d = 128
                    \<or> b = 226 \<and> c = 128 \<and> (128 \<le> d \<and> d \<le> 138 \<or> d = 168 \<or> d = 169 \<or> d = 175)
                    \<or> b = 226 \<and> c = 129 \<and> d = 159
                    \<or> b = 227 \<and> c = 128 \<and> d = 128
                  then 3 else 0)"
| "ws_len [] = 0"

definition white_len :: "string \<Rightarrow> nat" where
  "white_len s = ws_len (map of_char (take 3 s))"

lemma white_len_pos: "white_len s > 0 \<Longrightarrow> s \<noteq> []"
  by (cases s) (auto simp: white_len_def)

function trim_start :: "string \<Rightarrow> string" where
  "trim_start s = (if white_len s > 0 then trim_start (drop (white_len s) s) else s)"
  by pat_completeness auto
termination
  by (relation "measure length") (simp, metis diff_less in_measure length_drop length_greater_0_conv white_len_pos)

text \<open>The length of the white space character a string ends with.\<close>

definition white_suffix_len :: "string \<Rightarrow> nat" where
  "white_suffix_len s =
     (let n = length s in
      if n \<ge> 1 \<and> white_len (drop (n - 1) s) = 1 then 1
      else if n \<ge> 2 \<and> white_len (drop (n - 2) s) = 2 then 2
      else if n \<ge> 3 \<and> white_len (drop (n - 3) s) = 3 then 3 else 0)"

lemma white_suffix_len_pos: "white_suffix_len s > 0 \<Longrightarrow> s \<noteq> []"
  by (auto simp: white_suffix_len_def Let_def)

function trim_end :: "string \<Rightarrow> string" where
  "trim_end s =
     (if white_suffix_len s > 0 then trim_end (take (length s - white_suffix_len s) s) else s)"
  by pat_completeness auto
termination
  by (relation "measure length") (simp, use white_suffix_len_pos in fastforce)

declare trim_start.simps [simp del] trim_end.simps [simp del]

definition trim :: "string \<Rightarrow> string" where
  "trim s = trim_end (trim_start s)"

definition strip_prefix :: "string \<Rightarrow> string \<Rightarrow> string option" where
  "strip_prefix p s = (if take (length p) s = p then Some (drop (length p) s) else None)"

definition ascii_lower :: "char \<Rightarrow> char" where
  "ascii_lower c = (let n = of_char c :: nat in if 65 \<le> n \<and> n \<le> 90 then char_of (n + 32) else c)"

definition eq_ignore_ascii_case :: "string \<Rightarrow> string \<Rightarrow> bool" where
  "eq_ignore_ascii_case a b \<longleftrightarrow> map ascii_lower a = map ascii_lower b"

definition is_ascii :: "char \<Rightarrow> bool" where
  "is_ascii c \<longleftrightarrow> (of_char c :: nat) < 128"

subsection \<open>Units and constants\<close>

definition NANOS_PER_NANOSECOND :: nat where "NANOS_PER_NANOSECOND = 1"
definition NANOS_PER_MICROSECOND :: nat where "NANOS_PER_MICROSECOND = 1000"
definition NANOS_PER_MILLISECOND :: nat where "NANOS_PER_MILLISECOND = 1000000"
definition NANOS_PER_SECOND :: nat where "NANOS_PER_SECOND = 1000000000"
definition NANOS_PER_MINUTE :: nat where "NANOS_PER_MINUTE = 60 * NANOS_PER_SECOND"
definition NANOS_PER_HOUR :: nat where "NANOS_PER_HOUR = 60 * NANOS_PER_MINUTE"
definition NANOS_PER_DAY :: nat where "NANOS_PER_DAY = 24 * NANOS_PER_HOUR"
definition NANOS_PER_WEEK :: nat where "NANOS_PER_WEEK = 7 * NANOS_PER_DAY"
definition MAX_EXPONENT_MAGNITUDE :: nat where "MAX_EXPONENT_MAGNITUDE = 20"

lemmas nanos_per_defs = NANOS_PER_NANOSECOND_def NANOS_PER_MICROSECOND_def NANOS_PER_MILLISECOND_def
  NANOS_PER_SECOND_def NANOS_PER_MINUTE_def NANOS_PER_HOUR_def NANOS_PER_DAY_def NANOS_PER_WEEK_def

definition time_units :: "(string \<times> nat) list" where
  "time_units =
     [(''ns'', NANOS_PER_NANOSECOND), (''us'', NANOS_PER_MICROSECOND), (''Ms'', NANOS_PER_MICROSECOND),
      (''ms'', NANOS_PER_MILLISECOND), (''s'', NANOS_PER_SECOND), (''m'', NANOS_PER_MINUTE),
      (''h'', NANOS_PER_HOUR), (''d'', NANOS_PER_DAY), (''w'', NANOS_PER_WEEK)]"

fun find_unit :: "(string \<times> nat) list \<Rightarrow> string \<Rightarrow> (nat \<times> string) option" where
  "find_unit [] input = None"
| "find_unit ((suffix, nanos) # units) input =
     (case strip_prefix suffix input of Some rest \<Rightarrow> Some (nanos, rest) | None \<Rightarrow> find_unit units input)"

text \<open>Without a known unit the number is in seconds, whether a letter follows or not.\<close>

definition parse_time_unit :: "string \<Rightarrow> nat \<times> string" where
  "parse_time_unit input =
     (case find_unit time_units input of Some r \<Rightarrow> r | None \<Rightarrow> (NANOS_PER_SECOND, input))"

subsection \<open>Numbers\<close>

record parsed_number =
  pn_integer :: nat
  pn_frac_digits :: nat
  pn_frac_value :: nat

text \<open>
  The two ways the shifted decimal point can fall: behind the last digit (the number becomes an
  integer, saturating at \<^verbatim>\<open>u64::MAX\<close>), or before it.
\<close>

definition quote :: string where "quote = [CHR 0x27]"

definition shift_to_integer :: "string \<Rightarrow> nat \<Rightarrow> ParseError + (nat \<times> nat \<times> nat)" where
  "shift_to_integer all_digits trailing_zeros =
     (case parse_unsigned u128_max all_digits of
        None \<Rightarrow> Inl (InvalidInput ''Number too large'')
      | Some new_integer \<Rightarrow>
          (case checked_pow_u128 10 trailing_zeros of
             None \<Rightarrow> Inr (u64_max, 0, 0)
           | Some m \<Rightarrow>
               (case checked_mul_u128 new_integer m of
                  None \<Rightarrow> Inr (u64_max, 0, 0)
                | Some result \<Rightarrow>
                    if result \<le> u64_max then Inr (result, 0, 0) else Inr (u64_max, 0, 0))))"

definition shift_to_fraction :: "string \<Rightarrow> nat \<Rightarrow> ParseError + (nat \<times> nat \<times> nat)" where
  "shift_to_fraction all_digits new_frac_count =
     (let total_len = length all_digits
      in if new_frac_count \<ge> total_len
         then let padded_frac = replicate (new_frac_count - total_len) (CHR ''0'') @ all_digits
              in (case parse_unsigned u64_max padded_frac of
                    None \<Rightarrow> Inl (InvalidInput ''Fractional part too large'')
                  | Some v \<Rightarrow> Inr (0, v, length padded_frac mod 2 ^ 32))
         else let split_at = total_len - new_frac_count;
                  int_part = take split_at all_digits;
                  frac_part = drop split_at all_digits
              in (case parse_unsigned u64_max int_part of
                    None \<Rightarrow> Inl (InvalidInput ''Number too large'')
                  | Some new_integer \<Rightarrow>
                      (case (if frac_part = [] then Some 0 else parse_unsigned u64_max frac_part) of
                         None \<Rightarrow> Inl (InvalidInput ''Fractional part too large'')
                       | Some v \<Rightarrow> Inr (new_integer, v, length frac_part mod 2 ^ 32))))"

text \<open>The digits of the integer part followed by those of the fraction, padded to their count.\<close>

definition all_digits_of :: "nat \<Rightarrow> nat \<Rightarrow> nat \<Rightarrow> string" where
  "all_digits_of integer frac_value frac_digits =
     show_nat integer @ (if frac_digits > 0 then show_padded frac_digits frac_value else [])"

definition apply_exponent ::
  "nat \<Rightarrow> nat \<Rightarrow> nat \<Rightarrow> string \<Rightarrow> ParseError + (nat \<times> nat \<times> nat \<times> string)" where
  "apply_exponent integer frac_value frac_digits input =
     (let exp_negative = (case input of c # _ \<Rightarrow> c = CHR ''-'' | [] \<Rightarrow> False);
          signed = (case input of c # _ \<Rightarrow> c = CHR ''-'' \<or> c = CHR ''+'' | [] \<Rightarrow> False);
          body = (if signed then tl input else input);
          digits = takeWhile is_digit body;
          rest = dropWhile is_digit body
      in if digits = []
         then Inl (InvalidInput (''Expected digits after exponent '' @ quote @ ''e'' @ quote))
         else case parse_unsigned (2 ^ 31 - 1) digits of
             None \<Rightarrow> Inl (InvalidInput ''Exponent too large'')
           | Some exp_val \<Rightarrow>
               if exp_val > MAX_EXPONENT_MAGNITUDE
               then Inl (InvalidInput (''Exponent magnitude '' @ show_nat exp_val
                      @ '' exceeds maximum ('' @ show_nat MAX_EXPONENT_MAGNITUDE @ '')''))
               else
                 let exp = (if exp_negative then - int exp_val else int exp_val);
                     all_digits = all_digits_of integer frac_value frac_digits;
                     new_frac = int frac_digits - exp
                 in and_then
                      (if new_frac \<le> 0 then shift_to_integer all_digits (nat \<bar>new_frac\<bar>)
                       else shift_to_fraction all_digits (nat new_frac))
                      (\<lambda>(i, v, k). Inr (i, v, k, rest)))"

text \<open>The digits of the integer part, those of the fraction, and the text after the number.\<close>

definition scan_number :: "string \<Rightarrow> string \<times> string \<times> string" where
  "scan_number input =
     (let int_part = takeWhile is_digit input
      in case dropWhile is_digit input of
           c # cs \<Rightarrow>
             if c = CHR ''.'' then (int_part, takeWhile is_digit cs, dropWhile is_digit cs)
             else (int_part, [], c # cs)
         | [] \<Rightarrow> (int_part, [], []))"

text \<open>
  The message of the syntax error at position 0 slices the first byte off the input, which
  panics when the input starts with a character of more than one byte.
\<close>

definition parse_number :: "string \<Rightarrow> (parsed_number \<times> string) parse_result" where
  "parse_number input =
     (if input = [] then Some (Inl (InvalidInput ''Expected a number''))
      else case scan_number input of (int_part, frac_part, remaining) \<Rightarrow>
        let frac_digits = min (length frac_part) u32_max
        in case (if frac_digits > 0 then parse_unsigned u64_max frac_part else Some 0) of
             None \<Rightarrow> Some (Inl (Syntax (length int_part + 1) ''Invalid fractional part''))
           | Some frac_value \<Rightarrow>
               if int_part = [] \<and> frac_digits = 0
               then (if is_ascii (hd input)
                     then Some (Inl (Syntax 0 (''Expected a number, found '' @ quote @ [hd input] @ quote)))
                     else None)
               else case (if int_part \<noteq> [] then parse_unsigned u64_max int_part else Some 0) of
                   None \<Rightarrow> Some (Inl (InvalidInput ''Number too large''))
                 | Some integer \<Rightarrow>
                     if remaining \<noteq> [] \<and> (hd remaining = CHR ''e'' \<or> hd remaining = CHR ''E'')
                     then Some (and_then (apply_exponent integer frac_value frac_digits (tl remaining))
                            (\<lambda>(i, v, k, rest).
                               Inr (\<lparr>pn_integer = i, pn_frac_digits = k, pn_frac_value = v\<rparr>, rest)))
                     else Some (Inr (\<lparr>pn_integer = integer, pn_frac_digits = frac_digits,
                                      pn_frac_value = frac_value\<rparr>, remaining)))"

subsection \<open>Durations\<close>

definition multiply_to_nanos :: "parsed_number \<Rightarrow> nat \<Rightarrow> nat" where
  "multiply_to_nanos number unit_nanos =
     (let integer_nanos = pn_integer number * unit_nanos
      in if pn_frac_digits number > 0 \<and> pn_frac_value number > 0
         then (case checked_pow_u128 10 (pn_frac_digits number) of
                 None \<Rightarrow> integer_nanos
               | Some denominator \<Rightarrow>
                   integer_nanos +
                     (case checked_mul_u128 (pn_frac_value number) unit_nanos of
                        None \<Rightarrow> 0
                      | Some numerator \<Rightarrow> numerator div denominator))
         else integer_nanos)"

definition nanos_to_duration :: "nat \<Rightarrow> duration" where
  "nanos_to_duration nanos =
     (let secs = nanos div 1000000000; subsec_nanos = nanos mod 1000000000
      in if secs \<le> u64_max then \<lparr>d_secs = secs, d_nanos = subsec_nanos\<rparr> else duration_max)"

lemma strip_prefix_length: "strip_prefix p s = Some r \<Longrightarrow> length r \<le> length s"
  by (auto simp: strip_prefix_def split: if_splits)

lemma find_unit_length: "find_unit us s = Some (n, r) \<Longrightarrow> length r \<le> length s"
  by (induction us) (auto dest: strip_prefix_length split: option.splits)

lemma parse_time_unit_length: "length (snd (parse_time_unit s)) \<le> length s"
  by (auto simp: parse_time_unit_def dest: find_unit_length split: option.splits)

lemma apply_exponent_length:
  assumes "apply_exponent i v k s = Inr (i', v', k', rest)"
  shows "length rest \<le> length s"
proof -
  have "length (dropWhile is_digit (tl s)) \<le> length s"
    by (metis diff_le_self le_trans length_dropWhile_le length_tl)
  moreover have "length (dropWhile is_digit s) \<le> length s" by (rule length_dropWhile_le)
  ultimately show ?thesis using assms
    by (auto simp: apply_exponent_def Let_def result_simps split: if_splits option.splits prod.splits)
qed

text \<open>A number takes at least one byte off the input.\<close>

lemma scan_number_length:
  assumes "scan_number s = (ip, fp, rest)" and "ip \<noteq> [] \<or> fp \<noteq> []"
  shows "length rest < length s"
proof -
  have sum: "length t = length (takeWhile is_digit t) + length (dropWhile is_digit t)" for t
    by (metis length_append takeWhile_dropWhile_id)
  show ?thesis
  proof (cases "dropWhile is_digit s")
    case Nil
    then have "scan_number s = (takeWhile is_digit s, [], [])"
      by (simp only: scan_number_def Let_def list.case)
    then show ?thesis using assms by (cases s) auto
  next
    case (Cons c cs)
    then have "length s = length (takeWhile is_digit s) + Suc (length cs)" using sum[of s] by simp
    moreover have "scan_number s =
        (if c = CHR ''.'' then (takeWhile is_digit s, takeWhile is_digit cs, dropWhile is_digit cs)
         else (takeWhile is_digit s, [], c # cs))"
      by (simp only: scan_number_def Let_def Cons list.case)
    ultimately show ?thesis using assms sum[of cs] by (auto split: if_splits)
  qed
qed

lemma parse_number_length:
  assumes p: "parse_number s = Some (Inr (n, rest))"
  shows "length rest < length s"
proof -
  obtain ip fp r where sn: "scan_number s = (ip, fp, r)" by (cases "scan_number s")
  have ne: "ip \<noteq> [] \<or> fp \<noteq> []" using p
    by (auto simp: parse_number_def sn Let_def split: if_splits option.splits)
  have "length rest \<le> length r" using p
    by (auto simp: parse_number_def sn Let_def result_simps
        split: if_splits option.splits prod.splits dest!: apply_exponent_length)
  then show ?thesis using scan_number_length[OF sn ne] by simp
qed

lemma trim_start_length: "length (trim_start s) \<le> length s"
proof (induction s rule: trim_start.induct)
  case (1 s)
  then show ?case by (subst trim_start.simps) fastforce
qed

text \<open>
  The loop of \<^verbatim>\<open>parse_compound_duration\<close>: \<open>None\<close> in the result is the panic of the number
  parser, the last component tells whether a segment was parsed.
\<close>

function compound_loop :: "duration \<Rightarrow> bool \<Rightarrow> string \<Rightarrow> (duration \<times> bool) parse_result" where
  "compound_loop acc parsed_any remaining =
     (if remaining = [] then Some (Inr (acc, parsed_any))
      else let trimmed = trim_start remaining in
        if trimmed = [] then Some (Inr (acc, parsed_any))
        else case parse_number trimmed of
            None \<Rightarrow> None
          | Some (Inl e) \<Rightarrow> Some (Inl e)
          | Some (Inr (number, rest)) \<Rightarrow>
              (case parse_time_unit rest of (unit_nanos, rest') \<Rightarrow>
                 compound_loop
                   (duration_saturating_add acc
                      (nanos_to_duration (multiply_to_nanos number unit_nanos)))
                   True rest'))"
  by pat_completeness auto

termination
proof (relation "measure (\<lambda>(_, _, r). length r)", goal_cases)
  case 1
  then show ?case by simp
next
  case (2 acc parsed_any remaining trimmed a b number rest unit_nanos rest')
  then have "length rest < length trimmed" "length rest' \<le> length rest" "length trimmed \<le> length remaining"
    using parse_number_length[of trimmed number rest] parse_time_unit_length[of rest]
      trim_start_length[of remaining] by (auto dest: arg_cong[of _ _ snd] simp del: length_greater_0_conv)
  then show ?case by simp
qed

declare compound_loop.simps [simp del]

definition parse_compound_duration :: "string \<Rightarrow> duration parse_result" where
  "parse_compound_duration input =
     map_option
       (\<lambda>r. and_then r
          (\<lambda>(total, parsed_any).
             if parsed_any then Inr total
             else Inl (InvalidInput (''Invalid duration: '' @ quote @ input @ quote))))
       (compound_loop duration_zero False input)"

definition parse_duration :: "string \<Rightarrow> duration parse_result" where
  "parse_duration s =
     (let input = trim s in
      if input = [] then Some (Inl (InvalidInput ''Empty input''))
      else if hd input = CHR ''-''
      then Some (Inl (InvalidInput ''Negative durations are not supported''))
      else
        let input' = (case strip_prefix ''+'' input of Some rest \<Rightarrow> rest | None \<Rightarrow> input) in
        if input' = [] then Some (Inl (InvalidInput ''Missing number after sign''))
        else if eq_ignore_ascii_case input' ''inf'' \<or> eq_ignore_ascii_case input' ''infinity''
        then Some (Inr duration_max)
        else parse_compound_duration input')"

text \<open>\<^verbatim>\<open>format_duration\<close>: one part per non-zero unit, joined by blanks.\<close>

definition unit_part :: "nat \<Rightarrow> string \<Rightarrow> string list" where
  "unit_part n suffix = (if n > 0 then [show_nat n @ suffix] else [])"

fun join :: "string \<Rightarrow> string list \<Rightarrow> string" where
  "join sep [] = []"
| "join sep [x] = x"
| "join sep (x # y # xs) = x @ sep @ join sep (y # xs)"

definition format_duration :: "duration \<Rightarrow> string" where
  "format_duration d =
     (if d_secs d = 0 \<and> d_nanos d = 0 then ''0s''
      else
        let secs = d_secs d; nanos = d_nanos d;
            weeks = secs div (7 * 24 * 3600);
            secs1 = (if weeks > 0 then secs mod (7 * 24 * 3600) else secs);
            days = secs1 div (24 * 3600);
            secs2 = (if days > 0 then secs1 mod (24 * 3600) else secs1);
            hours = secs2 div 3600;
            secs3 = (if hours > 0 then secs2 mod 3600 else secs2);
            minutes = secs3 div 60;
            secs4 = (if minutes > 0 then secs3 mod 60 else secs3);
            millis = nanos div 1000000;
            nanos1 = (if millis > 0 then nanos mod 1000000 else nanos);
            micros = nanos1 div 1000;
            nanos2 = (if micros > 0 then nanos1 mod 1000 else nanos1)
        in join '' ''
             (unit_part weeks ''w'' @ unit_part days ''d'' @ unit_part hours ''h''
              @ unit_part minutes ''m'' @ unit_part secs4 ''s''
              @ unit_part millis ''ms'' @ unit_part micros ''us'' @ unit_part nanos2 ''ns''))"

text \<open>\<^verbatim>\<open>DurationArg\<close>, its \<^verbatim>\<open>FromStr\<close> and its conversion back.\<close>

datatype DurationArg = DurationArg duration

definition duration_arg_from_str :: "string \<Rightarrow> DurationArg parse_result" where
  "duration_arg_from_str s = map_option (\<lambda>r. and_then r (\<lambda>d. Inr (DurationArg d))) (parse_duration s)"

fun duration_of_arg :: "DurationArg \<Rightarrow> duration" where
  "duration_of_arg (DurationArg d) = d"

text \<open>\<^verbatim>\<open>Display\<close>, and \<^verbatim>\<open>Deref\<close> as the conversion back.\<close>

definition duration_arg_display :: "DurationArg \<Rightarrow> string" where
  "duration_arg_display a = format_duration (duration_of_arg a)"

subsection \<open>Durations as saturating nanosecond counts\<close>

definition total_nanos :: "duration \<Rightarrow> nat" where
  "total_nanos d = d_secs d * 1000000000 + d_nanos d"

lemma nanos_to_duration_total: "duration_ok d \<Longrightarrow> nanos_to_duration (total_nanos d) = d"
  by (simp add: duration_ok_def nanos_to_duration_def total_nanos_def Let_def)

lemma nanos_to_duration_ok: "duration_ok (nanos_to_duration n)"
  by (simp add: duration_ok_def nanos_to_duration_def duration_max_def Let_def)

lemma nanos_to_duration_0: "nanos_to_duration 0 = duration_zero"
  by (simp add: nanos_to_duration_def duration_zero_def)

text \<open>Adding saturated durations saturates the sum: no addend is lost before the bound.\<close>

lemma saturating_add_nanos:
  "duration_saturating_add (nanos_to_duration a) (nanos_to_duration b) = nanos_to_duration (a + b)"
proof -
  let ?G = "1000000000 :: nat"
  define qa ra qb rb where d: "qa = a div ?G" "ra = a mod ?G" "qb = b div ?G" "rb = b mod ?G"
  have r: "ra < ?G" "rb < ?G" by (simp_all add: d)
  have "a + b = (qa + qb) * ?G + (ra + rb)" using div_mult_mod_eq[of a ?G] div_mult_mod_eq[of b ?G]
    by (simp add: d algebra_simps)
  then have "(a + b) div ?G = qa + qb + (ra + rb) div ?G" "(a + b) mod ?G = (ra + rb) mod ?G"
    by (simp_all only: mod_mult_self3) (simp add: div_mult_self3)
  moreover have "(ra + rb) div ?G = (if ra + rb \<ge> ?G then 1 else 0)"
      "(ra + rb) mod ?G = (if ra + rb \<ge> ?G then ra + rb - ?G else ra + rb)"
    using r by (auto simp: div_if mod_if)
  ultimately have q: "(a + b) div ?G = qa + qb + (if ra + rb \<ge> ?G then 1 else 0)"
      "(a + b) mod ?G = (if ra + rb \<ge> ?G then ra + rb - ?G else ra + rb)" by simp_all
  show ?thesis using r
    unfolding nanos_to_duration_def duration_saturating_add_def Let_def q duration_max_def d[symmetric]
    by (auto simp: not_le)
qed

subsection \<open>Segments\<close>

definition segment :: "nat \<times> string \<Rightarrow> string" where
  "segment = (\<lambda>(n, u). show_nat n @ u)"

definition unit_nanos_of :: "string \<Rightarrow> nat" where
  "unit_nanos_of u = the (map_of time_units u)"

lemma parse_number_integer:
  assumes n: "n \<le> u64_max" and s: "s \<noteq> []" "\<not> is_digit (hd s)" "hd s \<noteq> CHR ''.''" "hd s \<noteq> CHR ''e''"
    "hd s \<noteq> CHR ''E''"
  shows "parse_number (show_nat n @ s) =
    Some (Inr (\<lparr>pn_integer = n, pn_frac_digits = 0, pn_frac_value = 0\<rparr>, s))"
proof -
  have tw: "takeWhile is_digit (show_nat n @ s) = show_nat n" "dropWhile is_digit (show_nat n @ s) = s"
    using takeWhile_digits[OF show_nat_digits[of n], of s] s by simp_all
  have p: "parse_unsigned u64_max (show_nat n) = Some n" using n by (rule parse_unsigned_show)
  have "scan_number (show_nat n @ s) = (show_nat n, [], s)"
    unfolding scan_number_def tw using s(1,3) by (cases s) simp_all
  then show ?thesis using s(4,5) p by (simp add: parse_number_def)
qed

lemma strip_prefix_append [simp]: "strip_prefix p (p @ s) = Some s"
  by (simp add: strip_prefix_def)

definition unit_end :: "string \<Rightarrow> bool" where
  "unit_end s \<longleftrightarrow> s = [] \<or> hd s = CHR '' ''"

lemma known_unit:
  assumes "(u, k) \<in> set time_units" and "unit_end s"
  shows "parse_time_unit (u @ s) = (k, s)" "unit_nanos_of u = k"
proof -
  have s: "take 1 s \<noteq> ''s''" using assms(2) by (cases s) (auto simp: unit_end_def)
  have u: "u = ''ns'' \<and> k = NANOS_PER_NANOSECOND \<or> u = ''us'' \<and> k = NANOS_PER_MICROSECOND
      \<or> u = ''Ms'' \<and> k = NANOS_PER_MICROSECOND \<or> u = ''ms'' \<and> k = NANOS_PER_MILLISECOND
      \<or> u = ''s'' \<and> k = NANOS_PER_SECOND \<or> u = ''m'' \<and> k = NANOS_PER_MINUTE
      \<or> u = ''h'' \<and> k = NANOS_PER_HOUR \<or> u = ''d'' \<and> k = NANOS_PER_DAY
      \<or> u = ''w'' \<and> k = NANOS_PER_WEEK"
    using assms(1) by (simp only: time_units_def list.set insert_iff empty_iff prod.inject simp_thms)
  show "parse_time_unit (u @ s) = (k, s)" using u s
    by (elim disjE conjE) (simp_all add: parse_time_unit_def time_units_def strip_prefix_def)
  show "unit_nanos_of u = k" using u
    by (elim disjE conjE) (simp_all add: unit_nanos_of_def time_units_def)
qed

lemma known_unit_start:
  "(u, k) \<in> set time_units \<Longrightarrow>
     u @ s \<noteq> [] \<and> \<not> is_digit (hd (u @ s)) \<and> hd (u @ s) \<notin> {CHR ''.'', CHR ''e'', CHR ''E''}"
  by (auto simp: time_units_def is_digit_def)


subsection \<open>Parsing what was formatted\<close>

lemma white_len_nonblank:
  "s \<noteq> [] \<Longrightarrow> is_ascii (hd s) \<Longrightarrow> of_char (hd s) \<notin> ({9..13} \<union> {32} :: nat set) \<Longrightarrow> white_len s = 0"
  by (cases s) (auto simp: white_len_def is_ascii_def split: list.splits)

lemma digit_nonblank: "is_digit c \<Longrightarrow> is_ascii c \<and> of_char c \<notin> ({9..13} \<union> {32} :: nat set)"
  by (auto simp: is_digit_def is_ascii_def)

lemma trim_start_nonblank:
  "s \<noteq> [] \<Longrightarrow> is_digit (hd s) \<Longrightarrow> trim_start s = s"
  using white_len_nonblank[of s] digit_nonblank[of "hd s"] by (subst trim_start.simps) simp

lemma trim_start_blank: "s \<noteq> [] \<Longrightarrow> is_digit (hd s) \<Longrightarrow> trim_start (CHR '' '' # s) = s"
  by (subst trim_start.simps) (simp add: white_len_def trim_start_nonblank)

lemma show_nat_hd: "is_digit (hd (show_nat n @ s))"
  using show_nat_digits[of n] by (cases "show_nat n") auto

text \<open>Joined segments with known units are added up, saturating only at the end.\<close>

lemma compound_loop_segments:
  assumes "\<forall>(n, u) \<in> set segs. n \<le> u64_max \<and> u \<in> fst ` set time_units"
  shows "segs \<noteq> [] \<Longrightarrow>
      (s = join '' '' (map segment segs) \<or> s = '' '' @ join '' '' (map segment segs)) \<Longrightarrow>
      compound_loop (nanos_to_duration a) p s =
      Some (Inr (nanos_to_duration (a + (\<Sum>(n, u) \<leftarrow> segs. n * unit_nanos_of u)), True))"
  using assms
proof (induction segs arbitrary: a p s)
  case Nil
  then show ?case by simp
next
  case (Cons seg segs)
  obtain n u where seg: "seg = (n, u)" by (cases seg)
  obtain k where k: "(u, k) \<in> set time_units" using Cons.prems seg by auto
  define t where "t = (if segs = [] then [] else '' '' @ join '' '' (map segment segs))"
  have te: "unit_end t" by (simp add: t_def unit_end_def)
  have j: "join '' '' (map segment (seg # segs)) = show_nat n @ u @ t"
    by (cases segs) (simp_all add: t_def seg segment_def)
  have trimmed: "trim_start s = show_nat n @ u @ t" "s \<noteq> []"
    using Cons.prems(2) trim_start_nonblank trim_start_blank show_nat_hd[of n "u @ t"] unfolding j by auto
  have num: "parse_number (show_nat n @ u @ t) =
      Some (Inr (\<lparr>pn_integer = n, pn_frac_digits = 0, pn_frac_value = 0\<rparr>, u @ t))"
    using Cons.prems(3) seg known_unit_start[OF k, of t] by (intro parse_number_integer) auto
  have step: "compound_loop (nanos_to_duration a) p s =
      compound_loop (nanos_to_duration (a + n * k)) True t"
    by (subst compound_loop.simps)
      (simp add: trimmed num known_unit(1)[OF k te] multiply_to_nanos_def saturating_add_nanos)
  show ?case
  proof (cases "segs = []")
    case True
    then show ?thesis unfolding step
      by (subst compound_loop.simps) (simp add: t_def seg known_unit(2)[OF k te])
  next
    case False
    then have "compound_loop (nanos_to_duration (a + n * k)) True t =
        Some (Inr (nanos_to_duration (a + n * k + (\<Sum>(n, u) \<leftarrow> segs. n * unit_nanos_of u)), True))"
      using Cons.prems(3) by (intro Cons.IH) (auto simp: t_def)
    then show ?thesis unfolding step by (simp add: seg known_unit(2)[OF k te] add.assoc)
  qed
qed

text \<open>The parts of a formatted duration as number and unit.\<close>

definition part :: "nat \<Rightarrow> string \<Rightarrow> (nat \<times> string) list" where
  "part n u = (if n > 0 then [(n, u)] else [])"

definition duration_parts :: "duration \<Rightarrow> (nat \<times> string) list" where
  "duration_parts d =
     (let s = d_secs d; n = d_nanos d in
      part (s div 604800) ''w'' @ part (s mod 604800 div 86400) ''d''
      @ part (s mod 86400 div 3600) ''h'' @ part (s mod 3600 div 60) ''m'' @ part (s mod 60) ''s''
      @ part (n div 1000000) ''ms'' @ part (n mod 1000000 div 1000) ''us'' @ part (n mod 1000) ''ns'')"

lemma unit_part_segments: "unit_part n u = map segment (part n u)"
  by (simp add: unit_part_def part_def segment_def)

lemma skip_zero_unit: "(if 0 < n div k then n mod k else n) = n mod (k :: nat)"
  by (cases "n < k") (auto simp: div_eq_0_iff)

lemma format_duration_parts:
  assumes "d_secs d \<noteq> 0 \<or> d_nanos d \<noteq> 0"
  shows "format_duration d = join '' '' (map segment (duration_parts d))"
proof -
  have m: "s mod 604800 mod 86400 = s mod 86400" "s mod 86400 mod 3600 = s mod 3600"
      "s mod 3600 mod 60 = s mod 60" "s mod 1000000 mod 1000 = s mod 1000" for s :: nat
    by (simp_all add: mod_mod_cancel)
  show ?thesis using assms
    unfolding format_duration_def duration_parts_def Let_def unit_part_segments map_append[symmetric]
      skip_zero_unit mult_numeral_left by (auto simp: m)
qed

lemma part_sum: "(\<Sum>(n, u) \<leftarrow> part n u. n * unit_nanos_of u) = n * unit_nanos_of u"
  by (simp add: part_def)

lemma unit_nanos_values [simp]:
  "unit_nanos_of ''w'' = 604800 * 1000000000" "unit_nanos_of ''d'' = 86400 * 1000000000"
  "unit_nanos_of ''h'' = 3600 * 1000000000" "unit_nanos_of ''m'' = 60 * 1000000000"
  "unit_nanos_of ''s'' = 1000000000" "unit_nanos_of ''ms'' = 1000000"
  "unit_nanos_of ''us'' = 1000" "unit_nanos_of ''ns'' = 1"
  by (simp_all add: unit_nanos_of_def time_units_def nanos_per_defs)

lemma duration_parts_sum: "(\<Sum>(n, u) \<leftarrow> duration_parts d. n * unit_nanos_of u) = total_nanos d"
proof -
  have s: "s div 604800 * 604800 + (s mod 604800 div 86400 * 86400 + (s mod 86400 div 3600 * 3600
      + (s mod 3600 div 60 * 60 + s mod 60))) = s" for s :: nat
  proof -
    have "s mod 3600 div 60 * 60 + s mod 60 = s mod 3600" "s mod 86400 div 3600 * 3600 + s mod 3600 = s mod 86400"
        "s mod 604800 div 86400 * 86400 + s mod 86400 = s mod 604800"
      using div_mult_mod_eq[of "s mod 3600" 60] div_mult_mod_eq[of "s mod 86400" 3600]
        div_mult_mod_eq[of "s mod 604800" 86400] by (simp_all add: mod_mod_cancel)
    then show ?thesis by simp
  qed
  have n: "n div 1000000 * 1000000 + (n mod 1000000 div 1000 * 1000 + n mod 1000) = n" for n :: nat
    using div_mult_mod_eq[of "n mod 1000000" 1000] div_mult_mod_eq[of n 1000000]
    by (simp add: mod_mod_cancel)
  let ?s = "d_secs d" and ?G = "1000000000 :: nat"
  have "(\<Sum>(n, u) \<leftarrow> duration_parts d. n * unit_nanos_of u) =
      (?s div 604800 * 604800 + (?s mod 604800 div 86400 * 86400 + (?s mod 86400 div 3600 * 3600
      + (?s mod 3600 div 60 * 60 + ?s mod 60)))) * ?G
      + (d_nanos d div 1000000 * 1000000 + (d_nanos d mod 1000000 div 1000 * 1000 + d_nanos d mod 1000))"
    unfolding duration_parts_def Let_def map_append sum_list_append part_sum unit_nanos_values
    by (simp only: add_mult_distrib mult.assoc[symmetric] mult_1_right add.assoc)
  then show ?thesis unfolding s n by (simp add: total_nanos_def)
qed

lemma white_suffix_len_nonblank:
  assumes "s \<noteq> []" "is_ascii (last s)" "of_char (last s) \<notin> ({9..13} \<union> {32} :: nat set)"
  shows "white_suffix_len s = 0"
proof -
  obtain t c where s: "s = t @ [c]" using assms(1) by (cases s rule: rev_cases) auto
  have 1: "white_len [c] \<noteq> 1" using assms white_len_nonblank[of "[c]"] by (simp add: s)
  have 2: "white_len [x, c] \<noteq> 2" for x using assms(2) by (auto simp: s white_len_def is_ascii_def)
  have 3: "white_len [x, y, c] \<noteq> 3" for x y using assms(2) by (auto simp: s white_len_def is_ascii_def)
  have d2: "\<exists>x. drop (length s - 2) s = [x, c]" if "2 \<le> length s"
    using that by (cases t rule: rev_cases) (auto simp: s)
  have d3: "\<exists>x y. drop (length s - 3) s = [x, y, c]" if l: "3 \<le> length s"
  proof -
    obtain t1 y where t1: "t = t1 @ [y]" using l by (cases t rule: rev_cases) (auto simp: s)
    then obtain t2 x where "t1 = t2 @ [x]" using l by (cases t1 rule: rev_cases) (auto simp: s)
    then show ?thesis using t1 by (simp add: s)
  qed
  have d1: "drop (length s - 1) s = [c]" by (simp add: s)
  show ?thesis using 1 2 3 d1 d2 d3 by (auto simp: white_suffix_len_def Let_def)
qed

lemma trim_segments:
  assumes "s \<noteq> []" "is_digit (hd s)" "is_ascii (last s)" "of_char (last s) \<notin> ({9..13} \<union> {32} :: nat set)"
  shows "trim s = s"
  unfolding trim_def trim_start_nonblank[OF assms(1,2)]
  by (subst trim_end.simps) (simp add: white_suffix_len_nonblank[OF assms(1,3,4)])

lemma join_segments_last:
  "segs \<noteq> [] \<Longrightarrow> \<forall>(n, u) \<in> set segs. u \<noteq> [] \<Longrightarrow>
     join '' '' (map segment segs) \<noteq> [] \<and> last (join '' '' (map segment segs)) = last (snd (last segs))"
proof (induction segs rule: induct_list012)
  case (3 x y zs)
  then show ?case by (auto simp: last_append split: if_splits)
qed (auto simp: segment_def)

lemma unit_last:
  "(u, k) \<in> set time_units \<Longrightarrow> u \<noteq> [] \<and> is_ascii (last u) \<and> of_char (last u) \<notin> ({9..13} \<union> {32} :: nat set)"
  by (auto simp: time_units_def is_ascii_def)

lemma parse_segments_ok:
  assumes ne: "segs \<noteq> []" and ok: "\<forall>(n, u) \<in> set segs. n \<le> u64_max \<and> u \<in> fst ` set time_units"
  shows "parse_duration (join '' '' (map segment segs)) =
    Some (Inr (nanos_to_duration (\<Sum>(n, u) \<leftarrow> segs. n * unit_nanos_of u)))"
proof -
  define s where "s = join '' '' (map segment segs)"
  have u: "\<forall>(n, u) \<in> set segs. u \<noteq> []" using ok unit_last by fastforce
  have l: "s \<noteq> []" "last s = last (snd (last segs))" using join_segments_last[OF ne u] by (simp_all add: s_def)
  have "snd (last segs) \<in> fst ` set time_units" using ok last_in_set[OF ne] by (cases "last segs") auto
  then have lu: "is_ascii (last s)" "of_char (last s) \<notin> ({9..13} \<union> {32} :: nat set)"
    using unit_last l(2) by auto
  obtain n w rest where segs: "segs = (n, w) # rest" using ne by (cases segs) auto
  have "\<exists>t. s = show_nat n @ t" unfolding s_def segs by (cases rest) (simp_all add: segment_def)
  then have h: "is_digit (hd s)" using show_nat_hd by metis
  have tr: "trim s = s" by (rule trim_segments[OF l(1) h lu])
  obtain c cs where c: "s = c # cs" using l(1) by (cases s) auto
  have dc: "is_digit c" using h c by simp
  have low: "ascii_lower c = c" using dc by (simp add: ascii_lower_def is_digit_def Let_def)
  have "c \<noteq> CHR ''i''" using dc by (auto simp: is_digit_def)
  then have ni: "\<not> eq_ignore_ascii_case s ''inf''" "\<not> eq_ignore_ascii_case s ''infinity''"
    by (simp_all add: eq_ignore_ascii_case_def c low) (simp_all add: ascii_lower_def Let_def)
  have sp: "strip_prefix ''+'' s = None" using dc by (auto simp: strip_prefix_def c)
  have "parse_duration s = parse_compound_duration s"
    using tr ni sp l(1) dc by (simp add: parse_duration_def c)
  also have "\<dots> = Some (Inr (nanos_to_duration (\<Sum>(n, u) \<leftarrow> segs. n * unit_nanos_of u)))"
    using compound_loop_segments[OF ok ne, of s 0 False]
    by (simp add: parse_compound_duration_def s_def nanos_to_duration_0)
  finally show ?thesis by (simp add: s_def)
qed

lemma show_nat_0: "show_nat 0 = ''0''"
  by code_simp

text \<open>
  C22. Formatting a duration and parsing the text gives the duration back, for every duration the
  type can hold: no unit is lost, misread or added twice, and no intermediate sum saturates.
\<close>

theorem format_parse_roundtrip:
  assumes "duration_ok d"
  shows "parse_duration (format_duration d) = Some (Inr d)"
proof (cases "d_secs d = 0 \<and> d_nanos d = 0")
  case True
  then have "d = duration_zero" by (simp add: duration_zero_def)
  moreover have "format_duration d = join '' '' (map segment [(0, ''s'')])"
    using True show_nat_0 by (simp add: format_duration_def segment_def)
  ultimately show ?thesis using parse_segments_ok[of "[(0, ''s'')]"]
    by (simp add: nanos_to_duration_0 time_units_def)
next
  case False
  have le: "k \<le> u64_max" if "k \<le> d_secs d \<or> k \<le> d_nanos d" for k
    using that assms by (auto simp: duration_ok_def)
  have "\<forall>(n, u) \<in> set (duration_parts d). n \<le> u64_max \<and> u \<in> fst ` set time_units"
  proof (clarify, intro conjI)
    fix n u assume nu: "(n, u) \<in> set (duration_parts d)"
    have "s mod a div b \<le> s" for s a b :: nat by (meson div_le_dividend le_trans mod_less_eq_dividend)
    then have "n \<le> d_secs d \<or> n \<le> d_nanos d" using nu
      by (auto simp: duration_parts_def part_def Let_def split: if_splits)
    then show "n \<le> u64_max" by (rule le)
    show "u \<in> fst ` set time_units" using nu
      by (auto simp: duration_parts_def part_def Let_def time_units_def split: if_splits)
  qed
  moreover have "total_nanos d > 0" using False by (auto simp: total_nanos_def)
  then have "duration_parts d \<noteq> []" using duration_parts_sum[of d] by auto
  ultimately show ?thesis using False assms
    by (simp add: format_duration_parts parse_segments_ok duration_parts_sum nanos_to_duration_total)
qed

theorem format_parse_roundtrip_witness:
  "parse_duration (format_duration \<lparr>d_secs = u64_max, d_nanos = 999999999\<rparr>) =
     Some (Inr \<lparr>d_secs = u64_max, d_nanos = 999999999\<rparr>)"
  by (rule format_parse_roundtrip) (simp add: duration_ok_def)

subsection \<open>Decimal fractions and exponents\<close>

definition decimal :: "nat \<Rightarrow> nat \<Rightarrow> nat \<Rightarrow> rat" where
  "decimal i v k = of_nat i + of_nat v / 10 ^ k"

lemma decimal_digits: "decimal i v k = of_nat (i * 10 ^ k + v) / 10 ^ k"
  by (simp add: decimal_def field_simps)

text \<open>
  C23. The nanoseconds of a number in a unit are the exact product rounded down, for every fraction
  the parser can produce and every unit: the fallbacks for a denominator or a product beyond 128
  bits never lose a nanosecond.
\<close>

theorem multiply_to_nanos_floor:
  assumes "pn_frac_value n \<le> u64_max" and "u \<le> NANOS_PER_WEEK" and "pn_frac_digits n = 0 \<longrightarrow> pn_frac_value n = 0"
  shows "int (multiply_to_nanos n u) =
    \<lfloor>decimal (pn_integer n) (pn_frac_value n) (pn_frac_digits n) * of_nat u\<rfloor>"
proof -
  let ?i = "pn_integer n" and ?v = "pn_frac_value n" and ?k = "pn_frac_digits n"
  have vu: "?v * u \<le> u128_max"
    using mult_le_mono[OF assms(1,2)] by (simp add: nanos_per_defs)
  have "decimal ?i ?v ?k * of_nat u = of_int (int (?i * u)) + of_nat (?v * u) / of_nat (10 ^ ?k)"
    by (simp add: decimal_def field_simps)
  then have "\<lfloor>decimal ?i ?v ?k * of_nat u\<rfloor> = int (?i * u) + \<lfloor>(of_nat (?v * u) / of_nat (10 ^ ?k) :: rat)\<rfloor>"
    by (simp only: int_add_floor)
  also have "\<dots> = int (?i * u + (?v * u) div 10 ^ ?k)" by (simp only: floor_divide_of_nat_eq of_nat_add)
  also have "?i * u + (?v * u) div 10 ^ ?k = multiply_to_nanos n u"
  proof (cases "10 ^ ?k \<le> u128_max")
    case True
    then show ?thesis using vu assms(3)
      by (auto simp: multiply_to_nanos_def Let_def checked_pow_u128_def checked_mul_u128_def)
  next
    case False
    then have "?v * u < 10 ^ ?k" using vu by linarith
    then show ?thesis using False
      by (auto simp: multiply_to_nanos_def Let_def checked_pow_u128_def div_less)
  qed
  finally show ?thesis by simp
qed

theorem multiply_to_nanos_floor_witness:
  "int (multiply_to_nanos \<lparr>pn_integer = 1, pn_frac_digits = 40, pn_frac_value = 25\<rparr> NANOS_PER_HOUR) =
    \<lfloor>decimal 1 25 40 * of_nat NANOS_PER_HOUR\<rfloor>"
  using multiply_to_nanos_floor[of "\<lparr>pn_integer = 1, pn_frac_digits = 40, pn_frac_value = 25\<rparr>" NANOS_PER_HOUR]
  by (simp add: nanos_per_defs)

text \<open>Reading and shifting digit strings.\<close>

lemma parse_unsigned_digits:
  "list_all is_digit ds \<Longrightarrow> parse_unsigned mx ds =
     (if ds \<noteq> [] \<and> digits_value ds \<le> mx then Some (digits_value ds) else None)"
  by (cases ds) (auto simp: parse_unsigned_def Let_def)

lemma all_digits_of_value:
  assumes "v < 10 ^ k"
  shows "list_all is_digit (all_digits_of i v k)" "digits_value (all_digits_of i v k) = i * 10 ^ k + v"
proof -
  have d0: "list_all is_digit (replicate n (CHR ''0''))" for n by (simp add: list_all_iff is_digit_def)
  show "list_all is_digit (all_digits_of i v k)"
    using show_nat_digits[of i] show_nat_digits[of v] d0
    by (simp add: all_digits_of_def show_padded_def pad_left_def)
  have "length (show_nat v) \<le> k" if "0 < k"
    using show_nat_length[OF assms that] .
  then have len: "length (show_padded k v) = k" if "0 < k"
    using that by (simp add: show_padded_def pad_left_def)
  show "digits_value (all_digits_of i v k) = i * 10 ^ k + v"
    using assms len by (auto simp: all_digits_of_def digits_value_append show_padded_def)
qed

text \<open>The exponent a text denotes: an optional sign and the digits that follow.\<close>

definition exponent_of :: "string \<Rightarrow> int" where
  "exponent_of input =
     (case input of
        c # cs \<Rightarrow>
          if c = CHR ''-'' then - int (digits_value (takeWhile is_digit cs))
          else if c = CHR ''+'' then int (digits_value (takeWhile is_digit cs))
          else int (digits_value (takeWhile is_digit input))
      | [] \<Rightarrow> 0)"

text \<open>What a shift of the decimal point may return: the exact value, or the bound above it.\<close>

definition exact_or_saturated :: "rat \<Rightarrow> nat \<times> nat \<times> nat \<Rightarrow> bool" where
  "exact_or_saturated x = (\<lambda>(i, v, k).
     decimal i v k = x \<or> i = u64_max \<and> v = 0 \<and> k = 0 \<and> of_nat u64_max < x)"

lemma shift_to_integer_value:
  assumes ds: "list_all is_digit ds" and z: "z \<le> 20" and r: "shift_to_integer ds z = Inr r"
  shows "exact_or_saturated (of_nat (digits_value ds) * 10 ^ z) r"
proof -
  have c: "of_nat u64_max < (of_nat (digits_value ds) * 10 ^ z :: rat) \<longleftrightarrow> u64_max < digits_value ds * 10 ^ z"
    by (metis (mono_tags) of_nat_less_iff of_nat_mult of_nat_numeral of_nat_power)
  have e: "decimal (digits_value ds * 10 ^ z) 0 0 = of_nat (digits_value ds) * 10 ^ z"
    by (simp add: decimal_def)
  have "(10 :: nat) ^ z \<le> 10 ^ 20" using z by (intro power_increasing) simp_all
  then have p: "checked_pow_u128 10 z = Some (10 ^ z)" by (simp add: checked_pow_u128_def)
  show ?thesis
    using r c e unfolding shift_to_integer_def parse_unsigned_digits[OF ds] exact_or_saturated_def p
    by (auto simp: checked_mul_u128_def not_le simp del: of_nat_less_iff split: if_splits option.splits)
qed

lemma shift_to_fraction_value:
  assumes ds: "list_all is_digit ds" and k: "0 < k" "k < 2 ^ 32" and r: "shift_to_fraction ds k = Inr r"
  shows "exact_or_saturated (of_nat (digits_value ds) / 10 ^ k) r"
proof (cases "k \<ge> length ds")
  case True
  have "list_all is_digit (replicate n (CHR ''0''))" for n by (simp add: list_all_iff is_digit_def)
  then show ?thesis using r True k(2) ds
    by (auto simp: shift_to_fraction_def Let_def parse_unsigned_digits digits_value_append
        digits_value_replicate0 exact_or_saturated_def decimal_def split: if_splits option.splits)
next
  case False
  define a b where ab: "a = take (length ds - k) ds" "b = drop (length ds - k) ds"
  have d: "list_all is_digit a" "list_all is_digit b" "length b = k" "b \<noteq> []"
    using ds False k(1) by (auto simp: ab list_all_iff dest: in_set_takeD in_set_dropD)
  have "digits_value ds = digits_value a * 10 ^ k + digits_value b"
    using digits_value_append[of a b] d(3) by (simp add: ab)
  then have "decimal (digits_value a) (digits_value b) k = of_nat (digits_value ds) / 10 ^ k"
    by (simp add: decimal_digits)
  then show ?thesis using r False k(2) d
    by (auto simp: shift_to_fraction_def Let_def ab[symmetric] parse_unsigned_digits exact_or_saturated_def
        split: if_splits option.splits)
qed

lemma power_int_shift: "(10 :: rat) powi e / 10 ^ k = (if int k \<le> e then 10 ^ nat (e - int k) else 1 / 10 ^ nat (int k - e))"
proof -
  have "(10 :: rat) powi e / 10 ^ k = 10 powi (e - int k)" by (simp add: power_int_diff)
  then show ?thesis by (auto simp: power_int_def inverse_eq_divide power_one_over)
qed

text \<open>
  A decimal exponent moves the decimal point exactly: the shifted number is the number times the
  power of ten, or the largest integer when the product exceeds it.
\<close>

theorem apply_exponent_exact:
  assumes v: "v < 10 ^ k" and k: "k + 20 < 2 ^ 32"
    and r: "apply_exponent i v k input = Inr (i', v', k', rest)"
  shows "exact_or_saturated (decimal i v k * 10 powi exponent_of input) (i', v', k')"
proof -
  define e where "e = exponent_of input"
  let ?ds = "all_digits_of i v k"
  note ds = all_digits_of_value[OF v, of i]
  have tw: "list_all is_digit (takeWhile is_digit t)" for t by (auto simp: list_all_iff dest: set_takeWhileD)
  have sign: "\<not> is_digit (CHR ''-'')" "\<not> is_digit (CHR ''+'')" by (simp_all add: is_digit_def)
  have "\<bar>e\<bar> \<le> 20 \<and> (if int k - e \<le> 0 then shift_to_integer ?ds (nat \<bar>int k - e\<bar>)
        else shift_to_fraction ?ds (nat (int k - e))) = Inr (i', v', k')"
    using r unfolding e_def
    by (auto simp: apply_exponent_def exponent_of_def Let_def result_simps parse_unsigned_digits tw
        MAX_EXPONENT_MAGNITUDE_def sign split: if_splits option.splits list.splits prod.splits)
  then have e: "\<bar>e\<bar> \<le> 20" and s: "int k \<le> e \<Longrightarrow> shift_to_integer ?ds (nat (e - int k)) = Inr (i', v', k')"
      "e < int k \<Longrightarrow> shift_to_fraction ?ds (nat (int k - e)) = Inr (i', v', k')"
    by (auto split: if_splits simp: abs_if)
  have x: "decimal i v k * 10 powi e = of_nat (digits_value ?ds) * (10 powi e / 10 ^ k)"
    by (simp add: decimal_digits ds(2))
  show ?thesis
  proof (cases "int k \<le> e")
    case True
    then show ?thesis using shift_to_integer_value[OF ds(1) _ s(1)] e
      unfolding e_def[symmetric] x power_int_shift by simp
  next
    case False
    then have "0 < nat (int k - e)" "nat (int k - e) < 2 ^ 32" using e k by auto
    then show ?thesis using shift_to_fraction_value[OF ds(1) _ _ s(2)] False
      unfolding e_def[symmetric] x power_int_shift by simp
  qed
qed

theorem apply_exponent_exact_witness:
  "exact_or_saturated (decimal 1 5 1 * 10 powi exponent_of ''-1s'') (0, 15, 2)"
proof (rule apply_exponent_exact)
  have "show_nat 1 = ''1''" "show_nat 5 = ''5''" by code_simp+
  then show "apply_exponent 1 5 1 ''-1s'' = Inr (0, 15, 2, ''s'')"
    by (simp add: apply_exponent_def all_digits_of_def show_padded_def pad_left_def shift_to_fraction_def
        parse_unsigned_def digits_value_def digit_val_def is_digit_def MAX_EXPONENT_MAGNITUDE_def)
qed simp_all

subsection \<open>Panics\<close>

text \<open>Every intermediate text of the parser is made of bytes of its input.\<close>

lemma trim_start_set: "set (trim_start s) \<subseteq> set s"
proof (induction s rule: trim_start.induct)
  case (1 s)
  then show ?case by (subst trim_start.simps) (auto dest: in_set_dropD)
qed

lemma trim_end_set: "set (trim_end s) \<subseteq> set s"
proof (induction s rule: trim_end.induct)
  case (1 s)
  then show ?case by (subst trim_end.simps) (auto dest: in_set_takeD)
qed

lemma dropWhile_tl_set: "set (dropWhile P (tl s)) \<subseteq> set s"
  by (cases s) (auto dest: set_dropWhileD)

lemma apply_exponent_set: "apply_exponent i v k s = Inr (i', v', k', rest) \<Longrightarrow> set rest \<subseteq> set s"
  using dropWhile_tl_set[of is_digit s]
  by (auto simp: apply_exponent_def Let_def result_simps dest: set_dropWhileD
      split: if_splits option.splits prod.splits)

lemma scan_number_set:
  assumes "scan_number s = (ip, fp, rest)"
  shows "set rest \<subseteq> set s"
proof -
  obtain t where t: "t = dropWhile is_digit s" by simp
  have "set rest \<subseteq> set t" using assms
    by (auto simp: scan_number_def Let_def t[symmetric] dest: set_dropWhileD split: list.splits if_splits)
  then show ?thesis using t by (auto dest: set_dropWhileD)
qed

lemma parse_number_set: "parse_number s = Some (Inr (n, rest)) \<Longrightarrow> set rest \<subseteq> set s"
  by (cases "scan_number s") (auto simp: parse_number_def Let_def result_simps
      split: if_splits option.splits prod.splits dest!: apply_exponent_set scan_number_set list.set_sel(2))

lemma parse_time_unit_set: "set (snd (parse_time_unit s)) \<subseteq> set s"
proof -
  have "find_unit us s = Some (n, r) \<Longrightarrow> set r \<subseteq> set s" for us n r
    by (induction us) (auto simp: strip_prefix_def dest: in_set_dropD split: if_splits)
  then show ?thesis by (auto simp: parse_time_unit_def split: option.splits)
qed

lemma parse_number_total: "s = [] \<or> is_ascii (hd s) \<Longrightarrow> parse_number s \<noteq> None"
  by (cases "scan_number s") (auto simp: parse_number_def Let_def split: option.splits)

lemma compound_loop_total: "\<forall>c \<in> set s. is_ascii c \<Longrightarrow> compound_loop a p s \<noteq> None"
proof (induction a p s rule: compound_loop.induct)
  case (1 a p s)
  let ?t = "trim_start s"
  have t: "\<forall>c \<in> set ?t. is_ascii c" using 1(2) trim_start_set by blast
  then have "parse_number ?t \<noteq> None" by (intro parse_number_total) (metis list.set_sel(1))
  then consider e where "parse_number ?t = Some (Inl e)" | n rest where "parse_number ?t = Some (Inr (n, rest))"
    by (metis option.exhaust sum.exhaust surj_pair)
  then show ?case
  proof cases
    case 1
    then show ?thesis by (subst compound_loop.simps) (simp add: Let_def)
  next
    case (2 n rest)
    obtain u r where ur: "parse_time_unit rest = (u, r)" by (cases "parse_time_unit rest")
    have "\<forall>c \<in> set r. is_ascii c"
      using t parse_number_set[OF 2] parse_time_unit_set[of rest] ur by auto
    then show ?thesis using 1(1)[OF _ refl _ 2 refl refl ur[symmetric]] 2 ur
      by (subst compound_loop.simps) (auto simp: Let_def)
  qed
qed

lemma saturating_add_ok: "duration_ok a \<Longrightarrow> duration_ok b \<Longrightarrow> duration_ok (duration_saturating_add a b)"
  using saturating_add_nanos[of "total_nanos a" "total_nanos b"] nanos_to_duration_ok
  by (simp add: nanos_to_duration_total)

lemma compound_loop_ok: "compound_loop a p s = Some (Inr (d, q)) \<Longrightarrow> duration_ok a \<Longrightarrow> duration_ok d"
proof (induction a p s rule: compound_loop.induct)
  case (1 a p s)
  note step = 1(2)[unfolded compound_loop.simps[of a p s]]
  show ?case
  proof (cases "s = [] \<or> trim_start s = []")
    case True
    then show ?thesis using step 1(3) by (auto simp: Let_def split: if_splits)
  next
    case False
    then obtain n rest where n: "parse_number (trim_start s) = Some (Inr (n, rest))"
      using step by (auto simp: Let_def split: option.splits sum.splits)
    obtain u r where ur: "parse_time_unit rest = (u, r)" by (cases "parse_time_unit rest")
    show ?thesis using 1(1)[OF _ refl _ n refl refl ur[symmetric]] False step 1(3)
      by (auto simp: Let_def n ur intro: saturating_add_ok nanos_to_duration_ok)
  qed
qed

text \<open>
  C24. On ASCII input the parser always returns, with a duration the type can hold or with a parse
  error: it neither loops nor panics.
\<close>

theorem parse_duration_ascii_total:
  assumes "\<forall>c \<in> set s. is_ascii c"
  shows "\<exists>r. parse_duration s = Some r \<and> (\<forall>d. r = Inr d \<longrightarrow> duration_ok d)"
proof -
  have t: "\<forall>c \<in> set (trim s). is_ascii c"
    using assms trim_end_set[of "trim_start s"] trim_start_set[of s] by (auto simp: trim_def)
  define u where "u = (case strip_prefix ''+'' (trim s) of Some rest \<Rightarrow> rest | None \<Rightarrow> trim s)"
  have "\<forall>c \<in> set u. is_ascii c"
    using t by (auto simp: u_def strip_prefix_def dest: in_set_dropD split: if_splits)
  then obtain r where r: "compound_loop duration_zero False u = Some r"
    using compound_loop_total by blast
  have "duration_ok duration_zero" "duration_ok duration_max"
    by (simp_all add: duration_ok_def duration_zero_def duration_max_def)
  then show ?thesis using r compound_loop_ok[of duration_zero False u]
    by (cases r) (auto simp: parse_duration_def parse_compound_duration_def Let_def u_def[symmetric] split: if_splits)
qed

theorem parse_duration_ascii_total_witness:
  "\<exists>r. parse_duration ''12xyz'' = Some r \<and> (\<forall>d. r = Inr d \<longrightarrow> duration_ok d)"
  by (rule parse_duration_ascii_total) (simp add: is_ascii_def)

text \<open>A text whose first character has more than one byte makes the parser panic.\<close>

lemma parse_number_panics: "s \<noteq> [] \<Longrightarrow> \<not> is_ascii (hd s) \<Longrightarrow> parse_number s = None"
  by (cases s) (auto simp: parse_number_def scan_number_def is_ascii_def is_digit_def)

end
