(* ===== verification/Storage.thy ===== *)
theory Storage
  imports EtlRead
begin

text \<open>
  \<^verbatim>\<open>crates/data-generation/src/storage\<close>: the two storage backends of generated datasets, the local
  file system (\<^verbatim>\<open>file.rs\<close>) and S3 (\<^verbatim>\<open>s3.rs\<close>), with their path layout, the split of large batches
  into parts, and their caches of the version metadata. Archives are left out: they move
  opaque bytes.
\<close>

subsection \<open>The environment\<close>

text \<open>
  Third-party and system code: reading and writing objects (files or S3 objects) by path, with
  \<open>None\<close> for an object that does not exist; directory creation; the Parquet writer and
  reader; and the JSON rendering of the metadata. \<open>'t\<close> is the state of the object store, \<open>'b\<close> the
  bytes of an object.
\<close>

record ('t, 'b) object_env =
  oe_put :: "'t \<Rightarrow> string \<Rightarrow> 'b \<Rightarrow> unit result \<times> 't"
  oe_get :: "'t \<Rightarrow> string \<Rightarrow> 'b option result"
  oe_create_dir_all :: "'t \<Rightarrow> string \<Rightarrow> unit result \<times> 't"
  oe_len :: "'b \<Rightarrow> nat"
  oe_encode :: "record_batch \<Rightarrow> 'b result"
  oe_decode :: "'b \<Rightarrow> record_batch list result"
  oe_meta_encode :: "VersionMetadata \<Rightarrow> 'b result"
  oe_meta_decode :: "'b \<Rightarrow> VersionMetadata result"

record WriteResult =
  wr_rows_written :: nat
  wr_bytes_written :: nat
  wr_part_ids :: "nat list"

text \<open>A Parquet object as a read result: its batches, their row count and the object's size.\<close>

definition decode_object :: "('t, 'b) object_env \<Rightarrow> 'b \<Rightarrow> string list \<Rightarrow> ReadResult result" where
  "decode_object E bytes key_columns =
     and_then (oe_decode E bytes) (\<lambda>batches.
       Inr \<lparr>rr_batches = batches, rr_rows_read = sum_list (map rb_num_rows batches),
            rr_bytes_read = oe_len E bytes, rr_key_columns = key_columns\<rparr>)"

subsection \<open>File storage\<close>

record 't file_storage =
  fs_base_dir :: string
  fs_version_metadata :: "VersionMetadata option"
  fs_objects :: 't

definition fs_new :: "string \<Rightarrow> 't \<Rightarrow> 't file_storage" where
  "fs_new base_dir objects = \<lparr>fs_base_dir = base_dir, fs_version_metadata = None, fs_objects = objects\<rparr>"

definition fs_table_dir :: "string \<Rightarrow> string \<Rightarrow> string" where
  "fs_table_dir base table = base @ ''/tables/'' @ table"

definition batch_file_name :: "nat \<Rightarrow> string" where
  "batch_file_name batch_id = ''batch-'' @ show_padded 6 batch_id @ ''.parquet''"

definition part_file_name :: "nat \<Rightarrow> nat \<Rightarrow> string" where
  "part_file_name batch_id part_idx =
     ''batch-'' @ show_padded 6 batch_id @ ''-part-'' @ show_padded 3 part_idx @ ''.parquet''"

definition fs_batch_path :: "string \<Rightarrow> string \<Rightarrow> nat \<Rightarrow> string" where
  "fs_batch_path base table batch_id = fs_table_dir base table @ ''/'' @ batch_file_name batch_id"

definition fs_batch_part_path :: "string \<Rightarrow> string \<Rightarrow> nat \<Rightarrow> nat \<Rightarrow> string" where
  "fs_batch_part_path base table batch_id part_idx = fs_table_dir base table @ ''/'' @ part_file_name batch_id part_idx"

definition fs_version_metadata_path :: "string \<Rightarrow> string" where
  "fs_version_metadata_path base = base @ ''/version.json''"

definition fs_cache_if_unset :: "VersionMetadata \<Rightarrow> 't file_storage \<Rightarrow> 't file_storage" where
  "fs_cache_if_unset md s =
     (if fs_version_metadata s = None then s\<lparr>fs_version_metadata := Some md\<rparr> else s)"

definition fs_read_version_metadata ::
  "('t, 'b) object_env \<Rightarrow> 't file_storage \<Rightarrow> VersionMetadata option result \<times> 't file_storage" where
  "fs_read_version_metadata E s =
     (case fs_version_metadata s of
        Some md \<Rightarrow> (Inr (Some md), s)
      | None \<Rightarrow>
          (case oe_get E (fs_objects s) (fs_version_metadata_path (fs_base_dir s)) of
             Inl e \<Rightarrow> (Inl e, s)
           | Inr None \<Rightarrow> (Inr None, s)
           | Inr (Some bytes) \<Rightarrow>
               (case oe_meta_decode E bytes of
                  Inl e \<Rightarrow> (Inl e, s)
                | Inr md \<Rightarrow> (Inr (Some md), fs_cache_if_unset md s))))"

definition fs_write_version_metadata ::
  "('t, 'b) object_env \<Rightarrow> 't file_storage \<Rightarrow> VersionMetadata \<Rightarrow> unit result \<times> 't file_storage" where
  "fs_write_version_metadata E s md =
     (case oe_create_dir_all E (fs_objects s) (fs_base_dir s) of
        (Inl e, t) \<Rightarrow> (Inl e, s\<lparr>fs_objects := t\<rparr>)
      | (Inr _, t) \<Rightarrow>
          (case oe_meta_encode E md of
             Inl e \<Rightarrow> (Inl e, s\<lparr>fs_objects := t\<rparr>)
           | Inr json \<Rightarrow>
               (case oe_put E t (fs_version_metadata_path (fs_base_dir s)) json of
                  (Inl e, t') \<Rightarrow> (Inl e, s\<lparr>fs_objects := t'\<rparr>)
                | (Inr _, t') \<Rightarrow> (Inr (), fs_cache_if_unset md (s\<lparr>fs_objects := t'\<rparr>)))))"

definition fs_read_batch ::
  "('t, 'b) object_env \<Rightarrow> 't file_storage \<Rightarrow> string \<Rightarrow> nat \<Rightarrow> nat option
     \<Rightarrow> ReadResult option result \<times> 't file_storage" where
  "fs_read_batch E s table batch_id part_id =
     (let path = (case part_id of
                    Some pid \<Rightarrow> fs_batch_part_path (fs_base_dir s) table batch_id pid
                  | None \<Rightarrow> fs_batch_path (fs_base_dir s) table batch_id)
      in case fs_read_version_metadata E s of (md, s') \<Rightarrow>
        (and_then (read_key_columns md table) (\<lambda>key_columns.
           and_then (oe_get E (fs_objects s) path) (\<lambda>obj.
             case obj of
               None \<Rightarrow> Inr None
             | Some bytes \<Rightarrow> and_then (decode_object E bytes key_columns) (\<lambda>r. Inr (Some r)))), s'))"

definition fs_write ::
  "('t, 'b) object_env \<Rightarrow> 't file_storage \<Rightarrow> string \<Rightarrow> nat \<Rightarrow> record_batch
     \<Rightarrow> WriteResult result \<times> 't file_storage" where
  "fs_write E s table batch_id batch =
     (let path = fs_batch_path (fs_base_dir s) table batch_id
      in case oe_create_dir_all E (fs_objects s) (fs_table_dir (fs_base_dir s) table) of
           (Inl e, t) \<Rightarrow> (Inl e, s\<lparr>fs_objects := t\<rparr>)
         | (Inr _, t) \<Rightarrow>
             (case oe_encode E batch of
                Inl e \<Rightarrow> (Inl e, s\<lparr>fs_objects := t\<rparr>)
              | Inr buf \<Rightarrow>
                  (case oe_put E t path buf of
                     (Inl e, t') \<Rightarrow> (Inl e, s\<lparr>fs_objects := t'\<rparr>)
                   | (Inr _, t') \<Rightarrow>
                       (Inr \<lparr>wr_rows_written = rb_num_rows batch, wr_bytes_written = oe_len E buf,
                             wr_part_ids = []\<rparr>, s\<lparr>fs_objects := t'\<rparr>))))"

definition fs_expected_files :: "'t file_storage \<Rightarrow> string \<Rightarrow> nat list \<Rightarrow> string list" where
  "fs_expected_files s table ids = map (fs_batch_path (fs_base_dir s) table) ids"

definition fs_table_params :: "'t file_storage \<Rightarrow> string \<Rightarrow> string \<rightharpoonup> string" where
  "fs_table_params s table = [''connector'' \<mapsto> ''file'', ''from'' \<mapsto> fs_table_dir (fs_base_dir s) table,
     ''file_format'' \<mapsto> ''parquet'']"

subsection \<open>S3 storage\<close>

record 't s3_storage =
  s3_bucket :: string
  s3_prefix :: string
  s3_region :: "string option"
  s3_key_columns_cache :: "string \<rightharpoonup> string list"
  s3_version_metadata_cache :: "VersionMetadata option option"
  s3_objects :: 't

definition MIN_ROWS_PER_FILE :: nat where "MIN_ROWS_PER_FILE = 32000"
definition MAX_ROWS_PER_FILE :: nat where "MAX_ROWS_PER_FILE = 64000"
definition DEFAULT_MAX_ROWS_PER_FILE :: nat where "DEFAULT_MAX_ROWS_PER_FILE = 48000"

definition max_rows_per_file :: "string option \<Rightarrow> nat" where
  "max_rows_per_file v =
     (case Option.bind v (parse_unsigned u64_max) of
        Some n \<Rightarrow> if n > 0 then max MIN_ROWS_PER_FILE (min n MAX_ROWS_PER_FILE) else DEFAULT_MAX_ROWS_PER_FILE
      | None \<Rightarrow> DEFAULT_MAX_ROWS_PER_FILE)"

text \<open>The loop does not end when the limit is zero, so it is a partial function.\<close>

partial_function (option) split_from ::
  "kernels \<Rightarrow> record_batch \<Rightarrow> nat \<Rightarrow> nat \<Rightarrow> record_batch list option" where
  "split_from K batch max_rows offset =
     (if offset < rb_num_rows batch
      then let len = min max_rows (rb_num_rows batch - offset)
           in Option.bind (split_from K batch max_rows (offset + len)) (\<lambda>out.
                Some (k_slice K batch offset len # out))
      else Some [])"

definition split_record_batch :: "kernels \<Rightarrow> record_batch \<Rightarrow> nat \<Rightarrow> record_batch list option" where
  "split_record_batch K batch max_rows =
     (if rb_num_rows batch \<le> max_rows then Some [batch] else split_from K batch max_rows 0)"

definition s3_key :: "string \<Rightarrow> string \<Rightarrow> string" where
  "s3_key prefix rest = (if prefix = [] then rest else prefix @ ''/'' @ rest)"

definition batch_object_path :: "string \<Rightarrow> string \<Rightarrow> nat \<Rightarrow> string" where
  "batch_object_path prefix table batch_id = s3_key prefix (''tables/'' @ table @ ''/'' @ batch_file_name batch_id)"

definition batch_part_object_path :: "string \<Rightarrow> string \<Rightarrow> nat \<Rightarrow> nat \<Rightarrow> string" where
  "batch_part_object_path prefix table batch_id part_idx =
     s3_key prefix (''tables/'' @ table @ ''/'' @ part_file_name batch_id part_idx)"

definition version_metadata_object_path :: "string \<Rightarrow> string" where
  "version_metadata_object_path prefix = s3_key prefix ''version.json''"

definition table_s3_path :: "'t s3_storage \<Rightarrow> string \<Rightarrow> string" where
  "table_s3_path s table =
     (if s3_prefix s = [] then ''s3://'' @ s3_bucket s @ ''/tables/'' @ table @ ''/''
      else ''s3://'' @ s3_bucket s @ ''/'' @ s3_prefix s @ ''/tables/'' @ table @ ''/'')"

definition s3_expected_files :: "'t s3_storage \<Rightarrow> string \<Rightarrow> nat list \<Rightarrow> string list" where
  "s3_expected_files s table ids =
     map (\<lambda>i. if s3_prefix s = []
               then ''s3://'' @ s3_bucket s @ ''/tables/'' @ table @ ''/'' @ batch_file_name i
               else ''s3://'' @ s3_bucket s @ ''/'' @ s3_prefix s @ ''/tables/'' @ table @ ''/'' @ batch_file_name i)
       ids"

definition s3_table_params :: "'t s3_storage \<Rightarrow> string \<Rightarrow> string \<rightharpoonup> string" where
  "s3_table_params s table =
     (let params = [''connector'' \<mapsto> ''s3'', ''from'' \<mapsto> table_s3_path s table, ''file_format'' \<mapsto> ''parquet'']
      in case s3_region s of Some region \<Rightarrow> params(''s3_region'' \<mapsto> region) | None \<Rightarrow> params)"

text \<open>
  \<^verbatim>\<open>get_or_try_init\<close> of the cell: an error leaves it unset, a missing object is cached as
  \<open>None\<close>.
\<close>

definition s3_cached_version_metadata ::
  "('t, 'b) object_env \<Rightarrow> 't s3_storage \<Rightarrow> VersionMetadata option result \<times> 't s3_storage" where
  "s3_cached_version_metadata E s =
     (case s3_version_metadata_cache s of
        Some md \<Rightarrow> (Inr md, s)
      | None \<Rightarrow>
          (case oe_get E (s3_objects s) (version_metadata_object_path (s3_prefix s)) of
             Inl e \<Rightarrow> (Inl e, s)
           | Inr None \<Rightarrow> (Inr None, s\<lparr>s3_version_metadata_cache := Some None\<rparr>)
           | Inr (Some bytes) \<Rightarrow>
               (case oe_meta_decode E bytes of
                  Inl e \<Rightarrow> (Inl e, s)
                | Inr md \<Rightarrow> (Inr (Some md), s\<lparr>s3_version_metadata_cache := Some (Some md)\<rparr>))))"

definition s3_write_version_metadata ::
  "('t, 'b) object_env \<Rightarrow> 't s3_storage \<Rightarrow> VersionMetadata \<Rightarrow> unit result \<times> 't s3_storage" where
  "s3_write_version_metadata E s md =
     (case oe_meta_encode E md of
        Inl e \<Rightarrow> (Inl e, s)
      | Inr bytes \<Rightarrow>
          (case oe_put E (s3_objects s) (version_metadata_object_path (s3_prefix s)) bytes of
             (Inl e, t) \<Rightarrow> (Inl e, s\<lparr>s3_objects := t\<rparr>)
           | (Inr _, t) \<Rightarrow>
               (Inr (), s\<lparr>s3_objects := t, s3_version_metadata_cache :=
                  (if s3_version_metadata_cache s = None then Some (Some md) else s3_version_metadata_cache s)\<rparr>)))"

definition s3_cached_key_columns ::
  "('t, 'b) object_env \<Rightarrow> 't s3_storage \<Rightarrow> string \<Rightarrow> string list result \<times> 't s3_storage" where
  "s3_cached_key_columns E s table =
     (case s3_key_columns_cache s table of
        Some cached \<Rightarrow> (Inr cached, s)
      | None \<Rightarrow>
          (case s3_cached_version_metadata E s of (md, s1) \<Rightarrow>
            (case read_key_columns md table of
               Inl e \<Rightarrow> (Inl e, s1)
             | Inr key_columns \<Rightarrow>
                 (Inr key_columns, s1\<lparr>s3_key_columns_cache := (s3_key_columns_cache s1)(table \<mapsto> key_columns)\<rparr>))))"

definition s3_read_batch ::
  "('t, 'b) object_env \<Rightarrow> 't s3_storage \<Rightarrow> string \<Rightarrow> nat \<Rightarrow> nat option
     \<Rightarrow> ReadResult option result \<times> 't s3_storage" where
  "s3_read_batch E s table batch_id part_id =
     (let location = (case part_id of
                        Some part \<Rightarrow> batch_part_object_path (s3_prefix s) table batch_id part
                      | None \<Rightarrow> batch_object_path (s3_prefix s) table batch_id)
      in case oe_get E (s3_objects s) location of
           Inl e \<Rightarrow> (Inl e, s)
         | Inr None \<Rightarrow> (Inr None, s)
         | Inr (Some bytes) \<Rightarrow>
             (case decode_object E bytes [] of
                Inl e \<Rightarrow> (Inl e, s)
              | Inr r \<Rightarrow>
                  (case s3_cached_key_columns E s table of
                     (Inl e, s') \<Rightarrow> (Inl e, s')
                   | (Inr key_columns, s') \<Rightarrow> (Inr (Some (r\<lparr>rr_key_columns := key_columns\<rparr>)), s'))))"

text \<open>The upload loop over the chunks: the first failure ends it.\<close>

fun s3_put_chunks ::
  "('t, 'b) object_env \<Rightarrow> string \<Rightarrow> string \<Rightarrow> nat \<Rightarrow> bool \<Rightarrow> nat \<Rightarrow> record_batch list \<Rightarrow> nat \<Rightarrow> 't \<Rightarrow> nat result \<times> 't" where
  "s3_put_chunks E prefix table batch_id single part_idx [] bytes_written t = (Inr bytes_written, t)"
| "s3_put_chunks E prefix table batch_id single part_idx (chunk # chunks) bytes_written t =
     (case oe_encode E chunk of
        Inl e \<Rightarrow> (Inl e, t)
      | Inr buf \<Rightarrow>
          (case oe_put E t (if single then batch_object_path prefix table batch_id
                            else batch_part_object_path prefix table batch_id part_idx) buf of
             (Inl e, t') \<Rightarrow> (Inl e, t')
           | (Inr _, t') \<Rightarrow>
               s3_put_chunks E prefix table batch_id single (Suc part_idx) chunks (bytes_written + oe_len E buf) t'))"

definition s3_write ::
  "('t, 'b) object_env \<Rightarrow> kernels \<Rightarrow> nat \<Rightarrow> 't s3_storage \<Rightarrow> string \<Rightarrow> nat \<Rightarrow> record_batch
     \<Rightarrow> (WriteResult result \<times> 't s3_storage) option" where
  "s3_write E K max_rows s table batch_id batch =
     Option.bind (split_record_batch K batch max_rows) (\<lambda>chunks.
       let part_ids = (if length chunks > 1 then [0..<length chunks] else [])
       in Some (case s3_put_chunks E (s3_prefix s) table batch_id (length chunks = 1) 0 chunks 0 (s3_objects s) of
            (Inl e, t) \<Rightarrow> (Inl e, s\<lparr>s3_objects := t\<rparr>)
          | (Inr bytes_written, t) \<Rightarrow>
              (Inr \<lparr>wr_rows_written = rb_num_rows batch, wr_bytes_written = bytes_written, wr_part_ids = part_ids\<rparr>,
               s\<lparr>s3_objects := t\<rparr>)))"

subsection \<open>Distinct objects have distinct paths\<close>

lemma digit_prefix:
  assumes "list_all is_digit a" "list_all is_digit b" "\<not> is_digit c" "\<not> is_digit d" "a @ c # x = b @ d # y"
  shows "a = b \<and> c # x = d # y"
proof -
  have "takeWhile is_digit (a @ c # x) = a" "takeWhile is_digit (b @ d # y) = b"
    using assms(1-4) by (simp_all add: takeWhile_append2 list_all_iff)
  then show ?thesis using assms(5) by simp
qed

lemma show_padded_digits: "list_all is_digit (show_padded w n)"
  using show_nat_digits[of n] by (auto simp: show_padded_def pad_left_def list_all_iff is_digit_def)

lemma not_digit [simp]: "\<not> is_digit (CHR ''.'')" "\<not> is_digit (CHR ''-'')"
  by (simp_all add: is_digit_def)

lemma batch_file_name_inj: "batch_file_name i = batch_file_name j \<longleftrightarrow> i = j"
proof
  assume "batch_file_name i = batch_file_name j"
  then have "show_padded 6 i @ CHR ''.'' # ''parquet'' = show_padded 6 j @ CHR ''.'' # ''parquet''"
    by (simp add: batch_file_name_def)
  from digit_prefix[OF show_padded_digits show_padded_digits not_digit(1) not_digit(1) this]
  show "i = j" using show_padded_inj by blast
qed simp

lemma part_file_name_inj: "part_file_name i k = part_file_name j l \<longleftrightarrow> i = j \<and> k = l"
proof
  assume "part_file_name i k = part_file_name j l"
  then have "show_padded 6 i @ CHR ''-'' # ''part-'' @ show_padded 3 k @ ''.parquet''
      = show_padded 6 j @ CHR ''-'' # ''part-'' @ show_padded 3 l @ ''.parquet''" by (simp add: part_file_name_def)
  from digit_prefix[OF show_padded_digits show_padded_digits not_digit(2) not_digit(2) this]
  have "i = j" "show_padded 3 k @ CHR ''.'' # ''parquet'' = show_padded 3 l @ CHR ''.'' # ''parquet''"
    using show_padded_inj by auto
  then show "i = j \<and> k = l"
    using digit_prefix[OF show_padded_digits show_padded_digits not_digit(1) not_digit(1)] show_padded_inj by blast
qed simp

lemma batch_part_names: "batch_file_name i \<noteq> part_file_name j k"
proof
  assume "batch_file_name i = part_file_name j k"
  then have "show_padded 6 i @ CHR ''.'' # ''parquet''
      = show_padded 6 j @ CHR ''-'' # ''part-'' @ show_padded 3 k @ ''.parquet''"
    by (simp add: batch_file_name_def part_file_name_def)
  from digit_prefix[OF show_padded_digits show_padded_digits not_digit this] show False by simp
qed

text \<open>The name of the object of a batch, or of one of its parts.\<close>

definition object_name :: "nat \<Rightarrow> nat option \<Rightarrow> string" where
  "object_name i p = (case p of None \<Rightarrow> batch_file_name i | Some k \<Rightarrow> part_file_name i k)"

lemma object_name_inj: "object_name i p = object_name j q \<longleftrightarrow> i = j \<and> p = q"
  using batch_part_names[of i j] batch_part_names[of j i]
  by (auto simp: object_name_def batch_file_name_inj part_file_name_inj split: option.splits) metis

text \<open>A table name is one path segment.\<close>

definition table_name_ok :: "string \<Rightarrow> bool" where
  "table_name_ok t \<longleftrightarrow> CHR ''/'' \<notin> set t"

lemma table_object_inj:
  assumes "table_name_ok t" "table_name_ok u"
  shows "t @ CHR ''/'' # object_name i p = u @ CHR ''/'' # object_name j q \<longleftrightarrow> (t, i, p) = (u, j, q)"
proof
  assume eq: "t @ CHR ''/'' # object_name i p = u @ CHR ''/'' # object_name j q"
  let ?P = "\<lambda>c. c \<noteq> CHR ''/''"
  have "takeWhile ?P (t @ CHR ''/'' # object_name i p) = t" "takeWhile ?P (u @ CHR ''/'' # object_name j q) = u"
    using assms by (auto simp: table_name_ok_def takeWhile_append2 intro!: takeWhile_append2[THEN trans])
  then show "(t, i, p) = (u, j, q)" using eq object_name_inj by auto
qed simp

definition fs_path :: "string \<Rightarrow> string \<Rightarrow> nat \<Rightarrow> nat option \<Rightarrow> string" where
  "fs_path base t i p = base @ ''/tables/'' @ t @ CHR ''/'' # object_name i p"

definition s3_path :: "string \<Rightarrow> string \<Rightarrow> nat \<Rightarrow> nat option \<Rightarrow> string" where
  "s3_path prefix t i p = s3_key prefix (''tables/'' @ t @ CHR ''/'' # object_name i p)"

lemma fs_path_eq:
  "fs_batch_path base t i = fs_path base t i None" "fs_batch_part_path base t i k = fs_path base t i (Some k)"
  by (simp_all add: fs_batch_path_def fs_batch_part_path_def fs_path_def fs_table_dir_def object_name_def)

lemma s3_path_eq:
  "batch_object_path base t i = s3_path base t i None" "batch_part_object_path base t i k = s3_path base t i (Some k)"
  by (simp_all add: batch_object_path_def batch_part_object_path_def s3_path_def object_name_def)

lemma fs_path_inj:
  "table_name_ok t \<Longrightarrow> table_name_ok u \<Longrightarrow> fs_path base t i p = fs_path base u j q \<longleftrightarrow> (t, i, p) = (u, j, q)"
  using table_object_inj by (simp add: fs_path_def)

lemma s3_path_inj:
  "table_name_ok t \<Longrightarrow> table_name_ok u \<Longrightarrow> s3_path base t i p = s3_path base u j q \<longleftrightarrow> (t, i, p) = (u, j, q)"
  using table_object_inj by (simp add: s3_path_def s3_key_def)

subsection \<open>What the environment promises\<close>

text \<open>
  A successful put is read back and disturbs no other object; a failed one disturbs at most
  its own. Parquet keeps rows and schema.
\<close>

definition objects_ok :: "('t, 'b) object_env \<Rightarrow> bool" where
  "objects_ok E \<longleftrightarrow>
     (\<forall>t p b t' x. oe_put E t p b = (x, t') \<longrightarrow> (\<forall>q. q \<noteq> p \<longrightarrow> oe_get E t' q = oe_get E t q)
        \<and> (x = Inr () \<longrightarrow> oe_get E t' p = Inr (Some b)))
     \<and> (\<forall>t p t' x. oe_create_dir_all E t p = (x, t') \<longrightarrow> (\<forall>q. oe_get E t' q = oe_get E t q))"

definition keeps_batch :: "record_batch \<Rightarrow> record_batch list \<Rightarrow> bool" where
  "keeps_batch b bs \<longleftrightarrow> concat (map rows bs) = rows b \<and> (\<forall>c \<in> set bs. wf_batch c \<and> rb_schema c = rb_schema b)"

definition parquet_ok :: "('t, 'b) object_env \<Rightarrow> bool" where
  "parquet_ok E \<longleftrightarrow> (\<forall>b bytes. wf_batch b \<longrightarrow> oe_encode E b = Inr bytes \<longrightarrow>
     (\<exists>bs. oe_decode E bytes = Inr bs \<and> keeps_batch b bs))"

definition json_ok :: "('t, 'b) object_env \<Rightarrow> bool" where
  "json_ok E \<longleftrightarrow> (\<forall>md bytes. oe_meta_encode E md = Inr bytes \<longrightarrow> oe_meta_decode E bytes = Inr md)"

lemma objects_ok_put:
  assumes "objects_ok E" "oe_put E t p b = (x, t')"
  shows "q \<noteq> p \<Longrightarrow> oe_get E t' q = oe_get E t q" "x = Inr () \<Longrightarrow> oe_get E t' p = Inr (Some b)"
  using assms(1)[unfolded objects_ok_def, THEN conjunct1, rule_format, OF assms(2)] by simp_all

lemma objects_ok_dir:
  assumes "objects_ok E" "oe_create_dir_all E t p = (x, t')"
  shows "oe_get E t' q = oe_get E t q"
  using assms(1)[unfolded objects_ok_def, THEN conjunct2, rule_format, OF assms(2)] .

subsection \<open>The interface of a storage backend\<close>

text \<open>
  The contents of an object as decoded batches, the client's view of \<^verbatim>\<open>read_batch\<close>.
\<close>

definition stored ::
  "(string \<Rightarrow> nat \<Rightarrow> nat option \<Rightarrow> record_batch list option result) \<Rightarrow> string \<Rightarrow> nat \<Rightarrow> nat list \<Rightarrow> record_batch \<Rightarrow> bool" where
  "stored content t i parts b \<longleftrightarrow>
     (if parts = [] then \<exists>bs. content t i None = Inr (Some bs) \<and> keeps_batch b bs
      else sorted parts \<and> distinct parts
        \<and> (\<exists>bss. map (\<lambda>p. content t i (Some p)) parts = map (\<lambda>bs. Inr (Some bs)) bss \<and> keeps_batch b (concat bss)))"

locale batch_store =
  fixes wr :: "'s \<Rightarrow> string \<Rightarrow> nat \<Rightarrow> record_batch \<Rightarrow> (WriteResult result \<times> 's) option"
    and content :: "'s \<Rightarrow> string \<Rightarrow> nat \<Rightarrow> nat option \<Rightarrow> record_batch list option result"
    and inv :: "'s \<Rightarrow> bool"
  assumes wr_inv: "inv s \<Longrightarrow> wr s t i b = Some (x, s') \<Longrightarrow> inv s'"
    and wr_returns: "inv s \<Longrightarrow> \<exists>x s'. wr s t i b = Some (x, s')"
    and wr_stored: "inv s \<Longrightarrow> wf_batch b \<Longrightarrow> table_name_ok t \<Longrightarrow> wr s t i b = Some (Inr w, s') \<Longrightarrow>
       stored (content s') t i (wr_part_ids w) b \<and> wr_rows_written w = rb_num_rows b"
    and wr_frame: "inv s \<Longrightarrow> table_name_ok t \<Longrightarrow> table_name_ok u \<Longrightarrow> (u, j) \<noteq> (t, i) \<Longrightarrow>
       wr s t i b = Some (x, s') \<Longrightarrow> content s' u j p = content s u j p"
begin

lemma stored_frame:
  assumes "inv s" "table_name_ok t" "table_name_ok u" "(u, j) \<noteq> (t, i)" "wr s t i b = Some (x, s')"
    and "stored (content s) u j parts c"
  shows "stored (content s') u j parts c"
  using assms(6) wr_frame[OF assms(1-5)] by (simp add: stored_def)

end

subsection \<open>File storage meets the interface\<close>

definition fs_wr ::
  "('t, 'b) object_env \<Rightarrow> 't file_storage \<Rightarrow> string \<Rightarrow> nat \<Rightarrow> record_batch \<Rightarrow> (WriteResult result \<times> 't file_storage) option" where
  "fs_wr E s t i b = Some (fs_write E s t i b)"

definition content_at :: "('t, 'b) object_env \<Rightarrow> 't \<Rightarrow> string \<Rightarrow> record_batch list option result" where
  "content_at E objs path =
     and_then (oe_get E objs path) (\<lambda>obj. case obj of
       None \<Rightarrow> Inr None
     | Some bytes \<Rightarrow> and_then (oe_decode E bytes) (\<lambda>bs. Inr (Some bs)))"

definition fs_content :: "('t, 'b) object_env \<Rightarrow> 't file_storage \<Rightarrow> string \<Rightarrow> nat \<Rightarrow> nat option \<Rightarrow> record_batch list option result" where
  "fs_content E s t i p = content_at E (fs_objects s) (fs_path (fs_base_dir s) t i p)"

text \<open>The invariant carries the contracts of the object store and the fixed location.\<close>

definition fs_inv :: "('t, 'b) object_env \<Rightarrow> string \<Rightarrow> 't file_storage \<Rightarrow> bool" where
  "fs_inv E base s \<longleftrightarrow> objects_ok E \<and> parquet_ok E \<and> json_ok E \<and> fs_base_dir s = base"

lemma content_at_cong: "oe_get E t' p = oe_get E t p \<Longrightarrow> content_at E t' p = content_at E t p"
  by (simp add: content_at_def)

lemma content_at_put:
  assumes "objects_ok E" "parquet_ok E" "wf_batch b" "oe_encode E b = Inr buf" "oe_put E t p buf = (Inr (), t')"
  shows "\<exists>bs. content_at E t' p = Inr (Some bs) \<and> keeps_batch b bs"
  using assms(2-4) objects_ok_put(2)[OF assms(1,5)] by (force simp: content_at_def parquet_ok_def)

lemma fs_write_base_dir: "fs_wr E s t i b = Some (x, s') \<Longrightarrow> fs_base_dir s' = fs_base_dir s"
  by (auto simp: fs_wr_def fs_write_def Let_def split: prod.splits sum.splits)

interpretation fs: batch_store "fs_wr E" "fs_content E" "fs_inv E base" for E base
proof unfold_locales
  fix s t i b
  show "\<exists>x s'. fs_wr E s t i b = Some (x, s')" by (simp add: fs_wr_def)
  fix x s'
  show "fs_inv E base s'" if "fs_inv E base s" "fs_wr E s t i b = Some (x, s')"
    using that fs_write_base_dir[OF that(2)] by (simp add: fs_inv_def)
  fix u j p
  assume inv: "fs_inv E base s" and t: "table_name_ok t" "table_name_ok u" "(u, j) \<noteq> (t, i)"
    and wr: "fs_wr E s t i b = Some (x, s')"
  let ?q = "fs_path (fs_base_dir s) u j p"
  have q: "?q \<noteq> fs_path (fs_base_dir s) t i None" using fs_path_inj[OF t(2,1)] t(3) by fastforce
  note base = fs_write_base_dir[OF wr]
  obtain d t1 where d: "oe_create_dir_all E (fs_objects s) (fs_table_dir (fs_base_dir s) t) = (d, t1)" by fastforce
  have E: "objects_ok E" using inv by (simp add: fs_inv_def)
  have "fs_objects s' = t1 \<or> (\<exists>buf y. oe_put E t1 (fs_path (fs_base_dir s) t i None) buf = (y, fs_objects s'))"
    using wr d by (auto simp: fs_wr_def fs_write_def Let_def fs_path_eq split: prod.splits sum.splits)
  then have "oe_get E (fs_objects s') ?q = oe_get E t1 ?q" using objects_ok_put(1)[OF E _ q] by auto
  then have "oe_get E (fs_objects s') ?q = oe_get E (fs_objects s) ?q" using objects_ok_dir[OF E d] by simp
  then show "fs_content E s' u j p = fs_content E s u j p"
    unfolding fs_content_def base by (rule content_at_cong)
next
  fix s t i b w s'
  assume inv: "fs_inv E base s" and b: "wf_batch b" and wr: "fs_wr E s t i b = Some (Inr w, s')"
  from wr obtain t1 buf t2 where p: "oe_encode E b = Inr buf" "oe_put E t1 (fs_path (fs_base_dir s) t i None) buf = (Inr (), t2)"
      "s' = s\<lparr>fs_objects := t2\<rparr>" "wr_part_ids w = []" "wr_rows_written w = rb_num_rows b"
    by (auto simp: fs_wr_def fs_write_def Let_def fs_path_eq split: prod.splits sum.splits)
  then show "stored (fs_content E s') t i (wr_part_ids w) b \<and> wr_rows_written w = rb_num_rows b"
    using content_at_put[OF _ _ b p(1,2)] inv by (simp add: stored_def fs_content_def fs_inv_def)
qed

subsection \<open>S3 storage meets the interface\<close>

lemma split_from_returns: "0 < n \<Longrightarrow> \<exists>out. split_from K b n off = Some out"
proof (induction "rb_num_rows b - off" arbitrary: off rule: less_induct)
  case less
  show ?case
  proof (cases "off < rb_num_rows b")
    case True
    have "rb_num_rows b - (off + min n (rb_num_rows b - off)) < rb_num_rows b - off"
      using True less.prems by linarith
    then obtain out where "split_from K b n (off + min n (rb_num_rows b - off)) = Some out"
      using less.hyps less.prems by blast
    then show ?thesis using True by (subst split_from.simps) (simp add: Let_def)
  qed (subst split_from.simps, simp)
qed

lemma split_from_keeps:
  assumes K: "kernels_ok K" and wf: "wf_batch b" and n: "0 < n" and "off \<le> rb_num_rows b"
    and "split_from K b n off = Some out"
  shows "concat (map rows out) = drop off (rows b) \<and> (\<forall>c \<in> set out. wf_batch c \<and> rb_schema c = rb_schema b)"
  using assms(4,5)
proof (induction "rb_num_rows b - off" arbitrary: off out rule: less_induct)
  case less
  show ?case
  proof (cases "off < rb_num_rows b")
    case True
    let ?len = "min n (rb_num_rows b - off)"
    from True less.prems(2) obtain rest where rest: "split_from K b n (off + ?len) = Some rest"
      "out = k_slice K b off ?len # rest"
      by (subst (asm) split_from.simps) (auto simp: Let_def split: Option.bind_splits)
    have le: "off + ?len \<le> rb_num_rows b" using True by simp
    have IH: "concat (map rows rest) = drop (off + ?len) (rows b) \<and> (\<forall>c \<in> set rest. wf_batch c \<and> rb_schema c = rb_schema b)"
      by (rule less.hyps[OF _ le rest(1)]) (use True n in simp)
    have "rows (k_slice K b off ?len) @ drop (off + ?len) (rows b) = drop off (rows b)"
      using rows_slice[OF kernels_okD(1)[OF K] wf le] by (metis append_take_drop_id drop_drop add.commute)
    then show ?thesis using IH rest(2) wf_slice[OF kernels_okD(1)[OF K] wf le] slice_simps(2)[OF kernels_okD(1)[OF K] le]
      by simp
  next
    case False
    then show ?thesis using less.prems by (subst (asm) split_from.simps) simp
  qed
qed

lemma split_record_batch_returns: "0 < n \<Longrightarrow> \<exists>out. split_record_batch K b n = Some out"
  by (simp add: split_record_batch_def split_from_returns)

lemma split_record_batch_keeps:
  assumes "kernels_ok K" "wf_batch b" "0 < n" "split_record_batch K b n = Some out"
  shows "keeps_batch b out \<and> out \<noteq> []"
proof (cases "rb_num_rows b \<le> n")
  case True
  then show ?thesis using assms(2,4) by (auto simp: split_record_batch_def keeps_batch_def)
next
  case False
  then have "keeps_batch b out"
    using split_from_keeps[OF assms(1-3), of 0 out] assms(4) by (simp add: split_record_batch_def keeps_batch_def)
  moreover have "rows b \<noteq> []" using False length_rows[of b] by force
  ultimately show ?thesis by (auto simp: keeps_batch_def)
qed

lemma s3_put_chunks_frame:
  assumes "objects_ok E" "s3_put_chunks E prefix t i single k chunks n objs = (x, objs')"
    "q \<noteq> s3_path prefix t i None" "\<And>j. k \<le> j \<Longrightarrow> q \<noteq> s3_path prefix t i (Some j)"
  shows "oe_get E objs' q = oe_get E objs q"
  using assms(2,4)
proof (induction chunks arbitrary: k n objs)
  case Nil
  then show ?case by simp
next
  case (Cons c chunks)
  let ?p = "if single then s3_path prefix t i None else s3_path prefix t i (Some k)"
  have q: "q \<noteq> ?p" using assms(3) Cons.prems(2)[of k] by auto
  show ?case
  proof (cases "oe_encode E c")
    case (Inl e)
    then show ?thesis using Cons.prems(1) by simp
  next
    case (Inr buf)
    obtain y objs1 where put: "oe_put E objs ?p buf = (y, objs1)" by fastforce
    note g = objects_ok_put(1)[OF assms(1) put q]
    show ?thesis
    proof (cases y)
      case (Inl e)
      then show ?thesis using Cons.prems(1) Inr put g by (simp add: s3_path_eq cong: if_cong)
    next
      case (Inr u)
      have "s3_put_chunks E prefix t i single (Suc k) chunks (n + oe_len E buf) objs1 = (x, objs')"
        using Cons.prems(1) \<open>oe_encode E c = Inr buf\<close> put Inr by (simp add: s3_path_eq cong: if_cong)
      then show ?thesis using Cons.IH[of "Suc k"] Cons.prems(2) g by auto
    qed
  qed
qed

lemma s3_put_chunks_stored:
  assumes E: "objects_ok E" "parquet_ok E" and t: "table_name_ok t"
    and "s3_put_chunks E prefix t i False k chunks n objs = (Inr m, objs')" and "\<forall>c \<in> set chunks. wf_batch c"
  shows "\<exists>bss. map (\<lambda>p. content_at E objs' (s3_path prefix t i (Some p))) [k..<k + length chunks] = map (\<lambda>bs. Inr (Some bs)) bss
     \<and> list_all2 keeps_batch chunks bss"
  using assms(4,5)
proof (induction chunks arbitrary: k n objs)
  case Nil
  then show ?case by simp
next
  case (Cons c chunks)
  let ?p = "s3_path prefix t i (Some k)"
  from Cons.prems(1) obtain buf objs1 where enc: "oe_encode E c = Inr buf" and put: "oe_put E objs ?p buf = (Inr (), objs1)"
    and rest: "s3_put_chunks E prefix t i False (Suc k) chunks (n + oe_len E buf) objs1 = (Inr m, objs')"
    by (auto simp: s3_path_eq split: sum.splits prod.splits)
  obtain bs where bs: "content_at E objs1 ?p = Inr (Some bs)" "keeps_batch c bs"
    using content_at_put[OF E _ enc put] Cons.prems(2) by auto
  have "oe_get E objs' ?p = oe_get E objs1 ?p"
    by (rule s3_put_chunks_frame[OF E(1) rest]) (simp_all add: s3_path_inj[OF t t])
  then have "content_at E objs' ?p = Inr (Some bs)" using bs(1) content_at_cong by metis
  moreover obtain bss where "map (\<lambda>p. content_at E objs' (s3_path prefix t i (Some p))) [Suc k..<Suc k + length chunks]
      = map (\<lambda>bs. Inr (Some bs)) bss" "list_all2 keeps_batch chunks bss"
    using Cons.IH[OF rest] Cons.prems(2) by auto
  ultimately show ?case using bs(2) by (intro exI[of _ "bs # bss"]) (simp add: upt_conv_Cons del: upt_Suc)
qed

lemma keeps_batch_concat:
  assumes "keeps_batch b chunks" "list_all2 keeps_batch chunks bss"
  shows "keeps_batch b (concat bss)"
proof -
  have "concat (map rows (concat bss)) = concat (map rows chunks)
      \<and> (\<forall>c \<in> set (concat bss). wf_batch c \<and> (\<exists>d \<in> set chunks. rb_schema c = rb_schema d))"
    using assms(2) by (induction rule: list_all2_induct) (auto simp: keeps_batch_def)
  then show ?thesis using assms(1) by (auto simp: keeps_batch_def)
qed

definition s3_content :: "('t, 'b) object_env \<Rightarrow> 't s3_storage \<Rightarrow> string \<Rightarrow> nat \<Rightarrow> nat option \<Rightarrow> record_batch list option result" where
  "s3_content E s t i p = content_at E (s3_objects s) (s3_path (s3_prefix s) t i p)"

definition s3_inv :: "('t, 'b) object_env \<Rightarrow> kernels \<Rightarrow> nat \<Rightarrow> string \<Rightarrow> 't s3_storage \<Rightarrow> bool" where
  "s3_inv E K n prefix s \<longleftrightarrow> objects_ok E \<and> parquet_ok E \<and> json_ok E \<and> kernels_ok K \<and> 0 < n \<and> s3_prefix s = prefix"

lemma s3_write_stored:
  assumes inv: "s3_inv E K n prefix s" and b: "wf_batch b" and t: "table_name_ok t"
    and wr: "s3_write E K n s t i b = Some (Inr w, s')"
  shows "stored (s3_content E s') t i (wr_part_ids w) b"
proof -
  from wr obtain chunks m objs where ch: "split_record_batch K b n = Some chunks"
    and put: "s3_put_chunks E (s3_prefix s) t i (length chunks = 1) 0 chunks 0 (s3_objects s) = (Inr m, objs)"
    and w: "wr_part_ids w = (if length chunks > 1 then [0..<length chunks] else [])" and s': "s' = s\<lparr>s3_objects := objs\<rparr>"
    by (auto simp: s3_write_def Let_def split: Option.bind_splits prod.splits sum.splits)
  have E: "objects_ok E" "parquet_ok E" "kernels_ok K" "0 < n" using inv by (simp_all add: s3_inv_def)
  have keep: "keeps_batch b chunks" "chunks \<noteq> []" using split_record_batch_keeps[OF E(3) b E(4) ch] by simp_all
  have wfs: "\<forall>c \<in> set chunks. wf_batch c" using keep(1) by (simp add: keeps_batch_def)
  show ?thesis
  proof (cases "length chunks = 1")
    case True
    then obtain c where c: "chunks = [c]" by (auto simp: length_Suc_conv)
    obtain buf where "oe_encode E c = Inr buf" "oe_put E (s3_objects s) (s3_path (s3_prefix s) t i None) buf = (Inr (), objs)"
      using put c by (auto simp: s3_path_eq split: sum.splits prod.splits)
    then obtain bs where "content_at E objs (s3_path (s3_prefix s) t i None) = Inr (Some bs)" "keeps_batch c bs"
      using content_at_put[OF E(1,2), of c] wfs c by (metis list.set_intros(1))
    then show ?thesis using keep(1) c keeps_batch_concat[of b "[c]" "[bs]"] w by (auto simp: stored_def s3_content_def s')
  next
    case False
    then have len: "length chunks > 1" using keep(2) by (cases chunks) auto
    then have ps: "wr_part_ids w = [0..<length chunks]" "wr_part_ids w \<noteq> []" using keep(2) by (auto simp: w)
    obtain bss where "map (\<lambda>p. content_at E objs (s3_path (s3_prefix s) t i (Some p))) [0..<length chunks]
        = map (\<lambda>bs. Inr (Some bs)) bss" "list_all2 keeps_batch chunks bss"
      using s3_put_chunks_stored[OF E(1,2) t _ wfs, of "s3_prefix s" i 0 0 "s3_objects s" m objs] put False by auto
    then show ?thesis using keeps_batch_concat[OF keep(1)] ps by (auto simp: stored_def s3_content_def s')
  qed
qed

interpretation s3: batch_store "s3_write E K n" "s3_content E" "s3_inv E K n prefix" for E K n prefix
proof unfold_locales
  fix s t i b
  assume inv: "s3_inv E K n prefix s"
  then show "\<exists>x s'. s3_write E K n s t i b = Some (x, s')"
    using split_record_batch_returns[of n K b] by (auto simp: s3_inv_def s3_write_def Let_def)
  fix x s'
  show "s3_inv E K n prefix s'" if "s3_write E K n s t i b = Some (x, s')"
    using inv that by (auto simp: s3_inv_def s3_write_def Let_def split: Option.bind_splits prod.splits sum.splits)
  fix u j p
  assume t: "table_name_ok t" "table_name_ok u" "(u, j) \<noteq> (t, i)" and wr: "s3_write E K n s t i b = Some (x, s')"
  from wr obtain chunks y objs where
    put: "s3_put_chunks E (s3_prefix s) t i (length chunks = 1) 0 chunks 0 (s3_objects s) = (y, objs)"
    and s': "s' = s\<lparr>s3_objects := objs\<rparr>"
    by (auto simp: s3_write_def Let_def split: Option.bind_splits prod.splits sum.splits)
  have ne: "s3_path (s3_prefix s) u j p \<noteq> s3_path (s3_prefix s) t i q" for q using s3_path_inj[OF t(2,1)] t(3) by auto
  have "oe_get E objs (s3_path (s3_prefix s) u j p) = oe_get E (s3_objects s) (s3_path (s3_prefix s) u j p)"
    by (rule s3_put_chunks_frame[OF _ put ne ne]) (use inv in \<open>simp add: s3_inv_def\<close>)
  then show "s3_content E s' u j p = s3_content E s u j p"
    using content_at_cong by (simp add: s3_content_def s')
next
  fix s t i b w s'
  assume "s3_inv E K n prefix s" "wf_batch b" "table_name_ok t" and wr: "s3_write E K n s t i b = Some (Inr w, s')"
  moreover have "wr_rows_written w = rb_num_rows b"
    using wr by (auto simp: s3_write_def Let_def split: Option.bind_splits prod.splits sum.splits)
  ultimately show "stored (s3_content E s') t i (wr_part_ids w) b \<and> wr_rows_written w = rb_num_rows b"
    using s3_write_stored by blast
qed

subsection \<open>Reading a batch back\<close>

text \<open>
  The storage as the ETL reads it: split parts from the version metadata, objects through
  \<^verbatim>\<open>read_batch\<close>.
\<close>

definition fs_data_storage :: "('t, 'b) object_env \<Rightarrow> 't file_storage \<Rightarrow> data_storage" where
  "fs_data_storage E s = \<lparr>ds_read_batch_parts = read_batch_parts (fst (fs_read_version_metadata E s)),
     ds_read_batch = (\<lambda>t i p. fst (fs_read_batch E s t i p))\<rparr>"

definition s3_data_storage :: "('t, 'b) object_env \<Rightarrow> 't s3_storage \<Rightarrow> data_storage" where
  "s3_data_storage E s = \<lparr>ds_read_batch_parts = read_batch_parts (fst (s3_cached_version_metadata E s)),
     ds_read_batch = (\<lambda>t i p. fst (s3_read_batch E s t i p))\<rparr>"

text \<open>
  What the two have in common once the metadata can be read: an object's contents with the
  key columns of its table.
\<close>

definition reads_content ::
  "data_storage \<Rightarrow> (string \<Rightarrow> nat \<Rightarrow> nat option \<Rightarrow> record_batch list option result) \<Rightarrow> VersionMetadata \<Rightarrow> bool" where
  "reads_content ds content md \<longleftrightarrow>
     (\<forall>t i. ds_read_batch_parts ds t i = read_batch_parts (Inr (Some md)) t i)
     \<and> (\<forall>t i p bs. content t i p = Inr (Some bs) \<longrightarrow> (\<exists>r. ds_read_batch ds t i p = Inr (Some r) \<and> rr_batches r = bs
          \<and> rr_rows_read r = sum_list (map rb_num_rows bs)
          \<and> Inr (rr_key_columns r) = read_key_columns (Inr (Some md)) t))"

lemma fs_reads_content:
  assumes "fst (fs_read_version_metadata E s) = Inr (Some md)"
  shows "reads_content (fs_data_storage E s) (fs_content E s) md"
  unfolding reads_content_def
proof (intro conjI allI impI)
  fix t i p bs assume c: "fs_content E s t i p = Inr (Some bs)"
  then obtain bytes where g: "oe_get E (fs_objects s) (fs_path (fs_base_dir s) t i p) = Inr (Some bytes)"
    "oe_decode E bytes = Inr bs"
    by (auto simp: fs_content_def content_at_def result_simps split: option.splits)
  have path: "(case p of None \<Rightarrow> fs_batch_path (fs_base_dir s) t i | Some pid \<Rightarrow> fs_batch_part_path (fs_base_dir s) t i pid)
      = fs_path (fs_base_dir s) t i p" by (simp add: fs_path_eq split: option.splits)
  obtain ks where ks: "read_key_columns (Inr (Some md)) t = Inr ks" by (simp add: read_key_columns_def)
  show "\<exists>r. ds_read_batch (fs_data_storage E s) t i p = Inr (Some r) \<and> rr_batches r = bs
      \<and> rr_rows_read r = sum_list (map rb_num_rows bs) \<and> Inr (rr_key_columns r) = read_key_columns (Inr (Some md)) t"
    using assms g ks by (simp add: fs_data_storage_def fs_read_batch_def path Let_def split_beta decode_object_def)
qed (simp add: fs_data_storage_def assms)

lemma s3_reads_content:
  assumes md: "fst (s3_cached_version_metadata E s) = Inr (Some md)" and kc: "s3_key_columns_cache s = Map.empty"
  shows "reads_content (s3_data_storage E s) (s3_content E s) md"
  unfolding reads_content_def
proof (intro conjI allI impI)
  fix t i p bs assume c: "s3_content E s t i p = Inr (Some bs)"
  then obtain bytes where g: "oe_get E (s3_objects s) (s3_path (s3_prefix s) t i p) = Inr (Some bytes)"
    "oe_decode E bytes = Inr bs"
    by (auto simp: s3_content_def content_at_def result_simps split: option.splits)
  have path: "(case p of None \<Rightarrow> batch_object_path (s3_prefix s) t i | Some k \<Rightarrow> batch_part_object_path (s3_prefix s) t i k)
      = s3_path (s3_prefix s) t i p" by (simp add: s3_path_eq split: option.splits)
  obtain ks where ks: "read_key_columns (Inr (Some md)) t = Inr ks" by (simp add: read_key_columns_def)
  then have "fst (s3_cached_key_columns E s t) = Inr ks"
    using md kc by (simp add: s3_cached_key_columns_def split_beta)
  then show "\<exists>r. ds_read_batch (s3_data_storage E s) t i p = Inr (Some r) \<and> rr_batches r = bs
      \<and> rr_rows_read r = sum_list (map rb_num_rows bs) \<and> Inr (rr_key_columns r) = read_key_columns (Inr (Some md)) t"
    using g ks by (auto simp: s3_data_storage_def s3_read_batch_def path Let_def decode_object_def split: prod.splits sum.splits)
qed (simp add: s3_data_storage_def md)

text \<open>
  A stored batch is read back by the ETL with all its rows, whatever the order in which the
  downloads of its parts complete.
\<close>

lemma read_stored_batch:
  assumes rc: "reads_content ds content md" and st: "stored content t i parts b"
    and parts: "read_batch_parts (Inr (Some md)) t i = Inr parts" and js: "\<And>j. js_join_error js j = None"
  shows "\<exists>r. read_logical_batch ds js t i = Inr (Some r) \<and> keeps_batch b (rr_batches r)"
proof (cases "parts = []")
  case True
  then obtain bs where "content t i None = Inr (Some bs)" "keeps_batch b bs" using st by (auto simp: stored_def)
  moreover from this rc obtain r where "ds_read_batch ds t i None = Inr (Some r)" "rr_batches r = bs"
    unfolding reads_content_def by blast
  moreover have "ds_read_batch_parts ds t i = Inr []" using rc parts True by (simp add: reads_content_def)
  ultimately show ?thesis by (auto simp: read_logical_batch_def)
next
  case False
  then obtain bss where bss: "map (\<lambda>p. content t i (Some p)) parts = map (\<lambda>bs. Inr (Some bs)) bss"
    "keeps_batch b (concat bss)" and d: "distinct parts" "sorted parts" using st by (auto simp: stored_def)
  have dp: "ds_read_batch_parts ds t i = Inr parts" using rc parts by (simp add: reads_content_def)
  have pr: "\<exists>r. part_read ds t i p = Inr r \<and> rr_batches r = bs" if "content t i (Some p) = Inr (Some bs)" for p bs
    using rc that unfolding reads_content_def part_read_def by fastforce
  have ok: "\<forall>p \<in> set parts. \<exists>r. part_read ds t i p = Inr r"
  proof
    fix p assume "p \<in> set parts"
    then have "content t i (Some p) \<in> set (map (\<lambda>bs. Inr (Some bs)) bss)" unfolding bss(1)[symmetric] by simp
    then show "\<exists>r. part_read ds t i p = Inr r" using pr by auto
  qed
  have "read_logical_batch ds js t i = Inr (Some (merge_results (map (\<lambda>p. projr (part_read ds t i p)) parts)))"
    using read_logical_batch_parts[OF dp False d(1), of js] js ok d(2) by (simp add: sorted_sort_id)
  moreover have "rr_batches (merge_results (map (\<lambda>p. projr (part_read ds t i p)) parts)) = concat bss"
  proof -
    have "map (\<lambda>p. rr_batches (projr (part_read ds t i p))) parts = bss" using bss(1) pr
      by (induction parts arbitrary: bss) (fastforce simp: Cons_eq_map_conv map_eq_Cons_conv)+
    then show ?thesis by (simp add: merge_results_def comp_def)
  qed
  ultimately show ?thesis using bss(2) by (intro exI) auto
qed

text \<open>
  Metadata written by the generator is what a storage opened later on the same objects reads;
  writing it leaves every batch object alone.
\<close>

lemma fs_metadata_path: "fs_version_metadata_path base \<noteq> fs_path base t i p"
  by (simp add: fs_version_metadata_path_def fs_path_def)

lemma s3_metadata_path: "version_metadata_object_path prefix \<noteq> s3_path prefix t i p"
  by (simp add: version_metadata_object_path_def s3_path_def s3_key_def)

lemma fs_metadata_reopened:
  assumes E: "objects_ok E" "json_ok E" and w: "fs_write_version_metadata E s md = (Inr u, s')"
  shows "fst (fs_read_version_metadata E (fs_new (fs_base_dir s) (fs_objects s'))) = Inr (Some md)"
    "fs_content E (fs_new (fs_base_dir s) (fs_objects s')) = fs_content E s"
proof -
  obtain t x bytes where dir: "oe_create_dir_all E (fs_objects s) (fs_base_dir s) = (x, t)"
    and enc: "oe_meta_encode E md = Inr bytes"
    and put: "oe_put E t (fs_version_metadata_path (fs_base_dir s)) bytes = (Inr (), fs_objects s')"
    using w by (auto simp: fs_write_version_metadata_def fs_cache_if_unset_def split: prod.splits sum.splits if_splits)
  have "oe_meta_decode E bytes = Inr md" using E(2) enc by (simp add: json_ok_def)
  then show "fst (fs_read_version_metadata E (fs_new (fs_base_dir s) (fs_objects s'))) = Inr (Some md)"
    using objects_ok_put(2)[OF E(1) put] by (simp add: fs_read_version_metadata_def fs_new_def)
  have "oe_get E (fs_objects s') (fs_path (fs_base_dir s) a i p) = oe_get E (fs_objects s) (fs_path (fs_base_dir s) a i p)" for a i p
    using objects_ok_put(1)[OF E(1) put fs_metadata_path[symmetric]] objects_ok_dir[OF E(1) dir] by simp
  then show "fs_content E (fs_new (fs_base_dir s) (fs_objects s')) = fs_content E s"
    by (simp add: fun_eq_iff fs_content_def fs_new_def content_at_def)
qed

definition s3_open :: "string \<Rightarrow> string \<Rightarrow> string option \<Rightarrow> 't \<Rightarrow> 't s3_storage" where
  "s3_open bucket prefix region objects = \<lparr>s3_bucket = bucket, s3_prefix = prefix, s3_region = region,
     s3_key_columns_cache = Map.empty, s3_version_metadata_cache = None, s3_objects = objects\<rparr>"

lemma s3_metadata_reopened:
  assumes E: "objects_ok E" "json_ok E" and w: "s3_write_version_metadata E s md = (Inr u, s')"
  shows "fst (s3_cached_version_metadata E (s3_open bucket (s3_prefix s) region (s3_objects s'))) = Inr (Some md)"
    "s3_content E (s3_open bucket (s3_prefix s) region (s3_objects s')) = s3_content E s"
proof -
  obtain bytes where enc: "oe_meta_encode E md = Inr bytes"
    and put: "oe_put E (s3_objects s) (version_metadata_object_path (s3_prefix s)) bytes = (Inr (), s3_objects s')"
    using w by (auto simp: s3_write_version_metadata_def split: prod.splits sum.splits)
  have "oe_meta_decode E bytes = Inr md" using E(2) enc by (simp add: json_ok_def)
  then show "fst (s3_cached_version_metadata E (s3_open bucket (s3_prefix s) region (s3_objects s'))) = Inr (Some md)"
    using objects_ok_put(2)[OF E(1) put] by (simp add: s3_cached_version_metadata_def s3_open_def)
  show "s3_content E (s3_open bucket (s3_prefix s) region (s3_objects s')) = s3_content E s"
    using objects_ok_put(1)[OF E(1) put s3_metadata_path[symmetric]]
    by (simp add: fun_eq_iff s3_content_def s3_open_def content_at_def)
qed

subsection \<open>The interface of a storage with version metadata\<close>

text \<open>
  What the generator and the ETL share: after the metadata is written, every later reader of
  the storage finds it and the batches. \<open>reads s ds mdr\<close> says that \<open>ds\<close> is such a reader of \<open>s\<close>
  and \<open>mdr\<close> the metadata it reads.
\<close>

locale versioned_store = batch_store wr content inv
  for wr :: "'s \<Rightarrow> string \<Rightarrow> nat \<Rightarrow> record_batch \<Rightarrow> (WriteResult result \<times> 's) option"
    and content :: "'s \<Rightarrow> string \<Rightarrow> nat \<Rightarrow> nat option \<Rightarrow> record_batch list option result"
    and inv :: "'s \<Rightarrow> bool" +
  fixes wmd :: "'s \<Rightarrow> VersionMetadata \<Rightarrow> unit result \<times> 's"
    and reads :: "'s \<Rightarrow> data_storage \<Rightarrow> VersionMetadata option result \<Rightarrow> bool"
  assumes wmd_reads: "inv s \<Longrightarrow> wmd s md = (Inr u, s') \<Longrightarrow> reads s' ds mdr \<Longrightarrow>
    mdr = Inr (Some md) \<and> reads_content ds (content s) md"
begin

lemma read_back:
  assumes "inv s" "wmd s md = (Inr u, s')" "reads s' ds mdr" "stored (content s) t i parts b" "vm_tables md t = Some tm"
    "tm_batch_parts tm i = (if parts = [] then None else Some (sort parts))" "\<And>j. js_join_error js j = None"
  shows "\<exists>r. read_logical_batch ds js t i = Inr (Some r) \<and> keeps_batch b (rr_batches r)"
proof (rule read_stored_batch[OF wmd_reads[OF assms(1-3), THEN conjunct2] assms(4) _ assms(7)])
  have "sort parts = parts" using assms(4) by (auto simp: stored_def sorted_sort_id split: if_splits)
  then show "read_batch_parts (Inr (Some md)) t i = Inr parts"
    using assms(5,6) by (simp add: read_batch_parts_def)
qed

end

text \<open>
  A file storage is read in place or after its directory was copied: every file under the old
  base is found under the new one, except the archive itself.
\<close>

definition ARCHIVE_FILENAME :: string where "ARCHIVE_FILENAME = ''data.tar.zst''"

definition copied :: "('t, 'b) object_env \<Rightarrow> 't \<Rightarrow> string \<Rightarrow> 't \<Rightarrow> string \<Rightarrow> bool" where
  "copied E t src u dst \<longleftrightarrow> (\<forall>p c. p \<noteq> ARCHIVE_FILENAME \<longrightarrow> oe_get E t (src @ ''/'' @ p) = Inr (Some c) \<longrightarrow> oe_get E u (dst @ ''/'' @ p) = Inr (Some c))"

definition fs_reads :: "('t, 'b) object_env \<Rightarrow> 't file_storage \<Rightarrow> data_storage \<Rightarrow> VersionMetadata option result \<Rightarrow> bool" where
  "fs_reads E s ds mdr \<longleftrightarrow> (\<exists>u dst. copied E (fs_objects s) (fs_base_dir s) u dst
     \<and> ds = fs_data_storage E (fs_new dst u) \<and> mdr = fst (fs_read_version_metadata E (fs_new dst u)))"

lemma fs_reads_in_place:
  "fs_reads E s (fs_data_storage E (fs_new (fs_base_dir s) (fs_objects s)))
     (fst (fs_read_version_metadata E (fs_new (fs_base_dir s) (fs_objects s))))"
  by (auto simp: fs_reads_def copied_def)

lemma copied_content:
  assumes "copied E t src u dst" "fs_content E (fs_new src t) a i p = Inr (Some bs)"
  shows "fs_content E (fs_new dst u) a i p = Inr (Some bs)"
proof -
  obtain c where c: "oe_get E t (fs_path src a i p) = Inr (Some c)" "oe_decode E c = Inr bs"
    using assms(2) by (auto simp: fs_content_def fs_new_def content_at_def result_simps split: option.splits)
  have "fs_path b a i p = b @ ''/'' @ (''tables/'' @ a @ ''/'' @ object_name i p)" for b
    by (simp add: fs_path_def)
  then show ?thesis using c assms(1) by (simp add: copied_def ARCHIVE_FILENAME_def fs_content_def fs_new_def content_at_def)
qed

lemma copied_metadata:
  assumes "copied E t src u dst" "fst (fs_read_version_metadata E (fs_new src t)) = Inr (Some md)"
  shows "fst (fs_read_version_metadata E (fs_new dst u)) = Inr (Some md)"
proof -
  obtain c where c: "oe_get E t (fs_version_metadata_path src) = Inr (Some c)" "oe_meta_decode E c = Inr md"
    using assms(2) by (auto simp: fs_read_version_metadata_def fs_new_def split: sum.splits option.splits)
  moreover have "fs_version_metadata_path b = b @ ''/'' @ ''version.json''" for b by (simp add: fs_version_metadata_path_def)
  ultimately show ?thesis using assms(1) by (simp add: copied_def ARCHIVE_FILENAME_def fs_read_version_metadata_def fs_new_def)
qed

interpretation fsv: versioned_store "fs_wr E" "fs_content E" "fs_inv E base" "fs_write_version_metadata E" "fs_reads E" for E base
proof
  fix s md s' ds mdr and u :: unit
  assume inv: "fs_inv E base s" and w: "fs_write_version_metadata E s md = (Inr u, s')" and rd: "fs_reads E s' ds mdr"
  have base: "fs_base_dir s' = fs_base_dir s"
    using w by (auto simp: fs_write_version_metadata_def fs_cache_if_unset_def split: prod.splits sum.splits if_splits)
  obtain v dst where cp: "copied E (fs_objects s') (fs_base_dir s) v dst"
    and ds: "ds = fs_data_storage E (fs_new dst v)" "mdr = fst (fs_read_version_metadata E (fs_new dst v))"
    using rd by (auto simp: fs_reads_def base)
  have E: "objects_ok E" "json_ok E" using inv by (simp_all add: fs_inv_def)
  note re = fs_metadata_reopened[OF E w]
  have mdr: "mdr = Inr (Some md)" unfolding ds by (rule copied_metadata[OF cp re(1)])
  have "reads_content ds (fs_content E (fs_new dst v)) md" unfolding ds(1) by (rule fs_reads_content) (use mdr ds(2) in simp)
  moreover have "fs_content E (fs_new dst v) t i p = Inr (Some bs)" if "fs_content E s t i p = Inr (Some bs)" for t i p bs
    using copied_content[OF cp] that re(2) by simp
  ultimately show "mdr = Inr (Some md) \<and> reads_content ds (fs_content E s) md" using mdr unfolding reads_content_def by blast
qed

definition s3_reads :: "('t, 'b) object_env \<Rightarrow> 't s3_storage \<Rightarrow> data_storage \<Rightarrow> VersionMetadata option result \<Rightarrow> bool" where
  "s3_reads E s ds mdr \<longleftrightarrow> (\<exists>bucket region. ds = s3_data_storage E (s3_open bucket (s3_prefix s) region (s3_objects s))
     \<and> mdr = fst (s3_cached_version_metadata E (s3_open bucket (s3_prefix s) region (s3_objects s))))"

interpretation s3v: versioned_store "s3_write E K n" "s3_content E" "s3_inv E K n prefix" "s3_write_version_metadata E" "s3_reads E"
  for E K n prefix
proof
  fix s md s' ds mdr and u :: unit
  assume inv: "s3_inv E K n prefix s" and w: "s3_write_version_metadata E s md = (Inr u, s')" and rd: "s3_reads E s' ds mdr"
  have pre: "s3_prefix s' = s3_prefix s"
    using w by (auto simp: s3_write_version_metadata_def split: prod.splits sum.splits)
  obtain bucket region where ds: "ds = s3_data_storage E (s3_open bucket (s3_prefix s) region (s3_objects s'))"
    "mdr = fst (s3_cached_version_metadata E (s3_open bucket (s3_prefix s) region (s3_objects s')))"
    using rd by (auto simp: s3_reads_def pre)
  have E: "objects_ok E" "json_ok E" using inv by (simp_all add: s3_inv_def)
  note re = s3_metadata_reopened[OF E w, of bucket region]
  have "s3_key_columns_cache (s3_open bucket (s3_prefix s) region (s3_objects s')) = Map.empty" by (simp add: s3_open_def)
  from s3_reads_content[OF re(1) this] show "mdr = Inr (Some md) \<and> reads_content ds (s3_content E s) md"
    using re by (simp add: ds)
qed

end
