(* ===== verification/Archive.thy ===== *)
theory Archive
  imports Storage
begin

text \<open>
  Shipping a generated directory: \<^verbatim>\<open>archive.rs\<close> packs it into one file, \<^verbatim>\<open>S3Storage\<close> uploads and
  downloads that file in chunks, and \<^verbatim>\<open>ETLPipeline::download\<close> puts the pieces together on the
  reading side. Files and objects are lists of bytes of an arbitrary type \<open>'x\<close>.
\<close>

subsection \<open>Packing\<close>

text \<open>
  The tar and zstd libraries: \<open>av_pack\<close> renders a directory of the file system as bytes, \<open>av_unpack\<close>
  writes them below another directory. \<open>av_parent\<close> is \<^verbatim>\<open>Path::parent\<close>.
\<close>

record ('t, 'x) archive_env =
  av_files :: "('t, 'x list) object_env"
  av_pack :: "'t \<Rightarrow> string \<Rightarrow> 'x list result"
  av_unpack :: "'t \<Rightarrow> 'x list \<Rightarrow> string \<Rightarrow> unit result \<times> 't"
  av_remove_file :: "'t \<Rightarrow> string \<Rightarrow> unit result \<times> 't"
  av_parent :: "string \<Rightarrow> string option"

definition create_parent :: "('t, 'x) archive_env \<Rightarrow> 't \<Rightarrow> string \<Rightarrow> unit result \<times> 't" where
  "create_parent A t path =
     (case av_parent A path of None \<Rightarrow> (Inr (), t) | Some parent \<Rightarrow> oe_create_dir_all (av_files A) t parent)"

definition create_archive :: "('t, 'x) archive_env \<Rightarrow> 't \<Rightarrow> string \<Rightarrow> string \<Rightarrow> unit result \<times> 't" where
  "create_archive A t source_dir archive_path =
     (case create_parent A t archive_path of
        (Inl e, t1) \<Rightarrow> (Inl e, t1)
      | (Inr _, t1) \<Rightarrow>
          (case oe_put (av_files A) t1 archive_path [] of
             (Inl e, t2) \<Rightarrow> (Inl e, t2)
           | (Inr _, t2) \<Rightarrow>
               (case av_pack A t2 source_dir of
                  Inl e \<Rightarrow> (Inl e, t2)
                | Inr bytes \<Rightarrow>
                    (case oe_put (av_files A) t2 archive_path bytes of
                       (Inl e, t3) \<Rightarrow> (Inl e, t3)
                     | (Inr _, t3) \<Rightarrow>
                         (case oe_get (av_files A) t3 archive_path of
                            Inl e \<Rightarrow> (Inl e, t3)
                          | Inr None \<Rightarrow> (Inl ''not found'', t3)
                          | Inr (Some _) \<Rightarrow> (Inr (), t3))))))"

definition extract_archive :: "('t, 'x) archive_env \<Rightarrow> 't \<Rightarrow> string \<Rightarrow> string \<Rightarrow> unit result \<times> 't" where
  "extract_archive A t archive_path target_dir =
     (case oe_create_dir_all (av_files A) t target_dir of
        (Inl e, t1) \<Rightarrow> (Inl e, t1)
      | (Inr _, t1) \<Rightarrow>
          (case oe_get (av_files A) t1 archive_path of
             Inl e \<Rightarrow> (Inl e, t1)
           | Inr None \<Rightarrow> (Inl ''not found'', t1)
           | Inr (Some bytes) \<Rightarrow> av_unpack A t1 bytes target_dir))"

subsection \<open>Transfer\<close>

definition ARCHIVE_TRANSFER_CHUNK_SIZE :: nat where "ARCHIVE_TRANSFER_CHUNK_SIZE = 8 * 1024 * 1024"

definition archive_object_path :: "string \<Rightarrow> string" where
  "archive_object_path prefix = s3_key prefix ARCHIVE_FILENAME"

text \<open>
  What the system decides during a transfer: how much the \<open>k\<close>-th read returns or that it fails,
  whether waiting for capacity fails, whether the multipart upload starts, and the chunks a
  download stream delivers before it ends or fails.
\<close>

record 'x transfer =
  tr_read :: "nat \<Rightarrow> nat result"
  tr_capacity :: "nat \<Rightarrow> string option"
  tr_put_multipart :: "unit result"
  tr_stream :: "'x list \<Rightarrow> 'x list result list"

text \<open>
  The \<open>k\<close>-th turn of the upload loop: \<open>rest\<close> is the unread part of the file, \<open>sent\<close> what the
  writer has been given. A read returns nothing only at the end of the file and at most the
  size of the buffer.
\<close>

function upload_loop :: "'x transfer \<Rightarrow> nat \<Rightarrow> 'x list \<Rightarrow> 'x list \<Rightarrow> 'x list result" where
  "upload_loop tr k rest sent =
     (case tr_read tr k of
        Inl e \<Rightarrow> Inl e
      | Inr n \<Rightarrow>
          let read = (if rest = [] then 0 else max 1 (min n (min ARCHIVE_TRANSFER_CHUNK_SIZE (length rest))))
          in if read = 0 then Inr sent
             else case tr_capacity tr k of
                    Some e \<Rightarrow> Inl e
                  | None \<Rightarrow> upload_loop tr (Suc k) (drop read rest) (sent @ take read rest))"
  by pat_completeness auto
termination
  by (relation "measure (\<lambda>(tr, k, rest, sent). length rest)") (auto split: if_splits)

declare upload_loop.simps [simp del]

definition upload_archive ::
  "('t, 'x) archive_env \<Rightarrow> ('u, 'x list) object_env \<Rightarrow> 'x transfer \<Rightarrow> 't \<Rightarrow> 'u \<Rightarrow> string \<Rightarrow> string \<Rightarrow> unit result \<times> 'u" where
  "upload_archive A S tr t u prefix local_path =
     (case oe_get (av_files A) t local_path of
        Inl e \<Rightarrow> (Inl e, u)
      | Inr None \<Rightarrow> (Inl ''not found'', u)
      | Inr (Some file) \<Rightarrow>
          (case tr_put_multipart tr of
             Inl e \<Rightarrow> (Inl e, u)
           | Inr _ \<Rightarrow>
               (case upload_loop tr 0 file [] of
                  Inl e \<Rightarrow> (Inl e, u)
                | Inr sent \<Rightarrow> oe_put S u (archive_object_path prefix) sent)))"

fun download_loop :: "('t, 'x) archive_env \<Rightarrow> string \<Rightarrow> 'x list \<Rightarrow> 'x list result list \<Rightarrow> 't \<Rightarrow> unit result \<times> 't" where
  "download_loop A path written [] t = (Inr (), t)"
| "download_loop A path written (Inl e # chunks) t = (Inl e, t)"
| "download_loop A path written (Inr chunk # chunks) t =
     (case oe_put (av_files A) t path (written @ chunk) of
        (Inl e, t') \<Rightarrow> (Inl e, t')
      | (Inr _, t') \<Rightarrow> download_loop A path (written @ chunk) chunks t')"

definition download_archive ::
  "('t, 'x) archive_env \<Rightarrow> ('u, 'x list) object_env \<Rightarrow> 'x transfer \<Rightarrow> 't \<Rightarrow> 'u \<Rightarrow> string \<Rightarrow> string \<Rightarrow> unit result \<times> 't" where
  "download_archive A S tr t u prefix local_path =
     (case create_parent A t local_path of
        (Inl e, t1) \<Rightarrow> (Inl e, t1)
      | (Inr _, t1) \<Rightarrow>
          (case oe_get S u (archive_object_path prefix) of
             Inl e \<Rightarrow> (Inl e, t1)
           | Inr None \<Rightarrow> (Inl ''not found'', t1)
           | Inr (Some obj) \<Rightarrow>
               (case oe_put (av_files A) t1 local_path [] of
                  (Inl e, t2) \<Rightarrow> (Inl e, t2)
                | (Inr _, t2) \<Rightarrow> download_loop A local_path [] (tr_stream tr obj) t2)))"

text \<open>\<^verbatim>\<open>ETLPipeline::download\<close>: a failed removal of the archive is only logged.\<close>

definition etl_download ::
  "('t, 'x) archive_env \<Rightarrow> ('u, 'x list) object_env \<Rightarrow> 'x transfer \<Rightarrow> 't \<Rightarrow> 'u \<Rightarrow> string \<Rightarrow> string \<Rightarrow> unit result \<times> 't" where
  "etl_download A S tr t u prefix extract_dir =
     (case oe_create_dir_all (av_files A) t extract_dir of
        (Inl e, t1) \<Rightarrow> (Inl e, t1)
      | (Inr _, t1) \<Rightarrow>
          let archive_path = extract_dir @ ''/'' @ ARCHIVE_FILENAME
          in (case download_archive A S tr t1 u prefix archive_path of
                (Inl e, t2) \<Rightarrow> (Inl e, t2)
              | (Inr _, t2) \<Rightarrow>
                  (case extract_archive A t2 archive_path extract_dir of
                     (Inl e, t3) \<Rightarrow> (Inl e, t3)
                   | (Inr _, t3) \<Rightarrow> (Inr (), snd (av_remove_file A t3 archive_path)))))"

subsection \<open>What the libraries promise\<close>

text \<open>
  Unpacking restores every file that was packed; removing a file leaves the others alone; a
  stream that does not fail delivers the object.
\<close>

definition archive_ok :: "('t, 'x) archive_env \<Rightarrow> bool" where
  "archive_ok A \<longleftrightarrow> objects_ok (av_files A)
     \<and> (\<forall>t src bytes t1 dst t2. av_pack A t src = Inr bytes \<longrightarrow> av_unpack A t1 bytes dst = (Inr (), t2) \<longrightarrow>
          copied (av_files A) t src t2 dst)
     \<and> (\<forall>t p x t'. av_remove_file A t p = (x, t') \<longrightarrow> (\<forall>q. q \<noteq> p \<longrightarrow> oe_get (av_files A) t' q = oe_get (av_files A) t q))"

definition stream_ok :: "'x transfer \<Rightarrow> bool" where
  "stream_ok tr \<longleftrightarrow> (\<forall>bytes bss. tr_stream tr bytes = map Inr bss \<longrightarrow> concat bss = bytes)"

subsection \<open>Every chunking transfers the file\<close>

lemma upload_loop_sends: "upload_loop tr k rest sent = Inr out \<Longrightarrow> out = sent @ rest"
proof (induction tr k rest sent rule: upload_loop.induct)
  case (1 tr k rest sent)
  obtain n where n: "tr_read tr k = Inr n" using 1(2) by (cases "tr_read tr k") (simp_all add: upload_loop.simps)
  show ?case
  proof (cases "rest = []")
    case True
    then show ?thesis using 1(2) n by (simp add: upload_loop.simps)
  next
    case False
    let ?r = "max 1 (min n (min ARCHIVE_TRANSFER_CHUNK_SIZE (length rest)))"
    have cap: "tr_capacity tr k = None" and step: "upload_loop tr (Suc k) (drop ?r rest) (sent @ take ?r rest) = Inr out"
      using 1(2) n False by (auto simp: upload_loop.simps[of tr k] Let_def split: option.splits)
    then show ?thesis using 1(1)[OF n refl _ cap] False by simp
  qed
qed

text \<open>Without failures the loop returns, whatever the sizes of the reads.\<close>

lemma upload_loop_returns:
  assumes "\<And>k. \<exists>n. tr_read tr k = Inr n" "\<And>k. tr_capacity tr k = None"
  shows "upload_loop tr k rest sent = Inr (sent @ rest)"
proof (induction "length rest" arbitrary: k rest sent rule: less_induct)
  case less
  obtain n where n: "tr_read tr k = Inr n" using assms(1) by blast
  let ?r = "max 1 (min n (min ARCHIVE_TRANSFER_CHUNK_SIZE (length rest)))"
  show ?case
  proof (cases "rest = []")
    case False
    then have "length (drop ?r rest) < length rest" by simp
    from less[OF this, of "Suc k" "sent @ take ?r rest"] show ?thesis
      using n assms(2) False by (simp add: upload_loop.simps[of tr k] Let_def)
  qed (use n in \<open>simp add: upload_loop.simps\<close>)
qed

lemma download_loop_writes:
  assumes "objects_ok (av_files A)" "download_loop A path written chunks t = (Inr (), t')"
    "oe_get (av_files A) t path = Inr (Some written)"
  shows "\<exists>bss. chunks = map Inr bss \<and> oe_get (av_files A) t' path = Inr (Some (written @ concat bss))"
  using assms(2,3)
proof (induction chunks arbitrary: written t)
  case (Cons x chunks)
  then obtain chunk t1 where x: "x = Inr chunk" and put: "oe_put (av_files A) t path (written @ chunk) = (Inr (), t1)"
    and rest: "download_loop A path (written @ chunk) chunks t1 = (Inr (), t')"
    by (cases x) (auto split: prod.splits sum.splits)
  have "oe_get (av_files A) t1 path = Inr (Some (written @ chunk))" using objects_ok_put(2)[OF assms(1) put] by simp
  from Cons.IH[OF rest this] obtain bss where "chunks = map Inr bss"
    "oe_get (av_files A) t' path = Inr (Some ((written @ chunk) @ concat bss))" by blast
  then show ?case using x by (intro exI[of _ "chunk # bss"]) simp
qed simp

text \<open>
  The archive file of the directory is uploaded, downloaded and unpacked elsewhere: the other
  side has every file of the directory.
\<close>

lemma create_archive_packs:
  assumes A: "objects_ok (av_files A)" and c: "create_archive A t src path = (Inr (), t')" and out: "\<And>p. path \<noteq> src @ ''/'' @ p"
  shows "\<exists>t2 bytes. av_pack A t2 src = Inr bytes \<and> (\<forall>p. oe_get (av_files A) t2 (src @ ''/'' @ p) = oe_get (av_files A) t (src @ ''/'' @ p))
     \<and> oe_get (av_files A) t' path = Inr (Some bytes)"
proof -
  obtain x t1 where par: "create_parent A t path = (x, t1)" by force
  have get1: "oe_get (av_files A) t1 q = oe_get (av_files A) t q" for q
    using par objects_ok_dir[OF A] by (auto simp: create_parent_def split: option.splits)
  from c par obtain t2 bytes where fl: "oe_put (av_files A) t1 path [] = (Inr (), t2)" and pack: "av_pack A t2 src = Inr bytes"
    and put: "oe_put (av_files A) t2 path bytes = (Inr (), t')"
    by (auto simp: create_archive_def split: prod.splits sum.splits option.splits)
  have "oe_get (av_files A) t2 (src @ ''/'' @ p) = oe_get (av_files A) t (src @ ''/'' @ p)" for p
    using objects_ok_put(1)[OF A fl] out[of p] get1 by metis
  then show ?thesis using pack objects_ok_put(2)[OF A put] by auto
qed

lemma uploaded_archive:
  assumes S: "objects_ok S" and up: "upload_archive A S tr t u prefix path = (Inr (), u')"
    and fl: "oe_get (av_files A) t path = Inr (Some bytes)"
  shows "oe_get S u' (archive_object_path prefix) = Inr (Some bytes)"
proof -
  from up fl obtain sent where loop: "upload_loop tr 0 bytes [] = Inr sent" and put: "oe_put S u (archive_object_path prefix) sent = (Inr (), u')"
    by (auto simp: upload_archive_def split: sum.splits)
  then show ?thesis using upload_loop_sends[OF loop] objects_ok_put(2)[OF S put] by simp
qed

lemma downloaded_archive:
  assumes A: "objects_ok (av_files A)" and str: "stream_ok tr" and obj: "oe_get S u (archive_object_path prefix) = Inr (Some bytes)"
    and dl: "download_archive A S tr t u prefix path = (Inr (), t')"
  shows "oe_get (av_files A) t' path = Inr (Some bytes)"
proof -
  from dl obj obtain t1 t2 where fl: "oe_put (av_files A) t1 path [] = (Inr (), t2)"
    and loop: "download_loop A path [] (tr_stream tr bytes) t2 = (Inr (), t')"
    by (auto simp: download_archive_def split: prod.splits sum.splits)
  obtain bss where "tr_stream tr bytes = map Inr bss" "oe_get (av_files A) t' path = Inr (Some (concat bss))"
    using download_loop_writes[OF A loop] objects_ok_put(2)[OF A fl] by auto
  then show ?thesis using str by (simp add: stream_ok_def)
qed

lemma shipped_directory:
  assumes A: "archive_ok A" and S: "objects_ok S" and str: "stream_ok tr'"
    and c: "create_archive A t src path = (Inr (), t1)" and out: "\<And>p. path \<noteq> src @ ''/'' @ p"
    and up: "upload_archive A S tr t1 u prefix path = (Inr (), u')" and dl: "etl_download A S tr' t' u' prefix dst = (Inr (), t3)"
  shows "copied (av_files A) t src t3 dst"
proof -
  have ok: "objects_ok (av_files A)" using A by (simp add: archive_ok_def)
  obtain t2 bytes where pack: "av_pack A t2 src = Inr bytes"
    and same: "\<And>p. oe_get (av_files A) t2 (src @ ''/'' @ p) = oe_get (av_files A) t (src @ ''/'' @ p)"
    and fl: "oe_get (av_files A) t1 path = Inr (Some bytes)" using create_archive_packs[OF ok c out] by blast
  note obj = uploaded_archive[OF S up fl]
  let ?p = "dst @ ''/'' @ ARCHIVE_FILENAME"
  from dl obtain s1 s2 s3 where down: "download_archive A S tr' s1 u' prefix ?p = (Inr (), s2)"
    and ex: "extract_archive A s2 ?p dst = (Inr (), s3)" and t3: "t3 = snd (av_remove_file A s3 ?p)"
    by (auto simp: etl_download_def Let_def split: prod.splits sum.splits)
  obtain x s4 where dir: "oe_create_dir_all (av_files A) s2 dst = (x, s4)" by force
  have "oe_get (av_files A) s4 ?p = Inr (Some bytes)"
    using objects_ok_dir[OF ok dir] downloaded_archive[OF ok str obj down] by simp
  then have "av_unpack A s4 bytes dst = (Inr (), s3)" using ex dir by (auto simp: extract_archive_def split: sum.splits)
  then have cp: "copied (av_files A) t2 src s3 dst" using A pack unfolding archive_ok_def by blast
  obtain y s5 where rm: "av_remove_file A s3 ?p = (y, s5)" by force
  then have "oe_get (av_files A) s5 (dst @ ''/'' @ p) = oe_get (av_files A) s3 (dst @ ''/'' @ p)" if "p \<noteq> ARCHIVE_FILENAME" for p
    using A that unfolding archive_ok_def by auto
  then show ?thesis using cp same rm t3 by (simp add: copied_def)
qed

end
