(* ===== verification/Generator.thy ===== *)
theory Generator
  imports Storage "HOL-Library.AList"
begin

text \<open>
  \<^verbatim>\<open>crates/data-generation/src/generator.rs\<close> and \<^verbatim>\<open>metrics.rs\<close>: one task per table draws batches from
  the dataset and writes them under consecutive batch ids; a failed write is counted and the
  task goes on. At the end the generator persists which batches of which table were written.
  The dataset and the storage are parameters; tasks interleave between a draw and its write.
\<close>

subsection \<open>Metrics\<close>

definition wrap_u64 :: "nat \<Rightarrow> nat" where "wrap_u64 n = n mod 2 ^ 64"

record metrics =
  mt_batches_generated :: nat
  mt_batches_written :: nat
  mt_rows_written :: nat
  mt_bytes_written :: nat
  mt_write_errors :: nat
  mt_total_write_latency_us :: nat
  mt_rows_created :: nat
  mt_rows_updated :: nat
  mt_rows_deleted :: nat

definition mt_new :: metrics where
  "mt_new = \<lparr>mt_batches_generated = 0, mt_batches_written = 0, mt_rows_written = 0, mt_bytes_written = 0,
     mt_write_errors = 0, mt_total_write_latency_us = 0, mt_rows_created = 0, mt_rows_updated = 0, mt_rows_deleted = 0\<rparr>"

definition count_op :: "string \<Rightarrow> (nat \<Rightarrow> string) \<Rightarrow> nat \<Rightarrow> nat" where
  "count_op op val n = length (filter (\<lambda>i. val i = op) [0..<n])"

text \<open>The value of a null slot of \<open>_op\<close> is the third-party value \<open>null_str\<close>.\<close>

definition record_generation :: "string \<Rightarrow> record_batch \<Rightarrow> metrics \<Rightarrow> metrics" where
  "record_generation null_str batch m =
     (let m1 = m\<lparr>mt_batches_generated := wrap_u64 (mt_batches_generated m + 1)\<rparr>
      in case index_of (rb_schema batch) ''_op'' of
           None \<Rightarrow> m1
         | Some idx \<Rightarrow>
             (let a = rb_columns batch ! idx
              in if arr_type a \<noteq> DUtf8 then m1
                 else let val = (\<lambda>i. case arr_cells a ! i of Some (CStr s) \<Rightarrow> s | _ \<Rightarrow> null_str);
                          n = length (arr_cells a)
                      in m1\<lparr>mt_rows_created := wrap_u64 (mt_rows_created m + count_op ''c'' val n),
                            mt_rows_updated := wrap_u64 (mt_rows_updated m + count_op ''u'' val n),
                            mt_rows_deleted := wrap_u64 (mt_rows_deleted m + count_op ''d'' val n)\<rparr>))"

definition record_write :: "WriteResult \<Rightarrow> nat \<Rightarrow> metrics \<Rightarrow> metrics" where
  "record_write result latency_us m = m\<lparr>
     mt_batches_written := wrap_u64 (mt_batches_written m + 1),
     mt_rows_written := wrap_u64 (mt_rows_written m + wr_rows_written result),
     mt_bytes_written := wrap_u64 (mt_bytes_written m + wr_bytes_written result),
     mt_total_write_latency_us := wrap_u64 (mt_total_write_latency_us m + wrap_u64 latency_us)\<rparr>"

definition record_error :: "metrics \<Rightarrow> metrics" where
  "record_error m = m\<lparr>mt_write_errors := wrap_u64 (mt_write_errors m + 1)\<rparr>"

record IngestResult =
  ir_elapsed_ns :: nat
  ir_metrics :: metrics
  ir_rows_per_sec :: f64
  ir_batches_per_sec :: f64
  ir_bytes_per_sec :: f64
  ir_avg_write_latency_us :: nat

definition as_secs_f64 :: "nat \<Rightarrow> f64" where
  "as_secs_f64 ns = f64_add (f64_of_nat (ns div 10 ^ 9)) (f64_div (f64_of_nat (ns mod 10 ^ 9)) (10 ^ 9))"

definition mt_summary :: "nat \<Rightarrow> metrics \<Rightarrow> IngestResult" where
  "mt_summary elapsed_ns m =
     (let secs = max (as_secs_f64 elapsed_ns) (f64_round (1 / 1000))
      in \<lparr>ir_elapsed_ns = elapsed_ns, ir_metrics = m,
          ir_rows_per_sec = f64_div (f64_of_nat (mt_rows_written m)) secs,
          ir_batches_per_sec = f64_div (f64_of_nat (mt_batches_written m)) secs,
          ir_bytes_per_sec = f64_div (f64_of_nat (mt_bytes_written m)) secs,
          ir_avg_write_latency_us =
            (if mt_batches_written m > 0 then mt_total_write_latency_us m div mt_batches_written m else 0)\<rparr>)"

subsection \<open>Table tasks\<close>

datatype gen_phase = Generating | Writing record_batch | GenDone | GenFailed string | GenPanicked

type_synonym 'd dataset_next = "'d \<Rightarrow> string \<Rightarrow> ((string + record_batch option) \<times> 'd) option"
type_synonym 's storage_write = "'s \<Rightarrow> string \<Rightarrow> nat \<Rightarrow> record_batch \<Rightarrow> (WriteResult result \<times> 's) option"
type_synonym written_batches = "string \<rightharpoonup> (nat \<times> nat list) list"

record ('d, 's) gen_state =
  gn_tasks :: "string \<rightharpoonup> nat \<times> gen_phase"
  gn_dataset :: 'd
  gn_target :: 's
  gn_metrics :: metrics
  gn_written :: written_batches

definition insert_written :: "string \<Rightarrow> nat \<Rightarrow> nat list \<Rightarrow> written_batches \<Rightarrow> written_batches" where
  "insert_written table batch_id part_ids w =
     w(table \<mapsto> AList.update batch_id part_ids (case w table of Some m \<Rightarrow> m | None \<Rightarrow> []))"

definition gen_start :: "string list \<Rightarrow> 'd \<Rightarrow> 's \<Rightarrow> metrics \<Rightarrow> ('d, 's) gen_state" where
  "gen_start tables d target m = \<lparr>gn_tasks = map_of (map (\<lambda>t. (t, 0, Generating)) tables), gn_dataset = d,
     gn_target = target, gn_metrics = m, gn_written = Map.empty\<rparr>"

text \<open>One section of a table's task: a draw from the dataset, or the write of the batch drawn.\<close>

definition gen_draw ::
  "string \<Rightarrow> 'd dataset_next \<Rightarrow> string \<Rightarrow> nat \<Rightarrow> ('d, 's) gen_state \<Rightarrow> ('d, 's) gen_state" where
  "gen_draw null_str nb table batch_id st =
     (case nb (gn_dataset st) table of
        None \<Rightarrow> st\<lparr>gn_tasks := (gn_tasks st)(table \<mapsto> (batch_id, GenPanicked))\<rparr>
      | Some (Inl e, d) \<Rightarrow>
          st\<lparr>gn_dataset := d, gn_tasks := (gn_tasks st)(table \<mapsto>
               (batch_id, GenFailed (''Dataset error for table '' @ table @ '': '' @ e)))\<rparr>
      | Some (Inr None, d) \<Rightarrow> st\<lparr>gn_dataset := d, gn_tasks := (gn_tasks st)(table \<mapsto> (batch_id, GenDone))\<rparr>
      | Some (Inr (Some b), d) \<Rightarrow>
          st\<lparr>gn_dataset := d, gn_metrics := record_generation null_str b (gn_metrics st),
             gn_tasks := (gn_tasks st)(table \<mapsto> (batch_id, Writing b))\<rparr>)"

definition gen_write ::
  "'s storage_write \<Rightarrow> nat \<Rightarrow> string \<Rightarrow> nat \<Rightarrow> record_batch \<Rightarrow> ('d, 's) gen_state \<Rightarrow> ('d, 's) gen_state" where
  "gen_write wr latency_us table batch_id b st =
     (case wr (gn_target st) table batch_id b of
        None \<Rightarrow> st\<lparr>gn_tasks := (gn_tasks st)(table \<mapsto> (batch_id, GenPanicked))\<rparr>
      | Some (Inr result, s) \<Rightarrow>
          st\<lparr>gn_target := s, gn_metrics := record_write result latency_us (gn_metrics st),
             gn_written := insert_written table batch_id (wr_part_ids result) (gn_written st),
             gn_tasks := (gn_tasks st)(table \<mapsto> (batch_id + 1, Generating))\<rparr>
      | Some (Inl e, s) \<Rightarrow>
          st\<lparr>gn_target := s, gn_metrics := record_error (gn_metrics st),
             gn_tasks := (gn_tasks st)(table \<mapsto> (batch_id + 1, Generating))\<rparr>)"

definition gen_step ::
  "string \<Rightarrow> 'd dataset_next \<Rightarrow> 's storage_write \<Rightarrow> string \<times> nat \<Rightarrow> ('d, 's) gen_state \<Rightarrow> ('d, 's) gen_state" where
  "gen_step null_str nb wr ev st =
     (case ev of (table, latency_us) \<Rightarrow>
      case gn_tasks st table of
        Some (batch_id, Generating) \<Rightarrow> gen_draw null_str nb table batch_id st
      | Some (batch_id, Writing b) \<Rightarrow> gen_write wr latency_us table batch_id b st
      | _ \<Rightarrow> st)"

text \<open>A schedule says whose turn it is and how long a write takes.\<close>

definition gen_tasks ::
  "string \<Rightarrow> 'd dataset_next \<Rightarrow> 's storage_write \<Rightarrow> (string \<times> nat) list \<Rightarrow> ('d, 's) gen_state \<Rightarrow> ('d, 's) gen_state" where
  "gen_tasks null_str nb wr sched st = fold (gen_step null_str nb wr) sched st"

text \<open>
  The join loop over tasks in the order they finish: \<open>None\<close> while a task has not finished.
  \<open>je\<close> is the text of the join error of a panicked task.
\<close>

fun gen_join :: "(string \<Rightarrow> string) \<Rightarrow> (string \<rightharpoonup> nat \<times> gen_phase) \<Rightarrow> string list \<Rightarrow> unit result option" where
  "gen_join je tasks [] = Some (Inr ())"
| "gen_join je tasks (t # ts) =
     (case tasks t of
        Some (_, GenDone) \<Rightarrow> gen_join je tasks ts
      | Some (_, GenFailed e) \<Rightarrow> Some (Inl e)
      | Some (_, GenPanicked) \<Rightarrow> Some (Inl (''Task panicked: '' @ je t))
      | _ \<Rightarrow> None)"

subsection \<open>The version metadata\<close>

record VersionConfig =
  vc_scenario :: string
  vc_scale_factor :: f64
  vc_num_steps :: nat
  vc_dataset_type :: string
  vc_update_ratio :: f64
  vc_delete_ratio :: f64
  vc_bootstrap :: bool
  vc_num_mutation_steps :: nat
  vc_churn_fraction :: f64

text \<open>\<open>show_f64\<close> is the standard display of a double.\<close>

definition format_scale_factor :: "(f64 \<Rightarrow> string) \<Rightarrow> f64 \<Rightarrow> string" where
  "format_scale_factor show_f64 sf =
     (let s = show_f64 sf in if CHR ''.'' \<in> set s then s else s @ ''.0'')"

definition gen_table_metadata ::
  "(string \<rightharpoonup> DatasetTable) \<Rightarrow> (string \<Rightarrow> string list) \<Rightarrow> string \<Rightarrow> (nat \<times> nat list) list \<Rightarrow> TableMetadata" where
  "gen_table_metadata tables primary_key table batch_parts = \<lparr>
     tm_name = table,
     tm_schema = (case tables table of Some t \<Rightarrow> rehydrated_schema t | None \<Rightarrow> []),
     tm_time_column = (case tables table of Some t \<Rightarrow> dt_time_column t | None \<Rightarrow> []),
     tm_key_columns = primary_key table,
     tm_batch_ids = sort (map fst batch_parts),
     tm_batch_parts = (\<lambda>i. case map_of batch_parts i of
        Some ps \<Rightarrow> if ps = [] then None else Some (sort ps) | None \<Rightarrow> None)\<rparr>"

definition gen_version_metadata ::
  "(f64 \<Rightarrow> string) \<Rightarrow> VersionConfig \<Rightarrow> (string \<rightharpoonup> DatasetTable) \<Rightarrow> (string \<Rightarrow> string list) \<Rightarrow> written_batches \<Rightarrow> VersionMetadata" where
  "gen_version_metadata show_f64 vc tables primary_key written = \<lparr>
     vm_version = format_scale_factor show_f64 (vc_scale_factor vc),
     vm_scenario = vc_scenario vc,
     vm_scale_factor = vc_scale_factor vc,
     vm_num_steps = vc_num_steps vc,
     vm_dataset_type = vc_dataset_type vc,
     vm_mutations = \<lparr>update_ratio = vc_update_ratio vc, delete_ratio = vc_delete_ratio vc, bootstrap = vc_bootstrap vc,
        num_mutation_steps = vc_num_mutation_steps vc, churn_fraction = vc_churn_fraction vc\<rparr>,
     vm_tables = (\<lambda>t. map_option (gen_table_metadata tables primary_key t) (written t))\<rparr>"

text \<open>
  \<^verbatim>\<open>DataGenerator::run\<close>: the tasks under a schedule, the join, the metadata. \<open>None\<close> while the
  schedule leaves tasks running.
\<close>

record ('d, 's) generator =
  ge_dataset :: 'd
  ge_target :: 's
  ge_metrics :: metrics
  ge_version_config :: VersionConfig

definition generator_run ::
  "string \<Rightarrow> (string \<Rightarrow> string) \<Rightarrow> (f64 \<Rightarrow> string) \<Rightarrow> (string \<rightharpoonup> DatasetTable) \<Rightarrow> (string \<Rightarrow> string list) \<Rightarrow> 'd dataset_next
     \<Rightarrow> 's storage_write \<Rightarrow> ('s \<Rightarrow> VersionMetadata \<Rightarrow> unit result \<times> 's)
     \<Rightarrow> string list \<Rightarrow> (string \<times> nat) list \<Rightarrow> string list \<Rightarrow> nat \<Rightarrow> ('d, 's) generator
     \<Rightarrow> (IngestResult result \<times> ('d, 's) gen_state) option" where
  "generator_run null_str je show_f64 tables primary_key nb wr wmd names sched joins elapsed_ns g =
     (let st = gen_tasks null_str nb wr sched (gen_start names (ge_dataset g) (ge_target g) (ge_metrics g))
      in case gen_join je (gn_tasks st) joins of
           None \<Rightarrow> None
         | Some (Inl e) \<Rightarrow> Some (Inl e, st)
         | Some (Inr _) \<Rightarrow>
             let md = gen_version_metadata show_f64 (ge_version_config g) tables primary_key (gn_written st)
             in case wmd (gn_target st) md of
                  (Inl e, s) \<Rightarrow> Some (Inl e, st\<lparr>gn_target := s\<rparr>)
                | (Inr _, s) \<Rightarrow> Some (Inr (mt_summary elapsed_ns (gn_metrics st)), st\<lparr>gn_target := s\<rparr>))"

subsection \<open>What the tasks drew and wrote\<close>

fun nb_run :: "'d dataset_next \<Rightarrow> string list \<Rightarrow> 'd \<Rightarrow> ((string \<times> record_batch) list \<times> 'd) option" where
  "nb_run nb [] d = Some ([], d)"
| "nb_run nb (table # calls) d =
     (case nb d table of
        Some (Inr (Some b), d') \<Rightarrow> map_option (\<lambda>(bs, q). ((table, b) # bs, q)) (nb_run nb calls d')
      | Some (Inr None, d') \<Rightarrow> nb_run nb calls d'
      | _ \<Rightarrow> None)"

lemma nb_run_append:
  "nb_run nb (xs @ ys) d = (case nb_run nb xs d of None \<Rightarrow> None
     | Some (bs, d') \<Rightarrow> map_option (\<lambda>(cs, q). (bs @ cs, q)) (nb_run nb ys d'))"
proof (induction xs arbitrary: d)
  case Nil
  then show ?case by (cases "nb_run nb ys d") auto
next
  case (Cons x xs)
  have comp: "map_option (\<lambda>(bs, q). (e # bs, q)) (map_option (\<lambda>(cs, q). (a @ cs, q)) z)
      = map_option (\<lambda>(cs, q). (e # a @ cs, q)) z" for e a and z :: "((string \<times> record_batch) list \<times> 'a) option"
    by (cases z) auto
  show ?case using Cons by (auto simp: comp split: option.splits prod.splits sum.splits)
qed

definition drawn :: "string \<Rightarrow> (string \<times> record_batch) list \<Rightarrow> record_batch list" where
  "drawn t outs = map snd (filter (\<lambda>(u, b). u = t) outs)"

lemma drawn_simps [simp]:
  "drawn t [] = []" "drawn t (xs @ ys) = drawn t xs @ drawn t ys"
  "drawn t [(u, b)] = (if u = t then [b] else [])"
  by (simp_all add: drawn_def)

text \<open>The last call on a table was answered with the end of the table.\<close>

definition table_ended :: "'d dataset_next \<Rightarrow> 'd \<Rightarrow> string list \<Rightarrow> string \<Rightarrow> bool" where
  "table_ended nb d0 calls t \<longleftrightarrow> (\<exists>xs ys out d d'. calls = xs @ t # ys \<and> t \<notin> set ys
     \<and> nb_run nb xs d0 = Some (out, d) \<and> nb d t = Some (Inr None, d'))"

lemma table_ended_snoc: "table_ended nb d0 calls t \<Longrightarrow> u \<noteq> t \<Longrightarrow> table_ended nb d0 (calls @ [u]) t"
  unfolding table_ended_def by fastforce

definition written_of :: "written_batches \<Rightarrow> string \<Rightarrow> nat \<rightharpoonup> nat list" where
  "written_of w t = map_of (case w t of Some m \<Rightarrow> m | None \<Rightarrow> [])"

definition failed :: "gen_phase \<Rightarrow> bool" where
  "failed ph \<longleftrightarrow> ph = GenPanicked \<or> (\<exists>e. ph = GenFailed e)"

definition healthy_tasks :: "(string \<rightharpoonup> nat \<times> gen_phase) \<Rightarrow> bool" where
  "healthy_tasks tasks \<longleftrightarrow> (\<forall>t i ph. tasks t = Some (i, ph) \<longrightarrow> \<not> failed ph)"

text \<open>A task between two batches has drawn as many as its id says, a writing one holds one more.\<close>

definition task_drawn :: "nat \<times> gen_phase \<Rightarrow> record_batch list \<Rightarrow> bool" where
  "task_drawn task bs \<longleftrightarrow> (case task of (i, ph) \<Rightarrow>
     (case ph of Writing b \<Rightarrow> length bs = i + 1 \<and> bs ! i = b | _ \<Rightarrow> length bs = i))"

definition written_ok :: "written_batches \<Rightarrow> bool" where
  "written_ok w \<longleftrightarrow> (\<forall>t m. w t = Some m \<longrightarrow> m \<noteq> [] \<and> distinct (map fst m))"

definition complete_tasks :: "(string \<rightharpoonup> nat \<times> gen_phase) \<Rightarrow> written_batches \<Rightarrow> bool" where
  "complete_tasks tasks w \<longleftrightarrow> (\<forall>t i ph. tasks t = Some (i, ph) \<longrightarrow> dom (written_of w t) = {..<i})"

lemma written_of_insert:
  "written_of (insert_written t i ps w) u = (if u = t then (written_of w t)(i \<mapsto> ps) else written_of w u)"
  by (simp add: written_of_def insert_written_def update_conv')

lemma written_ok_insert: "written_ok w \<Longrightarrow> written_ok (insert_written t i ps w)"
proof (unfold written_ok_def, intro allI impI)
  fix u m assume w: "\<forall>t m. w t = Some m \<longrightarrow> m \<noteq> [] \<and> distinct (map fst m)" and m: "insert_written t i ps w u = Some m"
  have "AList.update i ps xs \<noteq> []" for xs by (cases xs) (auto simp: case_prod_beta)
  moreover have "distinct (map fst (case w t of None \<Rightarrow> [] | Some m \<Rightarrow> m))" using w by (simp split: option.splits)
  ultimately show "m \<noteq> [] \<and> distinct (map fst m)"
    using w m by (auto simp: insert_written_def distinct_update split: if_splits)
qed

lemma metrics_errors [simp]:
  "mt_write_errors (record_generation ns b m) = mt_write_errors m"
  "mt_write_errors (record_write w l m) = mt_write_errors m"
  "mt_write_errors (record_error m) = wrap_u64 (mt_write_errors m + 1)"
  by (simp_all add: record_generation_def record_write_def record_error_def Let_def split: option.splits)

lemma wrap_u64_Suc: "wrap_u64 (wrap_u64 n + 1) = wrap_u64 (Suc n)"
  by (simp add: wrap_u64_def mod_Suc_eq)

lemma healthy_before:
  assumes "healthy_tasks (gn_tasks (gen_step ns nb wr ev st))"
  shows "healthy_tasks (gn_tasks st)"
  unfolding healthy_tasks_def
proof (intro allI impI notI)
  fix t i ph assume t: "gn_tasks st t = Some (i, ph)" and f: "failed ph"
  obtain u lat where ev: "ev = (u, lat)" by force
  have "gn_tasks (gen_step ns nb wr ev st) t = Some (i, ph)"
  proof (cases "u = t")
    case True
    then show ?thesis using t f by (auto simp: gen_step_def ev failed_def)
  next
    case False
    then show ?thesis using t
      by (auto simp: gen_step_def gen_draw_def gen_write_def ev split: option.splits gen_phase.splits sum.splits)
  qed
  then show False using assms f by (auto simp: healthy_tasks_def)
qed

lemma map_of_map_const: "map_of (map (\<lambda>t. (t, c)) xs) t = (if t \<in> set xs then Some c else None)"
  by (induction xs) auto

context batch_store
begin

definition task_written :: "'s \<Rightarrow> string \<Rightarrow> nat \<Rightarrow> (nat \<rightharpoonup> nat list) \<Rightarrow> record_batch list \<Rightarrow> bool" where
  "task_written s t i m bs \<longleftrightarrow> dom m \<subseteq> {..<i}
     \<and> (\<forall>k ps. m k = Some ps \<longrightarrow> wf_batch (bs ! k) \<longrightarrow> stored (content s) t k ps (bs ! k))"

text \<open>
  The state of the tasks after \<open>n\<close> sections: \<open>calls\<close> and \<open>outs\<close> are the
  draws made and the batches drawn so far, in order, and
  \<open>errs\<close> the writes that failed.
\<close>

definition tasks_ok :: "('d, 's) gen_state \<Rightarrow> (string \<times> record_batch) list \<Rightarrow> bool" where
  "tasks_ok st outs \<longleftrightarrow> (\<forall>t i ph. gn_tasks st t = Some (i, ph) \<longrightarrow> task_drawn (i, ph) (drawn t outs)
     \<and> task_written (gn_target st) t i (written_of (gn_written st) t) (drawn t outs))"

definition draws_ok ::
  "'d dataset_next \<Rightarrow> 'd \<Rightarrow> string list \<Rightarrow> ('d, 's) gen_state \<Rightarrow> string list \<Rightarrow> (string \<times> record_batch) list \<Rightarrow> bool" where
  "draws_ok nb d0 names st calls outs \<longleftrightarrow> nb_run nb calls d0 = Some (outs, gn_dataset st) \<and> set calls \<subseteq> set names
     \<and> (\<forall>t i ph. gn_tasks st t = Some (i, ph) \<longrightarrow> count_list calls t = length (drawn t outs) + of_bool (ph = GenDone))
     \<and> (\<forall>t i. gn_tasks st t = Some (i, GenDone) \<longrightarrow> table_ended nb d0 calls t)"

definition gen_ok :: "'d dataset_next \<Rightarrow> 'd \<Rightarrow> string list \<Rightarrow> nat \<Rightarrow> ('d, 's) gen_state \<Rightarrow> bool" where
  "gen_ok nb d0 names n st \<longleftrightarrow> inv (gn_target st) \<and> dom (gn_tasks st) = set names \<and> written_ok (gn_written st)
     \<and> dom (gn_written st) \<subseteq> set names
     \<and> (\<exists>calls outs. draws_ok nb d0 names st calls outs \<and> tasks_ok st outs)
     \<and> (\<exists>errs \<le> n. mt_write_errors (gn_metrics st) = wrap_u64 errs
          \<and> (errs = 0 \<longrightarrow> complete_tasks (gn_tasks st) (gn_written st)))"

lemma task_written_frame:
  assumes "inv s" "table_name_ok t" "table_name_ok u" "u \<noteq> t" "wr s t i b = Some (x, s')" "task_written s u j m bs"
  shows "task_written s' u j m bs"
  using assms(6) stored_frame[OF assms(1-3) _ assms(5)] assms(4) unfolding task_written_def by blast

lemma task_written_keep:
  assumes "inv s" "table_name_ok t" "wr s t i b = Some (x, s')" "task_written s t i m bs"
  shows "task_written s' t (i + 1) m bs"
proof -
  have "k \<noteq> i" if "m k = Some ps" for k ps using assms(4) that by (force simp: task_written_def)
  then have "stored (content s') t k ps (bs ! k)" if "m k = Some ps" "wf_batch (bs ! k)" for k ps
    using stored_frame[OF assms(1,2,2) _ assms(3), of k] assms(4) that unfolding task_written_def by blast
  then show ?thesis using assms(4) by (auto simp: task_written_def)
qed

lemma task_written_add:
  assumes "inv s" "table_name_ok t" "wr s t i b = Some (Inr w, s')" "task_written s t i m bs" "bs ! i = b"
  shows "task_written s' t (i + 1) (m(i \<mapsto> wr_part_ids w)) bs"
  using task_written_keep[OF assms(1-4)] wr_stored[OF assms(1) _ assms(2,3)] assms(5)
  by (auto simp: task_written_def)

lemma gen_write_ok:
  assumes ok: "gen_ok nb d0 names n st" and names: "\<forall>t \<in> set names. table_name_ok t"
    and t: "gn_tasks st t = Some (i, Writing b)"
  shows "gen_ok nb d0 names (Suc n) (gen_write wr lat t i b st)"
proof -
  have inv: "inv (gn_target st)" using ok by (simp add: gen_ok_def)
  have tn: "table_name_ok t" using names ok t by (auto simp: gen_ok_def)
  obtain calls outs errs where run: "draws_ok nb d0 names st calls outs"
    and tasks: "tasks_ok st outs" and errs: "errs \<le> n" "mt_write_errors (gn_metrics st) = wrap_u64 errs"
      "errs = 0 \<Longrightarrow> complete_tasks (gn_tasks st) (gn_written st)"
    using ok by (auto simp: gen_ok_def)
  have "task_drawn (i, Writing b) (drawn t outs)"
    and tw: "task_written (gn_target st) t i (written_of (gn_written st) t) (drawn t outs)"
    using tasks t by (simp_all add: tasks_ok_def)
  then have td: "length (drawn t outs) = i + 1" "drawn t outs ! i = b" by (simp_all add: task_drawn_def)
  have other: "task_drawn (j, ph) (drawn u outs) \<and> task_written s' u j (written_of (gn_written st) u) (drawn u outs)"
    if h: "u \<noteq> t" "gn_tasks st u = Some (j, ph)" "wr (gn_target st) t i b = Some (x, s')" for u j ph x s'
  proof -
    have "u \<in> dom (gn_tasks st)" using h(2) by blast
    then have "table_name_ok u" using names ok by (simp add: gen_ok_def)
    then show ?thesis using tasks h(2) task_written_frame[OF inv tn _ h(1,3)] by (simp add: tasks_ok_def)
  qed
  obtain x s' where w: "wr (gn_target st) t i b = Some (x, s')" using wr_returns[OF inv] by blast
  have inv': "inv s'" by (rule wr_inv[OF inv w])
  have dom: "insert t (dom (gn_tasks st)) = set names" using ok t by (auto simp: gen_ok_def)
  show ?thesis
  proof (cases x)
    case (Inl e)
    let ?st = "gen_write wr lat t i b st"
    have st: "?st = st\<lparr>gn_target := s', gn_metrics := record_error (gn_metrics st),
        gn_tasks := (gn_tasks st)(t \<mapsto> (i + 1, Generating))\<rparr>" using w Inl by (simp add: gen_write_def)
    have "tasks_ok ?st outs"
      using other[OF _ _ w] task_written_keep[OF inv tn w tw] td(1) by (auto simp: tasks_ok_def st task_drawn_def)
    moreover have "draws_ok nb d0 names ?st calls outs"
      using run t by (auto simp: draws_ok_def st)
    moreover have "\<exists>errs' \<le> Suc n. mt_write_errors (gn_metrics ?st) = wrap_u64 errs' \<and> errs' \<noteq> 0"
      using errs(1,2) by (intro exI[of _ "Suc errs"]) (simp add: st wrap_u64_Suc[simplified])
    ultimately show ?thesis using ok inv' dom unfolding gen_ok_def by (auto simp: st)
  next
    case (Inr r)
    let ?st = "gen_write wr lat t i b st"
    have st: "?st = st\<lparr>gn_target := s', gn_metrics := record_write r lat (gn_metrics st),
        gn_written := insert_written t i (wr_part_ids r) (gn_written st),
        gn_tasks := (gn_tasks st)(t \<mapsto> (i + 1, Generating))\<rparr>" using w Inr by (simp add: gen_write_def)
    have "tasks_ok ?st outs"
      using other[OF _ _ w] task_written_add[OF inv tn w[unfolded Inr] tw td(2)] td(1)
      by (auto simp: tasks_ok_def st task_drawn_def written_of_insert)
    moreover have "complete_tasks (gn_tasks ?st) (gn_written ?st)" if "errs = 0"
      using errs(3)[OF that] t by (auto simp: complete_tasks_def st written_of_insert)
    moreover have "draws_ok nb d0 names ?st calls outs"
      using run t by (auto simp: draws_ok_def st)
    moreover have "dom (gn_written ?st) \<subseteq> set names" using ok t by (auto simp: gen_ok_def st insert_written_def)
    moreover have "written_ok (gn_written ?st)" using ok by (simp add: st gen_ok_def written_ok_insert)
    ultimately show ?thesis using inv' dom errs(1,2) unfolding gen_ok_def
      by (auto simp: st intro!: exI[of _ errs] exI[of _ calls] exI[of _ outs])
  qed
qed

lemma gen_draw_ok:
  assumes ok: "gen_ok nb d0 names n st" and t: "gn_tasks st t = Some (i, Generating)"
    and healthy: "healthy_tasks (gn_tasks (gen_draw ns nb t i st))"
  shows "gen_ok nb d0 names (Suc n) (gen_draw ns nb t i st)"
proof -
  obtain calls outs errs where run: "draws_ok nb d0 names st calls outs"
    and tasks: "tasks_ok st outs" and errs: "errs \<le> n" "mt_write_errors (gn_metrics st) = wrap_u64 errs"
      "errs = 0 \<Longrightarrow> complete_tasks (gn_tasks st) (gn_written st)"
    using ok by (auto simp: gen_ok_def)
  have tn: "t \<in> set names" using ok t by (auto simp: gen_ok_def)
  have "task_drawn (i, Generating) (drawn t outs)"
    and tw: "task_written (gn_target st) t i (written_of (gn_written st) t) (drawn t outs)"
    using tasks t by (simp_all add: tasks_ok_def)
  then have drawn_t: "length (drawn t outs) = i" by (simp add: task_drawn_def)
  note nbr = run[unfolded draws_ok_def, THEN conjunct1]
  have ended: "table_ended nb d0 (calls @ [t]) u" if "gn_tasks st u = Some (j, GenDone)" for u j
    using run t that by (intro table_ended_snoc) (auto simp: draws_ok_def)
  obtain r d where nb: "nb (gn_dataset st) t = Some (Inr r, d)"
  proof -
    have ok: "gn_tasks (gen_draw ns nb t i st) t \<noteq> Some (j, GenPanicked)"
        "gn_tasks (gen_draw ns nb t i st) t \<noteq> Some (j, GenFailed e)" for j e
      using healthy by (auto simp: healthy_tasks_def failed_def)
    have "nb (gn_dataset st) t \<noteq> None"
    proof
      assume "nb (gn_dataset st) t = None"
      then show False using ok(1)[of i] by (simp add: gen_draw_def)
    qed
    moreover have "nb (gn_dataset st) t \<noteq> Some (Inl e, q)" for e q
    proof
      assume "nb (gn_dataset st) t = Some (Inl e, q)"
      then show False using ok(2)[of i "''Dataset error for table '' @ t @ '': '' @ e"] by (simp add: gen_draw_def)
    qed
    ultimately show ?thesis using that by (metis not_None_eq old.sum.exhaust surj_pair)
  qed
  show ?thesis
  proof (cases r)
    case None
    have st: "gen_draw ns nb t i st = st\<lparr>gn_dataset := d, gn_tasks := (gn_tasks st)(t \<mapsto> (i, GenDone))\<rparr>"
      using nb None by (simp add: gen_draw_def)
    have "tasks_ok (gen_draw ns nb t i st) outs" using tasks drawn_t tw by (auto simp: tasks_ok_def st task_drawn_def)
    moreover have "draws_ok nb d0 names (gen_draw ns nb t i st) (calls @ [t]) outs"
    proof -
      have "table_ended nb d0 (calls @ [t]) t" using nbr nb None unfolding table_ended_def by fastforce
      then show ?thesis using run nb None tn t ended by (auto simp: draws_ok_def nb_run_append st)
    qed
    moreover have "complete_tasks (gn_tasks (gen_draw ns nb t i st)) (gn_written st)" if "errs = 0"
      using errs(3)[OF that] t by (auto simp: complete_tasks_def st)
    ultimately show ?thesis using ok tn errs(1,2) unfolding gen_ok_def
      by (auto simp: st intro!: exI[of _ errs] exI[of _ "calls @ [t]"] exI[of _ outs])
  next
    case (Some b)
    let ?st = "gen_draw ns nb t i st" and ?outs = "outs @ [(t, b)]"
    have st: "?st = st\<lparr>gn_dataset := d, gn_metrics := record_generation ns b (gn_metrics st),
        gn_tasks := (gn_tasks st)(t \<mapsto> (i, Writing b))\<rparr>"
      using nb Some by (simp add: gen_draw_def)
    have "task_written (gn_target st) t i (written_of (gn_written st) t) (drawn t outs @ [b])"
      using tw drawn_t unfolding task_written_def by (metis lessThan_iff nth_append subsetD domI)
    moreover have "task_drawn (i, Writing b) (drawn t outs @ [b])" using drawn_t by (auto simp: task_drawn_def)
    ultimately have "tasks_ok ?st ?outs" using tasks by (simp add: tasks_ok_def st)
    moreover have "draws_ok nb d0 names ?st (calls @ [t]) ?outs"
      using run nb Some tn t ended by (auto simp: draws_ok_def nb_run_append st)
    moreover have "complete_tasks (gn_tasks ?st) (gn_written st)" if "errs = 0"
      using errs(3)[OF that] t by (auto simp: complete_tasks_def st)
    ultimately show ?thesis using ok tn errs(1,2) unfolding gen_ok_def
      by (auto simp: st intro!: exI[of _ errs] exI[of _ "calls @ [t]"] exI[of _ ?outs])
  qed
qed

lemma gen_step_ok:
  assumes ok: "healthy_tasks (gn_tasks st) \<Longrightarrow> gen_ok nb d0 names n st" and names: "\<forall>t \<in> set names. table_name_ok t"
    and healthy: "healthy_tasks (gn_tasks (gen_step ns nb wr ev st))"
  shows "gen_ok nb d0 names (Suc n) (gen_step ns nb wr ev st)"
proof -
  obtain t lat where ev: "ev = (t, lat)" by force
  have before: "healthy_tasks (gn_tasks st)" by (rule healthy_before[OF healthy])
  then have ok: "gen_ok nb d0 names n st" by (rule ok)
  then have idle: "gen_ok nb d0 names (Suc n) st" unfolding gen_ok_def by (metis le_SucI)
  show ?thesis
  proof (cases "gn_tasks st t")
    case None
    then show ?thesis using idle by (simp add: gen_step_def ev)
  next
    case (Some task)
    obtain i ph where task: "task = (i, ph)" by force
    show ?thesis
    proof (cases ph)
      case Generating
      then have step: "gen_step ns nb wr ev st = gen_draw ns nb t i st" using Some task by (simp add: gen_step_def ev)
      show ?thesis unfolding step
        using gen_draw_ok[OF ok _ healthy[unfolded step]] Generating Some task by (simp add: ev)
    next
      case (Writing b)
      then show ?thesis using gen_write_ok[OF ok names, of t i b] Some task by (simp add: gen_step_def ev)
    qed (use Some task idle in \<open>simp_all add: gen_step_def ev\<close>)
  qed
qed

lemma gen_tasks_ok:
  assumes "gen_ok nb d0 names 0 st" "\<forall>t \<in> set names. table_name_ok t"
    and "healthy_tasks (gn_tasks (gen_tasks ns nb wr sched st))"
  shows "gen_ok nb d0 names (length sched) (gen_tasks ns nb wr sched st)"
  using assms(3)
proof (induction sched rule: rev_induct)
  case Nil
  then show ?case using assms(1) by (simp add: gen_tasks_def)
next
  case (snoc ev sched)
  have step: "gen_tasks ns nb wr (sched @ [ev]) st = gen_step ns nb wr ev (gen_tasks ns nb wr sched st)"
    by (simp add: gen_tasks_def)
  show ?case using gen_step_ok[OF snoc.IH assms(2)] snoc.prems by (simp add: step)
qed

lemma gen_start_ok:
  assumes "inv s" "mt_write_errors m = 0"
  shows "gen_ok nb d names 0 (gen_start names d s m)"
proof -
  have tasks: "gn_tasks (gen_start names d s m) t = Some (i, ph) \<longleftrightarrow> t \<in> set names \<and> i = 0 \<and> ph = Generating" for t i ph
    by (auto simp: gen_start_def map_of_map_const)
  have "dom (gn_tasks (gen_start names d s m)) = set names" using tasks by (auto simp: dom_def)
  moreover have "tasks_ok (gen_start names d s m) []"
    unfolding tasks_ok_def tasks by (auto simp: gen_start_def task_drawn_def task_written_def written_of_def)
  moreover have "complete_tasks (gn_tasks (gen_start names d s m)) Map.empty"
    unfolding complete_tasks_def tasks by (auto simp: written_of_def)
  moreover have "draws_ok nb d names (gen_start names d s m) [] []"
    unfolding draws_ok_def tasks by (simp add: gen_start_def)
  ultimately show ?thesis using assms
    unfolding gen_ok_def by (auto simp: gen_start_def written_ok_def wrap_u64_def)
qed

end

text \<open>A join that reports success has seen every task through the last draw.\<close>

lemma gen_join_ok:
  "gen_join je tasks joins = Some (Inr ()) \<longleftrightarrow> (\<forall>t \<in> set joins. \<exists>i. tasks t = Some (i, GenDone))"
  by (induction joins) (auto split: option.splits gen_phase.splits prod.splits)

subsection \<open>A finished run\<close>

lemma gen_join_healthy:
  assumes "gen_join je tasks joins = Some (Inr ())" "dom tasks \<subseteq> set joins"
  shows "healthy_tasks tasks"
  unfolding healthy_tasks_def
proof (intro allI impI)
  fix t i ph assume t: "tasks t = Some (i, ph)"
  then have "t \<in> set joins" using assms(2) by blast
  then show "\<not> failed ph" using assms(1)[unfolded gen_join_ok] t by (auto simp: failed_def)
qed

lemma gen_tasks_dom: "dom (gn_tasks (gen_tasks ns nb wr sched st)) = dom (gn_tasks st)"
proof -
  have "dom (gn_tasks (gen_step ns nb wr ev st)) = dom (gn_tasks st)" for ev and st :: "('a, 'b) gen_state"
    by (cases ev) (auto simp: gen_step_def gen_draw_def gen_write_def split: option.splits gen_phase.splits sum.splits prod.splits if_splits)
  then show ?thesis unfolding gen_tasks_def by (induction sched arbitrary: st) auto
qed

lemma generator_run_Inr:
  assumes "generator_run ns je sh tables pk nb wr wmd names sched joins el g = Some (Inr ir, st)"
  obtains st0 s where
    "st0 = gen_tasks ns nb wr sched (gen_start names (ge_dataset g) (ge_target g) (ge_metrics g))"
    "gen_join je (gn_tasks st0) joins = Some (Inr ())"
    "wmd (gn_target st0) (gen_version_metadata sh (ge_version_config g) tables pk (gn_written st0)) = (Inr (), s)"
    "ir = mt_summary el (gn_metrics st0)" "st = st0\<lparr>gn_target := s\<rparr>"
  using assms by (auto simp: generator_run_def Let_def split: option.splits sum.splits prod.splits)

text \<open>
  The ids the metadata lists for a table are ids of batches it drew, ascending and without
  repetition, and reading one of them returns the rows of that batch.
\<close>

definition serves :: "data_storage \<Rightarrow> join_schedule \<Rightarrow> string \<Rightarrow> nat list \<Rightarrow> record_batch list \<Rightarrow> bool" where
  "serves ds js t ids bs \<longleftrightarrow> sorted ids \<and> distinct ids \<and> set ids \<subseteq> {..<length bs}
     \<and> (\<forall>i \<in> set ids. wf_batch (bs ! i) \<longrightarrow>
          (\<exists>r. read_logical_batch ds js t i = Inr (Some r) \<and> keeps_batch (bs ! i) (rr_batches r)))"

lemma gen_metadata_ids:
  assumes "written_ok w"
  shows "\<exists>ids. read_batch_ids (Inr (Some (gen_version_metadata sh vc tables pk w))) t = Inr ids
     \<and> sorted ids \<and> distinct ids \<and> set ids = dom (written_of w t)"
proof (cases "w t")
  case None
  then show ?thesis by (simp add: read_batch_ids_def gen_version_metadata_def written_of_def)
next
  case (Some m)
  then have "distinct (map fst m)" using assms by (simp add: written_ok_def)
  then show ?thesis using Some
    by (simp add: read_batch_ids_def gen_version_metadata_def gen_table_metadata_def written_of_def dom_map_of_conv_image_fst)
qed

lemma sorted_distinct_upt: "sorted ids \<Longrightarrow> distinct ids \<Longrightarrow> set ids = {..<n} \<Longrightarrow> ids = [0..<n]"
  by (rule sorted_distinct_set_unique) (auto simp: lessThan_atLeast0)

context versioned_store
begin

lemma generated_serves:
  assumes inv: "inv s0" and w: "wmd s0 md = (Inr u, s1)" and rd: "reads s1 ds mdr" and md: "md = gen_version_metadata sh vc tables pk wb"
    and wok: "written_ok wb" and tw: "task_written s0 t (length bs) (written_of wb t) bs"
    and js: "\<And>j. js_join_error js j = None" and ids: "read_batch_ids (Inr (Some md)) t = Inr ids"
  shows "serves ds js t ids bs"
proof -
  obtain ids' where "read_batch_ids (Inr (Some md)) t = Inr ids'" "sorted ids'" "distinct ids'"
    "set ids' = dom (written_of wb t)" using gen_metadata_ids[OF wok] unfolding md by blast
  then have i: "sorted ids" "distinct ids" "set ids = dom (written_of wb t)" using ids by simp_all
  have "\<exists>r. read_logical_batch ds js t i = Inr (Some r) \<and> keeps_batch (bs ! i) (rr_batches r)"
    if h: "i \<in> set ids" "wf_batch (bs ! i)" for i
  proof -
    obtain ps where ps: "written_of wb t i = Some ps" using h(1) i(3) by blast
    then obtain m where m: "wb t = Some m" "map_of m i = Some ps" by (auto simp: written_of_def split: option.splits)
    have "stored (content s0) t i ps (bs ! i)" using tw ps h(2) unfolding task_written_def by blast
    from read_back[OF inv w rd this _ _ js] m show ?thesis
      by (simp add: md gen_version_metadata_def gen_table_metadata_def)
  qed
  moreover have "set ids \<subseteq> {..<length bs}" using tw i(3) by (simp add: task_written_def)
  ultimately show ?thesis using i by (simp add: serves_def)
qed

lemma generator_run_reads_back:
  assumes inv: "inv (ge_target g)" and m0: "mt_write_errors (ge_metrics g) = 0"
    and names: "\<forall>t \<in> set names. table_name_ok t" and joins: "set joins = set names"
    and run: "generator_run ns je sh tables pk nb wr wmd names sched joins el g = Some (Inr ir, st)"
    and rd: "reads (gn_target st) ds mdr" and js: "\<And>j. js_join_error js j = None"
  shows "\<exists>calls outs. nb_run nb calls (ge_dataset g) = Some (outs, gn_dataset st) \<and> set calls \<subseteq> set names
     \<and> (\<forall>t \<in> set names. table_ended nb (ge_dataset g) calls t \<and> count_list calls t = length (drawn t outs) + 1
          \<and> gn_tasks st t = Some (length (drawn t outs), GenDone)
          \<and> (\<exists>ids. read_batch_ids mdr t = Inr ids
               \<and> serves ds js t ids (drawn t outs)
               \<and> (mt_write_errors (ir_metrics ir) = 0 \<longrightarrow> length sched < 2 ^ 64 \<longrightarrow> ids = [0..<length (drawn t outs)])))"
proof -
  obtain st0 s1 where st0: "st0 = gen_tasks ns nb wr sched (gen_start names (ge_dataset g) (ge_target g) (ge_metrics g))"
    and jn: "gen_join je (gn_tasks st0) joins = Some (Inr ())"
    and w: "wmd (gn_target st0) (gen_version_metadata sh (ge_version_config g) tables pk (gn_written st0)) = (Inr (), s1)"
    and ir: "ir = mt_summary el (gn_metrics st0)" and st: "st = st0\<lparr>gn_target := s1\<rparr>"
    using generator_run_Inr[OF run] by blast
  have start: "gen_ok nb (ge_dataset g) names 0 (gen_start names (ge_dataset g) (ge_target g) (ge_metrics g))"
    by (rule gen_start_ok[OF inv m0])
  have dom: "dom (gn_tasks st0) = set names" using start unfolding st0 gen_tasks_dom by (simp add: gen_ok_def)
  have ok: "gen_ok nb (ge_dataset g) names (length sched) st0"
    unfolding st0 by (rule gen_tasks_ok[OF start names]) (use gen_join_healthy[OF jn] dom joins in \<open>simp add: st0\<close>)
  then obtain calls outs errs where dr: "draws_ok nb (ge_dataset g) names st0 calls outs"
    and tasks: "tasks_ok st0 outs" and wok: "written_ok (gn_written st0)" and inv0: "inv (gn_target st0)"
    and errs: "errs \<le> length sched" "mt_write_errors (gn_metrics st0) = wrap_u64 errs"
      "errs = 0 \<Longrightarrow> complete_tasks (gn_tasks st0) (gn_written st0)"
    unfolding gen_ok_def by auto
  let ?md = "gen_version_metadata sh (ge_version_config g) tables pk (gn_written st0)"
  have rd1: "reads s1 ds mdr" using rd by (simp add: st)
  have "table_ended nb (ge_dataset g) calls t \<and> count_list calls t = length (drawn t outs) + 1
      \<and> gn_tasks st0 t = Some (length (drawn t outs), GenDone) \<and> (\<exists>ids. read_batch_ids mdr t = Inr ids
      \<and> serves ds js t ids (drawn t outs)
      \<and> (mt_write_errors (gn_metrics st0) = 0 \<longrightarrow> length sched < 2 ^ 64 \<longrightarrow> ids = [0..<length (drawn t outs)]))"
    if t: "t \<in> set names" for t
  proof -
    obtain i where i: "gn_tasks st0 t = Some (i, GenDone)" using jn t joins unfolding gen_join_ok by blast
    then have "task_drawn (i, GenDone) (drawn t outs)" and tw: "task_written (gn_target st0) t i (written_of (gn_written st0) t) (drawn t outs)"
      using tasks by (simp_all add: tasks_ok_def)
    then have len: "length (drawn t outs) = i" by (simp add: task_drawn_def)
    obtain ids where ids: "read_batch_ids (Inr (Some ?md)) t = Inr ids" "sorted ids" "distinct ids"
      "set ids = dom (written_of (gn_written st0) t)" using gen_metadata_ids[OF wok] by blast
    have "ids = [0..<i]" if h: "mt_write_errors (gn_metrics st0) = 0" "length sched < 2 ^ 64"
    proof -
      have "errs = 0" using h errs(1,2) by (simp add: wrap_u64_def)
      then have "dom (written_of (gn_written st0) t) = {..<i}" using errs(3) i unfolding complete_tasks_def by blast
      then show ?thesis using ids(2-4) by (intro sorted_distinct_upt) simp_all
    qed
    moreover have "serves ds js t ids (drawn t outs)"
      using generated_serves[OF inv0 w rd1 refl wok _ js ids(1)] tw len by simp
    moreover have "table_ended nb (ge_dataset g) calls t" "count_list calls t = length (drawn t outs) + 1"
      using dr i unfolding draws_ok_def by auto
    ultimately show ?thesis using ids(1) len i wmd_reads[OF inv0 w rd1] by simp
  qed
  then show ?thesis using dr by (auto simp: draws_ok_def st ir mt_summary_def Let_def)
qed

end

subsection \<open>Every fair schedule finishes\<close>

text \<open>
  What the generator relies on in a dataset: a table that has not ended answers without error
  or panic, and a batch it yields leaves fewer answers to come, for that table alone.
\<close>

locale finite_dataset =
  fixes nb :: "'d dataset_next" and tables :: "string list" and okd :: "'d \<Rightarrow> bool" and remaining :: "'d \<Rightarrow> string \<Rightarrow> nat"
  assumes nb_next: "okd d \<Longrightarrow> t \<in> set tables \<Longrightarrow> 0 < remaining d t \<Longrightarrow>
    \<exists>r d'. nb d t = Some (Inr r, d') \<and> okd d' \<and> (\<forall>u. u \<noteq> t \<longrightarrow> remaining d' u = remaining d u)
      \<and> (r \<noteq> None \<longrightarrow> 0 < remaining d' t \<and> remaining d' t < remaining d t)"

locale generation = finite_dataset nb tables okd remaining + batch_store wr content inv
  for nb :: "'d dataset_next" and tables okd remaining
    and wr :: "'s \<Rightarrow> string \<Rightarrow> nat \<Rightarrow> record_batch \<Rightarrow> (WriteResult result \<times> 's) option" and content inv
begin

definition task_left :: "('d, 's) gen_state \<Rightarrow> string \<Rightarrow> nat" where
  "task_left st t = (case gn_tasks st t of
     Some (_, Generating) \<Rightarrow> 2 * remaining (gn_dataset st) t
   | Some (_, Writing _) \<Rightarrow> 2 * remaining (gn_dataset st) t + 1
   | _ \<Rightarrow> 0)"

text \<open>\<open>R\<close> bounds the answers of each table at the start, and so its batch ids.\<close>

definition task_bound :: "nat \<Rightarrow> nat \<Rightarrow> nat \<Rightarrow> gen_phase \<Rightarrow> bool" where
  "task_bound R rem i ph \<longleftrightarrow> (if ph = GenDone then i < R
     else \<not> failed ph \<and> 0 < rem \<and> i + of_bool (ph \<noteq> Generating) + rem \<le> R)"

definition running :: "(string \<Rightarrow> nat) \<Rightarrow> ('d, 's) gen_state \<Rightarrow> bool" where
  "running R st \<longleftrightarrow> okd (gn_dataset st) \<and> inv (gn_target st) \<and> dom (gn_tasks st) = set tables
     \<and> (\<forall>t i ph. gn_tasks st t = Some (i, ph) \<longrightarrow> task_bound (R t) (remaining (gn_dataset st) t) i ph)"

lemma gen_step_running:
  assumes run: "running R st"
  shows "running R (gen_step ns nb wr (t, lat) st) \<and> task_left (gen_step ns nb wr (t, lat) st) t \<le> task_left st t - 1
     \<and> (\<forall>u. u \<noteq> t \<longrightarrow> task_left (gen_step ns nb wr (t, lat) st) u = task_left st u)"
proof (cases "gn_tasks st t")
  case None
  then show ?thesis using run by (simp add: gen_step_def task_left_def)
next
  case (Some task)
  obtain i ph where task: "task = (i, ph)" by force
  have t: "t \<in> set tables" using run Some by (auto simp: running_def)
  have phs: "task_bound (R t) (remaining (gn_dataset st) t) i ph" using run Some task by (simp add: running_def)
  show ?thesis
  proof (cases ph)
    case Generating
    then have "0 < remaining (gn_dataset st) t" using phs by (simp add: task_bound_def)
    then obtain r d where nb: "nb (gn_dataset st) t = Some (Inr r, d)" "okd d"
      "\<forall>u. u \<noteq> t \<longrightarrow> remaining d u = remaining (gn_dataset st) u"
      "r \<noteq> None \<Longrightarrow> 0 < remaining d t \<and> remaining d t < remaining (gn_dataset st) t"
      using nb_next[OF _ t, of "gn_dataset st"] run by (auto simp: running_def)
    let ?st = "gen_draw ns nb t i st"
    have step: "gen_step ns nb wr (t, lat) st = ?st" using Some task Generating by (simp add: gen_step_def)
    obtain ph' where st: "gn_tasks ?st = (gn_tasks st)(t \<mapsto> (i, ph'))" "gn_dataset ?st = d" "gn_target ?st = gn_target st"
      and ph': "if r = None then ph' = GenDone else \<exists>b. ph' = Writing b"
      using nb(1) by (cases r) (auto simp: gen_draw_def)
    have others: "task_left ?st u = task_left st u" if "u \<noteq> t" for u
      unfolding task_left_def st nb(3)[rule_format, OF that] using that by simp
    have left: "task_left ?st t \<le> task_left st t - 1" "task_bound (R t) (remaining d t) i ph'"
      using nb(4) Some task Generating ph' phs by (auto simp: task_left_def st task_bound_def failed_def split: if_splits)
    have "running R ?st" using run nb(2,3) t left(2) unfolding running_def st
      by (auto simp del: split_paired_Ex split_paired_All)
    then show ?thesis using others left(1) step by simp
  next
    case (Writing b)
    have inv: "inv (gn_target st)" using run by (simp add: running_def)
    obtain x s' where w1: "wr (gn_target st) t i b = Some (x, s')" using wr_returns[OF inv] by blast
    note w = w1 wr_inv[OF inv w1]
    let ?st = "gen_write wr lat t i b st"
    have step: "gen_step ns nb wr (t, lat) st = ?st" using Some task Writing by (simp add: gen_step_def)
    have tasks: "gn_tasks ?st = (gn_tasks st)(t \<mapsto> (i + 1, Generating))" "gn_dataset ?st = gn_dataset st" "gn_target ?st = s'"
      using w(1) by (auto simp: gen_write_def split: sum.splits)
    have left: "task_left ?st u = (if u = t then 2 * remaining (gn_dataset st) t else task_left st u)" for u
      unfolding task_left_def tasks by simp
    have "task_bound (R t) (remaining (gn_dataset st) t) (i + 1) Generating"
      using phs Writing by (simp add: task_bound_def failed_def)
    then have "running R ?st" using run w(2) t unfolding running_def tasks by auto
    moreover have "task_left st t = 2 * remaining (gn_dataset st) t + 1" using Some task Writing by (simp add: task_left_def)
    ultimately show ?thesis using left step by simp
  qed (use run Some task phs in \<open>auto simp: gen_step_def task_left_def\<close>)
qed

lemma gen_tasks_running:
  "running R st \<Longrightarrow> running R (gen_tasks ns nb wr sched st)
     \<and> task_left (gen_tasks ns nb wr sched st) t \<le> task_left st t - count_list (map fst sched) t"
proof (induction sched arbitrary: st)
  case Nil
  then show ?case by (simp add: gen_tasks_def)
next
  case (Cons ev sched)
  obtain u lat where ev: "ev = (u, lat)" by force
  let ?st = "gen_step ns nb wr ev st"
  have tasks: "gen_tasks ns nb wr (ev # sched) st = gen_tasks ns nb wr sched ?st" by (simp add: gen_tasks_def)
  note s = gen_step_running[OF Cons.prems, of ns u lat]
  have "running R ?st" using s ev by simp
  from Cons.IH[OF this] show ?case unfolding tasks using s ev by (cases "u = t") auto
qed

lemma running_start:
  assumes "okd d" "inv s" "\<forall>t \<in> set tables. 0 < remaining d t"
  shows "running (remaining d) (gen_start tables d s m)"
proof -
  have tasks: "gn_tasks (gen_start tables d s m) u = (if u \<in> set tables then Some (0, Generating) else None)" for u
    by (simp add: gen_start_def map_of_map_const)
  have "dom (gn_tasks (gen_start tables d s m)) = set tables" using tasks by (auto simp: dom_def split: if_splits)
  then show ?thesis using assms tasks unfolding running_def
    by (auto simp: gen_start_def task_bound_def failed_def split: if_splits)
qed

text \<open>A finished task wrote fewer batches than its table had answers.\<close>

lemma generator_bounded:
  assumes "okd d" "inv s" "\<forall>t \<in> set tables. 0 < remaining d t"
    "gn_tasks (gen_tasks ns nb wr sched (gen_start tables d s m)) t = Some (i, GenDone)"
  shows "i < remaining d t"
proof -
  have "running (remaining d) (gen_tasks ns nb wr sched (gen_start tables d s m))"
    using gen_tasks_running[OF running_start[OF assms(1-3)]] by blast
  then have "task_bound (remaining d t) (remaining (gn_dataset (gen_tasks ns nb wr sched (gen_start tables d s m))) t) i GenDone"
    using assms(4) unfolding running_def by blast
  then show ?thesis by (simp add: task_bound_def)
qed

lemma generator_finishes:
  assumes okd: "okd d" and inv: "inv s" and pos: "\<forall>t \<in> set tables. 0 < remaining d t"
    and fair: "\<forall>t \<in> set tables. 2 * remaining d t \<le> count_list (map fst sched) t" and t: "t \<in> set tables"
  shows "\<exists>i < remaining d t. gn_tasks (gen_tasks ns nb wr sched (gen_start tables d s m)) t = Some (i, GenDone)"
proof -
  let ?start = "gen_start tables d s m" and ?R = "remaining d"
  let ?st = "gen_tasks ns nb wr sched ?start"
  have tasks: "gn_tasks ?start u = (if u \<in> set tables then Some (0, Generating) else None)" for u
    by (simp add: gen_start_def map_of_map_const)
  have left: "task_left ?start t = 2 * remaining d t" unfolding task_left_def tasks using t by (simp add: gen_start_def)
  have start: "running ?R ?start" by (rule running_start[OF okd inv pos])
  have run: "running ?R ?st" and zero: "task_left ?st t = 0"
    using gen_tasks_running[OF start, of ns sched t] fair t left by auto
  obtain i ph where ph: "gn_tasks ?st t = Some (i, ph)" "task_bound (?R t) (remaining (gn_dataset ?st) t) i ph"
    using run t unfolding running_def by fastforce
  then show ?thesis using zero by (cases ph) (auto simp: task_left_def task_bound_def failed_def)
qed

end

subsection \<open>The counters balance\<close>

definition writing :: "(string \<rightharpoonup> nat \<times> gen_phase) \<Rightarrow> string set" where
  "writing tasks = {t. \<exists>i b. tasks t = Some (i, Writing b)}"

definition balanced :: "('d, 's) gen_state \<Rightarrow> bool" where
  "balanced st \<longleftrightarrow> finite (dom (gn_tasks st)) \<and> mt_batches_generated (gn_metrics st) < 2 ^ 64
     \<and> wrap_u64 (mt_batches_generated (gn_metrics st))
       = wrap_u64 (mt_batches_written (gn_metrics st) + mt_write_errors (gn_metrics st) + card (writing (gn_tasks st)))"

lemma writing_upd:
  "writing (tasks(t \<mapsto> (i, ph))) = (if \<exists>b. ph = Writing b then insert t (writing tasks) else writing tasks - {t})"
  by (auto simp: writing_def)

lemma finite_writing: "finite (dom tasks) \<Longrightarrow> finite (writing tasks)"
  by (rule finite_subset[of _ "dom tasks"]) (auto simp: writing_def)

lemma wrap_u64_add [simp]:
  "wrap_u64 (wrap_u64 a + b) = wrap_u64 (a + b)" "wrap_u64 (a + wrap_u64 b) = wrap_u64 (a + b)" "wrap_u64 (wrap_u64 a) = wrap_u64 a"
  "wrap_u64 (Suc (wrap_u64 a)) = wrap_u64 (Suc a)" "wrap_u64 a < 18446744073709551616"
  by (simp_all add: wrap_u64_def mod_add_left_eq mod_add_right_eq mod_Suc_eq)

lemma record_generation_counts [simp]:
  "mt_batches_generated (record_generation ns b m) = wrap_u64 (mt_batches_generated m + 1)"
  "mt_batches_written (record_generation ns b m) = mt_batches_written m"
  by (simp_all add: record_generation_def Let_def split: option.splits)

lemma gen_draw_balanced:
  assumes bal: "balanced st" and t: "gn_tasks st t = Some (i, Generating)"
  shows "balanced (gen_draw ns nb t i st)"
proof -
  have nw: "t \<notin> writing (gn_tasks st)" using t by (simp add: writing_def)
  have fin: "finite (writing (gn_tasks st))" using bal by (auto simp: balanced_def intro: finite_writing)
  have "wrap_u64 (mt_batches_generated (gn_metrics st) + 1) = wrap_u64 (wrap_u64 (mt_batches_generated (gn_metrics st)) + 1)"
    by simp
  also have "\<dots> = wrap_u64 (mt_batches_written (gn_metrics st) + mt_write_errors (gn_metrics st)
      + card (writing (gn_tasks st)) + 1)" using bal unfolding balanced_def by simp
  finally have "wrap_u64 (mt_batches_generated (gn_metrics st) + 1) = wrap_u64 (mt_batches_written (gn_metrics st)
      + mt_write_errors (gn_metrics st) + card (writing (gn_tasks st)) + 1)" .
  then show ?thesis using bal nw fin
    by (auto simp: balanced_def gen_draw_def writing_upd split: option.splits sum.splits)
qed

lemma gen_write_balanced:
  assumes bal: "balanced st" and t: "gn_tasks st t = Some (i, Writing b)" and w: "wr (gn_target st) t i b = Some (x, s')"
  shows "balanced (gen_write wr lat t i b st)"
proof -
  have iw: "t \<in> writing (gn_tasks st)" using t by (simp add: writing_def)
  have fin: "finite (writing (gn_tasks st))" using bal by (auto simp: balanced_def intro: finite_writing)
  obtain n where n: "card (writing (gn_tasks st)) = Suc n" "card (writing (gn_tasks st) - {t}) = n"
    using iw fin by (metis card_Suc_Diff1)
  have move: "wrap_u64 (wrap_u64 (a + 1) + c + n) = wrap_u64 (a + c + Suc n)"
      "wrap_u64 (a + wrap_u64 (c + 1) + n) = wrap_u64 (a + c + Suc n)" for a c
  proof -
    show "wrap_u64 (wrap_u64 (a + 1) + c + n) = wrap_u64 (a + c + Suc n)"
      using wrap_u64_add(1)[of "a + 1" "c + n"] by (simp add: add.assoc)
    show "wrap_u64 (a + wrap_u64 (c + 1) + n) = wrap_u64 (a + c + Suc n)"
      using wrap_u64_add(1)[of "c + 1" "a + n"] by (simp add: ac_simps)
  qed
  show ?thesis
  proof (cases x)
    case (Inl e)
    then show ?thesis using bal w n move(2)
      by (auto simp: balanced_def gen_write_def writing_upd record_error_def)
  next
    case (Inr r)
    then show ?thesis using bal w n move(1)
      by (auto simp: balanced_def gen_write_def writing_upd record_write_def)
  qed
qed

lemma gen_tasks_balanced:
  assumes "balanced st" "healthy_tasks (gn_tasks (gen_tasks ns nb wr sched st))"
  shows "balanced (gen_tasks ns nb wr sched st)"
  using assms(2)
proof (induction sched rule: rev_induct)
  case Nil
  then show ?case using assms(1) by (simp add: gen_tasks_def)
next
  case (snoc ev sched)
  let ?st = "gen_tasks ns nb wr sched st"
  have step: "gen_tasks ns nb wr (sched @ [ev]) st = gen_step ns nb wr ev ?st" by (simp add: gen_tasks_def)
  obtain t lat where ev: "ev = (t, lat)" by force
  have bal: "balanced ?st" using snoc healthy_before unfolding step by blast
  show ?case
  proof (cases "\<exists>i b. gn_tasks ?st t = Some (i, Writing b)")
    case True
    then obtain i b where t: "gn_tasks ?st t = Some (i, Writing b)" by blast
    have "wr (gn_target ?st) t i b \<noteq> None"
    proof
      assume "wr (gn_target ?st) t i b = None"
      then have "gn_tasks (gen_step ns nb wr ev ?st) t = Some (i, GenPanicked)" using t by (simp add: gen_step_def gen_write_def ev)
      then show False using snoc.prems unfolding step healthy_tasks_def failed_def by blast
    qed
    then obtain x s' where "wr (gn_target ?st) t i b = Some (x, s')" by auto
    then have "balanced (gen_write wr lat t i b ?st)" by (rule gen_write_balanced[OF bal t])
    moreover have "gen_step ns nb wr ev ?st = gen_write wr lat t i b ?st" using t by (simp add: gen_step_def ev)
    ultimately show ?thesis unfolding step by simp
  next
    case False
    then show ?thesis using gen_draw_balanced[OF bal, of t] bal
      unfolding step by (auto simp: gen_step_def ev split: option.splits gen_phase.splits)
  qed
qed

text \<open>
  C14. The counters of a successful run balance, for every dataset, storage and schedule: every
  batch generated was either written or counted as a write error (modulo the width of the
  counters).
\<close>

theorem generator_counts_balance:
  assumes run: "generator_run ns je sh tables pk nb wr wmd names sched joins el g = Some (Inr ir, st)"
    and joins: "set names \<subseteq> set joins" and g: "ge_metrics g = mt_new"
  shows "mt_batches_generated (ir_metrics ir) = wrap_u64 (mt_batches_written (ir_metrics ir) + mt_write_errors (ir_metrics ir))"
proof -
  let ?start = "gen_start names (ge_dataset g) (ge_target g) (ge_metrics g)"
  obtain st1 s where st1: "st1 = gen_tasks ns nb wr sched ?start" and jn: "gen_join je (gn_tasks st1) joins = Some (Inr ())"
    and ir: "ir = mt_summary el (gn_metrics st1)" using generator_run_Inr[OF run] by blast
  have dom: "dom (gn_tasks ?start) = set names" by (auto simp: gen_start_def map_of_map_const dom_def split: if_splits)
  have "writing (gn_tasks ?start) = {}" by (auto simp: writing_def gen_start_def map_of_map_const split: if_splits)
  then have "balanced ?start" using dom by (simp add: balanced_def gen_start_def g mt_new_def)
  moreover have doms: "dom (gn_tasks st1) \<subseteq> set joins" using dom joins by (simp add: st1 gen_tasks_dom)
  then have "healthy_tasks (gn_tasks st1)" by (rule gen_join_healthy[OF jn])
  ultimately have bal: "balanced st1" unfolding st1 by (rule gen_tasks_balanced)
  have "writing (gn_tasks st1) = {}"
  proof (rule equals0I)
    fix t assume "t \<in> writing (gn_tasks st1)"
    then show False using doms jn unfolding gen_join_ok by (fastforce simp: writing_def)
  qed
  then show ?thesis using bal by (auto simp: balanced_def ir mt_summary_def Let_def wrap_u64_def)
qed

text \<open>A dataset of two batches and a storage that refuses the second.\<close>

definition demo_nb :: "nat dataset_next" where
  "demo_nb d t = Some (if d = 0 then (Inr None, 0) else (Inr (Some sample_batch), d - 1))"

definition demo_wr :: "unit storage_write" where
  "demo_wr s t i b = Some (if i = 1 then Inl ''disk full'' else Inr \<lparr>wr_rows_written = rb_num_rows b, wr_bytes_written = 1, wr_part_ids = []\<rparr>, s)"

definition demo_generator :: "(nat, unit) generator" where
  "demo_generator = \<lparr>ge_dataset = 2, ge_target = (), ge_metrics = mt_new, ge_version_config =
     \<lparr>vc_scenario = ''x'', vc_scale_factor = 1, vc_num_steps = 2, vc_dataset_type = ''x'', vc_update_ratio = 0,
      vc_delete_ratio = 0, vc_bootstrap = False, vc_num_mutation_steps = 0, vc_churn_fraction = 0\<rparr>\<rparr>"

definition demo_turns :: "(string \<times> nat) list" where "demo_turns = [(''t'', 7), (''t'', 7), (''t'', 7), (''t'', 7), (''t'', 7)]"

lemma demo_record:
  "record_generation ns sample_batch m = m\<lparr>mt_batches_generated := wrap_u64 (mt_batches_generated m + 1),
     mt_rows_created := wrap_u64 (mt_rows_created m + 2), mt_rows_updated := wrap_u64 (mt_rows_updated m + 1),
     mt_rows_deleted := wrap_u64 (mt_rows_deleted m + 1)\<rparr>"
  by (simp add: record_generation_def sample_batch_def sample_schema_def int_column_def str_column_def Let_def count_op_def)

lemma demo_generator_runs:
  "\<exists>ir st. generator_run [] (\<lambda>_. []) (\<lambda>_. ''1'') Map.empty (\<lambda>_. []) demo_nb demo_wr (\<lambda>s _. (Inr (), s)) [''t''] demo_turns [''t''] 9
     demo_generator = Some (Inr ir, st) \<and> mt_batches_generated (ir_metrics ir) = 2 \<and> mt_write_errors (ir_metrics ir) = 1"
  by (simp add: generator_run_def demo_generator_def demo_turns_def gen_tasks_def gen_start_def
      gen_step_def gen_draw_def gen_write_def demo_nb_def demo_wr_def Let_def mt_summary_def mt_new_def
      demo_record record_write_def record_error_def wrap_u64_def)

theorem generator_counts_balance_witness:
  "\<exists>ir st. generator_run [] (\<lambda>_. []) (\<lambda>_. ''1'') Map.empty (\<lambda>_. []) demo_nb demo_wr (\<lambda>s _. (Inr (), s)) [''t''] demo_turns [''t''] 9
     demo_generator = Some (Inr ir, st) \<and> mt_batches_generated (ir_metrics ir) = 2
     \<and> mt_batches_generated (ir_metrics ir) = wrap_u64 (mt_batches_written (ir_metrics ir) + mt_write_errors (ir_metrics ir))"
proof -
  obtain ir st where run: "generator_run [] (\<lambda>_. []) (\<lambda>_. ''1'') Map.empty (\<lambda>_. []) demo_nb demo_wr (\<lambda>s _. (Inr (), s)) [''t'']
      demo_turns [''t''] 9 demo_generator = Some (Inr ir, st)" "mt_batches_generated (ir_metrics ir) = 2"
    using demo_generator_runs by blast
  have "ge_metrics demo_generator = mt_new" by (simp add: demo_generator_def)
  then show ?thesis using generator_counts_balance[OF run(1)] run by blast
qed

end
