(* ===== verification/KeySet.thy ===== *)
theory KeySet
  imports Prelude
begin

text \<open>
  \<^verbatim>\<open>crates/data-generation/src/dataset/key_set.rs\<close>: primary key values and the indexed key
  set with constant-time insertion, deletion and random selection. The set is a dense
  vector of keys beside a hash map from each key to its slot; deletion is a swap-remove
  that repairs the slot of the moved key.
\<close>

datatype PrimaryKeyValue = Single int | Composite "int list"

record 'k indexed_key_set =
  ks_keys :: "'k list"
  ks_index :: "'k \<rightharpoonup> nat"

definition ks_new :: "'k indexed_key_set" where
  "ks_new = \<lparr>ks_keys = [], ks_index = Map.empty\<rparr>"

definition ks_insert :: "'k indexed_key_set \<Rightarrow> 'k \<Rightarrow> bool \<times> 'k indexed_key_set" where
  "ks_insert s key =
     (if ks_index s key \<noteq> None then (False, s)
      else let idx = length (ks_keys s)
           in (True, \<lparr>ks_keys = ks_keys s @ [key], ks_index = (ks_index s)(key \<mapsto> idx)\<rparr>))"

text \<open>\<open>None\<close> is the panic of an out-of-range \<^verbatim>\<open>swap_remove\<close>.\<close>

definition ks_remove :: "'k indexed_key_set \<Rightarrow> 'k \<Rightarrow> (bool \<times> 'k indexed_key_set) option" where
  "ks_remove s key =
     (case ks_index s key of
        None \<Rightarrow> Some (False, s)
      | Some idx \<Rightarrow>
          let index1 = (ks_index s)(key := None)
          in (case swap_remove (ks_keys s) idx of
                None \<Rightarrow> None
              | Some keys1 \<Rightarrow>
                  Some (True,
                    \<lparr>ks_keys = keys1,
                     ks_index = (if idx < length keys1 then index1(keys1 ! idx \<mapsto> idx)
                                 else index1)\<rparr>)))"

definition ks_len :: "'k indexed_key_set \<Rightarrow> nat" where
  "ks_len s = length (ks_keys s)"

definition ks_is_empty :: "'k indexed_key_set \<Rightarrow> bool" where
  "ks_is_empty s \<longleftrightarrow> ks_keys s = []"

text \<open>
  The random generator is a third-party crate: \<open>rr r lo hi\<close> is \<^verbatim>\<open>rng.random_range(lo..hi)\<close>
  on generator state \<open>r\<close>, returning the draw and the next state. Its documented contract is
  that the draw lies in the half-open range.
\<close>

type_synonym 'r random_range = "'r \<Rightarrow> nat \<Rightarrow> nat \<Rightarrow> nat \<times> 'r"

definition rng_in_range :: "'r random_range \<Rightarrow> bool" where
  "rng_in_range rr \<longleftrightarrow> (\<forall>r lo hi. lo < hi \<longrightarrow> lo \<le> fst (rr r lo hi) \<and> fst (rr r lo hi) < hi)"

definition ks_random_key :: "'r random_range \<Rightarrow> 'k indexed_key_set \<Rightarrow> 'r \<Rightarrow> 'k option \<times> 'r" where
  "ks_random_key rr s r =
     (if ks_keys s = [] then (None, r)
      else case rr r 0 (length (ks_keys s)) of (idx, r') \<Rightarrow> (Some (ks_keys s ! idx), r'))"

text \<open>
  Rejection sampling: the loop draws until enough distinct slots are chosen. Nothing in the
  code bounds the number of draws, so the loop is a partial function: \<open>None\<close> means it does
  not return. The order in which the hash set of chosen slots is iterated is unspecified and
  is the parameter \<open>ho\<close>.
\<close>

partial_function (option) sample_loop ::
  "'r random_range \<Rightarrow> nat \<Rightarrow> nat \<Rightarrow> nat set \<Rightarrow> 'r \<Rightarrow> (nat set \<times> 'r) option" where
  "sample_loop rr len n chosen r =
     (if card chosen < n
      then sample_loop rr len n (insert (fst (rr r 0 len)) chosen) (snd (rr r 0 len))
      else Some (chosen, r))"

definition ks_sample_keys ::
  "'r random_range \<Rightarrow> (nat set \<Rightarrow> nat list) \<Rightarrow> 'k indexed_key_set \<Rightarrow> nat \<Rightarrow> 'r
     \<Rightarrow> ('k list \<times> 'r) option" where
  "ks_sample_keys rr ho s n r =
     (let len = length (ks_keys s)
      in if n \<ge> len then Some (ks_keys s, r)
         else if n = 0 then Some ([], r)
         else map_option (\<lambda>(chosen, r'). (map (\<lambda>i. ks_keys s ! i) (ho chosen), r'))
                (sample_loop rr len n {} r))"

definition hash_order_ok :: "(nat set \<Rightarrow> nat list) \<Rightarrow> bool" where
  "hash_order_ok ho \<longleftrightarrow> (\<forall>S. finite S \<longrightarrow> set (ho S) = S \<and> distinct (ho S))"

text \<open>
  A generator is fair on a range when, from every state, finitely many further draws produce
  an index outside any proper subset of the range.
\<close>

fun nth_state :: "'r random_range \<Rightarrow> nat \<Rightarrow> nat \<Rightarrow> 'r \<Rightarrow> 'r" where
  "nth_state rr len 0 r = r"
| "nth_state rr len (Suc k) r = nth_state rr len k (snd (rr r 0 len))"

definition rng_fair :: "'r random_range \<Rightarrow> nat \<Rightarrow> bool" where
  "rng_fair rr len \<longleftrightarrow>
     (\<forall>r S. S \<subset> {..<len} \<longrightarrow> (\<exists>k. fst (rr (nth_state rr len k r) 0 len) \<notin> S))"

subsection \<open>Invariant: the vector and the index agree\<close>

definition ks_inv :: "'k indexed_key_set \<Rightarrow> bool" where
  "ks_inv s \<longleftrightarrow> (\<forall>k i. ks_index s k = Some i \<longleftrightarrow> i < length (ks_keys s) \<and> ks_keys s ! i = k)"

definition ks_live :: "'k indexed_key_set \<Rightarrow> 'k set" where
  "ks_live s = set (ks_keys s)"

lemma ks_inv_Some: "ks_inv s \<Longrightarrow> ks_index s k = Some i \<Longrightarrow> i < length (ks_keys s) \<and> ks_keys s ! i = k"
  by (simp add: ks_inv_def)

lemma ks_inv_distinct: "ks_inv s \<Longrightarrow> distinct (ks_keys s)"
  unfolding distinct_conv_nth ks_inv_def by (metis option.inject)

lemma ks_inv_dom: "ks_inv s \<Longrightarrow> dom (ks_index s) = ks_live s"
  unfolding ks_inv_def ks_live_def dom_def set_conv_nth by auto

lemma ks_inv_index_None: "ks_inv s \<Longrightarrow> ks_index s k = None \<longleftrightarrow> k \<notin> ks_live s"
  using ks_inv_dom by blast

lemma ks_len_card: "ks_inv s \<Longrightarrow> ks_len s = card (ks_live s)"
  by (simp add: ks_len_def ks_live_def distinct_card ks_inv_distinct)

lemma ks_live_finite: "finite (ks_live s)"
  by (simp add: ks_live_def)

lemma ks_inv_new: "ks_inv ks_new" and ks_live_new: "ks_live ks_new = {}"
  by (simp_all add: ks_inv_def ks_live_def ks_new_def)

lemma ks_insert_inv: "ks_inv s \<Longrightarrow> ks_inv (snd (ks_insert s k))"
  unfolding ks_insert_def ks_inv_def by (auto simp: nth_append Let_def less_Suc_eq)

lemma ks_insert_live: "ks_inv s \<Longrightarrow> ks_live (snd (ks_insert s k)) = insert k (ks_live s)"
  using ks_inv_dom[of s] by (auto simp: ks_insert_def ks_live_def Let_def)

lemma ks_insert_new: "ks_inv s \<Longrightarrow> fst (ks_insert s k) \<longleftrightarrow> k \<notin> ks_live s"
  by (auto simp: ks_insert_def Let_def ks_inv_index_None)

lemma ks_remove_present:
  assumes inv: "ks_inv s" and idx: "ks_index s k = Some i" and ys: "swap_remove (ks_keys s) i = Some ys"
    and s': "s' = \<lparr>ks_keys = ys,
      ks_index = (if i < length ys then ((ks_index s)(k := None))(ys ! i \<mapsto> i)
                  else (ks_index s)(k := None))\<rparr>"
  shows "ks_inv s' \<and> ks_live s' = ks_live s - {k}"
proof -
  have ki: "ks_keys s ! i = k" using inv idx by (simp add: ks_inv_def)
  note dist = swap_remove_distinct[OF ys ks_inv_distinct[OF inv]]
  have "ks_index s' x = Some j \<longleftrightarrow> j < length ys \<and> ys ! j = x" for x j
  proof -
    consider (moved) "i < length ys \<and> x = ys ! i" | (gone) "x = k" "x \<noteq> ys ! i \<or> length ys \<le> i"
      | (kept) "x \<noteq> k" "\<not> (i < length ys \<and> x = ys ! i)" by fastforce
    then show ?thesis
    proof cases
      case moved
      then show ?thesis using dist(1) by (auto simp: s' nth_eq_iff_index_eq)
    next
      case gone
      then have "i < length ys \<longrightarrow> ys ! i \<noteq> k" by (metis not_le)
      then have "ks_index s' k = None" unfolding s' by auto
      moreover have "k \<notin> set ys" using dist(2) ki by simp
      then have "\<not> (j < length ys \<and> ys ! j = k)" by (metis nth_mem)
      ultimately show ?thesis using gone(1) by simp
    next
      case kept
      then have "ks_index s' x = ks_index s x" by (auto simp: s')
      then show ?thesis
        using swap_remove_slot[OF ys _ kept(2)] kept(1) ki inv by (simp add: ks_inv_def)
    qed
  qed
  then have "ks_inv s'" by (simp add: ks_inv_def s')
  then show ?thesis using dist(2) ki by (simp add: ks_live_def s')
qed

lemma ks_remove_ok:
  assumes inv: "ks_inv s"
  shows "\<exists>s'. ks_remove s k = Some (k \<in> ks_live s, s') \<and> ks_inv s' \<and> ks_live s' = ks_live s - {k}"
proof (cases "ks_index s k")
  case None
  then have "k \<notin> ks_live s" by (simp add: ks_inv_index_None[OF inv])
  with None inv show ?thesis by (simp add: ks_remove_def)
next
  case (Some i)
  then have "i < length (ks_keys s)" and live: "k \<in> ks_live s"
    using inv ks_inv_index_None[OF inv, of k] by (auto simp: ks_inv_def)
  then obtain ys where ys: "swap_remove (ks_keys s) i = Some ys" by (simp add: swap_remove_def)
  show ?thesis using ks_remove_present[OF inv Some ys refl] Some ys live
    by (simp add: ks_remove_def Let_def)
qed

subsection \<open>Sampling\<close>

lemma sample_loop_sound:
  assumes "sample_loop rr len n chosen r = Some (res, r')" "rng_in_range rr"
    "chosen \<subseteq> {..<len}" "card chosen \<le> n" "0 < len"
  shows "res \<subseteq> {..<len} \<and> card res = n"
proof -
  have "rng_in_range rr \<longrightarrow> chosen \<subseteq> {..<len} \<longrightarrow> card chosen \<le> n \<longrightarrow> 0 < len \<longrightarrow>
      fst (res, r') \<subseteq> {..<len} \<and> card (fst (res, r')) = n"
  proof (rule sample_loop.raw_induct[where P = "\<lambda>rr len n chosen r q. rng_in_range rr \<longrightarrow>
      chosen \<subseteq> {..<len} \<longrightarrow> card chosen \<le> n \<longrightarrow> 0 < len \<longrightarrow> fst q \<subseteq> {..<len} \<and> card (fst q) = n",
      OF _ assms(1)], intro impI)
    fix loop rr len n chosen r q
    assume IH: "\<And>rr len n chosen r q. loop rr len n chosen r = Some q \<Longrightarrow> rng_in_range rr \<longrightarrow>
        chosen \<subseteq> {..<len} \<longrightarrow> card chosen \<le> n \<longrightarrow> 0 < len \<longrightarrow> fst q \<subseteq> {..<len} \<and> card (fst q) = n"
      and eq: "(if card chosen < n then loop rr len n (insert (fst (rr r 0 len)) chosen) (snd (rr r 0 len))
          else Some (chosen, r)) = Some q"
      and ok: "rng_in_range rr" "chosen \<subseteq> {..<len}" "card chosen \<le> n" "0 < len"
    show "fst q \<subseteq> {..<len} \<and> card (fst q) = n"
    proof (cases "card chosen < n")
      case True
      have "finite chosen" using ok(2) finite_subset by blast
      then have "card (insert (fst (rr r 0 len)) chosen) \<le> n"
        using True by (simp add: card_insert_if)
      moreover have "insert (fst (rr r 0 len)) chosen \<subseteq> {..<len}"
        using ok by (auto simp: rng_in_range_def)
      ultimately show ?thesis using IH True eq ok by auto
    next
      case False
      then show ?thesis using eq ok by auto
    qed
  qed
  then show ?thesis using assms by simp
qed

text \<open>One more distinct slot is found after finitely many draws of a fair generator.\<close>

lemma sample_loop_skip:
  assumes "\<And>j. j < k \<Longrightarrow> fst (rr (nth_state rr len j r) 0 len) \<in> chosen" "card chosen < n"
  shows "sample_loop rr len n chosen r = sample_loop rr len n chosen (nth_state rr len k r)"
  using assms
proof (induction k arbitrary: r)
  case 0
  then show ?case by simp
next
  case (Suc k)
  have "fst (rr r 0 len) \<in> chosen" using Suc.prems(1)[of 0] by simp
  then have "sample_loop rr len n chosen r = sample_loop rr len n chosen (snd (rr r 0 len))"
    using Suc.prems(2) by (subst sample_loop.simps) (simp add: insert_absorb)
  also have "\<dots> = sample_loop rr len n chosen (nth_state rr len k (snd (rr r 0 len)))"
    by (rule Suc.IH) (use Suc.prems(1)[of "Suc _"] Suc.prems(2) in auto)
  finally show ?case by simp
qed

lemma sample_loop_progress:
  assumes "rng_in_range rr" "rng_fair rr len" "chosen \<subset> {..<len}" "card chosen < n"
  obtains i r' where "i < len" "i \<notin> chosen"
    "sample_loop rr len n chosen r = sample_loop rr len n (insert i chosen) r'"
proof -
  define k where "k = (LEAST k. fst (rr (nth_state rr len k r) 0 len) \<notin> chosen)"
  have ex: "\<exists>k. fst (rr (nth_state rr len k r) 0 len) \<notin> chosen"
    using assms(2,3) by (simp add: rng_fair_def)
  have out: "fst (rr (nth_state rr len k r) 0 len) \<notin> chosen"
    using LeastI_ex[OF ex] by (simp add: k_def)
  have before: "j < k \<Longrightarrow> fst (rr (nth_state rr len j r) 0 len) \<in> chosen" for j
    using not_less_Least unfolding k_def by blast
  have "0 < len" using assms(3) by (cases len) auto
  then have "fst (rr (nth_state rr len k r) 0 len) < len"
    using assms(1) by (simp add: rng_in_range_def)
  moreover have "sample_loop rr len n chosen r
      = sample_loop rr len n (insert (fst (rr (nth_state rr len k r) 0 len)) chosen)
          (snd (rr (nth_state rr len k r) 0 len))"
    using sample_loop_skip[where k = k and rr = rr and len = len and r = r and chosen = chosen and n = n]
      before assms(4) by (simp add: sample_loop.simps[of rr len n chosen "nth_state rr len k r"])
  ultimately show thesis using out that by blast
qed

lemma sample_loop_returns:
  assumes "rng_in_range rr" "rng_fair rr len" "n \<le> len" "chosen \<subseteq> {..<len}" "card chosen \<le> n"
  shows "\<exists>res. sample_loop rr len n chosen r = Some res"
  using assms(4,5)
proof (induction "n - card chosen" arbitrary: chosen r)
  case 0
  then show ?case by (subst sample_loop.simps) simp
next
  case (Suc d)
  then have less: "card chosen < n" by simp
  then have "chosen \<subset> {..<len}" using Suc.prems(1) assms(3) by (metis card_lessThan leD psubsetI)
  then obtain i r' where i: "i < len" "i \<notin> chosen"
    and eq: "sample_loop rr len n chosen r = sample_loop rr len n (insert i chosen) r'"
    using sample_loop_progress[OF assms(1,2) _ less, of r] by metis
  have fin: "finite chosen" using Suc.prems(1) finite_subset by blast
  have "\<exists>res. sample_loop rr len n (insert i chosen) r' = Some res"
    by (rule Suc.hyps(1)) (use Suc fin i less in auto)
  then show ?case using eq by simp
qed

lemma ks_sample_keys_sound:
  assumes inv: "ks_inv s" and ok: "rng_in_range rr" "hash_order_ok ho"
    and res: "ks_sample_keys rr ho s n r = Some (ks, r')"
  shows "distinct ks \<and> set ks \<subseteq> ks_live s \<and> length ks = min n (ks_len s)"
proof (cases "ks_len s \<le> n \<or> n = 0")
  case True
  then show ?thesis
    using res ks_inv_distinct[OF inv] by (auto simp: ks_sample_keys_def ks_live_def ks_len_def Let_def split: if_splits)
next
  case False
  let ?len = "length (ks_keys s)"
  from False res obtain chosen where loop: "sample_loop rr ?len n {} r = Some (chosen, r')"
    and ks: "ks = map (\<lambda>i. ks_keys s ! i) (ho chosen)"
    by (auto simp: ks_sample_keys_def ks_len_def Let_def split: if_splits)
  have "0 < ?len" using False by (auto simp: ks_len_def)
  then have c: "chosen \<subseteq> {..<?len}" "card chosen = n"
    using sample_loop_sound[OF loop ok(1)] by simp_all
  have "finite chosen" using c(1) finite_subset by blast
  then have ho: "set (ho chosen) = chosen" "distinct (ho chosen)"
    using ok(2) by (simp_all add: hash_order_ok_def)
  have "inj_on (\<lambda>i. ks_keys s ! i) chosen"
    using c(1) by (intro inj_on_nth[OF ks_inv_distinct[OF inv]]) auto
  then have "distinct ks" by (simp add: ks distinct_map ho)
  moreover have "length ks = n" using ho c(2) distinct_card[OF ho(2)] by (simp add: ks)
  moreover have "set ks \<subseteq> ks_live s" using c(1) ho(1) by (auto simp: ks ks_live_def)
  ultimately show ?thesis using False by simp
qed

lemma ks_sample_keys_returns:
  assumes "rng_in_range rr" "rng_fair rr (ks_len s)"
  shows "\<exists>res. ks_sample_keys rr ho s n r = Some res"
proof (cases "ks_len s \<le> n \<or> n = 0")
  case True
  then show ?thesis by (auto simp: ks_sample_keys_def ks_len_def Let_def)
next
  case False
  then show ?thesis
    using sample_loop_returns[OF assms, of n "{}" r]
    by (auto simp: ks_sample_keys_def ks_len_def Let_def)
qed

subsection \<open>The interface the datasets rely on\<close>

text \<open>
  The loops of the datasets over a key set: registering every created key, dropping every
  deleted one.
\<close>

fun insert_all :: "('s \<Rightarrow> 'k \<Rightarrow> bool \<times> 's) \<Rightarrow> 's \<Rightarrow> 'k list \<Rightarrow> 's" where
  "insert_all ins s [] = s"
| "insert_all ins s (k # ks) = insert_all ins (snd (ins s k)) ks"

fun remove_all :: "('s \<Rightarrow> 'k \<Rightarrow> (bool \<times> 's) option) \<Rightarrow> 's \<Rightarrow> 'k list \<Rightarrow> 's option" where
  "remove_all rem s [] = Some s"
| "remove_all rem s (k # ks) =
     (case rem s k of None \<Rightarrow> None | Some (b, s') \<Rightarrow> remove_all rem s' ks)"

locale key_pool =
  fixes ins :: "'s \<Rightarrow> 'k \<Rightarrow> bool \<times> 's"
    and rem :: "'s \<Rightarrow> 'k \<Rightarrow> (bool \<times> 's) option"
    and len :: "'s \<Rightarrow> nat"
    and live :: "'s \<Rightarrow> 'k set"
    and inv :: "'s \<Rightarrow> bool"
  assumes ins_inv: "inv s \<Longrightarrow> inv (snd (ins s k))"
    and ins_live: "inv s \<Longrightarrow> live (snd (ins s k)) = insert k (live s)"
    and ins_new: "inv s \<Longrightarrow> fst (ins s k) \<longleftrightarrow> k \<notin> live s"
    and rem_ok: "inv s \<Longrightarrow> \<exists>s'. rem s k = Some (k \<in> live s, s') \<and> inv s' \<and> live s' = live s - {k}"
    and len_card: "inv s \<Longrightarrow> len s = card (live s)"
    and live_finite: "inv s \<Longrightarrow> finite (live s)"
begin

lemma insert_all_inv: "inv s \<Longrightarrow> inv (insert_all ins s ks)"
  by (induction ks arbitrary: s) (auto simp: ins_inv)

lemma insert_all_live: "inv s \<Longrightarrow> live (insert_all ins s ks) = live s \<union> set ks"
  by (induction ks arbitrary: s) (auto simp: ins_inv ins_live)

lemma remove_all_ok:
  "inv s \<Longrightarrow> \<exists>s'. remove_all rem s ks = Some s' \<and> inv s' \<and> live s' = live s - set ks"
proof (induction ks arbitrary: s)
  case Nil
  then show ?case by simp
next
  case (Cons k ks)
  then obtain s1 where s1: "rem s k = Some (k \<in> live s, s1)" "inv s1" "live s1 = live s - {k}"
    using rem_ok by blast
  from Cons.IH[OF s1(2)] obtain s2
    where "remove_all rem s1 ks = Some s2" "inv s2" "live s2 = live s1 - set ks" by blast
  then show ?case using s1 by auto
qed

lemma insert_all_len:
  "inv s \<Longrightarrow> distinct ks \<Longrightarrow> set ks \<inter> live s = {} \<Longrightarrow> len (insert_all ins s ks) = len s + length ks"
  by (simp add: len_card insert_all_inv insert_all_live live_finite card_Un_disjoint
      Int_commute distinct_card)

end

interpretation ks: key_pool ks_insert ks_remove ks_len ks_live ks_inv
  by unfold_locales
    (simp_all add: ks_insert_inv ks_insert_live ks_insert_new ks_remove_ok ks_len_card ks_live_finite)

subsection \<open>Refinement of a mathematical set\<close>

datatype 'k ks_op = KInsert 'k | KRemove 'k

fun ks_run :: "'k indexed_key_set \<Rightarrow> 'k ks_op list \<Rightarrow> (bool list \<times> 'k indexed_key_set) option" where
  "ks_run s [] = Some ([], s)"
| "ks_run s (KInsert k # ops) =
     (case ks_insert s k of (b, s') \<Rightarrow> map_option (\<lambda>(bs, t). (b # bs, t)) (ks_run s' ops))"
| "ks_run s (KRemove k # ops) =
     (case ks_remove s k of
        None \<Rightarrow> None
      | Some (b, s') \<Rightarrow> map_option (\<lambda>(bs, t). (b # bs, t)) (ks_run s' ops))"

fun set_run :: "'k set \<Rightarrow> 'k ks_op list \<Rightarrow> bool list \<times> 'k set" where
  "set_run S [] = ([], S)"
| "set_run S (KInsert k # ops) = (case set_run (insert k S) ops of (bs, T) \<Rightarrow> ((k \<notin> S) # bs, T))"
| "set_run S (KRemove k # ops) = (case set_run (S - {k}) ops of (bs, T) \<Rightarrow> ((k \<in> S) # bs, T))"

lemma ks_run_refines:
  "ks_inv s \<Longrightarrow> \<exists>t. ks_run s ops = Some (fst (set_run (ks_live s) ops), t) \<and> ks_inv t
     \<and> ks_live t = snd (set_run (ks_live s) ops)"
proof (induction ops arbitrary: s)
  case Nil
  then show ?case by simp
next
  case (Cons op ops)
  show ?case
  proof (cases op)
    case (KInsert k)
    have "fst (ks_insert s k) \<longleftrightarrow> k \<notin> ks_live s" by (rule ks.ins_new[OF Cons.prems])
    with Cons.IH[OF ks.ins_inv[OF Cons.prems, of k]] KInsert show ?thesis
      by (auto simp: ks.ins_live[OF Cons.prems] split: prod.splits)
  next
    case (KRemove k)
    obtain s1 where s1: "ks_remove s k = Some (k \<in> ks_live s, s1)" "ks_inv s1" "ks_live s1 = ks_live s - {k}"
      using ks.rem_ok[OF Cons.prems] by blast
    with Cons.IH[OF s1(2)] KRemove show ?thesis by (auto split: prod.splits)
  qed
qed

text \<open>
  C20. Every sequence of insertions and removals on a fresh \<open>IndexedKeySet\<close> answers and ends as
  the same sequence on a mathematical set: each call reports whether the key was new
  (insertion) or present (removal), no removal panics on its swap-remove, and the keys stored
  at the end are exactly those of the set, with vector and index in agreement.
\<close>

theorem key_set_refines_set:
  "\<exists>t. ks_run ks_new ops = Some (fst (set_run {} ops), t) \<and> ks_inv t
     \<and> set (ks_keys t) = snd (set_run {} ops) \<and> distinct (ks_keys t)
     \<and> dom (ks_index t) = set (ks_keys t)"
  using ks_run_refines[OF ks_inv_new, of ops] ks_inv_distinct ks_inv_dom
  unfolding ks_live_new by (fastforce simp: ks_live_def)

text \<open>
  C21. Sampling \<open>n\<close> keys from a consistent key set returns, for every generator that
  respects its range and is fair on the set's slots, exactly \<open>min n len\<close> distinct live keys,
  whatever the iteration order of the hash set of chosen slots.
\<close>

theorem sample_keys_returns_distinct_live:
  assumes "ks_inv s" and "rng_in_range rr" and "rng_fair rr (ks_len s)" and "hash_order_ok ho"
  shows "\<exists>ks r'. ks_sample_keys rr ho s n r = Some (ks, r') \<and> distinct ks
     \<and> set ks \<subseteq> ks_live s \<and> length ks = min n (ks_len s)"
  using ks_sample_keys_returns[OF assms(2,3), of ho n r] ks_sample_keys_sound[OF assms(1,2,4)] by fast

text \<open>A generator that cycles through the range, used in the witnesses.\<close>

definition cycle_rng :: "nat random_range" where
  "cycle_rng r lo hi = (lo + r mod (hi - lo), Suc r)"

lemma cycle_rng_in_range: "rng_in_range cycle_rng"
  by (auto simp: rng_in_range_def cycle_rng_def less_diff_conv2)
    (metis add.commute less_diff_conv mod_less_divisor zero_less_diff)

lemma nth_state_cycle: "nth_state cycle_rng len k r = r + k"
  by (induction k arbitrary: r) (auto simp: cycle_rng_def)

lemma cycle_rng_fair: "rng_fair cycle_rng len"
proof (unfold rng_fair_def, intro allI impI)
  fix r :: nat and S assume "S \<subset> {..<len}"
  then obtain i where i: "i < len" "i \<notin> S" by auto
  have "(r + (len * Suc r + i - r)) mod len = i" using i
    by (metis Suc_eq_plus1 add.commute add_diff_inverse_nat le_add2 le_trans mod_less mod_mult_self4
        mult.commute mult_le_mono1 nat_mult_1 not_less_eq_eq not_le trans_le_add1)
  then show "\<exists>k. fst (cycle_rng (nth_state cycle_rng len k r) 0 len) \<notin> S"
    using i(2) by (intro exI[of _ "len * Suc r + i - r"]) (simp add: nth_state_cycle cycle_rng_def)
qed

lemma hash_order_sorted: "hash_order_ok sorted_list_of_set"
  by (simp add: hash_order_ok_def)

definition three_keys :: "nat indexed_key_set" where
  "three_keys = insert_all ks_insert ks_new [7, 8, 9]"

lemma three_keys_inv: "ks_inv three_keys"
  unfolding three_keys_def by (rule ks.insert_all_inv[OF ks_inv_new])

theorem sample_keys_returns_distinct_live_witness:
  "\<exists>ks r'. ks_sample_keys cycle_rng sorted_list_of_set three_keys 2 0 = Some (ks, r')
     \<and> distinct ks \<and> set ks \<subseteq> ks_live three_keys \<and> length ks = min 2 (ks_len three_keys)"
  by (rule sample_keys_returns_distinct_live
      [OF three_keys_inv cycle_rng_in_range cycle_rng_fair hash_order_sorted])

end
