(* ===== verification/TpchArrays.thy ===== *)
theory TpchArrays
  imports KeySet Dataset
begin

text \<open>
  The free functions of \<^verbatim>\<open>crates/data-generation/src/dataset/tpch.rs\<close>: table constants,
  schemas, the raw batches of the TPC-H generator, extraction of primary keys from a batch,
  and the arrays that update and delete rows are built from. Panics are \<open>None\<close>.
\<close>

subsection \<open>Third-party code\<close>

text \<open>
  The environment of the TPC-H dataset: the \<^verbatim>\<open>tpchgen-arrow\<close> generators (the first batch of
  \<open>te_gen table scale part part_count\<close> with a batch size, and their schema), Arrow's array
  concatenation, \<^verbatim>\<open>Decimal128Array::with_precision_and_scale\<close>, the value of a null integer
  slot, the random generator, and the iteration order of hash sets.
\<close>

record 'r tpch_env =
  te_gen :: "string \<Rightarrow> f64 \<Rightarrow> nat \<Rightarrow> nat \<Rightarrow> nat \<Rightarrow> record_batch option"
  te_schema :: "string \<Rightarrow> schema"
  te_concat :: "array list \<Rightarrow> array result"
  te_with_precision_and_scale :: "nat \<Rightarrow> int \<Rightarrow> array \<Rightarrow> array result"
  te_null_i64 :: int
  te_rr :: "'r random_range"
  te_hash :: "nat set \<Rightarrow> nat list"

subsection \<open>Tables and schemas\<close>

definition TPCH_TABLES :: "(string \<times> string) list" where
  "TPCH_TABLES = [
     (''region'', ''r_created_at''),
     (''nation'', ''n_created_at''),
     (''supplier'', ''s_created_at''),
     (''customer'', ''c_created_at''),
     (''part'', ''p_created_at''),
     (''partsupp'', ''ps_created_at''),
     (''orders'', ''o_created_at''),
     (''lineitem'', ''l_created_at'')]"

definition SF1_ROW_COUNTS :: "(string \<times> nat) list" where
  "SF1_ROW_COUNTS = [
     (''region'', 5),
     (''nation'', 25),
     (''supplier'', 10000),
     (''customer'', 150000),
     (''part'', 200000),
     (''partsupp'', 800000),
     (''orders'', 1500000),
     (''lineitem'', 6001215)]"

definition is_dim :: "string \<Rightarrow> bool" where
  "is_dim table \<longleftrightarrow> table = ''region'' \<or> table = ''nation''"

definition total_rows_for_table :: "string \<Rightarrow> f64 \<Rightarrow> nat" where
  "total_rows_for_table table scale_factor =
     (let sf1_count = (case map_of SF1_ROW_COUNTS table of Some c \<Rightarrow> c | None \<Rightarrow> 0)
      in if is_dim table then sf1_count
         else f64_round_usize (f64_mul (f64_of_nat sf1_count) scale_factor))"

definition native_tpch_schema :: "'r tpch_env \<Rightarrow> string \<Rightarrow> schema option" where
  "native_tpch_schema E table =
     (if table \<in> set (map fst TPCH_TABLES)
      then Some (map (\<lambda>f. f\<lparr>fld_nullable := True\<rparr>) (te_schema E table)) else None)"

definition tpch_schema :: "'r tpch_env \<Rightarrow> string \<Rightarrow> schema option" where
  "tpch_schema E table =
     map_option (\<lambda>native. native @
       [\<lparr>fld_name = ''_op'', fld_type = DUtf8, fld_nullable = False\<rparr>,
        \<lparr>fld_name = ''_op_index'', fld_type = DInt64, fld_nullable = False\<rparr>])
     (native_tpch_schema E table)"

definition new_empty_array :: "data_type \<Rightarrow> array" where
  "new_empty_array dt = \<lparr>arr_type = dt, arr_cells = []\<rparr>"

definition new_null_array :: "data_type \<Rightarrow> nat \<Rightarrow> array" where
  "new_null_array dt n = \<lparr>arr_type = dt, arr_cells = replicate n None\<rparr>"

definition new_empty_batch :: "schema \<Rightarrow> record_batch" where
  "new_empty_batch s = \<lparr>rb_schema = s, rb_columns = map (\<lambda>f. new_empty_array (fld_type f)) s, rb_num_rows = 0\<rparr>"

definition generate_raw_batch :: "'r tpch_env \<Rightarrow> string \<Rightarrow> f64 \<Rightarrow> nat \<Rightarrow> nat \<Rightarrow> record_batch option" where
  "generate_raw_batch E table scale_factor part part_count =
     (let batch_size = total_rows_for_table table scale_factor
      in case native_tpch_schema E table of
           None \<Rightarrow> None
         | Some native \<Rightarrow>
             Some (case te_gen E table scale_factor part part_count batch_size of
                     Some b \<Rightarrow> b
                   | None \<Rightarrow> new_empty_batch native))"

subsection \<open>Primary keys of a batch\<close>

definition get_i64_from_array :: "'r tpch_env \<Rightarrow> array \<Rightarrow> nat \<Rightarrow> int option" where
  "get_i64_from_array E a row =
     (if arr_type a = DInt64 \<or> arr_type a = DInt32
      then Some (case arr_cells a ! row of Some (CInt i) \<Rightarrow> i | _ \<Rightarrow> te_null_i64 E)
      else None)"

definition pk_of_row :: "'r tpch_env \<Rightarrow> record_batch \<Rightarrow> nat list \<Rightarrow> nat \<Rightarrow> PrimaryKeyValue option" where
  "pk_of_row E batch col_indices row =
     (if length col_indices = 1
      then map_option Single (get_i64_from_array E (rb_columns batch ! (col_indices ! 0)) row)
      else map_option Composite
             (those (map (\<lambda>idx. get_i64_from_array E (rb_columns batch ! idx) row) col_indices)))"

definition extract_pk_values ::
  "'r tpch_env \<Rightarrow> record_batch \<Rightarrow> string list \<Rightarrow> (PrimaryKeyValue list result) option" where
  "extract_pk_values E batch pk_columns =
     (case collect_results (\<lambda>name. case index_of (rb_schema batch) name of
                                     Some i \<Rightarrow> Inr i
                                   | None \<Rightarrow> Inl (''PK column '' @ name @ '' not found in batch'')) pk_columns of
        Inl e \<Rightarrow> Some (Inl e)
      | Inr col_indices \<Rightarrow>
          map_option Inr (those (map (pk_of_row E batch col_indices) [0..<rb_num_rows batch])))"

subsection \<open>Arrays for update and delete rows\<close>

definition wrap_i32 :: "int \<Rightarrow> int" where
  "wrap_i32 v = (v + 2 ^ 31) mod 2 ^ 32 - 2 ^ 31"

fun key_component :: "nat \<Rightarrow> PrimaryKeyValue \<Rightarrow> int option" where
  "key_component pos (Single v) = Some v"
| "key_component pos (Composite vs) = (if pos < length vs then Some (vs ! pos) else None)"

definition build_pk_array :: "PrimaryKeyValue list \<Rightarrow> nat \<Rightarrow> data_type \<Rightarrow> array option" where
  "build_pk_array keys pk_position dt =
     Option.bind (those (map (key_component pk_position) keys)) (\<lambda>values.
       case dt of
         DInt32 \<Rightarrow> Some \<lparr>arr_type = DInt32, arr_cells = map (\<lambda>v. Some (CInt (wrap_i32 v))) values\<rparr>
       | DInt64 \<Rightarrow> Some \<lparr>arr_type = DInt64, arr_cells = map (\<lambda>v. Some (CInt v)) values\<rparr>
       | _ \<Rightarrow> None)"

fun draw_n :: "nat \<Rightarrow> ('r \<Rightarrow> 'a \<times> 'r) \<Rightarrow> 'r \<Rightarrow> 'a list \<times> 'r" where
  "draw_n 0 f r = ([], r)"
| "draw_n (Suc n) f r =
     (case f r of (x, r1) \<Rightarrow> (case draw_n n f r1 of (xs, r2) \<Rightarrow> (x # xs, r2)))"

definition CHARSET :: string where
  "CHARSET = ''ABCDEFGHIJKLMNOPQRSTUVWXYZabcdefghijklmnopqrstuvwxyz0123456789''"

definition random_alphanumeric_string :: "'r random_range \<Rightarrow> nat \<Rightarrow> 'r \<Rightarrow> string \<times> 'r" where
  "random_alphanumeric_string rr len r =
     draw_n len (\<lambda>r. case rr r 0 (length CHARSET) of (i, r') \<Rightarrow> (CHARSET ! i, r')) r"

definition random_ints :: "'r tpch_env \<Rightarrow> data_type \<Rightarrow> nat \<Rightarrow> nat \<Rightarrow> nat \<Rightarrow> 'r \<Rightarrow> array \<times> 'r" where
  "random_ints E dt n lo hi r =
     (case draw_n n (\<lambda>r. te_rr E r lo hi) r of
        (vs, r') \<Rightarrow> (\<lparr>arr_type = dt, arr_cells = map (\<lambda>v. Some (CInt (int v))) vs\<rparr>, r'))"

definition random_strings :: "'r tpch_env \<Rightarrow> data_type \<Rightarrow> nat \<Rightarrow> 'r \<Rightarrow> array \<times> 'r" where
  "random_strings E dt n r =
     (case draw_n n (random_alphanumeric_string (te_rr E) 10) r of
        (vs, r') \<Rightarrow> (\<lparr>arr_type = dt, arr_cells = map (\<lambda>v. Some (CStr v)) vs\<rparr>, r'))"

text \<open>
  Decimals: \<open>i128_max\<close> bounds the padding and every product, whose overflow is a panic. The
  precision is read as a signed byte.
\<close>

abbreviation i128_max :: nat where "i128_max \<equiv> 2 ^ 127 - 1"

definition as_i8 :: "nat \<Rightarrow> int" where
  "as_i8 p = (int p + 128) mod 256 - 128"

definition random_decimals ::
  "'r tpch_env \<Rightarrow> nat \<Rightarrow> int \<Rightarrow> nat \<Rightarrow> 'r \<Rightarrow> (array result \<times> 'r) option" where
  "random_decimals E precision scale n r =
     (if scale < 0 then Some (Inl ''Decimal128 scale must be non-negative'', r)
      else let scale_u32 = nat scale;
               effective_scale = min scale_u32 4;
               effective_mult = 10 ^ effective_scale;
               padding = 10 ^ (scale_u32 - effective_scale)
           in if padding > i128_max \<or> as_i8 precision - scale < - 128 then None
              else let int_digits = nat (max (as_i8 precision - scale) 1);
                       max_whole = 10 ^ min int_digits 4;
                       one = (\<lambda>r. case te_rr E r 0 max_whole of (whole, r1) \<Rightarrow>
                                  (case te_rr E r1 0 effective_mult of (fraction, r2) \<Rightarrow>
                                     ((whole * effective_mult + fraction) * padding, r2)))
                   in case draw_n n one r of
                        (vs, r') \<Rightarrow>
                          if list_ex (\<lambda>v. v > i128_max) vs then None
                          else Some (te_with_precision_and_scale E precision scale
                                 \<lparr>arr_type = DDecimal128 38 10,
                                  arr_cells = map (\<lambda>v. Some (CInt (int v))) vs\<rparr>, r'))"

definition build_random_array ::
  "'r tpch_env \<Rightarrow> nat \<Rightarrow> data_type \<Rightarrow> 'r \<Rightarrow> (array result \<times> 'r) option" where
  "build_random_array E num_rows dt r =
     (case dt of
        DInt32 \<Rightarrow> Some (apfst Inr (random_ints E DInt32 num_rows 1 1000000 r))
      | DInt64 \<Rightarrow> Some (apfst Inr (random_ints E DInt64 num_rows 1 1000000000 r))
      | DUtf8 \<Rightarrow> Some (apfst Inr (random_strings E DUtf8 num_rows r))
      | DLargeUtf8 \<Rightarrow> Some (apfst Inr (random_strings E DUtf8 num_rows r))
      | DUtf8View \<Rightarrow> Some (apfst Inr (random_strings E DUtf8View num_rows r))
      | DDecimal128 precision scale \<Rightarrow> random_decimals E precision scale num_rows r
      | DDate32 \<Rightarrow> Some (apfst Inr (random_ints E DDate32 num_rows 8000 20000 r))
      | _ \<Rightarrow> Some (Inl ''unsupported data type for random generation'', r))"

subsection \<open>Keys held by a batch\<close>

fun key_vals :: "PrimaryKeyValue \<Rightarrow> int list" where
  "key_vals (Single v) = [v]"
| "key_vals (Composite vs) = vs"

definition mk_key :: "int list \<Rightarrow> PrimaryKeyValue" where
  "mk_key vs = (if length vs = 1 then Single (vs ! 0) else Composite vs)"

definition key_wf :: "nat \<Rightarrow> PrimaryKeyValue \<Rightarrow> bool" where
  "key_wf n k \<longleftrightarrow> length (key_vals k) = n \<and> mk_key (key_vals k) = k"

lemma key_vals_mk_key [simp]: "key_vals (mk_key vs) = vs"
  by (cases vs) (auto simp: mk_key_def)

lemma key_wf_mk_key: "key_wf (length vs) (mk_key vs)"
  by (simp add: key_wf_def)

lemma key_component_wf: "key_wf n k \<Longrightarrow> j < n \<Longrightarrow> key_component j k = Some (key_vals k ! j)"
  by (cases k) (auto simp: key_wf_def)

text \<open>The primary key columns of a batch hold the components of the keys, row by row.\<close>

definition key_cells :: "nat \<Rightarrow> PrimaryKeyValue list \<Rightarrow> cell option list" where
  "key_cells j keys = map (\<lambda>k. Some (CInt (key_vals k ! j))) keys"

definition holds_keys :: "record_batch \<Rightarrow> string list \<Rightarrow> PrimaryKeyValue list \<Rightarrow> bool" where
  "holds_keys b pks keys \<longleftrightarrow> length keys = rb_num_rows b \<and> (\<forall>k \<in> set keys. key_wf (length pks) k)
     \<and> (\<forall>j < length pks. \<exists>c. index_of (rb_schema b) (pks ! j) = Some c
          \<and> (arr_type (rb_columns b ! c) = DInt32 \<or> arr_type (rb_columns b ! c) = DInt64)
          \<and> arr_cells (rb_columns b ! c) = key_cells j keys)"

lemma those_map_Some: "(\<And>x. x \<in> set xs \<Longrightarrow> f x = Some (g x)) \<Longrightarrow> those (map f xs) = Some (map g xs)"
  by (induction xs) auto

lemma extract_pk_values_holds:
  assumes h: "holds_keys b pks keys"
  shows "extract_pk_values E b pks = Some (Inr keys)"
proof -
  define c where "c name = the (index_of (rb_schema b) name)" for name
  have c: "index_of (rb_schema b) (pks ! j) = Some (c (pks ! j))"
    "arr_type (rb_columns b ! c (pks ! j)) = DInt32 \<or> arr_type (rb_columns b ! c (pks ! j)) = DInt64"
    "arr_cells (rb_columns b ! c (pks ! j)) = key_cells j keys" if "j < length pks" for j
    using h that by (auto simp: holds_keys_def c_def)
  have idx: "index_of (rb_schema b) name = Some (c name)" if "name \<in> set pks" for name
    using that c(1) by (metis in_set_conv_nth)
  have col: "collect_results (\<lambda>name. case index_of (rb_schema b) name of Some i \<Rightarrow> Inr i
         | None \<Rightarrow> Inl (''PK column '' @ name @ '' not found in batch'')) pks = Inr (map c pks)"
    by (rule collect_results_all_Inr) (simp add: idx)
  have row: "pk_of_row E b (map c pks) i = Some (keys ! i)" if i: "i < rb_num_rows b" for i
  proof -
    let ?k = "keys ! i"
    have len: "length keys = rb_num_rows b" using h by (simp add: holds_keys_def)
    have wf: "key_wf (length pks) ?k" using h i len by (simp add: holds_keys_def)
    have get: "get_i64_from_array E (rb_columns b ! c (pks ! j)) i = Some (key_vals ?k ! j)" if "j < length pks" for j
      using c(2,3)[OF that] i len by (auto simp: get_i64_from_array_def key_cells_def)
    have all: "those (map (\<lambda>idx. get_i64_from_array E (rb_columns b ! idx) i) (map c pks)) = Some (key_vals ?k)"
    proof -
      have "map (\<lambda>idx. get_i64_from_array E (rb_columns b ! idx) i) (map c pks) = map Some (key_vals ?k)"
        using get wf by (intro nth_equalityI) (simp_all add: key_wf_def)
      then show ?thesis using those_map_Some[of "key_vals ?k" Some "\<lambda>x. x"] by simp
    qed
    show ?thesis
    proof (cases "length pks = 1")
      case True
      then show ?thesis using get[of 0] wf by (auto simp: pk_of_row_def key_wf_def mk_key_def)
    next
      case False
      then show ?thesis using all wf by (auto simp: pk_of_row_def key_wf_def mk_key_def)
    qed
  qed
  have "those (map (pk_of_row E b (map c pks)) [0..<rb_num_rows b]) = Some (map ((!) keys) [0..<rb_num_rows b])"
    by (rule those_map_Some) (simp add: row)
  also have "map ((!) keys) [0..<rb_num_rows b] = keys" using h map_nth[of keys] by (simp add: holds_keys_def)
  finally show ?thesis by (simp add: extract_pk_values_def col)
qed

text \<open>A batch whose key columns contain integers holds keys.\<close>

lemma holds_keys_exists:
  assumes "\<And>j. j < length pks \<Longrightarrow> \<exists>c. index_of (rb_schema b) (pks ! j) = Some c
     \<and> (arr_type (rb_columns b ! c) = DInt32 \<or> arr_type (rb_columns b ! c) = DInt64)
     \<and> length (arr_cells (rb_columns b ! c)) = rb_num_rows b
     \<and> (\<forall>x \<in> set (arr_cells (rb_columns b ! c)). \<exists>v. x = Some (CInt v))"
  shows "\<exists>keys. holds_keys b pks keys"
proof -
  define c where "c j = the (index_of (rb_schema b) (pks ! j))" for j
  define keys where "keys = map (\<lambda>i. mk_key (map (\<lambda>j. cell_int (arr_cells (rb_columns b ! c j) ! i))
      [0..<length pks])) [0..<rb_num_rows b]"
  have cells: "arr_cells (rb_columns b ! c j) = key_cells j keys" if j: "j < length pks" for j
  proof (rule nth_equalityI)
    show "length (arr_cells (rb_columns b ! c j)) = length (key_cells j keys)"
      using assms[OF j] by (auto simp: c_def key_cells_def keys_def)
  next
    fix i assume i: "i < length (arr_cells (rb_columns b ! c j))"
    have "\<forall>x \<in> set (arr_cells (rb_columns b ! c j)). \<exists>v. x = Some (CInt v)" using assms[OF j] by (auto simp: c_def)
    then obtain v where "arr_cells (rb_columns b ! c j) ! i = Some (CInt v)" using nth_mem[OF i] by blast
    moreover have "i < rb_num_rows b" using assms[OF j] i by (auto simp: c_def)
    ultimately show "arr_cells (rb_columns b ! c j) ! i = key_cells j keys ! i"
      using j by (simp add: key_cells_def keys_def)
  qed
  have "key_wf (length pks) k" if "k \<in> set keys" for k
    using that key_wf_mk_key[of "map f [0..<length pks]" for f] by (auto simp: keys_def)
  moreover have "index_of (rb_schema b) (pks ! j) = Some (c j)
     \<and> (arr_type (rb_columns b ! c j) = DInt32 \<or> arr_type (rb_columns b ! c j) = DInt64)"
    if "j < length pks" for j using assms[OF that] by (auto simp: c_def)
  ultimately show ?thesis using cells by (auto simp: holds_keys_def keys_def intro!: exI[of _ keys])
qed

subsection \<open>Key arrays\<close>

definition fits_i32 :: "int \<Rightarrow> bool" where
  "fits_i32 v \<longleftrightarrow> - (2 ^ 31) \<le> v \<and> v < 2 ^ 31"

lemma wrap_i32_fits: "fits_i32 v \<Longrightarrow> wrap_i32 v = v"
  by (simp add: wrap_i32_def fits_i32_def)

lemma build_pk_array_ok:
  assumes "\<And>k. k \<in> set keys \<Longrightarrow> key_wf n k" "j < n" "dt = DInt32 \<or> dt = DInt64"
    "dt = DInt32 \<Longrightarrow> \<forall>k \<in> set keys. fits_i32 (key_vals k ! j)"
  shows "build_pk_array keys j dt = Some \<lparr>arr_type = dt, arr_cells = key_cells j keys\<rparr>"
proof -
  have "those (map (key_component j) keys) = Some (map (\<lambda>k. key_vals k ! j) keys)"
    by (rule those_map_Some) (use assms key_component_wf in blast)
  then show ?thesis using assms(3,4) by (auto simp: build_pk_array_def key_cells_def wrap_i32_fits)
qed

subsection \<open>Random arrays\<close>

lemma draw_n_length: "draw_n n f r = (xs, r') \<Longrightarrow> length xs = n"
  by (induction n arbitrary: r xs r') (auto split: prod.splits)

lemma draw_n_all:
  "(\<And>r. P (fst (f r))) \<Longrightarrow> draw_n n f r = (xs, r') \<Longrightarrow> \<forall>x \<in> set xs. P x"
  by (induction n arbitrary: r xs r') (auto split: prod.splits, metis fst_conv)

text \<open>The column types \<open>build_random_array\<close> can fill with values of the same type.\<close>

fun random_ok :: "data_type \<Rightarrow> bool" where
  "random_ok DInt32 = True"
| "random_ok DInt64 = True"
| "random_ok DUtf8 = True"
| "random_ok DUtf8View = True"
| "random_ok DDate32 = True"
| "random_ok (DDecimal128 p sc) = (0 \<le> sc \<and> sc < int p \<and> p \<le> 38)"
| "random_ok _ = False"

definition with_ps_spec :: "(nat \<Rightarrow> int \<Rightarrow> array \<Rightarrow> array result) \<Rightarrow> bool" where
  "with_ps_spec f \<longleftrightarrow> (\<forall>p sc a. 0 < p \<longrightarrow> p \<le> 38 \<longrightarrow> sc \<le> int p \<longrightarrow>
     f p sc a = Inr (a\<lparr>arr_type := DDecimal128 p sc\<rparr>))"

lemma random_decimal_lt:
  assumes "whole < 10 ^ min d 4" "fraction < 10 ^ min sc 4" "d = p - sc" "sc < p"
  shows "(whole * 10 ^ min sc 4 + fraction) * 10 ^ (sc - min sc 4) < (10 :: nat) ^ p"
proof -
  have "whole * 10 ^ min sc 4 + fraction < (whole + 1) * 10 ^ min sc 4" using assms(2) by simp
  also have "\<dots> \<le> 10 ^ min d 4 * 10 ^ min sc 4" using assms(1) by (intro mult_right_mono) simp_all
  finally have "(whole * 10 ^ min sc 4 + fraction) * 10 ^ (sc - min sc 4)
      < 10 ^ min d 4 * 10 ^ min sc 4 * 10 ^ (sc - min sc 4)" by (intro mult_strict_right_mono) simp_all
  also have "\<dots> = 10 ^ (min d 4 + sc)" by (simp add: power_add[symmetric])
  also have "\<dots> \<le> 10 ^ p" using assms(3,4) by (intro power_increasing) simp_all
  finally show ?thesis .
qed

lemma random_decimals_ok:
  assumes rr: "rng_in_range (te_rr E)" and ps: "with_ps_spec (te_with_precision_and_scale E)"
    and sc: "0 \<le> sc" "sc < int p" "p \<le> 38"
  shows "\<exists>vs r'. random_decimals E p sc n r
     = Some (Inr \<lparr>arr_type = DDecimal128 p sc, arr_cells = map (\<lambda>v. Some (CInt (int v))) vs\<rparr>, r')
     \<and> length vs = n \<and> (\<forall>v \<in> set vs. v < 10 ^ p)"
proof -
  obtain s where s: "sc = int s" using sc(1) nonneg_int_cases by blast
  have sp: "s < p" using sc(2) s by simp
  have p8: "as_i8 p = int p" using sc(3) by (simp add: as_i8_def)
  have dig: "nat (max (int p - int s) 1) = p - s" "nat (int p - int s) = p - s" using sp by simp_all
  have big: "(10::nat) ^ p \<le> i128_max"
    using power_increasing[OF sc(3), of "10::nat"] by simp
  have pad: "(10::nat) ^ (s - min s 4) \<le> i128_max"
    using power_increasing[of "s - min s 4" p "10::nat"] sp big by linarith
  define one where "one = (\<lambda>r. case te_rr E r 0 (10 ^ min (p - s) 4) of (whole, r1) \<Rightarrow>
      (case te_rr E r1 0 (10 ^ min s 4) of (fraction, r2) \<Rightarrow>
         ((whole * 10 ^ min s 4 + fraction) * 10 ^ (s - min s 4), r2)))"
  have draw: "fst (te_rr E r 0 (10 ^ k)) < 10 ^ k" for r k
    using rr by (simp add: rng_in_range_def)
  have lt: "fst (one r) < 10 ^ p" for r
    using random_decimal_lt[OF _ _ refl sp, of "fst (te_rr E r 0 (10 ^ min (p - s) 4))"] draw
    by (simp add: one_def split_beta)
  obtain vs r' where vs: "draw_n n one r = (vs, r')" by (cases "draw_n n one r")
  have all: "\<forall>v \<in> set vs. v < 10 ^ p" using draw_n_all[where P = "\<lambda>v. v < 10 ^ p", OF lt vs] .
  then have "\<not> list_ex (\<lambda>v. i128_max < v) vs" using big by (fastforce simp: list_ex_iff)
  then have "random_decimals E p sc n r = Some (te_with_precision_and_scale E p sc
      \<lparr>arr_type = DDecimal128 38 10, arr_cells = map (\<lambda>v. Some (CInt (int v))) vs\<rparr>, r')"
    using pad vs sp unfolding random_decimals_def Let_def s p8 one_def by (simp add: dig)
  then show ?thesis using ps sc sp all draw_n_length[OF vs] by (auto simp: with_ps_spec_def)
qed

lemma random_ints_ok:
  "\<exists>a r'. random_ints E dt n lo hi r = (a, r') \<and> arr_type a = dt \<and> length (arr_cells a) = n"
  by (cases "draw_n n (\<lambda>r. te_rr E r lo hi) r") (auto simp: random_ints_def dest: draw_n_length)

lemma random_strings_ok:
  "\<exists>a r'. random_strings E dt n r = (a, r') \<and> arr_type a = dt \<and> length (arr_cells a) = n"
  by (cases "draw_n n (random_alphanumeric_string (te_rr E) 10) r")
    (auto simp: random_strings_def dest: draw_n_length)

lemma build_random_array_ok:
  assumes "rng_in_range (te_rr E)" "with_ps_spec (te_with_precision_and_scale E)" "random_ok dt"
  shows "\<exists>a r'. build_random_array E n dt r = Some (Inr a, r') \<and> arr_type a = dt \<and> length (arr_cells a) = n"
proof (cases "\<exists>p sc. dt = DDecimal128 p sc")
  case True
  then obtain p sc where dt: "dt = DDecimal128 p sc" by blast
  then obtain vs r' where "random_decimals E p sc n r
      = Some (Inr \<lparr>arr_type = DDecimal128 p sc, arr_cells = map (\<lambda>v. Some (CInt (int v))) vs\<rparr>, r')"
    "length vs = n"
    using random_decimals_ok[OF assms(1,2), of sc p n r] assms(3) by auto
  then show ?thesis by (simp add: build_random_array_def dt)
next
  case False
  then have "dt = DInt32 \<or> dt = DInt64 \<or> dt = DUtf8 \<or> dt = DUtf8View \<or> dt = DDate32"
    using assms(3) by (cases dt) auto
  then consider (ints) lo hi where "build_random_array E n dt r = Some (apfst Inr (random_ints E dt n lo hi r))"
    | (strings) "build_random_array E n dt r = Some (apfst Inr (random_strings E dt n r))"
    by (auto simp: build_random_array_def)
  then show ?thesis
  proof cases
    case ints
    obtain a r' where "random_ints E dt n lo hi r = (a, r')" "arr_type a = dt" "length (arr_cells a) = n"
      using random_ints_ok[of E dt n lo hi r] by blast
    then show ?thesis using ints by simp
  next
    case strings
    obtain a r' where "random_strings E dt n r = (a, r')" "arr_type a = dt" "length (arr_cells a) = n"
      using random_strings_ok[of E dt n r] by blast
    then show ?thesis using strings by simp
  qed
qed

lemma random_alphanumeric_string_charset:
  assumes "rng_in_range rr" "random_alphanumeric_string rr n r = (str, r')"
  shows "length str = n \<and> set str \<subseteq> set CHARSET"
proof -
  let ?f = "\<lambda>r. case rr r 0 (length CHARSET) of (i, r') \<Rightarrow> (CHARSET ! i, r')"
  have "0 < length CHARSET" by (simp add: CHARSET_def)
  then have "fst (rr r 0 (length CHARSET)) < length CHARSET" for r
    using assms(1) by (simp add: rng_in_range_def)
  then have "fst (?f r) \<in> set CHARSET" for r by (simp add: split_beta)
  then have "\<forall>c \<in> set str. c \<in> set CHARSET"
    using assms(2) unfolding random_alphanumeric_string_def by (rule draw_n_all)
  then show ?thesis using draw_n_length[OF assms(2)[unfolded random_alphanumeric_string_def]] by blast
qed

subsection \<open>Round trip of the keys and range of the random decimals\<close>

fun int_cell :: "data_type \<Rightarrow> cell option \<Rightarrow> bool" where
  "int_cell dt (Some (CInt v)) = (dt = DInt32 \<longrightarrow> fits_i32 v)"
| "int_cell dt _ = False"

lemma int_cell_iff: "int_cell dt x \<longleftrightarrow> (\<exists>v. x = Some (CInt v) \<and> (dt = DInt32 \<longrightarrow> fits_i32 v))"
  by (cases "(dt, x)" rule: int_cell.cases) auto

definition int_key_column :: "record_batch \<Rightarrow> string \<Rightarrow> bool" where
  "int_key_column b name \<longleftrightarrow> (case index_of (rb_schema b) name of None \<Rightarrow> False
     | Some c \<Rightarrow> (arr_type (rb_columns b ! c) = DInt32 \<or> arr_type (rb_columns b ! c) = DInt64)
         \<and> length (arr_cells (rb_columns b ! c)) = rb_num_rows b
         \<and> list_all (int_cell (arr_type (rb_columns b ! c))) (arr_cells (rb_columns b ! c)))"

lemma int_key_columnD:
  assumes "int_key_column b name"
  obtains c where "index_of (rb_schema b) name = Some c"
    "arr_type (rb_columns b ! c) = DInt32 \<or> arr_type (rb_columns b ! c) = DInt64"
    "length (arr_cells (rb_columns b ! c)) = rb_num_rows b"
    "\<And>x. x \<in> set (arr_cells (rb_columns b ! c)) \<Longrightarrow>
       \<exists>v. x = Some (CInt v) \<and> (arr_type (rb_columns b ! c) = DInt32 \<longrightarrow> fits_i32 v)"
proof -
  from assms obtain c where c: "index_of (rb_schema b) name = Some c" by (auto simp: int_key_column_def split: option.splits)
  have "\<exists>v. x = Some (CInt v) \<and> (arr_type (rb_columns b ! c) = DInt32 \<longrightarrow> fits_i32 v)"
    if "x \<in> set (arr_cells (rb_columns b ! c))" for x
    using assms that by (simp add: int_key_column_def c list_all_iff int_cell_iff)
  then show thesis using that c assms by (auto simp: int_key_column_def)
qed

text \<open>
  C28. Extracting the primary keys of a batch and building key columns from them gives back the
  batch's key columns, for single and composite keys of 32- and 64-bit integer columns
  (the narrowing back to 32 bits loses nothing).
\<close>

theorem pk_columns_roundtrip:
  assumes "\<forall>name \<in> set pks. int_key_column b name"
  shows "\<exists>keys. extract_pk_values E b pks = Some (Inr keys) \<and> length keys = rb_num_rows b
     \<and> (\<forall>j < length pks. \<forall>c. index_of (rb_schema b) (pks ! j) = Some c \<longrightarrow>
          build_pk_array keys j (arr_type (rb_columns b ! c)) = Some (rb_columns b ! c))"
proof -
  have "\<exists>c. index_of (rb_schema b) (pks ! j) = Some c
     \<and> (arr_type (rb_columns b ! c) = DInt32 \<or> arr_type (rb_columns b ! c) = DInt64)
     \<and> length (arr_cells (rb_columns b ! c)) = rb_num_rows b
     \<and> (\<forall>x \<in> set (arr_cells (rb_columns b ! c)). \<exists>v. x = Some (CInt v))" if "j < length pks" for j
    by (rule int_key_columnD[of b "pks ! j"]) (use assms nth_mem[OF that] in auto)
  then obtain keys where keys: "holds_keys b pks keys" using holds_keys_exists by blast
  have "build_pk_array keys j (arr_type (rb_columns b ! c)) = Some (rb_columns b ! c)"
    if j: "j < length pks" and c: "index_of (rb_schema b) (pks ! j) = Some c" for j c
  proof -
    have cells: "arr_cells (rb_columns b ! c) = key_cells j keys"
      "arr_type (rb_columns b ! c) = DInt32 \<or> arr_type (rb_columns b ! c) = DInt64"
      using keys j c by (auto simp: holds_keys_def)
    have fit: "\<forall>k \<in> set keys. fits_i32 (key_vals k ! j)" if d: "arr_type (rb_columns b ! c) = DInt32"
    proof
      fix k assume "k \<in> set keys"
      then have "Some (CInt (key_vals k ! j)) \<in> set (arr_cells (rb_columns b ! c))" by (simp add: cells key_cells_def)
      then show "fits_i32 (key_vals k ! j)"
        using int_key_columnD[of b "pks ! j"] assms nth_mem[OF j] c d by (metis cell.inject(1) option.inject)
    qed
    have "build_pk_array keys j (arr_type (rb_columns b ! c))
        = Some \<lparr>arr_type = arr_type (rb_columns b ! c), arr_cells = key_cells j keys\<rparr>"
      using keys j cells(2) fit by (intro build_pk_array_ok[where n = "length pks"]) (auto simp: holds_keys_def)
    then show ?thesis by (simp flip: cells(1))
  qed
  then show ?thesis using extract_pk_values_holds[OF keys] keys by (auto simp: holds_keys_def)
qed

definition demo_key_batch :: record_batch where
  "demo_key_batch = \<lparr>rb_schema = [\<lparr>fld_name = ''a'', fld_type = DInt32, fld_nullable = False\<rparr>,
       \<lparr>fld_name = ''b'', fld_type = DInt64, fld_nullable = False\<rparr>],
     rb_columns = [\<lparr>arr_type = DInt32, arr_cells = [Some (CInt (-7)), Some (CInt 12)]\<rparr>,
       \<lparr>arr_type = DInt64, arr_cells = [Some (CInt (2 ^ 40)), Some (CInt 3)]\<rparr>],
     rb_num_rows = 2\<rparr>"

definition demo_arrays_env :: "nat tpch_env" where
  "demo_arrays_env = \<lparr>te_gen = (\<lambda>_ _ _ _ _. None), te_schema = (\<lambda>_. []), te_concat = (\<lambda>_. Inl ''unused''),
     te_with_precision_and_scale = (\<lambda>p sc a. Inr (a\<lparr>arr_type := DDecimal128 p sc\<rparr>)),
     te_null_i64 = 0, te_rr = cycle_rng, te_hash = sorted_list_of_set\<rparr>"

theorem pk_columns_roundtrip_witness:
  "\<exists>keys. extract_pk_values demo_arrays_env demo_key_batch [''a'', ''b''] = Some (Inr keys)
     \<and> length keys = rb_num_rows demo_key_batch
     \<and> (\<forall>j < length [''a'', ''b'']. \<forall>c. index_of (rb_schema demo_key_batch) ([''a'', ''b''] ! j) = Some c \<longrightarrow>
          build_pk_array keys j (arr_type (rb_columns demo_key_batch ! c)) = Some (rb_columns demo_key_batch ! c))"
  by (rule pk_columns_roundtrip) (simp add: int_key_column_def demo_key_batch_def fits_i32_def)

text \<open>
  Random decimals for update rows are produced for every precision up to 38 and every smaller
  non-negative scale, without overflow of the 128-bit product, and every value fits the
  declared precision.
\<close>

theorem random_decimals_fit:
  assumes "rng_in_range (te_rr E)" and "with_ps_spec (te_with_precision_and_scale E)"
    and "0 \<le> sc" and "sc < int p" and "p \<le> 38"
  shows "\<exists>vs r'. build_random_array E n (DDecimal128 p sc) r
     = Some (Inr \<lparr>arr_type = DDecimal128 p sc, arr_cells = map (\<lambda>v. Some (CInt (int v))) vs\<rparr>, r')
     \<and> length vs = n \<and> (\<forall>v \<in> set vs. v < 10 ^ p)"
  using random_decimals_ok[OF assms] by (simp add: build_random_array_def)

theorem random_decimals_fit_witness:
  "\<exists>vs r'. build_random_array demo_arrays_env 3 (DDecimal128 15 2) 0
     = Some (Inr \<lparr>arr_type = DDecimal128 15 2, arr_cells = map (\<lambda>v. Some (CInt (int v))) vs\<rparr>, r')
     \<and> length vs = 3 \<and> (\<forall>v \<in> set vs. v < 10 ^ 15)"
  by (rule random_decimals_fit) (simp_all add: demo_arrays_env_def cycle_rng_in_range with_ps_spec_def)

end
