(* ===== verification/Tpch.thy ===== *)
theory Tpch
  imports TpchArrays
begin

text \<open>
  \<^verbatim>\<open>crates/data-generation/src/dataset/tpch.rs\<close>, the \<^verbatim>\<open>TpchDataset\<close>: per-table step counters and
  key sets, and one operation counter shared by all tables. A call of \<^verbatim>\<open>raw_next_batch\<close> is one
  transition of the record; panics are \<open>None\<close>.
\<close>

record tpch_dataset =
  tp_scale_factor :: f64
  tp_num_steps :: nat
  tp_mutations :: MutationConfig
  tp_table_steps :: "string \<rightharpoonup> nat"
  tp_key_sets :: "string \<rightharpoonup> PrimaryKeyValue indexed_key_set"
  tp_op_counter :: int

definition tp_new :: "DatasetConfig \<Rightarrow> MutationConfig \<Rightarrow> tpch_dataset" where
  "tp_new config mutations = \<lparr>
     tp_scale_factor = dc_scale_factor config,
     tp_num_steps = dc_num_steps config,
     tp_mutations = mutations,
     tp_table_steps = map_of (map (\<lambda>(name, _). (name, 0)) TPCH_TABLES),
     tp_key_sets = map_of (map (\<lambda>(name, _). (name, ks_new)) TPCH_TABLES),
     tp_op_counter = 0\<rparr>"

definition tp_primary_key :: "string \<Rightarrow> string list" where
  "tp_primary_key table =
     (if table = ''region'' then [''r_regionkey'']
      else if table = ''nation'' then [''n_nationkey'', ''n_regionkey'']
      else if table = ''supplier'' then [''s_suppkey'', ''s_nationkey'']
      else if table = ''customer'' then [''c_custkey'', ''c_nationkey'']
      else if table = ''part'' then [''p_partkey'']
      else if table = ''partsupp'' then [''ps_partkey'', ''ps_suppkey'']
      else if table = ''orders'' then [''o_orderkey'']
      else if table = ''lineitem'' then [''l_orderkey'', ''l_linenumber'']
      else [])"

definition tp_partition_columns :: "string \<Rightarrow> string list" where
  "tp_partition_columns table =
     (if table = ''lineitem'' then [''bucket(10, l_linenumber)'']
      else if table = ''orders'' then [''bucket(10, o_orderkey)'']
      else if table = ''partsupp'' then [''bucket(10, ps_partkey)'']
      else if table = ''part'' then [''bucket(10, p_partkey)'']
      else if table = ''supplier'' then [''s_nationkey'']
      else if table = ''customer'' then [''bucket(5, c_nationkey)'']
      else if table = ''nation'' then [''n_regionkey'']
      else if table = ''region'' then [''r_regionkey'']
      else [])"

definition tp_num_batches :: "tpch_dataset \<Rightarrow> string \<Rightarrow> nat" where
  "tp_num_batches s table =
     (if table \<notin> set (map fst TPCH_TABLES) then 0
      else if is_dim table then 1
      else if bootstrap (tp_mutations s)
      then tp_num_steps s + num_mutation_steps (tp_mutations s)
      else tp_num_steps s)"

definition tp_tables :: "'r tpch_env \<Rightarrow> string \<rightharpoonup> DatasetTable" where
  "tp_tables E table =
     (case map_of TPCH_TABLES table of
        None \<Rightarrow> None
      | Some time_col \<Rightarrow>
          map_option (\<lambda>sch. \<lparr>dt_name = table, dt_schema = sch, dt_time_column = time_col\<rparr>)
            (tpch_schema E table))"

subsection \<open>How many updates and deletes\<close>

definition tp_total_steps :: "tpch_dataset \<Rightarrow> string \<Rightarrow> nat" where
  "tp_total_steps s table =
     (if bootstrap (tp_mutations s) \<and> \<not> is_dim table
      then min (tp_num_steps s + num_mutation_steps (tp_mutations s)) 65535
      else if is_dim table then 1
      else tp_num_steps s)"

definition tp_jitter :: "'r random_range \<Rightarrow> nat \<Rightarrow> 'r \<Rightarrow> nat \<times> 'r" where
  "tp_jitter rr base r =
     (if base = 0 then (0, r)
      else let lo = f64_as_usize (f64_mul (f64_of_nat base) (3 / 4));
               hi = f64_ceil_usize (f64_mul (f64_of_nat base) (5 / 4))
           in rr r lo (max hi lo + 1))"

definition tp_churn :: "MutationConfig \<Rightarrow> nat \<Rightarrow> nat \<times> nat" where
  "tp_churn m existing_count =
     (let steps = f64_of_nat (max (num_mutation_steps m) 1);
          per_step = f64_round_usize
            (f64_div (f64_mul (f64_of_nat existing_count) (churn_fraction m)) steps);
          ratio_total = f64_add (update_ratio m) (delete_ratio m);
          upd_weight = (if ratio_total > 0 then f64_div (update_ratio m) ratio_total else 1);
          num_updates = f64_round_usize (f64_mul (f64_of_nat per_step) upd_weight)
      in (num_updates, per_step - num_updates))"

definition tp_plan_counts ::
  "'r random_range \<Rightarrow> MutationConfig \<Rightarrow> bool \<Rightarrow> nat \<Rightarrow> nat \<Rightarrow> 'r \<Rightarrow> (nat \<times> nat) \<times> 'r" where
  "tp_plan_counts rr m in_mutation_phase num_creates existing_count r =
     (let plan_mutations = (\<not> (bootstrap m \<and> \<not> in_mutation_phase))
      in if \<not> plan_mutations then ((0, 0), r)
         else if in_mutation_phase then (tp_churn m existing_count, r)
         else let base_updates = f64_round_usize (f64_mul (f64_of_nat num_creates) (update_ratio m));
                  base_deletes = f64_round_usize (f64_mul (f64_of_nat num_creates) (delete_ratio m))
              in case tp_jitter rr base_updates r of
                   (num_updates, r1) \<Rightarrow>
                 (case tp_jitter rr base_deletes r1 of
                    (num_deletes, r2) \<Rightarrow> ((num_updates, num_deletes), r2)))"

definition tp_cap :: "nat \<Rightarrow> nat \<times> nat \<Rightarrow> nat \<times> nat" where
  "tp_cap existing_count counts =
     (case counts of (num_updates, num_deletes) \<Rightarrow>
        if num_updates + num_deletes > existing_count
        then let scale = f64_div (f64_of_nat existing_count) (f64_of_nat (max (num_updates + num_deletes) 1))
             in (f64_as_usize (f64_mul (f64_of_nat num_updates) scale),
                 f64_as_usize (f64_mul (f64_of_nat num_deletes) scale))
        else (num_updates, num_deletes))"

subsection \<open>The stages of a call\<close>

text \<open>
  The raw rows of the step: the generator's part in the base phase, nothing in the mutation
  phase. The outer \<open>None\<close> is the panic on a table the generator does not know.
\<close>

definition tp_creates_batch ::
  "'r tpch_env \<Rightarrow> tpch_dataset \<Rightarrow> string \<Rightarrow> nat \<Rightarrow> bool \<Rightarrow> record_batch option option" where
  "tp_creates_batch E s table current_step in_mutation_phase =
     (if in_mutation_phase then Some None
      else map_option Some
        (if is_dim table then generate_raw_batch E table (tp_scale_factor s) 1 1
         else generate_raw_batch E table (tp_scale_factor s) (current_step + 1) (tp_num_steps s)))"

text \<open>
  Under the table's lock: register the created keys, size the mutations, sample distinct keys
  and drop the deleted ones.
\<close>

record tpch_plan =
  pn_num_updates :: nat
  pn_num_deletes :: nat
  pn_update_keys :: "PrimaryKeyValue list"
  pn_delete_keys :: "PrimaryKeyValue list"

definition tp_plan_mutations ::
  "'r tpch_env \<Rightarrow> MutationConfig \<Rightarrow> bool \<Rightarrow> PrimaryKeyValue list \<Rightarrow> nat
     \<Rightarrow> PrimaryKeyValue indexed_key_set \<Rightarrow> 'r
     \<Rightarrow> (tpch_plan \<times> PrimaryKeyValue indexed_key_set \<times> 'r) option" where
  "tp_plan_mutations E m in_mutation_phase create_pks num_creates ks0 r =
     (let ks = insert_all ks_insert ks0 create_pks;
          existing_count = ks_len ks
      in case tp_plan_counts (te_rr E) m in_mutation_phase num_creates existing_count r of
           (counts, r1) \<Rightarrow>
         (case tp_cap existing_count counts of
            (num_updates, num_deletes) \<Rightarrow>
          (case ks_sample_keys (te_rr E) (te_hash E) ks (num_updates + num_deletes) r1 of
             None \<Rightarrow> None
           | Some (mutation_keys, r2) \<Rightarrow>
               if num_updates > length mutation_keys then None
               else let update_keys = take num_updates mutation_keys;
                        delete_keys = drop num_updates mutation_keys
                    in map_option (\<lambda>ks'. (\<lparr>pn_num_updates = num_updates, pn_num_deletes = num_deletes,
                          pn_update_keys = update_keys, pn_delete_keys = delete_keys\<rparr>, ks', r2))
                        (remove_all ks_remove ks delete_keys))))"

fun position_of :: "string list \<Rightarrow> string \<Rightarrow> nat option" where
  "position_of [] name = None"
| "position_of (n # ns) name = (if n = name then Some 0 else map_option Suc (position_of ns name))"

text \<open>One native column: created cells, then update cells, then delete cells.\<close>

definition tp_column ::
  "'r tpch_env \<Rightarrow> record_batch option \<Rightarrow> string list \<Rightarrow> tpch_plan \<Rightarrow> nat \<Rightarrow> field \<Rightarrow> 'r
     \<Rightarrow> (array result \<times> 'r) option" where
  "tp_column E creates_batch pk_columns p col_idx fld r =
     Option.bind
       (case creates_batch of
          Some b \<Rightarrow> if col_idx < length (rb_columns b) then Some (rb_columns b ! col_idx) else None
        | None \<Rightarrow> Some (new_empty_array (fld_type fld))) (\<lambda>creates_col.
     let pk_col_position = position_of pk_columns (fld_name fld)
     in Option.bind
       (case pk_col_position of
          Some pk_pos \<Rightarrow> map_option (\<lambda>a. (Inr a, r)) (build_pk_array (pn_update_keys p) pk_pos (fld_type fld))
        | None \<Rightarrow> build_random_array E (pn_num_updates p) (fld_type fld) r) (\<lambda>(update_res, r1).
     case update_res of
       Inl e \<Rightarrow> Some (Inl e, r1)
     | Inr update_arr \<Rightarrow>
         map_option (\<lambda>delete_arr. (te_concat E [creates_col, update_arr, delete_arr], r1))
           (case pk_col_position of
              Some pk_pos \<Rightarrow> build_pk_array (pn_delete_keys p) pk_pos (fld_type fld)
            | None \<Rightarrow> Some (new_null_array (fld_type fld) (pn_num_deletes p)))))"

fun tp_columns ::
  "'r tpch_env \<Rightarrow> record_batch option \<Rightarrow> string list \<Rightarrow> tpch_plan \<Rightarrow> nat \<Rightarrow> field list \<Rightarrow> 'r
     \<Rightarrow> (array list result \<times> 'r) option" where
  "tp_columns E cb pks p i [] r = Some (Inr [], r)"
| "tp_columns E cb pks p i (f # fs) r =
     Option.bind (tp_column E cb pks p i f r) (\<lambda>(res, r1).
       case res of
         Inl e \<Rightarrow> Some (Inl e, r1)
       | Inr a \<Rightarrow>
           map_option (\<lambda>(rest, r2). (and_then rest (\<lambda>cols. Inr (a # cols)), r2))
             (tp_columns E cb pks p (Suc i) fs r1))"

definition op_column :: "nat \<Rightarrow> nat \<Rightarrow> nat \<Rightarrow> array" where
  "op_column num_creates num_updates num_deletes =
     \<lparr>arr_type = DUtf8, arr_cells = map (\<lambda>op. Some (CStr op))
        (replicate num_creates ''c'' @ replicate num_updates ''u'' @ replicate num_deletes ''d'')\<rparr>"

definition op_index_column :: "int \<Rightarrow> nat \<Rightarrow> array" where
  "op_index_column op_base total_rows =
     \<lparr>arr_type = DInt64, arr_cells = map (\<lambda>i. Some (CInt (op_base + int i))) [0..<total_rows]\<rparr>"

text \<open>The combined batch, once the range of operation indices is reserved.\<close>

definition tp_build_batch ::
  "'r tpch_env \<Rightarrow> kernels \<Rightarrow> string \<Rightarrow> record_batch option \<Rightarrow> nat \<Rightarrow> tpch_plan \<Rightarrow> int \<Rightarrow> 'r
     \<Rightarrow> (record_batch option result \<times> 'r) option" where
  "tp_build_batch E K table creates_batch num_creates p op_base r =
     (case tpch_schema E table of
        None \<Rightarrow> None
      | Some sch \<Rightarrow>
          let total_rows = num_creates + pn_num_updates p + pn_num_deletes p;
              native_field_count = length sch - 2
          in map_option (\<lambda>(res, r').
               (and_then res (\<lambda>columns.
                  and_then (k_try_new K sch (columns @
                    [op_column num_creates (pn_num_updates p) (pn_num_deletes p),
                     op_index_column op_base total_rows])) (\<lambda>b. Inr (Some b))), r'))
             (tp_columns E creates_batch (tp_primary_key table) p 0 (take native_field_count sch) r))"

definition tp_emit ::
  "'r tpch_env \<Rightarrow> kernels \<Rightarrow> tpch_dataset \<Rightarrow> string \<Rightarrow> bool \<Rightarrow> record_batch option
     \<Rightarrow> PrimaryKeyValue list \<Rightarrow> PrimaryKeyValue indexed_key_set \<Rightarrow> 'r
     \<Rightarrow> (record_batch option result \<times> tpch_dataset \<times> 'r) option" where
  "tp_emit E K s table in_mutation_phase creates_batch create_pks ks r =
     (let num_creates = (case creates_batch of Some b \<Rightarrow> rb_num_rows b | None \<Rightarrow> 0)
      in Option.bind (tp_plan_mutations E (tp_mutations s) in_mutation_phase create_pks num_creates ks r)
         (\<lambda>(p, ks', r1).
           let s1 = s\<lparr>tp_key_sets := (tp_key_sets s)(table \<mapsto> ks')\<rparr>;
               total_rows = num_creates + pn_num_updates p + pn_num_deletes p
           in if total_rows = 0 then Some (Inr None, s1, r1)
              else let op_base = tp_op_counter s1;
                       s2 = s1\<lparr>tp_op_counter := op_base + int total_rows\<rparr>
                   in map_option (\<lambda>(res, r2). (res, s2, r2))
                        (tp_build_batch E K table creates_batch num_creates p op_base r1)))"

definition tp_raw_next_batch ::
  "'r tpch_env \<Rightarrow> kernels \<Rightarrow> tpch_dataset \<Rightarrow> string \<Rightarrow> 'r
     \<Rightarrow> (record_batch option result \<times> tpch_dataset \<times> 'r) option" where
  "tp_raw_next_batch E K s table r =
     (case tp_table_steps s table of
        None \<Rightarrow> Some (Inl (''Unknown TPC-H table: '' @ table), s, r)
      | Some current_step \<Rightarrow>
        let s0 = s\<lparr>tp_table_steps := (tp_table_steps s)(table \<mapsto> (current_step + 1) mod 65536)\<rparr>;
            total_steps = tp_total_steps s table
        in if current_step \<ge> total_steps then Some (Inr None, s0, r)
           else
             let in_mutation_phase =
                   (bootstrap (tp_mutations s) \<and> \<not> is_dim table \<and> current_step \<ge> tp_num_steps s)
             in case tp_key_sets s table of
                  None \<Rightarrow> Some (Inl (''No key set for table: '' @ table), s0, r)
                | Some ks \<Rightarrow>
                  Option.bind (tp_creates_batch E s table current_step in_mutation_phase) (\<lambda>cb.
                    case cb of
                      None \<Rightarrow> tp_emit E K s0 table in_mutation_phase None [] ks r
                    | Some b \<Rightarrow>
                        if rb_num_rows b = 0 then Some (Inr None, s0, r)
                        else Option.bind (extract_pk_values E b (tp_primary_key table)) (\<lambda>res.
                          case res of
                            Inl e \<Rightarrow> Some (Inl e, s0, r)
                          | Inr create_pks \<Rightarrow>
                              tp_emit E K s0 table in_mutation_phase (Some b) create_pks ks r)))"

subsection \<open>Mutation counts stay within the live keys\<close>

definition mutations_ok :: "MutationConfig \<Rightarrow> bool" where
  "mutations_ok m \<longleftrightarrow> ratios_ok m \<and> 0 \<le> churn_fraction m \<and> churn_fraction m \<le> 1
     \<and> num_mutation_steps m \<le> 65535"

lemma tp_jitter_le:
  assumes rr: "rng_in_range rr" and base: "base \<le> 2 ^ 24"
  shows "fst (tp_jitter rr base r) \<le> 2 ^ 25"
proof (cases "base = 0")
  case True
  then show ?thesis by (simp add: tp_jitter_def)
next
  case False
  let ?b = "of_nat base :: rat"
  have b: "base < 2 ^ 53" using base by simp
  let ?lo = "f64_as_usize (f64_mul (f64_of_nat base) (3 / 4))"
  let ?hi = "f64_ceil_usize (f64_mul (f64_of_nat base) (5 / 4))"
  have pos: "0 \<le> ?b" by simp
  have "f64_round (?b * (5 / 4)) \<le> ?b * (5 / 4) * (1 + 1 / 2 ^ 53)" by (rule f64_round_upper) simp
  also have "\<dots> \<le> 2 * ?b" using pos by simp
  finally have "f64_round (?b * (5 / 4)) \<le> of_int (2 * int base)" by simp
  then have "\<lceil>f64_round (?b * (5 / 4))\<rceil> \<le> 2 * int base" by (simp only: ceiling_le_iff)
  then have hi: "?hi \<le> 2 * base"
    unfolding f64_ceil_usize_def f64_mul_def f64_of_nat_exact[OF b] by linarith
  have "f64_round (?b * (3 / 4)) \<le> ?b * (3 / 4) * (1 + 1 / 2 ^ 53)" by (rule f64_round_upper) simp
  also have "\<dots> < 2 * ?b + 1" using pos by simp
  finally have "f64_round (?b * (3 / 4)) < of_int (2 * int base + 1)" by simp
  then have "\<lfloor>f64_round (?b * (3 / 4))\<rfloor> < 2 * int base + 1" by (simp only: floor_less_iff)
  then have lo: "?lo \<le> 2 * base"
    unfolding f64_as_usize_def f64_mul_def f64_of_nat_exact[OF b] by linarith
  have "fst (rr r ?lo (max ?hi ?lo + 1)) < max ?hi ?lo + 1"
    using rr by (simp add: rng_in_range_def)
  then have "fst (rr r ?lo (max ?hi ?lo + 1)) \<le> 2 * base" using hi lo by linarith
  then show ?thesis using False base by (simp add: tp_jitter_def Let_def)
qed

text \<open>A product or quotient within one rounding of a count rounds to at most the count.\<close>

lemma round_scaled_le:
  assumes "0 \<le> x" "x \<le> of_nat n * (1 + 1 / 2 ^ 50)" "n \<le> 2 ^ 45"
  shows "f64_round_usize (f64_round x) \<le> n"
proof (rule f64_round_usize_le)
  have "(of_nat n :: rat) \<le> of_nat (2 ^ 45)" using assms(3) by (simp only: of_nat_le_iff)
  then have n: "(of_nat n :: rat) \<le> 2 ^ 45" by simp
  have "f64_round x \<le> x * (1 + 1 / 2 ^ 53)" using assms(1) by (rule f64_round_upper)
  also have "\<dots> \<le> of_nat n * (1 + 1 / 2 ^ 50) * (1 + 1 / 2 ^ 53)"
    using assms(2) by (intro mult_right_mono) simp_all
  also have "\<dots> < of_nat n + 1 / 2" using n by (simp add: algebra_simps)
  finally show "f64_round x < of_nat n + 1 / 2" .
qed

lemma upd_weight_le:
  assumes "0 \<le> u" "0 \<le> d" "0 < f64_add u d"
  shows "0 \<le> f64_div u (f64_add u d)" "f64_div u (f64_add u d) \<le> 1 + 1 / 2 ^ 51"
proof -
  define t where "t = f64_round (u + d)"
  have t: "0 < t" "(u + d) * (1 - 1 / 2 ^ 53) \<le> t"
    using assms(3) f64_round_lower[of "u + d"] assms(1,2) by (simp_all add: f64_add_def t_def)
  show "0 \<le> f64_div u (f64_add u d)"
    using t(1) assms(1) by (simp add: f64_div_def f64_add_def t_def[symmetric] f64_round_nonneg)
  have "u * (1 - 1 / 2 ^ 53) \<le> (u + d) * (1 - 1 / 2 ^ 53)" using assms(2) by (intro mult_right_mono) simp_all
  then have "u * (1 - 1 / 2 ^ 53) \<le> t" using t(2) by linarith
  then have q: "u / t \<le> 1 / (1 - 1 / 2 ^ 53)" using t(1) by (simp add: field_simps)
  have "f64_round (u / t) \<le> u / t * (1 + 1 / 2 ^ 53)" using assms(1) t(1) by (intro f64_round_upper) simp
  also have "\<dots> \<le> 1 / (1 - 1 / 2 ^ 53) * (1 + 1 / 2 ^ 53)" using q by (intro mult_right_mono) simp_all
  also have "\<dots> \<le> 1 + 1 / 2 ^ 51" by simp
  finally show "f64_div u (f64_add u d) \<le> 1 + 1 / 2 ^ 51"
    by (simp add: f64_div_def f64_add_def t_def)
qed

lemma tp_churn_le:
  assumes m: "mutations_ok m" and e: "e \<le> 2 ^ 45" and c: "tp_churn m e = (u, d)"
  shows "u + d \<le> e"
proof -
  let ?e = "of_nat e :: rat" and ?c = "churn_fraction m"
  define k where "k = max (num_mutation_steps m) 1"
  define p where "p = f64_round_usize (f64_div (f64_mul (f64_of_nat e) ?c) (f64_of_nat k))"
  define w where "w = (if f64_add (update_ratio m) (delete_ratio m) > 0
      then f64_div (update_ratio m) (f64_add (update_ratio m) (delete_ratio m)) else 1)"
  have ex: "f64_of_nat e = ?e" "f64_of_nat k = of_nat k" "1 \<le> k"
    using e m by (simp_all add: f64_of_nat_exact k_def mutations_ok_def)
  define a where "a = f64_round (?e * ?c)"
  have a0: "0 \<le> a" using m by (simp add: a_def f64_round_nonneg mutations_ok_def)
  have "a \<le> ?e * ?c * (1 + 1 / 2 ^ 53)"
    unfolding a_def using m by (intro f64_round_upper) (simp add: mutations_ok_def)
  also have "\<dots> \<le> ?e * 1 * (1 + 1 / 2 ^ 53)"
    using m by (intro mult_right_mono mult_left_mono) (simp_all add: mutations_ok_def)
  also have "\<dots> \<le> ?e * (1 + 1 / 2 ^ 50)" by (simp add: algebra_simps)
  finally have a: "a \<le> ?e * (1 + 1 / 2 ^ 50)" .
  have "a * 1 \<le> a * of_nat k" using a0 ex(3) by (intro mult_left_mono) simp_all
  then have "a / of_nat k \<le> a" using ex(3) by (simp add: field_simps)
  then have "a / of_nat k \<le> ?e * (1 + 1 / 2 ^ 50)" using a by (rule order_trans)
  moreover have "0 \<le> a / of_nat k" using a0 by simp
  ultimately have "f64_round_usize (f64_round (a / of_nat k)) \<le> e" using e by (intro round_scaled_le)
  then have p: "p \<le> e" by (simp add: p_def f64_div_def f64_mul_def ex a_def)
  have w: "0 \<le> w" "w \<le> 1 + 1 / 2 ^ 51"
    using upd_weight_le[of "update_ratio m" "delete_ratio m"] m
    by (simp_all add: w_def mutations_ok_def ratios_ok_def)
  have p45: "p \<le> 2 ^ 45" using p e by linarith
  then have "f64_of_nat p = of_nat p" by (simp add: f64_of_nat_exact)
  moreover have "of_nat p * w \<le> of_nat p * (1 + 1 / 2 ^ 50)"
    using w(2) by (intro mult_left_mono) simp_all
  ultimately have "f64_round_usize (f64_mul (f64_of_nat p) w) \<le> p"
    using w(1) p45 round_scaled_le[of "of_nat p * w" p] by (simp add: f64_mul_def)
  moreover have "u = f64_round_usize (f64_mul (f64_of_nat p) w)" "d = p - u"
    using c by (auto simp: tp_churn_def Let_def p_def w_def k_def)
  ultimately show ?thesis using p by simp
qed

lemma tp_capped_counts_le:
  assumes rr: "rng_in_range rr" and m: "mutations_ok m" and n: "num_creates \<le> 2 ^ 24" and e: "e \<le> 2 ^ 45"
    and c: "tp_plan_counts rr m ph num_creates e r = (counts, r')" "tp_cap e counts = (u, d)"
  shows "u + d \<le> e"
proof -
  obtain u0 d0 where c0: "counts = (u0, d0)" by fastforce
  have base: "f64_round_usize (f64_mul (f64_of_nat num_creates) q) \<le> 2 ^ 24" if "0 \<le> q" "q \<le> 1" for q
    using ratio_count_le[of num_creates q] that n by simp
  have "u0 + d0 \<le> e \<or> (u0 \<le> 2 ^ 25 \<and> d0 \<le> 2 ^ 25)"
    using c(1) tp_churn_le[OF m e] tp_jitter_le[OF rr base] m unfolding c0
    by (auto simp: tp_plan_counts_def Let_def mutations_ok_def ratios_ok_def split: if_splits prod.splits)
      (metis fst_conv)+
  moreover have "max (u0 + d0) 1 = u0 + d0" if "e < u0 + d0" using that by linarith
  ultimately show ?thesis
    using capped_sum_le[of u0 d0 e] c(2) unfolding c0 by (auto simp: tp_cap_def Let_def split: if_splits)
qed

text \<open>The key-set transition of a call.\<close>

lemma tp_plan_mutations_ok:
  assumes E: "rng_in_range (te_rr E)" "\<And>len. rng_fair (te_rr E) len" "hash_order_ok (te_hash E)"
    and m: "mutations_ok m" and n: "num_creates \<le> 2 ^ 24"
    and ks0: "ks_inv ks0" "ks_len ks0 + length create_pks \<le> 2 ^ 45"
  shows "\<exists>p ks' r'. tp_plan_mutations E m ph create_pks num_creates ks0 r = Some (p, ks', r')
     \<and> length (pn_update_keys p) = pn_num_updates p \<and> length (pn_delete_keys p) = pn_num_deletes p
     \<and> distinct (pn_update_keys p @ pn_delete_keys p)
     \<and> set (pn_update_keys p @ pn_delete_keys p) \<subseteq> ks_live ks0 \<union> set create_pks
     \<and> ks_inv ks' \<and> ks_live ks' = ks_live ks0 \<union> set create_pks - set (pn_delete_keys p)"
proof -
  define ks where "ks = insert_all ks_insert ks0 create_pks"
  have ks: "ks_inv ks" "ks_live ks = ks_live ks0 \<union> set create_pks"
    using ks0(1) by (simp_all add: ks_def ks.insert_all_inv ks.insert_all_live)
  have "card (ks_live ks) \<le> card (ks_live ks0) + card (set create_pks)"
    unfolding ks(2) by (rule card_Un_le)
  then have e: "ks_len ks \<le> 2 ^ 45"
    using ks0 card_length[of create_pks] by (simp add: ks.len_card[OF ks(1)] ks.len_card[OF ks0(1)])
  obtain counts r1 where cnt: "tp_plan_counts (te_rr E) m ph num_creates (ks_len ks) r = (counts, r1)" by fastforce
  obtain nu nd where cap: "tp_cap (ks_len ks) counts = (nu, nd)" by fastforce
  have le: "nu + nd \<le> ks_len ks" by (rule tp_capped_counts_le[OF E(1) m n e cnt cap])
  obtain mk r2 where mk: "ks_sample_keys (te_rr E) (te_hash E) ks (nu + nd) r1 = Some (mk, r2)"
    using ks_sample_keys_returns[OF E(1,2)] by (metis surj_pair)
  have mk': "distinct mk" "set mk \<subseteq> ks_live ks" "length mk = nu + nd"
    using ks_sample_keys_sound[OF ks(1) E(1,3) mk] le by simp_all
  obtain ks' where ks': "remove_all ks_remove ks (drop nu mk) = Some ks'" "ks_inv ks'"
    "ks_live ks' = ks_live ks - set (drop nu mk)"
    using ks.remove_all_ok[OF ks(1)] by blast
  let ?p = "\<lparr>pn_num_updates = nu, pn_num_deletes = nd, pn_update_keys = take nu mk, pn_delete_keys = drop nu mk\<rparr>"
  have "tp_plan_mutations E m ph create_pks num_creates ks0 r = Some (?p, ks', r2)"
    using mk'(3) ks'(1) by (simp add: tp_plan_mutations_def ks_def[symmetric] cnt cap mk Let_def)
  then show ?thesis using mk' ks'(2,3) ks(2)
    by (intro exI[of _ ?p] exI[of _ ks'] exI[of _ r2]) (simp flip: set_append)
qed

subsection \<open>What the generator and the kernels promise\<close>

definition concat_array_spec :: "(array list \<Rightarrow> array result) \<Rightarrow> bool" where
  "concat_array_spec cc \<longleftrightarrow> (\<forall>dt as. as \<noteq> [] \<longrightarrow> (\<forall>a \<in> set as. arr_type a = dt) \<longrightarrow>
     cc as = Inr \<lparr>arr_type = dt, arr_cells = concat (map arr_cells as)\<rparr>)"

definition pk_type :: "data_type \<Rightarrow> bool" where
  "pk_type dt \<longleftrightarrow> dt = DInt32 \<or> dt = DInt64"

text \<open>The key columns of a table exist and are integers; the others have a supported type.\<close>

definition schema_ok :: "'r tpch_env \<Rightarrow> string \<Rightarrow> bool" where
  "schema_ok E table \<longleftrightarrow> distinct (map fld_name (te_schema E table))
     \<and> {''_op'', ''_op_index''} \<inter> set (map fld_name (te_schema E table)) = {}
     \<and> (\<forall>name \<in> set (tp_primary_key table). index_of (te_schema E table) name \<noteq> None)
     \<and> (\<forall>f \<in> set (te_schema E table).
          if fld_name f \<in> set (tp_primary_key table) then pk_type (fld_type f) else random_ok (fld_type f))"

definition key_fits :: "'r tpch_env \<Rightarrow> string \<Rightarrow> PrimaryKeyValue \<Rightarrow> bool" where
  "key_fits E table k \<longleftrightarrow> key_wf (length (tp_primary_key table)) k
     \<and> (\<forall>f \<in> set (te_schema E table). \<forall>j. position_of (tp_primary_key table) (fld_name f) = Some j \<longrightarrow>
          fld_type f = DInt32 \<longrightarrow> fits_i32 (key_vals k ! j))"

text \<open>A generated part: the declared schema and integer keys.\<close>

definition raw_ok :: "'r tpch_env \<Rightarrow> string \<Rightarrow> record_batch \<Rightarrow> bool" where
  "raw_ok E table b \<longleftrightarrow> wf_batch b \<and> rb_schema b = te_schema E table
     \<and> (\<forall>i < length (te_schema E table). fld_name (te_schema E table ! i) \<in> set (tp_primary_key table) \<longrightarrow>
          (\<forall>x \<in> set (arr_cells (rb_columns b ! i)). \<exists>v. x = Some (CInt v)
             \<and> (fld_type (te_schema E table ! i) = DInt32 \<longrightarrow> fits_i32 v)))"

definition tpch_env_ok :: "'r tpch_env \<Rightarrow> bool" where
  "tpch_env_ok E \<longleftrightarrow> rng_in_range (te_rr E) \<and> (\<forall>len. rng_fair (te_rr E) len) \<and> hash_order_ok (te_hash E)
     \<and> concat_array_spec (te_concat E) \<and> with_ps_spec (te_with_precision_and_scale E)
     \<and> (\<forall>table \<in> set (map fst TPCH_TABLES). schema_ok E table
          \<and> (\<forall>sf part parts n b. te_gen E table sf part parts n = Some b \<longrightarrow> raw_ok E table b))"

subsection \<open>Columns of a batch\<close>

lemma index_of_Some: "index_of s name = Some c \<Longrightarrow> c < length s \<and> fld_name (s ! c) = name"
  by (induction s arbitrary: c) (auto split: if_splits)

lemma index_of_nullable: "index_of (map (\<lambda>f. f\<lparr>fld_nullable := True\<rparr>) s) name = index_of s name"
  by (induction s) auto

lemma index_of_append: "index_of s name = Some c \<Longrightarrow> index_of (s @ t) name = Some c"
  by (induction s arbitrary: c) (auto split: if_splits)

lemma position_of_Some: "position_of ns name = Some j \<Longrightarrow> j < length ns \<and> ns ! j = name"
  by (induction ns arbitrary: j) (auto split: if_splits)

lemma position_of_nth: "distinct ns \<Longrightarrow> j < length ns \<Longrightarrow> position_of ns (ns ! j) = Some j"
proof (induction ns arbitrary: j)
  case (Cons n ns)
  then show ?case by (cases j) auto
qed simp

lemma position_of_None: "position_of ns name = None \<longleftrightarrow> name \<notin> set ns"
  by (induction ns) auto

lemma tp_primary_key_distinct: "distinct (tp_primary_key table)"
  by (simp add: tp_primary_key_def)

lemma raw_ok_keys:
  assumes sch: "schema_ok E table" and raw: "raw_ok E table b"
  shows "\<exists>keys. holds_keys b (tp_primary_key table) keys \<and> (\<forall>k \<in> set keys. key_fits E table k)"
proof -
  let ?pks = "tp_primary_key table" and ?s = "te_schema E table"
  have col: "\<exists>c. index_of (rb_schema b) (?pks ! j) = Some c
     \<and> (arr_type (rb_columns b ! c) = DInt32 \<or> arr_type (rb_columns b ! c) = DInt64)
     \<and> length (arr_cells (rb_columns b ! c)) = rb_num_rows b
     \<and> (\<forall>x \<in> set (arr_cells (rb_columns b ! c)). \<exists>v. x = Some (CInt v))" if j: "j < length ?pks" for j
  proof -
    obtain c where c: "index_of ?s (?pks ! j) = Some c"
      using sch nth_mem[OF j] unfolding schema_ok_def by (meson not_None_eq)
    note ic = index_of_Some[OF c]
    have wfc: "wf_column (rb_num_rows b) (?s ! c) (rb_columns b ! c)"
      using raw ic by (auto simp: raw_ok_def wf_batch_def list_all2_conv_all_nth)
    have "pk_type (fld_type (?s ! c))" using sch ic nth_mem[OF j] by (auto simp: schema_ok_def)
    moreover have "\<forall>x \<in> set (arr_cells (rb_columns b ! c)). \<exists>v. x = Some (CInt v)"
      using raw ic nth_mem[OF j] unfolding raw_ok_def by metis
    ultimately show ?thesis using wfc c raw by (auto simp: wf_column_def pk_type_def raw_ok_def)
  qed
  obtain keys where keys: "holds_keys b ?pks keys" using holds_keys_exists[OF col] by blast
  have "key_fits E table k" if k: "k \<in> set keys" for k
  proof (unfold key_fits_def, intro conjI ballI allI impI)
    show "key_wf (length ?pks) k" using keys k by (simp add: holds_keys_def)
    fix f j assume f: "f \<in> set ?s" "position_of ?pks (fld_name f) = Some j" "fld_type f = DInt32"
    note pj = position_of_Some[OF f(2)]
    from f(1) obtain i where i: "i < length ?s" "f = ?s ! i" by (metis in_set_conv_nth)
    obtain c where c: "index_of ?s (?pks ! j) = Some c" "arr_cells (rb_columns b ! c) = key_cells j keys"
      using keys pj raw by (auto simp: holds_keys_def raw_ok_def)
    have "c = i" using index_of_Some[OF c(1)] i pj sch
      by (auto simp: schema_ok_def distinct_conv_nth)
    moreover have "Some (CInt (key_vals k ! j)) \<in> set (key_cells j keys)" using k by (simp add: key_cells_def)
    moreover have "fld_name f \<in> set ?pks" using pj by (metis nth_mem)
    ultimately obtain v where "Some (CInt (key_vals k ! j)) = Some (CInt v)" "fits_i32 v"
      using raw i f(3) c(2) unfolding raw_ok_def by metis
    then show "fits_i32 (key_vals k ! j)" by simp
  qed
  then show ?thesis using keys by blast
qed

text \<open>The generated cells of a column, none in the mutation phase.\<close>

definition created_rows :: "record_batch option \<Rightarrow> nat" where
  "created_rows cb = (case cb of Some b \<Rightarrow> rb_num_rows b | None \<Rightarrow> 0)"

definition created_cells :: "record_batch option \<Rightarrow> nat \<Rightarrow> cell option list" where
  "created_cells cb i = (case cb of Some b \<Rightarrow> arr_cells (rb_columns b ! i) | None \<Rightarrow> [])"

definition plan_ok :: "'r tpch_env \<Rightarrow> string \<Rightarrow> tpch_plan \<Rightarrow> bool" where
  "plan_ok E table p \<longleftrightarrow> length (pn_update_keys p) = pn_num_updates p
     \<and> length (pn_delete_keys p) = pn_num_deletes p
     \<and> (\<forall>k \<in> set (pn_update_keys p @ pn_delete_keys p). key_fits E table k)"

definition column_ok :: "record_batch option \<Rightarrow> string list \<Rightarrow> tpch_plan \<Rightarrow> nat \<Rightarrow> field \<Rightarrow> array \<Rightarrow> bool" where
  "column_ok cb pks p i f a \<longleftrightarrow> arr_type a = fld_type f
     \<and> length (arr_cells a) = created_rows cb + pn_num_updates p + pn_num_deletes p
     \<and> (\<forall>j. position_of pks (fld_name f) = Some j \<longrightarrow> arr_cells a
          = created_cells cb i @ key_cells j (pn_update_keys p) @ key_cells j (pn_delete_keys p))"

lemma tp_column_ok:
  assumes E: "tpch_env_ok E" and t: "table \<in> set (map fst TPCH_TABLES)"
    and i: "i < length (te_schema E table)" and f: "f = (te_schema E table ! i)\<lparr>fld_nullable := True\<rparr>"
    and cb: "\<And>b. cb = Some b \<Longrightarrow> raw_ok E table b" and p: "plan_ok E table p"
  shows "\<exists>a r'. tp_column E cb (tp_primary_key table) p i f r = Some (Inr a, r')
     \<and> column_ok cb (tp_primary_key table) p i f a"
proof -
  let ?pks = "tp_primary_key table" and ?g = "te_schema E table ! i"
  have g: "?g \<in> set (te_schema E table)" "fld_name f = fld_name ?g" "fld_type f = fld_type ?g"
    using i by (simp_all add: f)
  have sch: "schema_ok E table" using E t unfolding tpch_env_ok_def by blast
  define ccol where "ccol = (case cb of Some b \<Rightarrow> rb_columns b ! i | None \<Rightarrow> new_empty_array (fld_type f))"
  have ccol: "arr_type ccol = fld_type f" "length (arr_cells ccol) = created_rows cb"
    "arr_cells ccol = created_cells cb i" and inr: "\<And>b. cb = Some b \<Longrightarrow> i < length (rb_columns b)"
    using cb i g(3) by (auto simp: ccol_def created_rows_def created_cells_def raw_ok_def wf_batch_def
        list_all2_conv_all_nth wf_column_def new_empty_array_def split: option.splits)
  have creates: "(case cb of Some b \<Rightarrow> if i < length (rb_columns b) then Some (rb_columns b ! i) else None
        | None \<Rightarrow> Some (new_empty_array (fld_type f))) = Some ccol"
    using inr by (auto simp: ccol_def split: option.splits)
  have cc: "te_concat E [ccol, x, y] = Inr \<lparr>arr_type = fld_type f, arr_cells = arr_cells ccol @ arr_cells x @ arr_cells y\<rparr>"
    if "arr_type x = fld_type f" "arr_type y = fld_type f" for x y
    using E that ccol(1) by (auto simp: tpch_env_ok_def concat_array_spec_def)
  show ?thesis
  proof (cases "position_of ?pks (fld_name f)")
    case (Some j)
    note pj = position_of_Some[OF Some]
    have "pk_type (fld_type f)" using sch g pj unfolding schema_ok_def by (metis nth_mem)
    then have keys: "build_pk_array ks j (fld_type f) = Some \<lparr>arr_type = fld_type f, arr_cells = key_cells j ks\<rparr>"
      if "\<forall>k \<in> set ks. key_fits E table k" for ks
      using that pj g Some by (intro build_pk_array_ok[where n = "length ?pks"]) (auto simp: pk_type_def key_fits_def)
    have "\<forall>k \<in> set (pn_update_keys p). key_fits E table k" "\<forall>k \<in> set (pn_delete_keys p). key_fits E table k"
      using p by (simp_all add: plan_ok_def)
    then show ?thesis using Some creates p ccol
      by (simp add: tp_column_def keys cc column_ok_def plan_ok_def key_cells_def)
  next
    case None
    then have "random_ok (fld_type f)" using sch g unfolding schema_ok_def position_of_None by metis
    then obtain a r' where a: "build_random_array E (pn_num_updates p) (fld_type f) r = Some (Inr a, r')"
      "arr_type a = fld_type f" "length (arr_cells a) = pn_num_updates p"
      using build_random_array_ok[of E "fld_type f" "pn_num_updates p" r] E unfolding tpch_env_ok_def by blast
    then show ?thesis using None creates ccol
      by (simp add: tp_column_def cc column_ok_def new_null_array_def)
  qed
qed

lemma tp_columns_ok:
  assumes "\<And>n r. n < length fs \<Longrightarrow> \<exists>a r'. tp_column E cb pks p (i + n) (fs ! n) r = Some (Inr a, r')
     \<and> column_ok cb pks p (i + n) (fs ! n) a"
  shows "\<exists>cols r'. tp_columns E cb pks p i fs r = Some (Inr cols, r') \<and> length cols = length fs
     \<and> (\<forall>n < length fs. column_ok cb pks p (i + n) (fs ! n) (cols ! n))"
  using assms
proof (induction fs arbitrary: i r)
  case Nil
  then show ?case by simp
next
  case (Cons f fs)
  obtain a r1 where a: "tp_column E cb pks p i f r = Some (Inr a, r1)" "column_ok cb pks p i f a"
    using Cons.prems[of 0 r] by auto
  have "\<exists>a r'. tp_column E cb pks p (Suc i + n) (fs ! n) r = Some (Inr a, r')
      \<and> column_ok cb pks p (Suc i + n) (fs ! n) a" if "n < length fs" for n r
    using Cons.prems[of "Suc n"] that by simp
  then obtain cols r' where "tp_columns E cb pks p (Suc i) fs r1 = Some (Inr cols, r')"
    "length cols = length fs" "\<forall>n < length fs. column_ok cb pks p (Suc i + n) (fs ! n) (cols ! n)"
    using Cons.IH by blast
  then show ?case using a
    by (intro exI[of _ "a # cols"] exI[of _ r']) (auto simp: nth_Cons split: nat.splits)
qed

lemma tpch_schema_known:
  "table \<in> set (map fst TPCH_TABLES) \<Longrightarrow> tpch_schema E table
     = Some (map (\<lambda>f. f\<lparr>fld_nullable := True\<rparr>) (te_schema E table) @
         [\<lparr>fld_name = ''_op'', fld_type = DUtf8, fld_nullable = False\<rparr>,
          \<lparr>fld_name = ''_op_index'', fld_type = DInt64, fld_nullable = False\<rparr>])"
  unfolding tpch_schema_def native_tpch_schema_def by (simp only: if_True option.map)

lemma wf_column_ops:
  "wf_column (a + b + c) \<lparr>fld_name = ''_op'', fld_type = DUtf8, fld_nullable = False\<rparr> (op_column a b c)"
  by (auto simp: wf_column_def op_column_def)

lemma wf_column_op_index:
  "wf_column n \<lparr>fld_name = ''_op_index'', fld_type = DInt64, fld_nullable = False\<rparr> (op_index_column base n)"
  by (auto simp: wf_column_def op_index_column_def)

text \<open>The batch a call emits: its schema, keys, operations and operation indices.\<close>

definition tp_batch :: "'r tpch_env \<Rightarrow> string \<Rightarrow> PrimaryKeyValue list \<Rightarrow> tpch_plan \<Rightarrow> int \<Rightarrow> record_batch \<Rightarrow> bool" where
  "tp_batch E table create_pks p op_base b \<longleftrightarrow> wf_batch b \<and> tpch_schema E table = Some (rb_schema b)
     \<and> rb_num_rows b = length create_pks + pn_num_updates p + pn_num_deletes p
     \<and> holds_keys b (tp_primary_key table) (create_pks @ pn_update_keys p @ pn_delete_keys p)
     \<and> rb_columns b ! length (te_schema E table)
         = op_column (length create_pks) (pn_num_updates p) (pn_num_deletes p)
     \<and> rb_columns b ! Suc (length (te_schema E table)) = op_index_column op_base (rb_num_rows b)"

definition created_keys_ok :: "'r tpch_env \<Rightarrow> string \<Rightarrow> record_batch option \<Rightarrow> PrimaryKeyValue list \<Rightarrow> bool" where
  "created_keys_ok E table cb create_pks \<longleftrightarrow> (\<forall>k \<in> set create_pks. key_fits E table k)
     \<and> (case cb of Some b \<Rightarrow> raw_ok E table b \<and> holds_keys b (tp_primary_key table) create_pks
                  | None \<Rightarrow> create_pks = [])"

lemma created_keys_rows: "created_keys_ok E table cb create_pks \<Longrightarrow> created_rows cb = length create_pks"
  by (auto simp: created_keys_ok_def created_rows_def holds_keys_def split: option.splits)

lemma created_keys_cells:
  assumes "created_keys_ok E table cb create_pks" "j < length (tp_primary_key table)"
    "index_of (te_schema E table) (tp_primary_key table ! j) = Some c"
  shows "created_cells cb c = key_cells j create_pks"
  using assms by (auto simp: created_keys_ok_def created_cells_def holds_keys_def raw_ok_def key_cells_def
      split: option.splits)

lemma tp_build_batch_ok:
  assumes E: "tpch_env_ok E" and K: "kernels_ok K" and t: "table \<in> set (map fst TPCH_TABLES)"
    and ck: "created_keys_ok E table cb create_pks" and p: "plan_ok E table p"
  shows "\<exists>b r'. tp_build_batch E K table cb (length create_pks) p op_base r = Some (Inr (Some b), r')
     \<and> tp_batch E table create_pks p op_base b"
proof -
  let ?s = "te_schema E table" and ?pks = "tp_primary_key table"
  let ?native = "map (\<lambda>f. f\<lparr>fld_nullable := True\<rparr>) ?s"
  let ?n = "length create_pks + pn_num_updates p + pn_num_deletes p"
  obtain sch where sch: "tpch_schema E table = Some sch"
    "sch = ?native @ [\<lparr>fld_name = ''_op'', fld_type = DUtf8, fld_nullable = False\<rparr>,
          \<lparr>fld_name = ''_op_index'', fld_type = DInt64, fld_nullable = False\<rparr>]"
    using tpch_schema_known[OF t] by blast
  have sok: "schema_ok E table" using E t unfolding tpch_env_ok_def by blast
  note rowsn = created_keys_rows[OF ck]
  have raw: "raw_ok E table b" if "cb = Some b" for b using ck that by (simp add: created_keys_ok_def)
  have "\<exists>a r'. tp_column E cb ?pks p (0 + n) (?native ! n) r = Some (Inr a, r')
      \<and> column_ok cb ?pks p (0 + n) (?native ! n) a" if "n < length ?native" for n r
    using tp_column_ok[OF E t _ _ raw p, of n] that by simp
  then have "\<exists>cols r'. tp_columns E cb ?pks p 0 ?native r = Some (Inr cols, r') \<and> length cols = length ?native
      \<and> (\<forall>n < length ?native. column_ok cb ?pks p (0 + n) (?native ! n) (cols ! n))" by (rule tp_columns_ok)
  then obtain cols r' where
    cols: "tp_columns E cb ?pks p 0 ?native r = Some (Inr cols, r')" "length cols = length ?s"
    and col: "\<And>n. n < length ?s \<Longrightarrow> column_ok cb ?pks p n (?native ! n) (cols ! n)" by auto
  let ?all = "cols @ [op_column (length create_pks) (pn_num_updates p) (pn_num_deletes p), op_index_column op_base ?n]"
  let ?b = "\<lparr>rb_schema = sch, rb_columns = ?all, rb_num_rows = ?n\<rparr>"
  have "list_all2 (wf_column ?n) ?native cols"
    using col cols(2) rowsn by (simp add: list_all2_conv_all_nth column_ok_def wf_column_def)
  then have wf: "list_all2 (wf_column ?n) sch ?all"
    unfolding sch(2) using wf_column_ops wf_column_op_index by (intro list_all2_appendI) auto
  moreover have "sch \<noteq> []" by (simp add: sch(2))
  ultimately have new: "k_try_new K sch ?all = Inr ?b"
    using kernels_okD(3)[OF K] by (simp add: try_new_spec_def)
  have "tp_build_batch E K table cb (length create_pks) p op_base r = Some (Inr (Some ?b), r')"
    using cols(1) new by (simp add: tp_build_batch_def sch)
  moreover have "holds_keys ?b ?pks (create_pks @ pn_update_keys p @ pn_delete_keys p)"
  proof (unfold holds_keys_def, intro conjI ballI allI impI)
    show "length (create_pks @ pn_update_keys p @ pn_delete_keys p) = rb_num_rows ?b"
      using p by (simp add: plan_ok_def)
  next
    fix k assume "k \<in> set (create_pks @ pn_update_keys p @ pn_delete_keys p)"
    then show "key_wf (length ?pks) k" using p ck by (auto simp: plan_ok_def created_keys_ok_def key_fits_def)
  next
    fix j assume j: "j < length ?pks"
    obtain c where c: "index_of ?s (?pks ! j) = Some c"
      using sok nth_mem[OF j] unfolding schema_ok_def by (meson not_None_eq)
    note ic = index_of_Some[OF c]
    have nm: "fld_name (?native ! c) = ?pks ! j" "fld_type (?native ! c) = fld_type (?s ! c)" using ic by simp_all
    have "arr_cells (cols ! c) = key_cells j (create_pks @ pn_update_keys p @ pn_delete_keys p)"
      using col[of c] ic nm position_of_nth[OF tp_primary_key_distinct j] created_keys_cells[OF ck j c]
      by (simp add: column_ok_def key_cells_def)
    moreover have "pk_type (fld_type (?s ! c))" using sok ic nth_mem[OF j] by (auto simp: schema_ok_def)
    then have "arr_type (cols ! c) = DInt32 \<or> arr_type (cols ! c) = DInt64"
      using col[of c] ic nm by (auto simp: column_ok_def pk_type_def)
    moreover have "index_of sch (?pks ! j) = Some c"
      unfolding sch(2) by (rule index_of_append) (simp add: index_of_nullable c)
    ultimately show "\<exists>c. index_of (rb_schema ?b) (?pks ! j) = Some c
        \<and> (arr_type (rb_columns ?b ! c) = DInt32 \<or> arr_type (rb_columns ?b ! c) = DInt64)
        \<and> arr_cells (rb_columns ?b ! c) = key_cells j (create_pks @ pn_update_keys p @ pn_delete_keys p)"
      using ic cols(2) by (simp add: nth_append)
  qed
  ultimately show ?thesis using wf cols(2) sch(1)
    by (intro exI[of _ ?b] exI[of _ r']) (simp add: tp_batch_def wf_batch_def nth_append)
qed

subsection \<open>One call\<close>

text \<open>
  The part generated at step \<open>n\<close> of a table, and the number of steps that generate parts.
\<close>

definition base_steps :: "tpch_dataset \<Rightarrow> string \<Rightarrow> nat" where
  "base_steps s table = (if is_dim table then 1 else tp_num_steps s)"

definition part_batch :: "'r tpch_env \<Rightarrow> tpch_dataset \<Rightarrow> string \<Rightarrow> nat \<Rightarrow> record_batch option" where
  "part_batch E s table n =
     (if is_dim table then generate_raw_batch E table (tp_scale_factor s) 1 1
      else generate_raw_batch E table (tp_scale_factor s) (n + 1) (tp_num_steps s))"

text \<open>The parts a run draws, those of its scale factor and number of steps, have at most \<open>2 ^ 24\<close> rows each.\<close>

definition parts_small :: "'r tpch_env \<Rightarrow> tpch_dataset \<Rightarrow> bool" where
  "parts_small E s \<longleftrightarrow> (\<forall>table \<in> set (map fst TPCH_TABLES). \<forall>n < base_steps s table. \<forall>b.
     part_batch E s table n = Some b \<longrightarrow> rb_num_rows b \<le> 2 ^ 24)"

lemma parts_small_frame:
  "tp_scale_factor s' = tp_scale_factor s \<Longrightarrow> tp_num_steps s' = tp_num_steps s \<Longrightarrow> parts_small E s' = parts_small E s"
  by (simp add: parts_small_def part_batch_def base_steps_def)

definition tp_inv :: "'r tpch_env \<Rightarrow> tpch_dataset \<Rightarrow> bool" where
  "tp_inv E s \<longleftrightarrow> mutations_ok (tp_mutations s) \<and> tp_num_steps s \<le> 65535 \<and> parts_small E s
     \<and> (\<forall>table \<in> set (map fst TPCH_TABLES). \<exists>n ks. tp_table_steps s table = Some n
          \<and> tp_key_sets s table = Some ks \<and> n \<le> 65535 \<and> ks_inv ks \<and> ks_len ks \<le> n * 2 ^ 24
          \<and> (\<forall>k \<in> ks_live ks. key_fits E table k))"

text \<open>
  The outcome of a call that emits a batch: the created keys, the sampled keys, and the state
  with the key set and both counters moved on.
\<close>

definition tp_emits ::
  "'r tpch_env \<Rightarrow> tpch_dataset \<Rightarrow> string \<Rightarrow> tpch_dataset \<Rightarrow> record_batch \<Rightarrow> PrimaryKeyValue list \<Rightarrow> tpch_plan \<Rightarrow> bool" where
  "tp_emits E s table s' b create_pks p \<longleftrightarrow>
     (\<exists>n ks ks'. tp_table_steps s table = Some n \<and> tp_key_sets s table = Some ks
       \<and> tp_batch E table create_pks p (tp_op_counter s) b
       \<and> length (pn_update_keys p) = pn_num_updates p \<and> length (pn_delete_keys p) = pn_num_deletes p
       \<and> distinct (pn_update_keys p @ pn_delete_keys p)
       \<and> set (pn_update_keys p @ pn_delete_keys p) \<subseteq> ks_live ks \<union> set create_pks
       \<and> (\<forall>k \<in> set create_pks. key_fits E table k)
       \<and> (create_pks = [] \<or> n < base_steps s table \<and> (\<exists>c. part_batch E s table n = Some c \<and> holds_keys c (tp_primary_key table) create_pks))
       \<and> length create_pks \<le> 2 ^ 24
       \<and> ks_inv ks' \<and> ks_live ks' = ks_live ks \<union> set create_pks - set (pn_delete_keys p)
       \<and> s' = s\<lparr>tp_table_steps := (tp_table_steps s)(table \<mapsto> n + 1),
                 tp_key_sets := (tp_key_sets s)(table \<mapsto> ks'),
                 tp_op_counter := tp_op_counter s + int (rb_num_rows b)\<rparr>)"

text \<open>A call that reports the end of the table: nothing but its step counter moves.\<close>

definition tp_ends :: "tpch_dataset \<Rightarrow> string \<Rightarrow> tpch_dataset \<Rightarrow> bool" where
  "tp_ends s table s' \<longleftrightarrow> (\<exists>n ks ks'. tp_table_steps s table = Some n \<and> tp_key_sets s table = Some ks
     \<and> ks_inv ks' \<and> ks_live ks' = ks_live ks
     \<and> s' = s\<lparr>tp_table_steps := (tp_table_steps s)(table \<mapsto> (n + 1) mod 65536),
               tp_key_sets := (tp_key_sets s)(table \<mapsto> ks')\<rparr>)"

lemma generate_raw_batch_ok:
  assumes "tpch_env_ok E" "table \<in> set (map fst TPCH_TABLES)"
  shows "\<exists>b. generate_raw_batch E table sf part parts = Some b \<and> (rb_num_rows b = 0 \<or> raw_ok E table b)"
proof (cases "te_gen E table sf part parts (total_rows_for_table table sf)")
  case None
  then show ?thesis using assms(2)
    by (auto simp: generate_raw_batch_def native_tpch_schema_def new_empty_batch_def simp del: set_map)
next
  case (Some b)
  then have "raw_ok E table b" using assms unfolding tpch_env_ok_def by blast
  then show ?thesis using assms(2) Some
    by (auto simp: generate_raw_batch_def native_tpch_schema_def simp del: set_map)
qed

lemma tp_emit_ok:
  assumes E: "tpch_env_ok E" and K: "kernels_ok K" and inv: "tp_inv E s" and t: "table \<in> set (map fst TPCH_TABLES)"
    and st: "tp_table_steps s table = Some n" "tp_key_sets s table = Some ks" "n < 65535"
    and ck: "created_keys_ok E table cb create_pks"
    and cb: "cb = None \<or> n < base_steps s table \<and> cb = part_batch E s table n"
    and s0: "s0 = s\<lparr>tp_table_steps := (tp_table_steps s)(table \<mapsto> (n + 1) mod 65536)\<rparr>"
  shows "(\<exists>b s' r' p. tp_emit E K s0 table ph cb create_pks ks r = Some (Inr (Some b), s', r')
            \<and> tp_emits E s table s' b create_pks p)
     \<or> (\<exists>s' r'. tp_emit E K s0 table ph cb create_pks ks r = Some (Inr None, s', r')
            \<and> create_pks = [] \<and> tp_ends s table s')"
proof -
  have ks: "ks_inv ks" "ks_len ks \<le> n * 2 ^ 24" "\<forall>k \<in> ks_live ks. key_fits E table k"
    using inv t st unfolding tp_inv_def by (metis option.inject)+
  have m: "mutations_ok (tp_mutations s)" using inv by (simp add: tp_inv_def)
  note rowsn = created_keys_rows[OF ck]
  have len: "length create_pks \<le> 2 ^ 24"
  proof (cases cb)
    case None
    then show ?thesis using ck by (simp add: created_keys_ok_def)
  next
    case (Some b)
    then have "rb_num_rows b \<le> 2 ^ 24" using inv cb t unfolding tp_inv_def parts_small_def by auto
    then show ?thesis using rowsn Some by (simp add: created_rows_def)
  qed
  have "n * 2 ^ 24 \<le> 65535 * (2::nat) ^ 24" using st(3) by (intro mult_right_mono) simp_all
  then have big: "ks_len ks + length create_pks \<le> 2 ^ 45" using ks(2) len by simp
  obtain p ks' r1 where plan: "tp_plan_mutations E (tp_mutations s) ph create_pks (length create_pks) ks r = Some (p, ks', r1)"
    and pl: "length (pn_update_keys p) = pn_num_updates p" "length (pn_delete_keys p) = pn_num_deletes p"
      "distinct (pn_update_keys p @ pn_delete_keys p)"
      "set (pn_update_keys p @ pn_delete_keys p) \<subseteq> ks_live ks \<union> set create_pks"
      "ks_inv ks'" "ks_live ks' = ks_live ks \<union> set create_pks - set (pn_delete_keys p)"
    using tp_plan_mutations_ok[OF _ _ _ m len ks(1) big] E unfolding tpch_env_ok_def by metis
  have pok: "plan_ok E table p"
    using pl(1,2,4) ks(3) ck unfolding plan_ok_def created_keys_ok_def by blast
  have rows0: "(case cb of None \<Rightarrow> 0 | Some b \<Rightarrow> rb_num_rows b) = length create_pks"
    using rowsn by (simp add: created_rows_def split: option.splits)
  let ?n = "length create_pks + pn_num_updates p + pn_num_deletes p"
  show ?thesis
  proof (cases "?n = 0")
    case True
    then have "create_pks = []" "pn_delete_keys p = []" using pl(2) by simp_all
    moreover have "tp_emit E K s0 table ph cb create_pks ks r
        = Some (Inr None, s0\<lparr>tp_key_sets := (tp_key_sets s0)(table \<mapsto> ks')\<rparr>, r1)"
      using plan True by (simp add: tp_emit_def rows0 s0 Let_def)
    ultimately show ?thesis using st pl(5,6) by (auto simp: tp_ends_def s0)
  next
    case False
    obtain b r2 where b: "tp_build_batch E K table cb (length create_pks) p (tp_op_counter s) r1 = Some (Inr (Some b), r2)"
      "tp_batch E table create_pks p (tp_op_counter s) b"
      using tp_build_batch_ok[OF E K t ck pok] by blast
    let ?s' = "s0\<lparr>tp_key_sets := (tp_key_sets s0)(table \<mapsto> ks'), tp_op_counter := tp_op_counter s + int ?n\<rparr>"
    have "tp_emit E K s0 table ph cb create_pks ks r = Some (Inr (Some b), ?s', r2)"
      using plan False b(1) by (simp add: tp_emit_def rows0 s0 Let_def)
    moreover have "rb_num_rows b = ?n" using b(2) by (simp add: tp_batch_def)
    then have "tp_emits E s table ?s' b create_pks p"
      unfolding tp_emits_def using st b(2) pl ck cb len
      by (intro exI[of _ n] exI[of _ ks] exI[of _ ks'])
        (auto simp: s0 created_keys_ok_def split: option.splits)
    ultimately show ?thesis by blast
  qed
qed

lemma tp_raw_next_batch_ok:
  assumes E: "tpch_env_ok E" and K: "kernels_ok K" and inv: "tp_inv E s" and t: "table \<in> set (map fst TPCH_TABLES)"
  shows "(\<exists>b s' r' pks p. tp_raw_next_batch E K s table r = Some (Inr (Some b), s', r')
            \<and> the (tp_table_steps s table) < tp_total_steps s table \<and> tp_emits E s table s' b pks p)
     \<or> (\<exists>s' r'. tp_raw_next_batch E K s table r = Some (Inr None, s', r') \<and> tp_ends s table s')"
proof -
  obtain n ks where st: "tp_table_steps s table = Some n" "tp_key_sets s table = Some ks" "n \<le> 65535" "ks_inv ks"
    using inv t unfolding tp_inv_def by blast
  define s0 where "s0 = s\<lparr>tp_table_steps := (tp_table_steps s)(table \<mapsto> (n + 1) mod 65536)\<rparr>"
  have stop: "tp_ends s table s0"
    using st by (auto simp: tp_ends_def s0_def fun_upd_idem intro!: exI[of _ n] exI[of _ ks])
  show ?thesis
  proof (cases "n < tp_total_steps s table")
    case False
    then have "tp_raw_next_batch E K s table r = Some (Inr None, s0, r)"
      by (simp add: tp_raw_next_batch_def st s0_def Let_def)
    then show ?thesis using stop by blast
  next
    case True
    then have n: "n < 65535" using inv by (auto simp: tp_total_steps_def tp_inv_def split: if_splits)
    let ?ph = "bootstrap (tp_mutations s) \<and> \<not> is_dim table \<and> tp_num_steps s \<le> n"
    note emit = tp_emit_ok[OF E K inv t st(1,2) n _ _ s0_def, of _ _ ?ph r]
    show ?thesis
    proof (cases ?ph)
      case ph: True
      have "tp_raw_next_batch E K s table r = tp_emit E K s0 table ?ph None [] ks r"
        using True ph by (simp add: tp_raw_next_batch_def st s0_def Let_def tp_creates_batch_def)
      then show ?thesis using emit[of None "[]"] True st(1) by (auto simp: created_keys_ok_def)
    next
      case ph: False
      obtain b where b: "part_batch E s table n = Some b" "rb_num_rows b = 0 \<or> raw_ok E table b"
        using generate_raw_batch_ok[OF E t] unfolding part_batch_def by (meson option.exhaust)
      have raw: "tp_raw_next_batch E K s table r
          = (if rb_num_rows b = 0 then Some (Inr None, s0, r)
             else Option.bind (extract_pk_values E b (tp_primary_key table)) (\<lambda>res. case res of
                 Inl e \<Rightarrow> Some (Inl e, s0, r)
               | Inr create_pks \<Rightarrow> tp_emit E K s0 table ?ph (Some b) create_pks ks r))"
        using True ph b(1)
        by (auto simp: tp_raw_next_batch_def st s0_def Let_def tp_creates_batch_def part_batch_def split: if_splits)
      show ?thesis
      proof (cases "rb_num_rows b = 0")
        case True
        then show ?thesis using raw stop by auto
      next
        case False
        then have rb: "raw_ok E table b" using b(2) by simp
        obtain keys where keys: "holds_keys b (tp_primary_key table) keys" "\<forall>k \<in> set keys. key_fits E table k"
          using raw_ok_keys[OF _ rb] E t unfolding tpch_env_ok_def by blast
        then have "tp_raw_next_batch E K s table r = tp_emit E K s0 table ?ph (Some b) keys ks r"
          using raw False by (simp add: extract_pk_values_holds)
        moreover have "created_keys_ok E table (Some b) keys" using rb keys by (simp add: created_keys_ok_def)
        moreover have "n < base_steps s table"
          using True ph by (auto simp: base_steps_def tp_total_steps_def split: if_splits)
        ultimately show ?thesis using emit[of "Some b" keys] b(1) True st(1) by auto
      qed
    qed
  qed
qed

lemma tp_emits_inv:
  assumes inv: "tp_inv E s" and t: "table \<in> set (map fst TPCH_TABLES)"
    and n: "the (tp_table_steps s table) < 65535" and em: "tp_emits E s table s' b pks p"
  shows "tp_inv E s'"
proof -
  from em obtain n ks ks' where st: "tp_table_steps s table = Some n" "tp_key_sets s table = Some ks"
    and new: "set (pn_update_keys p @ pn_delete_keys p) \<subseteq> ks_live ks \<union> set pks" "\<forall>k \<in> set pks. key_fits E table k"
      "length pks \<le> 2 ^ 24" "ks_inv ks'" "ks_live ks' = ks_live ks \<union> set pks - set (pn_delete_keys p)"
    and s': "s' = s\<lparr>tp_table_steps := (tp_table_steps s)(table \<mapsto> n + 1),
                 tp_key_sets := (tp_key_sets s)(table \<mapsto> ks'),
                 tp_op_counter := tp_op_counter s + int (rb_num_rows b)\<rparr>"
    unfolding tp_emits_def by blast
  have ks: "ks_inv ks" "ks_len ks \<le> n * 2 ^ 24" "\<forall>k \<in> ks_live ks. key_fits E table k"
    using inv t st unfolding tp_inv_def by (metis option.inject)+
  have "card (ks_live ks') \<le> card (ks_live ks \<union> set pks)"
    unfolding new(5) by (rule card_mono) (auto simp: ks_live_finite)
  also have "\<dots> \<le> card (ks_live ks) + length pks"
    using card_Un_le[of "ks_live ks" "set pks"] card_length[of pks] by linarith
  finally have "ks_len ks' \<le> (n + 1) * 2 ^ 24"
    using ks(1,2) new(3,4) by (simp add: ks.len_card)
  moreover have "\<forall>k \<in> ks_live ks'. key_fits E table k" using ks(3) new(2,5) by blast
  moreover have "parts_small E s'" using inv parts_small_frame[of s' s E] by (simp add: tp_inv_def s')
  ultimately show ?thesis using inv n st(1) new(4) unfolding tp_inv_def s' by auto
qed

lemma tp_ends_inv:
  assumes inv: "tp_inv E s" and t: "table \<in> set (map fst TPCH_TABLES)"
    and n: "the (tp_table_steps s table) < 65535" and en: "tp_ends s table s'"
  shows "tp_inv E s'"
proof -
  from en obtain n ks ks' where st: "tp_table_steps s table = Some n" "tp_key_sets s table = Some ks"
    and new: "ks_inv ks'" "ks_live ks' = ks_live ks"
    and s': "s' = s\<lparr>tp_table_steps := (tp_table_steps s)(table \<mapsto> (n + 1) mod 65536),
               tp_key_sets := (tp_key_sets s)(table \<mapsto> ks')\<rparr>"
    unfolding tp_ends_def by blast
  have ks: "ks_inv ks" "ks_len ks \<le> n * 2 ^ 24" "\<forall>k \<in> ks_live ks. key_fits E table k"
    using inv t st unfolding tp_inv_def by (metis option.inject)+
  have "ks_len ks' \<le> (n + 1) * 2 ^ 24" using ks(1,2) new by (simp add: ks.len_card)
  moreover have "(n + 1) mod 65536 = n + 1" using n st(1) by simp
  moreover have "parts_small E s'" using inv parts_small_frame[of s' s E] by (simp add: tp_inv_def s')
  ultimately show ?thesis using inv n st(1) new ks(3) unfolding tp_inv_def s' by auto
qed

end
