(* ===== verification/TpchRun.thy ===== *)
theory TpchRun
  imports Tpch
begin

text \<open>
  Whole runs of the TPC-H dataset: any interleaving of \<^verbatim>\<open>raw_next_batch\<close> calls on its tables, as
  the per-table tasks of the generator produce them. The operation indices of all tables
  together form one gapless sequence, and the change stream of every table replays.
\<close>

subsection \<open>Reading a batch\<close>

definition op_indices :: "record_batch \<Rightarrow> int list" where
  "op_indices b = (case index_of (rb_schema b) ''_op_index'' of
     Some c \<Rightarrow> map cell_int (arr_cells (rb_columns b ! c)) | None \<Rightarrow> [])"

definition batch_ops :: "record_batch \<Rightarrow> string list" where
  "batch_ops b = (case index_of (rb_schema b) ''_op'' of
     Some c \<Rightarrow> map (\<lambda>x. case x of Some (CStr op) \<Rightarrow> op | _ \<Rightarrow> []) (arr_cells (rb_columns b ! c)) | None \<Rightarrow> [])"

definition pk_list :: "'r tpch_env \<Rightarrow> string \<Rightarrow> record_batch \<Rightarrow> PrimaryKeyValue list" where
  "pk_list E table b = (case extract_pk_values E b (tp_primary_key table) of Some (Inr ks) \<Rightarrow> ks | _ \<Rightarrow> [])"

lemma index_of_append_new:
  "name \<notin> set (map fld_name s) \<Longrightarrow> index_of (s @ t) name = map_option ((+) (length s)) (index_of t name)"
  by (induction s) (cases "index_of t name"; auto)+

lemma tp_batch_reads:
  assumes sch: "schema_ok E table" and t: "table \<in> set (map fst TPCH_TABLES)"
    and b: "tp_batch E table pks p base b"
  shows "op_indices b = map (\<lambda>i. base + int i) [0..<rb_num_rows b]"
    "batch_ops b = replicate (length pks) ''c'' @ replicate (pn_num_updates p) ''u'' @ replicate (pn_num_deletes p) ''d''"
    "pk_list E table b = pks @ pn_update_keys p @ pn_delete_keys p"
proof -
  let ?native = "map (\<lambda>f. f\<lparr>fld_nullable := True\<rparr>) (te_schema E table)"
  have s: "rb_schema b = ?native @ [\<lparr>fld_name = ''_op'', fld_type = DUtf8, fld_nullable = False\<rparr>,
          \<lparr>fld_name = ''_op_index'', fld_type = DInt64, fld_nullable = False\<rparr>]"
    using b tpch_schema_known[OF t, of E] by (simp add: tp_batch_def)
  have "''_op'' \<notin> set (map fld_name ?native)" "''_op_index'' \<notin> set (map fld_name ?native)"
    using sch by (auto simp: schema_ok_def)
  then have i: "index_of (rb_schema b) ''_op'' = Some (length (te_schema E table))"
    "index_of (rb_schema b) ''_op_index'' = Some (Suc (length (te_schema E table)))"
    unfolding s by (simp_all add: index_of_append_new)
  show "op_indices b = map (\<lambda>i. base + int i) [0..<rb_num_rows b]"
    using b by (simp add: op_indices_def i tp_batch_def op_index_column_def)
  show "batch_ops b = replicate (length pks) ''c'' @ replicate (pn_num_updates p) ''u'' @ replicate (pn_num_deletes p) ''d''"
    using b by (simp add: batch_ops_def i tp_batch_def op_column_def)
  show "pk_list E table b = pks @ pn_update_keys p @ pn_delete_keys p"
    using b extract_pk_values_holds[of b "tp_primary_key table" "pks @ pn_update_keys p @ pn_delete_keys p" E]
    by (simp add: pk_list_def tp_batch_def)
qed

subsection \<open>Runs\<close>

fun tp_run ::
  "'r tpch_env \<Rightarrow> kernels \<Rightarrow> string list \<Rightarrow> tpch_dataset \<Rightarrow> 'r
     \<Rightarrow> ((string \<times> record_batch) list \<times> tpch_dataset \<times> 'r) option" where
  "tp_run E K [] s r = Some ([], s, r)"
| "tp_run E K (table # calls) s r =
     (case tp_raw_next_batch E K s table r of
        Some (Inr (Some b), s', r') \<Rightarrow> map_option (\<lambda>(bs, q). ((table, b) # bs, q)) (tp_run E K calls s' r')
      | Some (Inr None, s', r') \<Rightarrow> tp_run E K calls s' r'
      | _ \<Rightarrow> None)"

inductive tp_path ::
  "'r tpch_env \<Rightarrow> tpch_dataset \<Rightarrow> string list \<Rightarrow> (string \<times> record_batch) list \<Rightarrow> tpch_dataset \<Rightarrow> bool"
  for E where
  tp_path_Nil: "tp_path E s [] [] s"
| tp_path_Emit: "table \<in> set (map fst TPCH_TABLES) \<Longrightarrow> tp_inv E s \<Longrightarrow>
     the (tp_table_steps s table) < tp_total_steps s table \<Longrightarrow> tp_emits E s table s1 b pks p \<Longrightarrow>
     tp_path E s1 calls bs s' \<Longrightarrow> tp_path E s (table # calls) ((table, b) # bs) s'"
| tp_path_End: "table \<in> set (map fst TPCH_TABLES) \<Longrightarrow> tp_inv E s \<Longrightarrow>
     the (tp_table_steps s table) < 65535 \<Longrightarrow> tp_ends s table s1 \<Longrightarrow>
     tp_path E s1 calls bs s' \<Longrightarrow> tp_path E s (table # calls) bs s'"

lemma tp_total_steps_le: "tp_inv E s \<Longrightarrow> tp_total_steps s table \<le> 65535"
  by (auto simp: tp_total_steps_def tp_inv_def)

lemma tp_emits_frame:
  assumes "tp_emits E s table s' b pks p"
  shows "tp_scale_factor s' = tp_scale_factor s" "tp_num_steps s' = tp_num_steps s" "tp_mutations s' = tp_mutations s"
    "tp_op_counter s' = tp_op_counter s + int (rb_num_rows b)"
    "tp_table_steps s' = (tp_table_steps s)(table \<mapsto> Suc (the (tp_table_steps s table)))"
    "tp_batch E table pks p (tp_op_counter s) b"
  using assms unfolding tp_emits_def by auto

lemma tp_ends_frame:
  assumes "tp_ends s table s'" "the (tp_table_steps s table) < 65535"
  shows "tp_scale_factor s' = tp_scale_factor s" "tp_num_steps s' = tp_num_steps s" "tp_mutations s' = tp_mutations s"
    "tp_op_counter s' = tp_op_counter s"
    "tp_table_steps s' = (tp_table_steps s)(table \<mapsto> Suc (the (tp_table_steps s table)))"
  using assms unfolding tp_ends_def by auto

lemma tp_run_path:
  assumes E: "tpch_env_ok E" and K: "kernels_ok K" and "tp_inv E s" and "set calls \<subseteq> set (map fst TPCH_TABLES)"
    and "\<And>t. t \<in> set calls \<Longrightarrow> the (tp_table_steps s t) + count_list calls t \<le> 65535"
  shows "\<exists>bs s' r'. tp_run E K calls s r = Some (bs, s', r') \<and> tp_path E s calls bs s'"
  using assms(3-)
proof (induction calls arbitrary: s r)
  case Nil
  then show ?case by (simp add: tp_path_Nil)
next
  case (Cons table calls)
  have t: "table \<in> set (map fst TPCH_TABLES)" "set calls \<subseteq> set (map fst TPCH_TABLES)" using Cons.prems(2) by auto
  have n: "the (tp_table_steps s table) < 65535" using Cons.prems(3)[of table] by simp
  have step: "the (((tp_table_steps s)(table \<mapsto> Suc (the (tp_table_steps s table)))) u) + count_list calls u \<le> 65535"
    if "u \<in> set calls" for u using Cons.prems(3)[of u] that by (auto split: if_splits)
  from tp_raw_next_batch_ok[OF E K Cons.prems(1) t(1), of r] show ?case
  proof (elim disjE exE conjE)
    fix b s1 r1 pks p
    assume raw: "tp_raw_next_batch E K s table r = Some (Inr (Some b), s1, r1)"
      and lt: "the (tp_table_steps s table) < tp_total_steps s table" and em: "tp_emits E s table s1 b pks p"
    have "\<exists>bs s' r'. tp_run E K calls s1 r1 = Some (bs, s', r') \<and> tp_path E s1 calls bs s'"
      by (rule Cons.IH[OF tp_emits_inv[OF Cons.prems(1) t(1) n em] t(2)])
        (unfold tp_emits_frame(5)[OF em], erule step)
    then obtain bs s' r' where "tp_run E K calls s1 r1 = Some (bs, s', r')" "tp_path E s1 calls bs s'" by blast
    then show ?thesis using raw tp_path_Emit[OF t(1) Cons.prems(1) lt em] by auto
  next
    fix s1 r1
    assume raw: "tp_raw_next_batch E K s table r = Some (Inr None, s1, r1)" and en: "tp_ends s table s1"
    have "\<exists>bs s' r'. tp_run E K calls s1 r1 = Some (bs, s', r') \<and> tp_path E s1 calls bs s'"
      by (rule Cons.IH[OF tp_ends_inv[OF Cons.prems(1) t(1) n en] t(2)])
        (unfold tp_ends_frame(5)[OF en n], erule step)
    then obtain bs s' r' where "tp_run E K calls s1 r1 = Some (bs, s', r')" "tp_path E s1 calls bs s'" by blast
    then show ?thesis using raw tp_path_End[OF t(1) Cons.prems(1) n en] by auto
  qed
qed

lemma tp_path_batches:
  assumes "tp_path E s calls bs s'" "(table, b) \<in> set bs"
  shows "wf_batch b \<and> tpch_schema E table = Some (rb_schema b)"
  using assms by (induction rule: tp_path.induct) (auto dest!: tp_emits_frame(6) simp: tp_batch_def)

lemma tp_tables_schema:
  assumes "tpch_schema E t = Some sch"
  shows "map_option dt_schema (tp_tables E t) = Some sch"
proof -
  have "t \<in> set (map fst TPCH_TABLES)"
    using assms by (simp add: tpch_schema_def native_tpch_schema_def split: if_splits del: set_map)
  then obtain tc where "map_of TPCH_TABLES t = Some tc" by (metis map_of_eq_None_iff not_None_eq set_map)
  then show ?thesis by (simp add: tp_tables_def assms)
qed

lemma tp_path_indices:
  assumes "tp_path E s calls bs s'" "tpch_env_ok E"
  shows "concat (map (\<lambda>(t, b). op_indices b) bs)
     = map (\<lambda>i. tp_op_counter s + int i) [0..<sum_list (map (\<lambda>(t, b). rb_num_rows b) bs)]"
  using assms
proof (induction rule: tp_path.induct)
  case (tp_path_Nil s)
  then show ?case by simp
next
  case (tp_path_End table s s1 calls bs s')
  then show ?case using tp_ends_frame(4) by simp
next
  case (tp_path_Emit table s s1 b pks p calls bs s')
  let ?n = "rb_num_rows b" and ?m = "sum_list (map (\<lambda>(t, b). rb_num_rows b) bs)"
  note fr = tp_emits_frame[OF tp_path_Emit.hyps(4)]
  have "schema_ok E table" using tp_path_Emit.prems tp_path_Emit.hyps(1) unfolding tpch_env_ok_def by blast
  note ix = tp_batch_reads(1)[OF this tp_path_Emit.hyps(1) fr(6)]
  have "map (\<lambda>i. tp_op_counter s1 + int i) [0..<?m] = map (\<lambda>i. tp_op_counter s + int i) [?n..<?n + ?m]"
    by (rule nth_equalityI) (simp_all add: fr(4))
  then show ?case using tp_path_Emit.IH[OF tp_path_Emit.prems] ix
    by (simp add: upt_add_eq_append[of 0 ?n ?m, simplified])
qed

text \<open>No table yields more batches than its steps.\<close>

lemma tp_path_count:
  assumes "tp_path E s calls bs s'"
  shows "count_list (map fst bs) t \<le> tp_total_steps s t - the (tp_table_steps s t)"
  using assms
proof (induction rule: tp_path.induct)
  case (tp_path_Nil s)
  then show ?case by simp
next
  case (tp_path_Emit table s s1 b pks p calls bs s')
  note fr = tp_emits_frame[OF tp_path_Emit.hyps(4)]
  have "tp_total_steps s1 t = tp_total_steps s t" by (simp add: tp_total_steps_def fr)
  then show ?case using tp_path_Emit.IH tp_path_Emit.hyps(3) fr(5) by (auto split: if_splits)
next
  case (tp_path_End table s s1 calls bs s')
  note fr = tp_ends_frame[OF tp_path_End.hyps(4,3)]
  have "tp_total_steps s1 t = tp_total_steps s t" by (simp add: tp_total_steps_def fr)
  then show ?case using tp_path_End.IH fr(5) by (auto split: if_splits)
qed

subsection \<open>The change stream of a table\<close>

text \<open>
  Reference semantics on the set of present keys: a create needs an absent key, an update
  and a delete a present one.
\<close>

fun replay_keys :: "(string \<times> 'k) list \<Rightarrow> 'k set \<Rightarrow> 'k set option" where
  "replay_keys [] S = Some S"
| "replay_keys ((op, k) # cs) S =
     (if op = ''c'' then (if k \<in> S then None else replay_keys cs (insert k S))
      else if op = ''u'' then (if k \<in> S then replay_keys cs S else None)
      else if op = ''d'' then (if k \<in> S then replay_keys cs (S - {k}) else None)
      else None)"

definition batch_changes :: "'r tpch_env \<Rightarrow> string \<Rightarrow> record_batch \<Rightarrow> (string \<times> PrimaryKeyValue) list" where
  "batch_changes E table b = zip (batch_ops b) (pk_list E table b)"

definition table_changes ::
  "'r tpch_env \<Rightarrow> string \<Rightarrow> (string \<times> record_batch) list \<Rightarrow> (string \<times> PrimaryKeyValue) list" where
  "table_changes E table bs = concat (map (\<lambda>(t, b). if t = table then batch_changes E t b else []) bs)"

lemma replay_keys_append: "replay_keys (xs @ ys) S = Option.bind (replay_keys xs S) (replay_keys ys)"
  by (induction xs S rule: replay_keys.induct) auto

lemma replay_key_creates:
  "distinct ks \<Longrightarrow> set ks \<inter> S = {} \<Longrightarrow> replay_keys (zip (replicate (length ks) ''c'') ks) S = Some (S \<union> set ks)"
  by (induction ks arbitrary: S) auto

lemma replay_key_updates:
  "set ks \<subseteq> S \<Longrightarrow> replay_keys (zip (replicate (length ks) ''u'') ks) S = Some S"
  by (induction ks arbitrary: S) auto

lemma replay_key_deletes:
  "distinct ks \<Longrightarrow> set ks \<subseteq> S \<Longrightarrow> replay_keys (zip (replicate (length ks) ''d'') ks) S = Some (S - set ks)"
proof (induction ks arbitrary: S)
  case (Cons k ks)
  then have "set ks \<subseteq> S - {k}" by auto
  then have "replay_keys (zip (replicate (length ks) ''d'') ks) (S - {k}) = Some (S - {k} - set ks)"
    using Cons.IH[of "S - {k}"] Cons.prems(1) by simp
  moreover have "S - {k} - set ks = S - set (k # ks)" by auto
  ultimately show ?case using Cons.prems by simp
qed simp

lemma replay_batch:
  assumes "distinct cs" "set cs \<inter> S = {}" "distinct (us @ ds)" "set (us @ ds) \<subseteq> S \<union> set cs"
  shows "replay_keys (zip (replicate (length cs) ''c'' @ replicate (length us) ''u'' @ replicate (length ds) ''d'')
      (cs @ us @ ds)) S = Some (S \<union> set cs - set ds)"
  using assms replay_key_creates[of cs S] replay_key_updates[of us "S \<union> set cs"] replay_key_deletes[of ds "S \<union> set cs"]
  by (simp add: replay_keys_append)

text \<open>
  The generator's promise: within a table no two rows of its parts share a key.
\<close>

definition part_keys :: "'r tpch_env \<Rightarrow> tpch_dataset \<Rightarrow> string \<Rightarrow> nat \<Rightarrow> PrimaryKeyValue list" where
  "part_keys E s table n = (case part_batch E s table n of Some c \<Rightarrow> pk_list E table c | None \<Rightarrow> [])"

definition gen_fresh :: "'r tpch_env \<Rightarrow> tpch_dataset \<Rightarrow> bool" where
  "gen_fresh E s \<longleftrightarrow> (\<forall>table \<in> set (map fst TPCH_TABLES). \<forall>n < base_steps s table.
     distinct (part_keys E s table n) \<and> (\<forall>m < n. set (part_keys E s table m) \<inter> set (part_keys E s table n) = {}))"

definition live_keys :: "tpch_dataset \<Rightarrow> string \<Rightarrow> PrimaryKeyValue set" where
  "live_keys s table = (case tp_key_sets s table of Some ks \<Rightarrow> set (ks_keys ks) | None \<Rightarrow> {})"

definition keys_from_parts :: "'r tpch_env \<Rightarrow> tpch_dataset \<Rightarrow> bool" where
  "keys_from_parts E s \<longleftrightarrow> (\<forall>table \<in> set (map fst TPCH_TABLES). \<forall>k \<in> live_keys s table.
     \<exists>m < the (tp_table_steps s table). k \<in> set (part_keys E s table m))"

lemma part_keys_frame:
  "tp_scale_factor s' = tp_scale_factor s \<Longrightarrow> tp_num_steps s' = tp_num_steps s \<Longrightarrow>
     part_keys E s' = part_keys E s \<and> base_steps s' = base_steps s \<and> gen_fresh E s' = gen_fresh E s"
  by (simp add: fun_eq_iff part_keys_def part_batch_def base_steps_def gen_fresh_def)

lemma tp_emits_keys:
  assumes t: "table \<in> set (map fst TPCH_TABLES)" and E: "tpch_env_ok E" and em: "tp_emits E s table s' b pks p"
    and fresh: "gen_fresh E s" and kp: "keys_from_parts E s"
  shows "replay_keys (batch_changes E table b) (live_keys s table) = Some (live_keys s' table)"
    "keys_from_parts E s'" "u \<noteq> table \<Longrightarrow> live_keys s' u = live_keys s u"
proof -
  from em obtain n ks ks' where st: "tp_table_steps s table = Some n" "tp_key_sets s table = Some ks"
    and b: "tp_batch E table pks p (tp_op_counter s) b"
    and len: "length (pn_update_keys p) = pn_num_updates p" "length (pn_delete_keys p) = pn_num_deletes p"
    and new: "distinct (pn_update_keys p @ pn_delete_keys p)"
      "set (pn_update_keys p @ pn_delete_keys p) \<subseteq> ks_live ks \<union> set pks"
      "pks = [] \<or> n < base_steps s table \<and> (\<exists>c. part_batch E s table n = Some c \<and> holds_keys c (tp_primary_key table) pks)"
      "ks_live ks' = ks_live ks \<union> set pks - set (pn_delete_keys p)"
    and s': "s' = s\<lparr>tp_table_steps := (tp_table_steps s)(table \<mapsto> n + 1),
                 tp_key_sets := (tp_key_sets s)(table \<mapsto> ks'),
                 tp_op_counter := tp_op_counter s + int (rb_num_rows b)\<rparr>"
    unfolding tp_emits_def by blast
  have live: "live_keys s table = ks_live ks" "live_keys s' table = ks_live ks'"
    by (simp_all add: live_keys_def st s' ks_live_def)
  have pk: "pks = [] \<or> n < base_steps s table \<and> part_keys E s table n = pks"
    using new(3) by (auto simp: part_keys_def pk_list_def extract_pk_values_holds)
  have old: "\<exists>m < n. k \<in> set (part_keys E s table m)" if "k \<in> ks_live ks" for k
    using kp t that st(1) live(1) unfolding keys_from_parts_def by (metis option.sel)
  have cs: "distinct pks" "set pks \<inter> ks_live ks = {}"
  proof -
    have "pks \<noteq> [] \<Longrightarrow> distinct pks \<and> set pks \<inter> ks_live ks = {}"
    proof -
      assume "pks \<noteq> []"
      then have n: "n < base_steps s table" "part_keys E s table n = pks" using pk by simp_all
      have f: "distinct (part_keys E s table n)" "\<And>m. m < n \<Longrightarrow> set (part_keys E s table m) \<inter> set (part_keys E s table n) = {}"
        using fresh t n(1) unfolding gen_fresh_def by blast+
      then show ?thesis using old n(2) by blast
    qed
    then show "distinct pks" "set pks \<inter> ks_live ks = {}" by (cases "pks = []"; simp)+
  qed
  have "schema_ok E table" using E t unfolding tpch_env_ok_def by blast
  note rd = tp_batch_reads[OF this t b]
  show "replay_keys (batch_changes E table b) (live_keys s table) = Some (live_keys s' table)"
    using replay_batch[OF cs new(1,2)] new(4) len by (simp add: batch_changes_def rd(2,3) live)
  have fr: "part_keys E s' = part_keys E s" using part_keys_frame[of s' s E] s' by simp
  have "\<exists>m < n + 1. k \<in> set (part_keys E s table m)" if "k \<in> ks_live ks'" for k
  proof (cases "k \<in> set pks")
    case True
    then show ?thesis using pk by auto
  next
    case False
    then have "k \<in> ks_live ks" using that new(4) by blast
    then show ?thesis using old less_SucI by fastforce
  qed
  then show "keys_from_parts E s'"
    using kp unfolding keys_from_parts_def fr by (auto simp: s' live_keys_def ks_live_def)
  show "live_keys s' u = live_keys s u" if "u \<noteq> table" using that by (simp add: s' live_keys_def)
qed

lemma tp_ends_keys:
  assumes en: "tp_ends s table s'" and n: "the (tp_table_steps s table) < 65535"
  shows "live_keys s' = live_keys s" "keys_from_parts E s \<Longrightarrow> keys_from_parts E s'"
proof -
  note fr = tp_ends_frame[OF en n]
  show live: "live_keys s' = live_keys s"
    using en by (auto simp: tp_ends_def live_keys_def ks_live_def fun_eq_iff split: option.splits if_splits)
  show "keys_from_parts E s'" if kp: "keys_from_parts E s"
  proof (unfold keys_from_parts_def, intro ballI)
    fix u k assume "u \<in> set (map fst TPCH_TABLES)" "k \<in> live_keys s' u"
    then obtain m where m: "m < the (tp_table_steps s u)" "k \<in> set (part_keys E s u m)"
      using kp unfolding keys_from_parts_def live by blast
    moreover have "the (tp_table_steps s u) \<le> the (tp_table_steps s' u)" by (simp add: fr(5))
    ultimately show "\<exists>m < the (tp_table_steps s' u). k \<in> set (part_keys E s' u m)"
      using part_keys_frame[OF fr(1,2), of E] by (metis order_less_le_trans)
  qed
qed

lemma tp_path_replays:
  assumes "tp_path E s calls bs s'" "tpch_env_ok E" "gen_fresh E s" "keys_from_parts E s"
  shows "replay_keys (table_changes E u bs) (live_keys s u) = Some (live_keys s' u)"
  using assms
proof (induction rule: tp_path.induct)
  case (tp_path_Nil s)
  then show ?case by (simp add: table_changes_def)
next
  case (tp_path_End table s s1 calls bs s')
  note fr = tp_ends_frame[OF tp_path_End.hyps(4,3)] and k = tp_ends_keys[OF tp_path_End.hyps(4,3)]
  have "gen_fresh E s1" using part_keys_frame[OF fr(1,2), of E] tp_path_End.prems(2) by simp
  from tp_path_End.IH[OF tp_path_End.prems(1) this k(2)[OF tp_path_End.prems(3)]] k(1) show ?case by simp
next
  case (tp_path_Emit table s s1 b pks p calls bs s')
  note fr = tp_emits_frame[OF tp_path_Emit.hyps(4)]
  note k = tp_emits_keys[OF tp_path_Emit.hyps(1) tp_path_Emit.prems(1) tp_path_Emit.hyps(4) tp_path_Emit.prems(2,3)]
  have "gen_fresh E s1" using part_keys_frame[OF fr(1,2), of E] tp_path_Emit.prems(2) by simp
  from tp_path_Emit.IH[OF tp_path_Emit.prems(1) this k(2)]
  have "replay_keys (table_changes E u bs) (live_keys s1 u) = Some (live_keys s' u)" .
  then show ?case using k(1) k(3)[of u]
    by (cases "u = table") (simp_all add: table_changes_def replay_keys_append)
qed

lemma tp_new_steps: "tp_table_steps (tp_new c m) t = (if t \<in> set (map fst TPCH_TABLES) then Some 0 else None)"
  by (simp add: tp_new_def TPCH_TABLES_def)

lemma tp_new_key_sets: "tp_key_sets (tp_new c m) t = (if t \<in> set (map fst TPCH_TABLES) then Some ks_new else None)"
  by (simp add: tp_new_def TPCH_TABLES_def)

lemma tp_new_inv:
  assumes "mutations_ok m" "dc_num_steps c \<le> 65535" "parts_small E (tp_new c m)"
  shows "tp_inv E (tp_new c m)"
  unfolding tp_inv_def tp_new_steps tp_new_key_sets
  using assms by (simp add: tp_new_def ks_inv_new ks_live_new ks_len_def) (simp add: ks_new_def)

lemma tp_new_live: "live_keys (tp_new c m) t = {}"
  by (simp add: live_keys_def tp_new_key_sets ks_new_def del: set_map)

lemma tp_new_run:
  assumes E: "tpch_env_ok E" and K: "kernels_ok K" and "mutations_ok m" "dc_num_steps c \<le> 65535"
    and calls: "set calls \<subseteq> set (map fst TPCH_TABLES)" "\<And>t. count_list calls t \<le> 65535" and ps: "parts_small E (tp_new c m)"
  shows "\<exists>bs s' r'. tp_run E K calls (tp_new c m) r = Some (bs, s', r') \<and> tp_path E (tp_new c m) calls bs s'"
proof (rule tp_run_path[OF E K _ calls(1)])
  show "tp_inv E (tp_new c m)" using assms(3,4) ps by (rule tp_new_inv)
  show "the (tp_table_steps (tp_new c m) t) + count_list calls t \<le> 65535" if "t \<in> set calls" for t
    using that calls by (auto simp: tp_new_steps simp del: set_map)
qed

text \<open>
  C26. Whatever the interleaving of calls on the eight tables, a fresh TPC-H dataset answers each
  with a batch or the end of the table, never with an error or a panic; every batch has the
  schema the dataset declares for its table, no table yields more batches than
  \<open>num_batches\<close>, and the \<open>_op_index\<close> values of all tables together, in the order of the
  calls, are exactly \<open>0, 1, 2, ...\<close>. The parts of the run have at most \<open>2 ^ 24\<close> rows each.
\<close>

theorem tpch_run_ordered:
  assumes "tpch_env_ok E" and "kernels_ok K" and "mutations_ok m" and "dc_num_steps c \<le> 65535"
    and "set calls \<subseteq> set (map fst TPCH_TABLES)" and "\<And>t. count_list calls t \<le> 65535" and "parts_small E (tp_new c m)"
  shows "\<exists>bs s' r'. tp_run E K calls (tp_new c m) r = Some (bs, s', r')
     \<and> (\<forall>(t, b) \<in> set bs. wf_batch b \<and> map_option dt_schema (tp_tables E t) = Some (rb_schema b))
     \<and> (\<forall>t. count_list (map fst bs) t \<le> tp_num_batches (tp_new c m) t)
     \<and> concat (map (\<lambda>(t, b). op_indices b) bs) = map int [0..<sum_list (map (\<lambda>(t, b). rb_num_rows b) bs)]"
proof -
  let ?s = "tp_new c m"
  obtain bs s' r' where d: "tp_run E K calls ?s r = Some (bs, s', r')" "tp_path E ?s calls bs s'"
    using tp_new_run[OF assms] by blast
  have "map_option dt_schema (tp_tables E t) = Some (rb_schema b)" if "(t, b) \<in> set bs" for t b
    using tp_path_batches[OF d(2) that] by (simp add: tp_tables_schema)
  moreover have "count_list (map fst bs) t \<le> tp_num_batches ?s t" for t
  proof (cases "t \<in> set (map fst TPCH_TABLES)")
    case True
    then show ?thesis using tp_path_count[OF d(2), of t]
      by (auto simp: tp_num_batches_def tp_total_steps_def tp_new_steps simp del: set_map split: if_splits)
  next
    case False
    moreover have "set (map fst bs) \<subseteq> set (map fst TPCH_TABLES)"
      using d(2) by (induction rule: tp_path.induct) auto
    ultimately show ?thesis by (metis count_list_0_iff le0 subsetD)
  qed
  moreover have "concat (map (\<lambda>(t, b). op_indices b) bs) = map int [0..<sum_list (map (\<lambda>(t, b). rb_num_rows b) bs)]"
    using tp_path_indices[OF d(2) assms(1)] by (simp add: tp_new_def)
  ultimately show ?thesis using d(1) tp_path_batches[OF d(2)] by blast
qed

text \<open>
  C25. When the generator never repeats a key within a table, the change stream of every table of
  a TPC-H run replays on a keyed table from empty: each create meets an absent key, each
  update and delete a present one, and the keys present at the end are the keys the dataset
  considers live, for every interleaving of the tables and every outcome of the random
  choices. The parts of the run have at most \<open>2 ^ 24\<close> rows each.
\<close>

theorem tpch_changes_replay:
  assumes "tpch_env_ok E" and "kernels_ok K" and "mutations_ok m" and "dc_num_steps c \<le> 65535"
    and "set calls \<subseteq> set (map fst TPCH_TABLES)" and "\<And>t. count_list calls t \<le> 65535"
    and "parts_small E (tp_new c m)" and "gen_fresh E (tp_new c m)"
  shows "\<exists>bs s' r'. tp_run E K calls (tp_new c m) r = Some (bs, s', r')
     \<and> (\<forall>t. replay_keys (table_changes E t bs) {} = Some (live_keys s' t))"
proof -
  obtain bs s' r' where d: "tp_run E K calls (tp_new c m) r = Some (bs, s', r')" "tp_path E (tp_new c m) calls bs s'"
    using tp_new_run[OF assms(1-7)] by blast
  have "keys_from_parts E (tp_new c m)" by (simp add: keys_from_parts_def tp_new_live)
  then show ?thesis using tp_path_replays[OF d(2) assms(1,8)] d(1) by (auto simp: tp_new_live)
qed

subsection \<open>A concrete generator\<close>

text \<open>
  An environment that meets the contracts: every part of every table is one row whose key
  columns carry the part number, beside one text column.
\<close>

definition demo_tpch_schema :: "string \<Rightarrow> schema" where
  "demo_tpch_schema t = map (\<lambda>n. \<lparr>fld_name = n, fld_type = DInt64, fld_nullable = False\<rparr>) (tp_primary_key t)
     @ [\<lparr>fld_name = ''comment'', fld_type = DUtf8, fld_nullable = False\<rparr>]"

definition demo_part :: "string \<Rightarrow> nat \<Rightarrow> record_batch" where
  "demo_part t part = \<lparr>rb_schema = demo_tpch_schema t,
     rb_columns = map (\<lambda>_. \<lparr>arr_type = DInt64, arr_cells = [Some (CInt (int part))]\<rparr>) (tp_primary_key t)
       @ [\<lparr>arr_type = DUtf8, arr_cells = [Some (CStr ''row'')]\<rparr>],
     rb_num_rows = 1\<rparr>"

definition demo_tpch :: "nat tpch_env" where
  "demo_tpch = \<lparr>te_gen = (\<lambda>t sf part parts n. Some (demo_part t part)), te_schema = demo_tpch_schema,
     te_concat = (\<lambda>as. Inr \<lparr>arr_type = arr_type (hd as), arr_cells = concat (map arr_cells as)\<rparr>),
     te_with_precision_and_scale = (\<lambda>p sc a. Inr (a\<lparr>arr_type := DDecimal128 p sc\<rparr>)),
     te_null_i64 = 0, te_rr = cycle_rng, te_hash = sorted_list_of_set\<rparr>"

lemma demo_names: "{''_op'', ''_op_index'', ''comment''} \<inter> set (tp_primary_key t) = {}"
  by (simp add: tp_primary_key_def)

lemma demo_schema_names: "map fld_name (demo_tpch_schema t) = tp_primary_key t @ [''comment'']"
  by (simp add: demo_tpch_schema_def comp_def)

lemma index_of_member: "name \<in> set (map fld_name s) \<Longrightarrow> index_of s name \<noteq> None"
  by (induction s) auto

lemma demo_schema_ok: "schema_ok demo_tpch t"
proof -
  have "index_of (demo_tpch_schema t) name \<noteq> None" if "name \<in> set (tp_primary_key t)" for name
    using that by (intro index_of_member) (simp add: demo_schema_names del: set_map)
  moreover have "if fld_name f \<in> set (tp_primary_key t) then pk_type (fld_type f) else random_ok (fld_type f)"
    if "f \<in> set (demo_tpch_schema t)" for f
    using that demo_names[of t] by (auto simp: demo_tpch_schema_def pk_type_def)
  moreover have "distinct (map fld_name (demo_tpch_schema t))"
    "{''_op'', ''_op_index''} \<inter> set (map fld_name (demo_tpch_schema t)) = {}"
    unfolding demo_schema_names using demo_names[of t] tp_primary_key_distinct[of t] by auto
  ultimately show ?thesis by (simp add: schema_ok_def demo_tpch_def)
qed

lemma demo_raw_ok: "raw_ok demo_tpch t (demo_part t part)"
  using demo_names[of t]
  by (auto simp: raw_ok_def demo_tpch_def demo_part_def demo_tpch_schema_def wf_batch_def wf_column_def
      list_all2_conv_all_nth nth_append less_Suc_eq)

lemma demo_tpch_ok: "tpch_env_ok demo_tpch"
  unfolding tpch_env_ok_def
proof (intro conjI ballI allI impI)
  show "rng_in_range (te_rr demo_tpch)" by (simp add: demo_tpch_def cycle_rng_in_range)
  show "rng_fair (te_rr demo_tpch) len" for len by (simp add: demo_tpch_def cycle_rng_fair)
  show "hash_order_ok (te_hash demo_tpch)" by (simp add: demo_tpch_def hash_order_sorted)
  show "concat_array_spec (te_concat demo_tpch)" by (auto simp: demo_tpch_def concat_array_spec_def)
  show "with_ps_spec (te_with_precision_and_scale demo_tpch)" by (simp add: demo_tpch_def with_ps_spec_def)
  show "schema_ok demo_tpch table" for table by (rule demo_schema_ok)
  show "raw_ok demo_tpch table b" if "te_gen demo_tpch table sf part parts n = Some b" for table sf part parts n b
    using that demo_raw_ok by (auto simp: demo_tpch_def)
qed

definition demo_tpch_config :: DatasetConfig where
  "demo_tpch_config = \<lparr>dc_dataset_type = ''tpch'', dc_scale_factor = 1, dc_num_steps = 2\<rparr>"

definition demo_tpch_mutations :: MutationConfig where
  "demo_tpch_mutations = \<lparr>update_ratio = 1 / 2, delete_ratio = 1 / 4, bootstrap = True, num_mutation_steps = 1,
     churn_fraction = 1\<rparr>"

definition demo_calls :: "string list" where
  "demo_calls = [''orders'', ''nation'', ''orders'', ''lineitem'', ''orders'']"

lemma demo_mutations_ok: "mutations_ok demo_tpch_mutations"
  by (simp add: mutations_ok_def ratios_ok_def demo_tpch_mutations_def)

lemma demo_calls_ok:
  "set demo_calls \<subseteq> set (map fst TPCH_TABLES)" "count_list demo_calls t \<le> 65535"
proof -
  have "count_list demo_calls t \<le> length demo_calls" by (rule count_le_length)
  then show "count_list demo_calls t \<le> 65535" by (simp add: demo_calls_def)
  show "set demo_calls \<subseteq> set (map fst TPCH_TABLES)" by (simp add: demo_calls_def TPCH_TABLES_def)
qed

lemma index_of_nth: "distinct (map fld_name s) \<Longrightarrow> j < length s \<Longrightarrow> index_of s (fld_name (s ! j)) = Some j"
proof (induction s arbitrary: j)
  case (Cons f s)
  then show ?case by (cases j) auto
qed simp

lemma demo_part_holds:
  "holds_keys (demo_part t part) (tp_primary_key t) [mk_key (map (\<lambda>_. int part) (tp_primary_key t))]"
proof (unfold holds_keys_def, intro conjI ballI allI impI)
  fix j assume j: "j < length (tp_primary_key t)"
  have "index_of (demo_tpch_schema t) (fld_name (demo_tpch_schema t ! j)) = Some j"
    using demo_schema_ok[of t] j by (intro index_of_nth) (simp_all add: schema_ok_def demo_tpch_def demo_tpch_schema_def)
  then show "\<exists>c. index_of (rb_schema (demo_part t part)) (tp_primary_key t ! j) = Some c
      \<and> (arr_type (rb_columns (demo_part t part) ! c) = DInt32 \<or> arr_type (rb_columns (demo_part t part) ! c) = DInt64)
      \<and> arr_cells (rb_columns (demo_part t part) ! c)
         = key_cells j [mk_key (map (\<lambda>_. int part) (tp_primary_key t))]"
    using j by (simp add: demo_part_def demo_tpch_schema_def nth_append key_cells_def)
qed (simp_all add: demo_part_def key_wf_def)

lemma demo_part_keys:
  assumes "t \<in> set (map fst TPCH_TABLES)" "n < base_steps s t"
  shows "part_keys demo_tpch s t n = [mk_key (map (\<lambda>_. int (n + 1)) (tp_primary_key t))]"
proof -
  have "native_tpch_schema demo_tpch t \<noteq> None" using assms(1) by (simp add: native_tpch_schema_def del: set_map)
  then have pb: "part_batch demo_tpch s t n = Some (demo_part t (n + 1))"
    using assms(2) by (auto simp: part_batch_def generate_raw_batch_def demo_tpch_def base_steps_def split: if_splits)
  have "holds_keys (demo_part t (n + 1)) (tp_primary_key t) [mk_key (map (\<lambda>_. int (n + 1)) (tp_primary_key t))]"
    by (rule demo_part_holds)
  then show ?thesis by (simp add: part_keys_def pb pk_list_def extract_pk_values_holds)
qed

lemma demo_parts_small: "parts_small demo_tpch s"
  by (auto simp: parts_small_def part_batch_def generate_raw_batch_def native_tpch_schema_def demo_tpch_def demo_part_def
      simp del: set_map split: if_splits)

lemma demo_gen_fresh: "gen_fresh demo_tpch s"
  unfolding gen_fresh_def
proof (intro ballI allI impI conjI)
  fix t n assume t: "t \<in> set (map fst TPCH_TABLES)" and n: "n < base_steps s t"
  note k = demo_part_keys[OF t]
  show "distinct (part_keys demo_tpch s t n)" by (simp add: k[OF n])
  fix m assume m: "m < n"
  then have "m < base_steps s t" using n by simp
  moreover have "tp_primary_key t \<noteq> []" using t by (auto simp: TPCH_TABLES_def tp_primary_key_def)
  then have "mk_key (map (\<lambda>_. int (m + 1)) (tp_primary_key t)) \<noteq> mk_key (map (\<lambda>_. int (n + 1)) (tp_primary_key t))"
    using m by (metis (no_types, lifting) add_right_imp_eq key_vals_mk_key list.map_disc_iff list.set_sel(1) map_eq_conv nat_less_le of_nat_eq_iff)
  ultimately show "set (part_keys demo_tpch s t m) \<inter> set (part_keys demo_tpch s t n) = {}" by (simp add: k n)
qed

theorem tpch_run_ordered_witness:
  "\<exists>bs s' r'. tp_run demo_tpch list_kernels demo_calls (tp_new demo_tpch_config demo_tpch_mutations) 0 = Some (bs, s', r')
     \<and> (\<forall>(t, b) \<in> set bs. wf_batch b \<and> map_option dt_schema (tp_tables demo_tpch t) = Some (rb_schema b))
     \<and> (\<forall>t. count_list (map fst bs) t \<le> tp_num_batches (tp_new demo_tpch_config demo_tpch_mutations) t)
     \<and> concat (map (\<lambda>(t, b). op_indices b) bs) = map int [0..<sum_list (map (\<lambda>(t, b). rb_num_rows b) bs)]"
  by (rule tpch_run_ordered[OF demo_tpch_ok list_kernels_ok demo_mutations_ok _ demo_calls_ok demo_parts_small])
    (simp add: demo_tpch_config_def)

theorem tpch_changes_replay_witness:
  "\<exists>bs s' r'. tp_run demo_tpch list_kernels demo_calls (tp_new demo_tpch_config demo_tpch_mutations) 0 = Some (bs, s', r')
     \<and> (\<forall>t. replay_keys (table_changes demo_tpch t bs) {} = Some (live_keys s' t))"
  by (rule tpch_changes_replay[OF demo_tpch_ok list_kernels_ok demo_mutations_ok _ demo_calls_ok demo_parts_small demo_gen_fresh])
    (simp add: demo_tpch_config_def)

end
