(* ===== verification/SimpleSequence.thy ===== *)
theory SimpleSequence
  imports KeySet Dataset
begin

text \<open>
  \<^verbatim>\<open>crates/data-generation/src/dataset/simple_sequence.rs\<close>: the integer-sequence dataset, one
  table whose batches mix creates, updates and deletes against the set of live keys. The
  atomics and the mutex-protected key set are the fields of one record, and a call of
  \<^verbatim>\<open>raw_next_batch\<close> is one transition of it. The 64-bit counters are integers: they grow by at
  most the batch size at each of at most 65535 steps.
\<close>

record simple_sequence =
  sq_batch_size :: nat
  sq_num_steps :: nat
  sq_current_offset :: int
  sq_remaining_steps :: nat
  sq_mutations :: MutationConfig
  sq_key_set :: "int indexed_key_set"
  sq_op_counter :: int

definition sq_new :: "DatasetConfig \<Rightarrow> MutationConfig \<Rightarrow> simple_sequence" where
  "sq_new config mutations = \<lparr>
     sq_batch_size = f64_as_usize (f64_mul (dc_scale_factor config) 1000),
     sq_num_steps = dc_num_steps config,
     sq_current_offset = 0,
     sq_remaining_steps = dc_num_steps config,
     sq_mutations = mutations,
     sq_key_set = ks_new,
     sq_op_counter = 0\<rparr>"

definition sq_schema :: schema where
  "sq_schema = [
     \<lparr>fld_name = ''id'', fld_type = DInt64, fld_nullable = False\<rparr>,
     \<lparr>fld_name = ''value'', fld_type = DInt64, fld_nullable = True\<rparr>,
     \<lparr>fld_name = ''_op'', fld_type = DUtf8, fld_nullable = False\<rparr>,
     \<lparr>fld_name = ''_op_index'', fld_type = DInt64, fld_nullable = False\<rparr>]"

definition sq_primary_key :: "string \<Rightarrow> string list" where
  "sq_primary_key table = [''id'']"

definition sq_partition_columns :: "string \<Rightarrow> string list" where
  "sq_partition_columns table = []"

definition sq_num_batches :: "simple_sequence \<Rightarrow> string \<Rightarrow> nat" where
  "sq_num_batches s table = sq_num_steps s"

definition sq_tables :: "string \<rightharpoonup> DatasetTable" where
  "sq_tables = [''integer_sequence'' \<mapsto> \<lparr>dt_name = ''integer_sequence'', dt_schema = sq_schema,
                                           dt_time_column = ''inserted_at''\<rparr>]"

subsection \<open>One batch\<close>

text \<open>The counts of creates, updates and deletes of a batch, from the number of live keys.\<close>

definition sq_cap :: "nat \<Rightarrow> nat \<Rightarrow> nat \<Rightarrow> nat \<times> nat" where
  "sq_cap existing_count num_updates num_deletes =
     (if num_updates + num_deletes > existing_count
      then let scale = f64_div (f64_of_nat existing_count) (f64_of_nat (num_updates + num_deletes))
           in (f64_as_usize (f64_mul (f64_of_nat num_updates) scale),
               f64_as_usize (f64_mul (f64_of_nat num_deletes) scale))
      else (num_updates, num_deletes))"

definition sq_op_counts :: "MutationConfig \<Rightarrow> nat \<Rightarrow> nat \<Rightarrow> nat \<times> nat \<times> nat" where
  "sq_op_counts mutations total_rows existing_count =
     (if existing_count = 0 then (total_rows, 0, 0)
      else let num_updates = f64_round_usize (f64_mul (f64_of_nat total_rows) (update_ratio mutations));
               num_deletes = f64_round_usize (f64_mul (f64_of_nat total_rows) (delete_ratio mutations))
           in case sq_cap existing_count num_updates num_deletes of
                (u, d) \<Rightarrow> (total_rows - (u + d), u, d))"

text \<open>The four vectors a call fills, with the running operation index.\<close>

record op_rows =
  or_ids :: "int list"
  or_values :: "int option list"
  or_ops :: "string list"
  or_op_indices :: "int list"
  or_op_idx :: int

definition push_row :: "op_rows \<Rightarrow> int \<Rightarrow> int option \<Rightarrow> string \<Rightarrow> op_rows" where
  "push_row acc key v op = \<lparr>or_ids = or_ids acc @ [key], or_values = or_values acc @ [v],
     or_ops = or_ops acc @ [op], or_op_indices = or_op_indices acc @ [or_op_idx acc],
     or_op_idx = or_op_idx acc + 1\<rparr>"

fun push_creates :: "int list \<Rightarrow> op_rows \<times> int indexed_key_set \<Rightarrow> op_rows \<times> int indexed_key_set" where
  "push_creates [] st = st"
| "push_creates (key # keys) (acc, ks) =
     push_creates keys (push_row acc key (Some (key * 10)) ''c'', snd (ks_insert ks key))"

fun push_updates :: "'r random_range \<Rightarrow> int list \<Rightarrow> op_rows \<times> 'r \<Rightarrow> op_rows \<times> 'r" where
  "push_updates rr [] st = st"
| "push_updates rr (key # keys) (acc, r) =
     (case rr r 0 1000000 of
        (v, r') \<Rightarrow> push_updates rr keys (push_row acc key (Some (int v)) ''u'', r'))"

fun push_deletes :: "int list \<Rightarrow> op_rows \<times> int indexed_key_set \<Rightarrow> (op_rows \<times> int indexed_key_set) option" where
  "push_deletes [] st = Some st"
| "push_deletes (key # keys) (acc, ks) =
     (case ks_remove ks key of
        None \<Rightarrow> None
      | Some (_, ks') \<Rightarrow> push_deletes keys (push_row acc key None ''d'', ks'))"

definition sq_columns :: "op_rows \<Rightarrow> array list" where
  "sq_columns acc = [
     \<lparr>arr_type = DInt64, arr_cells = map (\<lambda>i. Some (CInt i)) (or_ids acc)\<rparr>,
     \<lparr>arr_type = DInt64, arr_cells = map (map_option CInt) (or_values acc)\<rparr>,
     \<lparr>arr_type = DUtf8, arr_cells = map (\<lambda>op. Some (CStr op)) (or_ops acc)\<rparr>,
     \<lparr>arr_type = DInt64, arr_cells = map (\<lambda>i. Some (CInt i)) (or_op_indices acc)\<rparr>]"

text \<open>
  \<^verbatim>\<open>raw_next_batch\<close>. The outer \<open>None\<close> is a panic (a slice out of range, a failed
  \<^verbatim>\<open>swap_remove\<close>) or sampling that never returns; the generator state \<open>r\<close> is threaded.
  \<^verbatim>\<open>fetch_sub\<close> on an exhausted counter wraps and is undone by the store of zero.
\<close>

definition sq_fill ::
  "kernels \<Rightarrow> 'r random_range \<Rightarrow> (nat set \<Rightarrow> nat list) \<Rightarrow> simple_sequence \<Rightarrow> 'r
     \<Rightarrow> ((string + record_batch option) \<times> simple_sequence \<times> 'r) option" where
  "sq_fill K rr ho s r =
     (case sq_op_counts (sq_mutations s) (sq_batch_size s) (ks_len (sq_key_set s)) of
        (num_creates, num_updates, num_deletes) \<Rightarrow>
      (case ks_sample_keys rr ho (sq_key_set s) (num_updates + num_deletes) r of
         None \<Rightarrow> None
       | Some (mutation_keys, r1) \<Rightarrow>
         if num_updates > length mutation_keys then None
         else
           let update_keys = take num_updates mutation_keys;
               delete_keys = drop num_updates mutation_keys;
               op_base = sq_op_counter s;
               id_offset = sq_current_offset s;
               s1 = s\<lparr>sq_op_counter := op_base + int (sq_batch_size s),
                      sq_current_offset := id_offset + int num_creates\<rparr>;
               acc0 = \<lparr>or_ids = [], or_values = [], or_ops = [], or_op_indices = [], or_op_idx = op_base\<rparr>
           in case push_creates (map (\<lambda>i. id_offset + int i) [0..<num_creates]) (acc0, sq_key_set s) of
                (acc1, ks1) \<Rightarrow>
              (case push_updates rr update_keys (acc1, r1) of
                 (acc2, r2) \<Rightarrow>
               (case push_deletes delete_keys (acc2, ks1) of
                  None \<Rightarrow> None
                | Some (acc3, ks2) \<Rightarrow>
                    Some (and_then (k_try_new K sq_schema (sq_columns acc3)) (\<lambda>b. Inr (Some b)),
                          s1\<lparr>sq_key_set := ks2\<rparr>, r2)))))"

definition sq_raw_next_batch ::
  "kernels \<Rightarrow> 'r random_range \<Rightarrow> (nat set \<Rightarrow> nat list) \<Rightarrow> simple_sequence \<Rightarrow> 'r
     \<Rightarrow> ((string + record_batch option) \<times> simple_sequence \<times> 'r) option" where
  "sq_raw_next_batch K rr ho s r =
     (let prev = sq_remaining_steps s;
          s0 = s\<lparr>sq_remaining_steps := (prev + 65535) mod 65536\<rparr>
      in if prev = 0 then Some (Inr None, s0\<lparr>sq_remaining_steps := 0\<rparr>, r)
         else sq_fill K rr ho s0 r)"

subsection \<open>Operation counts\<close>

lemma sq_cap_le:
  assumes "u \<le> 2 ^ 25" "d \<le> 2 ^ 25" "sq_cap e u d = (u', d')"
  shows "u' + d' \<le> e"
  using assms capped_sum_le[OF assms(1,2), of e] by (auto simp: sq_cap_def Let_def split: if_splits)

lemma sq_op_counts_le:
  assumes "ratios_ok m" "n < 2 ^ 25" "sq_op_counts m n e = (c, u, d)"
  shows "u + d \<le> e" "c = n - (u + d)"
proof -
  let ?u = "f64_round_usize (f64_mul (f64_of_nat n) (update_ratio m))"
  let ?d = "f64_round_usize (f64_mul (f64_of_nat n) (delete_ratio m))"
  have "?u \<le> 2 ^ 25" "?d \<le> 2 ^ 25"
    using ratio_count_le[of n "update_ratio m"] ratio_count_le[of n "delete_ratio m"] assms(1,2)
    by (auto simp: ratios_ok_def)
  from sq_cap_le[OF this, of e] show "u + d \<le> e" "c = n - (u + d)"
    using assms(3) by (auto simp: sq_op_counts_def Let_def split: if_splits prod.splits)
qed

subsection \<open>The rows of a batch\<close>

type_synonym seq_op = "int \<times> int option \<times> string"

definition seq_row :: "int \<Rightarrow> seq_op \<Rightarrow> cell option list" where
  "seq_row idx op = (case op of (key, v, o') \<Rightarrow>
     [Some (CInt key), map_option CInt v, Some (CStr o'), Some (CInt idx)])"

definition seq_rows :: "int \<Rightarrow> seq_op list \<Rightarrow> cell option list list" where
  "seq_rows base ops = map (\<lambda>i. seq_row (base + int i) (ops ! i)) [0..<length ops]"

text \<open>The accumulator after pushing a list of operations from a base index.\<close>

definition acc_of :: "int \<Rightarrow> seq_op list \<Rightarrow> op_rows" where
  "acc_of base ops = \<lparr>or_ids = map fst ops, or_values = map (fst \<circ> snd) ops, or_ops = map (snd \<circ> snd) ops,
     or_op_indices = map (\<lambda>i. base + int i) [0..<length ops], or_op_idx = base + int (length ops)\<rparr>"

definition create_ops :: "int list \<Rightarrow> seq_op list" where
  "create_ops keys = map (\<lambda>k. (k, Some (k * 10), ''c'')) keys"

definition update_ops :: "int list \<Rightarrow> nat list \<Rightarrow> seq_op list" where
  "update_ops keys vs = map2 (\<lambda>k v. (k, Some (int v), ''u'')) keys vs"

definition delete_ops :: "int list \<Rightarrow> seq_op list" where
  "delete_ops keys = map (\<lambda>k. (k, None, ''d'')) keys"

lemma push_row_acc: "push_row (acc_of base ops) k v op = acc_of base (ops @ [(k, v, op)])"
  by (simp add: push_row_def acc_of_def)

lemma push_creates_acc:
  "push_creates keys (acc_of base ops, ks)
     = (acc_of base (ops @ create_ops keys), insert_all ks_insert ks keys)"
  by (induction keys arbitrary: ops ks) (simp_all add: create_ops_def push_row_acc)

lemma push_updates_acc:
  assumes "rng_in_range rr"
  shows "\<exists>vs r'. push_updates rr keys (acc_of base ops, r) = (acc_of base (ops @ update_ops keys vs), r')
     \<and> length vs = length keys \<and> (\<forall>v \<in> set vs. v < 1000000)"
proof (induction keys arbitrary: ops r)
  case Nil
  then show ?case by (simp add: update_ops_def)
next
  case (Cons k keys)
  obtain v r1 where v: "rr r 0 1000000 = (v, r1)" by fastforce
  have "v < 1000000" using assms v unfolding rng_in_range_def
    by (metis fst_conv zero_less_numeral)
  moreover obtain vs r' where "push_updates rr keys (acc_of base (ops @ [(k, Some (int v), ''u'')]), r1)
      = (acc_of base ((ops @ [(k, Some (int v), ''u'')]) @ update_ops keys vs), r')"
    "length vs = length keys" "\<forall>v \<in> set vs. v < 1000000"
    using Cons.IH by blast
  ultimately show ?case
    by (intro exI[of _ "v # vs"] exI[of _ r']) (simp add: v push_row_acc update_ops_def)
qed

lemma push_deletes_acc:
  "push_deletes keys (acc_of base ops, ks)
     = map_option (\<lambda>ks'. (acc_of base (ops @ delete_ops keys), ks')) (remove_all ks_remove ks keys)"
  by (induction keys arbitrary: ops ks) (simp_all add: delete_ops_def push_row_acc split: option.splits prod.splits)

lemma sq_batch_ok:
  assumes "kernels_ok K"
  shows "\<exists>b. k_try_new K sq_schema (sq_columns (acc_of base ops)) = Inr b \<and> wf_batch b
     \<and> rb_schema b = sq_schema \<and> rows b = seq_rows base ops"
proof -
  let ?cols = "sq_columns (acc_of base ops)"
  let ?b = "\<lparr>rb_schema = sq_schema, rb_columns = ?cols, rb_num_rows = length ops\<rparr>"
  have wf: "list_all2 (wf_column (length ops)) sq_schema ?cols"
    by (auto simp: sq_schema_def sq_columns_def acc_of_def wf_column_def)
  have "sq_schema \<noteq> []" by (simp add: sq_schema_def)
  with wf have "k_try_new K sq_schema ?cols = Inr ?b"
    using kernels_okD(3)[OF assms] by (simp add: try_new_spec_def)
  moreover have "rows ?b = seq_rows base ops"
    by (auto simp: rows_def seq_rows_def seq_row_def sq_columns_def acc_of_def split: prod.splits)
  ultimately show ?thesis using wf by (auto simp: wf_batch_def)
qed

subsection \<open>Invariant and one call\<close>

definition sq_inv :: "simple_sequence \<Rightarrow> bool" where
  "sq_inv s \<longleftrightarrow> ks_inv (sq_key_set s) \<and> 0 \<le> sq_current_offset s
     \<and> ks_live (sq_key_set s) \<subseteq> {0..<sq_current_offset s}
     \<and> ratios_ok (sq_mutations s) \<and> sq_batch_size s < 2 ^ 25
     \<and> sq_remaining_steps s \<le> 65535"

text \<open>
  What one productive call does to the state and what it emits: the operations in order, the
  keys and counters afterwards.
\<close>

definition sq_emits :: "simple_sequence \<Rightarrow> simple_sequence \<Rightarrow> record_batch \<Rightarrow> seq_op list \<Rightarrow> bool" where
  "sq_emits s s' b ops \<longleftrightarrow>
     (\<exists>nc ups vs dels ks'. ops = create_ops (map (\<lambda>i. sq_current_offset s + int i) [0..<nc])
          @ update_ops ups vs @ delete_ops dels
       \<and> sq_op_counts (sq_mutations s) (sq_batch_size s) (ks_len (sq_key_set s))
          = (nc, length ups, length dels)
       \<and> length vs = length ups \<and> (\<forall>v \<in> set vs. v < 1000000)
       \<and> distinct (ups @ dels) \<and> set (ups @ dels) \<subseteq> ks_live (sq_key_set s)
       \<and> ks_inv ks' \<and> ks_live ks'
          = ks_live (sq_key_set s) \<union> {sq_current_offset s..<sq_current_offset s + int nc} - set dels
       \<and> wf_batch b \<and> rb_schema b = sq_schema \<and> rows b = seq_rows (sq_op_counter s) ops
       \<and> s' = s\<lparr>sq_op_counter := sq_op_counter s + int (sq_batch_size s),
                 sq_current_offset := sq_current_offset s + int nc,
                 sq_remaining_steps := sq_remaining_steps s - 1, sq_key_set := ks'\<rparr>)"

lemma int_range_set: "set (map (\<lambda>i. a + int i) [0..<n]) = {a..<a + int n}"
proof (intro set_eqI iffI)
  fix x assume "x \<in> {a..<a + int n}"
  then have "x = a + int (nat (x - a))" "nat (x - a) < n" by auto
  then show "x \<in> set (map (\<lambda>i. a + int i) [0..<n])" by (auto intro: image_eqI[where x = "nat (x - a)"])
qed auto

lemma sq_raw_next_batch_emits:
  assumes K: "kernels_ok K" and rr: "rng_in_range rr" "\<And>len. rng_fair rr len" and ho: "hash_order_ok ho"
    and inv: "sq_inv s" and rem: "0 < sq_remaining_steps s"
  shows "\<exists>b s' r' ops. sq_raw_next_batch K rr ho s r = Some (Inr (Some b), s', r') \<and> sq_emits s s' b ops"
proof -
  let ?ks = "sq_key_set s"
  let ?s0 = "s\<lparr>sq_remaining_steps := sq_remaining_steps s - 1\<rparr>"
  have "sq_remaining_steps s \<le> 65535" using inv by (simp add: sq_inv_def)
  then have "(sq_remaining_steps s + 65535) mod 65536 = sq_remaining_steps s - 1"
    using rem by (cases "sq_remaining_steps s") simp_all
  then have raw: "sq_raw_next_batch K rr ho s r = sq_fill K rr ho ?s0 r"
    using rem by (simp add: sq_raw_next_batch_def)
  have ki: "ks_inv ?ks" using inv by (simp add: sq_inv_def)
  obtain nc nu nd where cnt: "sq_op_counts (sq_mutations s) (sq_batch_size s) (ks_len ?ks) = (nc, nu, nd)"
    by (metis prod_cases3)
  have le: "nu + nd \<le> ks_len ?ks"
    using sq_op_counts_le(1)[OF _ _ cnt] inv by (simp add: sq_inv_def)
  obtain mk r1 where mk: "ks_sample_keys rr ho ?ks (nu + nd) r = Some (mk, r1)"
    using ks_sample_keys_returns[OF rr] by (metis surj_pair)
  have mk': "distinct mk" "set mk \<subseteq> ks_live ?ks" "length mk = nu + nd"
    using ks_sample_keys_sound[OF ki rr(1) ho mk] le by simp_all
  define ups dels where "ups = take nu mk" and "dels = drop nu mk"
  let ?ids = "map (\<lambda>i. sq_current_offset s + int i) [0..<nc]"
  let ?base = "sq_op_counter s"
  have acc0: "\<lparr>or_ids = [], or_values = [], or_ops = [], or_op_indices = [], or_op_idx = ?base\<rparr> = acc_of ?base []"
    by (simp add: acc_of_def)
  obtain vs r2 where ups: "push_updates rr ups (acc_of ?base ([] @ create_ops ?ids), r1)
      = (acc_of ?base (([] @ create_ops ?ids) @ update_ops ups vs), r2)"
    "length vs = length ups" "\<forall>v \<in> set vs. v < 1000000"
    using push_updates_acc[OF rr(1)] by blast
  obtain ks' where ks': "remove_all ks_remove (insert_all ks_insert ?ks ?ids) dels = Some ks'" "ks_inv ks'"
    "ks_live ks' = ks_live (insert_all ks_insert ?ks ?ids) - set dels"
    using ks.remove_all_ok[OF ks.insert_all_inv[OF ki]] by blast
  define ops where "ops = create_ops ?ids @ update_ops ups vs @ delete_ops dels"
  obtain b where b: "k_try_new K sq_schema (sq_columns (acc_of ?base ops)) = Inr b" "wf_batch b"
    "rb_schema b = sq_schema" "rows b = seq_rows ?base ops"
    using sq_batch_ok[OF K] by blast
  let ?s' = "s\<lparr>sq_op_counter := ?base + int (sq_batch_size s), sq_current_offset := sq_current_offset s + int nc,
                 sq_remaining_steps := sq_remaining_steps s - 1, sq_key_set := ks'\<rparr>"
  have "sq_fill K rr ho ?s0 r = Some (Inr (Some b), ?s', r2)"
    using mk'(3) ups ks'(1) b(1)
    by (simp add: sq_fill_def cnt mk Let_def acc0 push_creates_acc push_deletes_acc ups_def[symmetric]
        dels_def[symmetric] ops_def)
  moreover have "sq_emits s ?s' b ops"
    unfolding sq_emits_def
    using cnt mk' ups(2,3) ks'(2,3) b(2-4)
    by (intro exI[of _ nc] exI[of _ ups] exI[of _ vs] exI[of _ dels] exI[of _ ks'])
      (simp add: ops_def ups_def dels_def ks.insert_all_live[OF ki] int_range_set del: set_map set_upt flip: set_append)
  ultimately show ?thesis using raw by metis
qed

lemma sq_emits_inv:
  assumes "sq_inv s" "sq_emits s s' b ops"
  shows "sq_inv s'"
proof -
  from assms(2) obtain nc ks' dels where s': "ks_inv ks'"
    "ks_live ks' = ks_live (sq_key_set s) \<union> {sq_current_offset s..<sq_current_offset s + int nc} - set dels"
    "s' = s\<lparr>sq_op_counter := sq_op_counter s + int (sq_batch_size s),
             sq_current_offset := sq_current_offset s + int nc,
             sq_remaining_steps := sq_remaining_steps s - 1, sq_key_set := ks'\<rparr>"
    unfolding sq_emits_def by blast
  have "{0..<sq_current_offset s} \<union> {sq_current_offset s..<sq_current_offset s + int nc}
      \<subseteq> {0..<sq_current_offset s + int nc}"
    using assms(1) by (auto simp: sq_inv_def)
  then have "ks_live ks' \<subseteq> {0..<sq_current_offset s + int nc}"
    using assms(1) s'(2) unfolding sq_inv_def by blast
  then show ?thesis using assms(1) s'(1,3) by (auto simp: sq_inv_def)
qed

subsection \<open>Replaying the rows\<close>

text \<open>
  The reference semantics of a change stream on a keyed table: a create needs a fresh key, an
  update and a delete a present one; anything else is \<open>None\<close>.
\<close>

definition row_op :: "cell option list \<Rightarrow> seq_op" where
  "row_op r = (cell_int (r ! 0), (case r ! 1 of Some (CInt x) \<Rightarrow> Some x | _ \<Rightarrow> None),
     (case r ! 2 of Some (CStr op) \<Rightarrow> op | _ \<Rightarrow> []))"

definition row_index :: "cell option list \<Rightarrow> int" where
  "row_index r = cell_int (r ! 3)"

fun replay_op :: "seq_op \<Rightarrow> (int \<rightharpoonup> int) \<Rightarrow> (int \<rightharpoonup> int) option" where
  "replay_op (k, v, op) t =
     (if op = ''c'' then (if t k = None then map_option (\<lambda>x. t(k \<mapsto> x)) v else None)
      else if op = ''u'' then (if t k = None then None else map_option (\<lambda>x. t(k \<mapsto> x)) v)
      else if op = ''d'' then (if t k = None then None else Some (t(k := None)))
      else None)"

fun replay_ops :: "seq_op list \<Rightarrow> (int \<rightharpoonup> int) \<Rightarrow> (int \<rightharpoonup> int) option" where
  "replay_ops [] t = Some t"
| "replay_ops (op # ops) t = Option.bind (replay_op op t) (replay_ops ops)"

definition replay_rows :: "cell option list list \<Rightarrow> (int \<rightharpoonup> int) \<Rightarrow> (int \<rightharpoonup> int) option" where
  "replay_rows rs t = replay_ops (map row_op rs) t"

lemma row_op_seq_row [simp]: "row_op (seq_row i op) = op"
  by (cases op) (auto simp: row_op_def seq_row_def split: option.splits)

lemma row_index_seq_row [simp]: "row_index (seq_row i op) = i"
  by (cases op) (simp add: row_index_def seq_row_def numeral_3_eq_3)

lemma row_ops_seq_rows: "map row_op (seq_rows base ops) = ops"
  by (simp add: seq_rows_def comp_def map_nth)

lemma row_indices_seq_rows: "map row_index (seq_rows base ops) = map (\<lambda>i. base + int i) [0..<length ops]"
  by (simp add: seq_rows_def comp_def)

lemma replay_ops_append: "replay_ops (xs @ ys) t = Option.bind (replay_ops xs t) (replay_ops ys)"
proof (induction xs arbitrary: t)
  case (Cons op xs)
  then show ?case by (cases "replay_op op t") simp_all
qed simp

lemma replay_creates:
  "distinct keys \<Longrightarrow> set keys \<inter> dom t = {} \<Longrightarrow>
     \<exists>t'. replay_ops (create_ops keys) t = Some t' \<and> dom t' = dom t \<union> set keys"
proof (induction keys arbitrary: t)
  case Nil
  then show ?case by (simp add: create_ops_def)
next
  case (Cons k keys)
  then have k: "t k = None" and dis: "set keys \<inter> dom (t(k \<mapsto> k * 10)) = {}" by auto
  obtain t' where "replay_ops (create_ops keys) (t(k \<mapsto> k * 10)) = Some t'"
    "dom t' = dom (t(k \<mapsto> k * 10)) \<union> set keys"
    using Cons.IH[OF _ dis] Cons.prems(1) by (metis distinct.simps(2))
  then show ?case using k by (simp add: create_ops_def)
qed

lemma replay_updates:
  "length vs = length keys \<Longrightarrow> set keys \<subseteq> dom t \<Longrightarrow>
     \<exists>t'. replay_ops (update_ops keys vs) t = Some t' \<and> dom t' = dom t"
proof (induction keys vs arbitrary: t rule: list_induct2')
  case (4 k keys v vs)
  then have k: "t k \<noteq> None" and dt: "dom (t(k \<mapsto> int v)) = dom t" by auto
  obtain t' where "replay_ops (update_ops keys vs) (t(k \<mapsto> int v)) = Some t'" "dom t' = dom t"
    using "4.IH"[of "t(k \<mapsto> int v)"] "4.prems" dt by (metis length_Cons nat.inject set_subset_Cons subset_trans)
  then show ?case using k by (simp add: update_ops_def)
qed (simp_all add: update_ops_def)

lemma replay_deletes:
  "distinct keys \<Longrightarrow> set keys \<subseteq> dom t \<Longrightarrow>
     \<exists>t'. replay_ops (delete_ops keys) t = Some t' \<and> dom t' = dom t - set keys"
proof (induction keys arbitrary: t)
  case Nil
  then show ?case by (simp add: delete_ops_def)
next
  case (Cons k keys)
  then have k: "t k \<noteq> None" and sub: "set keys \<subseteq> dom (t(k := None))" by auto
  obtain t' where "replay_ops (delete_ops keys) (t(k := None)) = Some t'"
    "dom t' = dom (t(k := None)) - set keys"
    using Cons.IH[OF _ sub] Cons.prems(1) by (metis distinct.simps(2))
  then show ?case using k by (auto simp: delete_ops_def)
qed

lemma sq_emits_replays:
  assumes inv: "sq_inv s" and em: "sq_emits s s' b ops" and t: "dom t = ks_live (sq_key_set s)"
  shows "\<exists>t'. replay_rows (rows b) t = Some t' \<and> dom t' = ks_live (sq_key_set s')"
proof -
  from em obtain nc ups vs dels ks'
    where ops: "ops = create_ops (map (\<lambda>i. sq_current_offset s + int i) [0..<nc]) @ update_ops ups vs @ delete_ops dels"
      and lv: "length vs = length ups" and dis: "distinct (ups @ dels)" "set (ups @ dels) \<subseteq> ks_live (sq_key_set s)"
      and ks': "ks_live ks' = ks_live (sq_key_set s) \<union> {sq_current_offset s..<sq_current_offset s + int nc} - set dels"
      and b: "rows b = seq_rows (sq_op_counter s) ops" and s': "sq_key_set s' = ks'"
    unfolding sq_emits_def by auto
  let ?ids = "map (\<lambda>i. sq_current_offset s + int i) [0..<nc]"
  have "distinct ?ids" by (simp add: distinct_map inj_on_def)
  moreover have "set ?ids \<inter> dom t = {}" using inv unfolding int_range_set t sq_inv_def by fastforce
  ultimately obtain t1 where t1: "replay_ops (create_ops ?ids) t = Some t1" "dom t1 = dom t \<union> set ?ids"
    using replay_creates by blast
  have "set ups \<subseteq> dom t1" "set dels \<subseteq> dom t1" "distinct dels" using t1(2) dis t by auto
  then obtain t2 where t2: "replay_ops (update_ops ups vs) t1 = Some t2" "dom t2 = dom t1"
    using replay_updates[OF lv, of t1] by blast
  obtain t3 where t3: "replay_ops (delete_ops dels) t2 = Some t3" "dom t3 = dom t2 - set dels"
    using replay_deletes[of dels t2] \<open>set dels \<subseteq> dom t1\<close> \<open>distinct dels\<close> t2(2) by metis
  have "dom t3 = ks_live (sq_key_set s')" using t1(2) t2(2) t3(2) t ks' s' int_range_set by metis
  then show ?thesis using t1(1) t2(1) t3(1)
    by (simp add: replay_rows_def b row_ops_seq_rows ops replay_ops_append)
qed

subsection \<open>Draining the dataset\<close>

text \<open>Up to \<open>n\<close> calls, stopping at the first that reports the end of the table.\<close>

fun sq_drain ::
  "kernels \<Rightarrow> 'r random_range \<Rightarrow> (nat set \<Rightarrow> nat list) \<Rightarrow> nat \<Rightarrow> simple_sequence \<Rightarrow> 'r
     \<Rightarrow> (record_batch list \<times> simple_sequence \<times> 'r) option" where
  "sq_drain K rr ho 0 s r = Some ([], s, r)"
| "sq_drain K rr ho (Suc n) s r =
     (case sq_raw_next_batch K rr ho s r of
        Some (Inr (Some b), s', r') \<Rightarrow> map_option (\<lambda>(bs, q). (b # bs, q)) (sq_drain K rr ho n s' r')
      | Some (Inr None, s', r') \<Rightarrow> Some ([], s', r')
      | _ \<Rightarrow> None)"

text \<open>The states and batches of a run of productive calls.\<close>

inductive sq_path :: "simple_sequence \<Rightarrow> record_batch list \<Rightarrow> simple_sequence \<Rightarrow> bool" where
  sq_path_Nil: "sq_path s [] s"
| sq_path_Cons: "sq_emits s s1 b ops \<Longrightarrow> sq_path s1 bs s' \<Longrightarrow> sq_path s (b # bs) s'"

lemma sq_emits_remaining: "sq_emits s s' b ops \<Longrightarrow> sq_remaining_steps s' = sq_remaining_steps s - 1"
  unfolding sq_emits_def by fastforce

lemma sq_raw_next_batch_end:
  "sq_remaining_steps s = 0 \<Longrightarrow> sq_raw_next_batch K rr ho s r = Some (Inr None, s, r)"
  by (simp add: sq_raw_next_batch_def)

lemma sq_drain_path:
  assumes "kernels_ok K" "rng_in_range rr" "\<And>len. rng_fair rr len" "hash_order_ok ho" "sq_inv s"
  shows "\<exists>bs s' r'. sq_drain K rr ho n s r = Some (bs, s', r') \<and> sq_path s bs s'
     \<and> length bs = min n (sq_remaining_steps s)"
  using assms(5)
proof (induction n arbitrary: s r)
  case 0
  then show ?case by (simp add: sq_path_Nil)
next
  case (Suc n)
  show ?case
  proof (cases "sq_remaining_steps s = 0")
    case True
    then show ?thesis by (simp add: sq_raw_next_batch_end sq_path_Nil)
  next
    case False
    then obtain b s1 r1 ops where
      raw: "sq_raw_next_batch K rr ho s r = Some (Inr (Some b), s1, r1)" and em: "sq_emits s s1 b ops"
      using sq_raw_next_batch_emits[OF assms(1-4) Suc.prems, of r] by blast
    obtain bs s' r' where "sq_drain K rr ho n s1 r1 = Some (bs, s', r')" "sq_path s1 bs s'"
      "length bs = min n (sq_remaining_steps s1)"
      using Suc.IH[OF sq_emits_inv[OF Suc.prems em]] by blast
    then show ?thesis using raw False sq_emits_remaining[OF em] sq_path_Cons[OF em]
      by (intro exI[of _ "b # bs"] exI[of _ s'] exI[of _ r']) auto
  qed
qed

lemma sq_path_inv: "sq_path s bs s' \<Longrightarrow> sq_inv s \<Longrightarrow> sq_inv s'"
  by (induction rule: sq_path.induct) (auto intro: sq_emits_inv)

lemma sq_path_remaining: "sq_path s bs s' \<Longrightarrow> sq_remaining_steps s' = sq_remaining_steps s - length bs"
  by (induction rule: sq_path.induct) (simp_all add: sq_emits_remaining)

lemma sq_path_batches:
  "sq_path s bs s' \<Longrightarrow> b \<in> set bs \<Longrightarrow> wf_batch b \<and> rb_schema b = sq_schema"
  by (induction rule: sq_path.induct) (auto simp: sq_emits_def)

lemma sq_path_replays:
  assumes "sq_path s bs s'" "sq_inv s" "dom t = ks_live (sq_key_set s)"
  shows "\<exists>t'. replay_rows (concat (map rows bs)) t = Some t' \<and> dom t' = ks_live (sq_key_set s')"
  using assms
proof (induction arbitrary: t rule: sq_path.induct)
  case (sq_path_Nil s)
  then show ?case by (simp add: replay_rows_def)
next
  case (sq_path_Cons s s1 b ops bs s')
  obtain t1 where "replay_rows (rows b) t = Some t1" "dom t1 = ks_live (sq_key_set s1)"
    using sq_emits_replays[OF sq_path_Cons.prems(1) sq_path_Cons.hyps(1) sq_path_Cons.prems(2)] by blast
  moreover from this obtain t' where "replay_rows (concat (map rows bs)) t1 = Some t'"
    "dom t' = ks_live (sq_key_set s')"
    using sq_path_Cons.IH[OF sq_emits_inv[OF sq_path_Cons.prems(1) sq_path_Cons.hyps(1)]] by blast
  ultimately show ?case by (simp add: replay_rows_def replay_ops_append)
qed

subsection \<open>Operation indices\<close>

text \<open>
  A call reserves as many operation indices as the batch size. The reservation suffices
  exactly when the rounded update and delete counts together do not exceed it.
\<close>

definition sq_fits :: "MutationConfig \<Rightarrow> nat \<Rightarrow> bool" where
  "sq_fits m n \<longleftrightarrow> f64_round_usize (f64_mul (f64_of_nat n) (update_ratio m))
     + f64_round_usize (f64_mul (f64_of_nat n) (delete_ratio m)) \<le> n"

lemma sq_op_counts_fit:
  assumes "ratios_ok m" "n < 2 ^ 25" "sq_fits m n" "sq_op_counts m n e = (c, u, d)"
  shows "c + u + d = n"
proof -
  let ?u = "f64_round_usize (f64_mul (f64_of_nat n) (update_ratio m))"
  let ?d = "f64_round_usize (f64_mul (f64_of_nat n) (delete_ratio m))"
  have "u + d \<le> n"
  proof (cases "e = 0 \<or> \<not> e < ?u + ?d")
    case True
    then show ?thesis using assms(3,4) by (auto simp: sq_op_counts_def sq_cap_def sq_fits_def Let_def split: if_splits)
  next
    case False
    then show ?thesis using sq_op_counts_le(1)[OF assms(1,2,4)] assms(3) by (simp add: sq_fits_def)
  qed
  then show ?thesis using sq_op_counts_le(2)[OF assms(1,2,4)] by simp
qed

lemma sq_emits_length:
  assumes "sq_emits s s' b ops"
    "sq_op_counts (sq_mutations s) (sq_batch_size s) (ks_len (sq_key_set s)) = (c, u, d)"
  shows "length ops = c + u + d"
proof -
  obtain nc ups vs dels where "ops = create_ops (map (\<lambda>i. sq_current_offset s + int i) [0..<nc])
       @ update_ops ups vs @ delete_ops dels" "length vs = length ups"
     "sq_op_counts (sq_mutations s) (sq_batch_size s) (ks_len (sq_key_set s)) = (nc, length ups, length dels)"
    using assms(1) unfolding sq_emits_def by blast
  then show ?thesis using assms(2) by (simp add: create_ops_def update_ops_def delete_ops_def)
qed

lemma sq_emits_frame:
  assumes "sq_emits s s' b ops"
  shows "rows b = seq_rows (sq_op_counter s) ops" "sq_mutations s' = sq_mutations s"
    "sq_batch_size s' = sq_batch_size s" "sq_op_counter s' = sq_op_counter s + int (sq_batch_size s)"
  using assms unfolding sq_emits_def by auto

lemma sq_path_indices:
  assumes "sq_path s bs s'" "sq_inv s" "sq_fits (sq_mutations s) (sq_batch_size s)"
  shows "map row_index (concat (map rows bs))
     = map (\<lambda>i. sq_op_counter s + int i) [0..<length bs * sq_batch_size s]"
  using assms
proof (induction rule: sq_path.induct)
  case (sq_path_Nil s)
  then show ?case by simp
next
  case (sq_path_Cons s s1 b ops bs s')
  note fr = sq_emits_frame[OF sq_path_Cons.hyps(1)]
  let ?n = "sq_batch_size s" and ?m = "length bs * sq_batch_size s"
  obtain c u d where cnt: "sq_op_counts (sq_mutations s) ?n (ks_len (sq_key_set s)) = (c, u, d)"
    by (metis prod_cases3)
  have "length ops = ?n"
    using sq_emits_length[OF sq_path_Cons.hyps(1) cnt] sq_op_counts_fit[OF _ _ _ cnt] sq_path_Cons.prems
    by (simp add: sq_inv_def)
  moreover have "map row_index (concat (map rows bs)) = map (\<lambda>i. sq_op_counter s1 + int i) [0..<?m]"
    using sq_path_Cons.IH[OF sq_emits_inv[OF sq_path_Cons.prems(1) sq_path_Cons.hyps(1)]]
      sq_path_Cons.prems(2) fr by simp
  moreover have "map (\<lambda>i. sq_op_counter s1 + int i) [0..<?m]
      = map (\<lambda>i. sq_op_counter s + int i) [?n..<?n + ?m]"
    by (rule nth_equalityI) (simp_all add: fr)
  ultimately show ?case
    by (simp add: fr(1) row_indices_seq_rows upt_add_eq_append[of 0 ?n ?m, simplified])
qed

text \<open>
  When the rounded counts exceed the batch size the reservation is too short: a row of the
  batch carries the first index of the next batch's range.
\<close>

lemma sq_op_index_reused:
  assumes "sq_emits s s' b ops"
    "sq_op_counts (sq_mutations s) (sq_batch_size s) (ks_len (sq_key_set s)) = (c, u, d)"
    "sq_batch_size s < u + d"
  shows "\<exists>r \<in> set (rows b). row_index r = sq_op_counter s'"
proof -
  let ?n = "sq_batch_size s"
  have len: "?n < length ops" using sq_emits_length[OF assms(1,2)] assms(3) by simp
  note fr = sq_emits_frame[OF assms(1)]
  have "seq_row (sq_op_counter s') (ops ! ?n) \<in> set (rows b)"
    using len by (auto simp: fr seq_rows_def intro: image_eqI[where x = "?n"])
  then show ?thesis by (metis row_index_seq_row)
qed

lemma f64_round_examples:
  "f64_round (3 / 2) = 3 / 2" "f64_round (3 / 4) = 3 / 4" "f64_round (125 / 32) = 125 / 32"
  using f64_round_dyadic[of 3 1] f64_round_dyadic[of 3 2] f64_round_dyadic[of 125 5] by simp_all

text \<open>Half updates and half deletes of three rows: two of each.\<close>

lemma sq_op_counts_overflow_example:
  "MutationConfig_new (1 / 2) (1 / 2) = Some m \<Longrightarrow> sq_op_counts m 3 10 = (0, 2, 2)"
proof -
  assume "MutationConfig_new (1 / 2) (1 / 2) = Some m"
  then have q: "update_ratio m = 1 / 2" "delete_ratio m = 1 / 2"
    by (auto simp: MutationConfig_new_def Let_def split: if_splits)
  have "f64_round_usize (f64_mul (f64_of_nat 3) (1 / 2)) = 2"
    by (simp add: f64_of_nat_exact f64_mul_def f64_round_usize_def f64_round_examples)
  then show ?thesis by (simp add: sq_op_counts_def sq_cap_def Let_def q)
qed

subsection \<open>The dataset\<close>

lemma sq_new_inv:
  assumes "ratios_ok m" "dc_num_steps c \<le> 65535" "f64_as_usize (f64_mul (dc_scale_factor c) 1000) < 2 ^ 25"
  shows "sq_inv (sq_new c m)"
  using assms by (simp add: sq_inv_def sq_new_def ks_inv_new ks_live_new)

text \<open>
  C27. Draining a fresh integer-sequence dataset yields exactly \<open>num_steps\<close> batches and then
  the end of the table, with no panic and no error. Every batch has the table's declared
  schema, and replaying all rows in order on an empty keyed table never creates a key that is
  present and never updates or deletes one that is absent; the table's keys at the end are
  the keys the dataset considers live.
\<close>

theorem simple_sequence_replays:
  assumes "kernels_ok K" and "rng_in_range rr" and "\<And>len. rng_fair rr len" and "hash_order_ok ho"
    and "ratios_ok m" and "dc_num_steps c \<le> 65535"
    and "f64_as_usize (f64_mul (dc_scale_factor c) 1000) < 2 ^ 25" and "dc_num_steps c < n"
  shows "\<exists>bs s' r' t. sq_drain K rr ho n (sq_new c m) r = Some (bs, s', r')
     \<and> length bs = sq_num_batches (sq_new c m) ''integer_sequence''
     \<and> sq_raw_next_batch K rr ho s' r' = Some (Inr None, s', r')
     \<and> (\<forall>b \<in> set bs. wf_batch b \<and> Some (rb_schema b) = map_option dt_schema (sq_tables ''integer_sequence''))
     \<and> replay_rows (concat (map rows bs)) Map.empty = Some t
     \<and> dom t = set (ks_keys (sq_key_set s'))"
proof -
  let ?s = "sq_new c m"
  have inv: "sq_inv ?s" using assms(5-7) by (rule sq_new_inv)
  obtain bs s' r' where d: "sq_drain K rr ho n ?s r = Some (bs, s', r')" "sq_path ?s bs s'"
    "length bs = min n (sq_remaining_steps ?s)"
    using sq_drain_path[OF assms(1-4) inv] by blast
  have len: "length bs = dc_num_steps c" using d(3) assms(8) by (simp add: sq_new_def)
  obtain t where "replay_rows (concat (map rows bs)) Map.empty = Some t" "dom t = ks_live (sq_key_set s')"
    using sq_path_replays[OF d(2) inv, of Map.empty] by (auto simp: sq_new_def ks_live_new)
  moreover have "sq_remaining_steps s' = 0" using sq_path_remaining[OF d(2)] len by (simp add: sq_new_def)
  ultimately show ?thesis using d len sq_path_batches[OF d(2)]
    by (auto simp: sq_num_batches_def sq_raw_next_batch_end sq_tables_def ks_live_def sq_new_def)
qed

text \<open>
  When the rounded update and delete counts fit in a batch, the \<open>_op_index\<close> values over
  all batches of the dataset are exactly \<open>0, 1, 2, ...\<close>: a total replay order without gaps or
  repetitions across batches.
\<close>

theorem simple_sequence_op_index:
  assumes "kernels_ok K" and "rng_in_range rr" and "\<And>len. rng_fair rr len" and "hash_order_ok ho"
    and "ratios_ok m" and "dc_num_steps c \<le> 65535"
    and "f64_as_usize (f64_mul (dc_scale_factor c) 1000) < 2 ^ 25"
    and "sq_fits m (f64_as_usize (f64_mul (dc_scale_factor c) 1000))"
  shows "\<exists>bs s' r'. sq_drain K rr ho n (sq_new c m) r = Some (bs, s', r')
     \<and> length bs = min n (dc_num_steps c)
     \<and> map row_index (concat (map rows bs)) = map int [0..<length bs * sq_batch_size (sq_new c m)]"
proof -
  let ?s = "sq_new c m"
  have inv: "sq_inv ?s" using assms(5-7) by (rule sq_new_inv)
  obtain bs s' r' where d: "sq_drain K rr ho n ?s r = Some (bs, s', r')" "sq_path ?s bs s'"
    "length bs = min n (sq_remaining_steps ?s)"
    using sq_drain_path[OF assms(1-4) inv] by blast
  have "map row_index (concat (map rows bs)) = map int [0..<length bs * sq_batch_size ?s]"
    using sq_path_indices[OF d(2) inv] assms(8) by (simp add: sq_new_def)
  then show ?thesis using d(1,3) by (auto simp: sq_new_def)
qed

definition demo_sequence_config :: DatasetConfig where
  "demo_sequence_config = \<lparr>dc_dataset_type = ''simple_sequence'', dc_scale_factor = 1 / 2 ^ 8, dc_num_steps = 2\<rparr>"

definition demo_mutations :: MutationConfig where
  "demo_mutations = \<lparr>update_ratio = 1 / 2, delete_ratio = 1 / 4, bootstrap = False, num_mutation_steps = 0,
     churn_fraction = 0\<rparr>"

lemma demo_batch_size: "f64_as_usize (f64_mul (dc_scale_factor demo_sequence_config) 1000) = 3"
  by (simp add: f64_mul_def f64_as_usize_def demo_sequence_config_def f64_round_examples)

lemma demo_ratios: "ratios_ok demo_mutations"
  by (simp add: ratios_ok_def demo_mutations_def)

lemma demo_fits: "sq_fits demo_mutations 3"
  by (simp add: sq_fits_def demo_mutations_def f64_of_nat_exact f64_mul_def f64_round_usize_def
      f64_round_examples)

theorem simple_sequence_replays_witness:
  "\<exists>bs s' r' t. sq_drain list_kernels cycle_rng sorted_list_of_set 3 (sq_new demo_sequence_config demo_mutations) 0
       = Some (bs, s', r')
     \<and> length bs = sq_num_batches (sq_new demo_sequence_config demo_mutations) ''integer_sequence''
     \<and> sq_raw_next_batch list_kernels cycle_rng sorted_list_of_set s' r' = Some (Inr None, s', r')
     \<and> (\<forall>b \<in> set bs. wf_batch b \<and> Some (rb_schema b) = map_option dt_schema (sq_tables ''integer_sequence''))
     \<and> replay_rows (concat (map rows bs)) Map.empty = Some t
     \<and> dom t = set (ks_keys (sq_key_set s'))"
  by (rule simple_sequence_replays[OF list_kernels_ok cycle_rng_in_range cycle_rng_fair hash_order_sorted demo_ratios])
    (simp_all add: demo_batch_size, simp_all add: demo_sequence_config_def)

theorem simple_sequence_op_index_witness:
  "\<exists>bs s' r'. sq_drain list_kernels cycle_rng sorted_list_of_set 2 (sq_new demo_sequence_config demo_mutations) 0
       = Some (bs, s', r')
     \<and> length bs = min 2 (dc_num_steps demo_sequence_config)
     \<and> map row_index (concat (map rows bs))
        = map int [0..<length bs * sq_batch_size (sq_new demo_sequence_config demo_mutations)]"
  by (rule simple_sequence_op_index[OF list_kernels_ok cycle_rng_in_range cycle_rng_fair hash_order_sorted demo_ratios])
    (simp_all add: demo_batch_size demo_fits, simp_all add: demo_sequence_config_def)

end
