(* ===== verification/GeneratedData.thy ===== *)
theory GeneratedData
  imports Generator TpchRun SimpleSequence
begin

text \<open>
  The generator on the program's own datasets and storages: TPC-H and the simple sequence as
  datasets that end, every fair schedule of the table tasks as a run that finishes, and a
  concrete object store for the witnesses.
\<close>

subsection \<open>Datasets behind the provided method\<close>

text \<open>
  \<^verbatim>\<open>Dataset::next_batch\<close> around an implementation that may panic; \<open>sh\<close> renders an error.
\<close>

definition dataset_next ::
  "(dataset_error \<Rightarrow> string) \<Rightarrow> (string \<rightharpoonup> DatasetTable)
     \<Rightarrow> ('d \<Rightarrow> string \<Rightarrow> (record_batch option result \<times> 'd) option) \<Rightarrow> 'd dataset_next" where
  "dataset_next sh tables raw d t =
     (case tables t of
        None \<Rightarrow> Some (Inl (sh (UnknownTable t)), d)
      | Some _ \<Rightarrow>
          (case raw d t of
             None \<Rightarrow> None
           | Some (x, d') \<Rightarrow>
               (case next_batch tables (\<lambda>_ _. (map_err OtherError x, d')) d t of (y, d'') \<Rightarrow> Some (map_err sh y, d''))))"

lemma dataset_next_Inr:
  assumes "raw d t = Some (Inr r, d')" "tables t = Some dt" "\<And>b. r = Some b \<Longrightarrow> rb_schema b = dt_schema dt"
  shows "dataset_next sh tables raw d t = Some (Inr r, d')"
  using assms by (cases r) (simp_all add: dataset_next_def next_batch_def)

lemma dataset_next_raw:
  "dataset_next sh tables raw d t = Some (Inr r, d') \<Longrightarrow> raw d t = Some (Inr r, d')"
  by (auto simp: dataset_next_def next_batch_def split: option.splits sum.splits prod.splits if_splits)

definition tpch_next :: "(dataset_error \<Rightarrow> string) \<Rightarrow> 'r tpch_env \<Rightarrow> kernels \<Rightarrow> (tpch_dataset \<times> 'r) dataset_next" where
  "tpch_next sh E K = dataset_next sh (tp_tables E) (\<lambda>(s, r) t. tp_raw_next_batch E K s t r)"

definition sequence_next ::
  "(dataset_error \<Rightarrow> string) \<Rightarrow> kernels \<Rightarrow> 'r random_range \<Rightarrow> (nat set \<Rightarrow> nat list) \<Rightarrow> (simple_sequence \<times> 'r) dataset_next" where
  "sequence_next sh K rr ho = dataset_next sh sq_tables (\<lambda>(s, r) t. sq_raw_next_batch K rr ho s r)"

lemma tpch_next_run:
  "nb_run (tpch_next sh E K) calls (s, r) = Some (outs, s', r') \<Longrightarrow> tp_run E K calls s r = Some (outs, s', r')"
proof (induction calls arbitrary: s r outs)
  case (Cons t calls)
  obtain x d1 where n: "tpch_next sh E K (s, r) t = Some (Inr x, d1)"
    using Cons.prems by (auto split: option.splits sum.splits prod.splits)
  obtain s1 r1 where d1: "d1 = (s1, r1)" by force
  have "tp_raw_next_batch E K s t r = Some (Inr x, s1, r1)"
    using dataset_next_raw[OF n[unfolded tpch_next_def]] by (simp add: d1)
  then show ?case using Cons n d1 by (cases x) auto
qed simp

subsection \<open>Datasets that end\<close>

definition tpch_okd :: "'r tpch_env \<Rightarrow> kernels \<Rightarrow> tpch_dataset \<times> 'r \<Rightarrow> bool" where
  "tpch_okd E K d \<longleftrightarrow> tpch_env_ok E \<and> kernels_ok K \<and> tp_inv E (fst d)
     \<and> (\<forall>t \<in> set (map fst TPCH_TABLES). tp_total_steps (fst d) t < 65535)"

definition tpch_remaining :: "tpch_dataset \<times> 'r \<Rightarrow> string \<Rightarrow> nat" where
  "tpch_remaining d t = tp_total_steps (fst d) t + 1 - the (tp_table_steps (fst d) t)"

interpretation tpch: finite_dataset "tpch_next sh E K" "map fst TPCH_TABLES" "tpch_okd E K" tpch_remaining for sh E K
proof
  fix d :: "tpch_dataset \<times> 'a" and t
  assume okd: "tpch_okd E K d" and t: "t \<in> set (map fst TPCH_TABLES)" and rem: "0 < tpch_remaining d t"
  obtain s r where d: "d = (s, r)" by force
  have E: "tpch_env_ok E" "kernels_ok K" "tp_inv E s" and le: "\<forall>t \<in> set (map fst TPCH_TABLES). tp_total_steps s t < 65535"
    using okd by (simp_all add: tpch_okd_def d)
  have n: "the (tp_table_steps s t) < 65535" using rem le t unfolding tpch_remaining_def d by fastforce
  have frame: "tpch_remaining (s', q) u = (if u = t then tpch_remaining d t - 1 else tpch_remaining d u)
      \<and> (tp_inv E s' \<longrightarrow> tpch_okd E K (s', q))"
    if h: "tp_num_steps s' = tp_num_steps s" "tp_mutations s' = tp_mutations s"
      "tp_table_steps s' = (tp_table_steps s)(t \<mapsto> Suc (the (tp_table_steps s t)))" for s' u and q :: 'a
  proof -
    have "tp_total_steps s' = tp_total_steps s" by (simp add: fun_eq_iff tp_total_steps_def h(1,2))
    then show ?thesis using h(3) le E by (simp add: tpch_remaining_def tpch_okd_def d)
  qed
  from tp_raw_next_batch_ok[OF E t, of r]
  show "\<exists>x d'. tpch_next sh E K d t = Some (Inr x, d') \<and> tpch_okd E K d'
      \<and> (\<forall>u. u \<noteq> t \<longrightarrow> tpch_remaining d' u = tpch_remaining d u)
      \<and> (x \<noteq> None \<longrightarrow> 0 < tpch_remaining d' t \<and> tpch_remaining d' t < tpch_remaining d t)"
  proof (elim disjE exE conjE)
    fix b s' r' pks p
    assume raw: "tp_raw_next_batch E K s t r = Some (Inr (Some b), s', r')"
      and lt: "the (tp_table_steps s t) < tp_total_steps s t" and em: "tp_emits E s t s' b pks p"
    note fr = tp_emits_frame[OF em]
    have "tpch_schema E t = Some (rb_schema b)" using fr(6) by (simp add: tp_batch_def)
    from tp_tables_schema[OF this] obtain dt where dt: "tp_tables E t = Some dt" "dt_schema dt = rb_schema b" by auto
    have "tpch_next sh E K d t = Some (Inr (Some b), s', r')"
      unfolding tpch_next_def by (rule dataset_next_Inr[of _ d t "Some b" "(s', r')" "tp_tables E" dt, OF _ dt(1)]) (auto simp: d raw dt(2))
    moreover have "1 < tpch_remaining d t" using lt by (simp add: tpch_remaining_def d)
    ultimately show ?thesis using frame[OF fr(2,3,5), of r'] tp_emits_inv[OF E(3) t n em] by auto
  next
    fix s' r'
    assume raw: "tp_raw_next_batch E K s t r = Some (Inr None, s', r')" and en: "tp_ends s t s'"
    note fr = tp_ends_frame[OF en n]
    have "tp_tables E t \<noteq> None" using tp_tables_schema tpch_schema_known[OF t, of E] by fastforce
    then have "tpch_next sh E K d t = Some (Inr None, s', r')"
      unfolding tpch_next_def using dataset_next_Inr[of "\<lambda>(s, r) t. tp_raw_next_batch E K s t r" d t None "(s', r')" "tp_tables E"]
      by (auto simp: d raw)
    then show ?thesis using frame[OF fr(2,3,5)] tp_ends_inv[OF E(3) t n en] by auto
  qed
qed

definition sequence_okd :: "kernels \<Rightarrow> 'r random_range \<Rightarrow> (nat set \<Rightarrow> nat list) \<Rightarrow> simple_sequence \<times> 'r \<Rightarrow> bool" where
  "sequence_okd K rr ho d \<longleftrightarrow> kernels_ok K \<and> rng_in_range rr \<and> (\<forall>len. rng_fair rr len) \<and> hash_order_ok ho \<and> sq_inv (fst d)"

definition sequence_remaining :: "simple_sequence \<times> 'r \<Rightarrow> string \<Rightarrow> nat" where
  "sequence_remaining d t = sq_remaining_steps (fst d) + 1"

interpretation sequence: finite_dataset "sequence_next sh K rr ho" "[''integer_sequence'']" "sequence_okd K rr ho"
    "\<lambda>d t. if t = ''integer_sequence'' then sequence_remaining d t else 0" for sh K rr ho
proof
  fix d :: "simple_sequence \<times> 'a" and t
  assume okd: "sequence_okd K rr ho d" and t: "t \<in> set [''integer_sequence'']"
  obtain s r where d: "d = (s, r)" by force
  have C: "kernels_ok K" "rng_in_range rr" "\<And>len. rng_fair rr len" "hash_order_ok ho" "sq_inv s"
    using okd by (simp_all add: sequence_okd_def d)
  have tab: "sq_tables t = Some \<lparr>dt_name = ''integer_sequence'', dt_schema = sq_schema, dt_time_column = ''inserted_at''\<rparr>"
    using t by (simp add: sq_tables_def)
  note nx = dataset_next_Inr[of "\<lambda>(s, r) t. sq_raw_next_batch K rr ho s r" d t _ _ sq_tables, OF _ tab, of _ _ sh, folded sequence_next_def]
  show "\<exists>x d'. sequence_next sh K rr ho d t = Some (Inr x, d') \<and> sequence_okd K rr ho d'
      \<and> (\<forall>u. u \<noteq> t \<longrightarrow> (if u = ''integer_sequence'' then sequence_remaining d' u else 0)
            = (if u = ''integer_sequence'' then sequence_remaining d u else 0))
      \<and> (x \<noteq> None \<longrightarrow> 0 < (if t = ''integer_sequence'' then sequence_remaining d' t else 0)
            \<and> (if t = ''integer_sequence'' then sequence_remaining d' t else 0)
              < (if t = ''integer_sequence'' then sequence_remaining d t else 0))"
  proof (cases "sq_remaining_steps s = 0")
    case True
    then have "sequence_next sh K rr ho d t = Some (Inr None, d)"
      by (intro nx) (simp_all add: d sq_raw_next_batch_end)
    then show ?thesis using okd by auto
  next
    case False
    then obtain b s' r' ops where raw: "sq_raw_next_batch K rr ho s r = Some (Inr (Some b), s', r')" and em: "sq_emits s s' b ops"
      using sq_raw_next_batch_emits[OF C, of r] by blast
    have "rb_schema b = sq_schema" using em by (auto simp: sq_emits_def)
    then have "sequence_next sh K rr ho d t = Some (Inr (Some b), s', r')"
      by (intro nx) (simp_all add: d raw)
    moreover have "sequence_okd K rr ho (s', r')" using C sq_emits_inv[OF C(5) em] by (simp add: sequence_okd_def)
    ultimately show ?thesis using t False sq_emits_remaining[OF em] by (auto simp: sequence_remaining_def d)
  qed
qed

subsection \<open>TPC-H on S3\<close>

interpretation tpch_s3: generation "tpch_next sh E K" "map fst TPCH_TABLES" "tpch_okd E K" tpch_remaining
    "s3_write Ob K n" "s3_content Ob" "s3_inv Ob K n prefix" for sh E K Ob n prefix
  by unfold_locales

interpretation sequence_fs: generation "sequence_next sh K rr ho" "[''integer_sequence'']" "sequence_okd K rr ho"
    "\<lambda>d t. if t = ''integer_sequence'' then sequence_remaining d t else 0"
    "fs_wr Ob" "fs_content Ob" "fs_inv Ob base" for sh K rr ho Ob base
  by unfold_locales

lemma tpch_names_ok: "\<forall>t \<in> set (map fst TPCH_TABLES). table_name_ok t"
  by (simp add: TPCH_TABLES_def table_name_ok_def)

lemma tpch_new_okd:
  assumes "tpch_env_ok E" "kernels_ok K" "mutations_ok m" "dc_num_steps c \<le> 65534"
    "\<forall>t \<in> set (map fst TPCH_TABLES). tp_num_batches (tp_new c m) t \<le> 65534" "parts_small E (tp_new c m)"
  shows "tpch_okd E K (tp_new c m, r)"
    "\<forall>t \<in> set (map fst TPCH_TABLES). tpch_remaining (tp_new c m, r) t = tp_num_batches (tp_new c m) t + 1"
proof -
  have tot: "tp_total_steps (tp_new c m) t = tp_num_batches (tp_new c m) t" if "t \<in> set (map fst TPCH_TABLES)" for t
    using assms(5)[rule_format, OF that] that by (auto simp: tp_total_steps_def tp_num_batches_def split: if_splits)
  then show "tpch_okd E K (tp_new c m, r)"
    using assms tp_new_inv[OF assms(3), of c E] by (auto simp: tpch_okd_def less_Suc_eq_le simp del: set_map)
  show "\<forall>t \<in> set (map fst TPCH_TABLES). tpch_remaining (tp_new c m, r) t = tp_num_batches (tp_new c m) t + 1"
    using tot by (simp add: tpch_remaining_def tp_new_steps del: set_map)
qed

lemma drawn_member:
  assumes "i < length (drawn t outs)"
  shows "(t, drawn t outs ! i) \<in> set outs"
proof -
  have "drawn t outs ! i \<in> set (drawn t outs)" using assms by simp
  then show ?thesis by (auto simp: drawn_def)
qed

lemma generator_run_returns:
  assumes "\<forall>t \<in> set joins. \<exists>i. gn_tasks (gen_tasks ns nb wr sched (gen_start names (ge_dataset g) (ge_target g) (ge_metrics g))) t
      = Some (i, GenDone)"
  shows "\<exists>x st. generator_run ns je sh tables pk nb wr wmd names sched joins el g = Some (x, st)
     \<and> gn_tasks st = gn_tasks (gen_tasks ns nb wr sched (gen_start names (ge_dataset g) (ge_target g) (ge_metrics g)))
     \<and> (\<forall>e. x = Inl e \<longrightarrow> (\<exists>s md s'. wmd s md = (Inl e, s')))"
proof -
  let ?st = "gen_tasks ns nb wr sched (gen_start names (ge_dataset g) (ge_target g) (ge_metrics g))"
  let ?md = "gen_version_metadata sh (ge_version_config g) tables pk (gn_written ?st)"
  have "gen_join je (gn_tasks ?st) joins = Some (Inr ())" using assms by (simp add: gen_join_ok)
  moreover obtain y s where "wmd (gn_target ?st) ?md = (y, s)" by force
  ultimately show ?thesis by (cases y) (auto simp: generator_run_def Let_def)
qed

text \<open>A run does not move the storage.\<close>

lemma generator_run_target:
  assumes run: "generator_run ns je sh tables pk nb wr wmd names sched joins el g = Some (x, st)"
    and "P (ge_target g)" "\<And>s t i b y s'. P s \<Longrightarrow> wr s t i b = Some (y, s') \<Longrightarrow> P s'"
    and "\<And>s md y s'. P s \<Longrightarrow> wmd s md = (y, s') \<Longrightarrow> P s'"
  shows "P (gn_target st)"
proof -
  have "P (gn_target (gen_step ns nb wr ev q))" if "P (gn_target q)" for ev q
    using that assms(3) by (cases ev) (auto simp: gen_step_def gen_draw_def gen_write_def split: option.splits gen_phase.splits sum.splits)
  then have "P (gn_target (gen_tasks ns nb wr sched q))" if "P (gn_target q)" for q
    using that unfolding gen_tasks_def by (induction sched arbitrary: q) auto
  then have tasks: "P (gn_target (gen_tasks ns nb wr sched (gen_start names (ge_dataset g) (ge_target g) (ge_metrics g))))"
    using assms(2) by (simp add: gen_start_def)
  then show ?thesis using run assms(4)[OF tasks]
    by (auto simp: generator_run_def Let_def split: option.splits sum.splits prod.splits)
qed

lemma s3_run_prefix:
  assumes "generator_run ns je sh tables pk nb (s3_write Ob K n) (s3_write_version_metadata Ob) names sched joins el g = Some (x, st)"
    "s3_prefix (ge_target g) = prefix"
  shows "s3_prefix (gn_target st) = prefix"
  by (rule generator_run_target[OF assms(1), of "\<lambda>s. s3_prefix s = prefix", OF assms(2)])
    (auto simp: s3_write_def s3_write_version_metadata_def Let_def split: Option.bind_splits sum.splits prod.splits)

lemma fs_run_base_dir:
  assumes "generator_run ns je sh tables pk nb (fs_wr Ob) (fs_write_version_metadata Ob) names sched joins el g = Some (x, st)"
    "fs_base_dir (ge_target g) = base"
  shows "fs_base_dir (gn_target st) = base"
  by (rule generator_run_target[OF assms(1), of "\<lambda>s. fs_base_dir s = base", OF assms(2)])
    (auto simp: fs_write_base_dir fs_write_version_metadata_def fs_cache_if_unset_def split: sum.splits prod.splits if_splits)

text \<open>
  What a finished run of the TPC-H tables left behind, as the ETL sees it through a reader: the
  run drew from the dataset \<open>d\<close>, in some order of the tables, until it was \<open>d'\<close> and the last
  answer for every table was its end; the reader lists ids of the drawn batches, all of them when
  everything was written, and reads each listed batch with its rows.
\<close>

definition tpch_served ::
  "(dataset_error \<Rightarrow> string) \<Rightarrow> 'r tpch_env \<Rightarrow> kernels \<Rightarrow> tpch_dataset \<times> 'r \<Rightarrow> tpch_dataset \<times> 'r \<Rightarrow> data_storage
     \<Rightarrow> VersionMetadata option result \<Rightarrow> join_schedule \<Rightarrow> bool \<Rightarrow> bool" where
  "tpch_served sh E K d d' ds md js all_written \<longleftrightarrow> (\<exists>calls outs. nb_run (tpch_next sh E K) calls d = Some (outs, d')
     \<and> set calls \<subseteq> set (map fst TPCH_TABLES)
     \<and> (\<forall>t \<in> set (map fst TPCH_TABLES). table_ended (tpch_next sh E K) d calls t
         \<and> count_list calls t = length (drawn t outs) + 1
         \<and> replay_keys (table_changes E t outs) {} = Some (live_keys (fst d') t)
         \<and> (\<forall>b \<in> set (drawn t outs). wf_batch b)
         \<and> (\<exists>ids. read_batch_ids md t = Inr ids \<and> serves ds js t ids (drawn t outs)
              \<and> (all_written \<longrightarrow> ids = [0..<length (drawn t outs)]))))"

lemma tpch_served_run:
  assumes E: "tpch_env_ok E" "kernels_ok K" "mutations_ok m" "dc_num_steps c \<le> 65534" "gen_fresh E (tp_new c m)"
      "parts_small E (tp_new c m)"
    and nb: "nb_run (tpch_next sh E K) calls (tp_new c m, r) = Some (outs, d')" "set calls \<subseteq> set (map fst TPCH_TABLES)"
    and cnt: "\<forall>t \<in> set (map fst TPCH_TABLES). count_list calls t \<le> 65535"
    and ended: "\<forall>t \<in> set (map fst TPCH_TABLES). table_ended (tpch_next sh E K) (tp_new c m, r) calls t
              \<and> count_list calls t = length (drawn t outs) + 1"
    and ids: "\<forall>t \<in> set (map fst TPCH_TABLES). \<exists>ids. read_batch_ids md t = Inr ids \<and> serves ds js t ids (drawn t outs)
              \<and> (all_written \<longrightarrow> ids = [0..<length (drawn t outs)])"
  shows "tpch_served sh E K (tp_new c m, r) d' ds md js all_written"
proof -
  obtain s' r' where d': "d' = (s', r')" by force
  have tr: "tp_run E K calls (tp_new c m) r = Some (outs, s', r')" using tpch_next_run nb(1) by (simp add: d')
  have le: "count_list calls t \<le> 65535" for t
  proof (cases "t \<in> set calls")
    case True
    then show ?thesis using nb(2) cnt by blast
  qed (simp add: count_notin)
  have "dc_num_steps c \<le> 65535" using E(4) by simp
  then have path: "tp_path E (tp_new c m) calls outs s'" using tp_new_run[OF E(1-3) _ nb(2) le E(6), of r] tr by auto
  have "keys_from_parts E (tp_new c m)" by (simp add: keys_from_parts_def tp_new_live)
  then have rep: "replay_keys (table_changes E t outs) {} = Some (live_keys s' t)" for t
    using tp_path_replays[OF path E(1,5), of t] by (simp add: tp_new_live)
  have wf: "\<forall>b \<in> set (drawn t outs). wf_batch b" for t
    using tp_path_batches[OF path] drawn_member by (metis in_set_conv_nth)
  have s': "fst d' = s'" by (simp add: d')
  show ?thesis unfolding tpch_served_def s'
    by (intro exI[of _ calls] exI[of _ outs] conjI ballI) (use nb rep wf ended ids in blast)+
qed

text \<open>
  C12. Under every schedule that gives each of the eight table tasks two turns per batch and
  two for the end of the table, the generator on TPC-H and S3 runs to the end: it returns, with
  an error only if writing the version metadata failed. In a successful run every table was
  drawn until the dataset answered with its end, and a storage opened later on the same bucket
  lists for each table ids of the \<open>n\<close> batches drawn for it, exactly \<open>0, 1, ..., n - 1\<close> when no write
  failed; the ETL reads every listed batch back with the rows that were drawn, whatever the order
  its parts arrive in; and the drawn batches replay as changes on a keyed table whose keys at the
  end are those the dataset considers live. No part of the run may have more than \<open>2 ^ 24\<close> rows and
  no key be generated twice.
\<close>

theorem tpch_on_s3_reads_back:
  assumes E: "tpch_env_ok E" "kernels_ok K" "mutations_ok m" "dc_num_steps c \<le> 65534"
      "\<forall>t \<in> set (map fst TPCH_TABLES). tp_num_batches (tp_new c m) t \<le> 65534" "gen_fresh E (tp_new c m)"
      "parts_small E (tp_new c m)"
    and Ob: "objects_ok Ob" "parquet_ok Ob" "json_ok Ob" "0 < max_rows"
    and fair: "\<forall>t \<in> set (map fst TPCH_TABLES). 2 * (tp_num_batches (tp_new c m) t + 1) \<le> count_list (map fst sched) t"
    and len: "length sched < 2 ^ 64" and joins: "set joins = set (map fst TPCH_TABLES)" and js: "\<And>j. js_join_error js j = None"
    and g: "g = \<lparr>ge_dataset = (tp_new c m, r), ge_target = s3_open bucket prefix region objects, ge_metrics = mt_new,
      ge_version_config = vc\<rparr>"
  shows "\<exists>x st. generator_run ns je show_f64 (tp_tables E) tp_primary_key (tpch_next sh E K) (s3_write Ob K max_rows)
        (s3_write_version_metadata Ob) (map fst TPCH_TABLES) sched joins elapsed g = Some (x, st)
     \<and> (\<forall>e. x = Inl e \<longrightarrow> (\<exists>s md s'. s3_write_version_metadata Ob s md = (Inl e, s')))
     \<and> (\<forall>ir. x = Inr ir \<longrightarrow>
          (let reader = s3_open bucket prefix region (s3_objects (gn_target st))
           in tpch_served sh E K (tp_new c m, r) (gn_dataset st) (s3_data_storage Ob reader) (fst (s3_cached_version_metadata Ob reader)) js
                (mt_write_errors (ir_metrics ir) = 0)))"
proof -
  let ?T = "map fst TPCH_TABLES" and ?d = "(tp_new c m, r)"
  have okd: "tpch_okd E K ?d" and rem: "\<forall>t \<in> set ?T. tpch_remaining ?d t = tp_num_batches (tp_new c m) t + 1"
    using tpch_new_okd[OF E(1-5,7)] by simp_all
  have inv: "s3_inv Ob K max_rows prefix (ge_target g)" and m0: "mt_write_errors (ge_metrics g) = 0" and d: "ge_dataset g = ?d"
    using Ob E(2) by (simp_all add: s3_inv_def s3_open_def g mt_new_def)
  have pos: "\<forall>t \<in> set ?T. 0 < tpch_remaining ?d t" using rem by (simp del: set_map)
  have fair': "\<forall>t \<in> set ?T. 2 * tpch_remaining ?d t \<le> count_list (map fst sched) t" using rem fair by (simp del: set_map)
  let ?run = "gen_tasks ns (tpch_next sh E K) (s3_write Ob K max_rows) sched (gen_start ?T (ge_dataset g) (ge_target g) (ge_metrics g))"
  have fin: "\<exists>i < tpch_remaining ?d t. gn_tasks ?run t = Some (i, GenDone)" if "t \<in> set ?T" for t
    using tpch_s3.generator_finishes[OF okd inv pos fair' that] by (simp add: d)
  then have "\<forall>t \<in> set joins. \<exists>i. gn_tasks ?run t = Some (i, GenDone)" using joins by blast
  from generator_run_returns[OF this, of je show_f64 "tp_tables E" tp_primary_key "s3_write_version_metadata Ob" elapsed]
  obtain x st where run: "generator_run ns je show_f64 (tp_tables E) tp_primary_key (tpch_next sh E K) (s3_write Ob K max_rows)
        (s3_write_version_metadata Ob) ?T sched joins elapsed g = Some (x, st)"
    and tasks: "gn_tasks st = gn_tasks ?run" and err: "\<forall>e. x = Inl e \<longrightarrow> (\<exists>s md s'. s3_write_version_metadata Ob s md = (Inl e, s'))"
    by blast
  let ?reader = "s3_open bucket prefix region (s3_objects (gn_target st))"
  have "tpch_served sh E K ?d (gn_dataset st) (s3_data_storage Ob ?reader) (fst (s3_cached_version_metadata Ob ?reader)) js
      (mt_write_errors (ir_metrics ir) = 0)" if x: "x = Inr ir" for ir
  proof -
    have "s3_prefix (gn_target st) = prefix" by (rule s3_run_prefix[OF run]) (simp add: g s3_open_def)
    then have "s3_reads Ob (gn_target st) (s3_data_storage Ob ?reader) (fst (s3_cached_version_metadata Ob ?reader))"
      by (auto simp: s3_reads_def)
    from s3v.generator_run_reads_back[OF inv m0 tpch_names_ok joins run[unfolded x] this js]
    obtain calls outs where nb: "nb_run (tpch_next sh E K) calls ?d = Some (outs, gn_dataset st)" "set calls \<subseteq> set ?T"
      and tab: "\<forall>t \<in> set ?T. table_ended (tpch_next sh E K) ?d calls t \<and> count_list calls t = length (drawn t outs) + 1 \<and> gn_tasks st t = Some (length (drawn t outs), GenDone)
        \<and> (\<exists>ids. read_batch_ids (fst (s3_cached_version_metadata Ob ?reader)) t = Inr ids
             \<and> serves (s3_data_storage Ob ?reader) js t ids (drawn t outs)
             \<and> (mt_write_errors (ir_metrics ir) = 0 \<longrightarrow> length sched < 2 ^ 64 \<longrightarrow> ids = [0..<length (drawn t outs)]))"
      unfolding d by blast
    have "count_list calls t \<le> 65535" if t: "t \<in> set ?T" for t
    proof -
      have "count_list calls t \<le> tpch_remaining ?d t" using tab fin[OF t] tasks t by fastforce
      then show ?thesis using bspec[OF rem t] bspec[OF E(5) t] by linarith
    qed
    then show ?thesis using tab len by (intro tpch_served_run[OF E(1-4,6,7) nb]) blast+
  qed
  then show ?thesis using run err unfolding Let_def by blast
qed

subsection \<open>The integer sequence on files\<close>

lemma concat_map_concat: "concat (map f (concat (map g xs))) = concat (map (\<lambda>x. concat (map f (g x))) xs)"
  by (induction xs) auto

lemma serves_all:
  assumes "serves ds js t [0..<length bs] bs" "\<forall>b \<in> set bs. wf_batch b"
  shows "\<exists>rs. map (read_logical_batch ds js t) [0..<length bs] = map (\<lambda>r. Inr (Some r)) rs
     \<and> map (\<lambda>r. concat (map rows (rr_batches r))) rs = map rows bs"
proof -
  have "\<forall>i \<in> {..<length bs}. \<exists>r. read_logical_batch ds js t i = Inr (Some r) \<and> keeps_batch (bs ! i) (rr_batches r)"
    using assms by (simp add: serves_def)
  then obtain f where f: "\<And>i. i < length bs \<Longrightarrow> read_logical_batch ds js t i = Inr (Some (f i)) \<and> keeps_batch (bs ! i) (rr_batches (f i))"
    by (metis lessThan_iff)
  have "map (\<lambda>r. concat (map rows (rr_batches r))) (map f [0..<length bs]) = map (\<lambda>i. rows (bs ! i)) [0..<length bs]"
    using f by (auto simp: keeps_batch_def)
  also have "\<dots> = map rows bs" using arg_cong[OF map_nth[of bs], of "map rows"] by (simp add: comp_def)
  finally show ?thesis using f by (intro exI[of _ "map f [0..<length bs]"]) simp
qed

lemma sequence_next_path:
  assumes "sequence_okd K rr ho (s, r)" "nb_run (sequence_next sh K rr ho) calls (s, r) = Some (outs, s', r')"
    "set calls \<subseteq> {''integer_sequence''}"
  shows "sq_path s (map snd outs) s' \<and> map fst outs = replicate (length outs) ''integer_sequence''
     \<and> length outs + sq_remaining_steps s' = sq_remaining_steps s"
  using assms
proof (induction calls arbitrary: s r outs)
  case Nil
  then show ?case by (simp add: sq_path_Nil)
next
  case (Cons t calls)
  have C: "kernels_ok K" "rng_in_range rr" "\<And>len. rng_fair rr len" "hash_order_ok ho" "sq_inv s"
    using Cons.prems(1) by (simp_all add: sequence_okd_def)
  obtain x d1 where n: "sequence_next sh K rr ho (s, r) t = Some (Inr x, d1)"
    using Cons.prems by (auto split: option.splits sum.splits prod.splits)
  obtain s1 r1 where d1: "d1 = (s1, r1)" by force
  have raw: "sq_raw_next_batch K rr ho s r = Some (Inr x, s1, r1)"
    using dataset_next_raw[OF n[unfolded sequence_next_def]] by (simp add: d1)
  have t: "t = ''integer_sequence''" "set calls \<subseteq> {''integer_sequence''}" using Cons.prems(3) by auto
  show ?case
  proof (cases "sq_remaining_steps s = 0")
    case True
    then have "x = None" "s1 = s" "r1 = r" using raw by (simp_all add: sq_raw_next_batch_end)
    then show ?thesis using Cons.IH[OF Cons.prems(1) _ t(2)] Cons.prems(2) n d1 by simp
  next
    case False
    then obtain b ops where x: "x = Some b" and em: "sq_emits s s1 b ops"
      using sq_raw_next_batch_emits[OF C, of r] raw by auto
    from Cons.prems(2) n d1 x obtain bs where bs: "outs = (t, b) # bs"
      "nb_run (sequence_next sh K rr ho) calls (s1, r1) = Some (bs, s', r')" by auto
    have "sequence_okd K rr ho (s1, r1)" using C sq_emits_inv[OF C(5) em] by (simp add: sequence_okd_def)
    from Cons.IH[OF this bs(2) t(2)] show ?thesis
      using sq_path_Cons[OF em] bs(1) t(1) False sq_emits_remaining[OF em] by simp
  qed
qed

text \<open>The run ended: every step of the sequence was drawn.\<close>

lemma sequence_ended:
  assumes okd: "sequence_okd K rr ho (s, r)" and run: "nb_run (sequence_next sh K rr ho) calls (s, r) = Some (outs, s', r')"
    and calls: "set calls \<subseteq> {''integer_sequence''}" and ended: "table_ended (sequence_next sh K rr ho) (s, r) calls ''integer_sequence''"
  shows "sq_path s (drawn ''integer_sequence'' outs) s' \<and> length (drawn ''integer_sequence'' outs) = sq_remaining_steps s"
proof -
  from ended obtain xs ys out d d' where xs: "calls = xs @ ''integer_sequence'' # ys" "''integer_sequence'' \<notin> set ys"
    and pre: "nb_run (sequence_next sh K rr ho) xs (s, r) = Some (out, d)"
    and nx: "sequence_next sh K rr ho d ''integer_sequence'' = Some (Inr None, d')"
    unfolding table_ended_def by blast
  have ys: "ys = []" using xs calls by (cases ys) auto
  obtain s1 r1 s2 r2 where d: "d = (s1, r1)" "d' = (s2, r2)" by force
  have path: "sq_path s (map snd out) s1" and names: "map fst out = replicate (length out) ''integer_sequence''"
    and steps: "length out + sq_remaining_steps s1 = sq_remaining_steps s"
    using sequence_next_path[OF okd, of sh xs out s1 r1] pre calls xs by (auto simp: d)
  have C: "kernels_ok K" "rng_in_range rr" "\<And>len. rng_fair rr len" "hash_order_ok ho" "sq_inv s1"
    using okd sq_path_inv[OF path] by (simp_all add: sequence_okd_def)
  have raw: "sq_raw_next_batch K rr ho s1 r1 = Some (Inr None, s2, r2)"
    using dataset_next_raw[OF nx[unfolded sequence_next_def]] by (simp add: d)
  then have rem: "sq_remaining_steps s1 = 0" using sq_raw_next_batch_emits[OF C, of r1] by fastforce
  then have "s2 = s1" using raw by (simp add: sq_raw_next_batch_end)
  then have out: "outs = out" "s' = s1" using run pre nx by (auto simp: xs ys nb_run_append d)
  have "drawn ''integer_sequence'' out = map snd out"
    using names by (induction out) (auto simp: drawn_def)
  then show ?thesis using path out rem steps by simp
qed

text \<open>
  C13. The integer-sequence dataset generated to files is what the ETL later reads: under every
  schedule with enough turns the generator returns, with an error only if writing the version
  metadata failed; and after a run without a failed write, the dataset was drawn to its end in
  \<open>num_steps\<close> batches, the reopened directory lists exactly the ids \<open>0, ..., num_steps - 1\<close>, each of
  them is read back with the rows of the batch drawn under that number, and the rows read, in id
  order, replay on an empty keyed table and leave the keys the dataset considers live.
\<close>

theorem sequence_on_files_reads_back:
  assumes C: "kernels_ok K" "rng_in_range rr" "\<And>len. rng_fair rr len" "hash_order_ok ho" "ratios_ok m"
      "dc_num_steps c \<le> 65535" "f64_as_usize (f64_mul (dc_scale_factor c) 1000) < 2 ^ 25"
    and Ob: "objects_ok Ob" "parquet_ok Ob" "json_ok Ob"
    and fair: "2 * (dc_num_steps c + 1) \<le> count_list (map fst sched) ''integer_sequence''" and len: "length sched < 2 ^ 64"
    and js: "\<And>j. js_join_error js j = None"
    and g: "g = \<lparr>ge_dataset = (sq_new c m, r), ge_target = fs_new base objects, ge_metrics = mt_new, ge_version_config = vc\<rparr>"
  shows "\<exists>x st. generator_run ns je show_f64 sq_tables sq_primary_key (sequence_next sh K rr ho) (fs_wr Ob)
        (fs_write_version_metadata Ob) [''integer_sequence''] sched [''integer_sequence''] elapsed g = Some (x, st)
     \<and> (\<forall>e. x = Inl e \<longrightarrow> (\<exists>s md s'. fs_write_version_metadata Ob s md = (Inl e, s')))
     \<and> (\<forall>ir. x = Inr ir \<longrightarrow> mt_write_errors (ir_metrics ir) = 0 \<longrightarrow>
          (let reader = fs_new base (fs_objects (gn_target st)) in
           read_batch_ids (fst (fs_read_version_metadata Ob reader)) ''integer_sequence'' = Inr [0..<dc_num_steps c]
           \<and> (\<exists>calls outs rs t. nb_run (sequence_next sh K rr ho) calls (sq_new c m, r) = Some (outs, gn_dataset st)
                \<and> table_ended (sequence_next sh K rr ho) (sq_new c m, r) calls ''integer_sequence''
                \<and> length (drawn ''integer_sequence'' outs) = dc_num_steps c
                \<and> map (read_logical_batch (fs_data_storage Ob reader) js ''integer_sequence'') [0..<dc_num_steps c]
                   = map (\<lambda>r. Inr (Some r)) rs
                \<and> map (\<lambda>r. concat (map rows (rr_batches r))) rs = map rows (drawn ''integer_sequence'' outs)
                \<and> replay_rows (concat (map rows (concat (map rr_batches rs)))) Map.empty = Some t
                \<and> dom t = set (ks_keys (sq_key_set (fst (gn_dataset st)))))))"
proof -
  let ?t = "''integer_sequence''" and ?d = "(sq_new c m, r)"
  have inv: "sq_inv (sq_new c m)" by (rule sq_new_inv[OF C(5-7)])
  have okd: "sequence_okd K rr ho ?d" using C inv by (simp add: sequence_okd_def)
  have finv: "fs_inv Ob base (ge_target g)" and m0: "mt_write_errors (ge_metrics g) = 0" and d: "ge_dataset g = ?d"
    using Ob by (simp_all add: fs_inv_def fs_new_def g mt_new_def)
  have rem: "sequence_remaining ?d ?t = dc_num_steps c + 1" by (simp add: sequence_remaining_def sq_new_def)
  let ?run = "gen_tasks ns (sequence_next sh K rr ho) (fs_wr Ob) sched (gen_start [?t] (ge_dataset g) (ge_target g) (ge_metrics g))"
  have "\<exists>i. gn_tasks ?run ?t = Some (i, GenDone)"
    using sequence_fs.generator_finishes[OF okd finv, of sched ?t ns sh "ge_metrics g"] fair rem by (auto simp: d)
  then have "\<forall>t \<in> set [?t]. \<exists>i. gn_tasks ?run t = Some (i, GenDone)" by simp
  from generator_run_returns[OF this, of je show_f64 sq_tables sq_primary_key "fs_write_version_metadata Ob" elapsed]
  obtain x st where run: "generator_run ns je show_f64 sq_tables sq_primary_key (sequence_next sh K rr ho) (fs_wr Ob)
        (fs_write_version_metadata Ob) [?t] sched [?t] elapsed g = Some (x, st)"
    and err: "\<forall>e. x = Inl e \<longrightarrow> (\<exists>s md s'. fs_write_version_metadata Ob s md = (Inl e, s'))" by blast
  let ?reader = "fs_new base (fs_objects (gn_target st))"
  have "read_batch_ids (fst (fs_read_version_metadata Ob ?reader)) ?t = Inr [0..<dc_num_steps c]
      \<and> (\<exists>calls outs rs t. nb_run (sequence_next sh K rr ho) calls ?d = Some (outs, gn_dataset st)
           \<and> table_ended (sequence_next sh K rr ho) ?d calls ?t \<and> length (drawn ?t outs) = dc_num_steps c
           \<and> map (read_logical_batch (fs_data_storage Ob ?reader) js ?t) [0..<dc_num_steps c] = map (\<lambda>r. Inr (Some r)) rs
           \<and> map (\<lambda>r. concat (map rows (rr_batches r))) rs = map rows (drawn ?t outs)
           \<and> replay_rows (concat (map rows (concat (map rr_batches rs)))) Map.empty = Some t
           \<and> dom t = set (ks_keys (sq_key_set (fst (gn_dataset st)))))"
    if x: "x = Inr ir" and we: "mt_write_errors (ir_metrics ir) = 0" for ir
  proof -
    have nm: "\<forall>t \<in> set [?t]. table_name_ok t" by (simp add: table_name_ok_def)
    have "fs_base_dir (gn_target st) = base" by (rule fs_run_base_dir[OF run]) (simp add: g fs_new_def)
    then have "fs_reads Ob (gn_target st) (fs_data_storage Ob ?reader) (fst (fs_read_version_metadata Ob ?reader))"
      using fs_reads_in_place[of Ob "gn_target st"] by simp
    from fsv.generator_run_reads_back[OF finv m0 nm refl run[unfolded x] this js]
    obtain calls outs where nb: "nb_run (sequence_next sh K rr ho) calls ?d = Some (outs, gn_dataset st)" "set calls \<subseteq> {?t}"
      and ended: "table_ended (sequence_next sh K rr ho) ?d calls ?t"
      and ids: "read_batch_ids (fst (fs_read_version_metadata Ob ?reader)) ?t = Inr [0..<length (drawn ?t outs)]"
        "serves (fs_data_storage Ob ?reader) js ?t [0..<length (drawn ?t outs)] (drawn ?t outs)"
      using we len unfolding d by auto
    obtain s' r' where d': "gn_dataset st = (s', r')" by force
    have path: "sq_path (sq_new c m) (drawn ?t outs) s'" and n: "length (drawn ?t outs) = dc_num_steps c"
      using sequence_ended[OF okd nb(1)[unfolded d'] nb(2) ended] by (simp_all add: sq_new_def)
    obtain rs where rs: "map (read_logical_batch (fs_data_storage Ob ?reader) js ?t) [0..<dc_num_steps c] = map (\<lambda>r. Inr (Some r)) rs"
      "map (\<lambda>r. concat (map rows (rr_batches r))) rs = map rows (drawn ?t outs)"
      using serves_all[OF ids(2)] sq_path_batches[OF path] n by auto
    have all: "concat (map rows (concat (map rr_batches rs))) = concat (map rows (drawn ?t outs))"
      unfolding concat_map_concat rs(2)[symmetric] by simp
    obtain t where "replay_rows (concat (map rows (drawn ?t outs))) Map.empty = Some t" "dom t = ks_live (sq_key_set s')"
      using sq_path_replays[OF path inv, of Map.empty] by (auto simp: sq_new_def ks_live_new)
    moreover have "ks_live (sq_key_set s') = set (ks_keys (sq_key_set s'))" by (simp add: ks_live_def)
    ultimately have "replay_rows (concat (map rows (concat (map rr_batches rs)))) Map.empty = Some t
        \<and> dom t = set (ks_keys (sq_key_set (fst (gn_dataset st))))" by (simp add: all d')
    then show ?thesis using nb(1) ended n rs ids(1)[unfolded n] by blast
  qed
  then show ?thesis using run err unfolding Let_def by blast
qed

subsection \<open>A concrete object store\<close>

text \<open>Objects in a map; a Parquet object is its batch, the metadata object the metadata.\<close>

definition map_objects :: "(string \<rightharpoonup> record_batch + VersionMetadata, record_batch + VersionMetadata) object_env" where
  "map_objects = \<lparr>oe_put = (\<lambda>t p b. (Inr (), t(p \<mapsto> b))), oe_get = (\<lambda>t p. Inr (t p)), oe_create_dir_all = (\<lambda>t p. (Inr (), t)),
     oe_len = (\<lambda>b. 1), oe_encode = (\<lambda>b. Inr (Inl b)),
     oe_decode = (\<lambda>x. case x of Inl b \<Rightarrow> Inr [b] | Inr _ \<Rightarrow> Inl ''not a Parquet object''),
     oe_meta_encode = (\<lambda>md. Inr (Inr md)), oe_meta_decode = (\<lambda>x. case x of Inr md \<Rightarrow> Inr md | Inl _ \<Rightarrow> Inl ''not JSON'')\<rparr>"

lemma map_objects_ok: "objects_ok map_objects" "parquet_ok map_objects" "json_ok map_objects"
  by (auto simp: objects_ok_def parquet_ok_def json_ok_def keeps_batch_def map_objects_def)

definition turns :: "nat \<Rightarrow> string list \<Rightarrow> (string \<times> nat) list" where
  "turns n tables = concat (replicate n (map (\<lambda>t. (t, 250)) tables))"

lemma count_turns: "count_list (map fst (turns n tables)) t = n * count_list tables t"
  by (induction n) (simp_all add: turns_def comp_def count_list_append)

lemma length_turns: "length (turns n tables) = n * length tables"
  by (induction n) (simp_all add: turns_def)

definition demo_version :: VersionConfig where
  "demo_version = \<lparr>vc_scenario = ''tpch'', vc_scale_factor = 1, vc_num_steps = 2, vc_dataset_type = ''tpch'', vc_update_ratio = 1 / 2,
     vc_delete_ratio = 1 / 4, vc_bootstrap = True, vc_num_mutation_steps = 1, vc_churn_fraction = 1\<rparr>"

definition demo_tpch_generator :: "(tpch_dataset \<times> nat, (string \<rightharpoonup> record_batch + VersionMetadata) s3_storage) generator" where
  "demo_tpch_generator = \<lparr>ge_dataset = (tp_new demo_tpch_config demo_tpch_mutations, 0),
     ge_target = s3_open ''bench'' ''sf1'' None Map.empty, ge_metrics = mt_new, ge_version_config = demo_version\<rparr>"

theorem tpch_on_s3_reads_back_witness:
  "\<exists>x st. generator_run [] (\<lambda>_. []) (\<lambda>_. ''1'') (tp_tables demo_tpch) tp_primary_key (tpch_next (\<lambda>_. []) demo_tpch list_kernels)
        (s3_write map_objects list_kernels 2) (s3_write_version_metadata map_objects) (map fst TPCH_TABLES)
        (turns 8 (map fst TPCH_TABLES)) (map fst TPCH_TABLES) 1000 demo_tpch_generator = Some (x, st)
     \<and> (\<forall>e. x = Inl e \<longrightarrow> (\<exists>s md s'. s3_write_version_metadata map_objects s md = (Inl e, s')))
     \<and> (\<forall>ir. x = Inr ir \<longrightarrow>
          (let reader = s3_open ''bench'' ''sf1'' None (s3_objects (gn_target st))
           in tpch_served (\<lambda>_. []) demo_tpch list_kernels (tp_new demo_tpch_config demo_tpch_mutations, 0) (gn_dataset st) (s3_data_storage map_objects reader)
                (fst (s3_cached_version_metadata map_objects reader)) last_first (mt_write_errors (ir_metrics ir) = 0)))"
proof (rule tpch_on_s3_reads_back[OF demo_tpch_ok list_kernels_ok demo_mutations_ok _ _ demo_gen_fresh demo_parts_small map_objects_ok])
  have n: "tp_num_batches (tp_new demo_tpch_config demo_tpch_mutations) t \<le> 3" for t
    by (simp add: tp_num_batches_def tp_new_def demo_tpch_config_def demo_tpch_mutations_def)
  then show "\<forall>t \<in> set (map fst TPCH_TABLES). tp_num_batches (tp_new demo_tpch_config demo_tpch_mutations) t \<le> 65534"
    by (intro ballI order_trans[OF n]) simp
  have "count_list (map fst TPCH_TABLES) t = 1" if "t \<in> set (map fst TPCH_TABLES)" for t
    using that by (auto simp: TPCH_TABLES_def)
  then have "2 * (tp_num_batches (tp_new demo_tpch_config demo_tpch_mutations) t + 1)
      \<le> count_list (map fst (turns 8 (map fst TPCH_TABLES))) t" if "t \<in> set (map fst TPCH_TABLES)" for t
    using n[of t] that unfolding count_turns by simp
  then show "\<forall>t \<in> set (map fst TPCH_TABLES). 2 * (tp_num_batches (tp_new demo_tpch_config demo_tpch_mutations) t + 1)
      \<le> count_list (map fst (turns 8 (map fst TPCH_TABLES))) t" by blast
qed (simp_all add: demo_tpch_config_def length_turns last_first_def demo_tpch_generator_def TPCH_TABLES_def)

definition demo_sequence_generator :: "(simple_sequence \<times> nat, (string \<rightharpoonup> record_batch + VersionMetadata) file_storage) generator" where
  "demo_sequence_generator = \<lparr>ge_dataset = (sq_new demo_sequence_config demo_mutations, 0),
     ge_target = fs_new ''out'' Map.empty, ge_metrics = mt_new, ge_version_config = demo_version\<rparr>"

theorem sequence_on_files_reads_back_witness:
  "\<exists>x st. generator_run [] (\<lambda>_. []) (\<lambda>_. ''1'') sq_tables sq_primary_key
        (sequence_next (\<lambda>_. []) list_kernels cycle_rng sorted_list_of_set) (fs_wr map_objects)
        (fs_write_version_metadata map_objects) [''integer_sequence''] (turns 6 [''integer_sequence'']) [''integer_sequence''] 1000
        demo_sequence_generator = Some (x, st)
     \<and> (\<forall>e. x = Inl e \<longrightarrow> (\<exists>s md s'. fs_write_version_metadata map_objects s md = (Inl e, s')))
     \<and> (\<forall>ir. x = Inr ir \<longrightarrow> mt_write_errors (ir_metrics ir) = 0 \<longrightarrow>
          (let reader = fs_new ''out'' (fs_objects (gn_target st)) in
           read_batch_ids (fst (fs_read_version_metadata map_objects reader)) ''integer_sequence'' = Inr [0..<dc_num_steps demo_sequence_config]
           \<and> (\<exists>calls outs rs t. nb_run (sequence_next (\<lambda>_. []) list_kernels cycle_rng sorted_list_of_set) calls
                  (sq_new demo_sequence_config demo_mutations, 0) = Some (outs, gn_dataset st)
                \<and> table_ended (sequence_next (\<lambda>_. []) list_kernels cycle_rng sorted_list_of_set)
                    (sq_new demo_sequence_config demo_mutations, 0) calls ''integer_sequence''
                \<and> length (drawn ''integer_sequence'' outs) = dc_num_steps demo_sequence_config
                \<and> map (read_logical_batch (fs_data_storage map_objects reader) last_first ''integer_sequence'')
                     [0..<dc_num_steps demo_sequence_config] = map (\<lambda>r. Inr (Some r)) rs
                \<and> map (\<lambda>r. concat (map rows (rr_batches r))) rs = map rows (drawn ''integer_sequence'' outs)
                \<and> replay_rows (concat (map rows (concat (map rr_batches rs)))) Map.empty = Some t
                \<and> dom t = set (ks_keys (sq_key_set (fst (gn_dataset st)))))))"
  by (rule sequence_on_files_reads_back[OF list_kernels_ok cycle_rng_in_range cycle_rng_fair hash_order_sorted demo_ratios
        _ _ map_objects_ok])
    (simp_all add: demo_batch_size count_turns length_turns last_first_def demo_sequence_generator_def,
      simp_all add: demo_sequence_config_def)

end
