(* ===== verification/Generate.thy ===== *)
theory Generate
  imports Archive GeneratedData
begin

text \<open>
  \<^verbatim>\<open>src/commands/generate.rs\<close>: the \<^verbatim>\<open>generate\<close> command. It creates the dataset, runs the generator into a
  fresh directory, and archives the directory to a local path or to S3, where the ETL
  downloads it before a benchmark.
\<close>

subsection \<open>The datasets of the factory\<close>

datatype 'r any_dataset = TpchData "tpch_dataset \<times> 'r" | SequenceData "simple_sequence \<times> 'r"

definition dataset_create :: "DatasetConfig \<Rightarrow> MutationConfig \<Rightarrow> 'r \<Rightarrow> 'r any_dataset result" where
  "dataset_create c m r =
     (if dc_dataset_type c = ''tpch'' then Inr (TpchData (tp_new c m, r))
      else if dc_dataset_type c = ''simple_sequence'' then Inr (SequenceData (sq_new c m, r))
      else Inl (''Unknown dataset type: '' @ dc_dataset_type c @ ''. Supported: tpch, simple_sequence''))"

definition any_next :: "(dataset_error \<Rightarrow> string) \<Rightarrow> 'r tpch_env \<Rightarrow> kernels \<Rightarrow> 'r any_dataset dataset_next" where
  "any_next sh E K d t =
     (case d of
        TpchData x \<Rightarrow> map_option (\<lambda>(y, x'). (y, TpchData x')) (tpch_next sh E K x t)
      | SequenceData x \<Rightarrow> map_option (\<lambda>(y, x'). (y, SequenceData x')) (sequence_next sh K (te_rr E) (te_hash E) x t))"

definition any_tables :: "'r tpch_env \<Rightarrow> 'r any_dataset \<Rightarrow> string \<rightharpoonup> DatasetTable" where
  "any_tables E d = (case d of TpchData _ \<Rightarrow> tp_tables E | SequenceData _ \<Rightarrow> sq_tables)"

definition any_primary_key :: "'r any_dataset \<Rightarrow> string \<Rightarrow> string list" where
  "any_primary_key d = (case d of TpchData _ \<Rightarrow> tp_primary_key | SequenceData _ \<Rightarrow> sq_primary_key)"

definition any_table_names :: "'r any_dataset \<Rightarrow> string list" where
  "any_table_names d = (case d of TpchData _ \<Rightarrow> map fst TPCH_TABLES | SequenceData _ \<Rightarrow> [''integer_sequence''])"

subsection \<open>The command\<close>

record GenerateArgs =
  ga_dataset :: string
  ga_scale_factor :: f64
  ga_num_steps :: nat
  ga_scenario :: string
  ga_output_archive :: "string option"
  ga_bucket :: "string option"
  ga_prefix :: string
  ga_region :: "string option"
  ga_endpoint :: "string option"
  ga_update_ratio :: f64
  ga_delete_ratio :: f64
  ga_bootstrap :: bool
  ga_bootstrap_mutation_steps :: nat
  ga_bootstrap_churn_fraction :: f64

text \<open>The \<^verbatim>\<open>TargetConfig\<close> of the upload.\<close>

record upload_target =
  ut_bucket :: string
  ut_prefix :: string
  ut_region :: "string option"
  ut_endpoint :: "string option"
  ut_partition_columns :: "string list"

text \<open>
  What the command takes from outside: the environments of the datasets, the texts of
  third-party errors and numbers, the schedule of the table tasks and the order they are
  joined in, the clock, the temporary directories and the construction of the S3 client.
\<close>

record ('r, 'x) generate_env =
  gv_tpch :: "'r tpch_env"
  gv_kernels :: kernels
  gv_rng :: 'r
  gv_show_error :: "dataset_error \<Rightarrow> string"
  gv_null_str :: string
  gv_join_error :: "string \<Rightarrow> string"
  gv_show_f64 :: "f64 \<Rightarrow> string"
  gv_sched :: "(string \<times> nat) list"
  gv_joins :: "string list"
  gv_elapsed_ns :: nat
  gv_work_dir :: "string result"
  gv_archive_dir :: "string result"
  gv_s3_new :: "upload_target \<Rightarrow> unit result"
  gv_transfer :: "'x transfer"

definition generate_mutations :: "GenerateArgs \<Rightarrow> MutationConfig option" where
  "generate_mutations args =
     (if ga_bootstrap args
      then map_option (\<lambda>m. with_bootstrap m (ga_bootstrap_mutation_steps args) (ga_bootstrap_churn_fraction args))
             (MutationConfig_new (ga_update_ratio args) (ga_delete_ratio args))
      else MutationConfig_new (ga_update_ratio args) (ga_delete_ratio args))"

definition generate_dataset_config :: "GenerateArgs \<Rightarrow> DatasetConfig" where
  "generate_dataset_config args = \<lparr>dc_dataset_type = ga_dataset args, dc_scale_factor = ga_scale_factor args,
     dc_num_steps = ga_num_steps args\<rparr>"

definition generate_version_config :: "GenerateArgs \<Rightarrow> MutationConfig \<Rightarrow> VersionConfig" where
  "generate_version_config args m = \<lparr>vc_scenario = ga_scenario args, vc_scale_factor = ga_scale_factor args,
     vc_num_steps = ga_num_steps args, vc_dataset_type = ga_dataset args, vc_update_ratio = update_ratio m,
     vc_delete_ratio = delete_ratio m, vc_bootstrap = bootstrap m, vc_num_mutation_steps = num_mutation_steps m,
     vc_churn_fraction = churn_fraction m\<rparr>"

definition generate_archive_path :: "('r, 'x) generate_env \<Rightarrow> GenerateArgs \<Rightarrow> string result" where
  "generate_archive_path V args =
     (case ga_output_archive args of
        Some p \<Rightarrow> Inr p
      | None \<Rightarrow> and_then (gv_archive_dir V) (\<lambda>d. Inr (d @ ''/'' @ ARCHIVE_FILENAME)))"

definition generate_target :: "('r, 'x) generate_env \<Rightarrow> GenerateArgs \<Rightarrow> string \<Rightarrow> upload_target" where
  "generate_target V args bucket = \<lparr>ut_bucket = bucket,
     ut_prefix = build_version_prefix (ga_prefix args) (ga_scenario args)
       (format_scale_factor (gv_show_f64 V) (ga_scale_factor args)),
     ut_region = ga_region args, ut_endpoint = ga_endpoint args, ut_partition_columns = []\<rparr>"

text \<open>The second half: the archive of the directory, and its upload unless it stays local.\<close>

definition generate_publish ::
  "('r, 'x) generate_env \<Rightarrow> ('t, 'x) archive_env \<Rightarrow> ('u, 'x list) object_env \<Rightarrow> GenerateArgs \<Rightarrow> string \<Rightarrow> 't \<Rightarrow> 'u
     \<Rightarrow> unit result \<times> 't \<times> 'u" where
  "generate_publish V A S args work_dir t u =
     (case generate_archive_path V args of
        Inl e \<Rightarrow> (Inl e, t, u)
      | Inr archive_path \<Rightarrow>
          (case create_archive A t work_dir archive_path of
             (Inl e, t1) \<Rightarrow> (Inl e, t1, u)
           | (Inr _, t1) \<Rightarrow>
               if ga_output_archive args \<noteq> None then (Inr (), t1, u)
               else (case ga_bucket args of
                       None \<Rightarrow> (Inl ''--bucket is required for S3 storage'', t1, u)
                     | Some bucket \<Rightarrow>
                         let target = generate_target V args bucket
                         in (case gv_s3_new V target of
                               Inl e \<Rightarrow> (Inl e, t1, u)
                             | Inr _ \<Rightarrow>
                                 (case upload_archive A S (gv_transfer V) t1 u (ut_prefix target) archive_path of
                                    (x, u1) \<Rightarrow> (x, t1, u1))))))"

definition generate_generator :: "GenerateArgs \<Rightarrow> MutationConfig \<Rightarrow> string \<Rightarrow> 'r any_dataset \<Rightarrow> 't
     \<Rightarrow> ('r any_dataset, 't file_storage) generator" where
  "generate_generator args m work_dir d t = \<lparr>ge_dataset = d, ge_target = fs_new work_dir t, ge_metrics = mt_new,
     ge_version_config = generate_version_config args m\<rparr>"

definition generate_run ::
  "('r, 'x) generate_env \<Rightarrow> ('t, 'x) archive_env \<Rightarrow> GenerateArgs \<Rightarrow> MutationConfig \<Rightarrow> string \<Rightarrow> 'r any_dataset \<Rightarrow> 't
     \<Rightarrow> (IngestResult result \<times> ('r any_dataset, 't file_storage) gen_state) option" where
  "generate_run V A args m work_dir d t =
     generator_run (gv_null_str V) (gv_join_error V) (gv_show_f64 V) (any_tables (gv_tpch V) d) (any_primary_key d)
       (any_next (gv_show_error V) (gv_tpch V) (gv_kernels V)) (fs_wr (av_files A)) (fs_write_version_metadata (av_files A))
       (any_table_names d) (gv_sched V) (gv_joins V) (gv_elapsed_ns V) (generate_generator args m work_dir d t)"

text \<open>\<open>None\<close> is the panic on the ratios, or a schedule that leaves tasks running.\<close>

definition generate_execute ::
  "('r, 'x) generate_env \<Rightarrow> ('t, 'x) archive_env \<Rightarrow> ('u, 'x list) object_env \<Rightarrow> GenerateArgs \<Rightarrow> 't \<Rightarrow> 'u
     \<Rightarrow> (unit result \<times> 't \<times> 'u) option" where
  "generate_execute V A S args t u =
     (case generate_mutations args of
        None \<Rightarrow> None
      | Some m \<Rightarrow>
          (case gv_work_dir V of
             Inl e \<Rightarrow> Some (Inl e, t, u)
           | Inr work_dir \<Rightarrow>
               (case dataset_create (generate_dataset_config args) m (gv_rng V) of
                  Inl e \<Rightarrow> Some (Inl e, t, u)
                | Inr d \<Rightarrow>
                    (case generate_run V A args m work_dir d t of
                       None \<Rightarrow> None
                     | Some (Inl e, st) \<Rightarrow> Some (Inl e, fs_objects (gn_target st), u)
                     | Some (Inr result, st) \<Rightarrow>
                         Some (if mt_write_errors (ir_metrics result) > 0
                               then (Inl (''Ingestion completed with '' @ show_nat (mt_write_errors (ir_metrics result)) @ '' errors''),
                                     fs_objects (gn_target st), u)
                               else generate_publish V A S args work_dir (fs_objects (gn_target st)) u)))))"

subsection \<open>The factory's datasets end\<close>

lemma any_next_tpch:
  "nb_run (any_next sh E K) calls (TpchData x) = Some (outs, d') \<Longrightarrow>
     \<exists>y. d' = TpchData y \<and> nb_run (tpch_next sh E K) calls x = Some (outs, y)"
proof (induction calls arbitrary: x outs)
  case Nil
  then show ?case by (cases x) auto
next
  case (Cons t calls)
  obtain r y where n: "tpch_next sh E K x t = Some (Inr r, y)" and any: "any_next sh E K (TpchData x) t = Some (Inr r, TpchData y)"
    using Cons.prems by (auto simp: any_next_def split: option.splits sum.splits prod.splits)
  show ?case
  proof (cases r)
    case None
    then show ?thesis using Cons.IH[of y outs] Cons.prems n any by simp
  next
    case (Some b)
    then obtain bs where "nb_run (any_next sh E K) calls (TpchData y) = Some (bs, d')" "outs = (t, b) # bs"
      using Cons.prems any by auto
    then show ?thesis using Cons.IH[of y bs] n Some by auto
  qed
qed

lemma any_next_tpch_ended:
  assumes "table_ended (any_next sh E K) (TpchData x) calls t"
  shows "table_ended (tpch_next sh E K) x calls t"
proof -
  obtain xs ys out d d' where c: "calls = xs @ t # ys" "t \<notin> set ys"
    and r: "nb_run (any_next sh E K) xs (TpchData x) = Some (out, d)" and e: "any_next sh E K d t = Some (Inr None, d')"
    using assms unfolding table_ended_def by blast
  obtain y where y: "d = TpchData y" "nb_run (tpch_next sh E K) xs x = Some (out, y)" using any_next_tpch[OF r] by blast
  moreover obtain y' where "tpch_next sh E K y t = Some (Inr None, y')"
    using e y(1) by (auto simp: any_next_def split: option.splits prod.splits)
  ultimately show ?thesis using c unfolding table_ended_def by blast
qed

definition any_okd :: "'r tpch_env \<Rightarrow> kernels \<Rightarrow> 'r any_dataset \<Rightarrow> bool" where
  "any_okd E K d = (case d of TpchData x \<Rightarrow> tpch_okd E K x | SequenceData _ \<Rightarrow> False)"

definition any_remaining :: "'r any_dataset \<Rightarrow> string \<Rightarrow> nat" where
  "any_remaining d t = (case d of TpchData x \<Rightarrow> tpch_remaining x t | SequenceData _ \<Rightarrow> 0)"

interpretation tpch_fs: generation "any_next sh E K" "map fst TPCH_TABLES" "any_okd E K" any_remaining
    "fs_wr Ob" "fs_content Ob" "fs_inv Ob base" for sh E K Ob base
proof
  fix d :: "'a any_dataset" and t
  assume okd: "any_okd E K d" and t: "t \<in> set (map fst TPCH_TABLES)" and rem: "0 < any_remaining d t"
  then obtain x where d: "d = TpchData x" "tpch_okd E K x" "0 < tpch_remaining x t"
    by (auto simp: any_okd_def any_remaining_def split: any_dataset.splits)
  from tpch.nb_next[OF d(2) t d(3), of sh]
  obtain r x' where "tpch_next sh E K x t = Some (Inr r, x')" "tpch_okd E K x'"
    "\<forall>u. u \<noteq> t \<longrightarrow> tpch_remaining x' u = tpch_remaining x u"
    "r \<noteq> None \<longrightarrow> 0 < tpch_remaining x' t \<and> tpch_remaining x' t < tpch_remaining x t" by blast
  then show "\<exists>r d'. any_next sh E K d t = Some (Inr r, d') \<and> any_okd E K d' \<and> (\<forall>u. u \<noteq> t \<longrightarrow> any_remaining d' u = any_remaining d u)
      \<and> (r \<noteq> None \<longrightarrow> 0 < any_remaining d' t \<and> any_remaining d' t < any_remaining d t)"
    by (intro exI[of _ r] exI[of _ "TpchData x'"]) (simp add: d(1) any_next_def any_okd_def any_remaining_def)
qed

subsection \<open>What the command publishes\<close>

lemma generate_execute_Inr:
  assumes "generate_execute V A S args t u = Some (Inr (), t', u')"
  obtains m work_dir d ir st where "generate_mutations args = Some m" "gv_work_dir V = Inr work_dir"
    "dataset_create (generate_dataset_config args) m (gv_rng V) = Inr d" "generate_run V A args m work_dir d t = Some (Inr ir, st)"
    "mt_write_errors (ir_metrics ir) = 0" "generate_publish V A S args work_dir (fs_objects (gn_target st)) u = (Inr (), t', u')"
  using assms by (auto simp: generate_execute_def split: option.splits sum.splits prod.splits if_splits)

lemma generate_publish_Inr:
  assumes "generate_publish V A S args work_dir t u = (Inr (), t', u')" "ga_output_archive args = None"
  obtains dir bucket where "gv_archive_dir V = Inr dir" "create_archive A t work_dir (dir @ ''/'' @ ARCHIVE_FILENAME) = (Inr (), t')"
    "ga_bucket args = Some bucket"
    "upload_archive A S (gv_transfer V) t' u (ut_prefix (generate_target V args bucket)) (dir @ ''/'' @ ARCHIVE_FILENAME) = (Inr (), u')"
  using assms
  by (auto simp: generate_publish_def generate_archive_path_def Let_def result_simps
      split: option.splits sum.splits prod.splits if_splits)

lemma generated_tpch_served:
  assumes E: "tpch_env_ok E" "kernels_ok K" "mutations_ok m" "dc_num_steps c \<le> 65534"
      "\<forall>t \<in> set (map fst TPCH_TABLES). tp_num_batches (tp_new c m) t \<le> 65534" "gen_fresh E (tp_new c m)"
      "parts_small E (tp_new c m)"
    and Ob: "objects_ok Ob" "parquet_ok Ob" "json_ok Ob"
    and joins: "set joins = set (map fst TPCH_TABLES)" and js: "\<And>j. js_join_error js j = None" and len: "length sched < 2 ^ 64"
    and g: "ge_dataset g = TpchData (tp_new c m, r)" "ge_target g = fs_new base objects" "ge_metrics g = mt_new"
    and run: "generator_run ns je sh tables pk (any_next she E K) (fs_wr Ob) (fs_write_version_metadata Ob) (map fst TPCH_TABLES)
        sched joins el g = Some (Inr ir, st)"
    and we: "mt_write_errors (ir_metrics ir) = 0" and rd: "fs_reads Ob (gn_target st) ds mdr"
  shows "\<exists>d'. gn_dataset st = TpchData d' \<and> tpch_served she E K (tp_new c m, r) d' ds mdr js True"
proof -
  let ?T = "map fst TPCH_TABLES" and ?d = "TpchData (tp_new c m, r)"
  have okd: "any_okd E K ?d" and rem: "\<forall>t \<in> set ?T. any_remaining ?d t = tp_num_batches (tp_new c m) t + 1"
    using tpch_new_okd[OF E(1-5,7), of r] by (simp_all add: any_okd_def any_remaining_def)
  have inv: "fs_inv Ob base (ge_target g)" and m0: "mt_write_errors (ge_metrics g) = 0"
    using Ob by (simp_all add: fs_inv_def fs_new_def g mt_new_def)
  have pos: "\<forall>t \<in> set ?T. 0 < any_remaining ?d t" using rem by (simp del: set_map)
  from fsv.generator_run_reads_back[OF inv m0 tpch_names_ok joins run rd js]
  obtain calls outs where nb: "nb_run (any_next she E K) calls ?d = Some (outs, gn_dataset st)" "set calls \<subseteq> set ?T"
    and tab: "\<forall>t \<in> set ?T. table_ended (any_next she E K) ?d calls t \<and> count_list calls t = length (drawn t outs) + 1 \<and> gn_tasks st t = Some (length (drawn t outs), GenDone)
      \<and> (\<exists>ids. read_batch_ids mdr t = Inr ids \<and> serves ds js t ids (drawn t outs)
           \<and> (mt_write_errors (ir_metrics ir) = 0 \<longrightarrow> length sched < 2 ^ 64 \<longrightarrow> ids = [0..<length (drawn t outs)]))"
    unfolding g(1) by blast
  obtain y where y: "nb_run (tpch_next she E K) calls (tp_new c m, r) = Some (outs, y)" and st: "gn_dataset st = TpchData y" using any_next_tpch[OF nb(1)] by blast
  have "count_list calls t \<le> 65535" if t: "t \<in> set ?T" for t
  proof -
    have "gn_tasks (gen_tasks ns (any_next she E K) (fs_wr Ob) sched (gen_start ?T ?d (ge_target g) (ge_metrics g))) t
        = Some (length (drawn t outs), GenDone)"
      using generator_run_Inr[OF run] tab t g(1) by (metis (no_types, lifting) gen_state.select_convs(1) gen_state.surjective gen_state.update_convs(3))
    from tpch_fs.generator_bounded[OF okd inv pos this]
    have "count_list calls t \<le> any_remaining ?d t" using bspec[OF tab t] by simp
    then show ?thesis using bspec[OF rem t] bspec[OF E(5) t] by linarith
  qed
  then have "tpch_served she E K (tp_new c m, r) y ds mdr js True"
    using tab len we any_next_tpch_ended by (intro tpch_served_run[OF E(1-4,6,7) y nb(2)]) blast+
  with st show ?thesis by blast
qed

text \<open>
  C11. A TPC-H dataset that the \<^verbatim>\<open>generate\<close> command reports as uploaded is complete wherever it is
  downloaded: the command's generator ran to the end with no failed write, having drawn every table
  until the dataset answered with its end; extracting the archive into any directory leaves a
  file storage that lists for every table the ids of all \<open>n\<close> batches drawn, \<open>0, 1, ..., n - 1\<close>; the
  ETL reads each of them with its rows; and the batches replay as changes on a keyed table whose
  keys at the end are those the dataset considers live. This holds for every schedule of the table
  tasks, every size of the chunks the transfer uses, and every order in which parts are read,
  provided no part of the run has more than \<open>2 ^ 24\<close> rows and no key is generated twice.
\<close>

theorem uploaded_dataset_is_complete:
  assumes V: "tpch_env_ok (gv_tpch V)" "kernels_ok (gv_kernels V)" "length (gv_sched V) < 2 ^ 64"
      "set (gv_joins V) = set (map fst TPCH_TABLES)"
    and args: "ga_dataset args = ''tpch''" "ga_output_archive args = None" "ga_num_steps args \<le> 65534"
      "generate_mutations args = Some m" "mutations_ok m" "c = generate_dataset_config args"
      "\<forall>t \<in> set (map fst TPCH_TABLES). tp_num_batches (tp_new c m) t \<le> 65534" "gen_fresh (gv_tpch V) (tp_new c m)"
      "parts_small (gv_tpch V) (tp_new c m)"
    and A: "archive_ok A" "parquet_ok (av_files A)" "json_ok (av_files A)" "objects_ok S" "stream_ok tr"
    and dirs: "gv_work_dir V = Inr work_dir" "gv_archive_dir V = Inr archive_dir"
      "\<And>p. archive_dir @ ''/'' @ ARCHIVE_FILENAME \<noteq> work_dir @ ''/'' @ p"
    and run: "generate_execute V A S args t u = Some (Inr (), t', u')" and bucket: "ga_bucket args = Some bucket"
    and dl: "etl_download A S tr t2 u' (ut_prefix (generate_target V args bucket)) dst = (Inr (), t3)"
    and js: "\<And>j. js_join_error js j = None"
  shows "\<exists>ir st d'. generate_run V A args m work_dir (TpchData (tp_new c m, gv_rng V)) t = Some (Inr ir, st)
     \<and> mt_write_errors (ir_metrics ir) = 0 \<and> gn_dataset st = TpchData d'
     \<and> tpch_served (gv_show_error V) (gv_tpch V) (gv_kernels V) (tp_new c m, gv_rng V) d' (fs_data_storage (av_files A) (fs_new dst t3))
         (fst (fs_read_version_metadata (av_files A) (fs_new dst t3))) js True"
proof -
  let ?F = "av_files A"
  obtain ir st where d: "dataset_create c m (gv_rng V) = Inr (TpchData (tp_new c m, gv_rng V))"
    and gr: "generate_run V A args m work_dir (TpchData (tp_new c m, gv_rng V)) t = Some (Inr ir, st)"
    and we: "mt_write_errors (ir_metrics ir) = 0"
    and pub: "generate_publish V A S args work_dir (fs_objects (gn_target st)) u = (Inr (), t', u')"
    by (rule generate_execute_Inr[OF run]) (use args dirs in \<open>auto simp: dataset_create_def generate_dataset_config_def\<close>)
  let ?path = "archive_dir @ ''/'' @ ARCHIVE_FILENAME" and ?prefix = "ut_prefix (generate_target V args bucket)"
  have arch: "create_archive A (fs_objects (gn_target st)) work_dir ?path = (Inr (), t')"
    and up: "upload_archive A S (gv_transfer V) t' u ?prefix ?path = (Inr (), u')"
    by (rule generate_publish_Inr[OF pub args(2)], use dirs bucket in simp)+
  have "copied ?F (fs_objects (gn_target st)) work_dir t3 dst"
    by (rule shipped_directory[OF A(1,4,5) arch dirs(3) up dl])
  moreover have "fs_base_dir (gn_target st) = work_dir"
    by (rule fs_run_base_dir[OF gr[unfolded generate_run_def]]) (simp add: generate_generator_def fs_new_def)
  ultimately have rd: "fs_reads ?F (gn_target st) (fs_data_storage ?F (fs_new dst t3)) (fst (fs_read_version_metadata ?F (fs_new dst t3)))"
    by (auto simp: fs_reads_def)
  have ok: "objects_ok ?F" using A(1) by (simp add: archive_ok_def)
  have c: "dc_num_steps c \<le> 65534" using args(3,6) by (simp add: generate_dataset_config_def)
  have run': "generator_run (gv_null_str V) (gv_join_error V) (gv_show_f64 V) (tp_tables (gv_tpch V)) tp_primary_key
      (any_next (gv_show_error V) (gv_tpch V) (gv_kernels V)) (fs_wr ?F) (fs_write_version_metadata ?F) (map fst TPCH_TABLES)
      (gv_sched V) (gv_joins V) (gv_elapsed_ns V) (generate_generator args m work_dir (TpchData (tp_new c m, gv_rng V)) t) = Some (Inr ir, st)"
    using gr by (simp add: generate_run_def any_tables_def any_primary_key_def any_table_names_def)
  have "\<exists>d'. gn_dataset st = TpchData d' \<and> tpch_served (gv_show_error V) (gv_tpch V) (gv_kernels V) (tp_new c m, gv_rng V) d'
      (fs_data_storage ?F (fs_new dst t3)) (fst (fs_read_version_metadata ?F (fs_new dst t3))) js True"
    by (rule generated_tpch_served[OF V(1,2) args(5) c args(7-9) ok A(2,3) V(4) js V(3) _ _ _ run' we rd])
      (simp_all add: generate_generator_def)
  then show ?thesis using gr we by blast
qed

subsection \<open>A concrete world\<close>

text \<open>A byte of this world is a whole batch, a whole metadata document or a whole directory.\<close>

datatype demo_byte = BBatch record_batch | BMeta VersionMetadata | BDir "string \<Rightarrow> demo_byte list option"

definition demo_files :: "(string \<rightharpoonup> demo_byte list, demo_byte list) object_env" where
  "demo_files = \<lparr>oe_put = (\<lambda>t p b. (Inr (), t(p \<mapsto> b))), oe_get = (\<lambda>t p. Inr (t p)), oe_create_dir_all = (\<lambda>t p. (Inr (), t)),
     oe_len = length, oe_encode = (\<lambda>b. Inr [BBatch b]),
     oe_decode = (\<lambda>x. case x of [BBatch b] \<Rightarrow> Inr [b] | _ \<Rightarrow> Inl ''not a Parquet file''),
     oe_meta_encode = (\<lambda>md. Inr [BMeta md]), oe_meta_decode = (\<lambda>x. case x of [BMeta md] \<Rightarrow> Inr md | _ \<Rightarrow> Inl ''not JSON'')\<rparr>"

definition demo_archive :: "(string \<rightharpoonup> demo_byte list, demo_byte) archive_env" where
  "demo_archive = \<lparr>av_files = demo_files, av_pack = (\<lambda>t src. Inr [BDir (\<lambda>p. t (src @ ''/'' @ p))]),
     av_unpack = (\<lambda>t x dst. case x of
        [BDir f] \<Rightarrow> (Inr (), \<lambda>q. if take (length dst + 1) q = dst @ ''/'' \<and> f (drop (length dst + 1) q) \<noteq> None
                              then f (drop (length dst + 1) q) else t q)
      | _ \<Rightarrow> (Inl ''not an archive'', t)),
     av_remove_file = (\<lambda>t p. (Inr (), t(p := None))), av_parent = (\<lambda>_. None)\<rparr>"

definition demo_transfer :: "demo_byte transfer" where
  "demo_transfer = \<lparr>tr_read = (\<lambda>_. Inr 1), tr_capacity = (\<lambda>_. None), tr_put_multipart = Inr (), tr_stream = map (\<lambda>x. Inr [x])\<rparr>"

lemma demo_files_ok: "objects_ok demo_files" "parquet_ok demo_files" "json_ok demo_files"
  by (auto simp: objects_ok_def parquet_ok_def json_ok_def keeps_batch_def demo_files_def)

lemma demo_archive_ok: "archive_ok demo_archive"
  using demo_files_ok(1) by (simp add: archive_ok_def demo_archive_def copied_def) (simp add: demo_files_def)

lemma demo_stream_ok: "stream_ok demo_transfer"
proof -
  have "concat bss = bytes" if "map (\<lambda>x. Inr [x]) bytes = (map Inr bss :: demo_byte list result list)" for bytes bss
    using that by (induction bytes arbitrary: bss) (auto simp: Cons_eq_map_conv)
  then show ?thesis by (simp add: stream_ok_def demo_transfer_def)
qed

definition demo_generate_env :: "(nat, demo_byte) generate_env" where
  "demo_generate_env = \<lparr>gv_tpch = demo_tpch, gv_kernels = list_kernels, gv_rng = 0, gv_show_error = (\<lambda>_. []), gv_null_str = [],
     gv_join_error = (\<lambda>_. []), gv_show_f64 = (\<lambda>_. ''1''), gv_sched = turns 8 (map fst TPCH_TABLES), gv_joins = map fst TPCH_TABLES,
     gv_elapsed_ns = 1000, gv_work_dir = Inr ''/w'', gv_archive_dir = Inr ''/a'', gv_s3_new = (\<lambda>_. Inr ()), gv_transfer = demo_transfer\<rparr>"

definition demo_args :: GenerateArgs where
  "demo_args = \<lparr>ga_dataset = ''tpch'', ga_scale_factor = 1, ga_num_steps = 2, ga_scenario = ''tpch'', ga_output_archive = None,
     ga_bucket = Some ''bench'', ga_prefix = [], ga_region = None, ga_endpoint = None, ga_update_ratio = 1 / 2, ga_delete_ratio = 1 / 4,
     ga_bootstrap = True, ga_bootstrap_mutation_steps = 1, ga_bootstrap_churn_fraction = 1\<rparr>"

text \<open>When no write fails, no write error is counted.\<close>

lemma no_write_errors:
  assumes "\<And>s t i b. \<exists>w s'. wr s t i b = Some (Inr w, s')"
  shows "mt_write_errors (gn_metrics (gen_tasks ns nb wr sched st)) = mt_write_errors (gn_metrics st)"
proof -
  have "mt_write_errors (gn_metrics (gen_step ns nb wr ev q)) = mt_write_errors (gn_metrics q)" for ev q
  proof -
    obtain t lat where ev: "ev = (t, lat)" by force
    have "mt_write_errors (gn_metrics (gen_draw ns nb t i q)) = mt_write_errors (gn_metrics q)" for i
      by (simp add: gen_draw_def split: option.splits sum.splits)
    moreover have "mt_write_errors (gn_metrics (gen_write wr lat t i b q)) = mt_write_errors (gn_metrics q)" for i b
      using assms[of "gn_target q" t i b] by (auto simp: gen_write_def)
    ultimately show ?thesis by (auto simp: gen_step_def ev split: option.splits gen_phase.splits)
  qed
  then show ?thesis unfolding gen_tasks_def by (induction sched arbitrary: st) auto
qed

lemma demo_fs_wr: "\<exists>w s'. fs_wr demo_files s t i b = Some (Inr w, s')"
  by (simp add: fs_wr_def fs_write_def demo_files_def Let_def)

lemma demo_generate_mutations: "generate_mutations demo_args = Some demo_tpch_mutations"
proof -
  have "f64_round (3 / 4) = 3 / 4" by (rule f64_round_examples(2))
  then show ?thesis
    by (simp add: generate_mutations_def demo_args_def MutationConfig_new_def with_bootstrap_def demo_tpch_mutations_def f64_add_def)
qed

lemma demo_dataset_config: "generate_dataset_config demo_args = demo_tpch_config"
  by (simp add: generate_dataset_config_def demo_args_def demo_tpch_config_def)

lemma demo_num_batches: "tp_num_batches (tp_new demo_tpch_config demo_tpch_mutations) t \<le> 3"
  by (simp add: tp_num_batches_def tp_new_def demo_tpch_config_def demo_tpch_mutations_def)

lemma demo_turns_fair:
  assumes "t \<in> set (map fst TPCH_TABLES)"
  shows "2 * (tp_num_batches (tp_new demo_tpch_config demo_tpch_mutations) t + 1) \<le> count_list (map fst (turns 8 (map fst TPCH_TABLES))) t"
proof -
  have "count_list (map fst TPCH_TABLES) t = 1" using assms by (auto simp: TPCH_TABLES_def)
  then show ?thesis using demo_num_batches[of t] unfolding count_turns by simp
qed

lemma demo_generate_runs:
  "\<exists>ir st. generate_run demo_generate_env demo_archive demo_args demo_tpch_mutations ''/w''
      (TpchData (tp_new demo_tpch_config demo_tpch_mutations, 0)) Map.empty = Some (Inr ir, st) \<and> mt_write_errors (ir_metrics ir) = 0"
proof -
  let ?s = "tp_new demo_tpch_config demo_tpch_mutations" and ?T = "map fst TPCH_TABLES"
  let ?d = "TpchData (?s, 0::nat)"
  let ?g = "generate_generator demo_args demo_tpch_mutations ''/w'' ?d (Map.empty :: string \<rightharpoonup> demo_byte list)"
  let ?nb = "any_next (\<lambda>_. []) demo_tpch list_kernels"
  have le: "\<forall>t \<in> set ?T. tp_num_batches ?s t \<le> 65534" by (intro ballI order_trans[OF demo_num_batches]) simp
  have okd: "any_okd demo_tpch list_kernels ?d" and rem: "\<forall>t \<in> set ?T. any_remaining ?d t = tp_num_batches ?s t + 1"
    using tpch_new_okd[OF demo_tpch_ok list_kernels_ok demo_mutations_ok _ le demo_parts_small, of "0::nat"]
    by (simp_all add: any_okd_def any_remaining_def demo_tpch_config_def)
  have inv: "fs_inv demo_files ''/w'' (ge_target ?g)"
    using demo_files_ok by (simp add: fs_inv_def generate_generator_def fs_new_def)
  have pos: "\<forall>t \<in> set ?T. 0 < any_remaining ?d t" using rem by (simp del: set_map)
  have fair: "\<forall>t \<in> set ?T. 2 * any_remaining ?d t \<le> count_list (map fst (turns 8 ?T)) t"
    using rem demo_turns_fair by (simp del: set_map)
  let ?st = "gen_tasks [] ?nb (fs_wr demo_files) (turns 8 ?T) (gen_start ?T ?d (ge_target ?g) (ge_metrics ?g))"
  have done_all: "\<forall>t \<in> set ?T. \<exists>i. gn_tasks ?st t = Some (i, GenDone)"
    using tpch_fs.generator_finishes[OF okd inv pos fair] by blast
  have errs: "mt_write_errors (gn_metrics ?st) = 0"
    unfolding no_write_errors[OF demo_fs_wr] by (simp add: gen_start_def generate_generator_def mt_new_def)
  have join: "gen_join (\<lambda>_. []) (gn_tasks ?st) ?T = Some (Inr ())" using done_all by (simp add: gen_join_ok)
  have md: "\<exists>s'. fs_write_version_metadata demo_files s x = (Inr (), s')" for s x
    by (simp add: fs_write_version_metadata_def demo_files_def)
  have ds: "ge_dataset ?g = ?d" by (simp add: generate_generator_def)
  show ?thesis
    using join errs md[of "gn_target ?st" "gen_version_metadata (\<lambda>_. ''1'') (ge_version_config ?g) (tp_tables demo_tpch) tp_primary_key (gn_written ?st)"]
    unfolding generate_run_def generator_run_def
    by (auto simp: demo_generate_env_def demo_archive_def any_tables_def any_primary_key_def any_table_names_def ds Let_def mt_summary_def
        simp del: set_map)
qed

lemma demo_generate_executes:
  "\<exists>t' u' t3. generate_execute demo_generate_env demo_archive demo_files demo_args Map.empty Map.empty = Some (Inr (), t', u')
     \<and> etl_download demo_archive demo_files demo_transfer Map.empty u' (ut_prefix (generate_target demo_generate_env demo_args ''bench'')) ''/d''
        = (Inr (), t3)"
proof -
  obtain ir st where run: "generate_run demo_generate_env demo_archive demo_args demo_tpch_mutations ''/w''
      (TpchData (tp_new demo_tpch_config demo_tpch_mutations, 0)) Map.empty = Some (Inr ir, st)" "mt_write_errors (ir_metrics ir) = 0"
    using demo_generate_runs by blast
  have create: "dataset_create demo_tpch_config demo_tpch_mutations (0::nat) = Inr (TpchData (tp_new demo_tpch_config demo_tpch_mutations, 0))"
    by (simp add: dataset_create_def demo_tpch_config_def)
  have loop: "upload_loop demo_transfer 0 bytes [] = Inr bytes" for bytes
    using upload_loop_returns[of demo_transfer 0 bytes "[]"] by (simp add: demo_transfer_def)
  have arch: "create_archive demo_archive t src p = (Inr (), t(p \<mapsto> [BDir (\<lambda>q. (t(p \<mapsto> [])) (src @ ''/'' @ q))]))" for t src p
    by (simp add: create_archive_def create_parent_def demo_archive_def demo_files_def)
  have upl: "upload_archive demo_archive demo_files demo_transfer t u prefix p = (Inr (), u(archive_object_path prefix \<mapsto> bytes))"
    if "t p = Some bytes" for t u prefix p bytes
    using that loop by (simp add: upload_archive_def demo_archive_def demo_files_def) (simp add: demo_transfer_def)
  have sel: "gv_archive_dir demo_generate_env = Inr ''/a''" "gv_s3_new demo_generate_env x = Inr ()" "gv_transfer demo_generate_env = demo_transfer"
      "ga_output_archive demo_args = None" "ga_bucket demo_args = Some ''bench''" for x
    by (simp_all add: demo_generate_env_def demo_args_def)
  let ?target = "archive_object_path (ut_prefix (generate_target demo_generate_env demo_args ''bench''))"
  obtain f t' where pub: "generate_publish demo_generate_env demo_archive demo_files demo_args ''/w'' (fs_objects (gn_target st)) Map.empty
      = (Inr (), t', [?target \<mapsto> [BDir f]])"
    using that by (simp add: generate_publish_def generate_archive_path_def arch upl sel result_simps Let_def)
  have "generate_execute demo_generate_env demo_archive demo_files demo_args Map.empty Map.empty = Some (Inr (), t', [?target \<mapsto> [BDir f]])"
    using run create pub demo_generate_mutations demo_dataset_config
    by (simp add: generate_execute_def) (simp add: demo_generate_env_def)
  moreover have "\<exists>t3. etl_download demo_archive demo_files demo_transfer Map.empty [?target \<mapsto> [BDir f]]
      (ut_prefix (generate_target demo_generate_env demo_args ''bench'')) ''/d'' = (Inr (), t3)"
    by (simp add: etl_download_def download_archive_def extract_archive_def create_parent_def demo_archive_def demo_files_def
        demo_transfer_def Let_def)
  ultimately show ?thesis by blast
qed

theorem uploaded_dataset_is_complete_witness:
  "\<exists>t' u' t3. generate_execute demo_generate_env demo_archive demo_files demo_args Map.empty Map.empty = Some (Inr (), t', u')
     \<and> etl_download demo_archive demo_files demo_transfer Map.empty u' (ut_prefix (generate_target demo_generate_env demo_args ''bench'')) ''/d''
        = (Inr (), t3)
     \<and> (\<exists>d'. tpch_served (\<lambda>_. []) demo_tpch list_kernels (tp_new demo_tpch_config demo_tpch_mutations, 0) d'
         (fs_data_storage demo_files (fs_new ''/d'' t3)) (fst (fs_read_version_metadata demo_files (fs_new ''/d'' t3))) last_first True)"
proof -
  obtain t' u' t3 where ex: "generate_execute demo_generate_env demo_archive demo_files demo_args Map.empty Map.empty = Some (Inr (), t', u')"
    and dl: "etl_download demo_archive demo_files demo_transfer Map.empty u'
      (ut_prefix (generate_target demo_generate_env demo_args ''bench'')) ''/d'' = (Inr (), t3)" using demo_generate_executes by blast
  have le: "\<forall>t \<in> set (map fst TPCH_TABLES). tp_num_batches (tp_new (generate_dataset_config demo_args) demo_tpch_mutations) t \<le> 65534"
    unfolding demo_dataset_config by (intro ballI order_trans[OF demo_num_batches]) simp
  have "\<exists>ir st d'. generate_run demo_generate_env demo_archive demo_args demo_tpch_mutations ''/w''
        (TpchData (tp_new (generate_dataset_config demo_args) demo_tpch_mutations, gv_rng demo_generate_env)) Map.empty = Some (Inr ir, st)
     \<and> mt_write_errors (ir_metrics ir) = 0 \<and> gn_dataset st = TpchData d'
     \<and> tpch_served (gv_show_error demo_generate_env) (gv_tpch demo_generate_env) (gv_kernels demo_generate_env)
         (tp_new (generate_dataset_config demo_args) demo_tpch_mutations, gv_rng demo_generate_env) d'
         (fs_data_storage (av_files demo_archive) (fs_new ''/d'' t3))
         (fst (fs_read_version_metadata (av_files demo_archive) (fs_new ''/d'' t3))) last_first True"
    by (rule uploaded_dataset_is_complete[OF _ _ _ _ _ _ _ demo_generate_mutations demo_mutations_ok refl le _ _ demo_archive_ok _ _
          demo_files_ok(1) demo_stream_ok _ _ _ ex _ dl, of "''/w''" "''/a''"])
      (simp_all add: demo_generate_env_def demo_args_def demo_archive_def demo_tpch_ok list_kernels_ok demo_files_ok demo_gen_fresh demo_parts_small
        length_turns last_first_def TPCH_TABLES_def)
  then show ?thesis using ex dl by (auto simp: demo_generate_env_def demo_archive_def demo_dataset_config)
qed

end
