(* ===== verification/Timing.thy ===== *)
theory Timing
  imports Prelude F64
begin

text \<open>
  \<^verbatim>\<open>crates/util/src/rate_limiter.rs\<close>, the pacing of sink writes, and the timing samples of
  \<^verbatim>\<open>crates/etl/src/lib.rs\<close>. Instants and durations are nanoseconds.
\<close>

subsection \<open>The rate limiter\<close>

text \<open>
  \<^verbatim>\<open>Duration::from_secs_f64\<close>: the nearest number of nanoseconds, ties to even; \<open>None\<close> is its
  panic on a value that is negative or has too many seconds.
\<close>

definition duration_from_secs_f64 :: "f64 \<Rightarrow> nat option" where
  "duration_from_secs_f64 x =
     (if x < 0 then None
      else let ns = nat (round_half_even (x * 10 ^ 9)) in if ns < 2 ^ 64 * 10 ^ 9 then Some ns else None)"

record rate_limiter =
  rl_units_per_sec :: f64
  rl_next_available :: nat

definition rl_new :: "nat \<Rightarrow> nat \<Rightarrow> rate_limiter" where
  "rl_new now units_per_sec = \<lparr>rl_units_per_sec = f64_of_nat units_per_sec, rl_next_available = now\<rparr>"

text \<open>Adding a cost to an \<^verbatim>\<open>Instant\<close> panics when its signed 64-bit seconds overflow.\<close>

definition instant_add :: "nat \<Rightarrow> nat \<Rightarrow> nat option" where
  "instant_add t d = (if t + d < 2 ^ 63 * 10 ^ 9 then Some (t + d) else None)"

definition rl_reserve :: "rate_limiter \<Rightarrow> nat \<Rightarrow> nat \<Rightarrow> (nat \<times> rate_limiter) option" where
  "rl_reserve rl now units =
     (if units = 0 \<or> rl_units_per_sec rl \<le> 0 then Some (0, rl)
      else case duration_from_secs_f64 (f64_div (f64_of_nat units) (rl_units_per_sec rl)) of
             None \<Rightarrow> None
           | Some cost \<Rightarrow>
               let start = max (rl_next_available rl) now
               in map_option (\<lambda>next. (start - now, rl\<lparr>rl_next_available := next\<rparr>)) (instant_add start cost))"

text \<open>\<^verbatim>\<open>acquire\<close>: the instant at which the caller goes on, with a sleep that is not late.\<close>

definition rl_acquire :: "rate_limiter \<Rightarrow> nat \<Rightarrow> nat \<Rightarrow> (nat \<times> rate_limiter) option" where
  "rl_acquire rl now units = map_option (\<lambda>(wait, rl'). (now + wait, rl')) (rl_reserve rl now units)"

text \<open>
  Calls by any number of tasks in the order they take the lock: the instants of the calls with
  their units, and the instants at which they go on.
\<close>

fun rl_acquires :: "rate_limiter \<Rightarrow> (nat \<times> nat) list \<Rightarrow> nat list option" where
  "rl_acquires rl [] = Some []"
| "rl_acquires rl ((now, units) # calls) =
     Option.bind (rl_acquire rl now units) (\<lambda>(go, rl'). map_option ((#) go) (rl_acquires rl' calls))"

text \<open>
  The share of the timeline a call takes at least: its units at the configured rate, up to the
  rounding of the quotient and of the nanoseconds.
\<close>

definition slot :: "f64 \<Rightarrow> nat \<Rightarrow> rat" where
  "slot rate units = (if units = 0 then 0 else of_nat units / rate * 10 ^ 9 * (1 - 1 / 2 ^ 53) - 1 / 2)"

lemma cost_lower:
  assumes "duration_from_secs_f64 (f64_div (f64_of_nat units) rate) = Some cost" "units < 2 ^ 53" "0 < rate"
  shows "slot rate units \<le> of_nat cost"
proof -
  define x where "x = f64_div (f64_of_nat units) rate"
  have x: "of_nat units / rate * (1 - 1 / 2 ^ 53) \<le> x"
    using f64_round_lower[of "of_nat units / rate"] assms(2,3) by (simp add: x_def f64_div_def f64_of_nat_exact)
  have c: "cost = nat (round_half_even (x * 10 ^ 9))"
    using assms(1) by (simp add: duration_from_secs_f64_def x_def Let_def split: if_splits)
  have "of_int (round_half_even (x * 10 ^ 9)) \<le> (of_nat cost :: rat)" unfolding c by simp
  moreover have "x * 10 ^ 9 - 1 / 2 \<le> of_int (round_half_even (x * 10 ^ 9))"
    using round_half_even_error[of "x * 10 ^ 9"] unfolding abs_le_iff by linarith
  moreover have "of_nat units / rate * 10 ^ 9 * (1 - 1 / 2 ^ 53) \<le> x * 10 ^ 9" using x by simp
  ultimately show ?thesis unfolding slot_def by (cases "units = 0") auto
qed

lemma cost_returns:
  assumes "units < 2 ^ 53" "1 \<le> rate"
  shows "\<exists>cost. duration_from_secs_f64 (f64_div (f64_of_nat units) rate) = Some cost \<and> cost \<le> 2 * units * 10 ^ 9 + 1"
proof -
  define q where "q = of_nat units / rate"
  have "(of_nat units :: rat) < of_nat (2 ^ 53)" using assms(1) by (simp only: of_nat_less_iff)
  then have u: "(of_nat units :: rat) < 2 ^ 53" by simp
  have "q \<le> of_nat units" unfolding q_def using assms(2) by (simp add: divide_le_eq mult_left_le_one_le le_divide_eq_1 mult_le_cancel_left1)
  then have q: "0 \<le> q" "q \<le> 2 ^ 53" "q \<le> of_nat units" using assms(2) u by (simp_all add: q_def)
  have x: "f64_div (f64_of_nat units) rate = f64_round q" using assms(1) by (simp add: f64_div_def f64_of_nat_exact q_def)
  have r: "0 \<le> f64_round q" "f64_round q \<le> 2 * of_nat units"
    using f64_round_nonneg[OF q(1)] f64_round_upper[OF q(1)] q by (simp_all add: field_simps)
  have "of_int (round_half_even (f64_round q * 10 ^ 9)) \<le> f64_round q * 10 ^ 9 + 1 / 2"
    using round_half_even_error[of "f64_round q * 10 ^ 9"] unfolding abs_le_iff by linarith
  also have "\<dots> \<le> of_int (2 * int units * 10 ^ 9 + 1)" using r by simp
  finally have c: "round_half_even (f64_round q * 10 ^ 9) \<le> 2 * int units * 10 ^ 9 + 1" by (simp only: of_int_le_iff)
  moreover have "2 * int units * 10 ^ 9 + 1 < 2 ^ 64 * 10 ^ 9" using assms(1) by simp
  ultimately show ?thesis using r by (auto simp: duration_from_secs_f64_def x Let_def not_less nat_less_iff)
qed

lemma rl_acquire_takes_slot:
  assumes acq: "rl_acquire rl now units = Some (go, rl')" and rate: "0 < rl_units_per_sec rl" and u: "units < 2 ^ 53"
  shows "rl_units_per_sec rl' = rl_units_per_sec rl" "now \<le> go" "units \<noteq> 0 \<Longrightarrow> rl_next_available rl \<le> go"
    "of_nat (rl_next_available rl) + slot (rl_units_per_sec rl) units \<le> of_nat (rl_next_available rl')"
    "units \<noteq> 0 \<Longrightarrow> of_nat go + slot (rl_units_per_sec rl) units \<le> of_nat (rl_next_available rl')"
proof -
  consider "units = 0" "rl' = rl" "go = now"
    | cost where "units \<noteq> 0" "duration_from_secs_f64 (f64_div (f64_of_nat units) (rl_units_per_sec rl)) = Some cost"
        "go = max (rl_next_available rl) now" "rl' = rl\<lparr>rl_next_available := max (rl_next_available rl) now + cost\<rparr>"
    using acq rate by (cases "units = 0") (auto simp: rl_acquire_def rl_reserve_def instant_add_def Let_def split: option.splits if_splits)
  then have "rl_units_per_sec rl' = rl_units_per_sec rl \<and> now \<le> go \<and> (units \<noteq> 0 \<longrightarrow> rl_next_available rl \<le> go)
      \<and> of_nat (rl_next_available rl) + slot (rl_units_per_sec rl) units \<le> of_nat (rl_next_available rl')
      \<and> (units \<noteq> 0 \<longrightarrow> of_nat go + slot (rl_units_per_sec rl) units \<le> of_nat (rl_next_available rl'))"
  proof cases
    case 1
    then show ?thesis by (simp add: slot_def)
  next
    case 2
    have "(of_nat (rl_next_available rl) :: rat) \<le> of_nat (max (rl_next_available rl) now)" by (simp only: of_nat_le_iff max.cobounded1)
    then show ?thesis using cost_lower[OF 2(2) u rate] 2 by auto
  qed
  then show "rl_units_per_sec rl' = rl_units_per_sec rl" "now \<le> go" "units \<noteq> 0 \<Longrightarrow> rl_next_available rl \<le> go"
    "of_nat (rl_next_available rl) + slot (rl_units_per_sec rl) units \<le> of_nat (rl_next_available rl')"
    "units \<noteq> 0 \<Longrightarrow> of_nat go + slot (rl_units_per_sec rl) units \<le> of_nat (rl_next_available rl')" by blast+
qed

lemma rl_acquire_returns:
  assumes "units < 2 ^ 53" "1 \<le> rl_units_per_sec rl" "now \<le> t" "rl_next_available rl \<le> t"
    "t + (2 * units * 10 ^ 9 + 1) < 2 ^ 63 * 10 ^ 9"
  shows "\<exists>go rl'. rl_acquire rl now units = Some (go, rl') \<and> rl_next_available rl' \<le> t + (2 * units * 10 ^ 9 + 1)"
  using cost_returns[OF assms(1,2)] assms(3-) by (auto simp: rl_acquire_def rl_reserve_def instant_add_def Let_def)

abbreviation slots :: "f64 \<Rightarrow> (nat \<times> nat) list \<Rightarrow> rat" where
  "slots rate calls \<equiv> sum_list (map (\<lambda>c. slot rate (snd c)) calls)"

lemma rl_acquires_after:
  assumes "rl_acquires rl calls = Some gos" "0 < rl_units_per_sec rl" "\<forall>c \<in> set calls. snd c < 2 ^ 53"
    "j < length calls" "snd (calls ! j) \<noteq> 0"
  shows "of_nat (rl_next_available rl) + slots (rl_units_per_sec rl) (take j calls) \<le> of_nat (gos ! j)"
  using assms
proof (induction calls arbitrary: rl gos j)
  case (Cons c calls)
  obtain now units where c: "c = (now, units)" by force
  from Cons.prems(1) obtain go rl' gos' where acq: "rl_acquire rl now units = Some (go, rl')"
    and rest: "rl_acquires rl' calls = Some gos'" and gos: "gos = go # gos'"
    by (auto simp: c split: Option.bind_splits)
  have u: "units < 2 ^ 53" using Cons.prems(3) by (simp add: c)
  note t = rl_acquire_takes_slot[OF acq Cons.prems(2) u]
  show ?case
  proof (cases j)
    case 0
    then show ?thesis using t(3) Cons.prems(5) by (simp add: c gos)
  next
    case (Suc i)
    have "of_nat (rl_next_available rl') + slots (rl_units_per_sec rl') (take i calls) \<le> of_nat (gos' ! i)"
      by (rule Cons.IH[OF rest]) (use Cons.prems Suc t(1) in auto)
    then show ?thesis using t(1,4) Suc by (simp add: c gos)
  qed
qed simp

lemma rl_acquires_spaced:
  assumes "rl_acquires rl calls = Some gos" "0 < rl_units_per_sec rl" "\<forall>c \<in> set calls. snd c < 2 ^ 53"
    "i < j" "j < length calls" "snd (calls ! i) \<noteq> 0" "snd (calls ! j) \<noteq> 0"
  shows "of_nat (gos ! i) + slots (rl_units_per_sec rl) (take (j - i) (drop i calls)) \<le> of_nat (gos ! j)"
  using assms
proof (induction calls arbitrary: rl gos i j)
  case (Cons c calls)
  obtain now units where c: "c = (now, units)" by force
  from Cons.prems(1) obtain go rl' gos' where acq: "rl_acquire rl now units = Some (go, rl')"
    and rest: "rl_acquires rl' calls = Some gos'" and gos: "gos = go # gos'"
    by (auto simp: c split: Option.bind_splits)
  have u: "units < 2 ^ 53" using Cons.prems(3) by (simp add: c)
  note t = rl_acquire_takes_slot[OF acq Cons.prems(2) u]
  obtain j' where j: "j = Suc j'" using Cons.prems(4) by (cases j) auto
  show ?case
  proof (cases i)
    case 0
    have "of_nat (rl_next_available rl') + slots (rl_units_per_sec rl') (take j' calls) \<le> of_nat (gos' ! j')"
      by (rule rl_acquires_after[OF rest]) (use Cons.prems j t(1) in auto)
    then show ?thesis using t(1,5) Cons.prems(6) 0 j by (simp add: c gos)
  next
    case (Suc i')
    have "of_nat (gos' ! i') + slots (rl_units_per_sec rl') (take (j' - i') (drop i' calls)) \<le> of_nat (gos' ! j')"
      by (rule Cons.IH[OF rest]) (use Cons.prems Suc j t(1) in auto)
    then show ?thesis using t(1) Suc j by (simp add: c gos)
  qed
qed simp

lemma rl_acquires_returns:
  assumes "\<forall>c \<in> set calls. fst c \<le> t \<and> snd c < 2 ^ 53" "1 \<le> rl_units_per_sec rl" "rl_next_available rl \<le> t"
    "t + sum_list (map (\<lambda>c. 2 * snd c * 10 ^ 9 + 1) calls) < 2 ^ 63 * 10 ^ 9"
  shows "\<exists>gos. rl_acquires rl calls = Some gos \<and> length gos = length calls"
  using assms
proof (induction calls arbitrary: rl t)
  case (Cons c calls)
  obtain now units where c: "c = (now, units)" by force
  then obtain go rl' where acq: "rl_acquire rl now units = Some (go, rl')"
    and next_: "rl_next_available rl' \<le> t + (2 * units * 10 ^ 9 + 1)"
    using rl_acquire_returns[of units rl now t] Cons.prems by auto
  have "rl_units_per_sec rl' = rl_units_per_sec rl"
    using rl_acquire_takes_slot(1)[OF acq] Cons.prems c by auto
  then have "\<exists>gos. rl_acquires rl' calls = Some gos \<and> length gos = length calls"
    using Cons.prems next_ by (intro Cons.IH[of "t + (2 * units * 10 ^ 9 + 1)"]) (auto simp: c)
  then show ?case using acq by (auto simp: c)
qed simp

lemma sum_list_costs:
  "sum_list (map (\<lambda>c. 2 * snd c * 10 ^ 9 + 1) calls) = 2 * 10 ^ 9 * sum_list (map snd calls) + length calls"
  for calls :: "(nat \<times> nat) list"
  by (induction calls) simp_all

text \<open>
  C29. Whoever calls and whenever, the limiter grants the calls, in the order of their
  reservations, at instants that keep the configured rate: between the grants of two calls
  lies at least the time the units reserved from the first up to the second take at that
  rate (up to half a nanosecond per call and the rounding of the quotient). An idle period
  earns no credit, and no call panics as long as the units of all calls together stay below
  \<open>2 ^ 53\<close> and the clock below \<open>2 ^ 62\<close> seconds.
\<close>

theorem rate_limiter_keeps_rate:
  assumes "0 < rate" and "rate < 2 ^ 53" and "now < 2 ^ 62 * 10 ^ 9"
    and "\<forall>c \<in> set calls. fst c < 2 ^ 62 * 10 ^ 9 \<and> 0 < snd c" and "sum_list (map snd calls) < 2 ^ 53"
  shows "\<exists>gos. rl_acquires (rl_new now rate) calls = Some gos \<and> length gos = length calls
     \<and> (\<forall>i j. i < j \<longrightarrow> j < length calls \<longrightarrow>
          of_nat (gos ! i) + sum_list (map (\<lambda>c. of_nat (snd c) / of_nat rate * 10 ^ 9 * (1 - 1 / 2 ^ 53) - 1 / 2)
             (take (j - i) (drop i calls))) \<le> (of_nat (gos ! j) :: rat))"
proof -
  have rate: "rl_units_per_sec (rl_new now rate) = of_nat rate" using assms(2) by (simp add: rl_new_def f64_of_nat_exact)
  have "1 \<le> rl_units_per_sec (rl_new now rate)" using assms(1) unfolding rate by simp
  moreover have small: "\<forall>c \<in> set calls. snd c < 2 ^ 53" using assms(5) member_le_sum_list[of _ "map snd calls"] by fastforce
  moreover have "length calls \<le> sum_list (map snd calls)" using assms(4) by (induction calls) fastforce+
  ultimately obtain gos where gos: "rl_acquires (rl_new now rate) calls = Some gos" "length gos = length calls"
    using rl_acquires_returns[of calls "2 ^ 62 * 10 ^ 9" "rl_new now rate"] assms(3-5) unfolding sum_list_costs
    by (fastforce simp: rl_new_def)
  have "of_nat (gos ! i) + sum_list (map (\<lambda>c. of_nat (snd c) / of_nat rate * 10 ^ 9 * (1 - 1 / 2 ^ 53) - 1 / 2)
             (take (j - i) (drop i calls))) \<le> (of_nat (gos ! j) :: rat)" if h: "i < j" "j < length calls" for i j
  proof -
    have "snd (calls ! k) \<noteq> 0" if "k < length calls" for k using assms(4) that by (metis less_irrefl nth_mem)
    then have "of_nat (gos ! i) + slots (of_nat rate) (take (j - i) (drop i calls)) \<le> (of_nat (gos ! j) :: rat)"
      using rl_acquires_spaced[OF gos(1), of i j] assms small h unfolding rate by auto
    moreover have "slots (of_nat rate) (take (j - i) (drop i calls))
        = sum_list (map (\<lambda>c. of_nat (snd c) / of_nat rate * 10 ^ 9 * (1 - 1 / 2 ^ 53) - 1 / 2) (take (j - i) (drop i calls)))"
      using assms(4) by (intro arg_cong[where f = sum_list] map_cong) (auto simp: slot_def dest!: in_set_takeD in_set_dropD)
    ultimately show ?thesis by simp
  qed
  then show ?thesis using gos by blast
qed

theorem rate_limiter_keeps_rate_witness:
  "\<exists>gos. rl_acquires (rl_new 7 10000) [(9, 5000), (9, 5000), (10, 20000)] = Some gos \<and> length gos = 3
     \<and> of_nat (gos ! 0) + (10 ^ 9 * (1 - 1 / 2 ^ 53) - 1) \<le> (of_nat (gos ! 2) :: rat)"
proof -
  obtain gos where gos: "rl_acquires (rl_new 7 10000) [(9, 5000), (9, 5000), (10, 20000)] = Some gos" "length gos = 3"
    and spaced: "\<forall>i j. i < j \<longrightarrow> j < 3 \<longrightarrow>
          of_nat (gos ! i) + sum_list (map (\<lambda>c. of_nat (snd c) / of_nat 10000 * 10 ^ 9 * (1 - 1 / 2 ^ 53) - 1 / 2)
             (take (j - i) (drop i [(9::nat, 5000::nat), (9, 5000), (10, 20000)]))) \<le> (of_nat (gos ! j) :: rat)"
    using rate_limiter_keeps_rate[of 10000 7 "[(9, 5000), (9, 5000), (10, 20000)]"] by auto
  from spaced[rule_format, of 0 2] show ?thesis using gos by (intro exI[of _ gos]) (simp add: numeral_2_eq_2)
qed

subsection \<open>Timing samples\<close>

definition record_timing_sample_ms :: "nat \<Rightarrow> nat list \<Rightarrow> nat list" where
  "record_timing_sample_ms elapsed samples =
     (let elapsed_ms = min (elapsed div 10 ^ 6) (2 ^ 64 - 1) in samples @ [elapsed_ms])"

definition take_median_sample_ms :: "nat list \<Rightarrow> (f64 \<times> nat) option \<times> nat list" where
  "take_median_sample_ms samples =
     (if samples = [] then (None, samples)
      else let values = sort samples; n = length values; mid = n div 2;
               median_ms = (if n mod 2 = 1 then f64_of_nat (values ! mid)
                            else f64_div (f64_add (f64_of_nat (values ! (mid - 1))) (f64_of_nat (values ! mid))) 2)
           in (Some (median_ms, n), []))"

lemma f64_mean_exact:
  assumes "a < 2 ^ 52" "b < 2 ^ 52"
  shows "f64_div (f64_add (f64_of_nat a) (f64_of_nat b)) 2 = of_nat (a + b) / 2"
proof -
  have "f64_of_nat a = of_nat a" "f64_of_nat b = of_nat b" using assms by (simp_all add: f64_of_nat_exact)
  moreover have "f64_round (of_nat (a + b)) = of_nat (a + b)"
    using f64_of_nat_exact[of "a + b"] assms by (simp add: f64_of_nat_def)
  moreover have "f64_round (of_nat (a + b) / 2) = of_nat (a + b) / 2"
    using f64_round_dyadic[of "int (a + b)" 1] assms by simp
  ultimately show ?thesis by (simp add: f64_div_def f64_add_def)
qed

lemma filter_count_prefix:
  assumes "\<And>i. i < k \<Longrightarrow> P (xs ! i)" "k \<le> length xs"
  shows "k \<le> length (filter P xs)"
proof -
  have "filter P (take k xs) = take k xs" using assms by (auto simp: filter_id_conv in_set_conv_nth)
  then have "length (filter P (take k xs) @ filter P (drop k xs)) = k + length (filter P (drop k xs))" using assms(2) by simp
  then show ?thesis unfolding filter_append[symmetric] by simp
qed

lemma filter_count_suffix:
  assumes "\<And>i. length xs - k \<le> i \<Longrightarrow> i < length xs \<Longrightarrow> P (xs ! i)" "k \<le> length xs"
  shows "k \<le> length (filter P xs)"
proof -
  have "k \<le> length (filter P (rev xs))"
    by (rule filter_count_prefix) (use assms in \<open>auto simp: rev_nth\<close>)
  then show ?thesis by (simp add: rev_filter[symmetric])
qed

lemma length_filter_sort: "length (filter P (sort xs)) = length (filter P xs)" for xs :: "nat list"
  by (metis filter_sort length_sort)

text \<open>
  Taking the timing samples empties the buffer and returns their number and their median:
  at least half of the samples lie on each side of it, and no rounding disturbs it.
\<close>

theorem median_sample_splits:
  assumes "samples \<noteq> []" and "\<forall>x \<in> set samples. x < 2 ^ 52"
  shows "\<exists>median. take_median_sample_ms samples = (Some (median, length samples), [])
     \<and> length samples \<le> 2 * length (filter (\<lambda>x. of_nat x \<le> median) samples)
     \<and> length samples \<le> 2 * length (filter (\<lambda>x. median \<le> of_nat x) samples)"
proof -
  define vs where "vs = sort samples"
  define n where "n = length vs"
  have n: "n = length samples" "0 < n" using assms(1) by (simp_all add: vs_def n_def)
  have small: "vs ! i < 2 ^ 52" if "i < n" for i
    using assms(2) that nth_mem[of i vs] by (simp add: vs_def n_def)
  have mono: "vs ! i \<le> vs ! j" if "i \<le> j" "j < n" for i j using that by (simp add: vs_def n_def sorted_nth_mono)
  obtain lo hi where q: "lo < n" "hi < n" "lo \<le> hi" "n \<le> 2 * (lo + 1)" "n \<le> 2 * (n - hi)"
    and med: "take_median_sample_ms samples = (Some (of_nat (vs ! lo + vs ! hi) / 2, n), [])"
  proof (cases "n mod 2 = 1")
    case True
    have "take_median_sample_ms samples = (Some (f64_of_nat (vs ! (n div 2)), n), [])"
      using True assms(1) by (simp add: take_median_sample_ms_def Let_def vs_def n_def)
    moreover have "f64_of_nat (vs ! (n div 2)) = of_nat (vs ! (n div 2) + vs ! (n div 2)) / 2"
      using small[of "n div 2"] n(2) by (simp add: f64_of_nat_exact)
    ultimately show ?thesis using True n(2) by (intro that[of "n div 2" "n div 2"]) presburger+
  next
    case False
    have "take_median_sample_ms samples = (Some (f64_div (f64_add (f64_of_nat (vs ! (n div 2 - 1))) (f64_of_nat (vs ! (n div 2)))) 2, n), [])"
      using False assms(1) by (simp add: take_median_sample_ms_def Let_def vs_def n_def)
    then show ?thesis using False n(2) f64_mean_exact[OF small small, of "n div 2 - 1" "n div 2"]
      by (intro that[of "n div 2 - 1" "n div 2"]) (simp_all, presburger+)
  qed
  let ?m = "of_nat (vs ! lo + vs ! hi) / 2 :: rat"
  have lo_hi: "vs ! lo \<le> vs ! hi" using mono q by simp
  have "(of_nat (vs ! i) :: rat) \<le> ?m" if "i < lo + 1" for i
  proof -
    have "2 * vs ! i \<le> vs ! lo + vs ! hi" using mono[of i lo] that q lo_hi by simp
    then have "(of_nat (2 * vs ! i) :: rat) \<le> of_nat (vs ! lo + vs ! hi)" by (simp only: of_nat_le_iff)
    then show ?thesis by simp
  qed
  then have "lo + 1 \<le> length (filter (\<lambda>x. of_nat x \<le> ?m) vs)" using q by (intro filter_count_prefix) (simp_all add: n_def)
  moreover have "?m \<le> (of_nat (vs ! i) :: rat)" if "n - (n - hi) \<le> i" "i < n" for i
  proof -
    have "vs ! lo + vs ! hi \<le> 2 * vs ! i" using mono[of hi i] that q lo_hi by simp
    then have "(of_nat (vs ! lo + vs ! hi) :: rat) \<le> of_nat (2 * vs ! i)" by (simp only: of_nat_le_iff)
    then show ?thesis by simp
  qed
  then have "n - hi \<le> length (filter (\<lambda>x. ?m \<le> of_nat x) vs)" by (intro filter_count_suffix) (simp_all add: n_def)
  ultimately show ?thesis using med q n unfolding vs_def length_filter_sort by (intro exI[of _ ?m]) (auto simp: vs_def)
qed

theorem median_sample_splits_witness:
  "\<exists>median. take_median_sample_ms [12, 3, 90, 7] = (Some (median, length [12::nat, 3, 90, 7]), [])
     \<and> length [12::nat, 3, 90, 7] \<le> 2 * length (filter (\<lambda>x. of_nat x \<le> median) [12, 3, 90, 7])
     \<and> length [12::nat, 3, 90, 7] \<le> 2 * length (filter (\<lambda>x. median \<le> of_nat x) [12, 3, 90, 7])"
  by (rule median_sample_splits) simp_all

end
