(* ===== verification/Util.thy ===== *)
theory Util
  imports Prelude Decimal
begin

text \<open>
  Helpers of \<^verbatim>\<open>crates/util/src/lib.rs\<close>: placing nulls in a column, printing numbers with separators,
  concatenating constant arrays. The signal handlers and the floating-point byte formatter of
  that file are left out.
\<close>

subsection \<open>Distributing nulls\<close>

text \<open>The loop over the positions \<open>i..n\<close>; \<open>data\<close> is the iterator.\<close>

fun distribute_loop :: "nat set \<Rightarrow> nat list \<Rightarrow> 'a list \<Rightarrow> 'a option list" where
  "distribute_loop null_set [] data = []"
| "distribute_loop null_set (i # is) data =
     (if i \<in> null_set then None # distribute_loop null_set is data
      else case data of
             [] \<Rightarrow> distribute_loop null_set is []
           | value # rest \<Rightarrow> Some value # distribute_loop null_set is rest)"

definition distribute_nulls :: "'a list \<Rightarrow> nat list \<Rightarrow> 'a option list" where
  "distribute_nulls data null_idxs = distribute_loop (set null_idxs) [0..<length data + length null_idxs] data"

lemma distribute_loop_fits:
  assumes "length (filter (\<lambda>i. i \<notin> N) is) = length data"
  shows "length (distribute_loop N is data) = length is
     \<and> map Option.is_none (distribute_loop N is data) = map (\<lambda>k. k \<in> N) is
     \<and> concat (map (\<lambda>x. case x of None \<Rightarrow> [] | Some v \<Rightarrow> [v]) (distribute_loop N is data)) = data"
  using assms
proof (induction N "is" data rule: distribute_loop.induct)
  case (2 N i "is" data)
  show ?case
  proof (cases "i \<in> N")
    case True
    then show ?thesis using 2 by (auto simp: nth_Cons split: nat.splits)
  next
    case False
    then obtain v rest where data: "data = v # rest" using 2(4) by (cases data) auto
    then show ?thesis using 2(3)[OF False data] 2(4) False by (auto simp: nth_Cons split: nat.splits)
  qed
qed simp

text \<open>
  When the null positions are distinct and inside the result, the column has a null exactly
  at these positions and the data, in order, everywhere else.
\<close>

theorem distribute_nulls_places:
  assumes "distinct null_idxs" and "\<forall>i \<in> set null_idxs. i < length data + length null_idxs"
  shows "length (distribute_nulls data null_idxs) = length data + length null_idxs
     \<and> map Option.is_none (distribute_nulls data null_idxs) = map (\<lambda>k. k \<in> set null_idxs) [0..<length data + length null_idxs]
     \<and> concat (map (\<lambda>x. case x of None \<Rightarrow> [] | Some v \<Rightarrow> [v]) (distribute_nulls data null_idxs)) = data"
proof -
  let ?n = "length data + length null_idxs"
  have "length (filter (\<lambda>i. i \<notin> set null_idxs) [0..<?n]) = card ({0..<?n} - set null_idxs)"
    by (subst distinct_card[symmetric]) (auto intro!: arg_cong[where f = card])
  also have "\<dots> = ?n - card (set null_idxs)" using assms(2) by (subst card_Diff_subset) auto
  also have "\<dots> = length data" using assms(1) by (simp add: distinct_card)
  finally show ?thesis
    using distribute_loop_fits[of "set null_idxs" "[0..<?n]" data] by (simp add: distribute_nulls_def)
qed

theorem distribute_nulls_places_witness:
  "length (distribute_nulls [1::nat, 2] [3, 0, 1]) = length [1::nat, 2] + length [3::nat, 0, 1]
     \<and> map Option.is_none (distribute_nulls [1::nat, 2] [3, 0, 1]) = map (\<lambda>k. k \<in> set [3, 0, 1]) [0..<length [1::nat, 2] + length [3::nat, 0, 1]]
     \<and> concat (map (\<lambda>x. case x of None \<Rightarrow> [] | Some v \<Rightarrow> [v]) (distribute_nulls [1::nat, 2] [3, 0, 1])) = [1, 2]"
  by (rule distribute_nulls_places) simp_all

subsection \<open>Printing and concatenating\<close>

text \<open>\<^verbatim>\<open>rchunks(3).rev()\<close>: groups of three from the right, the first possibly shorter.\<close>

function rgroups :: "string \<Rightarrow> string list" where
  "rgroups s = (if length s \<le> 3 then (if s = [] then [] else [s])
     else rgroups (take (length s - 3) s) @ [drop (length s - 3) s])"
  by pat_completeness auto
termination by (relation "measure length") auto

declare rgroups.simps [simp del]

fun join_with :: "string \<Rightarrow> string list \<Rightarrow> string" where
  "join_with sep [] = []"
| "join_with sep [x] = x"
| "join_with sep (x # y # xs) = x @ sep @ join_with sep (y # xs)"

definition pretty_print_number :: "nat \<Rightarrow> string" where
  "pretty_print_number n = join_with '','' (rgroups (show_nat n))"

lemma join_with_filter:
  "\<forall>x \<in> set xs. c \<notin> set x \<Longrightarrow> filter (\<lambda>d. d \<noteq> c) (join_with [c] xs) = concat xs"
  by (induction "[c]" xs rule: join_with.induct) (auto simp: filter_id_conv)

lemma concat_rgroups: "concat (rgroups s) = s"
  by (induction s rule: rgroups.induct) (subst rgroups.simps, auto)

lemma rgroups_subset: "x \<in> set (rgroups s) \<Longrightarrow> set x \<subseteq> set s"
  using concat_rgroups[of s] by (metis UN_upper set_concat)

text \<open>The separators are all that is added.\<close>

lemma pretty_print_number_digits: "filter (\<lambda>c. c \<noteq> CHR '','') (pretty_print_number n) = show_nat n"
proof -
  have "\<not> is_digit (CHR '','')" by (simp add: is_digit_def)
  then have "CHR '','' \<notin> set x" if "x \<in> set (rgroups (show_nat n))" for x
    using rgroups_subset[OF that] show_nat_digits[of n] unfolding list_all_iff by blast
  then show ?thesis unfolding pretty_print_number_def by (subst join_with_filter) (simp_all add: concat_rgroups)
qed

text \<open>\<^verbatim>\<open>concat_arrays\<close>: the two loops over an output of \<open>s\<close> elements; an index out of range panics.\<close>

fun copy_into :: "nat \<Rightarrow> 'a list \<Rightarrow> 'a list \<Rightarrow> 'a list option" where
  "copy_into at [] out = Some out"
| "copy_into at (x # xs) out = (if at < length out then copy_into (Suc at) xs (out[at := x]) else None)"

definition concat_arrays :: "nat \<Rightarrow> 'a list \<Rightarrow> 'a list \<Rightarrow> 'a list option" where
  "concat_arrays s a b =
     (case a of [] \<Rightarrow> None
      | x # _ \<Rightarrow> Option.bind (copy_into 0 a (replicate s x)) (copy_into (length a) b))"

lemma copy_into_writes:
  "k + length xs \<le> length out \<Longrightarrow> copy_into k xs out = Some (take k out @ xs @ drop (k + length xs) out)"
proof (induction xs arbitrary: k out)
  case (Cons x xs)
  have "copy_into k (x # xs) out = Some (take (Suc k) (out[k := x]) @ xs @ drop (Suc k + length xs) (out[k := x]))"
    using Cons by simp
  moreover have "take (Suc k) (out[k := x]) = take k out @ [x]" using Cons.prems by (simp add: take_Suc_conv_app_nth)
  ultimately show ?case by simp
qed simp

lemma concat_arrays_concatenates: "a \<noteq> [] \<Longrightarrow> concat_arrays (length a + length b) a b = Some (a @ b)"
  by (cases a) (simp_all add: concat_arrays_def copy_into_writes del: copy_into.simps)

end
