(* ===== verification/AdbcSql.thy ===== *)
theory AdbcSql
  imports EtlWrite DurationParse Util
begin

text \<open>
  The SQL text of \<^verbatim>\<open>crates/etl/src/sink/adbc.rs\<close>: quoting, literals, \<^verbatim>\<open>CREATE TABLE\<close>, \<^verbatim>\<open>UPDATE\<close>, \<^verbatim>\<open>DELETE\<close> and
  \<^verbatim>\<open>MERGE\<close> statements, with a reader that takes a statement apart again. Rendering an array slot as
  text is Arrow's \<^verbatim>\<open>array_value_to_string\<close>, the parameter \<open>render\<close>.
\<close>

subsection \<open>Configuration\<close>

datatype UpdateStrategy = Statement | StagingTable | BulkIngestUpsert

record adbc_config =
  target_db_catalog :: "string option"
  target_db_schema :: "string option"
  identifier_quote_char :: char
  bigint_suffix :: bool
  update_strategy :: UpdateStrategy
  reuse_bulk_ingest_streams :: bool
  flush_stream_before_upsert :: bool
  staging_adapter :: bool
  cfg_max_ingest_bytes :: nat  \<comment> \<open>\<open>max_ingest_batch_bytes()\<close>\<close>
  cfg_delete_batch_size :: "nat option"  \<comment> \<open>\<open>delete_batch_size()\<close>\<close>
  cfg_analyze_staging :: bool  \<comment> \<open>\<open>analyze_staging_before_merge()\<close>\<close>

text \<open>\<open>lower\<close> is \<^verbatim>\<open>to_ascii_lowercase\<close>, and \<^verbatim>\<open>to_lowercase\<close> on ASCII text.\<close>

definition lower_char :: "char \<Rightarrow> char" where
  "lower_char c =
     (let n = of_char c :: nat in if 65 \<le> n \<and> n \<le> 90 then char_of (n + 32) else c)"

definition lower :: "string \<Rightarrow> string" where
  "lower s = map lower_char s"

definition strategy_from_env :: "string option \<Rightarrow> UpdateStrategy result" where
  "strategy_from_env v =
     (case v of
        None \<Rightarrow> Inr Statement
      | Some val \<Rightarrow>
          let s = lower val
          in if s = ''statement'' then Inr Statement
             else if s = ''staging_table'' then Inr StagingTable
             else if s = ''bulk_ingest_upsert'' then Inr BulkIngestUpsert
             else Inl (''Unknown update strategy '' @ s))"

definition env_switch :: "string option \<Rightarrow> bool option" where
  "env_switch v =
     (case v of
        None \<Rightarrow> None
      | Some raw \<Rightarrow>
          let val = lower (trim raw)
          in if val \<in> set [''1'', ''true'', ''yes'', ''on''] then Some True
             else if val \<in> set [''0'', ''false'', ''no'', ''off''] then Some False
             else None)"

definition env_reuse_bulk_ingest_streams :: "string option \<Rightarrow> bool" where
  "env_reuse_bulk_ingest_streams v = (case env_switch v of Some b \<Rightarrow> b | None \<Rightarrow> True)"

definition env_flush_stream_before_upsert :: "string option \<Rightarrow> bool" where
  "env_flush_stream_before_upsert v = (case env_switch v of Some b \<Rightarrow> b | None \<Rightarrow> False)"

definition analyze_staging_before_merge :: "string option \<Rightarrow> bool" where
  "analyze_staging_before_merge v =
     (case v of None \<Rightarrow> False | Some raw \<Rightarrow> lower (trim raw) \<in> set [''1'', ''true'', ''yes'', ''on''])"

definition max_ingest_batch_bytes :: "string option \<Rightarrow> nat" where
  "max_ingest_batch_bytes v = env_positive u64_max (75 * 1024 * 1024) v"

definition delete_batch_size :: "string option \<Rightarrow> nat option" where
  "delete_batch_size v =
     (case Option.bind v (parse_unsigned u64_max) of
        Some n \<Rightarrow> if n > 0 then Some n else None
      | None \<Rightarrow> None)"

subsection \<open>Quoting\<close>

definition double_char :: "char \<Rightarrow> string \<Rightarrow> string" where
  "double_char q s = concat (map (\<lambda>c. if c = q then [q, q] else [c]) s)"

definition quote_ident :: "string \<Rightarrow> char \<Rightarrow> string" where
  "quote_ident value q = [q] @ double_char q value @ [q]"

definition quote_identifier :: "adbc_config \<Rightarrow> string \<Rightarrow> string" where
  "quote_identifier cfg value = quote_ident value (identifier_quote_char cfg)"

text \<open>The optional qualifiers that are present and not empty.\<close>

definition qualifiers :: "adbc_config \<Rightarrow> string list" where
  "qualifiers cfg =
     (case target_db_catalog cfg of Some c \<Rightarrow> if c \<noteq> [] then [c] else [] | None \<Rightarrow> []) @
     (case target_db_schema cfg of Some s \<Rightarrow> if s \<noteq> [] then [s] else [] | None \<Rightarrow> [])"

definition target_table_identifier :: "adbc_config \<Rightarrow> string \<Rightarrow> string" where
  "target_table_identifier cfg table_name =
     join_with ''.'' (map (quote_identifier cfg) (qualifiers cfg @ [table_name]))"

definition target_table_ingest_name :: "string \<Rightarrow> string" where
  "target_table_ingest_name table_name = table_name"

subsection \<open>CREATE TABLE\<close>

definition numeric_type :: "nat \<Rightarrow> int \<Rightarrow> string" where
  "numeric_type precision scale = ''NUMERIC('' @ show_nat precision @ '','' @ show_int scale @ '')''"

fun debug_type :: "data_type \<Rightarrow> string" where
  "debug_type DNull = ''Null''"
| "debug_type DBinary = ''Binary''"
| "debug_type DLargeBinary = ''LargeBinary''"
| "debug_type DBinaryView = ''BinaryView''"
| "debug_type (DOther s) = s"
| "debug_type _ = []"

fun postgres_type_for_arrow :: "data_type \<Rightarrow> string result" where
  "postgres_type_for_arrow DBoolean = Inr ''BOOLEAN''"
| "postgres_type_for_arrow DInt8 = Inr ''SMALLINT''"
| "postgres_type_for_arrow DInt16 = Inr ''SMALLINT''"
| "postgres_type_for_arrow DInt32 = Inr ''INTEGER''"
| "postgres_type_for_arrow DInt64 = Inr ''BIGINT''"
| "postgres_type_for_arrow DUInt8 = Inr ''SMALLINT''"
| "postgres_type_for_arrow DUInt16 = Inr ''INTEGER''"
| "postgres_type_for_arrow DUInt32 = Inr ''BIGINT''"
| "postgres_type_for_arrow DUInt64 = Inr ''NUMERIC(20,0)''"
| "postgres_type_for_arrow DFloat16 = Inr ''REAL''"
| "postgres_type_for_arrow DFloat32 = Inr ''REAL''"
| "postgres_type_for_arrow DFloat64 = Inr ''DOUBLE PRECISION''"
| "postgres_type_for_arrow (DDecimal128 p s) = Inr (numeric_type p s)"
| "postgres_type_for_arrow (DDecimal256 p s) = Inr (numeric_type p s)"
| "postgres_type_for_arrow DUtf8 = Inr ''TEXT''"
| "postgres_type_for_arrow DLargeUtf8 = Inr ''TEXT''"
| "postgres_type_for_arrow DUtf8View = Inr ''TEXT''"
| "postgres_type_for_arrow DBinary = Inr ''BYTEA''"
| "postgres_type_for_arrow DLargeBinary = Inr ''BYTEA''"
| "postgres_type_for_arrow DBinaryView = Inr ''BYTEA''"
| "postgres_type_for_arrow DDate32 = Inr ''DATE''"
| "postgres_type_for_arrow DDate64 = Inr ''DATE''"
| "postgres_type_for_arrow (DTime32 _) = Inr ''TIME''"
| "postgres_type_for_arrow (DTime64 _) = Inr ''TIME''"
| "postgres_type_for_arrow (DTimestamp _ tz) = Inr (if tz \<noteq> None then ''TIMESTAMPTZ'' else ''TIMESTAMP'')"
| "postgres_type_for_arrow (DDuration _) = Inr ''INTERVAL''"
| "postgres_type_for_arrow (DInterval _) = Inr ''INTERVAL''"
| "postgres_type_for_arrow DNull = Inl (''Cannot map Arrow type '' @ debug_type DNull)"
| "postgres_type_for_arrow (DOther s) = Inl (''Cannot map Arrow type '' @ debug_type (DOther s))"

definition create_column :: "adbc_config \<Rightarrow> field \<Rightarrow> string result" where
  "create_column cfg f =
     and_then (postgres_type_for_arrow (fld_type f))
       (\<lambda>ty. Inr (quote_identifier cfg (fld_name f) @ '' '' @ ty @ (if fld_nullable f then [] else '' NOT NULL'')))"

definition create_table_sql :: "adbc_config \<Rightarrow> string \<Rightarrow> schema \<Rightarrow> string list \<Rightarrow> string list \<Rightarrow> string result" where
  "create_table_sql cfg table_name schema partition_by primary_keys =
     and_then (collect_results (create_column cfg) schema)
       (\<lambda>columns.
          let partition_clause = (if partition_by \<noteq> [] then ''PARTITION BY ('' @ join_with '', '' partition_by @ '')'' else []);
              primary_key_statement =
                (if primary_keys \<noteq> []
                 then '', PRIMARY KEY ('' @ join_with '', '' (map (quote_identifier cfg) primary_keys) @ '')'' else [])
          in Inr (''CREATE TABLE IF NOT EXISTS '' @ target_table_identifier cfg table_name @ '' ('' @
                  join_with '', '' columns @ primary_key_statement @ '') '' @ partition_clause))"

subsection \<open>Literals\<close>

type_synonym render = "array \<Rightarrow> nat \<Rightarrow> string result"

text \<open>How a type is written: as it is, as a 64-bit integer, as quoted text, or not at all.\<close>

datatype literal_kind = Plain | Big | Quoted | Unsupported

fun kind_of_type :: "data_type \<Rightarrow> literal_kind" where
  "kind_of_type DBoolean = Plain" | "kind_of_type DFloat16 = Plain"
| "kind_of_type DFloat32 = Plain" | "kind_of_type DFloat64 = Plain"
| "kind_of_type (DDecimal128 _ _) = Plain" | "kind_of_type (DDecimal256 _ _) = Plain"
| "kind_of_type DInt8 = Plain" | "kind_of_type DInt16 = Plain" | "kind_of_type DInt32 = Plain"
| "kind_of_type DUInt8 = Plain" | "kind_of_type DUInt16 = Plain" | "kind_of_type DUInt32 = Plain"
| "kind_of_type DInt64 = Big" | "kind_of_type DUInt64 = Big"
| "kind_of_type DUtf8 = Quoted" | "kind_of_type DLargeUtf8 = Quoted" | "kind_of_type DUtf8View = Quoted"
| "kind_of_type DDate32 = Quoted" | "kind_of_type DDate64 = Quoted"
| "kind_of_type (DTime32 _) = Quoted" | "kind_of_type (DTime64 _) = Quoted"
| "kind_of_type (DTimestamp _ _) = Quoted" | "kind_of_type (DDuration _) = Quoted"
| "kind_of_type (DInterval _) = Quoted"
| "kind_of_type _ = Unsupported"

definition sql_literal :: "render \<Rightarrow> array \<Rightarrow> nat \<Rightarrow> bool \<Rightarrow> string result" where
  "sql_literal render a row suffix =
     (if is_null a row then Inr ''NULL''
      else and_then (map_err (\<lambda>e. ''Failed to render key value at row '' @ show_nat row @ '': '' @ e) (render a row))
        (\<lambda>raw. case kind_of_type (arr_type a) of
             Plain \<Rightarrow> Inr raw
           | Big \<Rightarrow> Inr (if suffix then raw @ ''L'' else raw)
           | Quoted \<Rightarrow> Inr ([CHR 39] @ double_char (CHR 39) raw @ [CHR 39])
           | Unsupported \<Rightarrow> Inl (''Update/Delete is not supported for column type '' @ debug_type (arr_type a))))"

definition null_safe_predicate_for_literal :: "string \<Rightarrow> string \<Rightarrow> string" where
  "null_safe_predicate_for_literal identifier literal =
     (if literal = ''NULL'' then identifier @ '' IS NULL'' else identifier @ '' = '' @ literal)"

subsection \<open>Statements\<close>

definition resolve_key_columns ::
  "adbc_config \<Rightarrow> schema \<Rightarrow> string list \<Rightarrow> string \<Rightarrow> (nat list \<times> string list) result" where
  "resolve_key_columns cfg schema key_columns ctx =
     and_then (collect_results (\<lambda>key. case index_of schema key of
                 Some i \<Rightarrow> Inr i
               | None \<Rightarrow> Inl (''Key column '' @ key @ '' not found in '' @ ctx @ '' batch schema'')) key_columns)
       (\<lambda>key_indices. Inr (key_indices, map (quote_identifier cfg) key_columns))"

definition non_key_update_columns :: "adbc_config \<Rightarrow> schema \<Rightarrow> string list \<Rightarrow> (nat \<times> string) list" where
  "non_key_update_columns cfg schema key_columns =
     map (\<lambda>(idx, f). (idx, quote_identifier cfg (fld_name f)))
       (filter (\<lambda>(_, f). fld_name f \<notin> set key_columns) (zip [0..<length schema] schema))"

definition row_predicates :: "render \<Rightarrow> record_batch \<Rightarrow> nat \<Rightarrow> nat list \<Rightarrow> string list \<Rightarrow> string list result" where
  "row_predicates render batch row key_indices key_idents =
     collect_results (\<lambda>(idx, key_ident).
         and_then (sql_literal render (rb_columns batch ! idx) row False)
           (\<lambda>literal. Inr (null_safe_predicate_for_literal key_ident literal)))
       (zip key_indices key_idents)"

definition delete_sql_for_row ::
  "render \<Rightarrow> string \<Rightarrow> record_batch \<Rightarrow> nat \<Rightarrow> nat list \<Rightarrow> string list \<Rightarrow> string result" where
  "delete_sql_for_row render table_ident batch row key_indices key_idents =
     and_then (row_predicates render batch row key_indices key_idents)
       (\<lambda>predicates. Inr (''DELETE FROM '' @ table_ident @ '' WHERE '' @ join_with '' AND '' predicates))"

definition update_sql_for_row ::
  "render \<Rightarrow> string \<Rightarrow> string \<Rightarrow> record_batch \<Rightarrow> nat \<Rightarrow> nat list \<Rightarrow> string list \<Rightarrow> (nat \<times> string) list \<Rightarrow> string result" where
  "update_sql_for_row render table_name table_ident batch row key_indices key_idents non_key_columns =
     and_then (row_predicates render batch row key_indices key_idents)
       (\<lambda>predicates.
          and_then (collect_results (\<lambda>(idx, col_ident).
                and_then (sql_literal render (rb_columns batch ! idx) row False)
                  (\<lambda>literal. Inr (col_ident @ '' = '' @ literal))) non_key_columns)
            (\<lambda>set_clauses.
               if set_clauses = []
               then Inl (''Update requires at least one non-key column in batch schema for table '' @ table_name)
               else Inr (''UPDATE '' @ table_ident @ '' SET '' @ join_with '', '' set_clauses @
                         '' WHERE '' @ join_with '' AND '' predicates)))"

text \<open>One statement per chunk of rows \<open>start..end\<close>; the chunk size is positive.\<close>

definition delete_chunk_sql ::
  "render \<Rightarrow> string \<Rightarrow> record_batch \<Rightarrow> string list \<Rightarrow> nat list \<Rightarrow> bool \<Rightarrow> nat list \<Rightarrow> string result" where
  "delete_chunk_sql render table_ident batch key_idents key_indices suffix chunk =
     (if length key_idents = 1
      then and_then (collect_results (\<lambda>row. sql_literal render (rb_columns batch ! (key_indices ! 0)) row False) chunk)
             (\<lambda>values. Inr (''DELETE FROM '' @ table_ident @ '' WHERE '' @ key_idents ! 0 @ '' IN ('' @
                            join_with '', '' values @ '')''))
      else and_then (collect_results (\<lambda>row.
               and_then (collect_results (\<lambda>idx. sql_literal render (rb_columns batch ! idx) row suffix) key_indices)
                 (\<lambda>vals. Inr (''('' @ join_with '', '' vals @ '')''))) chunk)
             (\<lambda>tuples. Inr (''DELETE FROM '' @ table_ident @ '' WHERE ('' @ join_with '', '' key_idents @ '') IN ('' @
                            join_with '', '' tuples @ '')'')))"

function batched_delete_loop ::
  "(nat list \<Rightarrow> string result) \<Rightarrow> nat \<Rightarrow> nat \<Rightarrow> nat \<Rightarrow> string list result" where
  "batched_delete_loop sql batch_size num_rows start =
     (if start < num_rows \<and> 0 < batch_size
      then let stop = min (start + batch_size) num_rows
           in and_then (sql [start..<stop])
                (\<lambda>s. and_then (batched_delete_loop sql batch_size num_rows stop) (\<lambda>rest. Inr (s # rest)))
      else Inr [])"
  by pat_completeness auto
termination by (relation "measure (\<lambda>(sql, n, num_rows, start). num_rows - start)") auto

declare batched_delete_loop.simps [simp del]

definition batched_delete_sql ::
  "render \<Rightarrow> string \<Rightarrow> record_batch \<Rightarrow> nat \<Rightarrow> string list \<Rightarrow> nat list \<Rightarrow> char \<Rightarrow> bool \<Rightarrow> string list result" where
  "batched_delete_sql render table_ident batch batch_size key_columns key_indices q suffix =
     batched_delete_loop
       (delete_chunk_sql render table_ident batch (map (\<lambda>k. quote_ident k q) key_columns) key_indices suffix)
       batch_size (rb_num_rows batch) 0"

definition delete_sql_statements ::
  "render \<Rightarrow> adbc_config \<Rightarrow> string \<Rightarrow> record_batch \<Rightarrow> string list \<Rightarrow> string list result" where
  "delete_sql_statements render cfg table_name batch key_columns =
     (if key_columns = [] then Inl ''Delete requires at least one key column''
      else let table_ident = target_table_identifier cfg table_name
           in and_then (resolve_key_columns cfg (rb_schema batch) key_columns ''delete'')
                (\<lambda>(key_indices, key_idents).
                   case cfg_delete_batch_size cfg of
                     None \<Rightarrow> collect_results (\<lambda>row. delete_sql_for_row render table_ident batch row key_indices key_idents)
                               [0..<rb_num_rows batch]
                   | Some n \<Rightarrow> batched_delete_sql render table_ident batch n key_columns key_indices
                                 (identifier_quote_char cfg) (bigint_suffix cfg)))"

definition update_sql_statements ::
  "render \<Rightarrow> adbc_config \<Rightarrow> string \<Rightarrow> record_batch \<Rightarrow> string list \<Rightarrow> string list result" where
  "update_sql_statements render cfg table_name batch key_columns =
     and_then (resolve_key_columns cfg (rb_schema batch) key_columns ''update'')
       (\<lambda>(key_indices, key_idents).
          let non_key_columns = non_key_update_columns cfg (rb_schema batch) key_columns
          in if non_key_columns = []
             then Inl (''Update requires at least one non-key column in batch schema for table '' @ table_name)
             else collect_results (\<lambda>row. update_sql_for_row render table_name (target_table_identifier cfg table_name)
                                     batch row key_indices key_idents non_key_columns)
                    [0..<rb_num_rows batch])"

definition build_staging_merge_sql :: "string \<Rightarrow> string \<Rightarrow> schema \<Rightarrow> string list \<Rightarrow> char \<Rightarrow> string" where
  "build_staging_merge_sql target_ident staging_ident schema key_columns q =
     (let on_clause = join_with '' AND '' (map (\<lambda>k. ''t.'' @ quote_ident k q @ '' = s.'' @ quote_ident k q) key_columns);
          set_clause = join_with '', ''
            (map (\<lambda>f. quote_ident (fld_name f) q @ '' = s.'' @ quote_ident (fld_name f) q)
               (filter (\<lambda>f. fld_name f \<notin> set key_columns) schema))
      in ''MERGE INTO '' @ target_ident @ '' t USING '' @ staging_ident @ '' s ON '' @ on_clause @
         '' WHEN MATCHED THEN UPDATE SET '' @ set_clause)"

subsection \<open>Reading statements back\<close>

text \<open>
  A reader of the statements, written from the lexical rules of SQL: a quoted token ends at the
  first quote that is not doubled, an unquoted literal at the next blank or comma.
\<close>

datatype sql_value = SqlNull | SqlRaw string | SqlText string

fun read_body :: "char \<Rightarrow> string \<Rightarrow> (string \<times> string) option" where
  "read_body q [] = None"
| "read_body q (c # cs) =
     (if c = q
      then (case cs of
              d # ds \<Rightarrow> if d = q then map_option (apfst ((#) q)) (read_body q ds) else Some ([], cs)
            | [] \<Rightarrow> Some ([], []))
      else map_option (apfst ((#) c)) (read_body q cs))"

fun read_quoted :: "char \<Rightarrow> string \<Rightarrow> (string \<times> string) option" where
  "read_quoted q [] = None"
| "read_quoted q (c # cs) = (if c = q then read_body q cs else None)"

definition strip :: "string \<Rightarrow> string \<Rightarrow> string option" where
  "strip pat s = (if take (length pat) s = pat then Some (drop (length pat) s) else None)"

lemma read_body_length: "read_body q s = Some (v, r) \<Longrightarrow> length r < length s"
  by (induction q s arbitrary: v r rule: read_body.induct) (fastforce split: if_splits list.splits)+

lemma read_quoted_length: "read_quoted q s = Some (v, r) \<Longrightarrow> length r < length s"
  by (cases s) (auto dest: read_body_length split: if_splits)

lemma strip_length: "strip pat s = Some r \<Longrightarrow> length r \<le> length s"
  by (auto simp: strip_def split: if_splits)

function read_path :: "char \<Rightarrow> string \<Rightarrow> (string list \<times> string) option" where
  "read_path q s =
     (case read_quoted q s of
        None \<Rightarrow> None
      | Some (v, r) \<Rightarrow>
          (case strip ''.'' r of
             None \<Rightarrow> Some ([v], r)
           | Some r' \<Rightarrow> map_option (apfst ((#) v)) (read_path q r')))"
  by pat_completeness auto
termination by (relation "measure (\<lambda>(q, s). length s)") (auto dest!: read_quoted_length strip_length)

definition read_literal :: "string \<Rightarrow> (sql_value \<times> string) option" where
  "read_literal s =
     (case s of
        [] \<Rightarrow> None
      | c # _ \<Rightarrow>
          if c = CHR 39 then map_option (apfst SqlText) (read_quoted (CHR 39) s)
          else let raw = takeWhile (\<lambda>c. c \<noteq> CHR '' '' \<and> c \<noteq> CHR '','') s
               in Some (if raw = ''NULL'' then SqlNull else SqlRaw raw, drop (length raw) s))"

definition read_assignment :: "char \<Rightarrow> string \<Rightarrow> ((string \<times> sql_value) \<times> string) option" where
  "read_assignment q s =
     Option.bind (read_quoted q s)
       (\<lambda>(c, r). Option.bind (strip '' = '' r) (\<lambda>r. map_option (apfst (Pair c)) (read_literal r)))"

definition read_predicate :: "char \<Rightarrow> string \<Rightarrow> ((string \<times> sql_value) \<times> string) option" where
  "read_predicate q s =
     Option.bind (read_quoted q s)
       (\<lambda>(c, r). case strip '' IS NULL'' r of
            Some r' \<Rightarrow> Some ((c, SqlNull), r')
          | None \<Rightarrow> read_assignment q s)"

text \<open>Items separated by \<open>sep\<close>; \<open>n\<close> bounds their number.\<close>

fun read_items :: "(string \<Rightarrow> ('i \<times> string) option) \<Rightarrow> string \<Rightarrow> nat \<Rightarrow> string \<Rightarrow> ('i list \<times> string) option" where
  "read_items item sep 0 s = None"
| "read_items item sep (Suc n) s =
     (case item s of
        None \<Rightarrow> None
      | Some (x, r) \<Rightarrow>
          (case strip sep r of
             None \<Rightarrow> Some ([x], r)
           | Some r' \<Rightarrow> map_option (apfst ((#) x)) (read_items item sep n r')))"

definition read_where :: "char \<Rightarrow> string \<Rightarrow> (string \<times> sql_value) list option" where
  "read_where q s =
     Option.bind (strip '' WHERE '' s)
       (\<lambda>r. case read_items (read_predicate q) '' AND '' (length r) r of
            Some (ps, []) \<Rightarrow> Some ps
          | _ \<Rightarrow> None)"

definition read_delete :: "char \<Rightarrow> string \<Rightarrow> (string list \<times> (string \<times> sql_value) list) option" where
  "read_delete q s =
     Option.bind (Option.bind (strip ''DELETE FROM '' s) (read_path q))
       (\<lambda>(path, r). map_option (Pair path) (read_where q r))"

definition read_update ::
  "char \<Rightarrow> string \<Rightarrow> (string list \<times> (string \<times> sql_value) list \<times> (string \<times> sql_value) list) option" where
  "read_update q s =
     Option.bind (Option.bind (strip ''UPDATE '' s) (read_path q))
       (\<lambda>(path, r). Option.bind (strip '' SET '' r)
          (\<lambda>r. Option.bind (read_items (read_assignment q) '', '' (length r) r)
             (\<lambda>(sets, r). map_option (\<lambda>ps. (path, sets, ps)) (read_where q r))))"

subsection \<open>Quoted tokens\<close>

lemma strip_append [simp]: "strip pat (pat @ s) = Some s"
  by (simp add: strip_def)

lemma strip_Nil [simp]: "pat \<noteq> [] \<Longrightarrow> strip pat [] = None"
  by (simp add: strip_def)

lemma strip_other: "pat = p # ps \<Longrightarrow> c \<noteq> p \<Longrightarrow> strip pat (c # s) = None"
  by (simp add: strip_def)

lemma double_char_simps [simp]:
  "double_char q [] = []"
  "double_char q (c # cs) = (if c = q then [q, q] else [c]) @ double_char q cs"
  by (simp_all add: double_char_def)

text \<open>A text that goes on after a quoted token must not start with its quote.\<close>

definition ends_token :: "char \<Rightarrow> string \<Rightarrow> bool" where
  "ends_token q rest \<longleftrightarrow> (case rest of [] \<Rightarrow> True | c # _ \<Rightarrow> c \<noteq> q)"

lemma read_body_double: "ends_token q rest \<Longrightarrow> read_body q (double_char q v @ q # rest) = Some (v, rest)"
  by (induction v) (auto simp: ends_token_def split: list.splits)

lemma read_quoted_ident: "ends_token q rest \<Longrightarrow> read_quoted q (quote_ident v q @ rest) = Some (v, rest)"
  using read_body_double by (simp add: quote_ident_def)

declare read_path.simps [simp del]

lemma read_path_idents:
  assumes "vs \<noteq> []" "q \<noteq> CHR ''.''" "ends_token q rest" "strip ''.'' rest = None"
  shows "read_path q (join_with ''.'' (map (\<lambda>v. quote_ident v q) vs) @ rest) = Some (vs, rest)"
  using assms
proof (induction vs rule: induct_list012)
  case (2 v)
  then show ?case by (subst read_path.simps) (simp add: read_quoted_ident)
next
  case (3 v w vs)
  let ?rest = "''.'' @ join_with ''.'' (map (\<lambda>v. quote_ident v q) (w # vs)) @ rest"
  have "read_quoted q (quote_ident v q @ ?rest) = Some (v, ?rest)"
    using 3(4) by (intro read_quoted_ident) (simp add: ends_token_def)
  moreover have "strip ''.'' ?rest = Some (join_with ''.'' (map (\<lambda>v. quote_ident v q) (w # vs)) @ rest)" by (rule strip_append)
  ultimately show ?case using 3(2)[OF _ 3(4-6)] by (subst read_path.simps) simp
qed simp

text \<open>What may follow an item of a list: the end, a blank or a comma.\<close>

definition delimited :: "string \<Rightarrow> bool" where
  "delimited rest \<longleftrightarrow> (case rest of [] \<Rightarrow> True | c # _ \<Rightarrow> c = CHR '' '' \<or> c = CHR '','')"

lemma delimited_simps [simp]: "delimited []" "delimited (CHR '' '' # s)" "delimited (CHR '','' # s)"
  by (simp_all add: delimited_def)

lemma read_items_join:
  assumes item: "\<And>x t r. (x, t) \<in> set xts \<Longrightarrow> delimited r \<Longrightarrow> item (t @ r) = Some (x, r)"
    and sep: "\<And>r. delimited (sep @ r)" and rest: "delimited rest" "strip sep rest = None"
    and n: "xts \<noteq> []" "length xts \<le> n"
  shows "read_items item sep n (join_with sep (map snd xts) @ rest) = Some (map fst xts, rest)"
  using item n
proof (induction xts arbitrary: n rule: induct_list012)
  case (2 xt)
  then show ?case using rest by (cases n; cases xt) (simp_all add: 2)
next
  case (3 xt yt xts)
  obtain m where m: "n = Suc m" using 3(5) by (cases n) auto
  obtain x t where xt: "xt = (x, t)" by force
  have "item (t @ sep @ join_with sep (map snd (yt # xts)) @ rest) = Some (x, sep @ join_with sep (map snd (yt # xts)) @ rest)"
    by (rule 3(3)) (use sep xt in auto)
  moreover have "read_items item sep m (join_with sep (map snd (yt # xts)) @ rest) = Some (map fst (yt # xts), rest)"
    by (rule 3(2)) (use 3(3,5) m in auto)
  ultimately show ?case by (simp add: m xt)
qed simp

subsection \<open>Literals\<close>

definition plain_text :: "string \<Rightarrow> bool" where
  "plain_text s \<longleftrightarrow> s \<noteq> [] \<and> s \<noteq> ''NULL'' \<and> CHR '' '' \<notin> set s \<and> CHR '','' \<notin> set s \<and> CHR 39 \<notin> set s"

text \<open>
  The contract of Arrow's rendering: a number or boolean that is present has no blanks, commas or
  quotes. A null slot, which Arrow renders as it is told to, is never asked for.
\<close>

definition render_ok :: "render \<Rightarrow> bool" where
  "render_ok render \<longleftrightarrow> (\<forall>a row raw. kind_of_type (arr_type a) \<in> {Plain, Big} \<longrightarrow> \<not> is_null a row \<longrightarrow> render a row = Inr raw \<longrightarrow> plain_text raw)"

definition key_value :: "render \<Rightarrow> array \<Rightarrow> nat \<Rightarrow> sql_value" where
  "key_value render a row =
     (if is_null a row then SqlNull
      else case render a row of
             Inl _ \<Rightarrow> SqlNull
           | Inr raw \<Rightarrow> if kind_of_type (arr_type a) = Quoted then SqlText raw else SqlRaw raw)"

lemma read_literal_raw:
  assumes "plain_text raw \<or> raw = ''NULL''" "delimited rest"
  shows "read_literal (raw @ rest) = Some (if raw = ''NULL'' then SqlNull else SqlRaw raw, rest)"
proof -
  have free: "\<forall>c \<in> set raw. c \<noteq> CHR '' '' \<and> c \<noteq> CHR '','' \<and> c \<noteq> CHR 39" and ne: "raw \<noteq> []"
    using assms(1) by (auto simp: plain_text_def)
  have "takeWhile (\<lambda>c. c \<noteq> CHR '' '' \<and> c \<noteq> CHR '','') (raw @ rest) = raw"
    using free assms(2) by (cases rest) (auto simp: takeWhile_append2 delimited_def)
  then show ?thesis using ne free by (cases raw) (simp_all add: read_literal_def)
qed

lemma sql_literal_cases:
  assumes lit: "sql_literal render a row False = Inr lit" and render: "render_ok render"
  obtains (plain) "plain_text lit" "key_value render a row = SqlRaw lit"
    | (nul) "lit = ''NULL''" "key_value render a row = SqlNull"
    | (quoted) v where "lit = quote_ident v (CHR 39)" "key_value render a row = SqlText v"
proof (cases "is_null a row")
  case True
  then show ?thesis using lit by (intro nul) (simp_all add: sql_literal_def key_value_def)
next
  case False
  then obtain r where r: "render a row = Inr r"
    using lit by (cases "render a row") (simp_all add: sql_literal_def)
  show ?thesis
  proof (cases "kind_of_type (arr_type a) = Quoted")
    case True
    then show ?thesis using lit False r by (intro quoted[of r]) (simp_all add: sql_literal_def key_value_def quote_ident_def)
  next
    case nq: False
    then have "lit = r" "kind_of_type (arr_type a) \<in> {Plain, Big}"
      using lit False r by (auto simp: sql_literal_def split: literal_kind.splits)
    then show ?thesis using False r nq render by (intro plain) (auto simp: key_value_def render_ok_def)
  qed
qed

lemma read_literal_sql:
  assumes "sql_literal render a row False = Inr lit" "render_ok render" "delimited rest"
  shows "read_literal (lit @ rest) = Some (key_value render a row, rest)"
  using assms(1,2)
proof (cases rule: sql_literal_cases)
  case plain
  then show ?thesis using read_literal_raw[OF _ assms(3), of lit] by (auto simp: plain_text_def)
next
  case nul
  then show ?thesis using read_literal_raw[OF _ assms(3), of lit] by simp
next
  case (quoted v)
  have "ends_token (CHR 39) rest" using assms(3) by (auto simp: ends_token_def delimited_def split: list.splits)
  then have "read_quoted (CHR 39) (lit @ rest) = Some (v, rest)" using quoted(1) read_quoted_ident by simp
  then show ?thesis using quoted by (simp add: read_literal_def quote_ident_def)
qed

lemma read_assignment_sql:
  assumes "sql_literal render a row False = Inr lit" "render_ok render" "delimited rest" "q \<noteq> CHR '' ''"
  shows "read_assignment q (quote_ident k q @ '' = '' @ lit @ rest) = Some ((k, key_value render a row), rest)"
proof -
  have "read_quoted q (quote_ident k q @ '' = '' @ lit @ rest) = Some (k, '' = '' @ lit @ rest)"
    using assms(4) by (intro read_quoted_ident) (simp add: ends_token_def)
  moreover have "strip '' = '' ('' = '' @ lit @ rest) = Some (lit @ rest)" by (rule strip_append)
  ultimately show ?thesis using read_literal_sql[OF assms(1-3)] by (simp add: read_assignment_def)
qed

lemma read_predicate_sql:
  assumes lit: "sql_literal render a row False = Inr lit" and render: "render_ok render" and rest: "delimited rest"
    and q: "q \<noteq> CHR '' ''"
  shows "read_predicate q (null_safe_predicate_for_literal (quote_ident k q) lit @ rest) = Some ((k, key_value render a row), rest)"
proof (cases "lit = ''NULL''")
  case True
  have "key_value render a row = SqlNull"
    using lit render by (cases rule: sql_literal_cases) (use True in \<open>auto simp: plain_text_def quote_ident_def\<close>)
  moreover have "read_quoted q (quote_ident k q @ '' IS NULL'' @ rest) = Some (k, '' IS NULL'' @ rest)"
    using q by (intro read_quoted_ident) (simp add: ends_token_def)
  moreover have "strip '' IS NULL'' ('' IS NULL'' @ rest) = Some rest" by (rule strip_append)
  ultimately show ?thesis using True by (simp add: null_safe_predicate_for_literal_def read_predicate_def)
next
  case False
  have "read_quoted q (quote_ident k q @ '' = '' @ lit @ rest) = Some (k, '' = '' @ lit @ rest)"
    using q by (intro read_quoted_ident) (simp add: ends_token_def)
  moreover have "strip '' IS NULL'' ('' = '' @ lit @ rest) = None" by (simp add: strip_def)
  ultimately show ?thesis using False read_assignment_sql[OF lit render rest q, of k]
    by (simp add: null_safe_predicate_for_literal_def read_predicate_def)
qed

subsection \<open>Statements\<close>

lemma length_join_with: "\<forall>t \<in> set ts. t \<noteq> [] \<Longrightarrow> length ts \<le> length (join_with sep ts)"
proof (induction ts rule: induct_list012)
  case (3 x y zs)
  then have "length (y # zs) \<le> length (join_with sep (y # zs))" "x \<noteq> []" by auto
  then show ?case by (cases x) auto
qed (auto simp: Suc_le_eq)

lemma collect_items:
  assumes ts: "collect_results f xs = Inr ts"
    and item: "\<And>x t r. x \<in> set xs \<Longrightarrow> f x = Inr t \<Longrightarrow> delimited r \<Longrightarrow> item (t @ r) = Some (g x, r)"
    and sep: "\<And>r. delimited (sep @ r)" and rest: "delimited rest" "strip sep rest = None"
    and ne: "xs \<noteq> []" "\<And>x t. x \<in> set xs \<Longrightarrow> f x = Inr t \<Longrightarrow> t \<noteq> []" and n: "length (join_with sep ts) \<le> n"
  shows "read_items item sep n (join_with sep ts @ rest) = Some (map g xs, rest)"
proof -
  have len: "length ts = length xs" by (rule collect_results_Inr_length[OF ts])
  have nth: "f (xs ! i) = Inr (ts ! i)" if "i < length xs" for i by (rule collect_results_Inr_nth[OF ts that])
  have "\<forall>t \<in> set ts. t \<noteq> []" using ne(2) nth len by (metis in_set_conv_nth nth_mem)
  then have "length ts \<le> n" using length_join_with[of ts sep] n by simp
  moreover have "item (t @ r) = Some (y, r)" if "(y, t) \<in> set (zip (map g xs) ts)" "delimited r" for y t r
    using that nth item by (auto simp: set_zip len)
  ultimately have "read_items item sep n (join_with sep (map snd (zip (map g xs) ts)) @ rest)
      = Some (map fst (zip (map g xs) ts), rest)"
    using sep rest ne(1) len by (intro read_items_join) auto
  then show ?thesis by (simp add: len)
qed

lemma collect_results_map: "collect_results h (map p xs) = collect_results (\<lambda>x. h (p x)) xs"
  by (induction xs) auto

lemma null_safe_nonempty: "null_safe_predicate_for_literal i l \<noteq> []"
  by (simp add: null_safe_predicate_for_literal_def)

lemma quote_ident_nonempty [simp]: "quote_ident v q \<noteq> []"
  by (simp add: quote_ident_def)

lemma read_where_predicates:
  assumes preds: "row_predicates render batch row idxs (map (\<lambda>k. quote_ident k q) keys) = Inr ps"
    and render: "render_ok render" and q: "q \<noteq> CHR '' ''" and keys: "keys \<noteq> []" "length idxs = length keys"
  shows "read_where q ('' WHERE '' @ join_with '' AND '' ps)
    = Some (zip keys (map (\<lambda>i. key_value render (rb_columns batch ! i) row) idxs))"
proof -
  let ?text = "join_with '' AND '' ps"
  let ?g = "\<lambda>(i, k). (k, key_value render (rb_columns batch ! i) row)"
  let ?f = "\<lambda>(i, k). and_then (sql_literal render (rb_columns batch ! i) row False)
      (\<lambda>l. Inr (null_safe_predicate_for_literal (quote_ident k q) l))"
  have "zip idxs (map (\<lambda>k. quote_ident k q) keys) = map (\<lambda>(i, k). (i, quote_ident k q)) (zip idxs keys)"
    by (simp add: zip_map2)
  then have "collect_results ?f (zip idxs keys) = Inr ps"
    using preds by (simp add: row_predicates_def collect_results_map case_prod_unfold)
  then have "read_items (read_predicate q) '' AND '' (length ?text) (?text @ []) = Some (map ?g (zip idxs keys), [])"
  proof (rule collect_items)
    show "read_predicate q (t @ r) = Some (?g x, r)"
      if "x \<in> set (zip idxs keys)" "?f x = Inr t" "delimited r" for x t r
      using that(2) read_predicate_sql[OF _ render that(3) q] by (cases x) (auto simp: result_simps)
    show "t \<noteq> []" if "?f x = Inr t" for x t using that by (auto simp: result_simps null_safe_nonempty split: prod.splits)
  qed (use keys in auto)
  moreover have "map ?g (zip idxs keys) = zip keys (map (\<lambda>i. key_value render (rb_columns batch ! i) row) idxs)"
    using keys(2) by (simp add: list_eq_iff_nth_eq)
  moreover have "strip '' WHERE '' ('' WHERE '' @ ?text) = Some ?text" by (rule strip_append)
  ultimately show ?thesis by (simp add: read_where_def)
qed

lemma resolve_key_columns_ok:
  assumes "resolve_key_columns cfg schema keys ctx = Inr (idxs, idents)"
  shows "idents = map (\<lambda>k. quote_ident k (identifier_quote_char cfg)) keys" "idxs = map (\<lambda>k. the (index_of schema k)) keys"
proof -
  let ?f = "\<lambda>key. case index_of schema key of Some i \<Rightarrow> Inr i
               | None \<Rightarrow> Inl (''Key column '' @ key @ '' not found in '' @ ctx @ '' batch schema'')"
  have c: "collect_results ?f keys = Inr idxs" and "idents = map (quote_identifier cfg) keys"
    using assms by (auto simp: resolve_key_columns_def result_simps)
  then show "idents = map (\<lambda>k. quote_ident k (identifier_quote_char cfg)) keys" by (simp add: quote_identifier_def)
  show "idxs = map (\<lambda>k. the (index_of schema k)) keys"
  proof (rule nth_equalityI)
    show len: "length idxs = length (map (\<lambda>k. the (index_of schema k)) keys)" using collect_results_Inr_length[OF c] by simp
    fix i assume "i < length idxs"
    then have "?f (keys ! i) = Inr (idxs ! i)" using collect_results_Inr_nth[OF c] len by simp
    then show "idxs ! i = map (\<lambda>k. the (index_of schema k)) keys ! i"
      using \<open>i < length idxs\<close> len by (auto split: option.splits)
  qed
qed

definition column_of :: "record_batch \<Rightarrow> string \<Rightarrow> array" where
  "column_of batch name = rb_columns batch ! the (index_of (rb_schema batch) name)"

abbreviation key_values :: "render \<Rightarrow> record_batch \<Rightarrow> string list \<Rightarrow> nat \<Rightarrow> (string \<times> sql_value) list" where
  "key_values render batch names row \<equiv> map (\<lambda>k. (k, key_value render (column_of batch k) row)) names"

lemma zip_key_values:
  "zip keys (map (\<lambda>i. key_value render (rb_columns batch ! i) row) (map (\<lambda>k. the (index_of (rb_schema batch) k)) keys))
     = key_values render batch keys row"
  by (simp add: list_eq_iff_nth_eq column_of_def)

lemma read_target_path:
  assumes "q = identifier_quote_char cfg" "q \<noteq> CHR '' ''" "q \<noteq> CHR ''.''"
  shows "read_path q (target_table_identifier cfg table @ CHR '' '' # rest) = Some (qualifiers cfg @ [table], CHR '' '' # rest)"
proof -
  have "quote_identifier cfg = (\<lambda>v. quote_ident v q)" using assms(1) by (auto simp: quote_identifier_def)
  then show ?thesis
    using read_path_idents[of "qualifiers cfg @ [table]" q "CHR '' '' # rest"] assms
    by (simp add: target_table_identifier_def ends_token_def strip_def)
qed

lemma read_delete_row:
  assumes sql: "delete_sql_for_row render (target_table_identifier cfg table) batch row idxs
        (map (\<lambda>k. quote_ident k q) keys) = Inr sql"
    and render: "render_ok render" and q: "q = identifier_quote_char cfg" "q \<noteq> CHR '' ''" "q \<noteq> CHR ''.''"
    and keys: "keys \<noteq> []" "idxs = map (\<lambda>k. the (index_of (rb_schema batch) k)) keys"
  shows "read_delete q sql = Some (qualifiers cfg @ [table], key_values render batch keys row)"
proof -
  from sql obtain ps where ps: "row_predicates render batch row idxs (map (\<lambda>k. quote_ident k q) keys) = Inr ps"
    and t: "sql = ''DELETE FROM '' @ target_table_identifier cfg table @ '' WHERE '' @ join_with '' AND '' ps"
    by (auto simp: delete_sql_for_row_def result_simps)
  have "strip ''DELETE FROM '' sql = Some (target_table_identifier cfg table @ '' WHERE '' @ join_with '' AND '' ps)"
    unfolding t by (rule strip_append)
  moreover have "read_path q (target_table_identifier cfg table @ '' WHERE '' @ join_with '' AND '' ps)
      = Some (qualifiers cfg @ [table], '' WHERE '' @ join_with '' AND '' ps)"
    using read_target_path[OF q] by simp
  moreover have "read_where q ('' WHERE '' @ join_with '' AND '' ps) = Some (key_values render batch keys row)"
    using read_where_predicates[OF ps render q(2) keys(1)] keys(2) unfolding zip_key_values[symmetric] by simp
  ultimately show ?thesis by (simp add: read_delete_def)
qed

text \<open>The columns an update sets, with their new values.\<close>

definition non_key_fields :: "record_batch \<Rightarrow> string list \<Rightarrow> (nat \<times> field) list" where
  "non_key_fields batch keys =
     filter (\<lambda>(_, f). fld_name f \<notin> set keys) (zip [0..<length (rb_schema batch)] (rb_schema batch))"

definition set_values :: "render \<Rightarrow> record_batch \<Rightarrow> string list \<Rightarrow> nat \<Rightarrow> (string \<times> sql_value) list" where
  "set_values render batch keys row =
     map (\<lambda>(idx, f). (fld_name f, key_value render (rb_columns batch ! idx) row)) (non_key_fields batch keys)"

lemma read_update_row:
  assumes sql: "update_sql_for_row render table (target_table_identifier cfg table) batch row idxs
        (map (\<lambda>k. quote_ident k q) keys) (non_key_update_columns cfg (rb_schema batch) keys) = Inr sql"
    and render: "render_ok render" and q: "q = identifier_quote_char cfg" "q \<noteq> CHR '' ''" "q \<noteq> CHR ''.''"
    and keys: "keys \<noteq> []" "idxs = map (\<lambda>k. the (index_of (rb_schema batch) k)) keys"
  shows "read_update q sql = Some (qualifiers cfg @ [table], set_values render batch keys row, key_values render batch keys row)"
proof -
  let ?f = "\<lambda>(idx, f). and_then (sql_literal render (rb_columns batch ! idx) row False)
      (\<lambda>literal. Inr (quote_ident (fld_name f) q @ '' = '' @ literal))"
  have cols: "non_key_update_columns cfg (rb_schema batch) keys
      = map (\<lambda>(idx, f). (idx, quote_ident (fld_name f) q)) (non_key_fields batch keys)"
    using q(1) by (simp add: non_key_update_columns_def non_key_fields_def quote_identifier_def)
  from sql obtain ps sets where ps: "row_predicates render batch row idxs (map (\<lambda>k. quote_ident k q) keys) = Inr ps"
    and sets: "collect_results ?f (non_key_fields batch keys) = Inr sets" "sets \<noteq> []"
    and t: "sql = ''UPDATE '' @ target_table_identifier cfg table @ '' SET '' @ join_with '', '' sets @ '' WHERE '' @ join_with '' AND '' ps"
    unfolding cols update_sql_for_row_def collect_results_map
    by (auto simp: result_simps case_prod_unfold split: if_splits)
  let ?where = "'' WHERE '' @ join_with '' AND '' ps" and ?sets = "join_with '', '' sets"
  have "read_items (read_assignment q) '', '' (length (?sets @ ?where)) (?sets @ ?where)
      = Some (map (\<lambda>(idx, f). (fld_name f, key_value render (rb_columns batch ! idx) row)) (non_key_fields batch keys), ?where)"
  proof (rule collect_items[OF sets(1)])
    show "read_assignment q (t @ r) = Some ((\<lambda>(idx, f). (fld_name f, key_value render (rb_columns batch ! idx) row)) x, r)"
      if "?f x = Inr t" "delimited r" for x t r
      using that(1) read_assignment_sql[OF _ render that(2) q(2)] by (cases x) (auto simp: result_simps)
    show "t \<noteq> []" if "?f x = Inr t" for x t using that by (auto simp: result_simps split: prod.splits)
    show "non_key_fields batch keys \<noteq> []" using sets by auto
  qed (simp_all add: strip_def)
  moreover have "strip ''UPDATE '' sql = Some (target_table_identifier cfg table @ '' SET '' @ ?sets @ ?where)"
    unfolding t by (rule strip_append)
  moreover have "read_path q (target_table_identifier cfg table @ '' SET '' @ ?sets @ ?where)
      = Some (qualifiers cfg @ [table], '' SET '' @ ?sets @ ?where)"
    using read_target_path[OF q] by simp
  moreover have "strip '' SET '' ('' SET '' @ ?sets @ ?where) = Some (?sets @ ?where)" by (rule strip_append)
  moreover have "read_where q ?where = Some (key_values render batch keys row)"
    using read_where_predicates[OF ps render q(2) keys(1)] keys(2) unfolding zip_key_values[symmetric] by simp
  ultimately show ?thesis by (simp add: read_update_def set_values_def)
qed

lemma collect_results_reads:
  assumes "collect_results f xs = Inr ys" "\<And>x y. x \<in> set xs \<Longrightarrow> f x = Inr y \<Longrightarrow> rd y = g x"
  shows "map rd ys = map g xs"
  using assms by (induction xs arbitrary: ys) (auto simp: result_simps)

text \<open>
  C33. The statements a batch of updates, or of deletes row by row (no delete batch size is
  configured), with at least one key column, is turned into say what the batch says, whatever its
  strings contain. When such a list is rendered, it has one statement per row; read by the lexical rules of SQL, the \<open>k\<close>-th
  statement names the target table and the key of the \<open>k\<close>-th row (null keys by \<^verbatim>\<open>IS NULL\<close>), and an
  update sets every other column to its value in that row.
\<close>

theorem change_statements_read_back:
  assumes render: "render_ok render" and quote: "identifier_quote_char cfg \<in> {CHR 34, CHR 96}" and keys: "keys \<noteq> []"
  shows "(\<forall>dels. cfg_delete_batch_size cfg = None \<longrightarrow> delete_sql_statements render cfg table batch keys = Inr dels \<longrightarrow>
      map (read_delete (identifier_quote_char cfg)) dels
        = map (\<lambda>row. Some (qualifiers cfg @ [table], key_values render batch keys row)) [0..<rb_num_rows batch])
    \<and> (\<forall>upds. update_sql_statements render cfg table batch keys = Inr upds \<longrightarrow>
      map (read_update (identifier_quote_char cfg)) upds
        = map (\<lambda>row. Some (qualifiers cfg @ [table], set_values render batch keys row, key_values render batch keys row)) [0..<rb_num_rows batch])"
proof (intro conjI allI impI)
  have q: "identifier_quote_char cfg = identifier_quote_char cfg" "identifier_quote_char cfg \<noteq> CHR '' ''"
    "identifier_quote_char cfg \<noteq> CHR ''.''" using quote by auto
  fix dels
  assume "cfg_delete_batch_size cfg = None" "delete_sql_statements render cfg table batch keys = Inr dels"
  then obtain idxs idents where r: "resolve_key_columns cfg (rb_schema batch) keys ''delete'' = Inr (idxs, idents)"
    and dels: "collect_results (\<lambda>row. delete_sql_for_row render (target_table_identifier cfg table) batch row idxs idents)
       [0..<rb_num_rows batch] = Inr dels"
    by (auto simp: delete_sql_statements_def Let_def result_simps split: if_splits)
  note r' = resolve_key_columns_ok[OF r]
  show "map (read_delete (identifier_quote_char cfg)) dels
      = map (\<lambda>row. Some (qualifiers cfg @ [table], key_values render batch keys row)) [0..<rb_num_rows batch]"
    by (rule collect_results_reads[OF dels], rule read_delete_row[OF _ render q keys r'(2)]) (simp add: r'(1))
next
  have q: "identifier_quote_char cfg = identifier_quote_char cfg" "identifier_quote_char cfg \<noteq> CHR '' ''"
    "identifier_quote_char cfg \<noteq> CHR ''.''" using quote by auto
  fix upds
  assume "update_sql_statements render cfg table batch keys = Inr upds"
  then obtain idxs idents where r: "resolve_key_columns cfg (rb_schema batch) keys ''update'' = Inr (idxs, idents)"
    and upds: "collect_results (\<lambda>row. update_sql_for_row render table (target_table_identifier cfg table) batch row idxs idents
       (non_key_update_columns cfg (rb_schema batch) keys)) [0..<rb_num_rows batch] = Inr upds"
    by (auto simp: update_sql_statements_def Let_def result_simps split: if_splits)
  note r' = resolve_key_columns_ok[OF r]
  show "map (read_update (identifier_quote_char cfg)) upds
      = map (\<lambda>row. Some (qualifiers cfg @ [table], set_values render batch keys row, key_values render batch keys row)) [0..<rb_num_rows batch]"
    by (rule collect_results_reads[OF upds], rule read_update_row[OF _ render q keys r'(2)]) (simp add: r'(1))
qed

text \<open>A rendering for the witnesses: integers in decimal, text as it is.\<close>

fun demo_render :: render where
  "demo_render a row =
     (case arr_cells a ! row of
        Some (CInt i) \<Rightarrow> if kind_of_type (arr_type a) \<in> {Plain, Big, Quoted} then Inr (show_int i) else Inl ''type''
      | Some (CStr s) \<Rightarrow> if kind_of_type (arr_type a) = Quoted then Inr s else Inl ''type''
      | _ \<Rightarrow> Inl ''type'')"

lemma show_int_plain: "plain_text (show_int i)"
proof -
  have d: "c \<in> set (show_nat n) \<Longrightarrow> is_digit c" for c n using show_nat_digits[of n] by (simp add: list_all_iff)
  have "\<not> is_digit (CHR '' '')" "\<not> is_digit (CHR '','')" "\<not> is_digit (CHR 39)" "\<not> is_digit (CHR ''N'')" by (simp_all add: is_digit_def)
  then have "CHR '' '' \<notin> set (show_int i)" "CHR '','' \<notin> set (show_int i)" "CHR 39 \<notin> set (show_int i)" "CHR ''N'' \<notin> set (show_int i)"
    using d by (auto simp: show_int_def)
  moreover have "show_int i \<noteq> []" by (simp add: show_int_def)
  ultimately show ?thesis by (auto simp: plain_text_def)
qed

lemma demo_render_ok: "render_ok demo_render"
  by (auto simp: render_ok_def show_int_plain split: option.splits cell.splits if_splits)

definition demo_config :: adbc_config where
  "demo_config = \<lparr>target_db_catalog = None, target_db_schema = Some ''public'', identifier_quote_char = CHR 34,
     bigint_suffix = False, update_strategy = Statement, reuse_bulk_ingest_streams = True,
     flush_stream_before_upsert = False, staging_adapter = False, cfg_max_ingest_bytes = 1000,
     cfg_delete_batch_size = None, cfg_analyze_staging = False\<rparr>"

definition demo_rows :: record_batch where
  "demo_rows = \<lparr>rb_schema = [\<lparr>fld_name = ''id'', fld_type = DInt64, fld_nullable = False\<rparr>,
       \<lparr>fld_name = ''name'', fld_type = DUtf8, fld_nullable = True\<rparr>],
     rb_columns = [\<lparr>arr_type = DInt64, arr_cells = [Some (CInt 7), Some (CInt (- 8))]\<rparr>,
       \<lparr>arr_type = DUtf8, arr_cells = [Some (CStr ([CHR 39] @ '' OR 1=1'')), None]\<rparr>],
     rb_num_rows = 2\<rparr>"

theorem change_statements_read_back_witness:
  "\<exists>dels upds. delete_sql_statements demo_render demo_config ''items'' demo_rows [''id''] = Inr dels
     \<and> update_sql_statements demo_render demo_config ''items'' demo_rows [''id''] = Inr upds
     \<and> map (read_delete (CHR 34)) dels
       = map (\<lambda>row. Some (qualifiers demo_config @ [''items''], key_values demo_render demo_rows [''id''] row)) [0, 1]
     \<and> map (read_update (CHR 34)) upds
       = map (\<lambda>row. Some (qualifiers demo_config @ [''items''], set_values demo_render demo_rows [''id''] row,
               key_values demo_render demo_rows [''id''] row)) [0, 1]"
proof -
  have "\<not> isl (delete_sql_statements demo_render demo_config ''items'' demo_rows [''id''])" by code_simp
  then obtain dels where dels: "delete_sql_statements demo_render demo_config ''items'' demo_rows [''id''] = Inr dels"
    by (auto simp: sum.disc_eq_case split: sum.splits)
  have "\<not> isl (update_sql_statements demo_render demo_config ''items'' demo_rows [''id''])" by code_simp
  then obtain upds where upds: "update_sql_statements demo_render demo_config ''items'' demo_rows [''id''] = Inr upds"
    by (auto simp: sum.disc_eq_case split: sum.splits)
  have cfg: "identifier_quote_char demo_config \<in> {CHR 34, CHR 96}" "cfg_delete_batch_size demo_config = None"
    "identifier_quote_char demo_config = CHR 34" by (simp_all add: demo_config_def)
  have "[0..<rb_num_rows demo_rows] = [0, 1]" by (simp add: demo_rows_def upt_rec)
  then show ?thesis
    using change_statements_read_back[OF demo_render_ok cfg(1), of "[''id'']" "''items''" demo_rows] cfg(2) dels upds unfolding cfg(3) by auto
qed

end
