(* ===== verification/AdbcIngest.thy ===== *)
theory AdbcIngest
  imports AdbcSql
begin

text \<open>
  Bulk ingest of \<^verbatim>\<open>crates/etl/src/sink/adbc.rs\<close>: splitting a batch that is too large to send, retrying in
  halves when the server refuses a message, and the fallbacks around them. The database behind
  the driver is an abstract state. Error messages are shortened: the code adds quotes, the name of the ingest
  target and hints on the configuration.
\<close>

subsection \<open>The driver\<close>

text \<open>
  The ADBC connection (\<^verbatim>\<open>AdbcConnection\<close> of \<^verbatim>\<open>adbc_client\<close> over the foreign driver) and what Arrow says
  about sizes, as arguments on which nothing is assumed. A call returns its result and the
  database after it. \<open>ae_worker_exited\<close> and \<open>ae_refuses\<close> say whether the
  worker of a stream that was given some batches has finished, and whether its channel is closed.
\<close>

record 'd adbc_env =
  ae_connect :: "'d \<Rightarrow> unit result"
  ae_ingest :: "'d \<Rightarrow> string \<Rightarrow> string option \<Rightarrow> string option \<Rightarrow> record_batch \<Rightarrow> unit result \<times> 'd"
  ae_ingest_stream :: "'d \<Rightarrow> string \<Rightarrow> string option \<Rightarrow> string option \<Rightarrow> record_batch list \<Rightarrow> unit result \<times> 'd"
  ae_execute :: "'d \<Rightarrow> string \<Rightarrow> unit result \<times> 'd"
  ae_create_staging :: "'d \<Rightarrow> string \<Rightarrow> string \<Rightarrow> unit result \<times> 'd"
  ae_now_ms :: "'d \<Rightarrow> nat"
  ae_worker_exited :: "'d \<Rightarrow> string \<Rightarrow> record_batch list \<Rightarrow> bool"
  ae_refuses :: "'d \<Rightarrow> string \<Rightarrow> record_batch list \<Rightarrow> bool"
  ae_join_error :: "'d \<Rightarrow> string \<Rightarrow> record_batch list \<Rightarrow> string option"
  ae_mem_size :: "array \<Rightarrow> nat"
  ae_ipc_size :: "record_batch \<Rightarrow> nat result"
  ae_render :: render

text \<open>
  The log of a run: the rows handed to ingest calls that succeeded, each with the catalog, schema
  and table of its call, and the statements that were executed with success. What the client
  does to a row below such a call (it casts some column types for some drivers) and what a call
  that failed may have left in the database are not part of it.
\<close>

datatype effect = Row "string option" "string option" string "cell option list" | Stmt string

definition ingested :: "string \<Rightarrow> string option \<Rightarrow> string option \<Rightarrow> record_batch list \<Rightarrow> effect list" where
  "ingested table cat sch bs = map (Row cat sch table) (concat (map rows bs))"

text \<open>Any environment, with the log of its successful calls kept beside the database.\<close>

definition logging :: "effect list \<Rightarrow> effect list \<Rightarrow> 'a result \<times> 'd \<Rightarrow> 'a result \<times> 'd \<times> effect list" where
  "logging l es x = (case x of (r, d) \<Rightarrow> (r, d, l @ (if isl r then [] else es)))"

definition logged :: "'d adbc_env \<Rightarrow> ('d \<times> effect list) adbc_env" where
  "logged E = \<lparr>ae_connect = (\<lambda>(d, l). ae_connect E d),
     ae_ingest = (\<lambda>(d, l) t c s b. logging l (ingested t c s [b]) (ae_ingest E d t c s b)),
     ae_ingest_stream = (\<lambda>(d, l) t c s bs. logging l (ingested t c s bs) (ae_ingest_stream E d t c s bs)),
     ae_execute = (\<lambda>(d, l) sql. logging l [Stmt sql] (ae_execute E d sql)),
     ae_create_staging = (\<lambda>(d, l) t st. logging l [] (ae_create_staging E d t st)),
     ae_now_ms = (\<lambda>(d, l). ae_now_ms E d), ae_worker_exited = (\<lambda>(d, l). ae_worker_exited E d),
     ae_refuses = (\<lambda>(d, l). ae_refuses E d), ae_join_error = (\<lambda>(d, l). ae_join_error E d),
     ae_mem_size = ae_mem_size E, ae_ipc_size = ae_ipc_size E, ae_render = ae_render E\<rparr>"

lemma logged_sizes [simp]:
  "ae_mem_size (logged E) = ae_mem_size E" "ae_ipc_size (logged E) = ae_ipc_size E" "ae_render (logged E) = ae_render E"
  by (simp_all add: logged_def)

text \<open>\<open>applied\<close> accounts for the successful calls of an environment.\<close>

definition driver_ok :: "'d adbc_env \<Rightarrow> ('d \<Rightarrow> effect list) \<Rightarrow> bool" where
  "driver_ok E applied \<longleftrightarrow>
     (\<forall>d t c s b r d'. ae_ingest E d t c s b = (r, d') \<longrightarrow>
        applied d' = applied d @ (if isl r then [] else ingested t c s [b]))
   \<and> (\<forall>d t c s bs r d'. ae_ingest_stream E d t c s bs = (r, d') \<longrightarrow>
        applied d' = applied d @ (if isl r then [] else ingested t c s bs))
   \<and> (\<forall>d sql r d'. ae_execute E d sql = (r, d') \<longrightarrow>
        applied d' = applied d @ (if isl r then [] else [Stmt sql]))
   \<and> (\<forall>d t st r d'. ae_create_staging E d t st = (r, d') \<longrightarrow> applied d' = applied d)"

lemma logged_ok: "driver_ok (logged E) snd"
  by (auto simp: driver_ok_def logged_def logging_def split: prod.splits)

lemma driver_okD:
  assumes "driver_ok E applied"
  shows "ae_ingest E d t c s b = (r, d') \<Longrightarrow> applied d' = applied d @ (if isl r then [] else ingested t c s [b])"
    "ae_ingest_stream E d t c s bs = (r, d') \<Longrightarrow> applied d' = applied d @ (if isl r then [] else ingested t c s bs)"
    "ae_execute E d sql = (r, d') \<Longrightarrow> applied d' = applied d @ (if isl r then [] else [Stmt sql])"
    "ae_create_staging E d t st = (r, d') \<Longrightarrow> applied d' = applied d"
  using assms unfolding driver_ok_def by (elim conjE; metis)+

subsection \<open>Sizes\<close>

definition saturating_mul :: "nat \<Rightarrow> nat \<Rightarrow> nat" where
  "saturating_mul a b = min (a * b) u64_max"

definition approx_serialized_batch_size :: "'d adbc_env \<Rightarrow> record_batch \<Rightarrow> nat" where
  "approx_serialized_batch_size E batch = sum_list (map (ae_mem_size E) (rb_columns batch))"

definition approx_likely_safe :: "nat \<Rightarrow> nat \<Rightarrow> bool" where
  "approx_likely_safe approx_bytes max_bytes \<longleftrightarrow> approx_bytes \<le> saturating_mul max_bytes 8 div 10"

definition approx_likely_too_large :: "nat \<Rightarrow> nat \<Rightarrow> bool" where
  "approx_likely_too_large approx_bytes max_bytes \<longleftrightarrow> approx_bytes \<ge> saturating_mul max_bytes 12 div 10"

text \<open>The share of \<open>len\<close> rows in the size of the batch.\<close>

definition candidate_bytes :: "'d adbc_env \<Rightarrow> record_batch \<Rightarrow> nat \<Rightarrow> nat" where
  "candidate_bytes E batch len =
     saturating_mul (approx_serialized_batch_size E batch) len div rb_num_rows batch"

subsection \<open>Splitting\<close>

text \<open>The inner loop: the longest accepted slice from \<open>start\<close>, halving its length.\<close>

function accept_slice ::
  "'d adbc_env \<Rightarrow> kernels \<Rightarrow> record_batch \<Rightarrow> nat \<Rightarrow> nat \<Rightarrow> nat \<Rightarrow> record_batch option result" where
  "accept_slice E K batch max_bytes start stop =
     (if stop \<le> start then Inr None
      else let len = stop - start
           in if approx_likely_too_large (candidate_bytes E batch len) max_bytes
              then accept_slice E K batch max_bytes start (start + len div 2)
              else let candidate = k_slice K batch start len
                   in if approx_likely_safe (candidate_bytes E batch len) max_bytes then Inr (Some candidate)
                      else and_then (ae_ipc_size E candidate)
                             (\<lambda>exact_size. if exact_size \<le> max_bytes then Inr (Some candidate)
                                else accept_slice E K batch max_bytes start (start + len div 2)))"
  by pat_completeness auto
termination by (relation "measure (\<lambda>(E, K, batch, mx, start, stop). stop - start)") auto

declare accept_slice.simps [simp del]

definition SINGLE_ROW_TOO_LARGE :: string where
  "SINGLE_ROW_TOO_LARGE = ''Single-row batch exceeds max ingest payload''"

text \<open>The outer loop; \<open>fuel\<close> bounds its turns and \<open>None\<close> is running out of it.\<close>

fun split_size_loop ::
  "'d adbc_env \<Rightarrow> kernels \<Rightarrow> record_batch \<Rightarrow> nat \<Rightarrow> nat \<Rightarrow> nat \<Rightarrow> record_batch list result option" where
  "split_size_loop E K batch max_bytes 0 start = None"
| "split_size_loop E K batch max_bytes (Suc fuel) start =
     (if start < rb_num_rows batch
      then case accept_slice E K batch max_bytes start (rb_num_rows batch) of
             Inl e \<Rightarrow> Some (Inl e)
           | Inr None \<Rightarrow> Some (Inl SINGLE_ROW_TOO_LARGE)
           | Inr (Some accepted) \<Rightarrow>
               map_option (\<lambda>r. and_then r (\<lambda>out. Inr (accepted # out)))
                 (split_size_loop E K batch max_bytes fuel (start + rb_num_rows accepted))
      else Some (Inr []))"

definition split_for_size :: "'d adbc_env \<Rightarrow> kernels \<Rightarrow> record_batch \<Rightarrow> nat \<Rightarrow> record_batch list result option" where
  "split_for_size E K batch max_bytes = split_size_loop E K batch max_bytes (Suc (rb_num_rows batch)) 0"

text \<open>The size test in front of a split: the batch may go out whole.\<close>

definition goes_whole :: "'d adbc_env \<Rightarrow> record_batch \<Rightarrow> nat \<Rightarrow> bool result" where
  "goes_whole E batch max_bytes =
     (let approx_size = approx_serialized_batch_size E batch
      in if approx_likely_safe approx_size max_bytes then Inr True
         else if \<not> approx_likely_too_large approx_size max_bytes
         then and_then (ae_ipc_size E batch) (\<lambda>exact_size. Inr (exact_size \<le> max_bytes))
         else Inr False)"

definition split_insert_batch_for_ingest ::
  "'d adbc_env \<Rightarrow> kernels \<Rightarrow> adbc_config \<Rightarrow> record_batch \<Rightarrow> record_batch list result option" where
  "split_insert_batch_for_ingest E K cfg batch =
     (case goes_whole E batch (cfg_max_ingest_bytes cfg) of
        Inl e \<Rightarrow> Some (Inl e)
      | Inr True \<Rightarrow> Some (Inr [batch])
      | Inr False \<Rightarrow> split_for_size E K batch (cfg_max_ingest_bytes cfg))"

subsection \<open>Retrying\<close>

fun contains_str :: "string \<Rightarrow> string \<Rightarrow> bool" where
  "contains_str pat [] \<longleftrightarrow> pat = []"
| "contains_str pat (c # cs) \<longleftrightarrow> take (length pat) (c # cs) = pat \<or> contains_str pat cs"

definition is_message_too_large_error :: "string \<Rightarrow> bool" where
  "is_message_too_large_error message \<longleftrightarrow>
     contains_str ''ResourceExhausted'' message \<or> contains_str ''message larger than max'' message"

definition non_empty :: "string option \<Rightarrow> string option" where
  "non_empty v = (case v of Some s \<Rightarrow> if s = [] then None else Some s | None \<Rightarrow> None)"

definition ingest_failed :: "string \<Rightarrow> string \<Rightarrow> string" where
  "ingest_failed table message = ''ADBC bulk ingest failed for source table '' @ table @ '': '' @ message"

text \<open>The call with its second attempt when a target is configured.\<close>

definition try_ingest :: "'d adbc_env \<Rightarrow> adbc_config \<Rightarrow> string \<Rightarrow> record_batch \<Rightarrow> 'd \<Rightarrow> unit result \<times> 'd" where
  "try_ingest E cfg table batch d =
     (let cat = non_empty (target_db_catalog cfg); sch = non_empty (target_db_schema cfg)
      in if cat \<noteq> None \<or> sch \<noteq> None
         then case ae_ingest E d (target_table_ingest_name table) cat sch batch of
                (Inr u, d') \<Rightarrow> (Inr u, d')
              | (Inl e, d') \<Rightarrow>
                  if is_message_too_large_error e then (Inl e, d') else ae_ingest E d' table cat sch batch
         else ae_ingest E d table cat sch batch)"

fun bulk_ingest_with_retry ::
  "'d adbc_env \<Rightarrow> kernels \<Rightarrow> adbc_config \<Rightarrow> string \<Rightarrow> nat \<Rightarrow> record_batch \<Rightarrow> 'd \<Rightarrow> (unit result \<times> 'd) option" where
  "bulk_ingest_with_retry E K cfg table 0 batch d = None"
| "bulk_ingest_with_retry E K cfg table (Suc fuel) batch d =
     (case try_ingest E cfg table batch d of
        (Inr u, d') \<Rightarrow> Some (Inr (), d')
      | (Inl message, d') \<Rightarrow>
          if is_message_too_large_error message
          then if rb_num_rows batch \<le> 1
               then Some (Inl (ingest_failed table (''single-row batch still exceeds FlightSQL message limit: '' @ message)), d')
               else let mid = rb_num_rows batch div 2
                    in case bulk_ingest_with_retry E K cfg table fuel (k_slice K batch 0 mid) d' of
                         None \<Rightarrow> None
                       | Some (Inl e, d1) \<Rightarrow> Some (Inl e, d1)
                       | Some (Inr _, d1) \<Rightarrow>
                           bulk_ingest_with_retry E K cfg table fuel (k_slice K batch mid (rb_num_rows batch - mid)) d1
          else Some (Inl (ingest_failed table message), d'))"

definition retry_ingest :: "'d adbc_env \<Rightarrow> kernels \<Rightarrow> adbc_config \<Rightarrow> string \<Rightarrow> record_batch \<Rightarrow> 'd \<Rightarrow> (unit result \<times> 'd) option" where
  "retry_ingest E K cfg table batch d = bulk_ingest_with_retry E K cfg table (Suc (rb_num_rows batch)) batch d"

fun retry_all :: "'d adbc_env \<Rightarrow> kernels \<Rightarrow> adbc_config \<Rightarrow> string \<Rightarrow> record_batch list \<Rightarrow> 'd \<Rightarrow> (unit result \<times> 'd) option" where
  "retry_all E K cfg table [] d = Some (Inr (), d)"
| "retry_all E K cfg table (b # bs) d =
     (case retry_ingest E K cfg table b d of
        None \<Rightarrow> None
      | Some (Inl e, d') \<Rightarrow> Some (Inl e, d')
      | Some (Inr _, d') \<Rightarrow> retry_all E K cfg table bs d')"

text \<open>The first attempt passes no catalog and no schema, even when they are configured.\<close>

definition try_ingest_stream :: "'d adbc_env \<Rightarrow> adbc_config \<Rightarrow> string \<Rightarrow> record_batch list \<Rightarrow> 'd \<Rightarrow> unit result \<times> 'd" where
  "try_ingest_stream E cfg table batches d =
     (let cat = non_empty (target_db_catalog cfg); sch = non_empty (target_db_schema cfg)
      in if cat \<noteq> None \<or> sch \<noteq> None
         then case ae_ingest_stream E d (target_table_ingest_name table) None None batches of
                (Inr u, d') \<Rightarrow> (Inr u, d')
              | (Inl e, d') \<Rightarrow>
                  if is_message_too_large_error e then (Inl e, d') else ae_ingest_stream E d' table cat sch batches
         else ae_ingest_stream E d table cat sch batches)"

definition bulk_ingest_stream_for_batches ::
  "'d adbc_env \<Rightarrow> kernels \<Rightarrow> adbc_config \<Rightarrow> string \<Rightarrow> record_batch list \<Rightarrow> 'd \<Rightarrow> (unit result \<times> 'd) option" where
  "bulk_ingest_stream_for_batches E K cfg table batches d =
     (if batches = [] then Some (Inr (), d)
      else case try_ingest_stream E cfg table batches d of
             (Inr _, d') \<Rightarrow> Some (Inr (), d')
           | (Inl message, d') \<Rightarrow>
               if is_message_too_large_error message then retry_all E K cfg table batches d'
               else Some (Inl (''ADBC stream bulk ingest failed for source table '' @ table @ '': '' @ message), d'))"

definition ingest_insert_batch ::
  "'d adbc_env \<Rightarrow> kernels \<Rightarrow> adbc_config \<Rightarrow> string \<Rightarrow> record_batch \<Rightarrow> 'd \<Rightarrow> (unit result \<times> 'd) option" where
  "ingest_insert_batch E K cfg table batch d =
     (case goes_whole E batch (cfg_max_ingest_bytes cfg) of
        Inl e \<Rightarrow> Some (Inl e, d)
      | Inr True \<Rightarrow> retry_ingest E K cfg table batch d
      | Inr False \<Rightarrow>
          (case split_for_size E K batch (cfg_max_ingest_bytes cfg) of
             None \<Rightarrow> None
           | Some (Inl e) \<Rightarrow> Some (Inl e, d)
           | Some (Inr split_batches) \<Rightarrow> bulk_ingest_stream_for_batches E K cfg table split_batches d))"

subsection \<open>Pieces\<close>

text \<open>A slice the loop accepts, and a row it gives up on.\<close>

definition piece_accepted :: "'d adbc_env \<Rightarrow> record_batch \<Rightarrow> nat \<Rightarrow> record_batch \<Rightarrow> bool" where
  "piece_accepted E batch max_bytes p \<longleftrightarrow> 0 < rb_num_rows p \<and>
     (approx_likely_safe (candidate_bytes E batch (rb_num_rows p)) max_bytes
      \<or> (\<exists>m \<le> max_bytes. ae_ipc_size E p = Inr m))"

definition row_rejected :: "'d adbc_env \<Rightarrow> kernels \<Rightarrow> record_batch \<Rightarrow> nat \<Rightarrow> nat \<Rightarrow> bool" where
  "row_rejected E K batch max_bytes i \<longleftrightarrow>
     approx_likely_too_large (candidate_bytes E batch 1) max_bytes
   \<or> (\<exists>m > max_bytes. ae_ipc_size E (k_slice K batch i 1) = Inr m)"

lemma accept_slice_some:
  assumes "accept_slice E K batch mx start stop = Inr (Some p)" "slice_spec (k_slice K)" "stop \<le> rb_num_rows batch"
  shows "\<exists>len. 0 < len \<and> start + len \<le> stop \<and> p = k_slice K batch start len \<and> piece_accepted E batch mx p"
  using assms
proof (induction E K batch mx start stop rule: accept_slice.induct)
  case (1 E K batch mx start stop)
  let ?n = "stop - start" and ?half = "start + (stop - start) div 2"
  have lt: "start < stop" using 1(3) by (subst (asm) accept_slice.simps) (auto split: if_splits)
  have fits: "rb_num_rows (k_slice K batch start ?n) = ?n" using 1(4,5) lt by (simp add: slice_simps)
  have rec: "\<exists>len. 0 < len \<and> start + len \<le> stop \<and> p = k_slice K batch start len \<and> piece_accepted E batch mx p"
    if "\<exists>len. 0 < len \<and> start + len \<le> ?half \<and> p = k_slice K batch start len \<and> piece_accepted E batch mx p"
  proof -
    from that obtain len where "0 < len" "start + len \<le> ?half" "p = k_slice K batch start len" "piece_accepted E batch mx p" by blast
    moreover have "?half \<le> stop" using lt by linarith
    ultimately show ?thesis by (intro exI[of _ len]) linarith
  qed
  have half: "?half \<le> rb_num_rows batch" using 1(5) lt by linarith
  show ?case
  proof (cases "approx_likely_too_large (candidate_bytes E batch ?n) mx")
    case True
    then have "accept_slice E K batch mx start ?half = Inr (Some p)"
      using 1(3) lt by (subst (asm) accept_slice.simps) (simp add: Let_def)
    then show ?thesis using 1(1)[OF _ refl True _ 1(4) half] lt by (intro rec) simp
  next
    case False
    consider "p = k_slice K batch start ?n" "piece_accepted E batch mx p" | m where "ae_ipc_size E (k_slice K batch start ?n) = Inr m" "\<not> m \<le> mx"
        "\<not> approx_likely_safe (candidate_bytes E batch ?n) mx" "accept_slice E K batch mx start ?half = Inr (Some p)"
      using 1(3) lt False fits
      by (subst (asm) accept_slice.simps) (fastforce simp: Let_def piece_accepted_def result_simps split: if_splits)
    then show ?thesis
    proof cases
      case 1
      then show ?thesis using lt by (intro exI[of _ ?n]) simp
    next
      case (2 m)
      then show ?thesis using "1.IH"(2)[OF _ refl False refl 2(3) 2(1) 2(2) 2(4) 1(4) half] lt by (intro rec) simp
    qed
  qed
qed

lemma accept_slice_none:
  assumes "accept_slice E K batch mx start stop = Inr None" "start < stop"
  shows "row_rejected E K batch mx start"
  using assms
proof (induction E K batch mx start stop rule: accept_slice.induct)
  case (1 E K batch mx start stop)
  let ?n = "stop - start" and ?half = "start + (stop - start) div 2"
  consider "accept_slice E K batch mx start ?half = Inr None" "approx_likely_too_large (candidate_bytes E batch ?n) mx"
    | m where "accept_slice E K batch mx start ?half = Inr None" "\<not> approx_likely_too_large (candidate_bytes E batch ?n) mx"
        "\<not> approx_likely_safe (candidate_bytes E batch ?n) mx" "ae_ipc_size E (k_slice K batch start ?n) = Inr m" "\<not> m \<le> mx"
    using 1(3,4) by (subst (asm) accept_slice.simps) (fastforce simp: Let_def result_simps split: if_splits)
  then show ?case
  proof cases
    case a: 1
    show ?thesis
    proof (cases "?n = 1")
      case True
      then show ?thesis using a by (simp add: row_rejected_def)
    next
      case False
      then have "start < ?half" using 1(4) by linarith
      then show ?thesis using 1(1)[OF _ refl a(2) a(1)] 1(4) by simp
    qed
  next
    case (2 m)
    show ?thesis
    proof (cases "?n = 1")
      case True
      then show ?thesis using 2(4,5) by (auto simp: row_rejected_def not_le)
    next
      case False
      then have "start < ?half" using 1(4) by linarith
      then show ?thesis using "1.IH"(2)[OF _ refl 2(2) refl 2(3,4,5,1)] 1(4) by simp
    qed
  qed
qed

lemma accept_slice_error:
  assumes "accept_slice E K batch mx start stop = Inl e"
  shows "\<exists>len. 0 < len \<and> start + len \<le> stop \<and> ae_ipc_size E (k_slice K batch start len) = Inl e"
  using assms
proof (induction E K batch mx start stop rule: accept_slice.induct)
  case (1 E K batch mx start stop)
  let ?n = "stop - start" and ?half = "start + (stop - start) div 2"
  have lt: "start < stop" using 1(3) by (subst (asm) accept_slice.simps) (auto split: if_splits)
  have rec: "\<exists>len. 0 < len \<and> start + len \<le> stop \<and> ae_ipc_size E (k_slice K batch start len) = Inl e"
    if "\<exists>len. 0 < len \<and> start + len \<le> ?half \<and> ae_ipc_size E (k_slice K batch start len) = Inl e"
  proof -
    have "?half \<le> stop" using lt by linarith
    then show ?thesis using that order_trans by blast
  qed
  consider "accept_slice E K batch mx start ?half = Inl e" "approx_likely_too_large (candidate_bytes E batch ?n) mx"
    | "ae_ipc_size E (k_slice K batch start ?n) = Inl e"
    | m where "accept_slice E K batch mx start ?half = Inl e" "\<not> approx_likely_too_large (candidate_bytes E batch ?n) mx"
        "\<not> approx_likely_safe (candidate_bytes E batch ?n) mx" "ae_ipc_size E (k_slice K batch start ?n) = Inr m" "\<not> m \<le> mx"
    using 1(3) lt by (subst (asm) accept_slice.simps)
      (cases "ae_ipc_size E (k_slice K batch start ?n)"; fastforce simp: Let_def split: if_splits)
  then show ?case
  proof cases
    case a: 1
    show ?thesis using 1(1)[OF _ refl a(2) a(1)] lt by (intro rec) simp
  next
    case 2
    then show ?thesis using lt by (intro exI[of _ ?n]) simp
  next
    case (3 m)
    show ?thesis using "1.IH"(2)[OF _ refl 3(2) refl 3(3,4,5,1)] lt by (intro rec) simp
  qed
qed

lemma split_size_pieces:
  assumes sl: "slice_spec (k_slice K)" and wf: "wf_batch batch"
    and "rb_num_rows batch - start < fuel" "start \<le> rb_num_rows batch"
  shows "\<exists>r. split_size_loop E K batch mx fuel start = Some r
     \<and> (\<forall>out. r = Inr out \<longrightarrow> concat (map rows out) = drop start (rows batch)
          \<and> (\<forall>p \<in> set out. wf_batch p \<and> rb_schema p = rb_schema batch \<and> piece_accepted E batch mx p
               \<and> (\<exists>i len. 0 < len \<and> i + len \<le> rb_num_rows batch \<and> p = k_slice K batch i len)))
     \<and> (\<forall>e. r = Inl e \<longrightarrow> (e = SINGLE_ROW_TOO_LARGE \<and> (\<exists>i < rb_num_rows batch. row_rejected E K batch mx i))
          \<or> (\<exists>i len. 0 < len \<and> i + len \<le> rb_num_rows batch \<and> ae_ipc_size E (k_slice K batch i len) = Inl e))"
  using assms(3,4)
proof (induction fuel arbitrary: start)
  case (Suc fuel)
  show ?case
  proof (cases "start < rb_num_rows batch")
    case False
    then show ?thesis using Suc.prems by simp
  next
    case lt: True
    consider e where "accept_slice E K batch mx start (rb_num_rows batch) = Inl e"
      | "accept_slice E K batch mx start (rb_num_rows batch) = Inr None"
      | p where "accept_slice E K batch mx start (rb_num_rows batch) = Inr (Some p)"
      by (metis option.exhaust sumE)
    then show ?thesis
    proof cases
      case (1 e)
      then show ?thesis using lt accept_slice_error[OF 1] by auto
    next
      case 2
      then show ?thesis using lt accept_slice_none[OF 2 lt] by auto
    next
      case (3 p)
      obtain len where len: "0 < len" "start + len \<le> rb_num_rows batch" "p = k_slice K batch start len" "piece_accepted E batch mx p"
        using accept_slice_some[OF 3 sl] by auto
      have p: "rb_num_rows p = len" "wf_batch p" "rb_schema p = rb_schema batch" "rows p = take len (drop start (rows batch))"
        using len sl wf by (simp_all add: slice_simps wf_slice rows_slice)
      obtain r where r: "split_size_loop E K batch mx fuel (start + len) = Some r"
        and ok: "\<forall>out. r = Inr out \<longrightarrow> concat (map rows out) = drop (start + len) (rows batch)
          \<and> (\<forall>p \<in> set out. wf_batch p \<and> rb_schema p = rb_schema batch \<and> piece_accepted E batch mx p
               \<and> (\<exists>i len. 0 < len \<and> i + len \<le> rb_num_rows batch \<and> p = k_slice K batch i len))"
        and err: "\<forall>e. r = Inl e \<longrightarrow> (e = SINGLE_ROW_TOO_LARGE \<and> (\<exists>i < rb_num_rows batch. row_rejected E K batch mx i))
          \<or> (\<exists>i len. 0 < len \<and> i + len \<le> rb_num_rows batch \<and> ae_ipc_size E (k_slice K batch i len) = Inl e)"
        using Suc.IH[of "start + len"] Suc.prems len by fastforce
      have "take len (drop start (rows batch)) @ drop (start + len) (rows batch) = drop start (rows batch)"
        by (metis append_take_drop_id drop_drop add.commute)
      then show ?thesis using 3 lt r ok err p len by (cases r) auto
    qed
  qed
qed simp

text \<open>The share of \<open>len\<close> rows in the estimated size of the batch, rounded down.\<close>

definition estimate :: "'d adbc_env \<Rightarrow> record_batch \<Rightarrow> nat \<Rightarrow> nat" where
  "estimate E batch len = sum_list (map (ae_mem_size E) (rb_columns batch)) * len div rb_num_rows batch"

text \<open>
  The bounds in numbers: the exact size of a piece is at most the limit, or its estimate is at most
  80 percent of it; a refused row is larger than the limit, or its estimate is at least 120 percent
  of it, rounded down.
\<close>

definition piece_fits :: "'d adbc_env \<Rightarrow> record_batch \<Rightarrow> nat \<Rightarrow> record_batch \<Rightarrow> bool" where
  "piece_fits E batch max_bytes p \<longleftrightarrow> 0 < rb_num_rows p \<and>
     ((\<exists>m. ae_ipc_size E p = Inr m \<and> m \<le> max_bytes) \<or> 10 * estimate E batch (rb_num_rows p) \<le> 8 * max_bytes)"

definition row_refused :: "'d adbc_env \<Rightarrow> kernels \<Rightarrow> record_batch \<Rightarrow> nat \<Rightarrow> nat \<Rightarrow> bool" where
  "row_refused E K batch max_bytes i \<longleftrightarrow>
     (\<exists>m. ae_ipc_size E (k_slice K batch i 1) = Inr m \<and> max_bytes < m) \<or> 12 * max_bytes < 10 * estimate E batch 1 + 10"

text \<open>The estimates and the limit, scaled as the code scales them, stay within 64 bits.\<close>

definition sizes_fit :: "'d adbc_env \<Rightarrow> record_batch \<Rightarrow> nat \<Rightarrow> bool" where
  "sizes_fit E batch max_bytes \<longleftrightarrow>
     sum_list (map (ae_mem_size E) (rb_columns batch)) * rb_num_rows batch \<le> u64_max \<and> 12 * max_bytes \<le> u64_max"

text \<open>The estimate of every slice is within 20 percent of its exact size.\<close>

definition estimate_close :: "'d adbc_env \<Rightarrow> kernels \<Rightarrow> record_batch \<Rightarrow> bool" where
  "estimate_close E K batch \<longleftrightarrow> (\<forall>i len. 0 < len \<and> i + len \<le> rb_num_rows batch \<longrightarrow>
     (\<exists>m. ae_ipc_size E (k_slice K batch i len) = Inr m
        \<and> 8 * m \<le> 10 * estimate E batch len \<and> 10 * estimate E batch len \<le> 12 * m))"

lemma candidate_is_estimate:
  assumes "sizes_fit E batch mx" "len \<le> rb_num_rows batch"
  shows "candidate_bytes E batch len = estimate E batch len"
proof -
  let ?a = "sum_list (map (ae_mem_size E) (rb_columns batch))"
  have "?a * len \<le> ?a * rb_num_rows batch" using assms(2) by simp
  then have "?a * len \<le> u64_max" using assms(1) unfolding sizes_fit_def by linarith
  then have "min (?a * len) u64_max = ?a * len" by (rule min_absorb1)
  then show ?thesis by (simp only: candidate_bytes_def estimate_def saturating_mul_def approx_serialized_batch_size_def)
qed

lemma safe_estimate:
  assumes "approx_likely_safe a mx"
  shows "10 * a \<le> 8 * mx"
proof -
  have "a \<le> min (mx * 8) u64_max div 10" using assms by (simp only: approx_likely_safe_def saturating_mul_def)
  also have "\<dots> \<le> mx * 8 div 10" by (intro div_le_mono) simp
  finally show ?thesis by linarith
qed

lemma too_large_estimate:
  assumes "12 * mx \<le> u64_max" "approx_likely_too_large a mx"
  shows "12 * mx < 10 * a + 10"
proof -
  have "min (mx * 12) u64_max = mx * 12" using assms(1) by (intro min_absorb1) linarith
  then have "mx * 12 div 10 \<le> a" using assms(2) by (simp only: approx_likely_too_large_def saturating_mul_def)
  then show ?thesis by linarith
qed

lemma piece_accepted_fits:
  assumes "sizes_fit E batch mx" "piece_accepted E batch mx p" "rb_num_rows p \<le> rb_num_rows batch"
  shows "piece_fits E batch mx p"
  using assms(2) safe_estimate[of "estimate E batch (rb_num_rows p)" mx]
  unfolding piece_accepted_def piece_fits_def candidate_is_estimate[OF assms(1,3)] by blast

lemma row_rejected_refused:
  assumes "sizes_fit E batch mx" "row_rejected E K batch mx i" "i < rb_num_rows batch"
  shows "row_refused E K batch mx i"
proof -
  have one: "candidate_bytes E batch 1 = estimate E batch 1" using candidate_is_estimate[OF assms(1)] assms(3) by simp
  have "12 * mx \<le> u64_max" using assms(1) unfolding sizes_fit_def by blast
  from too_large_estimate[OF this] show ?thesis using assms(2) unfolding row_rejected_def row_refused_def one by blast
qed

lemma concat_member_length: "x \<in> set xs \<Longrightarrow> length (f x) \<le> length (concat (map f xs))"
  by (induction xs) auto

text \<open>
  C32. Splitting a batch for the wire always returns. It returns non-empty pieces that carry the
  batch's rows in order, each with an exact size of at most the limit or an estimate of at most
  80 percent of it, where the estimate is the piece's share of the memory the batch occupies; or it
  fails, and then the size of a slice could not be measured, or some single row is larger than
  the limit or estimated at 120 percent of it. Where the estimates are within 20 percent of the exact
  sizes, every piece is thus within the limit, and a batch is refused only if one of its rows
  alone fills it.
\<close>

theorem split_for_size_fits:
  assumes "kernels_ok K" and "wf_batch batch" and "sizes_fit E batch max_bytes"
  shows "\<exists>r. split_for_size E K batch max_bytes = Some r
     \<and> (case r of
          Inr out \<Rightarrow> concat (map rows out) = rows batch
            \<and> list_all (\<lambda>p. wf_batch p \<and> rb_schema p = rb_schema batch \<and> piece_fits E batch max_bytes p) out
            \<and> (estimate_close E K batch \<longrightarrow> list_all (\<lambda>p. \<exists>m. ae_ipc_size E p = Inr m \<and> m \<le> max_bytes) out)
        | Inl e \<Rightarrow> (e = SINGLE_ROW_TOO_LARGE \<and> (\<exists>i < rb_num_rows batch. row_refused E K batch max_bytes i
              \<and> (estimate_close E K batch \<longrightarrow> (\<exists>m. ae_ipc_size E (k_slice K batch i 1) = Inr m \<and> max_bytes \<le> m))))
            \<or> (\<exists>i len. 0 < len \<and> i + len \<le> rb_num_rows batch \<and> ae_ipc_size E (k_slice K batch i len) = Inl e))"
proof -
  obtain r where r: "split_for_size E K batch max_bytes = Some r"
    and ok: "\<And>out. r = Inr out \<Longrightarrow> concat (map rows out) = rows batch \<and> (\<forall>p \<in> set out. wf_batch p \<and> rb_schema p = rb_schema batch
        \<and> piece_accepted E batch max_bytes p \<and> (\<exists>i len. 0 < len \<and> i + len \<le> rb_num_rows batch \<and> p = k_slice K batch i len))"
    and err: "\<And>e. r = Inl e \<Longrightarrow> (e = SINGLE_ROW_TOO_LARGE \<and> (\<exists>i < rb_num_rows batch. row_rejected E K batch max_bytes i))
        \<or> (\<exists>i len. 0 < len \<and> i + len \<le> rb_num_rows batch \<and> ae_ipc_size E (k_slice K batch i len) = Inl e)"
    using split_size_pieces[OF kernels_okD(1)[OF assms(1)] assms(2), of 0 "Suc (rb_num_rows batch)" E max_bytes]
    unfolding split_for_size_def by auto
  have fits: "piece_fits E batch max_bytes p" if "r = Inr out" "p \<in> set out" for out p
  proof -
    have "length (rows p) \<le> length (rows batch)" using concat_member_length[OF that(2), of rows] ok[OF that(1)] by simp
    then show ?thesis using piece_accepted_fits[OF assms(3)] ok[OF that(1)] that(2) by simp
  qed
  have small: "\<exists>m. ae_ipc_size E p = Inr m \<and> m \<le> max_bytes" if h: "r = Inr out" "p \<in> set out" "estimate_close E K batch" for out p
  proof -
    obtain i len where p: "0 < len" "i + len \<le> rb_num_rows batch" "p = k_slice K batch i len" using ok[OF h(1)] h(2) by blast
    then have n: "rb_num_rows p = len" using kernels_okD(1)[OF assms(1)] by (simp add: slice_simps)
    obtain m where "ae_ipc_size E p = Inr m" "8 * m \<le> 10 * estimate E batch len"
      using h(3) p unfolding estimate_close_def by blast
    then show ?thesis using fits[OF h(1,2)] n unfolding piece_fits_def by auto
  qed
  have large: "row_refused E K batch max_bytes i
      \<and> (estimate_close E K batch \<longrightarrow> (\<exists>m. ae_ipc_size E (k_slice K batch i 1) = Inr m \<and> max_bytes \<le> m))"
    if "i < rb_num_rows batch" "row_rejected E K batch max_bytes i" for i
  proof -
    have ref: "row_refused E K batch max_bytes i" by (rule row_rejected_refused[OF assms(3) that(2,1)])
    moreover have "max_bytes \<le> m" if h: "ae_ipc_size E (k_slice K batch i 1) = Inr m" "10 * estimate E batch 1 \<le> 12 * m" for m
    proof -
      have "max_bytes < m \<or> 12 * max_bytes < 10 * estimate E batch 1 + 10" using ref h(1) unfolding row_refused_def by auto
      then show ?thesis using h(2) by linarith
    qed
    moreover have "\<exists>m. ae_ipc_size E (k_slice K batch i 1) = Inr m \<and> 10 * estimate E batch 1 \<le> 12 * m" if "estimate_close E K batch"
    proof -
      have "0 < (1::nat) \<and> i + 1 \<le> rb_num_rows batch" using \<open>i < rb_num_rows batch\<close> by simp
      then show ?thesis using that unfolding estimate_close_def by blast
    qed
    ultimately show ?thesis by blast
  qed
  show ?thesis using r ok fits small err large by (cases r) (auto simp: list_all_iff)
qed

subsection \<open>Retries\<close>

lemma ingested_single: "ingested t c s [b] = map (Row c s t) (rows b)"
  by (simp add: ingested_def)

lemma try_ingest_applies:
  assumes drv: "driver_ok E applied" and r: "try_ingest E cfg table batch d = (r, d')"
  shows "applied d' = applied d @ (if isl r then [] else
      map (Row (non_empty (target_db_catalog cfg)) (non_empty (target_db_schema cfg)) table) (rows batch))"
proof -
  define c s where cs: "c = non_empty (target_db_catalog cfg)" "s = non_empty (target_db_schema cfg)"
  obtain r1 d1 where one: "ae_ingest E d table c s batch = (r1, d1)" by force
  note a1 = driver_okD(1)[OF drv one]
  have "(r, d') = (r1, d1) \<or> isl r1 \<and> ae_ingest E d1 table c s batch = (r, d')"
  proof (cases "c \<noteq> None \<or> s \<noteq> None")
    case True
    then have "(r, d') = (case r1 of Inr u \<Rightarrow> (Inr u, d1)
        | Inl e \<Rightarrow> if is_message_too_large_error e then (Inl e, d1) else ae_ingest E d1 table c s batch)"
      using r unfolding try_ingest_def Let_def target_table_ingest_name_def cs[symmetric] if_P[OF True] one by simp
    then show ?thesis by (cases r1) (auto split: if_splits)
  next
    case False
    then show ?thesis using r unfolding try_ingest_def Let_def cs[symmetric] if_not_P[OF False] one by simp
  qed
  then consider "r = r1" "d' = d1" | "isl r1" "ae_ingest E d1 table c s batch = (r, d')" by blast
  then show ?thesis
  proof cases
    case 1
    then show ?thesis using a1 by (simp add: ingested_single cs)
  next
    case 2
    then show ?thesis using a1 driver_okD(1)[OF drv 2(2)] by (simp add: ingested_single cs)
  qed
qed

text \<open>The rows of a batch a call has applied: all of them when it succeeded, else a prefix.\<close>

definition applies_prefix :: "('d \<Rightarrow> effect list) \<Rightarrow> 'd \<Rightarrow> unit result \<Rightarrow> 'd \<Rightarrow> effect list \<Rightarrow> bool" where
  "applies_prefix applied d r d' es \<longleftrightarrow> (\<exists>k. applied d' = applied d @ take k es \<and> (\<not> isl r \<longrightarrow> length es \<le> k))"

lemma applies_prefix_Inr: "applies_prefix applied d (Inr u) d' es \<longleftrightarrow> applied d' = applied d @ es"
  by (auto simp: applies_prefix_def intro!: exI[of _ "length es"])

lemma applies_prefix_left: "applies_prefix applied d (Inl e) d' es \<Longrightarrow> applies_prefix applied d (Inl e) d' (es @ fs)"
  unfolding applies_prefix_def
proof (elim exE conjE)
  fix k assume "applied d' = applied d @ take k es"
  then show "\<exists>k. applied d' = applied d @ take k (es @ fs) \<and> (\<not> isl (Inl e :: unit result) \<longrightarrow> length (es @ fs) \<le> k)"
    by (intro exI[of _ "min k (length es)"]) (simp add: min_def)
qed

lemma applies_prefix_right:
  assumes "applies_prefix applied d (Inr u) d1 es" "applies_prefix applied d1 r d' fs"
  shows "applies_prefix applied d r d' (es @ fs)"
proof -
  from assms(2) obtain k where "applied d' = applied d1 @ take k fs" "\<not> isl r \<longrightarrow> length fs \<le> k"
    by (auto simp: applies_prefix_def)
  moreover have "applied d1 = applied d @ es" using assms(1) by (simp add: applies_prefix_Inr)
  ultimately show ?thesis unfolding applies_prefix_def by (intro exI[of _ "length es + k"]) simp
qed

definition at_target :: "adbc_config \<Rightarrow> string \<Rightarrow> record_batch \<Rightarrow> effect list" where
  "at_target cfg table batch =
     map (Row (non_empty (target_db_catalog cfg)) (non_empty (target_db_schema cfg)) table) (rows batch)"

lemma at_target_halves:
  assumes "slice_spec (k_slice K)" "wf_batch batch" "m \<le> rb_num_rows batch"
  shows "at_target cfg table (k_slice K batch 0 m) @ at_target cfg table (k_slice K batch m (rb_num_rows batch - m))
      = at_target cfg table batch"
  using assms by (simp add: at_target_def rows_slice flip: map_append take_map drop_map)

lemma bulk_ingest_with_retry_applies:
  assumes sl: "slice_spec (k_slice K)" and drv: "driver_ok E applied"
    and "wf_batch batch" "rb_num_rows batch < fuel"
  shows "\<exists>r d'. bulk_ingest_with_retry E K cfg table fuel batch d = Some (r, d')
     \<and> applies_prefix applied d r d' (at_target cfg table batch)"
  using assms(3,4)
proof (induction fuel arbitrary: batch d)
  case (Suc fuel)
  obtain r0 d0 where t: "try_ingest E cfg table batch d = (r0, d0)" by force
  note a = try_ingest_applies[OF drv t]
  let ?m = "rb_num_rows batch div 2"
  let ?l = "k_slice K batch 0 ?m" and ?r = "k_slice K batch ?m (rb_num_rows batch - ?m)"
  have none: "applies_prefix applied d (Inl e) d0 (at_target cfg table batch)" if "isl r0" for e
    using a that by (auto simp: applies_prefix_def intro!: exI[of _ 0])
  consider "\<not> isl r0" | e where "r0 = Inl e" "\<not> is_message_too_large_error e \<or> rb_num_rows batch \<le> 1"
    | e where "r0 = Inl e" "is_message_too_large_error e" "1 < rb_num_rows batch" by (cases r0) fastforce+
  then show ?case
  proof cases
    case 1
    then show ?thesis using t a by (cases r0) (auto simp: applies_prefix_Inr at_target_def)
  next
    case (2 e)
    then show ?thesis using t none by auto
  next
    case (3 e)
    have wf: "wf_batch ?l" "wf_batch ?r" using sl Suc.prems(1) by (simp_all add: wf_slice)
    have len: "rb_num_rows ?l < fuel" "rb_num_rows ?r < fuel" using sl Suc.prems(2) 3(3) by (simp_all add: slice_simps)
    have d0: "applied d0 = applied d" using a 3(1) by simp
    obtain rl d1 where l: "bulk_ingest_with_retry E K cfg table fuel ?l d0 = Some (rl, d1)"
      "applies_prefix applied d rl d1 (at_target cfg table ?l)"
      using Suc.IH[OF wf(1) len(1), of d0] d0 by (auto simp: applies_prefix_def)
    obtain rr d2 where r: "bulk_ingest_with_retry E K cfg table fuel ?r d1 = Some (rr, d2)"
      "applies_prefix applied d1 rr d2 (at_target cfg table ?r)"
      using Suc.IH[OF wf(2) len(2), of d1] by blast
    have halves: "at_target cfg table ?l @ at_target cfg table ?r = at_target cfg table batch"
      by (rule at_target_halves[OF sl Suc.prems(1)]) simp
    show ?thesis
    proof (cases rl)
      case (Inl e)
      then have "applies_prefix applied d (Inl e) d1 (at_target cfg table batch)"
        using l(2) unfolding halves[symmetric] by (intro applies_prefix_left) simp
      then show ?thesis using t 3 l Inl by (simp add: Let_def)
    next
      case (Inr u)
      then have "applies_prefix applied d rr d2 (at_target cfg table batch)"
        using l(2) r(2) unfolding halves[symmetric] by (intro applies_prefix_right) simp_all
      then show ?thesis using t 3 l r Inr by (simp add: Let_def)
    qed
  qed
qed simp

text \<open>A server that refuses nothing but messages of several rows that are too large.\<close>

definition patient :: "'d adbc_env \<Rightarrow> bool" where
  "patient E \<longleftrightarrow> (\<forall>d t c s b e d'. ae_ingest E d t c s b = (Inl e, d') \<longrightarrow>
     is_message_too_large_error e \<and> 1 < rb_num_rows b)"

lemma try_ingest_patient:
  assumes "patient E" "try_ingest E cfg table batch d = (Inl e, d')"
  shows "is_message_too_large_error e \<and> 1 < rb_num_rows batch"
proof -
  define c s where cs: "c = non_empty (target_db_catalog cfg)" "s = non_empty (target_db_schema cfg)"
  obtain r1 d1 where one: "ae_ingest E d table c s batch = (r1, d1)" by force
  have "r1 = Inl e"
  proof (cases "c \<noteq> None \<or> s \<noteq> None")
    case True
    have "(Inl e, d') = (case r1 of Inr u \<Rightarrow> (Inr u, d1)
        | Inl e \<Rightarrow> if is_message_too_large_error e then (Inl e, d1) else ae_ingest E d1 table c s batch)"
      using assms(2) unfolding try_ingest_def Let_def target_table_ingest_name_def cs[symmetric] if_P[OF True] one by simp
    then show ?thesis using assms(1) one unfolding patient_def by (cases r1) (fastforce split: if_splits)+
  next
    case False
    then show ?thesis using assms(2) unfolding try_ingest_def Let_def cs[symmetric] if_not_P[OF False] one by simp
  qed
  then show ?thesis using assms(1) one unfolding patient_def by blast
qed

lemma retry_patient:
  assumes "patient E"
  shows "bulk_ingest_with_retry E K cfg table fuel batch d \<noteq> Some (Inl e, d')"
proof (induction fuel arbitrary: batch d)
  case (Suc fuel)
  show ?case
  proof
    assume h: "bulk_ingest_with_retry E K cfg table (Suc fuel) batch d = Some (Inl e, d')"
    obtain r0 d0 where t: "try_ingest E cfg table batch d = (r0, d0)" by force
    then obtain e0 where r0: "r0 = Inl e0" using h by (cases r0) auto
    then have "is_message_too_large_error e0" "1 < rb_num_rows batch" using try_ingest_patient[OF assms] t by blast+
    then show False using h t r0 Suc.IH by (auto simp: Let_def split: option.splits sum.splits)
  qed
qed simp

lemma patient_logged: "patient E \<Longrightarrow> patient (logged E)"
  unfolding patient_def logged_def logging_def by (fastforce split: prod.splits)

text \<open>
  C31. Ingesting a batch with retries always returns, whatever the connection answers. Look at the
  ingest calls that the connection answered with success: when the ingest succeeds, they carry
  exactly the rows of the batch, in order and once, all of them for the configured catalog,
  schema and table, however often a message was refused and the batch halved; when it fails,
  they carry a prefix of them. A connection that refuses nothing but messages of more than one
  row, as too large, gets the whole batch.
\<close>

theorem retry_ingest_delivers:
  assumes "kernels_ok K" and "wf_batch batch"
  shows "\<exists>r d' l. retry_ingest (logged E) K cfg table batch (d, []) = Some (r, d', l)
     \<and> (\<exists>k. l = take k (map (Row (non_empty (target_db_catalog cfg)) (non_empty (target_db_schema cfg)) table) (rows batch))
          \<and> (r = Inr () \<longrightarrow> k = length (rows batch)))
     \<and> (patient E \<longrightarrow> r = Inr ())"
proof -
  obtain r d' l where r: "retry_ingest (logged E) K cfg table batch (d, []) = Some (r, d', l)"
      "applies_prefix snd (d, []) r (d', l) (at_target cfg table batch)"
    using bulk_ingest_with_retry_applies[OF kernels_okD(1)[OF assms(1)] logged_ok assms(2), of "Suc (rb_num_rows batch)" E cfg table "(d, [])"]
    unfolding retry_ingest_def by auto
  then obtain k where k: "l = take k (at_target cfg table batch)" "\<not> isl r \<longrightarrow> length (at_target cfg table batch) \<le> k"
    by (auto simp: applies_prefix_def)
  have "\<exists>k. l = take k (at_target cfg table batch) \<and> (r = Inr () \<longrightarrow> k = length (rows batch))"
  proof (cases "r = Inr ()")
    case True
    then show ?thesis using k by (intro exI[of _ "length (rows batch)"]) (simp add: at_target_def)
  qed (use k in blast)
  moreover have "r = Inr ()" if "patient E" using r(1) retry_patient[OF patient_logged[OF that]] unfolding retry_ingest_def
    by (cases r) (auto simp del: bulk_ingest_with_retry.simps)
  ultimately show ?thesis using r(1) by (auto simp: at_target_def)
qed

subsection \<open>Inserts\<close>

text \<open>Effects that put rows into a table of the given name, in a place that \<open>Q\<close> allows.\<close>

definition lands :: "(string option \<Rightarrow> string option \<Rightarrow> bool) \<Rightarrow> string \<Rightarrow> effect list \<Rightarrow> cell option list list \<Rightarrow> bool" where
  "lands Q table es rs \<longleftrightarrow> list_all2 (\<lambda>e r. \<exists>c s. Q c s \<and> e = Row c s table r) es rs"

lemma lands_map: "Q c s \<Longrightarrow> lands Q table (map (Row c s table) rs) rs"
  by (auto simp: lands_def list_all2_map1 list_all2_same)

lemma lands_append: "lands Q table es rs \<Longrightarrow> lands Q table fs qs \<Longrightarrow> lands Q table (es @ fs) (rs @ qs)"
  by (simp add: lands_def list_all2_appendI)

lemma retry_ingest_lands:
  assumes "slice_spec (k_slice K)" "driver_ok E applied" "wf_batch batch"
    and Q: "Q (non_empty (target_db_catalog cfg)) (non_empty (target_db_schema cfg))"
  shows "\<exists>r d'. retry_ingest E K cfg table batch d = Some (r, d')
     \<and> (\<not> isl r \<longrightarrow> (\<exists>es. applied d' = applied d @ es \<and> lands Q table es (rows batch)))"
proof -
  obtain r d' where r: "retry_ingest E K cfg table batch d = Some (r, d')" "applies_prefix applied d r d' (at_target cfg table batch)"
    using bulk_ingest_with_retry_applies[OF assms(1-3)] unfolding retry_ingest_def by blast
  moreover have "applied d' = applied d @ at_target cfg table batch" if "\<not> isl r"
    using r(2) that by (cases r) (simp_all add: applies_prefix_Inr)
  ultimately show ?thesis using lands_map[of Q, OF Q] unfolding at_target_def by blast
qed

lemma retry_all_lands:
  assumes "slice_spec (k_slice K)" "driver_ok E applied" "\<forall>b \<in> set bs. wf_batch b"
    and Q: "Q (non_empty (target_db_catalog cfg)) (non_empty (target_db_schema cfg))"
  shows "\<exists>r d'. retry_all E K cfg table bs d = Some (r, d')
     \<and> (\<not> isl r \<longrightarrow> (\<exists>es. applied d' = applied d @ es \<and> lands Q table es (concat (map rows bs))))"
  using assms(3)
proof (induction bs arbitrary: d)
  case Nil
  then show ?case by (auto simp: lands_def)
next
  case (Cons b bs)
  obtain r1 d1 where one: "retry_ingest E K cfg table b d = Some (r1, d1)"
    "\<not> isl r1 \<longrightarrow> (\<exists>es. applied d1 = applied d @ es \<and> lands Q table es (rows b))"
    using retry_ingest_lands[of K E applied b Q cfg table d, OF assms(1,2) _ Q] Cons.prems by auto
  obtain r2 d2 where two: "retry_all E K cfg table bs d1 = Some (r2, d2)"
    "\<not> isl r2 \<longrightarrow> (\<exists>es. applied d2 = applied d1 @ es \<and> lands Q table es (concat (map rows bs)))"
    using Cons.IH[of d1] Cons.prems by auto
  show ?case
  proof (cases r1)
    case (Inl e)
    then show ?thesis using one by simp
  next
    case (Inr u)
    then obtain es where "applied d1 = applied d @ es" "lands Q table es (rows b)" using one(2) by auto
    then have "\<exists>es. applied d2 = applied d @ es \<and> lands Q table es (rows b @ concat (map rows bs))" if "\<not> isl r2"
      using two(2) that lands_append by (metis append_assoc)
    then show ?thesis using one(1) two(1) Inr by simp
  qed
qed

lemma try_ingest_stream_lands:
  assumes drv: "driver_ok E applied" and t: "try_ingest_stream E cfg table bs d = (r, d')"
    and Q: "Q (non_empty (target_db_catalog cfg)) (non_empty (target_db_schema cfg))" "Q None None"
  shows "if isl r then applied d' = applied d else \<exists>es. applied d' = applied d @ es \<and> lands Q table es (concat (map rows bs))"
proof -
  define c s where cs: "c = non_empty (target_db_catalog cfg)" "s = non_empty (target_db_schema cfg)"
  note ap = driver_okD(2)[OF drv]
  have done1: ?thesis if "ae_ingest_stream E d1 table c0 s0 bs = (r, d')" "applied d1 = applied d" "Q c0 s0" for d1 c0 s0
    using ap[OF that(1)] that(2) lands_map[of Q c0 s0 table "concat (map rows bs)"] that(3) by (auto simp: ingested_def)
  show ?thesis
  proof (cases "c \<noteq> None \<or> s \<noteq> None")
    case True
    obtain r1 d1 where one: "ae_ingest_stream E d table None None bs = (r1, d1)" by force
    have "(r, d') = (case r1 of Inr u \<Rightarrow> (Inr u, d1)
        | Inl e \<Rightarrow> if is_message_too_large_error e then (Inl e, d1) else ae_ingest_stream E d1 table c s bs)"
      using t unfolding try_ingest_stream_def Let_def target_table_ingest_name_def cs[symmetric] if_P[OF True] one by simp
    then consider "(r, d') = (r1, d1)" | "isl r1" "ae_ingest_stream E d1 table c s bs = (r, d')"
      by (cases r1) (auto split: if_splits)
    then show ?thesis
    proof cases
      case 1
      then have "ae_ingest_stream E d table None None bs = (r, d')" using one by simp
      from done1[OF this] show ?thesis using Q unfolding cs[symmetric] by simp
    next
      case 2
      then show ?thesis using ap[OF one] Q unfolding cs[symmetric] by (intro done1[OF 2(2)]) simp_all
    qed
  next
    case False
    then have "ae_ingest_stream E d table c s bs = (r, d')"
      using t unfolding try_ingest_stream_def Let_def cs[symmetric] if_not_P[OF False] by simp
    from done1[OF this] show ?thesis using Q unfolding cs[symmetric] by simp
  qed
qed

lemma ingest_insert_batch_lands:
  assumes K: "slice_spec (k_slice K)" and drv: "driver_ok E applied" and wf: "wf_batch batch"
    and Q: "Q (non_empty (target_db_catalog cfg)) (non_empty (target_db_schema cfg))" "Q None None \<or> goes_whole E batch (cfg_max_ingest_bytes cfg) \<noteq> Inr False"
  shows "\<exists>r d'. ingest_insert_batch E K cfg table batch d = Some (r, d')
     \<and> (\<not> isl r \<longrightarrow> (\<exists>es. applied d' = applied d @ es \<and> lands Q table es (rows batch)))"
proof -
  obtain sr where sr: "split_for_size E K batch (cfg_max_ingest_bytes cfg) = Some sr"
    "\<forall>out. sr = Inr out \<longrightarrow> concat (map rows out) = rows batch \<and> (\<forall>p \<in> set out. wf_batch p)"
    using split_size_pieces[OF K wf, of 0 "Suc (rb_num_rows batch)" E "cfg_max_ingest_bytes cfg"]
    unfolding split_for_size_def by auto
  have stream: "\<exists>r d'. bulk_ingest_stream_for_batches E K cfg table out d = Some (r, d')
      \<and> (\<not> isl r \<longrightarrow> (\<exists>es. applied d' = applied d @ es \<and> lands Q table es (rows batch)))" if "sr = Inr out" "Q None None" for out
  proof -
    have out: "concat (map rows out) = rows batch" "\<forall>p \<in> set out. wf_batch p" using sr(2) that(1) by blast+
    obtain r0 d0 where t: "try_ingest_stream E cfg table out d = (r0, d0)" by force
    note a = try_ingest_stream_lands[of E applied cfg table out d r0 d0 Q, OF drv t Q(1) that(2)]
    consider "out = []" | "out \<noteq> []" "\<not> isl r0" | e where "out \<noteq> []" "r0 = Inl e" by (cases r0) auto
    then show ?thesis
    proof cases
      case 1
      then show ?thesis using out(1) by (auto simp: bulk_ingest_stream_for_batches_def lands_def)
    next
      case 2
      then show ?thesis using a t out(1) by (cases r0) (auto simp: bulk_ingest_stream_for_batches_def)
    next
      case (3 e)
      have d0: "applied d0 = applied d" using a 3 by simp
      show ?thesis using retry_all_lands[of K E applied out Q cfg table d0, OF K drv out(2) Q(1)] t 3 d0 out(1)
        by (auto simp: bulk_ingest_stream_for_batches_def)
    qed
  qed
  show ?thesis
  proof (cases "goes_whole E batch (cfg_max_ingest_bytes cfg)")
    case (Inl e)
    then show ?thesis by (simp add: ingest_insert_batch_def)
  next
    case (Inr whole)
    then show ?thesis
      using retry_ingest_lands[of K E applied batch Q cfg table d, OF K drv wf Q(1)] sr(1) stream Q(2)
      by (cases whole; cases sr) (simp_all add: ingest_insert_batch_def)
  qed
qed

text \<open>
  A batch that has to be split goes to the default schema although another one is configured: the
  first attempt passes neither catalog nor schema, and it is the only one when it succeeds.
\<close>

lemma split_ingest_ignores_target:
  assumes "driver_ok E applied" "bs \<noteq> []" "ae_ingest_stream E d table None None bs = (Inr u, d')"
    "target_db_schema cfg = Some s" "s \<noteq> []"
  shows "bulk_ingest_stream_for_batches E K cfg table bs d = Some (Inr (), d')"
    "applied d' = applied d @ map (Row None None table) (concat (map rows bs))"
proof -
  show "bulk_ingest_stream_for_batches E K cfg table bs d = Some (Inr (), d')"
    using assms(2-5) by (simp add: bulk_ingest_stream_for_batches_def try_ingest_stream_def Let_def
        target_table_ingest_name_def non_empty_def)
  show "applied d' = applied d @ map (Row None None table) (concat (map rows bs))"
    using driver_okD(2)[OF assms(1,3)] by (simp add: ingested_def)
qed

subsection \<open>A driver on lists\<close>

text \<open>A database that is its own log and takes messages of one row.\<close>

definition demo_env :: "effect list adbc_env" where
  "demo_env = \<lparr>ae_connect = (\<lambda>_. Inr ()),
     ae_ingest = (\<lambda>d t c s b. if rb_num_rows b > 1 then (Inl ''ResourceExhausted'', d) else (Inr (), d @ ingested t c s [b])),
     ae_ingest_stream = (\<lambda>d t c s bs. (Inr (), d @ ingested t c s bs)),
     ae_execute = (\<lambda>d sql. (Inr (), d @ [Stmt sql])),
     ae_create_staging = (\<lambda>d _ _. (Inr (), d)),
     ae_now_ms = (\<lambda>_. 0), ae_worker_exited = (\<lambda>_ _ _. False), ae_refuses = (\<lambda>_ _ _. False),
     ae_join_error = (\<lambda>_ _ _. None),
     ae_mem_size = (\<lambda>a. 8 * length (arr_cells a)), ae_ipc_size = (\<lambda>b. Inr (10 * rb_num_rows b)),
     ae_render = demo_render\<rparr>"

lemma demo_driver_ok: "driver_ok demo_env (\<lambda>d. d)"
  by (auto simp: driver_ok_def demo_env_def split: if_splits)

lemma demo_patient: "patient demo_env"
  by (simp add: patient_def demo_env_def is_message_too_large_error_def split: if_splits)

lemma demo_rows_wf: "wf_batch demo_rows"
  by (simp add: wf_batch_def wf_column_def demo_rows_def)

lemma demo_sizes_fit: "sizes_fit demo_env demo_rows 15"
  by (simp add: sizes_fit_def demo_env_def demo_rows_def)

theorem split_for_size_fits_witness:
  "\<exists>out. split_for_size demo_env list_kernels demo_rows 15 = Some (Inr out)
     \<and> concat (map rows out) = rows demo_rows
     \<and> list_all (\<lambda>p. wf_batch p \<and> rb_schema p = rb_schema demo_rows \<and> piece_fits demo_env demo_rows 15 p) out"
proof -
  have ipc: "ae_ipc_size demo_env b = Inr (10 * rb_num_rows b)" for b by (simp add: demo_env_def)
  have "\<not> 12 * 15 < 10 * estimate demo_env demo_rows 1 + 10"
    by (simp add: estimate_def demo_env_def demo_rows_def)
  moreover have "rb_num_rows (k_slice list_kernels demo_rows i 1) = 1" for i by (simp add: list_kernels_def)
  ultimately have none: "\<not> row_refused demo_env list_kernels demo_rows 15 i" for i by (simp add: row_refused_def ipc)
  from split_for_size_fits[OF list_kernels_ok demo_rows_wf demo_sizes_fit] show ?thesis
    apply (elim exE conjE)
    subgoal for r by (cases r) (auto simp: none ipc)
    done
qed

theorem retry_ingest_delivers_witness:
  "\<exists>d'. retry_ingest (logged demo_env) list_kernels demo_config ''items'' demo_rows ([], [])
       = Some (Inr (), d', map (Row None (Some ''public'') ''items'') (rows demo_rows))"
proof -
  have t: "non_empty (target_db_catalog demo_config) = None" "non_empty (target_db_schema demo_config) = Some ''public''"
    by (simp_all add: demo_config_def non_empty_def)
  show ?thesis
    using retry_ingest_delivers[OF list_kernels_ok demo_rows_wf, of demo_env demo_config "''items''" "[]"] demo_patient
    unfolding t by (auto simp del: length_rows)
qed

end
