(* ===== verification/Sinks.thy ===== *)
theory Sinks
  imports EtlWrite
begin

text \<open>
  The sinks of \<^verbatim>\<open>crates/etl/src/sink\<close> as the pipeline uses them: calls of \<^verbatim>\<open>Sink::write\<close> one after the other.
  The locale \<open>ordered_sink\<close> states what a caller relies on, that a successful write adds exactly what
  its call asks for at the end of what each table has seen, and carries it over to sequences
  of calls. \<open>None\<close> is a write that does not return.
\<close>

fun sink_writes :: "(write_call \<Rightarrow> 's \<Rightarrow> (unit result \<times> 's) option) \<Rightarrow> write_call list \<Rightarrow> 's \<Rightarrow> (unit result \<times> 's) option" where
  "sink_writes wr [] st = Some (Inr (), st)"
| "sink_writes wr (call # calls) st =
     (case wr call st of
        None \<Rightarrow> None
      | Some (Inl e, st') \<Rightarrow> Some (Inl e, st')
      | Some (Inr _, st') \<Rightarrow> sink_writes wr calls st')"

locale ordered_sink =
  fixes wr :: "write_call \<Rightarrow> 's \<Rightarrow> (unit result \<times> 's) option"
    and sees :: "'s \<Rightarrow> string \<Rightarrow> 'c list"
    and asks :: "string \<Rightarrow> write_call \<Rightarrow> 'c list"
    and inv :: "'s \<Rightarrow> bool"
    and okc :: "write_call \<Rightarrow> bool"
  assumes returns: "inv st \<Longrightarrow> okc call \<Longrightarrow> \<exists>r st'. wr call st = Some (r, st')"
    and keeps: "inv st \<Longrightarrow> okc call \<Longrightarrow> wr call st = Some (Inr u, st') \<Longrightarrow> inv st'"
    and adds: "inv st \<Longrightarrow> okc call \<Longrightarrow> wr call st = Some (Inr u, st') \<Longrightarrow> sees st' t = sees st t @ asks t call"
begin

lemma writes_return:
  "inv st \<Longrightarrow> \<forall>call \<in> set calls. okc call \<Longrightarrow> \<exists>r st'. sink_writes wr calls st = Some (r, st')"
proof (induction calls arbitrary: st)
  case (Cons call calls)
  obtain r st' where x: "wr call st = Some (r, st')" using returns Cons.prems by fastforce
  show ?case
  proof (cases r)
    case (Inl e)
    then show ?thesis using x by simp
  next
    case (Inr u)
    then show ?thesis using x Cons.IH[of st'] keeps[of st call u st'] Cons.prems by simp
  qed
qed simp

lemma writes_add:
  "inv st \<Longrightarrow> \<forall>call \<in> set calls. okc call \<Longrightarrow> sink_writes wr calls st = Some (Inr u, st') \<Longrightarrow>
     inv st' \<and> sees st' t = sees st t @ concat (map (asks t) calls)"
proof (induction calls arbitrary: st)
  case (Cons call calls)
  obtain w st1 where x: "wr call st = Some (Inr w, st1)" "sink_writes wr calls st1 = Some (Inr u, st')"
    using Cons.prems(3) by (auto split: option.splits prod.splits sum.splits)
  then show ?case
    using Cons.IH[of st1] keeps[of st call w st1] adds[of st call w st1 t] Cons.prems(1,2) by simp
qed simp

end

subsection \<open>NullSink\<close>

definition null_write :: "write_call \<Rightarrow> unit \<Rightarrow> (unit result \<times> unit) option" where
  "null_write call st = Some (Inr (), st)"

interpretation null: ordered_sink null_write "\<lambda>_ _. []" "\<lambda>_ _. []" "\<lambda>_. True" "\<lambda>_. True"
  by unfold_locales (simp_all add: null_write_def)

end
