(* ===== verification/AdbcSink.thy ===== *)
theory AdbcSink
  imports AdbcIngest Sinks
begin

text \<open>
  \<^verbatim>\<open>AdbcSink\<close> of \<^verbatim>\<open>crates/etl/src/sink/adbc.rs\<close>: the ingest streams that stay open across writes, the
  strategies for updates, the row counters, and \<^verbatim>\<open>Sink::write\<close> and \<^verbatim>\<open>Sink::flush\<close> with every effect they
  have. The rows sent on a stream count as applied when the stream has ended; until then they
  are pending. Error messages are shortened as in the theory of bulk ingest.
\<close>

subsection \<open>State\<close>

text \<open>\<open>ts_sent\<close> are the batches the channel of the worker has accepted.\<close>

record TableBulkIngestStream =
  ts_schema :: schema
  ts_sent :: "record_batch list"
  ts_batches_sent :: nat

record 'd adbc_sink =
  as_db :: 'd
  as_row_counts :: "string \<rightharpoonup> nat"
  as_in_flight :: nat
  as_streams :: "string \<rightharpoonup> TableBulkIngestStream"

definition adbc_new :: "'d \<Rightarrow> 'd adbc_sink" where
  "adbc_new d = \<lparr>as_db = d, as_row_counts = Map.empty, as_in_flight = 0, as_streams = Map.empty\<rparr>"

subsection \<open>Streams\<close>

text \<open>
  The worker of a stream: it takes a connection and ingests what the channel carries. The outer
  \<open>Inl\<close> is a failed join.
\<close>

definition worker_end ::
  "'d adbc_env \<Rightarrow> adbc_config \<Rightarrow> string \<Rightarrow> TableBulkIngestStream \<Rightarrow> 'd \<Rightarrow> (string + unit result) \<times> 'd" where
  "worker_end E cfg table stream d =
     (case ae_join_error E d table (ts_sent stream) of
        Some e \<Rightarrow> (Inl e, d)
      | None \<Rightarrow>
          (case ae_connect E d of
             Inl e \<Rightarrow> (Inr (Inl (''Failed to get ADBC connection from pool: '' @ e)), d)
           | Inr _ \<Rightarrow>
               (case ae_ingest_stream E d (target_table_ingest_name table) (target_db_catalog cfg) (target_db_schema cfg) (ts_sent stream) of
                  (Inl e, d') \<Rightarrow> (Inr (Inl (''ADBC stream bulk ingest failed for source table '' @ table @ '': '' @ e)), d')
                | (Inr _, d') \<Rightarrow> (Inr (Inr ()), d'))))"

definition close_and_wait ::
  "'d adbc_env \<Rightarrow> adbc_config \<Rightarrow> string \<Rightarrow> TableBulkIngestStream \<Rightarrow> 'd \<Rightarrow> unit result \<times> 'd" where
  "close_and_wait E cfg table stream d =
     (case worker_end E cfg table stream d of
        (Inl e, d') \<Rightarrow> (Inl (''Bulk ingest worker task join failed for table '' @ table @ '': '' @ e), d')
      | (Inr r, d') \<Rightarrow> (r, d'))"

definition end_bulk_ingest_stream_for_table ::
  "'d adbc_env \<Rightarrow> adbc_config \<Rightarrow> string \<Rightarrow> 'd adbc_sink \<Rightarrow> unit result \<times> 'd adbc_sink" where
  "end_bulk_ingest_stream_for_table E cfg table st =
     (case as_streams st table of
        None \<Rightarrow> (Inr (), st)
      | Some stream \<Rightarrow>
          (case close_and_wait E cfg table stream (as_db st) of
             (r, d') \<Rightarrow> (r, st\<lparr>as_streams := (as_streams st)(table := None), as_db := d'\<rparr>)))"

text \<open>\<open>order\<close> is the order in which the drained map yields its entries; the first error is kept.\<close>

fun end_streams :: "'d adbc_env \<Rightarrow> adbc_config \<Rightarrow> string list \<Rightarrow> 'd adbc_sink \<Rightarrow> string option \<times> 'd adbc_sink" where
  "end_streams E cfg [] st = (None, st)"
| "end_streams E cfg (table # order) st =
     (case end_bulk_ingest_stream_for_table E cfg table st of
        (r, st') \<Rightarrow>
          (case end_streams E cfg order st' of
             (later, st'') \<Rightarrow> ((case r of Inl e \<Rightarrow> Some e | Inr _ \<Rightarrow> later), st'')))"

definition end_all_bulk_ingest_streams ::
  "'d adbc_env \<Rightarrow> adbc_config \<Rightarrow> string list \<Rightarrow> 'd adbc_sink \<Rightarrow> unit result \<times> 'd adbc_sink" where
  "end_all_bulk_ingest_streams E cfg order st =
     (case end_streams E cfg order st of
        (Some e, st') \<Rightarrow> (Inl e, st')
      | (None, st') \<Rightarrow> (Inr (), st'))"

definition spawn_table_bulk_ingest_stream :: "schema \<Rightarrow> TableBulkIngestStream" where
  "spawn_table_bulk_ingest_stream schema = \<lparr>ts_schema = schema, ts_sent = [], ts_batches_sent = 0\<rparr>"

text \<open>The loop over the pieces; a refused piece removes the stream and reports how the worker ended.\<close>

fun send_pieces ::
  "'d adbc_env \<Rightarrow> adbc_config \<Rightarrow> string \<Rightarrow> TableBulkIngestStream \<Rightarrow> record_batch list \<Rightarrow> 'd adbc_sink \<Rightarrow> unit result \<times> 'd adbc_sink" where
  "send_pieces E cfg table stream [] st = (Inr (), st\<lparr>as_streams := (as_streams st)(table \<mapsto> stream)\<rparr>)"
| "send_pieces E cfg table stream (b # bs) st =
     (if ae_refuses E (as_db st) table (ts_sent stream)
      then (case worker_end E cfg table stream (as_db st) of
              (r, d') \<Rightarrow>
                (Inl (case r of
                        Inr (Inr _) \<Rightarrow> ''Bulk ingest worker for '' @ table @ '' exited without error but before all data was sent''
                      | Inr (Inl e) \<Rightarrow> ''Bulk ingest worker for '' @ table @ '' failed: '' @ e
                      | Inl e \<Rightarrow> ''Bulk ingest worker for '' @ table @ '' panicked: '' @ e),
                 st\<lparr>as_streams := (as_streams st)(table := None), as_db := d'\<rparr>))
      else send_pieces E cfg table
             (stream\<lparr>ts_sent := ts_sent stream @ [b], ts_batches_sent := ts_batches_sent stream + 1\<rparr>) bs st)"

definition send_batch_via_reused_bulk_ingest_stream ::
  "'d adbc_env \<Rightarrow> kernels \<Rightarrow> adbc_config \<Rightarrow> string \<Rightarrow> record_batch \<Rightarrow> 'd adbc_sink \<Rightarrow> (unit result \<times> 'd adbc_sink) option" where
  "send_batch_via_reused_bulk_ingest_stream E K cfg table batch st =
     (case split_insert_batch_for_ingest E K cfg batch of
        None \<Rightarrow> None
      | Some (Inl e) \<Rightarrow> Some (Inl e, st)
      | Some (Inr []) \<Rightarrow> Some (Inl ''Expected at least one insert batch'', st)
      | Some (Inr (b # bs)) \<Rightarrow>
          let schema = rb_schema b;
              reusable = (case as_streams st table of
                            Some stream \<Rightarrow>
                              if ts_schema stream = schema \<and> \<not> ae_worker_exited E (as_db st) table (ts_sent stream)
                              then Some stream else None
                          | None \<Rightarrow> None)
          in Some (case reusable of
               Some stream \<Rightarrow> send_pieces E cfg table stream (b # bs) st
             | None \<Rightarrow>
                 (case end_bulk_ingest_stream_for_table E cfg table st of
                    (Inl e, st') \<Rightarrow> (Inl e, st')
                  | (Inr _, st') \<Rightarrow>
                      send_pieces E cfg table (spawn_table_bulk_ingest_stream schema) (b # bs) st')))"

subsection \<open>Statements and the staging table\<close>

fun execute_all :: "'d adbc_env \<Rightarrow> string \<Rightarrow> string list \<Rightarrow> 'd \<Rightarrow> unit result \<times> 'd" where
  "execute_all E what [] d = (Inr (), d)"
| "execute_all E what (sql # sqls) d =
     (case ae_execute E d sql of
        (Inl e, d') \<Rightarrow> (Inl (what @ e), d')
      | (Inr _, d') \<Rightarrow> execute_all E what sqls d')"

definition create_tables_from_dataset_configs ::
  "'d adbc_env \<Rightarrow> adbc_config \<Rightarrow> (string \<times> schema \<times> string list \<times> string list) list \<Rightarrow> 'd \<Rightarrow> unit result \<times> 'd" where
  "create_tables_from_dataset_configs E cfg datasets d =
     (case collect_results (\<lambda>(table, schema, partition_by, primary_keys).
              create_table_sql cfg table schema partition_by primary_keys) datasets of
        Inl e \<Rightarrow> (Inl e, d)
      | Inr statements \<Rightarrow>
          (case ae_connect E d of
             Inl e \<Rightarrow> (Inl (''Failed to get ADBC connection from pool: '' @ e), d)
           | Inr _ \<Rightarrow> execute_all E ''ADBC create table execution failed: '' statements d))"

definition drop_staging_table_best_effort :: "'d adbc_env \<Rightarrow> adbc_config \<Rightarrow> string \<Rightarrow> 'd \<Rightarrow> 'd" where
  "drop_staging_table_best_effort E cfg staging_table d =
     snd (ae_execute E d (''DROP TABLE IF EXISTS '' @ target_table_identifier cfg staging_table))"

definition staging_name :: "string \<Rightarrow> nat \<Rightarrow> string" where
  "staging_name table ts = ''_spicebench_stg_'' @ table @ ''_'' @ show_nat ts"

definition staging_merge_sql :: "adbc_config \<Rightarrow> string \<Rightarrow> string \<Rightarrow> schema \<Rightarrow> string list \<Rightarrow> string" where
  "staging_merge_sql cfg table staging_table schema key_columns =
     build_staging_merge_sql (target_table_identifier cfg table) (target_table_identifier cfg staging_table)
       schema key_columns (identifier_quote_char cfg)"

definition staging_merge_update ::
  "'d adbc_env \<Rightarrow> kernels \<Rightarrow> adbc_config \<Rightarrow> string \<Rightarrow> record_batch \<Rightarrow> string list \<Rightarrow> 'd \<Rightarrow> (unit result \<times> 'd) option" where
  "staging_merge_update E K cfg table batch key_columns d =
     (if key_columns = [] then Some (Inl ''Update requires at least one key column'', d)
      else if list_all (\<lambda>f. fld_name f \<in> set key_columns) (rb_schema batch)
      then Some (Inl (''Update requires at least one non-key column in batch schema for table '' @ table), d)
      else
        let staging_table = staging_name table (ae_now_ms E d)
        in case (if staging_adapter cfg then ae_create_staging E d table staging_table else (Inr (), d)) of
             (Inl e, d1) \<Rightarrow> Some (Inl (''Failed to create staging table '' @ staging_table @ '': '' @ e), d1)
           | (Inr _, d1) \<Rightarrow>
               (case ingest_insert_batch E K cfg staging_table batch d1 of
                  None \<Rightarrow> None
                | Some (Inl e, d2) \<Rightarrow>
                    Some (Inl (''Failed to ingest update data into staging table '' @ staging_table @ '': '' @ e),
                          drop_staging_table_best_effort E cfg staging_table d2)
                | Some (Inr _, d2) \<Rightarrow>
                    let d3 = (if cfg_analyze_staging cfg
                              then snd (ae_execute E d2 (''ANALYZE '' @ target_table_identifier cfg staging_table)) else d2)
                    in case ae_execute E d3 (staging_merge_sql cfg table staging_table (rb_schema batch) key_columns) of
                         (r, d4) \<Rightarrow>
                           Some (map_err (\<lambda>e. ''MERGE INTO update failed for '' @ table @ '': '' @ e) r,
                                 drop_staging_table_best_effort E cfg staging_table d4)))"

subsection \<open>Sink::write and Sink::flush\<close>

text \<open>A step that takes a connection of the pool and works on the database.\<close>

definition with_connection ::
  "'d adbc_env \<Rightarrow> ('d \<Rightarrow> (unit result \<times> 'd) option) \<Rightarrow> 'd adbc_sink \<Rightarrow> (unit result \<times> 'd adbc_sink) option" where
  "with_connection E f st =
     (case ae_connect E (as_db st) of
        Inl e \<Rightarrow> Some (Inl (''Failed to get ADBC connection from pool: '' @ e), st)
      | Inr _ \<Rightarrow> map_option (\<lambda>(r, d'). (r, st\<lparr>as_db := d'\<rparr>)) (f (as_db st)))"

definition should_flush :: "adbc_config \<Rightarrow> InsertOp \<Rightarrow> bool" where
  "should_flush cfg op =
     (case op of
        Delete _ \<Rightarrow> True
      | Update _ \<Rightarrow> update_strategy cfg \<noteq> BulkIngestUpsert \<or> flush_stream_before_upsert cfg
      | Insert \<Rightarrow> False)"

definition run_statements ::
  "'d adbc_env \<Rightarrow> string \<Rightarrow> string list result \<Rightarrow> 'd \<Rightarrow> (unit result \<times> 'd) option" where
  "run_statements E what statements d =
     Some (case statements of Inl e \<Rightarrow> (Inl e, d) | Inr sqls \<Rightarrow> execute_all E what sqls d)"

definition write_op ::
  "'d adbc_env \<Rightarrow> kernels \<Rightarrow> adbc_config \<Rightarrow> string \<Rightarrow> record_batch \<Rightarrow> InsertOp \<Rightarrow> 'd adbc_sink \<Rightarrow> (unit result \<times> 'd adbc_sink) option" where
  "write_op E K cfg table batch op st =
     (case op of
        Insert \<Rightarrow>
          if reuse_bulk_ingest_streams cfg then send_batch_via_reused_bulk_ingest_stream E K cfg table batch st
          else with_connection E (ingest_insert_batch E K cfg table batch) st
      | Delete key_columns \<Rightarrow>
          with_connection E (run_statements E (''ADBC delete execution failed for '' @ table @ '': '')
            (delete_sql_statements (ae_render E) cfg table batch key_columns)) st
      | Update key_columns \<Rightarrow>
          (case update_strategy cfg of
             StagingTable \<Rightarrow> with_connection E (staging_merge_update E K cfg table batch key_columns) st
           | BulkIngestUpsert \<Rightarrow>
               if reuse_bulk_ingest_streams cfg \<and> \<not> flush_stream_before_upsert cfg
               then send_batch_via_reused_bulk_ingest_stream E K cfg table batch st
               else with_connection E (ingest_insert_batch E K cfg table batch) st
           | Statement \<Rightarrow>
               with_connection E (run_statements E (''ADBC update execution failed for '' @ table @ '': '')
                 (update_sql_statements (ae_render E) cfg table batch key_columns)) st))"

text \<open>\<^verbatim>\<open>apply_row_count_delta\<close> with \<^verbatim>\<open>saturating_fetch_sub\<close>: one atomic change of the counter.\<close>

definition saturating_fetch_sub :: "nat \<Rightarrow> nat \<Rightarrow> nat" where
  "saturating_fetch_sub counter value = counter - value"

definition apply_row_count_delta :: "InsertOp \<Rightarrow> nat \<Rightarrow> nat \<Rightarrow> nat" where
  "apply_row_count_delta op rows_current counter =
     (case op of
        Insert \<Rightarrow> (counter + rows_current) mod 2 ^ 64
      | Delete _ \<Rightarrow> saturating_fetch_sub counter rows_current
      | Update _ \<Rightarrow> counter)"

definition count_rows :: "string \<Rightarrow> InsertOp \<Rightarrow> nat \<Rightarrow> (string \<rightharpoonup> nat) \<Rightarrow> string \<rightharpoonup> nat" where
  "count_rows table op rows_current counts =
     counts(table \<mapsto> apply_row_count_delta op rows_current (case counts table of Some n \<Rightarrow> n | None \<Rightarrow> 0))"

text \<open>An error leaves the handler before \<open>as_in_flight\<close> is taken back.\<close>

definition adbc_write ::
  "'d adbc_env \<Rightarrow> kernels \<Rightarrow> adbc_config \<Rightarrow> write_call \<Rightarrow> 'd adbc_sink \<Rightarrow> (unit result \<times> 'd adbc_sink) option" where
  "adbc_write E K cfg call st =
     (let table = wc_table call; batch = wc_batch call; op = wc_op call;
          st0 = st\<lparr>as_in_flight := as_in_flight st + 1\<rparr>
      in if rb_num_rows batch = 0 then Some (Inr (), st0\<lparr>as_in_flight := as_in_flight st0 - 1\<rparr>)
         else case (if reuse_bulk_ingest_streams cfg \<and> should_flush cfg op
                    then end_bulk_ingest_stream_for_table E cfg table st0 else (Inr (), st0)) of
                (Inl e, st1) \<Rightarrow> Some (Inl e, st1)
              | (Inr _, st1) \<Rightarrow>
                  (case write_op E K cfg table batch op st1 of
                     None \<Rightarrow> None
                   | Some (Inl e, st2) \<Rightarrow> Some (Inl e, st2)
                   | Some (Inr _, st2) \<Rightarrow>
                       Some (Inr (), st2\<lparr>as_row_counts := count_rows table op (rb_num_rows batch) (as_row_counts st2),
                                         as_in_flight := as_in_flight st2 - 1\<rparr>)))"

definition adbc_flush :: "'d adbc_env \<Rightarrow> adbc_config \<Rightarrow> string list \<Rightarrow> 'd adbc_sink \<Rightarrow> unit result \<times> 'd adbc_sink" where
  "adbc_flush E cfg order st =
     (if reuse_bulk_ingest_streams cfg then end_all_bulk_ingest_streams E cfg order st else (Inr (), st))"

subsection \<open>What a table sees\<close>

text \<open>The table a statement changes, read from its text.\<close>

definition statement_path :: "char \<Rightarrow> string \<Rightarrow> string list option" where
  "statement_path q sql =
     (case strip ''DELETE FROM '' sql of
        Some r \<Rightarrow> map_option fst (read_path q r)
      | None \<Rightarrow> (case strip ''UPDATE '' sql of Some r \<Rightarrow> map_option fst (read_path q r) | None \<Rightarrow> None))"

datatype change = Put "cell option list" | Run string

text \<open>
  The configured target is a catalog and a schema; \<open>Put\<close> and \<open>Run\<close> count for a table only where they go to
  that table in that place.
\<close>

definition in_target :: "adbc_config \<Rightarrow> string option \<Rightarrow> string option \<Rightarrow> bool" where
  "in_target cfg c s \<longleftrightarrow> c = non_empty (target_db_catalog cfg) \<and> s = non_empty (target_db_schema cfg)"

definition seen_effect :: "adbc_config \<Rightarrow> string \<Rightarrow> effect \<Rightarrow> change list" where
  "seen_effect cfg t e =
     (case e of
        Row c s table r \<Rightarrow> if table = t \<and> in_target cfg c s then [Put r] else []
      | Stmt sql \<Rightarrow> if statement_path (identifier_quote_char cfg) sql = Some (qualifiers cfg @ [t]) then [Run sql] else [])"

definition seen :: "adbc_config \<Rightarrow> string \<Rightarrow> effect list \<Rightarrow> change list" where
  "seen cfg t es = concat (map (seen_effect cfg t) es)"

definition pending :: "'d adbc_sink \<Rightarrow> string \<Rightarrow> change list" where
  "pending st t = (case as_streams st t of None \<Rightarrow> [] | Some stream \<Rightarrow> map Put (concat (map rows (ts_sent stream))))"

definition view :: "adbc_config \<Rightarrow> ('d \<Rightarrow> effect list) \<Rightarrow> 'd adbc_sink \<Rightarrow> string \<Rightarrow> change list" where
  "view cfg applied st t = seen cfg t (applied (as_db st)) @ pending st t"

text \<open>What a write asks for: rows to add, or the statements of its rows.\<close>

definition statements_of :: "string list result \<Rightarrow> change list" where
  "statements_of r = (case r of Inl _ \<Rightarrow> [] | Inr sqls \<Rightarrow> map Run sqls)"

definition call_changes :: "render \<Rightarrow> adbc_config \<Rightarrow> string \<Rightarrow> write_call \<Rightarrow> change list" where
  "call_changes render cfg t call =
     (if wc_table call \<noteq> t \<or> rb_num_rows (wc_batch call) = 0 then []
      else case wc_op call of
             Insert \<Rightarrow> map Put (rows (wc_batch call))
           | Delete keys \<Rightarrow> statements_of (delete_sql_statements render cfg t (wc_batch call) keys)
           | Update keys \<Rightarrow>
               if update_strategy cfg = BulkIngestUpsert then map Put (rows (wc_batch call))
               else statements_of (update_sql_statements render cfg t (wc_batch call) keys))"

lemma seen_simps [simp]: "seen cfg t [] = []" "seen cfg t (es @ fs) = seen cfg t es @ seen cfg t fs"
  by (simp_all add: seen_def)

lemma seen_lands: "lands (in_target cfg) table es rs \<Longrightarrow> seen cfg t es = (if table = t then map Put rs else [])"
  unfolding lands_def seen_def
  by (induction rule: list_all2_induct) (auto simp: seen_effect_def split: if_splits)

text \<open>An empty string configured as catalog or schema would reach the driver as such on the open streams.\<close>

definition target_ok :: "adbc_config \<Rightarrow> bool" where
  "target_ok cfg \<longleftrightarrow> target_db_catalog cfg \<noteq> Some [] \<and> target_db_schema cfg \<noteq> Some []"

lemma seen_ingested:
  assumes "target_ok cfg"
  shows "seen cfg t (ingested table (target_db_catalog cfg) (target_db_schema cfg) bs)
     = (if table = t then map Put (concat (map rows bs)) else [])"
proof -
  have "in_target cfg (target_db_catalog cfg) (target_db_schema cfg)"
    using assms by (auto simp: target_ok_def in_target_def non_empty_def split: option.splits)
  from seen_lands[OF lands_map[of "in_target cfg", OF this]] show ?thesis unfolding ingested_def .
qed

text \<open>
  A write that does not go over an open stream ingests its batch directly; there, a batch that has
  to be split stays in the configured place only when that is the default one.
\<close>

definition goes_direct :: "adbc_config \<Rightarrow> InsertOp \<Rightarrow> bool" where
  "goes_direct cfg op = (case op of
     Insert \<Rightarrow> \<not> reuse_bulk_ingest_streams cfg
   | Delete _ \<Rightarrow> False
   | Update _ \<Rightarrow> update_strategy cfg = BulkIngestUpsert \<and> (\<not> reuse_bulk_ingest_streams cfg \<or> flush_stream_before_upsert cfg))"

definition stays_in_target :: "'d adbc_env \<Rightarrow> adbc_config \<Rightarrow> write_call \<Rightarrow> bool" where
  "stays_in_target E cfg call \<longleftrightarrow> goes_direct cfg (wc_op call) \<longrightarrow> in_target cfg None None
     \<or> goes_whole E (wc_batch call) (cfg_max_ingest_bytes cfg) \<noteq> Inr False"

lemma stays_logged: "stays_in_target (logged E) cfg call = stays_in_target E cfg call"
  by (simp add: stays_in_target_def goes_whole_def approx_serialized_batch_size_def Let_def)

subsection \<open>Statements name their table\<close>

definition quote_ok :: "adbc_config \<Rightarrow> bool" where
  "quote_ok cfg \<longleftrightarrow> identifier_quote_char cfg \<noteq> CHR '' '' \<and> identifier_quote_char cfg \<noteq> CHR ''.''"

lemma statement_path_target:
  assumes "quote_ok cfg" "sql = pre @ target_table_identifier cfg table @ CHR '' '' # rest" "pre \<in> {''DELETE FROM '', ''UPDATE ''}"
  shows "statement_path (identifier_quote_char cfg) sql = Some (qualifiers cfg @ [table])"
proof -
  have p: "read_path (identifier_quote_char cfg) (target_table_identifier cfg table @ CHR '' '' # rest)
      = Some (qualifiers cfg @ [table], CHR '' '' # rest)"
    using assms(1) by (intro read_target_path) (simp_all add: quote_ok_def)
  have s: "strip pre sql = Some (target_table_identifier cfg table @ CHR '' '' # rest)"
    unfolding assms(2) by (rule strip_append)
  show ?thesis
  proof (cases "pre = ''DELETE FROM ''")
    case True
    then show ?thesis using s p by (simp add: statement_path_def)
  next
    case False
    then have "pre = ''UPDATE ''" using assms(3) by blast
    moreover have "strip ''DELETE FROM '' sql = None" unfolding assms(2) \<open>pre = ''UPDATE ''\<close> by (simp add: strip_def)
    ultimately show ?thesis using s p by (simp add: statement_path_def)
  qed
qed

definition on_table :: "adbc_config \<Rightarrow> string \<Rightarrow> string \<Rightarrow> bool" where
  "on_table cfg table sql \<longleftrightarrow> statement_path (identifier_quote_char cfg) sql = Some (qualifiers cfg @ [table])"

lemma on_table_delete: "quote_ok cfg \<Longrightarrow> on_table cfg table (''DELETE FROM '' @ target_table_identifier cfg table @ CHR '' '' # rest)"
  unfolding on_table_def by (rule statement_path_target[OF _ refl]) simp_all

lemma on_table_update: "quote_ok cfg \<Longrightarrow> on_table cfg table (''UPDATE '' @ target_table_identifier cfg table @ CHR '' '' # rest)"
  unfolding on_table_def by (rule statement_path_target[OF _ refl]) simp_all

lemma collect_results_all:
  "collect_results f xs = Inr ys \<Longrightarrow> (\<And>x y. f x = Inr y \<Longrightarrow> P y) \<Longrightarrow> y \<in> set ys \<Longrightarrow> P y"
  by (induction xs arbitrary: ys) (auto simp: result_simps)

lemma batched_delete_loop_all:
  assumes "batched_delete_loop sql n m start = Inr ys" "\<And>x y. sql x = Inr y \<Longrightarrow> P y" "y \<in> set ys"
  shows "P y"
  using assms
proof (induction sql n m start arbitrary: ys rule: batched_delete_loop.induct)
  case (1 sql n m start)
  show ?case
  proof (cases "start < m \<and> 0 < n")
    case False
    then have "ys = []" using 1(2) by (subst (asm) batched_delete_loop.simps) (simp split: if_splits)
    then show ?thesis using 1(4) by simp
  next
    case True
    then obtain s rest where "sql [start..<min (start + n) m] = Inr s" "ys = s # rest"
      "batched_delete_loop sql n m (min (start + n) m) = Inr rest"
      using 1(2) by (subst (asm) batched_delete_loop.simps) (auto simp: Let_def result_simps)
    then show ?thesis using 1(1)[OF True refl] 1(3,4) by auto
  qed
qed

lemma delete_statements_on_table:
  assumes q: "quote_ok cfg" and d: "delete_sql_statements render cfg table batch keys = Inr sqls" "sql \<in> set sqls"
  shows "on_table cfg table sql"
proof -
  from d(1) obtain idxs idents where
    *: "(case cfg_delete_batch_size cfg of
          None \<Rightarrow> collect_results (\<lambda>row. delete_sql_for_row render (target_table_identifier cfg table) batch row idxs idents) [0..<rb_num_rows batch]
        | Some n \<Rightarrow> batched_delete_sql render (target_table_identifier cfg table) batch n keys idxs (identifier_quote_char cfg) (bigint_suffix cfg)) = Inr sqls"
    by (auto simp: delete_sql_statements_def Let_def result_simps split: if_splits)
  show ?thesis
  proof (cases "cfg_delete_batch_size cfg")
    case None
    have "on_table cfg table y" if "delete_sql_for_row render (target_table_identifier cfg table) batch row idxs idents = Inr y" for row y
      using that on_table_delete[OF q] by (auto simp: delete_sql_for_row_def result_simps)
    then show ?thesis using * None d(2) by (auto intro: collect_results_all)
  next
    case (Some n)
    have "on_table cfg table y" if "delete_chunk_sql render (target_table_identifier cfg table) batch ks idxs sfx chunk = Inr y" for ks sfx chunk y
      using that on_table_delete[OF q] by (auto simp: delete_chunk_sql_def result_simps split: if_splits)
    then show ?thesis using * Some d(2) unfolding batched_delete_sql_def by (auto intro: batched_delete_loop_all)
  qed
qed

lemma update_statements_on_table:
  assumes q: "quote_ok cfg" and d: "update_sql_statements render cfg table batch keys = Inr sqls" "sql \<in> set sqls"
  shows "on_table cfg table sql"
proof -
  from d(1) obtain idxs idents cols where
    c: "collect_results (\<lambda>row. update_sql_for_row render table (target_table_identifier cfg table) batch row idxs idents cols) [0..<rb_num_rows batch] = Inr sqls"
    by (auto simp: update_sql_statements_def Let_def result_simps split: if_splits)
  have "on_table cfg table y" if "update_sql_for_row render table (target_table_identifier cfg table) batch row idxs idents cols = Inr y" for row y
    using that on_table_update[OF q] by (auto simp: update_sql_for_row_def result_simps split: if_splits)
  then show ?thesis using c d(2) by (auto intro: collect_results_all)
qed

lemma seen_statements:
  assumes "\<forall>sql \<in> set sqls. on_table cfg table sql"
  shows "seen cfg t (map Stmt sqls) = (if table = t then map Run sqls else [])"
  using assms by (induction sqls) (auto simp: seen_def seen_effect_def on_table_def)

subsection \<open>Every operation extends the view\<close>

lemma execute_all_applies:
  assumes "driver_ok E applied"
  shows "execute_all E what sqls d = (Inr u, d') \<Longrightarrow> applied d' = applied d @ map Stmt sqls"
proof (induction sqls arbitrary: d)
  case (Cons sql sqls)
  obtain r d1 where one: "ae_execute E d sql = (r, d1)" by force
  then show ?case using Cons driver_okD(3)[OF assms one] by (cases r) auto
qed simp

lemma worker_end_applies:
  assumes "driver_ok E applied" "worker_end E cfg table stream d = (Inr (Inr u), d')"
  shows "applied d' = applied d @ ingested table (target_db_catalog cfg) (target_db_schema cfg) (ts_sent stream)"
proof -
  obtain r d1 where one: "ae_ingest_stream E d table (target_db_catalog cfg) (target_db_schema cfg) (ts_sent stream) = (r, d1)" by force
  then have "\<not> isl r" "d' = d1"
    using assms(2) by (auto simp: worker_end_def target_table_ingest_name_def split: option.splits sum.splits)
  then show ?thesis using driver_okD(2)[OF assms(1) one] by simp
qed

lemma end_stream_view:
  assumes drv: "driver_ok E applied" and tgt: "target_ok cfg" and e: "end_bulk_ingest_stream_for_table E cfg table st = (Inr u, st')"
  shows "view cfg applied st' t = view cfg applied st t" "as_streams st' = (as_streams st)(table := None)"
proof -
  have "view cfg applied st' t = view cfg applied st t \<and> as_streams st' = (as_streams st)(table := None)"
  proof (cases "as_streams st table")
    case None
    then show ?thesis using e by (auto simp: end_bulk_ingest_stream_for_table_def)
  next
    case (Some stream)
    obtain r d' where w: "worker_end E cfg table stream (as_db st) = (r, d')" by force
    then have r: "r = Inr (Inr u)" and st': "st' = st\<lparr>as_streams := (as_streams st)(table := None), as_db := d'\<rparr>"
      using e Some by (auto simp: end_bulk_ingest_stream_for_table_def close_and_wait_def split: sum.splits)
    have "applied d' = applied (as_db st) @ ingested table (target_db_catalog cfg) (target_db_schema cfg) (ts_sent stream)"
      using worker_end_applies[OF drv] w r by blast
    then show ?thesis using Some by (auto simp: st' view_def pending_def seen_ingested[OF tgt])
  qed
  then show "view cfg applied st' t = view cfg applied st t" "as_streams st' = (as_streams st)(table := None)" by blast+
qed

lemma send_pieces_sends:
  assumes "send_pieces E cfg table stream bs st = (Inr u, st')"
  shows "\<exists>stream'. st' = st\<lparr>as_streams := (as_streams st)(table \<mapsto> stream')\<rparr> \<and> ts_sent stream' = ts_sent stream @ bs"
  using assms
proof (induction bs arbitrary: stream)
  case (Cons b bs)
  then have "\<not> ae_refuses E (as_db st) table (ts_sent stream)" by (auto split: prod.splits if_splits)
  then show ?case using Cons.prems Cons.IH by fastforce
qed auto

lemma split_insert_rows:
  assumes K: "slice_spec (k_slice K)" and wf: "wf_batch batch"
  shows "\<exists>r. split_insert_batch_for_ingest E K cfg batch = Some r \<and> (\<forall>out. r = Inr out \<longrightarrow> concat (map rows out) = rows batch)"
proof -
  obtain sr where "split_for_size E K batch (cfg_max_ingest_bytes cfg) = Some sr"
    "\<forall>out. sr = Inr out \<longrightarrow> concat (map rows out) = rows batch"
    using split_size_pieces[OF K wf, of 0 "Suc (rb_num_rows batch)" E "cfg_max_ingest_bytes cfg"]
    unfolding split_for_size_def by auto
  then show ?thesis unfolding split_insert_batch_for_ingest_def
    by (cases "goes_whole E batch (cfg_max_ingest_bytes cfg)") (auto split: bool.splits)
qed

abbreviation adds :: "adbc_config \<Rightarrow> ('d \<Rightarrow> effect list) \<Rightarrow> string \<Rightarrow> change list \<Rightarrow> 'd adbc_sink \<Rightarrow> 'd adbc_sink \<Rightarrow> bool" where
  "adds cfg applied table cs st st' \<equiv>
     \<forall>t. view cfg applied st' t = view cfg applied st t @ (if table = t then cs else [])"

lemma send_pieces_adds:
  assumes s: "send_pieces E cfg table stream bs st = (Inr u, st')"
    and stream: "as_streams st table = Some stream \<or> as_streams st table = None \<and> ts_sent stream = []"
  shows "adds cfg applied table (map Put (concat (map rows bs))) st st'"
  using send_pieces_sends[OF s] stream by (auto simp: view_def pending_def)

lemma send_batch_adds:
  assumes K: "slice_spec (k_slice K)" and drv: "driver_ok E applied" and tgt: "target_ok cfg" and wf: "wf_batch batch"
  shows "\<exists>r st'. send_batch_via_reused_bulk_ingest_stream E K cfg table batch st = Some (r, st')
     \<and> (\<not> isl r \<longrightarrow> adds cfg applied table (map Put (rows batch)) st st')"
proof -
  obtain r where r: "split_insert_batch_for_ingest E K cfg batch = Some r" "\<forall>out. r = Inr out \<longrightarrow> concat (map rows out) = rows batch"
    using split_insert_rows[OF K wf] by blast
  consider e where "r = Inl e" | "r = Inr []" | b bs where "r = Inr (b # bs)" by (metis list.exhaust sumE)
  then show ?thesis
  proof cases
    case (3 b bs)
    have all: "concat (map rows (b # bs)) = rows batch" using r(2) 3 by blast
    let ?send = "\<lambda>stream. send_pieces E cfg table stream (b # bs)"
    have reuse: "\<exists>r st'. ?send stream st = (r, st') \<and> (\<not> isl r \<longrightarrow> adds cfg applied table (map Put (rows batch)) st st')"
      if s: "as_streams st table = Some stream" for stream
    proof -
      obtain r st' where x: "?send stream st = (r, st')" by force
      then have "adds cfg applied table (map Put (rows batch)) st st'" if "\<not> isl r"
        using send_pieces_adds[of E cfg table stream "b # bs" st _ st'] s that unfolding all by (cases r) auto
      then show ?thesis using x by blast
    qed
    have fresh: "\<exists>r st'. (case end_bulk_ingest_stream_for_table E cfg table st of
              (Inl e, st1) \<Rightarrow> (Inl e, st1)
            | (Inr _, st1) \<Rightarrow> ?send (spawn_table_bulk_ingest_stream (rb_schema b)) st1) = (r, st')
        \<and> (\<not> isl r \<longrightarrow> adds cfg applied table (map Put (rows batch)) st st')"
    proof -
      obtain r1 st1 where e: "end_bulk_ingest_stream_for_table E cfg table st = (r1, st1)" by force
      show ?thesis
      proof (cases r1)
        case (Inl x)
        then show ?thesis using e by simp
      next
        case (Inr u)
        obtain r st' where x: "?send (spawn_table_bulk_ingest_stream (rb_schema b)) st1 = (r, st')" by force
        note v = end_stream_view[OF drv tgt e[unfolded Inr]]
        have "adds cfg applied table (map Put (rows batch)) st1 st'" if "\<not> isl r"
          using send_pieces_adds[of E cfg table "spawn_table_bulk_ingest_stream (rb_schema b)" "b # bs" st1 _ st'] x that v(2)
          unfolding all by (cases r) (auto simp: spawn_table_bulk_ingest_stream_def)
        then show ?thesis using e x Inr v(1) by auto
      qed
    qed
    show ?thesis using r(1) 3 reuse fresh
      by (cases "as_streams st table") (auto simp: send_batch_via_reused_bulk_ingest_stream_def Let_def split: if_splits)
  qed (use r(1) in \<open>simp_all add: send_batch_via_reused_bulk_ingest_stream_def\<close>)
qed

text \<open>Effects that only the given table sees, as the given changes.\<close>

definition sees_only :: "adbc_config \<Rightarrow> string \<Rightarrow> change list \<Rightarrow> effect list \<Rightarrow> bool" where
  "sees_only cfg table cs es \<longleftrightarrow> (\<forall>t. seen cfg t es = (if table = t then cs else []))"

text \<open>A step on the database itself, while no stream of the table is open.\<close>

lemma with_connection_adds:
  assumes f: "\<exists>r d'. f (as_db st) = Some (r, d') \<and> (\<not> isl r \<longrightarrow> (\<exists>es. applied d' = applied (as_db st) @ es \<and> sees_only cfg table cs es))"
    and quiet: "as_streams st table = None"
  shows "\<exists>r st'. with_connection E f st = Some (r, st') \<and> as_streams st' = as_streams st
     \<and> (\<not> isl r \<longrightarrow> adds cfg applied table cs st st')"
proof -
  obtain r d' where x: "f (as_db st) = Some (r, d')"
    and es: "\<not> isl r \<longrightarrow> (\<exists>es. applied d' = applied (as_db st) @ es \<and> sees_only cfg table cs es)"
    using f by blast
  show ?thesis
  proof (cases "ae_connect E (as_db st)")
    case (Inl e)
    then show ?thesis by (simp add: with_connection_def)
  next
    case (Inr u)
    have "adds cfg applied table cs st (st\<lparr>as_db := d'\<rparr>)" if "\<not> isl r"
      using es that quiet by (auto simp: view_def pending_def sees_only_def)
    then show ?thesis using x Inr by (simp add: with_connection_def)
  qed
qed

lemma run_statements_sees:
  assumes drv: "driver_ok E applied" and on: "\<And>sqls sql. stmts = Inr sqls \<Longrightarrow> sql \<in> set sqls \<Longrightarrow> on_table cfg table sql"
  shows "\<exists>r d'. run_statements E what stmts d = Some (r, d') \<and> (\<not> isl r \<longrightarrow> (\<exists>es. applied d' = applied d @ es \<and> sees_only cfg table (statements_of stmts) es))"
proof (cases stmts)
  case (Inl e)
  then show ?thesis by (simp add: run_statements_def)
next
  case (Inr sqls)
  obtain r d' where x: "execute_all E what sqls d = (r, d')" by force
  have "\<exists>es. applied d' = applied d @ es \<and> sees_only cfg table (map Run sqls) es" if "\<not> isl r"
    using execute_all_applies[OF drv] x that seen_statements[of sqls cfg table] on[OF Inr]
    by (intro exI[of _ "map Stmt sqls"]) (cases r, auto simp: sees_only_def)
  then show ?thesis using x Inr by (simp add: run_statements_def statements_of_def)
qed

lemma ingest_insert_batch_sees:
  assumes "slice_spec (k_slice K)" "driver_ok E applied" "wf_batch batch"
    and "in_target cfg None None \<or> goes_whole E batch (cfg_max_ingest_bytes cfg) \<noteq> Inr False"
  shows "\<exists>r d'. ingest_insert_batch E K cfg table batch d = Some (r, d') \<and> (\<not> isl r \<longrightarrow> (\<exists>es. applied d' = applied d @ es \<and> sees_only cfg table (map Put (rows batch)) es))"
proof -
  have "in_target cfg (non_empty (target_db_catalog cfg)) (non_empty (target_db_schema cfg))" by (simp add: in_target_def)
  from ingest_insert_batch_lands[of K E applied batch "in_target cfg", OF assms(1-3) this assms(4), of table d] show ?thesis
    using seen_lands unfolding sees_only_def by blast
qed

lemma ingest_adds:
  assumes "slice_spec (k_slice K)" "driver_ok E applied" "wf_batch batch"
    and "in_target cfg None None \<or> goes_whole E batch (cfg_max_ingest_bytes cfg) \<noteq> Inr False" "as_streams st table = None"
  shows "\<exists>r st'. with_connection E (ingest_insert_batch E K cfg table batch) st = Some (r, st') \<and> as_streams st' = as_streams st
     \<and> (\<not> isl r \<longrightarrow> adds cfg applied table (map Put (rows batch)) st st')"
  by (rule with_connection_adds) (use ingest_insert_batch_sees[OF assms(1-4)] assms(5) in auto)

lemma statements_adds:
  assumes "driver_ok E applied" "\<And>sqls sql. stmts = Inr sqls \<Longrightarrow> sql \<in> set sqls \<Longrightarrow> on_table cfg table sql"
    "as_streams st table = None"
  shows "\<exists>r st'. with_connection E (run_statements E what stmts) st = Some (r, st') \<and> as_streams st' = as_streams st
     \<and> (\<not> isl r \<longrightarrow> adds cfg applied table (statements_of stmts) st st')"
  by (rule with_connection_adds) (use run_statements_sees[OF assms(1,2)] assms(3) in auto)

lemma write_op_adds:
  assumes K: "slice_spec (k_slice K)" and drv: "driver_ok E applied" and q: "quote_ok cfg"
    and strategy: "update_strategy cfg \<noteq> StagingTable" "target_ok cfg" and wf: "wf_batch (wc_batch call)" "stays_in_target E cfg call"
    and ne: "rb_num_rows (wc_batch call) \<noteq> 0"
    and quiet: "should_flush cfg (wc_op call) \<or> \<not> reuse_bulk_ingest_streams cfg \<Longrightarrow> as_streams st (wc_table call) = None"
  shows "\<exists>r st'. write_op E K cfg (wc_table call) (wc_batch call) (wc_op call) st = Some (r, st')
     \<and> (\<not> reuse_bulk_ingest_streams cfg \<longrightarrow> as_streams st' = as_streams st)
     \<and> (\<not> isl r \<longrightarrow> adds cfg applied (wc_table call) (call_changes (ae_render E) cfg (wc_table call) call) st st')"
proof -
  let ?t = "wc_table call" and ?b = "wc_batch call" and ?cs = "call_changes (ae_render E) cfg (wc_table call) call"
  have ingest: "\<exists>r st'. with_connection E (ingest_insert_batch E K cfg ?t ?b) st = Some (r, st') \<and> as_streams st' = as_streams st
     \<and> (\<not> isl r \<longrightarrow> adds cfg applied ?t (map Put (rows ?b)) st st')" if "goes_direct cfg (wc_op call)" "as_streams st ?t = None"
    using ingest_adds[OF K drv wf(1), of cfg st ?t] wf(2) that unfolding stays_in_target_def by blast
  show ?thesis
  proof (cases "wc_op call")
    case Insert
    then show ?thesis using send_batch_adds[OF K drv strategy(2) wf(1), of ?t st] ingest[OF _ quiet] ne
      by (cases "reuse_bulk_ingest_streams cfg") (auto simp: write_op_def call_changes_def goes_direct_def)
  next
    case (Delete keys)
    show ?thesis
      using statements_adds[OF drv delete_statements_on_table[OF q] quiet] ne Delete
      by (fastforce simp: write_op_def call_changes_def should_flush_def)
  next
    case (Update keys)
    show ?thesis
    proof (cases "update_strategy cfg")
      case Statement
      show ?thesis
        using statements_adds[OF drv update_statements_on_table[OF q] quiet] ne Update Statement
        by (fastforce simp: write_op_def call_changes_def should_flush_def)
    next
      case BulkIngestUpsert
      then show ?thesis using send_batch_adds[OF K drv strategy(2) wf(1), of ?t st] ingest[OF _ quiet] ne Update
        by (cases "reuse_bulk_ingest_streams cfg \<and> \<not> flush_stream_before_upsert cfg")
          (auto simp: write_op_def call_changes_def should_flush_def goes_direct_def)
    qed (use strategy in simp)
  qed
qed

definition no_stray_streams :: "adbc_config \<Rightarrow> 'd adbc_sink \<Rightarrow> bool" where
  "no_stray_streams cfg st \<longleftrightarrow> reuse_bulk_ingest_streams cfg \<or> as_streams st = Map.empty"

lemma view_cong: "as_db st' = as_db st \<Longrightarrow> as_streams st' = as_streams st \<Longrightarrow> view cfg applied st' t = view cfg applied st t"
  by (simp add: view_def pending_def)

lemma adbc_write_adds:
  assumes K: "slice_spec (k_slice K)" and drv: "driver_ok E applied" and q: "quote_ok cfg"
    and strategy: "update_strategy cfg \<noteq> StagingTable" "target_ok cfg" and wf: "wf_batch (wc_batch call)" "stays_in_target E cfg call"
    and inv: "no_stray_streams cfg st"
  shows "\<exists>r st'. adbc_write E K cfg call st = Some (r, st')
     \<and> (\<not> isl r \<longrightarrow> no_stray_streams cfg st' \<and> (\<forall>t. view cfg applied st' t = view cfg applied st t @ call_changes (ae_render E) cfg t call))"
proof -
  let ?t = "wc_table call" and ?b = "wc_batch call" and ?op = "wc_op call"
  let ?cs = "call_changes (ae_render E) cfg (wc_table call) call"
  let ?st0 = "st\<lparr>as_in_flight := as_in_flight st + 1\<rparr>"
  have other: "call_changes (ae_render E) cfg t call = (if ?t = t then ?cs else [])" for t
    by (cases "?t = t") (simp_all add: call_changes_def)
  show ?thesis
  proof (cases "rb_num_rows ?b = 0")
    case True
    then show ?thesis using inv by (auto simp: adbc_write_def Let_def call_changes_def no_stray_streams_def intro!: view_cong)
  next
    case ne: False
    let ?flush = "reuse_bulk_ingest_streams cfg \<and> should_flush cfg ?op"
    obtain r1 st1 where one: "(if ?flush then end_bulk_ingest_stream_for_table E cfg ?t ?st0 else (Inr (), ?st0)) = (r1, st1)" by force
    note w = adbc_write_def[of E K cfg call st, unfolded Let_def if_not_P[OF ne] one]
    show ?thesis
    proof (cases r1)
      case (Inl e)
      then show ?thesis by (simp add: w)
    next
      case (Inr u)
      have v1: "view cfg applied st1 t = view cfg applied st t" for t
        using end_stream_view(1)[OF drv strategy(2), of ?t ?st0 u st1 t] one Inr view_cong[of ?st0 st cfg applied t]
        by (cases ?flush) auto
      have s1: "as_streams st1 = (if ?flush then (as_streams st)(?t := None) else as_streams st)"
        using end_stream_view(2)[OF drv strategy(2), of ?t ?st0 u st1] one Inr by (cases ?flush) auto
      have quiet: "as_streams st1 ?t = None" if "should_flush cfg ?op \<or> \<not> reuse_bulk_ingest_streams cfg"
        using that s1 inv by (auto simp: no_stray_streams_def)
      obtain r2 st2 where two: "write_op E K cfg ?t ?b ?op st1 = Some (r2, st2)"
        and s2: "\<not> reuse_bulk_ingest_streams cfg \<longrightarrow> as_streams st2 = as_streams st1"
        and a2: "\<not> isl r2 \<longrightarrow> adds cfg applied ?t ?cs st1 st2"
        using write_op_adds[OF K drv q strategy wf ne quiet] by blast
      show ?thesis
      proof (cases r2)
        case (Inl e)
        then show ?thesis using \<open>r1 = Inr u\<close> two by (simp add: w)
      next
        case r2: (Inr w)
        let ?st' = "st2\<lparr>as_row_counts := count_rows ?t ?op (rb_num_rows ?b) (as_row_counts st2), as_in_flight := as_in_flight st2 - 1\<rparr>"
        have "adbc_write E K cfg call st = Some (Inr (), ?st')"
          using Inr two r2 by (simp add: w)
        moreover have "view cfg applied ?st' t = view cfg applied st t @ call_changes (ae_render E) cfg t call" for t
          using a2 r2 v1 view_cong[of ?st' st2 cfg applied t] by (simp add: other)
        moreover have "no_stray_streams cfg ?st'" using inv s1 s2 by (auto simp: no_stray_streams_def)
        ultimately show ?thesis by blast
      qed
    qed
  qed
qed

text \<open>The contracts the sink works under, with its invariant.\<close>

definition adbc_inv :: "'d adbc_env \<Rightarrow> kernels \<Rightarrow> adbc_config \<Rightarrow> ('d \<Rightarrow> effect list) \<Rightarrow> 'd adbc_sink \<Rightarrow> bool" where
  "adbc_inv E K cfg applied st \<longleftrightarrow> kernels_ok K \<and> driver_ok E applied \<and> quote_ok cfg
     \<and> update_strategy cfg \<noteq> StagingTable \<and> target_ok cfg \<and> no_stray_streams cfg st"

lemma adbc_write_in_order:
  assumes "adbc_inv E K cfg applied st" "wf_batch (wc_batch call) \<and> stays_in_target E cfg call"
  shows "\<exists>r st'. adbc_write E K cfg call st = Some (r, st') \<and> (\<not> isl r \<longrightarrow> adbc_inv E K cfg applied st'
     \<and> (\<forall>t. view cfg applied st' t = view cfg applied st t @ call_changes (ae_render E) cfg t call))"
  using adbc_write_adds[OF kernels_okD(1), of K E applied cfg call st] assms unfolding adbc_inv_def by blast

interpretation adbc: ordered_sink "adbc_write E K cfg" "view cfg applied" "call_changes (ae_render E) cfg"
    "adbc_inv E K cfg applied" "\<lambda>call. wf_batch (wc_batch call) \<and> stays_in_target E cfg call" for E K cfg applied
proof (unfold_locales, goal_cases)
  case (1 st call)
  then show ?case using adbc_write_in_order[OF 1] by blast
next
  case (2 st call u st')
  then show ?case using adbc_write_in_order[OF 2(1,2)] by auto
next
  case (3 st call u st' t)
  then show ?case using adbc_write_in_order[OF 3(1,2)] by auto
qed

lemma end_streams_view:
  assumes drv: "driver_ok E applied" "target_ok cfg"
  shows "end_streams E cfg order st = (None, st') \<Longrightarrow>
     view cfg applied st' t = view cfg applied st t \<and> as_streams st' = (as_streams st) |` (- set order)"
proof (induction order arbitrary: st)
  case Nil
  then show ?case by (simp add: restrict_map_def)
next
  case (Cons table order)
  obtain r1 st1 where one: "end_bulk_ingest_stream_for_table E cfg table st = (r1, st1)" by force
  then obtain u where u: "r1 = Inr u" and rest: "end_streams E cfg order st1 = (None, st')"
    using Cons.prems by (cases r1) (auto split: prod.splits)
  note v = end_stream_view[OF drv one[unfolded u]]
  show ?case using Cons.IH[OF rest] v(1) v(2) by (auto simp: restrict_map_def fun_eq_iff)
qed

lemma adbc_flush_view:
  assumes drv: "driver_ok E applied" "target_ok cfg" and f: "adbc_flush E cfg order st = (Inr u, st')"
    and open_: "dom (as_streams st) \<subseteq> set order" "no_stray_streams cfg st"
  shows "seen cfg t (applied (as_db st')) = view cfg applied st t"
proof (cases "reuse_bulk_ingest_streams cfg")
  case True
  then have e: "end_streams E cfg order st = (None, st')"
    using f by (auto simp: adbc_flush_def end_all_bulk_ingest_streams_def split: prod.splits option.splits)
  have "as_streams st' = Map.empty"
    using end_streams_view[OF drv e] open_(1) by (auto simp: restrict_map_def fun_eq_iff)
  then show ?thesis using end_streams_view[OF drv e, of t] by (auto simp: view_def pending_def)
next
  case False
  then show ?thesis using f open_(2) by (simp add: adbc_flush_def no_stray_streams_def view_def pending_def)
qed

text \<open>
  C30. The sink keeps the order of its calls on every table. Writes to any tables always return,
  whatever the connection answers; when all of them and the closing flush succeed, the calls that
  the connection answered with success put on each table, in the configured catalog and schema,
  what the writes for it asked for: in the order of the writes, each row and each statement
  once, although inserted rows travel on streams that stay open between writes. Row deletes and
  updates never overtake the inserts before them, and a statement changes the table of its
  write only. Updates are by statement or by ingest (not over a staging table), and a batch that
  is ingested directly is not split where a catalog or schema is configured: there the code
  leaves the configured place.
\<close>

theorem sink_keeps_call_order:
  assumes "kernels_ok K" and "identifier_quote_char cfg \<in> {CHR 34, CHR 96}"
    and "update_strategy cfg \<noteq> StagingTable" "target_ok cfg"
    and "\<forall>call \<in> set calls. wf_batch (wc_batch call) \<and> stays_in_target E cfg call"
  shows "\<exists>r st'. sink_writes (adbc_write (logged E) K cfg) calls (adbc_new (d, [])) = Some (r, st')
     \<and> (\<forall>order st'' t. r = Inr () \<longrightarrow> dom (as_streams st') \<subseteq> set order \<longrightarrow> adbc_flush (logged E) cfg order st' = (Inr (), st'') \<longrightarrow>
          seen cfg t (snd (as_db st'')) = concat (map (call_changes (ae_render E) cfg t) calls))"
proof -
  let ?E = "logged E" and ?d = "(d, []) :: 'a \<times> effect list"
  have ok: "\<forall>call \<in> set calls. wf_batch (wc_batch call) \<and> stays_in_target ?E cfg call" using assms(5) by (simp add: stays_logged)
  have inv: "adbc_inv ?E K cfg snd (adbc_new ?d)"
    using assms(1-4) logged_ok by (auto simp: adbc_inv_def quote_ok_def no_stray_streams_def adbc_new_def)
  have init: "view cfg snd (adbc_new ?d) t = []" for t
    by (simp add: adbc_new_def view_def pending_def)
  obtain r st' where r: "sink_writes (adbc_write ?E K cfg) calls (adbc_new ?d) = Some (r, st')"
    using adbc.writes_return[OF inv ok] by blast
  moreover have "seen cfg t (snd (as_db st'')) = concat (map (call_changes (ae_render E) cfg t) calls)"
    if h: "r = Inr ()" "dom (as_streams st') \<subseteq> set order" "adbc_flush ?E cfg order st' = (Inr (), st'')" for order st'' t
  proof -
    have v: "adbc_inv ?E K cfg snd st'" "view cfg snd st' t = concat (map (call_changes (ae_render E) cfg t) calls)"
      using adbc.writes_add[OF inv ok, of "()" st' t] r h(1) by (simp_all add: init)
    have "no_stray_streams cfg st'" using v(1) by (simp add: adbc_inv_def)
    then show ?thesis using adbc_flush_view[OF logged_ok assms(4) h(3,2), of t] v(2) by simp
  qed
  ultimately show ?thesis by blast
qed

definition demo_calls :: "write_call list" where
  "demo_calls = map (\<lambda>(t, op). \<lparr>wc_table = t, wc_batch_id = 0, wc_batch = demo_rows, wc_op = op, wc_partition_columns = []\<rparr>)
     [(''items'', Insert), (''other'', Insert), (''items'', Delete [''id'']), (''items'', Insert)]"

lemma demo_whole: "split_insert_batch_for_ingest (logged demo_env) list_kernels demo_config demo_rows = Some (Inr [demo_rows])"
proof -
  have "goes_whole (logged demo_env) demo_rows 1000 = Inr True"
    by (simp add: goes_whole_def Let_def approx_likely_safe_def approx_serialized_batch_size_def saturating_mul_def)
      (simp add: demo_env_def demo_rows_def)
  then show ?thesis by (simp add: split_insert_batch_for_ingest_def demo_config_def)
qed

lemma demo_run:
  "\<exists>st' st''. sink_writes (adbc_write (logged demo_env) list_kernels demo_config) demo_calls (adbc_new ([], [])) = Some (Inr (), st')
     \<and> dom (as_streams st') \<subseteq> set [''items'', ''other'']
     \<and> adbc_flush (logged demo_env) demo_config [''items'', ''other''] st' = (Inr (), st'')"
proof -
  let ?E = "logged demo_env"
  have env: "ae_connect ?E = (\<lambda>_. Inr ())" "ae_refuses ?E = (\<lambda>_ _ _. False)" "ae_worker_exited ?E = (\<lambda>_ _ _. False)"
      "ae_join_error ?E = (\<lambda>_ _ _. None)" "ae_ingest_stream ?E = (\<lambda>(d, l) t c s bs. (Inr (), d @ ingested t c s bs, l @ ingested t c s bs))"
      "ae_execute ?E = (\<lambda>(d, l) sql. (Inr (), d @ [Stmt sql], l @ [Stmt sql]))" "ae_render demo_env = demo_render"
    by (auto simp: demo_env_def logged_def logging_def)
  have cfg: "reuse_bulk_ingest_streams demo_config" by (simp add: demo_config_def)
  have rows: "rb_num_rows demo_rows \<noteq> 0" by (simp add: demo_rows_def)
  have "\<not> isl (delete_sql_statements demo_render demo_config ''items'' demo_rows [''id''])" by code_simp
  then obtain dels where dels: "delete_sql_statements demo_render demo_config ''items'' demo_rows [''id''] = Inr dels"
    by (auto simp: sum.disc_eq_case split: sum.splits)
  have exec: "execute_all ?E what sqls d = (Inr (), fst d @ map Stmt sqls, snd d @ map Stmt sqls)" for what sqls d
    by (induction sqls arbitrary: d) (auto simp: env split: prod.splits)
  note run = adbc_write_def write_op_def should_flush_def send_batch_via_reused_bulk_ingest_stream_def with_connection_def
    run_statements_def end_bulk_ingest_stream_for_table_def close_and_wait_def worker_end_def spawn_table_bulk_ingest_stream_def
    adbc_flush_def end_all_bulk_ingest_streams_def adbc_new_def Let_def
  show ?thesis by (simp add: demo_calls_def run env cfg rows dels exec demo_whole)
qed

theorem sink_keeps_call_order_witness:
  "\<exists>st' st''. sink_writes (adbc_write (logged demo_env) list_kernels demo_config) demo_calls (adbc_new ([], [])) = Some (Inr (), st')
     \<and> adbc_flush (logged demo_env) demo_config [''items'', ''other''] st' = (Inr (), st'')
     \<and> seen demo_config ''items'' (snd (as_db st'')) = concat (map (call_changes demo_render demo_config ''items'') demo_calls)"
proof -
  obtain st' st'' where run: "sink_writes (adbc_write (logged demo_env) list_kernels demo_config) demo_calls (adbc_new ([], [])) = Some (Inr (), st')"
    "dom (as_streams st') \<subseteq> set [''items'', ''other'']" "adbc_flush (logged demo_env) demo_config [''items'', ''other''] st' = (Inr (), st'')"
    using demo_run by blast
  have cfg: "identifier_quote_char demo_config \<in> {CHR 34, CHR 96}" "update_strategy demo_config \<noteq> StagingTable" "target_ok demo_config"
    "\<forall>call \<in> set demo_calls. wf_batch (wc_batch call) \<and> stays_in_target demo_env demo_config call" "ae_render demo_env = demo_render"
    using demo_rows_wf by (auto simp: demo_config_def demo_calls_def demo_env_def target_ok_def stays_in_target_def goes_direct_def)
  have "seen demo_config ''items'' (snd (as_db st'')) = concat (map (call_changes demo_render demo_config ''items'') demo_calls)"
    using sink_keeps_call_order[OF list_kernels_ok cfg(1-4), of "[]"] run unfolding cfg(5) by fastforce
  then show ?thesis using run by blast
qed

subsection \<open>The staging table\<close>

lemma best_effort_applies:
  assumes "driver_ok E applied"
  shows "\<exists>es. applied (snd (ae_execute E d sql)) = applied d @ es \<and> set es \<subseteq> {Stmt sql}"
proof -
  obtain r d' where "ae_execute E d sql = (r, d')" by force
  then show ?thesis using driver_okD(3)[OF assms] by (intro exI[of _ "if isl r then [] else [Stmt sql]"]) auto
qed

text \<open>
  An update over a staging table first puts its rows there, then merges them into the target, and
  touches the target by that one statement.
\<close>

lemma staging_merge_applies:
  assumes K: "slice_spec (k_slice K)" and drv: "driver_ok E applied" and wf: "wf_batch batch"
    and u: "staging_merge_update E K cfg table batch keys d = Some (Inr v, d')"
  shows "\<exists>ts es pre post. lands (\<lambda>_ _. True) (staging_name table ts) es (rows batch)
     \<and> applied d' = applied d @ es @ pre @ [Stmt (staging_merge_sql cfg table (staging_name table ts) (rb_schema batch) keys)] @ post
     \<and> set pre \<subseteq> {Stmt (''ANALYZE '' @ target_table_identifier cfg (staging_name table ts))}
     \<and> set post \<subseteq> {Stmt (''DROP TABLE IF EXISTS '' @ target_table_identifier cfg (staging_name table ts))}"
proof -
  let ?ts = "ae_now_ms E d"
  let ?stg = "staging_name table ?ts"
  let ?merge = "staging_merge_sql cfg table ?stg (rb_schema batch) keys"
  obtain r1 d1 where one: "(if staging_adapter cfg then ae_create_staging E d table ?stg else (Inr (), d)) = (r1, d1)" by force
  have a1: "applied d1 = applied d" using one driver_okD(4)[OF drv] by (cases "staging_adapter cfg") auto
  obtain r2 d2 where two: "ingest_insert_batch E K cfg ?stg batch d1 = Some (r2, d2)"
    and a2: "\<not> isl r2 \<longrightarrow> (\<exists>es. applied d2 = applied d1 @ es \<and> lands (\<lambda>_ _. True) ?stg es (rows batch))"
    using ingest_insert_batch_lands[of K E applied batch "\<lambda>_ _. True" cfg ?stg d1, OF K drv wf] by blast
  define d3 where "d3 = (if cfg_analyze_staging cfg
      then snd (ae_execute E d2 (''ANALYZE '' @ target_table_identifier cfg ?stg)) else d2)"
  obtain r4 d4 where four: "ae_execute E d3 ?merge = (r4, d4)" by force
  have guards: "keys \<noteq> []" "\<not> list_all (\<lambda>f. fld_name f \<in> set keys) (rb_schema batch)"
    using u by (auto simp: staging_merge_update_def split: if_splits)
  note unf = staging_merge_update_def[of E K cfg table batch keys d, unfolded Let_def one if_not_P[OF guards(1)] if_not_P[OF guards(2)]]
  obtain w1 where r1: "r1 = Inr w1" using u by (cases r1) (simp_all add: unf)
  obtain w2 where r2: "r2 = Inr w2" using u two by (cases r2) (simp_all add: unf r1)
  have "map_err (\<lambda>e. ''MERGE INTO update failed for '' @ table @ '': '' @ e) r4 = Inr v"
      "d' = drop_staging_table_best_effort E cfg ?stg d4"
    using u unfolding unf r1 by (simp_all add: two r2 d3_def[symmetric] four)
  then have ok: "\<not> isl r2" "\<not> isl r4" "d' = drop_staging_table_best_effort E cfg ?stg d4" using r2 by auto
  obtain es where es: "applied d2 = applied d1 @ es" "lands (\<lambda>_ _. True) ?stg es (rows batch)" using a2 ok(1) by blast
  obtain pre where pre: "applied d3 = applied d2 @ pre" "set pre \<subseteq> {Stmt (''ANALYZE '' @ target_table_identifier cfg ?stg)}"
    using best_effort_applies[OF drv, of d2] unfolding d3_def by (cases "cfg_analyze_staging cfg") auto
  obtain post where post: "applied d' = applied d4 @ post" "set post \<subseteq> {Stmt (''DROP TABLE IF EXISTS '' @ target_table_identifier cfg ?stg)}"
    using best_effort_applies[OF drv, of d4] unfolding ok(3) drop_staging_table_best_effort_def by blast
  have "applied d4 = applied d3 @ [Stmt ?merge]" using driver_okD(3)[OF drv four] ok(2) by simp
  then show ?thesis using es pre post a1
    by (intro exI[of _ ?ts] exI[of _ es] exI[of _ pre] exI[of _ post]) simp
qed

subsection \<open>Counters\<close>

text \<open>A failed write is never taken off the number of writes in flight.\<close>

lemma failed_write_stays_in_flight:
  assumes "as_streams st (wc_table call) = None" "rb_num_rows (wc_batch call) \<noteq> 0" "wc_op call = Delete keys"
    "ae_connect E (as_db st) = Inl e"
  shows "\<exists>msg st'. adbc_write E K cfg call st = Some (Inl msg, st') \<and> as_in_flight st' = as_in_flight st + 1"
  using assms by (simp add: adbc_write_def Let_def write_op_def with_connection_def end_bulk_ingest_stream_for_table_def)

end
