(* ===== verification/Validation.thy ===== *)
theory Validation
  imports Arrow Decimal F64
begin

text \<open>
  \<^verbatim>\<open>crates/test-framework/src/queries/validation/mod.rs\<close>: comparing a query result with the expected one.
  Values are rendered as text and compared as text, numbers within a tolerance of five
  percent. A slot of a float column is represented by the text Rust's \<^verbatim>\<open>Display\<close> prints for its value,
  and a boolean by 0 or 1.
\<close>

subsection \<open>Outcomes\<close>

datatype QueryValidationFailReason =
    NoExpectedAnswer
  | NoAnswer
  | SchemaMismatch
  | RowCountMismatch nat nat
  | DataMismatch string nat string string
  | ColumnLengthMismatch string nat nat

datatype QueryValidationResult = Pass | Fail QueryValidationFailReason

subsection \<open>Types\<close>

definition utc :: "string option \<Rightarrow> bool" where
  "utc tz \<longleftrightarrow> tz = Some ''UTC'' \<or> tz = Some ''+00:00''"

definition is_decimal128 :: "data_type \<Rightarrow> bool" where
  "is_decimal128 ty \<longleftrightarrow> (case ty of DDecimal128 _ _ \<Rightarrow> True | _ \<Rightarrow> False)"

definition lenient_pair :: "data_type \<Rightarrow> data_type \<Rightarrow> bool" where
  "lenient_pair expected_type actual_type \<longleftrightarrow>
     (case expected_type of
        DTimestamp unit1 tz1 \<Rightarrow>
          (case actual_type of
             DTimestamp unit2 tz2 \<Rightarrow> unit1 = unit2 \<and> (tz1 = None \<and> utc tz2 \<or> utc tz1 \<and> tz2 = None)
           | _ \<Rightarrow> False)
      | DDecimal128 _ _ \<Rightarrow> is_decimal128 actual_type \<or> actual_type \<in> {DInt64, DInt32, DFloat64}
      | DFloat32 \<Rightarrow> actual_type = DFloat64
      | DFloat64 \<Rightarrow> is_decimal128 actual_type
      | DInt32 \<Rightarrow> actual_type = DInt64
      | DInt64 \<Rightarrow> is_decimal128 actual_type
          \<or> actual_type \<in> {DInt32, DInt8, DFloat64, DUtf8, DLargeUtf8, DUtf8View}
      | DUtf8 \<Rightarrow> actual_type \<in> {DLargeUtf8, DUtf8View}
      | DLargeUtf8 \<Rightarrow> actual_type = DUtf8
      | DUtf8View \<Rightarrow> actual_type \<in> {DUtf8, DLargeUtf8}
      | DDate32 \<Rightarrow> actual_type = DDate64
      | DDate64 \<Rightarrow> actual_type = DDate32
      | _ \<Rightarrow> False)"

definition datatype_equivalent :: "data_type \<Rightarrow> data_type \<Rightarrow> bool" where
  "datatype_equivalent expected_type actual_type \<longleftrightarrow> expected_type = actual_type \<or> lenient_pair expected_type actual_type"

definition equivalent_schemas :: "schema \<Rightarrow> schema \<Rightarrow> bool" where
  "equivalent_schemas expected_schema actual_schema \<longleftrightarrow>
     length expected_schema = length actual_schema
   \<and> list_all (\<lambda>(f1, f2). datatype_equivalent (fld_type f1) (fld_type f2)) (zip expected_schema actual_schema)"

subsection \<open>Text\<close>

text \<open>
  The calendar of \<^verbatim>\<open>chrono\<close>: a day since the epoch as \<^verbatim>\<open>%Y-%m-%d\<close>, and an instant in seconds and nanoseconds
  since the epoch as \<^verbatim>\<open>%Y-%m-%d %H:%M:%S\<close> with a number of decimals; \<open>None\<close> when it is out of range.
\<close>

record calendar =
  cal_date :: "int \<Rightarrow> string option"
  cal_instant :: "int \<Rightarrow> int \<Rightarrow> nat \<Rightarrow> string option"

text \<open>Integer division of Rust, which truncates.\<close>

definition tdiv :: "int \<Rightarrow> int \<Rightarrow> int" where
  "tdiv a b = (if a < 0 then - ((- a) div b) else a div b)"

definition instant_text :: "calendar \<Rightarrow> int \<Rightarrow> int \<Rightarrow> nat \<Rightarrow> string option result" where
  "instant_text C ts scale decimals =
     (let secs = tdiv ts scale; sub = ts mod scale; nanos = sub * (10 ^ 9 div scale)
      in case cal_instant C secs nanos decimals of
           None \<Rightarrow> Inl ''Invalid timestamp''
         | Some s \<Rightarrow> Inr (Some s))"

definition date_text :: "calendar \<Rightarrow> int \<Rightarrow> string option result" where
  "date_text C days = (case cal_date C days of None \<Rightarrow> Inl ''Date out of range'' | Some s \<Rightarrow> Inr (Some s))"

definition decimal_text :: "int \<Rightarrow> nat \<Rightarrow> string" where
  "decimal_text val scale =
     (let sign = (if val < 0 then ''-'' else []);
          str_val = show_nat (nat \<bar>val\<bar>);
          len = length str_val;
          (int_part, frac_part) =
            (if len > scale then (take (len - scale) str_val, drop (len - scale) str_val)
             else (''0'', pad_left scale (CHR ''0'') str_val))
      in if frac_part = [] then sign @ int_part else sign @ int_part @ ''.'' @ frac_part)"

text \<open>A valid slot; a slot that does not hold what its type says is the failed downcast.\<close>

definition int_text :: "(int \<Rightarrow> string option result) \<Rightarrow> cell \<Rightarrow> string option result" where
  "int_text f v = (case v of CInt i \<Rightarrow> f i | _ \<Rightarrow> Inl ''Failed to downcast array'')"

definition str_text :: "cell \<Rightarrow> string option result" where
  "str_text v = (case v of CStr s \<Rightarrow> Inr (Some s) | _ \<Rightarrow> Inl ''Failed to downcast array'')"

definition float_text :: "cell \<Rightarrow> string option result" where
  "float_text v = (case v of CRaw s \<Rightarrow> Inr (Some s) | _ \<Rightarrow> Inl ''Failed to downcast array'')"

definition timestamp_text :: "calendar \<Rightarrow> time_unit \<Rightarrow> int \<Rightarrow> string option result" where
  "timestamp_text C unit ts =
     (case unit of
        Second \<Rightarrow> (case cal_instant C ts 0 0 of None \<Rightarrow> Inl ''Invalid timestamp'' | Some s \<Rightarrow> Inr (Some s))
      | Millisecond \<Rightarrow> instant_text C ts 1000 3
      | Microsecond \<Rightarrow> instant_text C ts (10 ^ 6) 6
      | Nanosecond \<Rightarrow> instant_text C ts (10 ^ 9) 9)"

definition cell_value_text :: "calendar \<Rightarrow> data_type \<Rightarrow> cell \<Rightarrow> string option result" where
  "cell_value_text C ty v =
     (if ty \<in> {DInt64, DInt32, DInt16, DInt8, DUInt64, DUInt32, DUInt16, DUInt8}
      then int_text (\<lambda>i. Inr (Some (show_int i))) v
      else if ty = DFloat32 \<or> ty = DFloat64 then float_text v
      else if ty = DUtf8 \<or> ty = DLargeUtf8 \<or> ty = DUtf8View then str_text v
      else case ty of
        DBoolean \<Rightarrow> int_text (\<lambda>i. Inr (Some (if i = 0 then ''false'' else ''true''))) v
      | DDate32 \<Rightarrow> int_text (date_text C) v
      | DDate64 \<Rightarrow> int_text (\<lambda>millis. date_text C (tdiv millis 86400000)) v
      | DDecimal128 _ scale \<Rightarrow>
          int_text (\<lambda>val. if scale < 0 then Inl ''out of range integral type conversion attempted''
                          else Inr (Some (decimal_text val (nat scale)))) v
      | DTimestamp unit _ \<Rightarrow> int_text (timestamp_text C unit) v
      | _ \<Rightarrow> Inl ''Unsupported data type for validation'')"

text \<open>A slot; \<^verbatim>\<open>is_null\<close> is false for an array of type \<^verbatim>\<open>Null\<close>, which is then unsupported.\<close>

definition cell_text :: "calendar \<Rightarrow> data_type \<Rightarrow> cell option \<Rightarrow> string option result" where
  "cell_text C ty c =
     (case c of
        Some v \<Rightarrow> cell_value_text C ty v
      | None \<Rightarrow> if ty = DNull then Inl ''Unsupported data type for validation'' else Inr None)"

definition array_value_to_string :: "calendar \<Rightarrow> array \<Rightarrow> nat \<Rightarrow> string option result" where
  "array_value_to_string C array index =
     (if length (arr_cells array) \<le> index
      then Inl (''Index out of bounds: '' @ show_nat index @ '' >= '' @ show_nat (length (arr_cells array)))
      else cell_text C (arr_type array) (arr_cells array ! index))"

subsection \<open>Numbers\<close>

text \<open>\<^verbatim>\<open>f64\<close> with its infinities and NaN; finite values are rationals, subnormals are not rounded.\<close>

datatype float = Fin rat | Infinite bool | NotANumber  \<comment> \<open>\<open>Infinite True\<close> is negative\<close>

definition finite_or_infinite :: "rat \<Rightarrow> float" where
  "finite_or_infinite x = (let r = f64_round x in if \<bar>r\<bar> \<ge> 2 ^ 1024 then Infinite (r < 0) else Fin r)"

definition lower_ascii :: "string \<Rightarrow> string" where
  "lower_ascii s = map (\<lambda>c. let n = of_char c :: nat in if 65 \<le> n \<and> n \<le> 90 then char_of (n + 32) else c) s"

definition split_sign :: "string \<Rightarrow> bool \<times> string" where
  "split_sign s = (case s of
     c # cs \<Rightarrow> if c = CHR ''-'' then (True, cs) else if c = CHR ''+'' then (False, cs) else (False, s)
   | [] \<Rightarrow> (False, []))"

definition parse_exponent :: "string \<Rightarrow> int option" where
  "parse_exponent s =
     (case s of
        [] \<Rightarrow> Some 0
      | c # cs \<Rightarrow>
          if c = CHR ''e'' \<or> c = CHR ''E''
          then case split_sign cs of (neg, ds) \<Rightarrow>
                 if ds \<noteq> [] \<and> list_all is_digit ds
                 then Some (if neg then - int (digits_value ds) else int (digits_value ds)) else None
          else None)"

text \<open>\<^verbatim>\<open>str::parse::<f64>\<close>: the double nearest to the decimal.\<close>

definition parse_f64 :: "string \<Rightarrow> float option" where
  "parse_f64 s =
     (case split_sign s of (neg, r) \<Rightarrow>
        if lower_ascii r = ''inf'' \<or> lower_ascii r = ''infinity'' then Some (Infinite neg)
        else if lower_ascii r = ''nan'' then Some NotANumber
        else
          let a = takeWhile is_digit r; r1 = drop (length a) r;
              (b, r2) = (case r1 of
                           c # cs \<Rightarrow> if c = CHR ''.'' then (takeWhile is_digit cs, dropWhile is_digit cs) else ([], r1)
                         | [] \<Rightarrow> ([], []))
          in if a @ b = [] then None
             else map_option (\<lambda>e.
                    let x = of_nat (digits_value (a @ b)) * 10 powi (e - int (length b)) :: rat
                    in finite_or_infinite (if neg then - x else x)) (parse_exponent r2))"

definition is_numeric :: "data_type \<Rightarrow> bool" where
  "is_numeric ty = (case ty of
     DDecimal128 _ _ \<Rightarrow> True | DDecimal256 _ _ \<Rightarrow> True
   | _ \<Rightarrow> ty \<in> {DInt8, DInt16, DInt32, DInt64, DUInt8, DUInt16, DUInt32, DUInt64, DFloat16, DFloat32, DFloat64})"

text \<open>\<open>diff <= tolerance\<close> with \<open>tolerance = (expected.abs() * 0.05).max(1e-12)\<close>.\<close>

definition within_tolerance :: "float \<Rightarrow> float \<Rightarrow> bool" where
  "within_tolerance expected_num actual_num \<longleftrightarrow>
     (case (expected_num, actual_num) of
        (Fin x, Fin y) \<Rightarrow>
          (case finite_or_infinite (x - y) of
             Fin d \<Rightarrow> \<bar>d\<bar> \<le> max (f64_mul \<bar>x\<bar> (f64_round (1 / 20))) (f64_round (1 / 10 ^ 12))
           | _ \<Rightarrow> False)
      | (Infinite s, Fin y) \<Rightarrow> True
      | (Infinite s, Infinite t) \<Rightarrow> s \<noteq> t
      | _ \<Rightarrow> False)"

definition numbers_match :: "data_type \<Rightarrow> string \<Rightarrow> string \<Rightarrow> bool" where
  "numbers_match ty expected_val actual_val \<longleftrightarrow> is_numeric ty
     \<and> (case (parse_f64 expected_val, parse_f64 actual_val) of
          (Some x, Some y) \<Rightarrow> within_tolerance x y
        | _ \<Rightarrow> False)"

subsection \<open>Comparison\<close>

text \<open>\<^verbatim>\<open>{:?}\<close> of a string; escapes inside the quotes are left as they are.\<close>

definition debug_str :: "string \<Rightarrow> string" where
  "debug_str s = [CHR 34] @ s @ [CHR 34]"

definition compare_slots :: "string \<Rightarrow> data_type \<Rightarrow> nat \<Rightarrow> string option \<Rightarrow> string option \<Rightarrow> QueryValidationResult" where
  "compare_slots column_name data_type row expected actual =
     (case (expected, actual) of
        (None, None) \<Rightarrow> Pass
      | (Some val, None) \<Rightarrow> Fail (DataMismatch column_name (row + 1) (debug_str val) ''None'')
      | (None, Some val) \<Rightarrow> Fail (DataMismatch column_name (row + 1) ''None'' (debug_str val))
      | (Some expected_val, Some actual_val) \<Rightarrow>
          if expected_val \<noteq> actual_val \<and> \<not> numbers_match data_type expected_val actual_val
          then Fail (DataMismatch column_name (row + 1) (debug_str expected_val) (debug_str actual_val))
          else Pass)"

fun compare_rows :: "calendar \<Rightarrow> field \<Rightarrow> array \<Rightarrow> array \<Rightarrow> nat list \<Rightarrow> QueryValidationResult result" where
  "compare_rows C field expected_array actual_array [] = Inr Pass"
| "compare_rows C field expected_array actual_array (row # rest) =
     and_then (array_value_to_string C expected_array row) (\<lambda>expected_val.
     and_then (array_value_to_string C actual_array row) (\<lambda>actual_val.
       case compare_slots (fld_name field) (fld_type field) row expected_val actual_val of
         Pass \<Rightarrow> compare_rows C field expected_array actual_array rest
       | Fail reason \<Rightarrow> Inr (Fail reason)))"

text \<open>The columns in order; \<open>None\<close> is the panic of a column index out of range.\<close>

fun compare_columns :: "calendar \<Rightarrow> record_batch \<Rightarrow> record_batch \<Rightarrow> (nat \<times> field) list \<Rightarrow> QueryValidationResult result option" where
  "compare_columns C expected actual [] = Some (Inr Pass)"
| "compare_columns C expected actual ((i, field) # rest) =
     (if i < length (rb_columns expected) \<and> i < length (rb_columns actual)
      then let expected_array = rb_columns expected ! i; actual_array = rb_columns actual ! i
           in if length (arr_cells expected_array) \<noteq> length (arr_cells actual_array)
              then Some (Inr (Fail (ColumnLengthMismatch (fld_name field) (length (arr_cells expected_array)) (length (arr_cells actual_array)))))
              else case compare_rows C field expected_array actual_array [0..<length (arr_cells expected_array)] of
                     Inl e \<Rightarrow> Some (Inl e)
                   | Inr (Fail reason) \<Rightarrow> Some (Inr (Fail reason))
                   | Inr Pass \<Rightarrow> compare_columns C expected actual rest
      else None)"

definition validate_batches_as_strings :: "calendar \<Rightarrow> record_batch \<Rightarrow> record_batch \<Rightarrow> QueryValidationResult result option" where
  "validate_batches_as_strings C expected actual =
     compare_columns C expected actual (zip [0..<length (rb_schema expected)] (rb_schema expected))"

text \<open>The part both entry points share: schemas, concatenation, row counts, data.\<close>

definition validate_batches ::
  "kernels \<Rightarrow> calendar \<Rightarrow> record_batch list \<Rightarrow> record_batch list \<Rightarrow> QueryValidationResult result option" where
  "validate_batches K C actual_batches expected_batches =
     (let expected_schema = rb_schema (hd expected_batches); actual_schema = rb_schema (hd actual_batches)
      in if \<not> equivalent_schemas expected_schema actual_schema then Some (Inr (Fail SchemaMismatch))
         else case k_concat_batches K expected_schema expected_batches of
                Inl e \<Rightarrow> Some (Inl e)
              | Inr expected \<Rightarrow>
                  (case k_concat_batches K actual_schema actual_batches of
                     Inl e \<Rightarrow> Some (Inl e)
                   | Inr actual \<Rightarrow>
                       if rb_num_rows expected \<noteq> rb_num_rows actual
                       then Some (Inr (Fail (RowCountMismatch (rb_num_rows expected) (rb_num_rows actual))))
                       else validate_batches_as_strings C expected actual))"

definition validate_with_expected_batches ::
  "kernels \<Rightarrow> calendar \<Rightarrow> record_batch list \<Rightarrow> record_batch list \<Rightarrow> QueryValidationResult result option" where
  "validate_with_expected_batches K C actual_batches expected_batches =
     (if expected_batches = [] \<and> actual_batches = [] then Some (Inr Pass)
      else if expected_batches = [] then Some (Inr (Fail NoExpectedAnswer))
      else if actual_batches = [] then Some (Inr (Fail NoAnswer))
      else validate_batches K C actual_batches expected_batches)"

text \<open>\<open>answers\<close> are the TPC-H answers read from the CSV files.\<close>

definition validate_tpch_query ::
  "kernels \<Rightarrow> calendar \<Rightarrow> (string \<rightharpoonup> record_batch list) \<Rightarrow> string \<Rightarrow> record_batch list \<Rightarrow> QueryValidationResult result option" where
  "validate_tpch_query K C answers query_name batches =
     (case answers query_name of
        None \<Rightarrow> Some (Inr (Fail NoExpectedAnswer))
      | Some expected_batches \<Rightarrow>
          if expected_batches = [] \<and> batches \<noteq> [] then Some (Inr (Fail NoExpectedAnswer))
          else if expected_batches = [] \<or> batches = [] then Some (Inr (Fail NoAnswer))
          else validate_batches K C batches expected_batches)"

definition validate_row_count :: "record_batch list \<Rightarrow> nat \<Rightarrow> QueryValidationResult" where
  "validate_row_count actual_batches expected_row_count =
     (let actual_row_count = sum_list (map rb_num_rows actual_batches)
      in if actual_row_count = expected_row_count then Pass
         else Fail (RowCountMismatch expected_row_count actual_row_count))"

subsection \<open>When a result passes\<close>

text \<open>
  The reference definition: two rows agree when every cell has the same text, or both cells
  are null, or the column is numeric and the numbers are within the tolerance.
\<close>

definition slots_agree :: "data_type \<Rightarrow> string option \<Rightarrow> string option \<Rightarrow> bool" where
  "slots_agree ty x y \<longleftrightarrow> x = y
     \<or> (case (x, y) of (Some v, Some w) \<Rightarrow> numbers_match ty v w | _ \<Rightarrow> False)"

definition cells_agree :: "calendar \<Rightarrow> field \<Rightarrow> field \<Rightarrow> cell option \<Rightarrow> cell option \<Rightarrow> bool" where
  "cells_agree C ef af c d \<longleftrightarrow>
     (case (cell_text C (fld_type ef) c, cell_text C (fld_type af) d) of
        (Inr x, Inr y) \<Rightarrow> slots_agree (fld_type ef) x y
      | _ \<Rightarrow> False)"

definition rows_agree :: "calendar \<Rightarrow> schema \<Rightarrow> schema \<Rightarrow> cell option list \<Rightarrow> cell option list \<Rightarrow> bool" where
  "rows_agree C es as r s \<longleftrightarrow> list_all (\<lambda>j. cells_agree C (es ! j) (as ! j) (r ! j) (s ! j)) [0..<length es]"

lemma compare_slots_pass: "compare_slots name ty row x y = Pass \<longleftrightarrow> slots_agree ty x y"
  by (auto simp: compare_slots_def slots_agree_def split: option.splits)

lemma compare_rows_pass:
  assumes "arr_type ea = fld_type field" "arr_type aa = fld_type af"
    and "\<forall>row \<in> set is. row < length (arr_cells ea) \<and> row < length (arr_cells aa)"
  shows "compare_rows C field ea aa is = Inr Pass \<longleftrightarrow>
    (\<forall>row \<in> set is. cells_agree C field af (arr_cells ea ! row) (arr_cells aa ! row))"
  using assms(3)
proof (induction "is")
  case (Cons row "is")
  let ?x = "cell_text C (fld_type field) (arr_cells ea ! row)"
  let ?y = "cell_text C (fld_type af) (arr_cells aa ! row)"
  have "compare_rows C field ea aa (row # is) =
     and_then ?x (\<lambda>x. and_then ?y (\<lambda>y.
       case compare_slots (fld_name field) (fld_type field) row x y of
         Pass \<Rightarrow> compare_rows C field ea aa is | Fail reason \<Rightarrow> Inr (Fail reason)))"
    using Cons.prems by (simp add: array_value_to_string_def assms(1,2))
  also have "(\<dots> = Inr Pass) \<longleftrightarrow>
      cells_agree C field af (arr_cells ea ! row) (arr_cells aa ! row) \<and> compare_rows C field ea aa is = Inr Pass"
    by (cases ?x; cases ?y)
      (auto simp: cells_agree_def compare_slots_pass[of "fld_name field" _ row, symmetric] split: QueryValidationResult.splits)
  finally show ?case using Cons by simp
qed simp

lemma compare_columns_pass:
  assumes wf: "wf_batch e" "wf_batch a" and len: "length (rb_schema e) = length (rb_schema a)"
    and rows: "rb_num_rows e = rb_num_rows a"
    and cols: "\<forall>(j, f) \<in> set js. j < length (rb_schema e) \<and> f = rb_schema e ! j"
  shows "compare_columns C e a js = Some (Inr Pass) \<longleftrightarrow>
    (\<forall>(j, f) \<in> set js. \<forall>i < rb_num_rows e. cells_agree C (rb_schema e ! j) (rb_schema a ! j)
       (arr_cells (rb_columns e ! j) ! i) (arr_cells (rb_columns a ! j) ! i))"
  using cols
proof (induction js)
  case (Cons jf js)
  obtain j f where jf: "jf = (j, f)" by (cases jf)
  have j: "j < length (rb_schema e)" "f = rb_schema e ! j" using Cons.prems jf by auto
  have E: "wf_column (rb_num_rows e) (rb_schema e ! j) (rb_columns e ! j)" "j < length (rb_columns e)"
    using wf(1) j by (auto simp: wf_batch_def list_all2_conv_all_nth)
  have A: "wf_column (rb_num_rows e) (rb_schema a ! j) (rb_columns a ! j)" "j < length (rb_columns a)"
    using wf(2) j len rows by (auto simp: wf_batch_def list_all2_conv_all_nth)
  let ?c = "compare_rows C f (rb_columns e ! j) (rb_columns a ! j) [0..<rb_num_rows e]"
  have lens: "length (arr_cells (rb_columns e ! j)) = rb_num_rows e" "length (arr_cells (rb_columns a ! j)) = rb_num_rows e"
    using E(1) A(1) by (simp_all add: wf_column_def)
  have step: "compare_columns C e a (jf # js) = Some (Inr Pass) \<longleftrightarrow>
      ?c = Inr Pass \<and> compare_columns C e a js = Some (Inr Pass)"
    using E(2) A(2) by (simp add: jf lens Let_def split: sum.splits QueryValidationResult.splits)
  have "?c = Inr Pass \<longleftrightarrow> (\<forall>i \<in> set [0..<rb_num_rows e]. cells_agree C (rb_schema e ! j) (rb_schema a ! j)
       (arr_cells (rb_columns e ! j) ! i) (arr_cells (rb_columns a ! j) ! i))"
    unfolding j(2) by (rule compare_rows_pass) (use E A lens in \<open>simp_all add: wf_column_def\<close>)
  then have "?c = Inr Pass \<longleftrightarrow> (\<forall>i < rb_num_rows e. cells_agree C (rb_schema e ! j) (rb_schema a ! j)
       (arr_cells (rb_columns e ! j) ! i) (arr_cells (rb_columns a ! j) ! i))"
    by (simp add: Ball_def)
  moreover have "compare_columns C e a js = Some (Inr Pass) \<longleftrightarrow> (\<forall>(j, f) \<in> set js. \<forall>i < rb_num_rows e.
      cells_agree C (rb_schema e ! j) (rb_schema a ! j) (arr_cells (rb_columns e ! j) ! i) (arr_cells (rb_columns a ! j) ! i))"
    using Cons by simp
  ultimately show ?case using step by (simp add: jf del: compare_columns.simps)
qed simp

lemma validate_batches_as_strings_pass:
  assumes wf: "wf_batch e" "wf_batch a" and len: "length (rb_schema e) = length (rb_schema a)"
    and rows: "rb_num_rows e = rb_num_rows a"
  shows "validate_batches_as_strings C e a = Some (Inr Pass) \<longleftrightarrow>
    list_all2 (rows_agree C (rb_schema e) (rb_schema a)) (rows e) (rows a)"
proof -
  have cols: "length (rb_columns e) = length (rb_schema e)" "length (rb_columns a) = length (rb_schema e)"
    using wf len by (auto simp: wf_batch_def list_all2_conv_all_nth)
  have "\<forall>(j, f) \<in> set (zip [0..<length (rb_schema e)] (rb_schema e)). j < length (rb_schema e) \<and> f = rb_schema e ! j"
    by (auto simp: set_zip)
  from compare_columns_pass[OF wf len rows this]
  have "validate_batches_as_strings C e a = Some (Inr Pass) \<longleftrightarrow>
    (\<forall>j < length (rb_schema e). \<forall>i < rb_num_rows e. cells_agree C (rb_schema e ! j) (rb_schema a ! j)
       (arr_cells (rb_columns e ! j) ! i) (arr_cells (rb_columns a ! j) ! i))"
    by (auto simp: validate_batches_as_strings_def set_zip)
  then show ?thesis
    using cols rows by (auto simp: list_all2_conv_all_nth rows_agree_def list_all_iff rows_nth)
qed

text \<open>
  C34. Comparing results is comparing rows: for batches of one schema each, the validation
  passes exactly when there is nothing on either side, or both sides have batches, the
  schemas are equivalent and the rows of the two results, in order and across their batch
  boundaries, agree cell by cell: same text, both null, or numbers within the tolerance.
\<close>

theorem results_pass_iff:
  assumes "kernels_ok K"
    and "\<forall>b \<in> set actual. wf_batch b \<and> rb_schema b = as"
    and "\<forall>b \<in> set expected. wf_batch b \<and> rb_schema b = es"
  shows "validate_with_expected_batches K C actual expected = Some (Inr Pass) \<longleftrightarrow>
     expected = [] \<and> actual = []
   \<or> expected \<noteq> [] \<and> actual \<noteq> [] \<and> equivalent_schemas es as
     \<and> list_all2 (rows_agree C es as) (concat (map rows expected)) (concat (map rows actual))"
proof (cases "expected = [] \<or> actual = []")
  case True
  then show ?thesis by (auto simp: validate_with_expected_batches_def)
next
  case False
  have hd: "rb_schema (hd expected) = es" "rb_schema (hd actual) = as" using False assms(2,3) by auto
  obtain e where e: "k_concat_batches K es expected = Inr e" "wf_batch e" "rb_schema e = es"
      "rows e = concat (map rows expected)"
    using concat_batches_ok[OF kernels_okD(2)[OF assms(1)], of expected es] False assms(3) by auto
  obtain a where a: "k_concat_batches K as actual = Inr a" "wf_batch a" "rb_schema a = as"
      "rows a = concat (map rows actual)"
    using concat_batches_ok[OF kernels_okD(2)[OF assms(1)], of actual as] False assms(2) by auto
  have "validate_batches K C actual expected = Some (Inr Pass) \<longleftrightarrow>
      equivalent_schemas es as \<and> rb_num_rows e = rb_num_rows a \<and> validate_batches_as_strings C e a = Some (Inr Pass)"
    by (simp add: validate_batches_def hd e(1) a(1))
  moreover have "length es = length as" if "equivalent_schemas es as"
    using that by (simp add: equivalent_schemas_def)
  moreover have "list_all2 (rows_agree C es as) (rows e) (rows a) \<Longrightarrow> rb_num_rows e = rb_num_rows a"
    using list_all2_lengthD[of _ "rows e" "rows a"] by simp
  ultimately show ?thesis
    using False validate_batches_as_strings_pass[OF e(2) a(2), of C]
    by (auto simp: validate_with_expected_batches_def e(3,4) a(3,4))
qed

subsection \<open>No panic\<close>

text \<open>Batches as the Arrow crate builds them: well formed, and of one schema.\<close>

definition uniform_batches :: "record_batch list \<Rightarrow> bool" where
  "uniform_batches bs \<longleftrightarrow> (\<exists>s. \<forall>b \<in> set bs. wf_batch b \<and> rb_schema b = s)"

lemma compare_columns_returns:
  "\<forall>(j, f) \<in> set js. j < length (rb_columns e) \<and> j < length (rb_columns a) \<Longrightarrow> compare_columns C e a js \<noteq> None"
  by (induction js) (auto simp: Let_def split: sum.splits QueryValidationResult.splits)

lemma validation_returns:
  assumes "kernels_ok K" "uniform_batches actual" "uniform_batches expected"
  shows "validate_with_expected_batches K C actual expected \<noteq> None"
proof (cases "expected = [] \<or> actual = []")
  case True
  then show ?thesis by (auto simp: validate_with_expected_batches_def)
next
  case False
  from assms(2,3) obtain as es where as: "\<forall>b \<in> set actual. wf_batch b \<and> rb_schema b = as"
      and es: "\<forall>b \<in> set expected. wf_batch b \<and> rb_schema b = es"
    by (auto simp: uniform_batches_def)
  have hd: "rb_schema (hd expected) = es" "rb_schema (hd actual) = as" using False as es by auto
  obtain e where e: "k_concat_batches K es expected = Inr e" "wf_batch e" "rb_schema e = es"
    using concat_batches_ok[OF kernels_okD(2)[OF assms(1)], of expected es] False es by auto
  obtain a where a: "k_concat_batches K as actual = Inr a" "wf_batch a" "rb_schema a = as"
    using concat_batches_ok[OF kernels_okD(2)[OF assms(1)], of actual as] False as by auto
  have len: "length (rb_columns e) = length es" "length (rb_columns a) = length as"
    using e(2,3) a(2,3) by (auto simp: wf_batch_def list_all2_conv_all_nth)
  have "compare_columns C e a (zip [0..<length es] es) \<noteq> None" if "length es = length as"
    by (rule compare_columns_returns) (use len that in \<open>auto simp: set_zip\<close>)
  then show ?thesis
    using False by (auto simp: validate_with_expected_batches_def validate_batches_def hd e a
        validate_batches_as_strings_def equivalent_schemas_def)
qed

text \<open>
  The seconds of a timestamp are truncated toward zero and its fraction is taken modulo the unit, so
  instants of the last second before the epoch have the text of instants after it.
\<close>

lemma timestamp_before_epoch: "timestamp_text C Millisecond (- 1) = timestamp_text C Millisecond 999"
  by (simp add: timestamp_text_def instant_text_def tdiv_def)

subsection \<open>The tolerance\<close>

text \<open>The rounding of the difference and of the bound, by a relative error \<open>\<epsilon>\<close> each.\<close>

lemma f64_round_abs: "\<bar>f64_round x\<bar> \<le> \<bar>x\<bar> * (1 + 1 / 2 ^ 53)" "\<bar>x\<bar> * (1 - 1 / 2 ^ 53) \<le> \<bar>f64_round x\<bar>"
  using f64_round_error[of x] by (auto simp: algebra_simps abs_if split: if_splits)

lemma five_percent_bounds:
  fixes x :: rat
  shows "f64_mul \<bar>x\<bar> (f64_round (1 / 20)) \<le> \<bar>x\<bar> / 20 * (1 + 1 / 2 ^ 53) ^ 2"
    and "\<bar>x\<bar> / 20 * (1 - 1 / 2 ^ 53) ^ 2 \<le> f64_mul \<bar>x\<bar> (f64_round (1 / 20))"
proof -
  have c: "0 \<le> f64_round (1 / 20)" "f64_round (1 / 20) \<le> 1 / 20 * (1 + 1 / 2 ^ 53)"
      "1 / 20 * (1 - 1 / 2 ^ 53) \<le> f64_round (1 / 20)"
    using f64_round_nonneg[of "1 / 20"] f64_round_upper[of "1 / 20"] f64_round_lower[of "1 / 20"] by simp_all
  have p: "0 \<le> \<bar>x\<bar> * f64_round (1 / 20)" using c by simp
  have "f64_mul \<bar>x\<bar> (f64_round (1 / 20)) \<le> \<bar>x\<bar> * f64_round (1 / 20) * (1 + 1 / 2 ^ 53)"
    unfolding f64_mul_def by (rule f64_round_upper[OF p])
  also have "\<dots> \<le> \<bar>x\<bar> * (1 / 20 * (1 + 1 / 2 ^ 53)) * (1 + 1 / 2 ^ 53)"
    by (intro mult_right_mono mult_left_mono c) simp_all
  finally show "f64_mul \<bar>x\<bar> (f64_round (1 / 20)) \<le> \<bar>x\<bar> / 20 * (1 + 1 / 2 ^ 53) ^ 2"
    by (simp add: power2_eq_square mult.assoc)
  have "\<bar>x\<bar> * (1 / 20 * (1 - 1 / 2 ^ 53)) * (1 - 1 / 2 ^ 53) \<le> \<bar>x\<bar> * f64_round (1 / 20) * (1 - 1 / 2 ^ 53)"
    by (intro mult_right_mono mult_left_mono c) simp_all
  also have "\<dots> \<le> f64_mul \<bar>x\<bar> (f64_round (1 / 20))"
    unfolding f64_mul_def by (rule f64_round_lower[OF p])
  finally show "\<bar>x\<bar> / 20 * (1 - 1 / 2 ^ 53) ^ 2 \<le> f64_mul \<bar>x\<bar> (f64_round (1 / 20))"
    by (simp add: power2_eq_square mult.assoc)
qed

lemma floor_bounds:
  "f64_round (1 / 10 ^ 12) \<le> 1 / 10 ^ 12 * (1 + 1 / 2 ^ 53) ^ 2"
  "1 / 10 ^ 12 * (1 - 1 / 2 ^ 53) ^ 2 \<le> f64_round (1 / 10 ^ 12)"
  using f64_round_upper[of "1 / 10 ^ 12"] f64_round_lower[of "1 / 10 ^ 12"] by (simp_all add: power2_eq_square)

definition five_percent :: "rat \<Rightarrow> rat" where
  "five_percent x = max (\<bar>x\<bar> / 20) (1 / 10 ^ 12)"

lemma tolerance_bounds:
  fixes x :: rat
  defines "t \<equiv> max (f64_mul \<bar>x\<bar> (f64_round (1 / 20))) (f64_round (1 / 10 ^ 12))"
  shows "t \<le> five_percent x * (1 + 1 / 2 ^ 53) ^ 2" "five_percent x * (1 - 1 / 2 ^ 53) ^ 2 \<le> t"
proof -
  have m: "five_percent x * c = max (\<bar>x\<bar> / 20 * c) (1 / 10 ^ 12 * c)" if "0 \<le> c" for c
    using that by (simp add: five_percent_def max_mult_distrib_right)
  show "t \<le> five_percent x * (1 + 1 / 2 ^ 53) ^ 2"
    unfolding t_def m[OF zero_le_power2] by (rule max.mono) (rule five_percent_bounds floor_bounds)+
  show "five_percent x * (1 - 1 / 2 ^ 53) ^ 2 \<le> t"
    unfolding t_def m[OF zero_le_power2] by (rule max.mono) (rule five_percent_bounds floor_bounds)+
qed

lemma rounded_within:
  fixes d m t e :: rat
  assumes "0 \<le> m" "\<bar>r\<bar> \<le> D * (1 + 1 / 2 ^ 53)" "D * (1 - 1 / 2 ^ 53) \<le> \<bar>r\<bar>"
    and "t \<le> m * (1 + 1 / 2 ^ 53) ^ 2" "m * (1 - 1 / 2 ^ 53) ^ 2 \<le> t"
  shows "\<bar>r\<bar> \<le> t \<Longrightarrow> D \<le> m * (1 + 1 / 2 ^ 50)" "D \<le> m * (1 - 1 / 2 ^ 50) \<Longrightarrow> \<bar>r\<bar> \<le> t"
proof -
  assume "\<bar>r\<bar> \<le> t"
  with assms have "D * (1 - 1 / 2 ^ 53) \<le> m * (1 + 1 / 2 ^ 53) ^ 2" by linarith
  also have "\<dots> \<le> m * ((1 + 1 / 2 ^ 50) * (1 - 1 / 2 ^ 53))"
    using assms(1) by (intro mult_left_mono) (simp_all add: power2_eq_square)
  finally have "D * (1 - 1 / 2 ^ 53) \<le> m * (1 + 1 / 2 ^ 50) * (1 - 1 / 2 ^ 53)" by (simp only: mult.assoc)
  then show "D \<le> m * (1 + 1 / 2 ^ 50)" by (rule mult_right_le_imp_le) simp
next
  assume "D \<le> m * (1 - 1 / 2 ^ 50)"
  then have "D * (1 + 1 / 2 ^ 53) \<le> m * (1 - 1 / 2 ^ 50) * (1 + 1 / 2 ^ 53)"
    by (rule mult_right_mono) simp
  also have "\<dots> = m * ((1 - 1 / 2 ^ 50) * (1 + 1 / 2 ^ 53))" by (simp only: mult.assoc)
  also have "\<dots> \<le> m * (1 - 1 / 2 ^ 53) ^ 2"
    using assms(1) by (intro mult_left_mono) (simp_all add: power2_eq_square)
  finally show "\<bar>r\<bar> \<le> t" using assms by linarith
qed

lemma f64_round_range:
  assumes "\<bar>x\<bar> \<le> 2 ^ 1023"
  shows "\<not> 2 ^ 1024 \<le> \<bar>f64_round x\<bar>"
proof -
  have "\<bar>f64_round x\<bar> \<le> \<bar>x\<bar> * (1 + 1 / 2 ^ 53)" by (rule f64_round_abs)
  also have "\<dots> \<le> 2 ^ 1023 * (1 + 1 / 2 ^ 53)" using assms by (rule mult_right_mono) simp
  also have "\<dots> < 2 ^ 1023 * 2" by (rule mult_strict_left_mono) simp_all
  also have "\<dots> = (2 :: rat) ^ 1024" by simp
  finally show ?thesis by simp
qed

lemma within_tolerance_bounds:
  fixes x y :: rat
  shows "\<bar>x - y\<bar> \<le> 2 ^ 1023 \<Longrightarrow> \<bar>x - y\<bar> \<le> five_percent x * (1 - 1 / 2 ^ 50) \<Longrightarrow> within_tolerance (Fin x) (Fin y)"
    and "within_tolerance (Fin x) (Fin y) \<Longrightarrow> \<bar>x - y\<bar> \<le> five_percent x * (1 + 1 / 2 ^ 50)"
proof -
  note b = rounded_within[of "five_percent x" "f64_round (x - y)" "\<bar>x - y\<bar>"
      "max (f64_mul \<bar>x\<bar> (f64_round (1 / 20))) (f64_round (1 / 10 ^ 12))", OF _ f64_round_abs tolerance_bounds]
  have nn: "0 \<le> five_percent x" by (simp add: five_percent_def le_max_iff_disj)
  show "within_tolerance (Fin x) (Fin y)" if "\<bar>x - y\<bar> \<le> 2 ^ 1023" "\<bar>x - y\<bar> \<le> five_percent x * (1 - 1 / 2 ^ 50)"
    using that b[OF nn] f64_round_range[of "x - y"]
    by (simp only: within_tolerance_def finite_or_infinite_def Let_def prod.case float.case if_False)
  show "\<bar>x - y\<bar> \<le> five_percent x * (1 + 1 / 2 ^ 50)" if "within_tolerance (Fin x) (Fin y)"
    using that b[OF nn]
    by (auto simp only: within_tolerance_def finite_or_infinite_def Let_def prod.case float.case split: if_splits)
qed

subsection \<open>Decimals as text\<close>

lemma lower_ascii_digit:
  assumes "is_digit c"
  shows "lower_ascii (c # cs) = c # lower_ascii cs" "c \<noteq> CHR ''i''" "c \<noteq> CHR ''n''"
  using assms by (auto simp: lower_ascii_def is_digit_def Let_def)

lemma parse_f64_decimal:
  assumes a: "a \<noteq> []" "list_all is_digit a" and b: "list_all is_digit b"
  shows "parse_f64 ((if neg then ''-'' else []) @ a @ (if b = [] then [] else ''.'' @ b)) =
     Some (finite_or_infinite ((if neg then - 1 else 1) * of_nat (digits_value (a @ b)) * 10 powi (- int (length b))))"
proof -
  let ?t = "if b = [] then [] else ''.'' @ b"
  obtain c cs where c: "a = c # cs" using a(1) by (cases a) auto
  have dig: "is_digit c" using a(2) c by simp
  have sg: "split_sign ((if neg then ''-'' else []) @ a @ ?t) = (neg, a @ ?t)"
    using dig by (auto simp: split_sign_def c)
  have no: "lower_ascii (a @ ?t) \<notin> {''inf'', ''infinity'', ''nan''}"
    using lower_ascii_digit(1)[OF dig, of "cs @ ?t"] lower_ascii_digit(2,3)[OF dig] by (simp add: c)
  have tw: "takeWhile is_digit (a @ ?t) = a"
    by (rule takeWhile_digits(1)[OF a(2)]) (auto simp: is_digit_def split: if_splits)
  have bb: "takeWhile is_digit b = b" "dropWhile is_digit b = []"
    using takeWhile_digits[OF b, of "[]"] by simp_all
  show ?thesis
    using no a(1) unfolding parse_f64_def sg prod.case tw
    by (auto simp: parse_exponent_def bb)
qed

text \<open>The text of a decimal column is read back as the double nearest to the value of the decimal.\<close>

theorem decimal_text_reads_back:
  "parse_f64 (decimal_text v s) = Some (finite_or_infinite (of_int v / 10 ^ s))"
proof -
  define u where "u = show_nat (nat \<bar>v\<bar>)"
  define a where "a = (if length u > s then take (length u - s) u else ''0'')"
  define b where "b = (if length u > s then drop (length u - s) u else pad_left s (CHR ''0'') u)"
  have t: "decimal_text v s = (if v < 0 then ''-'' else []) @ a @ (if b = [] then [] else ''.'' @ b)"
    by (simp add: decimal_text_def Let_def u_def[symmetric] a_def b_def)
  have "list_all is_digit u" by (simp add: u_def show_nat_digits)
  moreover have "u \<noteq> []" by (simp add: u_def)
  ultimately have d: "a \<noteq> []" "list_all is_digit a" "list_all is_digit b"
    by (auto simp: a_def b_def pad_left_def list_all_iff is_digit_def dest: in_set_takeD in_set_dropD)
  have l: "length b = s" by (simp add: b_def pad_left_def)
  have v: "digits_value (a @ b) = nat \<bar>v\<bar>"
    using digits_value_append[of "''0''" "pad_left s (CHR ''0'') u"] by (simp add: a_def b_def u_def digit_val_def)
  show ?thesis
    unfolding t parse_f64_decimal[OF d] l v by (simp add: power_int_minus divide_inverse)
qed

text \<open>
  C35. Numbers agree exactly up to five percent: the text of two decimals, whatever their scales, is read
  as the doubles nearest to their values, and with a relative slack of \<open>2\<^sup>-\<^sup>50\<close> for the rounding of the
  doubles, numbers whose difference is at most five percent of the expected number, or at
  most \<open>10\<^sup>-\<^sup>12\<close>, match and numbers further apart do not.
\<close>

theorem decimals_match_within_five_percent:
  assumes "x = f64_round (of_int v / 10 ^ s)" "y = f64_round (of_int w / 10 ^ t)"
    and "\<bar>x\<bar> < 2 ^ 1022" "\<bar>y\<bar> < 2 ^ 1022"
  shows "(\<bar>x - y\<bar> \<le> five_percent x * (1 - 1 / 2 ^ 50)
            \<longrightarrow> numbers_match (DDecimal128 p k) (decimal_text v s) (decimal_text w t))
       \<and> (numbers_match (DDecimal128 p k) (decimal_text v s) (decimal_text w t)
            \<longrightarrow> \<bar>x - y\<bar> \<le> five_percent x * (1 + 1 / 2 ^ 50))"
proof -
  have big: "(2::rat) ^ 1022 < 2 ^ 1024" by (rule power_strict_increasing) simp_all
  have "finite_or_infinite (of_int v / 10 ^ s) = Fin x" "finite_or_infinite (of_int w / 10 ^ t) = Fin y"
    using assms big unfolding finite_or_infinite_def Let_def by auto
  then have "numbers_match (DDecimal128 p k) (decimal_text v s) (decimal_text w t) \<longleftrightarrow> within_tolerance (Fin x) (Fin y)"
    by (simp add: numbers_match_def decimal_text_reads_back is_numeric_def)
  moreover have "\<bar>x - y\<bar> \<le> 2 ^ 1023"
  proof -
    have "\<bar>x - y\<bar> \<le> 2 * 2 ^ 1022" using assms(3,4) by linarith
    also have "\<dots> = 2 ^ 1023" by simp
    finally show ?thesis .
  qed
  ultimately show ?thesis using within_tolerance_bounds by blast
qed

theorem decimals_match_within_five_percent_witness:
  "numbers_match (DDecimal128 15 2) (decimal_text 10000 2) (decimal_text 104 0)"
proof -
  have r: "f64_round (of_int 10000 / 10 ^ 2) = 100" "f64_round (of_int 104 / 10 ^ 0) = 104"
    using f64_round_exact[of 100 0] f64_round_exact[of 104 0] by simp_all
  have "\<bar>100 :: rat\<bar> < 2 ^ 1022" "\<bar>104 :: rat\<bar> < 2 ^ 1022" by simp_all
  then show ?thesis
    using decimals_match_within_five_percent[OF r[symmetric], of 15 2] by (simp add: five_percent_def)
qed

lemma show_int_decimal: "show_int i = decimal_text i 0"
  by (simp add: show_int_def decimal_text_def)

lemma hundred_four_matches: "numbers_match DInt64 (show_int 100) (show_int 104)"
proof -
  have "finite_or_infinite 100 = Fin 100" "finite_or_infinite 104 = Fin 104"
    using f64_round_exact[of 100 0] f64_round_exact[of 104 0] by (simp_all add: finite_or_infinite_def)
  then have "parse_f64 (show_int 100) = Some (Fin 100)" "parse_f64 (show_int 104) = Some (Fin 104)"
    by (simp_all add: show_int_decimal decimal_text_reads_back)
  moreover have "within_tolerance (Fin 100) (Fin 104)"
    by (rule within_tolerance_bounds(1)) (simp_all add: five_percent_def)
  ultimately show ?thesis by (simp add: numbers_match_def is_numeric_def)
qed

text \<open>
  A count of rows returned as two batches against the answer in one batch: 104 instead of 100 is
  within five percent, and the null and the name agree.
\<close>

definition fixed_calendar :: calendar where
  "fixed_calendar = \<lparr>cal_date = (\<lambda>d. Some (show_int d)), cal_instant = (\<lambda>s n k. Some (show_int s))\<rparr>"

definition answer_schema :: schema where
  "answer_schema = [\<lparr>fld_name = ''name'', fld_type = DUtf8, fld_nullable = True\<rparr>,
                    \<lparr>fld_name = ''total'', fld_type = DInt64, fld_nullable = True\<rparr>]"

definition answer_batch :: "(cell option \<times> cell option) list \<Rightarrow> record_batch" where
  "answer_batch rs = \<lparr>rb_schema = answer_schema,
     rb_columns = [\<lparr>arr_type = DUtf8, arr_cells = map fst rs\<rparr>, \<lparr>arr_type = DInt64, arr_cells = map snd rs\<rparr>],
     rb_num_rows = length rs\<rparr>"

lemma answer_batch_wf [simp]: "wf_batch (answer_batch rs)" "rb_schema (answer_batch rs) = answer_schema"
  by (simp_all add: answer_batch_def wf_batch_def answer_schema_def wf_column_def)

definition shown_result :: "record_batch list" where
  "shown_result = [answer_batch [(Some (CStr ''a''), Some (CInt 104))], answer_batch [(None, None)]]"

definition shown_answer :: "record_batch list" where
  "shown_answer = [answer_batch [(Some (CStr ''a''), Some (CInt 100)), (None, None)]]"

lemma shown_rows:
  "concat (map rows shown_answer) = [[Some (CStr ''a''), Some (CInt 100)], [None, None]]"
  "concat (map rows shown_result) = [[Some (CStr ''a''), Some (CInt 104)], [None, None]]"
  by (simp_all add: shown_answer_def shown_result_def answer_batch_def rows_def upt_rec)

lemma shown_rows_agree:
  "rows_agree C answer_schema answer_schema [Some (CStr ''a''), Some (CInt 100)] [Some (CStr ''a''), Some (CInt 104)]"
  "rows_agree C answer_schema answer_schema [None, None] [None, None]"
proof -
  show "rows_agree C answer_schema answer_schema [Some (CStr ''a''), Some (CInt 100)] [Some (CStr ''a''), Some (CInt 104)]"
    using hundred_four_matches
    by (simp add: rows_agree_def answer_schema_def upt_rec cells_agree_def cell_text_def cell_value_text_def
        str_text_def int_text_def slots_agree_def)
  show "rows_agree C answer_schema answer_schema [None, None] [None, None]"
    by (simp add: rows_agree_def answer_schema_def upt_rec cells_agree_def cell_text_def slots_agree_def)
qed

theorem results_pass_iff_witness:
  "validate_with_expected_batches list_kernels fixed_calendar shown_result shown_answer = Some (Inr Pass)"
proof -
  have "equivalent_schemas answer_schema answer_schema"
    by (simp add: equivalent_schemas_def answer_schema_def datatype_equivalent_def)
  moreover have "\<forall>b \<in> set shown_result. wf_batch b \<and> rb_schema b = answer_schema"
      "\<forall>b \<in> set shown_answer. wf_batch b \<and> rb_schema b = answer_schema"
    by (simp_all add: shown_result_def shown_answer_def)
  moreover have "shown_answer \<noteq> []" "shown_result \<noteq> []" by (simp_all add: shown_result_def shown_answer_def)
  ultimately show ?thesis
    using results_pass_iff[OF list_kernels_ok, of shown_result answer_schema shown_answer answer_schema fixed_calendar]
      shown_rows shown_rows_agree by simp
qed

end
