(* ===== verification/Checkpoint.thy ===== *)
theory Checkpoint
  imports Validation DurationParse "HOL-Library.List_Lexorder" "HOL-Library.Char_ord"
begin

text \<open>
  \<^verbatim>\<open>src/commands/load/mod.rs\<close>: the validation window of a checkpoint. The harness first waits for the row
  counts of the tables, then sends probes of one query until one of them returns the expected
  result, and then runs the full query set. What the system under test, the clock and the
  cancellation token answer during one iteration of a loop is a \<open>tick\<close>, and a run is a list of ticks;
  the theorems hold for every list.
\<close>

subsection \<open>Queries\<close>

datatype ParameterValue = PString string | PNumber int | PFloat f64

record Query =
  q_name :: string
  q_sql :: string
  q_overridden :: bool
  q_parameters :: "ParameterValue list option"

definition Query_new :: "string \<Rightarrow> string \<Rightarrow> bool \<Rightarrow> Query" where
  "Query_new name sql overridden = \<lparr>q_name = name, q_sql = sql, q_overridden = overridden, q_parameters = None\<rparr>"

text \<open>
  The crate \<^verbatim>\<open>sqlparser\<close>: a parser into statements, a visitor that maps the names of the relations of a
  statement, each a list of parts, and a printer.
\<close>

record 'st sqlparser =
  sp_parse :: "string \<Rightarrow> 'st list result"
  sp_map_relations :: "(string list \<Rightarrow> string list) \<Rightarrow> 'st \<Rightarrow> 'st"
  sp_print :: "'st \<Rightarrow> string"

fun split_char :: "char \<Rightarrow> string \<Rightarrow> string list" where
  "split_char c [] = [[]]"
| "split_char c (x # xs) =
     (if x = c then [] # split_char c xs
      else case split_char c xs of p # ps \<Rightarrow> (x # p) # ps | [] \<Rightarrow> [[x]])"

definition rewrite_with_reference_schema :: "'st sqlparser \<Rightarrow> Query \<Rightarrow> string \<Rightarrow> Query result" where
  "rewrite_with_reference_schema SP query reference_schema =
     (let namespace_parts = filter (\<lambda>part. part \<noteq> []) (split_char (CHR ''.'') reference_schema)
      in case sp_parse SP (q_sql query) of
           Inl e \<Rightarrow> Inl (''Failed to parse query '' @ q_name query @ '' for reference schema rewrite: '' @ e)
         | Inr statements \<Rightarrow>
             if length statements \<noteq> 1
             then Inl (''Query '' @ q_name query @ '' has '' @ show_nat (length statements) @ '' SQL statements'')
             else Inr (query\<lparr>q_sql := sp_print SP (sp_map_relations SP
                    (\<lambda>table_name. if length table_name = 1 then namespace_parts @ table_name else table_name)
                    (hd statements))\<rparr>))"

subsection \<open>Expected results\<close>

text \<open>
  A checkpoint directory: \<open>None\<close> when it does not exist, else its parquet files by query index, with the
  batches the parquet reader yields, and the row counts \<^verbatim>\<open>serde_json\<close> reads from its \<^verbatim>\<open>row_counts.json\<close>.
\<close>

record checkpoint_files =
  cf_parquet :: "nat \<Rightarrow> record_batch list result option"
  cf_row_counts :: "(string \<times> nat) list result option"

fun load_results_loop :: "checkpoint_files \<Rightarrow> nat \<Rightarrow> string list \<Rightarrow> (string \<rightharpoonup> record_batch list) \<Rightarrow> (string \<rightharpoonup> record_batch list) result" where
  "load_results_loop dir query_idx [] results = Inr results"
| "load_results_loop dir query_idx (query_name # names) results =
     (case cf_parquet dir query_idx of
        None \<Rightarrow> load_results_loop dir (query_idx + 1) names results
      | Some (Inl e) \<Rightarrow> Inl e
      | Some (Inr batches) \<Rightarrow> load_results_loop dir (query_idx + 1) names (results(query_name \<mapsto> batches)))"

definition load_checkpoint_results ::
  "(nat \<rightharpoonup> checkpoint_files) \<Rightarrow> nat \<Rightarrow> string list \<Rightarrow> (string \<rightharpoonup> record_batch list) result" where
  "load_checkpoint_results dirs checkpoint_idx query_names =
     (case dirs checkpoint_idx of
        None \<Rightarrow> Inl ''Checkpoint directory does not exist''
      | Some dir \<Rightarrow> load_results_loop dir 0 query_names Map.empty)"

text \<open>The table counts are a hash map: a list of its entries in the order of its iteration.\<close>

definition load_checkpoint_row_counts :: "(nat \<rightharpoonup> checkpoint_files) \<Rightarrow> nat \<Rightarrow> (string \<times> nat) list result" where
  "load_checkpoint_row_counts dirs checkpoint_idx =
     (case Option.bind (dirs checkpoint_idx) cf_row_counts of
        None \<Rightarrow> Inr []
      | Some r \<Rightarrow> r)"

subsection \<open>Row counts\<close>

definition usize_max :: nat where "usize_max = 2 ^ 64 - 1"

definition checkpoint_count_query :: "'st sqlparser \<Rightarrow> string \<Rightarrow> string option \<Rightarrow> Query result" where
  "checkpoint_count_query SP table_name query_catalog_namespace =
     (let query = Query_new (''checkpoint_row_count_'' @ table_name)
                            (''SELECT COUNT(*) AS row_count FROM '' @ table_name) False
      in case map_option trim query_catalog_namespace of
           Some namespace \<Rightarrow> if namespace \<noteq> [] then rewrite_with_reference_schema SP query namespace else Inr query
         | None \<Rightarrow> Inr query)"

definition extract_row_count_from_batches :: "calendar \<Rightarrow> record_batch list \<Rightarrow> nat result" where
  "extract_row_count_from_batches C batches =
     (case batches of
        [] \<Rightarrow> Inl ''row count query returned no batches''
      | batch # _ \<Rightarrow>
          if rb_num_rows batch = 0 \<or> rb_columns batch = []
          then Inl ''row count query returned an empty result set''
          else and_then (array_value_to_string C (rb_columns batch ! 0) 0) (\<lambda>v.
                 case v of
                   None \<Rightarrow> Inl ''row count query returned NULL''
                 | Some value \<Rightarrow>
                     (case parse_unsigned usize_max value of
                        None \<Rightarrow> Inl (''failed to parse row count '' @ value)
                      | Some n \<Rightarrow> Inr n)))"

type_synonym exec_answer = "record_batch list option result"  \<comment> \<open>the batches of an \<open>ExecutionResult\<close>\<close>

definition table_count_matches ::
  "'st sqlparser \<Rightarrow> calendar \<Rightarrow> string option \<Rightarrow> (Query \<Rightarrow> exec_answer) \<Rightarrow> string \<times> nat \<Rightarrow> bool" where
  "table_count_matches SP C namespace execute entry =
     (case checkpoint_count_query SP (fst entry) namespace of
        Inl err \<Rightarrow> False
      | Inr query \<Rightarrow>
          (case execute query of
             Inl err \<Rightarrow> False
           | Inr None \<Rightarrow> False
           | Inr (Some batches) \<Rightarrow>
               (case extract_row_count_from_batches C batches of
                  Inl err \<Rightarrow> False
                | Inr actual_count \<Rightarrow> actual_count = snd entry)))"

fun counts_loop :: "(string \<times> nat \<Rightarrow> bool) \<Rightarrow> (string \<times> nat) list \<Rightarrow> bool" where
  "counts_loop matches [] = True"
| "counts_loop matches (entry # tables) = (if \<not> matches entry then False else counts_loop matches tables)"

definition validate_checkpoint_table_row_counts ::
  "'st sqlparser \<Rightarrow> calendar \<Rightarrow> (Query \<Rightarrow> exec_answer) \<Rightarrow> (string \<times> nat) list \<Rightarrow> string option \<Rightarrow> bool" where
  "validate_checkpoint_table_row_counts SP C execute expected_row_counts namespace =
     (if expected_row_counts = [] then True
      else counts_loop (table_count_matches SP C namespace execute) (sort_key fst expected_row_counts))"

subsection \<open>One iteration\<close>

text \<open>How a probe task ends: it panics, its query fails, or its query answers.\<close>

datatype probe_end = JoinFailed | ExecFailed | Answered "record_batch list"

text \<open>
  A task handle is the number of its probe and what the task will end with; \<open>tk_finished\<close> says which probes
  have ended when they are looked at. \<open>tk_order\<close> is the order in which the queries of a full validation
  complete, as indices, and \<open>tk_full\<close> their answers.
\<close>

record ProbeFlight =
  pf_send_time :: nat
  pf_no :: nat
  pf_result :: probe_end

record tick =
  tk_now :: nat
  tk_cancelled :: bool
  tk_exec :: "Query \<Rightarrow> exec_answer"
  tk_sent :: nat
  tk_probe :: probe_end
  tk_finished :: "nat \<Rightarrow> bool"
  tk_checked :: nat
  tk_order :: "nat list"
  tk_full :: "nat \<Rightarrow> exec_answer"

datatype ProbeOutcome = ProbePassed nat | ProbeTimedOut | ProbeInterrupted

datatype CheckpointValidationResult = Converged f64 | TimedOut | Interrupted

text \<open>A call returns, panics, or is still waiting when the list of ticks ends.\<close>

datatype 'a progress = Returned 'a | Panicked | Waiting

definition MAX_PROBE_IN_FLIGHT :: nat where "MAX_PROBE_IN_FLIGHT = 5"

definition passes :: "kernels \<Rightarrow> calendar \<Rightarrow> record_batch list \<Rightarrow> record_batch list \<Rightarrow> bool" where
  "passes K C actual expected \<longleftrightarrow> validate_with_expected_batches K C actual expected = Some (Inr Pass)"

definition panics :: "kernels \<Rightarrow> calendar \<Rightarrow> record_batch list \<Rightarrow> record_batch list \<Rightarrow> bool" where
  "panics K C actual expected \<longleftrightarrow> validate_with_expected_batches K C actual expected = None"

definition dispatch :: "tick \<Rightarrow> ProbeFlight list \<Rightarrow> nat \<Rightarrow> ProbeFlight list \<times> nat" where
  "dispatch t in_flight probe_count =
     (if length in_flight < MAX_PROBE_IN_FLIGHT
      then (in_flight @ [\<lparr>pf_send_time = tk_sent t, pf_no = probe_count + 1, pf_result = tk_probe t\<rparr>], probe_count + 1)
      else (in_flight, probe_count))"

text \<open>The drain loop: \<open>None\<close> is a panic, else the send time of a probe that passed and the probes left.\<close>

function drain :: "kernels \<Rightarrow> calendar \<Rightarrow> record_batch list \<Rightarrow> (nat \<Rightarrow> bool) \<Rightarrow> nat \<Rightarrow> ProbeFlight list
    \<Rightarrow> (nat option \<times> ProbeFlight list) option" where
  "drain K C expected finished i in_flight =
     (if i < length in_flight
      then if finished (pf_no (in_flight ! i))
           then case swap_remove in_flight i of
                  None \<Rightarrow> None
                | Some rest \<Rightarrow>
                    (case pf_result (in_flight ! i) of
                       Answered batches \<Rightarrow>
                         if panics K C batches expected then None
                         else if passes K C batches expected then Some (Some (pf_send_time (in_flight ! i)), rest)
                         else drain K C expected finished i rest
                     | _ \<Rightarrow> drain K C expected finished i rest)
           else drain K C expected finished (i + 1) in_flight
      else Some (None, in_flight))"
  by pat_completeness auto
termination
  by (relation "measure (\<lambda>(K, C, expected, finished, i, in_flight). length in_flight - i)")
    (auto dest: swap_remove_length)

declare drain.simps [simp del]

subsection \<open>The loops\<close>

text \<open>
  The phase of the probes; the tick in which it returns and the ticks after it are returned too. The
  probes still in flight when one has passed are awaited before the code goes on; their answers
  are dropped, so the wait does not show here.
\<close>

fun probe_until_pass :: "kernels \<Rightarrow> calendar \<Rightarrow> record_batch list \<Rightarrow> nat \<Rightarrow> ProbeFlight list \<Rightarrow> nat \<Rightarrow> tick list
    \<Rightarrow> (ProbeOutcome \<times> nat \<times> tick \<times> tick list) progress" where
  "probe_until_pass K C expected deadline in_flight probe_count [] = Waiting"
| "probe_until_pass K C expected deadline in_flight probe_count (t # ts) =
     (if tk_now t \<ge> deadline then Returned (ProbeTimedOut, probe_count, t, ts)
      else if tk_cancelled t then Returned (ProbeInterrupted, probe_count, t, ts)
      else let (in_flight, probe_count) = dispatch t in_flight probe_count
           in case drain K C expected (tk_finished t) 0 in_flight of
                None \<Rightarrow> Panicked
              | Some (Some send_time, rest) \<Rightarrow> Returned (ProbePassed send_time, probe_count, t, ts)
              | Some (None, rest) \<Rightarrow> probe_until_pass K C expected deadline rest probe_count ts)"

text \<open>The full query set: the results in the order in which they come, then the loop over them.\<close>

definition full_results :: "Query list \<Rightarrow> tick \<Rightarrow> (string \<times> exec_answer) list" where
  "full_results queries t = map (\<lambda>i. (q_name (queries ! i), tk_full t i)) (tk_order t)"

definition RESULT_VALIDATION_SKIP :: "string list" where
  "RESULT_VALIDATION_SKIP = [''tpch_q6'']"

fun check_results :: "kernels \<Rightarrow> calendar \<Rightarrow> (string \<rightharpoonup> record_batch list) \<Rightarrow> (string \<times> exec_answer) list \<Rightarrow> bool \<Rightarrow> bool option" where
  "check_results K C expected_results [] all_passed = Some all_passed"
| "check_results K C expected_results ((query_name, result) # results) all_passed =
     (if query_name \<in> set RESULT_VALIDATION_SKIP then check_results K C expected_results results all_passed
      else case result of
        Inr batches \<Rightarrow>
          (case expected_results query_name of
             Some expected \<Rightarrow>
               (case validate_with_expected_batches K C (case batches of Some bs \<Rightarrow> bs | None \<Rightarrow> []) expected of
                  None \<Rightarrow> None
                | Some (Inr Pass) \<Rightarrow> check_results K C expected_results results all_passed
                | Some (Inr (Fail reason)) \<Rightarrow> check_results K C expected_results results False
                | Some (Inl e) \<Rightarrow> check_results K C expected_results results False)
           | None \<Rightarrow> check_results K C expected_results results all_passed)
      | Inl e \<Rightarrow> check_results K C expected_results results False)"

definition validate_full_query_set ::
  "kernels \<Rightarrow> calendar \<Rightarrow> Query list \<Rightarrow> (string \<rightharpoonup> record_batch list) \<Rightarrow> tick \<Rightarrow> bool option" where
  "validate_full_query_set K C queries expected_results t =
     check_results K C expected_results (full_results queries t) True"

text \<open>\<^verbatim>\<open>send_time.duration_since(pause).as_secs_f64() * 1000.0\<close> of instants in nanoseconds; the duration saturates at zero.\<close>

definition as_secs_f64 :: "nat \<Rightarrow> f64" where
  "as_secs_f64 ns = f64_add (f64_of_nat (ns div 10 ^ 9)) (f64_div (f64_of_nat (ns mod 10 ^ 9)) (10 ^ 9))"

definition latency_ms :: "nat \<Rightarrow> nat \<Rightarrow> f64" where
  "latency_ms send_time pause_time = f64_mul (as_secs_f64 (send_time - pause_time)) 1000"

fun row_count_loop :: "(tick \<Rightarrow> bool) \<Rightarrow> nat \<Rightarrow> tick list \<Rightarrow> (CheckpointValidationResult + tick list) progress" where
  "row_count_loop counts_match deadline [] = Waiting"
| "row_count_loop counts_match deadline (t # ts) =
     (if tk_now t \<ge> deadline then Returned (Inl TimedOut)
      else if tk_cancelled t then Returned (Inl Interrupted)
      else if counts_match t then Returned (Inr ts)
      else row_count_loop counts_match deadline ts)"

lemma probe_until_pass_shorter:
  "probe_until_pass K C expected deadline in_flight probe_count ticks = Returned (r, n, t, ts) \<Longrightarrow> length ts < length ticks"
  by (induction ticks arbitrary: in_flight probe_count)
    (auto split: if_splits option.splits prod.splits intro: less_SucI)

text \<open>
  The outer loop. \<open>tk_checked\<close> is the instant before the full query set starts: the code does not look at
  the clock again while it runs.
\<close>

function validation_loop :: "kernels \<Rightarrow> calendar \<Rightarrow> Query list \<Rightarrow> (string \<rightharpoonup> record_batch list) \<Rightarrow> record_batch list
    \<Rightarrow> nat \<Rightarrow> nat \<Rightarrow> nat \<Rightarrow> tick list \<Rightarrow> CheckpointValidationResult progress" where
  "validation_loop K C queries expected_results probe_expected deadline pause_time probe_count ticks =
     (case probe_until_pass K C probe_expected deadline [] probe_count ticks of
        Waiting \<Rightarrow> Waiting
      | Panicked \<Rightarrow> Panicked
      | Returned (ProbeTimedOut, n, t, ts) \<Rightarrow> Returned TimedOut
      | Returned (ProbeInterrupted, n, t, ts) \<Rightarrow> Returned Interrupted
      | Returned (ProbePassed send_time, n, t, ts) \<Rightarrow>
          if tk_checked t \<ge> deadline then Returned TimedOut
          else case validate_full_query_set K C queries expected_results t of
                 None \<Rightarrow> Panicked
               | Some True \<Rightarrow> Returned (Converged (latency_ms send_time pause_time))
               | Some False \<Rightarrow> validation_loop K C queries expected_results probe_expected deadline pause_time n ts)"
  by pat_completeness auto
termination
  by (relation "measure (\<lambda>(K, C, queries, expected_results, probe_expected, deadline, pause_time, n, ticks). length ticks)")
    (auto dest: probe_until_pass_shorter)

declare validation_loop.simps [simp del]

definition run_checkpoint_validation :: "'st sqlparser \<Rightarrow> kernels \<Rightarrow> calendar \<Rightarrow> Query list \<Rightarrow> (string \<rightharpoonup> record_batch list)
    \<Rightarrow> (string \<times> nat) list \<Rightarrow> nat \<Rightarrow> nat \<Rightarrow> nat \<Rightarrow> string option \<Rightarrow> tick list \<Rightarrow> CheckpointValidationResult progress" where
  "run_checkpoint_validation SP K C queries expected_results expected_row_counts now max_wait pause_time namespace ticks =
     (let deadline = now + max_wait
      in if length queries \<le> 1 then Panicked
         else case expected_results (q_name (queries ! 1)) of
                None \<Rightarrow> Returned TimedOut
              | Some probe_expected \<Rightarrow>
                  (case row_count_loop (\<lambda>t. validate_checkpoint_table_row_counts SP C (tk_exec t) expected_row_counts namespace)
                          deadline ticks of
                     Waiting \<Rightarrow> Waiting
                   | Panicked \<Rightarrow> Panicked
                   | Returned (Inl r) \<Rightarrow> Returned r
                   | Returned (Inr ts) \<Rightarrow>
                       validation_loop K C queries expected_results probe_expected deadline pause_time 0 ts))"

subsection \<open>What convergence means\<close>

definition query_passes :: "kernels \<Rightarrow> calendar \<Rightarrow> (string \<rightharpoonup> record_batch list) \<Rightarrow> string \<times> exec_answer \<Rightarrow> bool" where
  "query_passes K C expected_results r \<longleftrightarrow> fst r \<in> set RESULT_VALIDATION_SKIP
     \<or> (case snd r of
          Inl e \<Rightarrow> False
        | Inr batches \<Rightarrow>
            (case expected_results (fst r) of
               None \<Rightarrow> True
             | Some expected \<Rightarrow> passes K C (case batches of Some bs \<Rightarrow> bs | None \<Rightarrow> []) expected))"

lemma counts_loop_iff: "counts_loop matches tables \<longleftrightarrow> list_all matches tables"
  by (induction tables) auto

lemma row_counts_iff:
  "validate_checkpoint_table_row_counts SP C execute expected_row_counts namespace \<longleftrightarrow>
     list_all (table_count_matches SP C namespace execute) expected_row_counts"
  by (simp add: validate_checkpoint_table_row_counts_def counts_loop_iff list_all_iff)

lemma row_count_loop_passed:
  "row_count_loop f deadline ticks = Returned (Inr ts) \<Longrightarrow>
     \<exists>before t. ticks = before @ t # ts \<and> tk_now t < deadline \<and> f t"
proof (induction ticks)
  case (Cons t ticks)
  have now: "tk_now t < deadline" using Cons.prems by (simp split: if_splits)
  show ?case
  proof (cases "f t")
    case True
    then have "ts = ticks" using Cons.prems by (simp split: if_splits)
    then show ?thesis using True now by (intro exI[of _ "[]"]) simp
  next
    case False
    then have "row_count_loop f deadline ticks = Returned (Inr ts)" using Cons.prems by (simp split: if_splits)
    with Cons.IH obtain before t' where "ticks = before @ t' # ts" "tk_now t' < deadline" "f t'" by blast
    then show ?thesis by (intro exI[of _ "t # before"]) simp
  qed
qed simp

lemma row_count_loop_not_converged: "row_count_loop f deadline ticks \<noteq> Returned (Inl (Converged l))"
  by (induction ticks) auto

lemma swap_remove_subset: "swap_remove xs i = Some ys \<Longrightarrow> set ys \<subseteq> set xs"
  by (metis set_mset_add_mset_insert set_mset_mset subset_insertI swap_remove_mset)

lemma drain_step:
  assumes "drain K C expected finished i in_flight = Some (r, rest)"
  obtains (left_over) "r = None" "rest = in_flight"
  | (next_one) "i < length in_flight" "drain K C expected finished (i + 1) in_flight = Some (r, rest)"
  | (removed) ys where "swap_remove in_flight i = Some ys" "drain K C expected finished i ys = Some (r, rest)"
  | (passed) b where "swap_remove in_flight i = Some rest" "r = Some (pf_send_time (in_flight ! i))"
      "pf_result (in_flight ! i) = Answered b" "passes K C b expected"
  using assms
  by (subst (asm) drain.simps) (auto split: if_splits option.splits probe_end.splits)

lemma drain_result:
  "drain K C expected finished i in_flight = Some (r, rest) \<Longrightarrow>
     set rest \<subseteq> set in_flight \<and> length rest \<le> length in_flight
   \<and> (\<forall>s. r = Some s \<longrightarrow> (\<exists>f \<in> set in_flight. \<exists>b. pf_send_time f = s \<and> pf_result f = Answered b \<and> passes K C b expected))"
proof (induction "length in_flight - i" arbitrary: i in_flight rule: less_induct)
  case less
  from less.prems show ?case
  proof (cases rule: drain_step)
    case left_over
    then show ?thesis by simp
  next
    case next_one
    then show ?thesis by (intro less.hyps[of in_flight "i + 1"]) simp_all
  next
    case (removed ys)
    have i: "i < length in_flight" using removed(1) by (simp add: swap_remove_def split: if_splits)
    have "set ys \<subseteq> set in_flight" "Suc (length ys) = length in_flight"
      using swap_remove_subset swap_remove_length removed(1) by blast+
    moreover from this i have "set rest \<subseteq> set ys \<and> length rest \<le> length ys
       \<and> (\<forall>s. r = Some s \<longrightarrow> (\<exists>f \<in> set ys. \<exists>b. pf_send_time f = s \<and> pf_result f = Answered b \<and> passes K C b expected))"
      by (intro less.hyps[of ys i] removed(2)) simp
    ultimately show ?thesis by fastforce
  next
    case (passed b)
    have "i < length in_flight" using passed(1) by (simp add: swap_remove_def split: if_splits)
    then show ?thesis
      using passed swap_remove_subset[OF passed(1)] swap_remove_length[OF passed(1)] by auto
  qed
qed

text \<open>A flight of a tick carries its send time and the end of its task.\<close>

definition sent_in :: "tick list \<Rightarrow> ProbeFlight \<Rightarrow> bool" where
  "sent_in ticks f \<longleftrightarrow> (\<exists>t \<in> set ticks. pf_send_time f = tk_sent t \<and> pf_result f = tk_probe t)"

lemma dispatch_result:
  assumes "dispatch t in_flight n = (in_flight', n')"
  shows "\<forall>f \<in> set in_flight'. f \<in> set in_flight \<or> sent_in [t] f"
    and "length in_flight \<le> MAX_PROBE_IN_FLIGHT \<Longrightarrow> length in_flight' \<le> MAX_PROBE_IN_FLIGHT"
  using assms by (auto simp: dispatch_def sent_in_def split: if_splits)

definition answers_as_expected :: "kernels \<Rightarrow> calendar \<Rightarrow> record_batch list \<Rightarrow> tick \<Rightarrow> bool" where
  "answers_as_expected K C expected t \<longleftrightarrow>
     (case tk_probe t of Answered b \<Rightarrow> passes K C b expected | _ \<Rightarrow> False)"

lemma probe_passed:
  assumes "probe_until_pass K C expected deadline in_flight n ticks = Returned (ProbePassed s, n', t, ts)"
    and "\<forall>f \<in> set in_flight. sent_in past f"
  shows "\<exists>before. ticks = before @ t # ts
     \<and> (\<exists>p \<in> set (past @ before @ [t]). tk_sent p = s \<and> answers_as_expected K C expected p)"
  using assms
proof (induction ticks arbitrary: in_flight n past)
  case (Cons u ticks)
  obtain fl m where d: "dispatch u in_flight n = (fl, m)" by fastforce
  have go: "\<not> deadline \<le> tk_now u" "\<not> tk_cancelled u" using Cons.prems(1) by (auto split: if_splits)
  obtain r rest where dr: "drain K C expected (tk_finished u) 0 fl = Some (r, rest)"
    using Cons.prems(1) go d by (auto split: option.splits)
  have fl: "\<forall>f \<in> set fl. sent_in (past @ [u]) f"
    using dispatch_result(1)[OF d] Cons.prems(2) by (auto simp: sent_in_def)
  note D = drain_result[OF dr]
  show ?case
  proof (cases r)
    case (Some s')
    then have "s' = s" "t = u" "ts = ticks" using Cons.prems(1) go d dr by auto
    moreover from D Some obtain f b where f: "f \<in> set fl" "pf_send_time f = s'" "pf_result f = Answered b" "passes K C b expected"
      by blast
    moreover from fl f(1) obtain p where "p \<in> set (past @ [u])" "pf_send_time f = tk_sent p" "pf_result f = tk_probe p"
      unfolding sent_in_def by blast
    ultimately show ?thesis by (intro exI[of _ "[]"]) (auto simp: answers_as_expected_def)
  next
    case None
    have "probe_until_pass K C expected deadline rest m ticks = Returned (ProbePassed s, n', t, ts)"
      using Cons.prems(1) go d dr None by simp
    moreover have "\<forall>f \<in> set rest. sent_in (past @ [u]) f" using D fl by blast
    ultimately obtain before where "ticks = before @ t # ts"
      "\<exists>p \<in> set ((past @ [u]) @ before @ [t]). tk_sent p = s \<and> answers_as_expected K C expected p"
      using Cons.IH by blast
    then show ?thesis by (intro exI[of _ "u # before"]) simp
  qed
qed simp

lemma check_results_false: "check_results K C expected_results rs False = Some b \<Longrightarrow> \<not> b"
  by (induction rs) (auto split: if_splits option.splits sum.splits QueryValidationResult.splits)

lemma check_results_true:
  "check_results K C expected_results rs True = Some True \<Longrightarrow> list_all (query_passes K C expected_results) rs"
proof (induction rs)
  case (Cons r rs)
  obtain name a where r: "r = (name, a)" by (cases r)
  have "query_passes K C expected_results (name, a) \<and> check_results K C expected_results rs True = Some True"
    using Cons.prems check_results_false[of K C expected_results rs True]
    by (auto simp: r query_passes_def passes_def split: if_splits option.splits sum.splits QueryValidationResult.splits)
  then show ?case using Cons.IH by (simp add: r)
qed simp

definition full_set_passes :: "kernels \<Rightarrow> calendar \<Rightarrow> Query list \<Rightarrow> (string \<rightharpoonup> record_batch list) \<Rightarrow> tick \<Rightarrow> bool" where
  "full_set_passes K C queries expected_results t \<longleftrightarrow>
     list_all (\<lambda>i. query_passes K C expected_results (q_name (queries ! i), tk_full t i)) [0..<length queries]"

lemma full_query_set_true:
  assumes "validate_full_query_set K C queries expected_results t = Some True"
    and "set (tk_order t) = {..<length queries}"
  shows "full_set_passes K C queries expected_results t"
  using check_results_true[OF assms(1)[unfolded validate_full_query_set_def]] assms(2)
  by (auto simp: full_results_def full_set_passes_def list_all_iff)

lemma validation_loop_converged:
  assumes "validation_loop K C queries expected_results probe_expected deadline pause n ticks = Returned (Converged l)"
    and "\<forall>t \<in> set ticks. set (tk_order t) = {..<length queries}"
  shows "\<exists>before t after. ticks = before @ t # after \<and> tk_checked t < deadline
     \<and> full_set_passes K C queries expected_results t
     \<and> (\<exists>p \<in> set (before @ [t]). l = latency_ms (tk_sent p) pause \<and> answers_as_expected K C probe_expected p)"
  using assms
proof (induction "length ticks" arbitrary: n ticks rule: less_induct)
  case less
  obtain s n' t ts where p: "probe_until_pass K C probe_expected deadline [] n ticks = Returned (ProbePassed s, n', t, ts)"
      and c: "tk_checked t < deadline"
    using less.prems(1)
    by (subst (asm) validation_loop.simps) (auto split: progress.splits prod.splits ProbeOutcome.splits if_splits)
  obtain before p' where b: "ticks = before @ t # ts" "p' \<in> set (before @ [t])" "tk_sent p' = s"
      "answers_as_expected K C probe_expected p'"
    using probe_passed[OF p, of "[]"] by auto
  have o: "set (tk_order t) = {..<length queries}" using less.prems(2) b(1) by simp
  let ?v = "validate_full_query_set K C queries expected_results t"
  have step: "(case ?v of None \<Rightarrow> Panicked | Some True \<Rightarrow> Returned (Converged (latency_ms s pause))
       | Some False \<Rightarrow> validation_loop K C queries expected_results probe_expected deadline pause n' ts)
     = Returned (Converged l)"
    using less.prems(1) p c by (subst (asm) validation_loop.simps) simp
  show ?case
  proof (cases "?v = Some True")
    case True
    then have "l = latency_ms s pause" using step by simp
    then show ?thesis using b c full_query_set_true[OF True o] by blast
  next
    case False
    then have again: "validation_loop K C queries expected_results probe_expected deadline pause n' ts = Returned (Converged l)"
      using step by (simp split: option.splits bool.splits)
    obtain before' t' after where "ts = before' @ t' # after" "tk_checked t' < deadline"
        "full_set_passes K C queries expected_results t'"
        "\<exists>p \<in> set (before' @ [t']). l = latency_ms (tk_sent p) pause \<and> answers_as_expected K C probe_expected p"
      using less.hyps[OF _ again] b(1) less.prems(2) by auto
    then show ?thesis
      using b(1) by (intro exI[of _ "before @ t # before'"] exI[of _ t'] exI[of _ after]) auto
  qed
qed

text \<open>
  C37. A checkpoint that converges was validated: before the deadline there was an iteration in which
  the row count of every table was the expected one; after it, a full run of the query set that
  was started before the deadline, in which every query of the scenario with an expected
  result, except those on the skip list (\<^verbatim>\<open>tpch_q6\<close>), returned that result, and none failed; and the
  latency reported is measured from the checkpoint's pause to the dispatch of a probe, sent
  between the two, that returned the expected result of a query of the scenario.
\<close>

theorem converged_is_validated:
  assumes "run_checkpoint_validation SP K C queries expected_results expected_row_counts now max_wait pause_time namespace ticks
      = Returned (Converged l)"
    and "\<forall>t \<in> set ticks. set (tk_order t) = {..<length queries}"
  shows "\<exists>before t0 between t1 after. ticks = before @ t0 # between @ t1 # after
     \<and> tk_now t0 < now + max_wait
     \<and> list_all (table_count_matches SP C namespace (tk_exec t0)) expected_row_counts
     \<and> tk_checked t1 < now + max_wait
     \<and> full_set_passes K C queries expected_results t1
     \<and> (\<exists>q e p. q \<in> set queries \<and> expected_results (q_name q) = Some e
          \<and> p \<in> set (between @ [t1]) \<and> l = latency_ms (tk_sent p) pause_time \<and> answers_as_expected K C e p)"
proof -
  let ?f = "\<lambda>t. validate_checkpoint_table_row_counts SP C (tk_exec t) expected_row_counts namespace"
  have q: "queries ! 1 \<in> set queries"
    using assms(1) by (cases "length queries \<le> 1") (simp_all add: run_checkpoint_validation_def)
  obtain e ts where e: "expected_results (q_name (queries ! 1)) = Some e"
      and rc: "row_count_loop ?f (now + max_wait) ticks = Returned (Inr ts)"
      and v: "validation_loop K C queries expected_results e (now + max_wait) pause_time 0 ts = Returned (Converged l)"
    using assms(1) row_count_loop_not_converged
    by (auto simp: run_checkpoint_validation_def Let_def split: if_splits option.splits progress.splits sum.splits)
  obtain before t0 where t0: "ticks = before @ t0 # ts" "tk_now t0 < now + max_wait" "?f t0"
    using row_count_loop_passed[OF rc] by blast
  from t0(1) assms(2) have "\<forall>t \<in> set ts. set (tk_order t) = {..<length queries}" by simp
  from validation_loop_converged[OF v this] obtain between t1 after p where ts: "ts = between @ t1 # after"
      "tk_checked t1 < now + max_wait" "full_set_passes K C queries expected_results t1" "p \<in> set (between @ [t1])"
      "l = latency_ms (tk_sent p) pause_time" "answers_as_expected K C e p" by blast
  then have "\<exists>q e p. q \<in> set queries \<and> expected_results (q_name q) = Some e
      \<and> p \<in> set (between @ [t1]) \<and> l = latency_ms (tk_sent p) pause_time \<and> answers_as_expected K C e p" using q e by blast
  then show ?thesis using ts(1-3) t0 row_counts_iff by blast
qed

subsection \<open>A checkpoint window that ends\<close>

lemma drain_returns:
  "\<forall>f \<in> set in_flight. \<forall>b. pf_result f = Answered b \<longrightarrow> \<not> panics K C b expected \<Longrightarrow>
     drain K C expected finished i in_flight \<noteq> None"
proof (induction "length in_flight - i" arbitrary: i in_flight rule: less_induct)
  case less
  show ?case
  proof (cases "i < length in_flight")
    case False
    then show ?thesis by (subst drain.simps) simp
  next
    case True
    then obtain ys where ys: "swap_remove in_flight i = Some ys" by (simp add: swap_remove_def)
    have rest: "drain K C expected finished i ys \<noteq> None"
      by (rule less.hyps) (use less.prems True swap_remove_subset[OF ys] swap_remove_length[OF ys] in auto)
    have "drain K C expected finished (i + 1) in_flight \<noteq> None"
      by (rule less.hyps) (use less.prems True in auto)
    then show ?thesis
      using less.prems True ys rest by (subst drain.simps) (auto split: probe_end.splits)
  qed
qed

definition probe_ok :: "kernels \<Rightarrow> calendar \<Rightarrow> record_batch list \<Rightarrow> probe_end \<Rightarrow> bool" where
  "probe_ok K C expected r \<longleftrightarrow> (\<forall>b. r = Answered b \<longrightarrow> \<not> panics K C b expected)"

lemma probe_returns:
  assumes "\<exists>t \<in> set ticks. deadline \<le> tk_now t"
    and "\<forall>t \<in> set ticks. probe_ok K C expected (tk_probe t)"
    and "\<forall>f \<in> set in_flight. probe_ok K C expected (pf_result f)"
  shows "\<exists>r n' t ts. probe_until_pass K C expected deadline in_flight n ticks = Returned (r, n', t, ts)
     \<and> t \<in> set ticks \<and> set ts \<subseteq> set ticks \<and> (\<forall>s. r = ProbePassed s \<longrightarrow> (\<exists>t \<in> set ts. deadline \<le> tk_now t))"
  using assms
proof (induction ticks arbitrary: in_flight n)
  case (Cons u ticks)
  show ?case
  proof (cases "deadline \<le> tk_now u \<or> tk_cancelled u")
    case True
    then show ?thesis by auto
  next
    case False
    obtain fl m where d: "dispatch u in_flight n = (fl, m)" by fastforce
    have fl: "\<forall>f \<in> set fl. probe_ok K C expected (pf_result f)"
      using dispatch_result(1)[OF d] Cons.prems(2,3) by (auto simp: sent_in_def)
    then obtain r rest where dr: "drain K C expected (tk_finished u) 0 fl = Some (r, rest)"
      using drain_returns[of fl K C expected "tk_finished u" 0] by (auto simp: probe_ok_def)
    have later: "\<exists>t \<in> set ticks. deadline \<le> tk_now t" using Cons.prems(1) False by auto
    show ?thesis
    proof (cases r)
      case (Some s)
      then show ?thesis using False d dr later by auto
    next
      case None
      have "\<forall>f \<in> set rest. probe_ok K C expected (pf_result f)" using drain_result[OF dr] fl by blast
      from Cons.IH[OF later _ this, of m] Cons.prems(2) show ?thesis using False d dr None by auto
    qed
  qed
qed simp

lemma check_results_returns:
  assumes "\<forall>(name, r) \<in> set rs. \<forall>b e. r = Inr b \<longrightarrow> expected_results name = Some e
      \<longrightarrow> \<not> panics K C (case b of Some bs \<Rightarrow> bs | None \<Rightarrow> []) e"
  shows "check_results K C expected_results rs ap \<noteq> None"
  using assms
proof (induction rs arbitrary: ap)
  case (Cons r rs)
  obtain name a where r: "r = (name, a)" by (cases r)
  have "check_results K C expected_results rs b \<noteq> None" for b using Cons by auto
  then show ?case
    using Cons.prems
    by (auto simp: r panics_def split: option.splits sum.splits QueryValidationResult.splits)
qed simp

text \<open>What the executor returns is made of batches of the Arrow crate.\<close>

definition answer_ok :: "exec_answer \<Rightarrow> bool" where
  "answer_ok r \<longleftrightarrow> (case r of Inr (Some bs) \<Rightarrow> uniform_batches bs | _ \<Rightarrow> True)"

definition tick_ok :: "tick \<Rightarrow> bool" where
  "tick_ok t \<longleftrightarrow> (\<forall>b. tk_probe t = Answered b \<longrightarrow> uniform_batches b) \<and> (\<forall>i. answer_ok (tk_full t i))"

lemma full_query_set_returns:
  assumes "kernels_ok K" "tick_ok t" "\<forall>bs \<in> ran expected_results. uniform_batches bs"
  shows "validate_full_query_set K C queries expected_results t \<noteq> None"
proof -
  have nil: "uniform_batches []" by (simp add: uniform_batches_def)
  have "\<not> panics K C (case b of Some bs \<Rightarrow> bs | None \<Rightarrow> []) e"
    if "tk_full t i = Inr b" "expected_results (q_name (queries ! i)) = Some e" for i b e
  proof -
    have "answer_ok (Inr b)" using assms(2) that(1) by (metis tick_ok_def)
    then have "uniform_batches (case b of Some bs \<Rightarrow> bs | None \<Rightarrow> [])"
      using nil by (cases b) (simp_all add: answer_ok_def)
    moreover have "uniform_batches e" using assms(3) that(2) by (auto simp: ran_def)
    ultimately show ?thesis using validation_returns[OF assms(1)] by (simp add: panics_def)
  qed
  then show ?thesis
    unfolding validate_full_query_set_def by (intro check_results_returns) (auto simp: full_results_def)
qed

lemma validation_loop_returns:
  assumes K: "kernels_ok K" and ex: "\<forall>bs \<in> ran expected_results. uniform_batches bs" "uniform_batches e"
    and "\<exists>t \<in> set ticks. deadline \<le> tk_now t" "\<forall>t \<in> set ticks. tick_ok t"
  shows "\<exists>r. validation_loop K C queries expected_results e deadline pause n ticks = Returned r"
  using assms(4,5)
proof (induction "length ticks" arbitrary: n ticks rule: less_induct)
  case less
  have "\<forall>t \<in> set ticks. probe_ok K C e (tk_probe t)"
    using less.prems(2) validation_returns[OF K _ ex(2)] by (auto simp: probe_ok_def panics_def tick_ok_def)
  from probe_returns[OF less.prems(1) this, of "[]" n, simplified ball_simps list.set simp_thms]
  obtain r n' t ts where p: "probe_until_pass K C e deadline [] n ticks = Returned (r, n', t, ts)"
      "t \<in> set ticks" "set ts \<subseteq> set ticks" "\<forall>s. r = ProbePassed s \<longrightarrow> (\<exists>t \<in> set ts. deadline \<le> tk_now t)"
    by blast
  show ?case
  proof (cases r)
    case (ProbePassed s)
    obtain v where v: "validate_full_query_set K C queries expected_results t = Some v"
      using full_query_set_returns[OF K _ ex(1)] less.prems(2) p(2) by blast
    have "\<exists>r. validation_loop K C queries expected_results e deadline pause n' ts = Returned r"
      by (rule less.hyps) (use probe_until_pass_shorter[OF p(1)] p(3,4) ProbePassed less.prems(2) in auto)
    then show ?thesis using p(1) ProbePassed v by (subst validation_loop.simps) (simp split: bool.splits)
  qed (use p(1) in \<open>subst validation_loop.simps, simp\<close>)+
qed

lemma row_count_loop_returns:
  assumes "\<exists>t \<in> set ticks. deadline \<le> tk_now t"
  shows "(\<exists>r. row_count_loop f deadline ticks = Returned (Inl r))
     \<or> (\<exists>ts. row_count_loop f deadline ticks = Returned (Inr ts) \<and> set ts \<subseteq> set ticks \<and> (\<exists>t \<in> set ts. deadline \<le> tk_now t))"
  using assms
proof (induction ticks)
  case (Cons u ticks)
  show ?case
  proof (cases "deadline \<le> tk_now u \<or> tk_cancelled u \<or> f u")
    case True
    then show ?thesis using Cons.prems by auto
  next
    case False
    with Cons.prems Cons.IH show ?thesis by auto
  qed
qed simp

text \<open>
  C38. The validation window of a checkpoint ends: with at least two queries, when every query is
  answered, with batches of one schema, and the clock reaches the deadline at the head of some
  iteration, the validation returns a verdict and neither panics nor goes on, whatever the
  answers are.
\<close>

theorem checkpoint_validation_ends:
  assumes "kernels_ok K" and "2 \<le> length queries"
    and "\<forall>bs \<in> ran expected_results. uniform_batches bs"
    and "\<forall>t \<in> set ticks. tick_ok t" and "\<exists>t \<in> set ticks. now + max_wait \<le> tk_now t"
  shows "\<exists>r. run_checkpoint_validation SP K C queries expected_results expected_row_counts now max_wait pause_time namespace ticks
      = Returned r"
proof (cases "expected_results (q_name (queries ! 1))")
  case None
  then show ?thesis using assms(2) by (simp add: run_checkpoint_validation_def)
next
  case (Some e)
  then have e: "uniform_batches e" using assms(3) by (auto simp: ran_def)
  let ?f = "\<lambda>t. validate_checkpoint_table_row_counts SP C (tk_exec t) expected_row_counts namespace"
  from row_count_loop_returns[OF assms(5), of ?f]
  consider (ended) r where "row_count_loop ?f (now + max_wait) ticks = Returned (Inl r)"
    | (passed) ts where "row_count_loop ?f (now + max_wait) ticks = Returned (Inr ts)" "set ts \<subseteq> set ticks"
        "\<exists>t \<in> set ts. now + max_wait \<le> tk_now t" by blast
  then show ?thesis
  proof cases
    case ended
    then show ?thesis using assms(2) Some by (simp add: run_checkpoint_validation_def Let_def)
  next
    case passed
    have "\<forall>t \<in> set ts. tick_ok t" using passed(2) assms(4) by blast
    from validation_loop_returns[OF assms(1,3) e passed(3) this] show ?thesis
      using assms(2) Some passed(1) by (simp add: run_checkpoint_validation_def Let_def)
  qed
qed

subsection \<open>An example\<close>

definition count_batch :: "int \<Rightarrow> record_batch" where
  "count_batch n = \<lparr>rb_schema = [\<lparr>fld_name = ''row_count'', fld_type = DInt64, fld_nullable = True\<rparr>],
     rb_columns = [\<lparr>arr_type = DInt64, arr_cells = [Some (CInt n)]\<rparr>], rb_num_rows = 1\<rparr>"

definition plain_sqlparser :: "string sqlparser" where
  "plain_sqlparser = \<lparr>sp_parse = (\<lambda>s. Inr [s]), sp_map_relations = (\<lambda>f s. s), sp_print = (\<lambda>s. s)\<rparr>"

text \<open>
  The first tick sees the row count, the second sends a probe, which has ended in the third; the
  queries of the full set then complete in reverse order.
\<close>

definition seen_tick :: "nat \<Rightarrow> tick" where
  "seen_tick k = \<lparr>tk_now = k, tk_cancelled = False, tk_exec = (\<lambda>q. Inr (Some [count_batch 3])), tk_sent = k * 10 ^ 9,
     tk_probe = Answered [count_batch 7], tk_finished = (\<lambda>n. 2 \<le> k), tk_checked = k, tk_order = [1, 0],
     tk_full = (\<lambda>i. Inr (Some [count_batch 7]))\<rparr>"

definition two_queries :: "Query list" where
  "two_queries = [Query_new ''q1'' ''SELECT 7'' False, Query_new ''q2'' ''SELECT 7'' False]"

definition seven_expected :: "string \<rightharpoonup> record_batch list" where
  "seven_expected = [''q1'' \<mapsto> [count_batch 7], ''q2'' \<mapsto> [count_batch 7]]"

lemma count_batch_wf: "wf_batch (count_batch n)"
  by (simp add: count_batch_def wf_batch_def wf_column_def)

lemma count_batch_passes: "validate_with_expected_batches list_kernels C [count_batch n] [count_batch n] = Some (Inr Pass)"
  by (simp add: validate_with_expected_batches_def validate_batches_def count_batch_def list_kernels_def
      equivalent_schemas_def datatype_equivalent_def concat_columns_def validate_batches_as_strings_def
      array_value_to_string_def cell_text_def cell_value_text_def int_text_def compare_slots_def upt_rec)

lemma count_batch_count: "n \<le> usize_max \<Longrightarrow> extract_row_count_from_batches C [count_batch (int n)] = Inr n"
  by (simp add: extract_row_count_from_batches_def count_batch_def array_value_to_string_def cell_text_def
      cell_value_text_def int_text_def show_int_def parse_unsigned_show)

lemma seen_ticks_converge:
  "run_checkpoint_validation plain_sqlparser list_kernels fixed_calendar two_queries seven_expected [(''orders'', 3)]
     0 100 0 None (map seen_tick [0, 1, 2, 100]) = Returned (Converged (latency_ms (10 ^ 9) 0))"
proof -
  let ?C = fixed_calendar
  have "table_count_matches plain_sqlparser ?C None (tk_exec (seen_tick 0)) (''orders'', 3)"
    using count_batch_count[of 3 ?C]
    by (simp add: table_count_matches_def checkpoint_count_query_def seen_tick_def usize_max_def)
  then have rc: "row_count_loop (\<lambda>t. validate_checkpoint_table_row_counts plain_sqlparser ?C (tk_exec t) [(''orders'', 3)] None) 100
      (map seen_tick [0, 1, 2, 100]) = Returned (Inr (map seen_tick [1, 2, 100]))"
    by (simp add: row_counts_iff) (simp add: seen_tick_def)
  have p: "passes list_kernels ?C [count_batch 7] [count_batch 7]" "\<not> panics list_kernels ?C [count_batch 7] [count_batch 7]"
    by (simp_all add: passes_def panics_def count_batch_passes)
  have pr: "probe_until_pass list_kernels ?C [count_batch 7] 100 [] 0 (map seen_tick [1, 2, 100])
      = Returned (ProbePassed (10 ^ 9), 2, seen_tick 2, [seen_tick 100])"
    using p by (simp add: seen_tick_def dispatch_def MAX_PROBE_IN_FLIGHT_def drain.simps swap_remove_def)
  have "validate_full_query_set list_kernels ?C two_queries seven_expected (seen_tick 2) = Some True"
    by (simp add: validate_full_query_set_def full_results_def seen_tick_def two_queries_def Query_new_def
        RESULT_VALIDATION_SKIP_def seven_expected_def count_batch_passes)
  then have "validation_loop list_kernels ?C two_queries seven_expected [count_batch 7] 100 0 0 (map seen_tick [1, 2, 100])
      = Returned (Converged (latency_ms (10 ^ 9) 0))"
    using pr by (subst validation_loop.simps) (simp add: seen_tick_def)
  then show ?thesis
    using rc by (simp add: run_checkpoint_validation_def two_queries_def seven_expected_def Query_new_def)
qed

lemma seen_ticks_order: "\<forall>t \<in> set (map seen_tick ks). set (tk_order t) = {..<length two_queries}"
  by (auto simp: seen_tick_def two_queries_def)

theorem converged_is_validated_witness:
  "\<exists>before t0 between t1 after. map seen_tick [0, 1, 2, 100] = before @ t0 # between @ t1 # after
     \<and> tk_now t0 < 100
     \<and> list_all (table_count_matches plain_sqlparser fixed_calendar None (tk_exec t0)) [(''orders'', 3)]
     \<and> tk_checked t1 < 100
     \<and> full_set_passes list_kernels fixed_calendar two_queries seven_expected t1
     \<and> (\<exists>q e p. q \<in> set two_queries \<and> seven_expected (q_name q) = Some e
          \<and> p \<in> set (between @ [t1]) \<and> latency_ms (10 ^ 9) 0 = latency_ms (tk_sent p) 0
          \<and> answers_as_expected list_kernels fixed_calendar e p)"
  using converged_is_validated[OF seen_ticks_converge seen_ticks_order] by simp

theorem checkpoint_validation_ends_witness:
  "\<exists>r. run_checkpoint_validation plain_sqlparser list_kernels fixed_calendar two_queries seven_expected [(''orders'', 4)]
     0 100 0 None (map seen_tick [0, 1, 2, 100]) = Returned r"
proof (rule checkpoint_validation_ends[OF list_kernels_ok])
  have "uniform_batches [count_batch n]" for n
    by (auto simp: uniform_batches_def count_batch_wf)
  then show "\<forall>bs \<in> ran seven_expected. uniform_batches bs" "\<forall>t \<in> set (map seen_tick [0, 1, 2, 100]). tick_ok t"
    by (auto simp: seven_expected_def tick_ok_def answer_ok_def seen_tick_def)
qed (simp_all add: two_queries_def seen_tick_def)

end
