(* ===== verification/LoadRun.thy ===== *)
theory LoadRun
  imports Checkpoint EtlRun
begin

text \<open>
  \<^verbatim>\<open>src/commands/load/mod.rs\<close>, \<^verbatim>\<open>run\<close>: the start of the ETL pipeline, with the validation of the first snapshot when the
  pipeline was left paused by a bootstrap, and the loop that follows the state of the pipeline. The
  loop validates the checkpoint at every pause and at the end, resumes the pipeline, and ends with
  an outcome and the latency samples. What it sees when it wakes up is a \<open>load_event\<close>. The wait for one
  iteration of the query set after the end of a run without validation and the metric of the
  bootstrap load, which change neither, are left out.
\<close>

datatype RunOutcome = Success | QueryFailure | PipelineFailure string | ValidationTimeout | RunCancelled

record 'st load_run =
  lr_sqlparser :: "'st sqlparser"
  lr_kernels :: kernels
  lr_calendar :: calendar
  lr_queries :: "Query list"
  lr_has_checkpoint_validation :: bool
  lr_checkpoint_dir :: "nat \<rightharpoonup> checkpoint_files"
  lr_timeout :: nat
  lr_namespace :: "string option"

text \<open>
  The state of the pipeline, or the shutdown; the clocks and the ticks of the validation window,
  and what \<^verbatim>\<open>continue_pipeline\<close> returns.
\<close>

record load_event =
  le_shutdown :: bool
  le_state :: PipelineState
  le_checkpoint_idx :: nat
  le_now :: nat
  le_pause_time :: nat
  le_ticks :: "tick list"
  le_continue :: "unit result"

type_synonym samples = "(nat \<times> f64) list"

definition checkpoint_results :: "'st load_run \<Rightarrow> load_event \<Rightarrow> (string \<rightharpoonup> record_batch list) result" where
  "checkpoint_results L e = load_checkpoint_results (lr_checkpoint_dir L) (le_checkpoint_idx e) (map q_name (lr_queries L))"

definition checkpoint_row_counts :: "'st load_run \<Rightarrow> load_event \<Rightarrow> (string \<times> nat) list" where
  "checkpoint_row_counts L e =
     (case load_checkpoint_row_counts (lr_checkpoint_dir L) (le_checkpoint_idx e) of Inl err \<Rightarrow> [] | Inr counts \<Rightarrow> counts)"

definition event_validation :: "'st load_run \<Rightarrow> (string \<rightharpoonup> record_batch list) \<Rightarrow> load_event \<Rightarrow> CheckpointValidationResult progress" where
  "event_validation L expected_results e =
     run_checkpoint_validation (lr_sqlparser L) (lr_kernels L) (lr_calendar L) (lr_queries L) expected_results
       (checkpoint_row_counts L e) (le_now e) (lr_timeout L) (le_pause_time e) (lr_namespace L) (le_ticks e)"

text \<open>The validation window of an event: an outcome that ends the run, or none.\<close>

definition checkpoint_window :: "'st load_run \<Rightarrow> load_event \<Rightarrow> samples \<Rightarrow> (samples \<times> RunOutcome option) progress" where
  "checkpoint_window L e samples =
     (if \<not> lr_has_checkpoint_validation L then Returned (samples, None)
      else case checkpoint_results L e of
        Inl err \<Rightarrow> Returned (samples, None)
      | Inr expected_results \<Rightarrow>
          if expected_results = Map.empty then Returned (samples, None)
          else case event_validation L expected_results e of
            Waiting \<Rightarrow> Waiting
          | Panicked \<Rightarrow> Panicked
          | Returned (Converged e2e_latency_ms) \<Rightarrow> Returned (samples @ [(le_checkpoint_idx e, e2e_latency_ms)], None)
          | Returned Interrupted \<Rightarrow> Returned (samples, Some RunCancelled)
          | Returned TimedOut \<Rightarrow> Returned (samples, Some ValidationTimeout))"

fun load_loop :: "'st load_run \<Rightarrow> load_event list \<Rightarrow> samples \<Rightarrow> (samples \<times> RunOutcome option) progress" where
  "load_loop L [] samples = Waiting"
| "load_loop L (e # es) samples =
     (if le_shutdown e then Returned (samples, Some RunCancelled)
      else case le_state e of
        Paused \<Rightarrow>
          (case checkpoint_window L e samples of
             Waiting \<Rightarrow> Waiting
           | Panicked \<Rightarrow> Panicked
           | Returned (samples, Some outcome) \<Rightarrow> Returned (samples, Some outcome)
           | Returned (samples, None) \<Rightarrow>
               (case le_continue e of
                  Inl err \<Rightarrow> Returned (samples, Some (PipelineFailure (''Failed to continue ETL pipeline: '' @ err)))
                | Inr _ \<Rightarrow> load_loop L es samples))
      | Stopped Completed \<Rightarrow> checkpoint_window L e samples
      | Stopped (Error err) \<Rightarrow> Returned (samples, Some (PipelineFailure err))
      | Stopped Cancelled \<Rightarrow> Returned (samples, None)
      | _ \<Rightarrow> load_loop L es samples)"

text \<open>
  The start of the pipeline. \<open>ls_state\<close> is its state before, paused after a bootstrap; the clocks and the
  ticks are those of the validation of the snapshot, which is checkpoint 0. Results and row counts
  that cannot be read count as absent, and without results the validation times out at once.
\<close>

record load_start =
  ls_state :: PipelineState
  ls_now :: nat
  ls_pause_time :: nat
  ls_ticks :: "tick list"
  ls_continue :: "unit result"  \<comment> \<open>what \<open>continue_pipeline\<close> returns\<close>
  ls_run :: "unit result"  \<comment> \<open>what \<open>run\<close> or \<open>start\<close> returns\<close>

definition snapshot_validation :: "'st load_run \<Rightarrow> load_start \<Rightarrow> CheckpointValidationResult progress" where
  "snapshot_validation L st =
     run_checkpoint_validation (lr_sqlparser L) (lr_kernels L) (lr_calendar L) (lr_queries L)
       (case load_checkpoint_results (lr_checkpoint_dir L) 0 (map q_name (lr_queries L)) of Inl err \<Rightarrow> Map.empty | Inr results \<Rightarrow> results)
       (case load_checkpoint_row_counts (lr_checkpoint_dir L) 0 of Inl err \<Rightarrow> [] | Inr counts \<Rightarrow> counts)
       (ls_now st) (lr_timeout L) (ls_pause_time st) (lr_namespace L) (ls_ticks st)"

definition start_etl :: "'st load_run \<Rightarrow> load_start \<Rightarrow> unit result progress" where
  "start_etl L st =
     (if ls_state st = Paused
      then if lr_has_checkpoint_validation L
           then case snapshot_validation L st of
                  Waiting \<Rightarrow> Waiting
                | Panicked \<Rightarrow> Panicked
                | Returned (Converged _) \<Rightarrow> Returned (ls_continue st)
                | Returned Interrupted \<Rightarrow> Returned (Inl ''Interrupted during bootstrap snapshot (cp0) validation'')
                | Returned TimedOut \<Rightarrow> Returned (Inl ''Bootstrap snapshot (cp0) validation timed out'')
           else Returned (ls_continue st)
      else Returned (ls_run st))"

definition load_etl :: "'st load_run \<Rightarrow> load_start \<Rightarrow> load_event list \<Rightarrow> (samples \<times> RunOutcome option) result progress" where
  "load_etl L st events =
     (case start_etl L st of
        Waiting \<Rightarrow> Waiting
      | Panicked \<Rightarrow> Panicked
      | Returned (Inl e) \<Rightarrow> Returned (Inl e)
      | Returned (Inr _) \<Rightarrow>
          (case load_loop L events [] of
             Waiting \<Rightarrow> Waiting
           | Panicked \<Rightarrow> Panicked
           | Returned r \<Rightarrow> Returned (Inr r)))"

definition final_outcome :: "RunOutcome option \<Rightarrow> bool \<Rightarrow> RunOutcome" where
  "final_outcome run_outcome test_succeeded =
     (case run_outcome of
        Some outcome \<Rightarrow> outcome
      | None \<Rightarrow> if test_succeeded then Success else QueryFailure)"

subsection \<open>Every checkpoint is validated\<close>

text \<open>The events at which a checkpoint with stored results is due, and what its validation must give.\<close>

definition due_results :: "'st load_run \<Rightarrow> load_event \<Rightarrow> (string \<rightharpoonup> record_batch list) option" where
  "due_results L e =
     (if lr_has_checkpoint_validation L \<and> (le_state e = Paused \<or> le_state e = Stopped Completed)
      then case checkpoint_results L e of
             Inr expected_results \<Rightarrow> if expected_results = Map.empty then None else Some expected_results
           | Inl err \<Rightarrow> None
      else None)"

definition event_sample :: "'st load_run \<Rightarrow> load_event \<Rightarrow> samples" where
  "event_sample L e =
     (case due_results L e of
        None \<Rightarrow> []
      | Some expected_results \<Rightarrow>
          (case event_validation L expected_results e of
             Returned (Converged l) \<Rightarrow> [(le_checkpoint_idx e, l)]
           | _ \<Rightarrow> []))"

definition event_validated :: "'st load_run \<Rightarrow> load_event \<Rightarrow> bool" where
  "event_validated L e \<longleftrightarrow>
     (case due_results L e of
        None \<Rightarrow> True
      | Some expected_results \<Rightarrow>
          (case event_validation L expected_results e of Returned (Converged l) \<Rightarrow> True | _ \<Rightarrow> False))"

lemma checkpoint_window_none:
  assumes "checkpoint_window L e samples = Returned (samples', None)"
    and "le_state e = Paused \<or> le_state e = Stopped Completed"
  shows "event_validated L e" "samples' = samples @ event_sample L e"
  using assms
  by (auto simp: checkpoint_window_def event_validated_def event_sample_def due_results_def
      split: if_splits sum.splits progress.splits CheckpointValidationResult.splits)

lemma not_due:
  assumes "le_state e \<noteq> Paused" "le_state e \<noteq> Stopped Completed"
  shows "event_validated L e" "event_sample L e = []"
  using assms by (simp_all add: event_validated_def event_sample_def due_results_def)

lemma load_loop_validates:
  "load_loop L events samples = Returned (samples', None) \<Longrightarrow>
     \<exists>seen e rest. events = seen @ e # rest \<and> (le_state e = Stopped Completed \<or> le_state e = Stopped Cancelled)
       \<and> list_all (event_validated L) (seen @ [e]) \<and> samples' = samples @ concat (map (event_sample L) (seen @ [e]))"
proof (induction events arbitrary: samples)
  case (Cons e es)
  have on: "\<not> le_shutdown e" using Cons.prems by (auto split: if_splits)
  show ?case
  proof (cases "\<exists>r. le_state e = Stopped r")
    case True
    then obtain r where r: "le_state e = Stopped r" by blast
    have "r \<noteq> Error err" for err using Cons.prems on r by auto
    then have "r = Completed \<or> r = Cancelled" by (cases r) auto
    moreover have "event_validated L e \<and> samples' = samples @ event_sample L e"
      using calculation Cons.prems on r checkpoint_window_none[of L e samples samples'] not_due[of e L] by auto
    ultimately show ?thesis using r by (intro exI[of _ "[]"] exI[of _ e] exI[of _ es]) simp
  next
    case False
    obtain samples1 where more: "load_loop L es samples1 = Returned (samples', None)"
        and e: "event_validated L e" "samples1 = samples @ event_sample L e"
    proof (cases "le_state e = Paused")
      case True
      with Cons.prems on obtain samples1 where "checkpoint_window L e samples = Returned (samples1, None)"
          "load_loop L es samples1 = Returned (samples', None)"
        by (auto split: progress.splits option.splits sum.splits)
      then show ?thesis using that checkpoint_window_none[of L e samples samples1] True by blast
    next
      case notpaused: False
      with False Cons.prems on have "load_loop L es samples = Returned (samples', None)"
        by (cases "le_state e") auto
      then show ?thesis using that not_due[of e L] False notpaused by auto
    qed
    from Cons.IH[OF more] obtain seen f rest where "es = seen @ f # rest"
        "le_state f = Stopped Completed \<or> le_state f = Stopped Cancelled"
        "list_all (event_validated L) (seen @ [f])" "samples' = samples1 @ concat (map (event_sample L) (seen @ [f]))"
      by blast
    then show ?thesis using e by (intro exI[of _ "e # seen"] exI[of _ f] exI[of _ rest]) simp
  qed
qed simp

lemma load_outcome:
  "load_loop L events samples = Returned (samples', Some outcome) \<Longrightarrow> outcome \<noteq> Success \<and> outcome \<noteq> QueryFailure"
  by (induction events arbitrary: samples)
    (auto simp: checkpoint_window_def split: if_splits progress.splits option.splits sum.splits PipelineState.splits
      StopReason.splits CheckpointValidationResult.splits)

text \<open>
  C36. A load run reported as a success validated its checkpoints. When the pipeline was left paused
  by a bootstrap and validation is on, the snapshot, checkpoint 0, converged before the pipeline was
  resumed; it gives no latency sample. The loop after that ended with the pipeline completed or
  cancelled and not by a shutdown, a failure or a timeout, every checkpoint with stored
  results that the loop saw the pipeline pause or complete at converged, and the latency samples
  are those of these checkpoints, one each and in order.
\<close>

theorem successful_load_is_validated:
  assumes "load_etl L st events = Returned (Inr (samples, run_outcome))" and "final_outcome run_outcome succeeded = Success"
  shows "succeeded
     \<and> (ls_state st = Paused \<longrightarrow> ls_continue st = Inr ()
          \<and> (lr_has_checkpoint_validation L \<longrightarrow> (\<exists>l. snapshot_validation L st = Returned (Converged l))))
     \<and> (\<exists>seen e rest. events = seen @ e # rest \<and> (le_state e = Stopped Completed \<or> le_state e = Stopped Cancelled)
       \<and> list_all (event_validated L) (seen @ [e]) \<and> samples = concat (map (event_sample L) (seen @ [e])))"
proof -
  have start: "start_etl L st = Returned (Inr ())" and loop: "load_loop L events [] = Returned (samples, run_outcome)"
    using assms(1) by (auto simp: load_etl_def split: progress.splits sum.splits)
  have "run_outcome = None" "succeeded"
    using assms(2) load_outcome[of L events "[]" samples] loop by (auto simp: final_outcome_def split: option.splits if_splits)
  moreover have "ls_continue st = Inr () \<and> (lr_has_checkpoint_validation L \<longrightarrow> (\<exists>l. snapshot_validation L st = Returned (Converged l)))"
    if "ls_state st = Paused"
    using start that by (auto simp: start_etl_def split: if_splits progress.splits CheckpointValidationResult.splits)
  ultimately show ?thesis using load_loop_validates[of L events "[]" samples] loop by simp
qed

text \<open>A pause at a checkpoint with results, then the end of the pipeline at one without.\<close>

definition shown_run :: "string load_run" where
  "shown_run = \<lparr>lr_sqlparser = plain_sqlparser, lr_kernels = list_kernels, lr_calendar = fixed_calendar,
     lr_queries = two_queries, lr_has_checkpoint_validation = True,
     lr_checkpoint_dir = [0 \<mapsto> \<lparr>cf_parquet = (\<lambda>i. Some (Inr [count_batch 7])), cf_row_counts = Some (Inr [(''orders'', 3)])\<rparr>],
     lr_timeout = 100, lr_namespace = None\<rparr>"

definition shown_event :: "PipelineState \<Rightarrow> nat \<Rightarrow> load_event" where
  "shown_event state idx = \<lparr>le_shutdown = False, le_state = state, le_checkpoint_idx = idx, le_now = 0, le_pause_time = 0,
     le_ticks = map seen_tick [0, 1, 2, 100], le_continue = Inr ()\<rparr>"

definition shown_events :: "load_event list" where
  "shown_events = [shown_event Running 0, shown_event Paused 0, shown_event (Stopped Completed) 1]"

lemma shown_run_converges:
  "load_loop shown_run shown_events [] = Returned ([(0, latency_ms (10 ^ 9) 0)], None)"
proof -
  have r: "checkpoint_results shown_run (shown_event s 0) = Inr seven_expected" for s
    by (simp add: checkpoint_results_def load_checkpoint_results_def shown_run_def shown_event_def two_queries_def
        Query_new_def seven_expected_def)
  have n: "seven_expected \<noteq> Map.empty" by (simp add: seven_expected_def)
  have "event_validation shown_run seven_expected (shown_event s 0) = Returned (Converged (latency_ms (10 ^ 9) 0))" for s
    using seen_ticks_converge
    by (simp add: event_validation_def checkpoint_row_counts_def load_checkpoint_row_counts_def shown_run_def shown_event_def)
  with r n have w: "checkpoint_window shown_run (shown_event s 0) [] = Returned ([(0, latency_ms (10 ^ 9) 0)], None)" for s
    by (simp add: checkpoint_window_def) (simp add: shown_run_def shown_event_def)
  have "checkpoint_results shown_run (shown_event s 1) = Inl ''Checkpoint directory does not exist''" for s
    by (simp add: checkpoint_results_def load_checkpoint_results_def shown_run_def shown_event_def)
  then have "checkpoint_window shown_run (shown_event s 1) l = Returned (l, None)" for s l
    by (simp add: checkpoint_window_def)
  with w show ?thesis by (simp add: shown_events_def) (simp add: shown_event_def)
qed

definition shown_start :: load_start where
  "shown_start = \<lparr>ls_state = Paused, ls_now = 0, ls_pause_time = 0, ls_ticks = map seen_tick [0, 1, 2, 100],
     ls_continue = Inr (), ls_run = Inr ()\<rparr>"

lemma shown_load:
  "load_etl shown_run shown_start shown_events = Returned (Inr ([(0, latency_ms (10 ^ 9) 0)], None))"
proof -
  have "load_checkpoint_results (lr_checkpoint_dir shown_run) 0 (map q_name (lr_queries shown_run)) = Inr seven_expected"
    by (simp add: load_checkpoint_results_def shown_run_def two_queries_def Query_new_def seven_expected_def)
  then have "snapshot_validation shown_run shown_start = Returned (Converged (latency_ms (10 ^ 9) 0))"
    using seen_ticks_converge
    by (simp add: snapshot_validation_def) (simp add: load_checkpoint_row_counts_def shown_run_def shown_start_def)
  then have "start_etl shown_run shown_start = Returned (Inr ())"
    by (simp add: start_etl_def) (simp add: shown_start_def)
  then show ?thesis by (simp add: load_etl_def shown_run_converges)
qed

theorem successful_load_is_validated_witness:
  "(\<exists>l. snapshot_validation shown_run shown_start = Returned (Converged l))
   \<and> (\<exists>seen e rest. shown_events = seen @ e # rest \<and> (le_state e = Stopped Completed \<or> le_state e = Stopped Cancelled)
     \<and> list_all (event_validated shown_run) (seen @ [e])
     \<and> [(0, latency_ms (10 ^ 9) 0)] = concat (map (event_sample shown_run) (seen @ [e])))"
proof -
  have "ls_state shown_start = Paused" "lr_has_checkpoint_validation shown_run" by (simp_all add: shown_start_def shown_run_def)
  then show ?thesis using successful_load_is_validated[OF shown_load, of True] by (simp add: final_outcome_def)
qed

end
