(* ===== verification/CheckpointStore.thy ===== *)
theory CheckpointStore
  imports Checkpoint EtlRun "HOL-Library.AList"
begin

text \<open>
  \<^verbatim>\<open>src/commands/checkpoint.rs\<close> writes the expected results of the checkpoints into a local directory,
  \<^verbatim>\<open>crates/checkpointer/src/lib.rs\<close> moves them to an object store and back, with a manifest, and the load
  command reads them. The theorem of this theory follows them all the way.
\<close>

subsection \<open>Files and objects\<close>

text \<open>
  A checkpoint directory is the list of its subdirectories with their files, in the order
  of \<^verbatim>\<open>read_dir\<close>. \<open>io\<close> says which path an error of the file system hits.
\<close>

type_synonym 'b checkpoint_dir = "(string \<times> (string \<times> 'b) list) list"

definition create_dir_all :: "(string \<Rightarrow> string option) \<Rightarrow> string \<Rightarrow> 'b checkpoint_dir \<Rightarrow> 'b checkpoint_dir result" where
  "create_dir_all io name d =
     (case io name of
        Some e \<Rightarrow> Inl e
      | None \<Rightarrow> Inr (if map_of d name = None then d @ [(name, [])] else d))"

definition write_file :: "(string \<Rightarrow> string option) \<Rightarrow> string \<Rightarrow> string \<Rightarrow> 'b \<Rightarrow> 'b checkpoint_dir \<Rightarrow> 'b checkpoint_dir result" where
  "write_file io name fname bytes d =
     (case io (name @ ''/'' @ fname) of
        Some e \<Rightarrow> Inl e
      | None \<Rightarrow>
          (case map_of d name of
             None \<Rightarrow> Inl ''No such file or directory''
           | Some files \<Rightarrow> Inr (AList.update name (AList.update fname bytes files) d)))"

text \<open>\<^verbatim>\<open>Path::file_stem\<close> and \<^verbatim>\<open>Path::extension\<close> of a file name: split at the last dot, unless it is the first character.\<close>

definition split_extension :: "string \<Rightarrow> string \<times> string option" where
  "split_extension name =
     (let ext = rev (takeWhile (\<lambda>c. c \<noteq> CHR ''.'') (rev name));
          stem = take (length name - length ext - 1) name
      in if length ext = length name \<or> stem = [] then (name, None) else (stem, Some ext))"

definition is_parquet :: "string \<Rightarrow> bool" where
  "is_parquet name \<longleftrightarrow> snd (split_extension name) = Some ''parquet''"

definition file_index :: "string \<Rightarrow> nat option" where
  "file_index name = parse_unsigned usize_max (fst (split_extension name))"

record ScenarioCheckpoint =
  sc_checkpoint_indexes :: "nat list"
  sc_query_indexes :: "nat list"
  sc_checkpoint_interval_steps :: nat

record CheckpointManifest =
  cm_scenarios :: "string \<rightharpoonup> ScenarioCheckpoint"

text \<open>
  The object store, with \<open>None\<close> for an object that does not exist, the Parquet writer and reader, and the
  JSON form of the manifest and of the row counts.
\<close>

record ('t, 'b) checkpoint_env =
  ce_put :: "'t \<Rightarrow> string \<Rightarrow> 'b \<Rightarrow> unit result \<times> 't"
  ce_get :: "'t \<Rightarrow> string \<Rightarrow> 'b option result"
  ce_manifest_encode :: "CheckpointManifest \<Rightarrow> 'b result"
  ce_manifest_decode :: "'b \<Rightarrow> CheckpointManifest result"
  ce_parquet_encode :: "schema \<Rightarrow> record_batch list \<Rightarrow> 'b result"
  ce_parquet_decode :: "'b \<Rightarrow> record_batch list result"
  ce_counts_encode :: "(string \<times> nat) list \<Rightarrow> 'b result"
  ce_counts_decode :: "'b \<Rightarrow> (string \<times> nat) list result"

subsection \<open>Writing a checkpoint\<close>

definition parquet_name :: "nat \<Rightarrow> string" where
  "parquet_name query_idx = show_nat query_idx @ ''.parquet''"

text \<open>What the database answers: the batches of a query and, for an empty answer, its schema.\<close>

record checkpoint_event =
  ev_state :: PipelineState
  ev_query :: "string \<Rightarrow> record_batch list result"
  ev_query_schema :: "string \<Rightarrow> schema result"
  ev_continue :: "unit result"

definition query_parquet :: "('t, 'b) checkpoint_env \<Rightarrow> checkpoint_event \<Rightarrow> string \<Rightarrow> 'b result" where
  "query_parquet E ev sql =
     and_then (ev_query ev sql) (\<lambda>batches.
     and_then (case batches of first # _ \<Rightarrow> Inr (rb_schema first) | [] \<Rightarrow> ev_query_schema ev sql) (\<lambda>result_schema.
       ce_parquet_encode E result_schema batches))"

fun write_query_results :: "('t, 'b) checkpoint_env \<Rightarrow> (string \<Rightarrow> string option) \<Rightarrow> checkpoint_event \<Rightarrow> string \<Rightarrow> nat \<Rightarrow> string list
    \<Rightarrow> 'b checkpoint_dir \<Rightarrow> 'b checkpoint_dir result" where
  "write_query_results E io ev name query_idx [] d = Inr d"
| "write_query_results E io ev name query_idx (sql # queries) d =
     and_then (query_parquet E ev sql) (\<lambda>bytes.
     and_then (write_file io name (parquet_name query_idx) bytes d) (\<lambda>d.
       write_query_results E io ev name (query_idx + 1) queries d))"

definition run_checkpoint_queries :: "('t, 'b) checkpoint_env \<Rightarrow> (string \<Rightarrow> string option) \<Rightarrow> checkpoint_event \<Rightarrow> string list \<Rightarrow> nat
    \<Rightarrow> 'b checkpoint_dir \<Rightarrow> 'b checkpoint_dir result" where
  "run_checkpoint_queries E io ev checkpoint_queries checkpoint_idx d =
     and_then (create_dir_all io (show_nat checkpoint_idx) d) (\<lambda>d.
       write_query_results E io ev (show_nat checkpoint_idx) 0 checkpoint_queries d)"

text \<open>\<open>extract_row_count_value\<close> is the same function as \<open>extract_row_count_from_batches\<close> of the load command.\<close>

fun table_row_counts :: "calendar \<Rightarrow> checkpoint_event \<Rightarrow> string list \<Rightarrow> (string \<times> nat) list result" where
  "table_row_counts C ev [] = Inr []"
| "table_row_counts C ev (table_name # tables) =
     and_then (ev_query ev (''SELECT COUNT(*) AS row_count FROM '' @ [CHR 34] @ table_name @ [CHR 34])) (\<lambda>batches.
     and_then (extract_row_count_from_batches C batches) (\<lambda>row_count.
     and_then (table_row_counts C ev tables) (\<lambda>row_counts. Inr ((table_name, row_count) # row_counts))))"

definition write_checkpoint_row_counts :: "('t, 'b) checkpoint_env \<Rightarrow> (string \<Rightarrow> string option) \<Rightarrow> calendar \<Rightarrow> checkpoint_event
    \<Rightarrow> string list \<Rightarrow> nat \<Rightarrow> 'b checkpoint_dir \<Rightarrow> 'b checkpoint_dir result" where
  "write_checkpoint_row_counts E io C ev table_names checkpoint_idx d =
     and_then (create_dir_all io (show_nat checkpoint_idx) d) (\<lambda>d.
     and_then (table_row_counts C ev table_names) (\<lambda>row_counts.
     and_then (ce_counts_encode E row_counts) (\<lambda>json.
       write_file io (show_nat checkpoint_idx) ''row_counts.json'' json d)))"

definition write_checkpoint :: "('t, 'b) checkpoint_env \<Rightarrow> (string \<Rightarrow> string option) \<Rightarrow> calendar \<Rightarrow> checkpoint_event
    \<Rightarrow> string list \<Rightarrow> string list \<Rightarrow> nat \<Rightarrow> 'b checkpoint_dir \<Rightarrow> 'b checkpoint_dir result" where
  "write_checkpoint E io C ev checkpoint_queries table_names checkpoint_idx d =
     and_then (run_checkpoint_queries E io ev checkpoint_queries checkpoint_idx d) (\<lambda>d.
       write_checkpoint_row_counts E io C ev table_names checkpoint_idx d)"

subsection \<open>The store\<close>

definition object_path :: "string \<Rightarrow> string \<Rightarrow> string" where
  "object_path prefix suffix = (if prefix = [] then suffix else prefix @ ''/'' @ suffix)"

definition manifest_path :: "string \<Rightarrow> string" where
  "manifest_path prefix = object_path prefix ''checkpoints.json''"

definition checkpoint_parquet_path :: "string \<Rightarrow> nat \<Rightarrow> nat \<Rightarrow> string" where
  "checkpoint_parquet_path prefix checkpoint_idx query_idx =
     object_path prefix (''checkpoints/'' @ show_nat checkpoint_idx @ ''/'' @ show_nat query_idx @ ''.parquet'')"

definition checkpoint_row_counts_path :: "string \<Rightarrow> nat \<Rightarrow> string" where
  "checkpoint_row_counts_path prefix checkpoint_idx =
     object_path prefix (''checkpoints/'' @ show_nat checkpoint_idx @ ''/row_counts.json'')"

fun upload_queries :: "('t, 'b) checkpoint_env \<Rightarrow> string \<Rightarrow> nat \<Rightarrow> (string \<times> 'b) list \<Rightarrow> nat set \<Rightarrow> 't \<Rightarrow> nat set result \<times> 't" where
  "upload_queries E prefix checkpoint_idx [] query_indexes t = (Inr query_indexes, t)"
| "upload_queries E prefix checkpoint_idx ((name, bytes) # files) query_indexes t =
     (let q_idx = (case file_index name of Some q \<Rightarrow> q | None \<Rightarrow> 0)
      in case ce_put E t (checkpoint_parquet_path prefix checkpoint_idx q_idx) bytes of
           (Inl e, t) \<Rightarrow> (Inl e, t)
         | (Inr _, t) \<Rightarrow> upload_queries E prefix checkpoint_idx files (insert q_idx query_indexes) t)"

fun upload_dirs :: "('t, 'b) checkpoint_env \<Rightarrow> string \<Rightarrow> 'b checkpoint_dir \<Rightarrow> nat list \<Rightarrow> nat set \<Rightarrow> 't \<Rightarrow> (nat list \<times> nat set) result \<times> 't" where
  "upload_dirs E prefix [] checkpoint_indexes query_indexes t = (Inr (checkpoint_indexes, query_indexes), t)"
| "upload_dirs E prefix ((name, files) # dirs) checkpoint_indexes query_indexes t =
     (let checkpoint_idx = (case parse_unsigned usize_max name of Some i \<Rightarrow> i | None \<Rightarrow> 0);
          query_files = sort_key fst (filter (\<lambda>f. is_parquet (fst f)) files)
      in case upload_queries E prefix checkpoint_idx query_files query_indexes t of
           (Inl e, t) \<Rightarrow> (Inl e, t)
         | (Inr query_indexes, t) \<Rightarrow>
             (case map_of files ''row_counts.json'' of
                None \<Rightarrow> upload_dirs E prefix dirs (checkpoint_indexes @ [checkpoint_idx]) query_indexes t
              | Some bytes \<Rightarrow>
                  (case ce_put E t (checkpoint_row_counts_path prefix checkpoint_idx) bytes of
                     (Inl e, t) \<Rightarrow> (Inl e, t)
                   | (Inr _, t) \<Rightarrow> upload_dirs E prefix dirs (checkpoint_indexes @ [checkpoint_idx]) query_indexes t)))"

definition download_manifest :: "('t, 'b) checkpoint_env \<Rightarrow> string \<Rightarrow> 't \<Rightarrow> CheckpointManifest result" where
  "download_manifest E prefix t =
     and_then (ce_get E t (manifest_path prefix)) (\<lambda>data.
       case data of None \<Rightarrow> Inl ''not found'' | Some bytes \<Rightarrow> ce_manifest_decode E bytes)"

definition put_manifest :: "('t, 'b) checkpoint_env \<Rightarrow> string \<Rightarrow> CheckpointManifest \<Rightarrow> 't \<Rightarrow> unit result \<times> 't" where
  "put_manifest E prefix manifest t =
     (case ce_manifest_encode E manifest of
        Inl e \<Rightarrow> (Inl e, t)
      | Inr json \<Rightarrow> ce_put E t (manifest_path prefix) json)"

definition add_scenario :: "string \<Rightarrow> nat list \<Rightarrow> nat set \<Rightarrow> nat \<Rightarrow> CheckpointManifest \<Rightarrow> CheckpointManifest" where
  "add_scenario scenario checkpoint_indexes query_indexes steps manifest =
     manifest\<lparr>cm_scenarios := (cm_scenarios manifest)(scenario \<mapsto>
       \<lparr>sc_checkpoint_indexes = checkpoint_indexes, sc_query_indexes = sorted_list_of_set query_indexes,
        sc_checkpoint_interval_steps = steps\<rparr>)\<rparr>"

definition upload_checkpoints :: "('t, 'b) checkpoint_env \<Rightarrow> string \<Rightarrow> string \<Rightarrow> 'b checkpoint_dir option \<Rightarrow> nat \<Rightarrow> 't \<Rightarrow> unit result \<times> 't" where
  "upload_checkpoints E prefix scenario local_dir steps t =
     (case local_dir of
        None \<Rightarrow> (Inl ''Checkpoint directory does not exist'', t)
      | Some dirs \<Rightarrow>
          (case upload_dirs E prefix (sort_key fst dirs) [] {} t of
             (Inl e, t) \<Rightarrow> (Inl e, t)
           | (Inr (checkpoint_indexes, query_indexes), t) \<Rightarrow>
               let manifest = (case download_manifest E prefix t of Inr m \<Rightarrow> m | Inl e \<Rightarrow> \<lparr>cm_scenarios = Map.empty\<rparr>)
               in put_manifest E prefix (add_scenario scenario checkpoint_indexes query_indexes steps manifest) t))"

text \<open>The manifest of a local directory, where names that are not numbers are skipped.\<close>

definition dir_queries :: "(string \<times> 'b) list \<Rightarrow> nat set" where
  "dir_queries files =
     set (filter (\<lambda>q. q \<noteq> usize_max)
       (map (\<lambda>f. case file_index (fst f) of Some q \<Rightarrow> q | None \<Rightarrow> usize_max) (filter (\<lambda>f. is_parquet (fst f)) files)))"

fun scan_dirs :: "'b checkpoint_dir \<Rightarrow> nat list \<Rightarrow> nat set \<Rightarrow> nat list \<times> nat set" where
  "scan_dirs [] checkpoint_indexes query_indexes = (checkpoint_indexes, query_indexes)"
| "scan_dirs ((name, files) # dirs) checkpoint_indexes query_indexes =
     (let checkpoint_idx = (case parse_unsigned usize_max name of Some i \<Rightarrow> i | None \<Rightarrow> usize_max)
      in if checkpoint_idx = usize_max then scan_dirs dirs checkpoint_indexes query_indexes
         else scan_dirs dirs (checkpoint_indexes @ [checkpoint_idx]) (query_indexes \<union> dir_queries files))"

definition write_local_manifest :: "('t, 'b) checkpoint_env \<Rightarrow> string \<Rightarrow> 'b checkpoint_dir \<Rightarrow> nat \<Rightarrow> 'b result" where
  "write_local_manifest E scenario dirs steps =
     (case scan_dirs (sort_key fst dirs) [] {} of (checkpoint_indexes, query_indexes) \<Rightarrow>
        ce_manifest_encode E (add_scenario scenario checkpoint_indexes query_indexes steps \<lparr>cm_scenarios = Map.empty\<rparr>))"

fun download_queries :: "('t, 'b) checkpoint_env \<Rightarrow> (string \<Rightarrow> string option) \<Rightarrow> string \<Rightarrow> nat \<Rightarrow> nat list \<Rightarrow> 't
    \<Rightarrow> 'b checkpoint_dir \<Rightarrow> 'b checkpoint_dir result" where
  "download_queries E io prefix checkpoint_idx [] t d = Inr d"
| "download_queries E io prefix checkpoint_idx (q_idx # queries) t d =
     and_then (ce_get E t (checkpoint_parquet_path prefix checkpoint_idx q_idx)) (\<lambda>data.
       case data of
         None \<Rightarrow> Inl ''not found''
       | Some bytes \<Rightarrow>
           and_then (write_file io (show_nat checkpoint_idx) (parquet_name q_idx) bytes d) (\<lambda>d.
             download_queries E io prefix checkpoint_idx queries t d))"

fun download_dirs :: "('t, 'b) checkpoint_env \<Rightarrow> (string \<Rightarrow> string option) \<Rightarrow> string \<Rightarrow> nat list \<Rightarrow> nat list \<Rightarrow> 't
    \<Rightarrow> 'b checkpoint_dir \<Rightarrow> 'b checkpoint_dir result" where
  "download_dirs E io prefix [] query_indexes t d = Inr d"
| "download_dirs E io prefix (checkpoint_idx # indexes) query_indexes t d =
     and_then (create_dir_all io (show_nat checkpoint_idx) d) (\<lambda>d.
     and_then (download_queries E io prefix checkpoint_idx query_indexes t d) (\<lambda>d.
     and_then (ce_get E t (checkpoint_row_counts_path prefix checkpoint_idx)) (\<lambda>data.
     and_then (case data of None \<Rightarrow> Inr d | Some bytes \<Rightarrow> write_file io (show_nat checkpoint_idx) ''row_counts.json'' bytes d) (\<lambda>d.
       download_dirs E io prefix indexes query_indexes t d))))"

definition download_checkpoints :: "('t, 'b) checkpoint_env \<Rightarrow> (string \<Rightarrow> string option) \<Rightarrow> string \<Rightarrow> ScenarioCheckpoint \<Rightarrow> 't
    \<Rightarrow> 'b checkpoint_dir \<Rightarrow> 'b checkpoint_dir result" where
  "download_checkpoints E io prefix info t d =
     download_dirs E io prefix (sc_checkpoint_indexes info) (sc_query_indexes info) t d"

subsection \<open>The checkpoint command\<close>

record checkpoint_args =
  ca_scenario :: string
  ca_version_prefix :: string
  ca_queries :: "string list"
  ca_tables :: "string list"
  ca_interval_steps :: nat
  ca_local_archive :: bool

text \<open>
  The loop over the states the pipeline returns; the result of the command, the directory and the
  object store, and in the local mode the manifest.
\<close>

fun checkpoint_loop :: "('t, 'b) checkpoint_env \<Rightarrow> (string \<Rightarrow> string option) \<Rightarrow> calendar \<Rightarrow> checkpoint_args \<Rightarrow> checkpoint_event list
    \<Rightarrow> nat \<Rightarrow> 'b checkpoint_dir \<Rightarrow> 't \<Rightarrow> ('b option result \<times> 'b checkpoint_dir \<times> 't) progress" where
  "checkpoint_loop E io C args [] checkpoint_idx d t = Waiting"
| "checkpoint_loop E io C args (ev # evs) checkpoint_idx d t =
     (case ev_state ev of
        Paused \<Rightarrow>
          (case write_checkpoint E io C ev (ca_queries args) (ca_tables args) checkpoint_idx d of
             Inl e \<Rightarrow> Returned (Inl e, d, t)
           | Inr d \<Rightarrow>
               (case ev_continue ev of
                  Inl e \<Rightarrow> Returned (Inl e, d, t)
                | Inr _ \<Rightarrow> checkpoint_loop E io C args evs (checkpoint_idx + 1) d t))
      | Stopped Completed \<Rightarrow>
          (case write_checkpoint E io C ev (ca_queries args) (ca_tables args) checkpoint_idx d of
             Inl e \<Rightarrow> Returned (Inl e, d, t)
           | Inr d \<Rightarrow>
               if ca_local_archive args
               then Returned (map_sum id Some (write_local_manifest E (ca_scenario args) d (ca_interval_steps args)), d, t)
               else (case upload_checkpoints E (ca_version_prefix args) (ca_scenario args) (Some d) (ca_interval_steps args) t of
                       (r, t) \<Rightarrow> Returned (map_sum id (\<lambda>_. None) r, d, t)))
      | Stopped Cancelled \<Rightarrow> Returned (Inr None, d, t)
      | Stopped (Error e) \<Rightarrow> Returned (Inl (''Checkpointer failed: '' @ e), d, t)
      | _ \<Rightarrow> Returned (Inl ''Unexpected final pipeline state'', d, t))"

text \<open>How the load command sees a directory.\<close>

definition directory_files :: "('t, 'b) checkpoint_env \<Rightarrow> 'b checkpoint_dir \<Rightarrow> nat \<rightharpoonup> checkpoint_files" where
  "directory_files E d checkpoint_idx =
     map_option (\<lambda>files. \<lparr>cf_parquet = (\<lambda>q. map_option (ce_parquet_decode E) (map_of files (parquet_name q))),
                          cf_row_counts = map_option (ce_counts_decode E) (map_of files ''row_counts.json'')\<rparr>)
       (map_of d (show_nat checkpoint_idx))"

subsection \<open>What a checkpoint holds\<close>

definition cp_files :: "'b list \<times> 'b \<Rightarrow> (string \<times> 'b) list" where
  "cp_files cp = map (\<lambda>q. (parquet_name q, fst cp ! q)) [0..<length (fst cp)] @ [(''row_counts.json'', snd cp)]"

definition written :: "('t, 'b) checkpoint_env \<Rightarrow> calendar \<Rightarrow> checkpoint_event \<Rightarrow> string list \<Rightarrow> string list \<Rightarrow> 'b list \<times> 'b \<Rightarrow> bool" where
  "written E C ev queries tables cp \<longleftrightarrow> length (fst cp) = length queries
     \<and> (\<forall>q < length queries. query_parquet E ev (queries ! q) = Inr (fst cp ! q))
     \<and> (\<exists>counts. table_row_counts C ev tables = Inr counts \<and> ce_counts_encode E counts = Inr (snd cp))"

lemma parquet_name_eq [simp]: "parquet_name p = parquet_name q \<longleftrightarrow> p = q"
  by (simp add: parquet_name_def show_nat_inj)

lemma parquet_name_not_counts [simp]: "parquet_name q \<noteq> ''row_counts.json''" "''row_counts.json'' \<noteq> parquet_name q"
proof -
  show "parquet_name q \<noteq> ''row_counts.json''"
    using show_nat_not_plus[of q] by (cases "show_nat q") (auto simp: parquet_name_def is_digit_def)
  then show "''row_counts.json'' \<noteq> parquet_name q" by metis
qed

lemma update_fresh: "k \<notin> fst ` set xs \<Longrightarrow> AList.update k v xs = xs @ [(k, v)]"
  by (induction xs) auto

lemma update_last: "k \<notin> fst ` set xs \<Longrightarrow> AList.update k v (xs @ [(k, w)]) = xs @ [(k, v)]"
  by (induction xs) auto

lemma map_of_last: "k \<notin> fst ` set xs \<Longrightarrow> map_of (xs @ [(k, v)]) k = Some v"
  by (simp add: map_of_eq_None_iff[symmetric] map_add_def)

lemma map_sum_Inr [simp]: "map_sum f g x = Inr r \<longleftrightarrow> (\<exists>y. x = Inr y \<and> r = g y)"
  by (cases x) auto

lemma write_file_last:
  assumes "name \<notin> fst ` set d" "f \<notin> fst ` set files"
  shows "write_file io name f bytes (d @ [(name, files)]) =
    (case io (name @ ''/'' @ f) of Some e \<Rightarrow> Inl e | None \<Rightarrow> Inr (d @ [(name, files @ [(f, bytes)])]))"
  using assms map_of_last[OF assms(1), of files]
  by (simp add: write_file_def update_last update_fresh split: option.splits)

lemma write_query_results_files:
  assumes "write_query_results E io ev name k queries (d @ [(name, files)]) = Inr d'"
    and "name \<notin> fst ` set d" "\<forall>q \<ge> k. parquet_name q \<notin> fst ` set files"
  shows "\<exists>bs. length bs = length queries \<and> (\<forall>q < length queries. query_parquet E ev (queries ! q) = Inr (bs ! q))
     \<and> d' = d @ [(name, files @ map (\<lambda>q. (parquet_name (k + q), bs ! q)) [0..<length bs])]"
  using assms
proof (induction queries arbitrary: k files)
  case (Cons sql queries)
  obtain b where b: "query_parquet E ev sql = Inr b" "io (name @ ''/'' @ parquet_name k) = None"
      "write_query_results E io ev name (k + 1) queries (d @ [(name, files @ [(parquet_name k, b)])]) = Inr d'"
    using Cons.prems by (auto simp: write_file_last and_then_Inr_iff split: option.splits)
  from Cons.IH[OF b(3) Cons.prems(2)] Cons.prems(3) obtain bs where bs: "length bs = length queries"
      "\<forall>q < length queries. query_parquet E ev (queries ! q) = Inr (bs ! q)"
      "d' = d @ [(name, (files @ [(parquet_name k, b)]) @ map (\<lambda>q. (parquet_name (k + 1 + q), bs ! q)) [0..<length bs])]"
    by auto
  have "map (\<lambda>q. (parquet_name (k + q), (b # bs) ! q)) [0..<length (b # bs)] =
      (parquet_name k, b) # map (\<lambda>q. (parquet_name (k + 1 + q), bs ! q)) [0..<length bs]"
    by (simp add: upt_conv_Cons map_Suc_upt[symmetric] del: upt_Suc)
  then show ?case using bs b(1) by (intro exI[of _ "b # bs"]) (auto simp: nth_Cons split: nat.splits)
qed simp

lemma write_checkpoint_files:
  assumes "write_checkpoint E io C ev queries tables idx d = Inr d'" and "show_nat idx \<notin> fst ` set d"
  shows "\<exists>cp. written E C ev queries tables cp \<and> d' = d @ [(show_nat idx, cp_files cp)]"
proof -
  let ?n = "show_nat idx"
  have "map_of d ?n = None" using assms(2) by (simp add: map_of_eq_None_iff)
  then obtain d1 where d1: "write_query_results E io ev ?n 0 queries (d @ [(?n, [])]) = Inr d1"
      and rc: "write_checkpoint_row_counts E io C ev tables idx d1 = Inr d'"
    using assms(1) by (auto simp: write_checkpoint_def run_checkpoint_queries_def create_dir_all_def and_then_Inr_iff
        split: option.splits if_splits)
  obtain bs where bs: "length bs = length queries" "\<forall>q < length queries. query_parquet E ev (queries ! q) = Inr (bs ! q)"
      "d1 = d @ [(?n, map (\<lambda>q. (parquet_name q, bs ! q)) [0..<length bs])]"
    using write_query_results_files[OF d1 assms(2)] by auto
  have old: "map_of d1 ?n \<noteq> None" using map_of_last[OF assms(2)] by (simp add: bs(3))
  obtain counts json where c: "table_row_counts C ev tables = Inr counts" "ce_counts_encode E counts = Inr json"
      "write_file io ?n ''row_counts.json'' json d1 = Inr d'"
    using rc old by (auto simp: write_checkpoint_row_counts_def create_dir_all_def and_then_Inr_iff split: option.splits)
  have "d' = d @ [(?n, cp_files (bs, json))]"
    using c(3) unfolding bs(3)
    by (subst (asm) write_file_last) (use assms(2) in \<open>auto simp: cp_files_def split: option.splits\<close>)
  then show ?thesis using bs(1,2) c(1,2) by (intro exI[of _ "(bs, json)"]) (simp add: written_def)
qed

text \<open>The directory of the checkpoints of the first events.\<close>

definition cp_dir :: "nat list \<Rightarrow> ('b list \<times> 'b) list \<Rightarrow> 'b checkpoint_dir" where
  "cp_dir idxs cps = map (\<lambda>i. (show_nat i, cp_files (cps ! i))) idxs"

lemma checkpoint_loop_files:
  assumes "checkpoint_loop E io C args evs (length cps) (cp_dir [0..<length cps] cps) t = Returned (Inr r, d', t')"
    and "\<not> ca_local_archive args" "\<forall>ev \<in> set evs. ev_state ev \<noteq> Stopped Cancelled"
  shows "\<exists>k more. k < length evs \<and> length more = Suc k \<and> (\<forall>i < k. ev_state (evs ! i) = Paused)
     \<and> ev_state (evs ! k) = Stopped Completed
     \<and> (\<forall>i \<le> k. written E C (evs ! i) (ca_queries args) (ca_tables args) (more ! i))
     \<and> d' = cp_dir [0..<length (cps @ more)] (cps @ more)
     \<and> upload_checkpoints E (ca_version_prefix args) (ca_scenario args) (Some d') (ca_interval_steps args) t = (Inr (), t')"
  using assms(1,3)
proof (induction evs arbitrary: cps)
  case (Cons ev evs)
  let ?d = "cp_dir [0..<length cps] cps"
  have fresh: "show_nat (length cps) \<notin> fst ` set ?d" by (auto simp: cp_dir_def show_nat_inj)
  obtain d1 where w: "write_checkpoint E io C ev (ca_queries args) (ca_tables args) (length cps) ?d = Inr d1"
    and next_: "ev_state ev = Paused \<and> checkpoint_loop E io C args evs (length cps + 1) d1 t = Returned (Inr r, d', t')
       \<or> ev_state ev = Stopped Completed \<and> d' = d1
          \<and> upload_checkpoints E (ca_version_prefix args) (ca_scenario args) (Some d') (ca_interval_steps args) t = (Inr (), t')"
    using Cons.prems assms(2)
    by (auto split: PipelineState.splits StopReason.splits sum.splits prod.splits)
  obtain cp where cp: "written E C ev (ca_queries args) (ca_tables args) cp" "d1 = ?d @ [(show_nat (length cps), cp_files cp)]"
    using write_checkpoint_files[OF w fresh] by blast
  have d1: "d1 = cp_dir [0..<length (cps @ [cp])] (cps @ [cp])"
    by (simp add: cp(2) cp_dir_def nth_append)
  from next_ show ?case
  proof
    assume p: "ev_state ev = Paused \<and> checkpoint_loop E io C args evs (length cps + 1) d1 t = Returned (Inr r, d', t')"
    then have "checkpoint_loop E io C args evs (length (cps @ [cp])) (cp_dir [0..<length (cps @ [cp])] (cps @ [cp])) t = Returned (Inr r, d', t')"
      using d1 by simp
    from Cons.IH[OF this] Cons.prems(2) obtain k more where "k < length evs" "length more = Suc k" "\<forall>i < k. ev_state (evs ! i) = Paused"
        "ev_state (evs ! k) = Stopped Completed"
        "\<forall>i \<le> k. written E C (evs ! i) (ca_queries args) (ca_tables args) (more ! i)"
        "d' = cp_dir [0..<length ((cps @ [cp]) @ more)] ((cps @ [cp]) @ more)"
        "upload_checkpoints E (ca_version_prefix args) (ca_scenario args) (Some d') (ca_interval_steps args) t = (Inr (), t')"
      by auto
    then show ?thesis
      using p cp(1) by (intro exI[of _ "Suc k"] exI[of _ "cp # more"]) (auto simp: nth_Cons less_Suc_eq_0_disj split: nat.splits)
  next
    assume "ev_state ev = Stopped Completed \<and> d' = d1
          \<and> upload_checkpoints E (ca_version_prefix args) (ca_scenario args) (Some d') (ca_interval_steps args) t = (Inr (), t')"
    then show ?thesis using cp(1) d1 by (intro exI[of _ 0] exI[of _ "[cp]"]) auto
  qed
qed simp

subsection \<open>The objects of an upload\<close>

text \<open>What the object store, the codecs and the database promise.\<close>

definition store_ok :: "('t, 'b) checkpoint_env \<Rightarrow> bool" where
  "store_ok E \<longleftrightarrow> (\<forall>t p b t'. ce_put E t p b = (Inr (), t') \<longrightarrow>
     ce_get E t' p = Inr (Some b) \<and> (\<forall>q. q \<noteq> p \<longrightarrow> ce_get E t' q = ce_get E t q))"

definition codecs_ok :: "('t, 'b) checkpoint_env \<Rightarrow> bool" where
  "codecs_ok E \<longleftrightarrow>
     (\<forall>m b. ce_manifest_encode E m = Inr b \<longrightarrow> ce_manifest_decode E b = Inr m)
   \<and> (\<forall>c b. ce_counts_encode E c = Inr b \<longrightarrow> (\<exists>c'. ce_counts_decode E b = Inr c' \<and> map_of c' = map_of c))
   \<and> (\<forall>s bs b. (\<forall>x \<in> set bs. wf_batch x \<and> rb_schema x = s) \<longrightarrow> ce_parquet_encode E s bs = Inr b \<longrightarrow>
        (\<exists>bs'. ce_parquet_decode E b = Inr bs' \<and> concat (map rows bs') = concat (map rows bs)
           \<and> (\<forall>x \<in> set bs'. wf_batch x \<and> rb_schema x = s)))"

fun put_all :: "('t, 'b) checkpoint_env \<Rightarrow> (string \<times> 'b) list \<Rightarrow> 't \<Rightarrow> unit result \<times> 't" where
  "put_all E [] t = (Inr (), t)"
| "put_all E ((p, b) # puts) t = (case ce_put E t p b of (Inl e, t) \<Rightarrow> (Inl e, t) | (Inr _, t) \<Rightarrow> put_all E puts t)"

lemma put_all_append:
  "put_all E (xs @ ys) t = (case put_all E xs t of (Inl e, t) \<Rightarrow> (Inl e, t) | (Inr _, t) \<Rightarrow> put_all E ys t)"
  by (induction E xs t rule: put_all.induct) (auto split: prod.splits sum.splits)

lemma put_all_get:
  assumes "store_ok E" "single_valued (set puts)" "put_all E puts t = (Inr (), t')"
  shows "(\<forall>(p, b) \<in> set puts. ce_get E t' p = Inr (Some b)) \<and> (\<forall>p. p \<notin> fst ` set puts \<longrightarrow> ce_get E t' p = ce_get E t p)"
  using assms(2,3)
proof (induction puts arbitrary: t)
  case (Cons pb puts)
  obtain p b where pb: "pb = (p, b)" by (cases pb)
  obtain t1 where t1: "ce_put E t p b = (Inr (), t1)" "put_all E puts t1 = (Inr (), t')"
    using Cons.prems(2) by (auto simp: pb split: prod.splits sum.splits)
  have sv: "single_valued (set puts)" using Cons.prems(1) by (auto simp: single_valued_def)
  have got: "ce_get E t1 p = Inr (Some b)" "\<forall>q. q \<noteq> p \<longrightarrow> ce_get E t1 q = ce_get E t q"
    using assms(1) t1(1) by (auto simp: store_ok_def)
  note IH = Cons.IH[OF sv t1(2)]
  have "ce_get E t' p = Inr (Some b)"
  proof (cases "p \<in> fst ` set puts")
    case True
    then obtain c where "(p, c) \<in> set puts" by force
    moreover from this have "c = b" using Cons.prems(1) by (auto simp: pb single_valued_def)
    ultimately show ?thesis using IH by auto
  next
    case False
    then show ?thesis using IH got by simp
  qed
  then show ?case using IH got by (auto simp: pb)
qed simp

lemma upload_queries_puts:
  "upload_queries E prefix i files S t = (Inr S', t') \<Longrightarrow>
     put_all E (map (\<lambda>(n, b). (checkpoint_parquet_path prefix i (case file_index n of Some q \<Rightarrow> q | None \<Rightarrow> 0), b)) files) t = (Inr (), t')
   \<and> S' = S \<union> (\<lambda>(n, b). case file_index n of Some q \<Rightarrow> q | None \<Rightarrow> 0) ` set files"
  by (induction E prefix i files S t rule: upload_queries.induct) (auto simp: Let_def split: prod.splits sum.splits)

text \<open>The names the checkpoint command gives are read back.\<close>

lemma parse_show: "i \<le> usize_max \<Longrightarrow> parse_unsigned usize_max (show_nat i) = Some i"
  by (rule parse_unsigned_show)

lemma split_parquet_name: "split_extension (parquet_name q) = (show_nat q, Some ''parquet'')"
proof -
  have "takeWhile (\<lambda>c. c \<noteq> CHR ''.'') (rev (parquet_name q)) = rev ''parquet''"
    by (simp add: parquet_name_def)
  then show ?thesis by (simp add: split_extension_def Let_def) (simp add: parquet_name_def)
qed

lemma cp_files_index:
  assumes "length (fst cp) \<le> usize_max"
  shows "filter (\<lambda>f. is_parquet (fst f)) (cp_files cp) = map (\<lambda>q. (parquet_name q, fst cp ! q)) [0..<length (fst cp)]"
    and "q < length (fst cp) \<Longrightarrow> file_index (parquet_name q) = Some q"
proof -
  have "\<not> is_parquet ''row_counts.json''" by code_simp
  moreover have "is_parquet (parquet_name q)" for q by (simp add: is_parquet_def split_parquet_name)
  ultimately show "filter (\<lambda>f. is_parquet (fst f)) (cp_files cp) = map (\<lambda>q. (parquet_name q, fst cp ! q)) [0..<length (fst cp)]"
    by (simp add: cp_files_def filter_map comp_def)
  show "q < length (fst cp) \<Longrightarrow> file_index (parquet_name q) = Some q"
    using assms by (simp add: file_index_def split_parquet_name parse_show)
qed

lemma cp_files_lookup [simp]:
  "map_of (cp_files cp) ''row_counts.json'' = Some (snd cp)"
  "q < length (fst cp) \<Longrightarrow> map_of (cp_files cp) (parquet_name q) = Some (fst cp ! q)"
proof -
  have keys: "fst ` set (map (\<lambda>q. (parquet_name q, fst cp ! q)) [0..<length (fst cp)]) = parquet_name ` {0..<length (fst cp)}"
    by force
  show "map_of (cp_files cp) ''row_counts.json'' = Some (snd cp)"
    unfolding cp_files_def by (rule map_of_last) (unfold keys, auto)
  assume "q < length (fst cp)"
  then have "map_of (map (\<lambda>q. (parquet_name q, fst cp ! q)) [0..<length (fst cp)]) (parquet_name q) = Some (fst cp ! q)"
    by (intro map_of_is_SomeI) (auto simp: comp_def distinct_map inj_on_def)
  then show "map_of (cp_files cp) (parquet_name q) = Some (fst cp ! q)"
    by (simp add: cp_files_def map_add_Some_iff)
qed

lemma digits_slash: "show_nat a @ ''/'' @ x = show_nat b @ ''/'' @ y \<longleftrightarrow> a = b \<and> x = y"
proof
  assume e: "show_nat a @ ''/'' @ x = show_nat b @ ''/'' @ y"
  have "takeWhile is_digit (show_nat n @ ''/'' @ z) = show_nat n" for n z
    by (rule takeWhile_digits(1)[OF show_nat_digits]) (simp add: is_digit_def)
  with e have "show_nat a = show_nat b" by metis
  then show "a = b \<and> x = y" using e by (simp add: show_nat_inj)
qed simp

lemma object_path_eq [simp]: "object_path prefix x = object_path prefix y \<longleftrightarrow> x = y"
  by (simp add: object_path_def)

lemma checkpoint_paths_eq [simp]:
  "checkpoint_parquet_path prefix i q = checkpoint_parquet_path prefix j r \<longleftrightarrow> i = j \<and> q = r"
  "checkpoint_row_counts_path prefix i = checkpoint_row_counts_path prefix j \<longleftrightarrow> i = j"
  "checkpoint_parquet_path prefix i q \<noteq> checkpoint_row_counts_path prefix j"
  "checkpoint_row_counts_path prefix j \<noteq> checkpoint_parquet_path prefix i q"
  "checkpoint_parquet_path prefix i q \<noteq> manifest_path prefix" "checkpoint_row_counts_path prefix i \<noteq> manifest_path prefix"
proof -
  show "checkpoint_parquet_path prefix i q = checkpoint_parquet_path prefix j r \<longleftrightarrow> i = j \<and> q = r"
    using digits_slash[of i "parquet_name q" j "parquet_name r"]
    by (simp add: checkpoint_parquet_path_def parquet_name_def show_nat_inj)
  show "checkpoint_row_counts_path prefix i = checkpoint_row_counts_path prefix j \<longleftrightarrow> i = j"
    using digits_slash[of i "''row_counts.json''" j "''row_counts.json''"] by (simp add: checkpoint_row_counts_path_def)
  show ne: "checkpoint_parquet_path prefix i q \<noteq> checkpoint_row_counts_path prefix j"
    using digits_slash[of i "parquet_name q" j "''row_counts.json''"] parquet_name_not_counts(1)[of q]
    by (simp add: checkpoint_parquet_path_def checkpoint_row_counts_path_def parquet_name_def)
  show "checkpoint_row_counts_path prefix j \<noteq> checkpoint_parquet_path prefix i q" using ne by metis
  show "checkpoint_parquet_path prefix i q \<noteq> manifest_path prefix" "checkpoint_row_counts_path prefix i \<noteq> manifest_path prefix"
    by (simp_all add: checkpoint_parquet_path_def checkpoint_row_counts_path_def manifest_path_def)
qed

definition cp_puts :: "string \<Rightarrow> ('b list \<times> 'b) list \<Rightarrow> nat \<Rightarrow> (string \<times> 'b) set" where
  "cp_puts prefix cps i = insert (checkpoint_row_counts_path prefix i, snd (cps ! i))
     ((\<lambda>q. (checkpoint_parquet_path prefix i q, fst (cps ! i) ! q)) ` {0..<length (fst (cps ! i))})"

lemma cp_puts_single_valued: "single_valued (\<Union>i \<in> I. cp_puts prefix cps i)"
  by (auto simp: single_valued_def cp_puts_def)

lemma sort_key_map: "sort_key g (map f xs) = map f (sort_key (\<lambda>x. g (f x)) xs)"
proof (induction xs)
  case (Cons x xs)
  have "insort_key g (f x) (map f ys) = map f (insort_key (\<lambda>x. g (f x)) x ys)" for ys by (induction ys) auto
  then show ?case using Cons by simp
qed simp

lemma upload_dir_puts:
  assumes up: "upload_queries E prefix i (sort_key fst (filter (\<lambda>f. is_parquet (fst f)) (cp_files cp))) S t = (Inr S', t1)"
    and rc: "ce_put E t1 (checkpoint_row_counts_path prefix i) (snd cp) = (Inr (), t')"
    and n: "length (fst cp) \<le> usize_max" and cp: "cps ! i = cp"
  shows "\<exists>puts. put_all E puts t = (Inr (), t') \<and> set puts = cp_puts prefix cps i \<and> S' = S \<union> {0..<length (fst cp)}"
proof -
  let ?f = "\<lambda>(n, b). (checkpoint_parquet_path prefix i (case file_index n of Some q \<Rightarrow> q | None \<Rightarrow> 0), b)"
  let ?qs = "sort_key fst (filter (\<lambda>f. is_parquet (fst f)) (cp_files cp))"
  have qs: "set ?qs = (\<lambda>q. (parquet_name q, fst cp ! q)) ` {0..<length (fst cp)}"
    by (simp add: cp_files_index(1)[OF n])
  note U = upload_queries_puts[OF up]
  have "put_all E (map ?f ?qs @ [(checkpoint_row_counts_path prefix i, snd cp)]) t = (Inr (), t')"
    using U rc by (simp add: put_all_append)
  moreover have "?f ` set ?qs = (\<lambda>q. (checkpoint_parquet_path prefix i q, fst cp ! q)) ` {0..<length (fst cp)}"
    unfolding qs image_image by (rule image_cong) (simp_all add: cp_files_index(2)[OF n])
  moreover have "(\<lambda>(n, b). case file_index n of Some q \<Rightarrow> q | None \<Rightarrow> 0) ` set ?qs = (\<lambda>q. q) ` {0..<length (fst cp)}"
    unfolding qs image_image by (rule image_cong) (simp_all add: cp_files_index(2)[OF n])
  ultimately show ?thesis using U
    by (intro exI[of _ "map ?f ?qs @ [(checkpoint_row_counts_path prefix i, snd cp)]"]) (simp add: cp_puts_def cp)
qed

lemma upload_dirs_puts:
  assumes "upload_dirs E prefix (cp_dir idxs cps) I S t = (Inr (I', S'), t')"
    and "\<forall>i \<in> set idxs. i \<le> usize_max \<and> length (fst (cps ! i)) \<le> usize_max"
  shows "\<exists>puts. put_all E puts t = (Inr (), t') \<and> set puts = (\<Union>i \<in> set idxs. cp_puts prefix cps i)
     \<and> I' = I @ idxs \<and> S' = S \<union> (\<Union>i \<in> set idxs. {0..<length (fst (cps ! i))})"
  using assms
proof (induction idxs arbitrary: I S t)
  case (Cons i idxs)
  let ?qs = "sort_key fst (filter (\<lambda>f. is_parquet (fst f)) (cp_files (cps ! i)))"
  have i: "parse_unsigned usize_max (show_nat i) = Some i" using Cons.prems(2) by (simp add: parse_show)
  obtain S1 t1 t2 where u: "upload_queries E prefix i ?qs S t = (Inr S1, t1)"
      "ce_put E t1 (checkpoint_row_counts_path prefix i) (snd (cps ! i)) = (Inr (), t2)"
      "upload_dirs E prefix (cp_dir idxs cps) (I @ [i]) S1 t2 = (Inr (I', S'), t')"
    using Cons.prems(1) i by (auto simp: cp_dir_def Let_def split: prod.splits sum.splits)
  obtain p1 where p1: "put_all E p1 t = (Inr (), t2)" "set p1 = cp_puts prefix cps i"
      "S1 = S \<union> {0..<length (fst (cps ! i))}"
    using upload_dir_puts[OF u(1,2) _ refl] Cons.prems(2) by auto
  obtain p2 where p2: "put_all E p2 t2 = (Inr (), t')" "set p2 = (\<Union>i \<in> set idxs. cp_puts prefix cps i)"
      "I' = (I @ [i]) @ idxs" "S' = S1 \<union> (\<Union>i \<in> set idxs. {0..<length (fst (cps ! i))})"
    using Cons.IH[OF u(3)] Cons.prems(2) by auto
  then show ?case using p1 by (intro exI[of _ "p1 @ p2"]) (auto simp: put_all_append)
qed (auto simp: cp_dir_def intro: exI[of _ "[]"])

lemma upload_checkpoints_objects:
  assumes E: "store_ok E" "codecs_ok E"
    and up: "upload_checkpoints E prefix scenario (Some (cp_dir [0..<length cps] cps)) steps t = (Inr (), t')"
    and "cps \<noteq> []" "length cps \<le> usize_max" "n \<le> usize_max" and len: "\<forall>cp \<in> set cps. length (fst cp) = n"
  obtains m idxs where "download_manifest E prefix t' = Inr m"
    "cm_scenarios m scenario = Some \<lparr>sc_checkpoint_indexes = idxs, sc_query_indexes = [0..<n], sc_checkpoint_interval_steps = steps\<rparr>"
    "distinct idxs" "set idxs = {0..<length cps}"
    "\<forall>i < length cps. ce_get E t' (checkpoint_row_counts_path prefix i) = Inr (Some (snd (cps ! i)))"
    "\<forall>i < length cps. \<forall>q < n. ce_get E t' (checkpoint_parquet_path prefix i q) = Inr (Some (fst (cps ! i) ! q))"
proof -
  define idxs where "idxs = sort_key show_nat [0..<length cps]"
  have sorted: "sort_key fst (cp_dir [0..<length cps] cps) = cp_dir idxs cps"
    by (simp add: cp_dir_def sort_key_map idxs_def)
  have idxs: "set idxs = {0..<length cps}" "distinct idxs" by (simp_all add: idxs_def distinct_sort)
  obtain I S t1 where u: "upload_dirs E prefix (cp_dir idxs cps) [] {} t = (Inr (I, S), t1)"
    and m: "put_manifest E prefix (add_scenario scenario I S steps
        (case download_manifest E prefix t1 of Inr m \<Rightarrow> m | Inl e \<Rightarrow> \<lparr>cm_scenarios = Map.empty\<rparr>)) t1 = (Inr (), t')"
    using up by (auto simp: upload_checkpoints_def sorted Let_def split: prod.splits sum.splits)
  have "\<forall>i \<in> set idxs. i \<le> usize_max \<and> length (fst (cps ! i)) \<le> usize_max"
    using assms(5,6) len by (auto simp: idxs)
  then obtain puts where p: "put_all E puts t = (Inr (), t1)" "set puts = (\<Union>i \<in> set idxs. cp_puts prefix cps i)"
      "I = idxs" "S = (\<Union>i \<in> set idxs. {0..<length (fst (cps ! i))})"
    using upload_dirs_puts[OF u] by auto
  have S: "S = {0..<n}" using p(4) len assms(4) by (auto simp: idxs)
  have sv: "single_valued (set puts)" unfolding p(2) by (rule cp_puts_single_valued)
  note G = put_all_get[OF E(1) sv p(1)]
  define m' where "m' = add_scenario scenario I S steps
        (case download_manifest E prefix t1 of Inr m \<Rightarrow> m | Inl e \<Rightarrow> \<lparr>cm_scenarios = Map.empty\<rparr>)"
  obtain json where j: "ce_manifest_encode E m' = Inr json" "ce_put E t1 (manifest_path prefix) json = (Inr (), t')"
    using m unfolding m'_def[symmetric] by (auto simp: put_manifest_def split: sum.splits)
  have get: "ce_get E t' (manifest_path prefix) = Inr (Some json)" "\<forall>q. q \<noteq> manifest_path prefix \<longrightarrow> ce_get E t' q = ce_get E t1 q"
    using E(1) j(2) by (auto simp: store_ok_def)
  have "download_manifest E prefix t' = Inr m'"
    using E(2) j(1) get(1) by (simp add: download_manifest_def codecs_ok_def)
  moreover have "cm_scenarios m' scenario =
      Some \<lparr>sc_checkpoint_indexes = idxs, sc_query_indexes = [0..<n], sc_checkpoint_interval_steps = steps\<rparr>"
    by (simp add: m'_def add_scenario_def p(3) S sorted_list_of_set_range)
  moreover have "ce_get E t' (checkpoint_row_counts_path prefix i) = Inr (Some (snd (cps ! i)))" if "i < length cps" for i
  proof -
    have "(checkpoint_row_counts_path prefix i, snd (cps ! i)) \<in> set puts"
      using that by (auto simp: p(2) idxs cp_puts_def)
    then show ?thesis using G get(2) by auto
  qed
  moreover have "ce_get E t' (checkpoint_parquet_path prefix i q) = Inr (Some (fst (cps ! i) ! q))" if "i < length cps" "q < n" for i q
  proof -
    have "(checkpoint_parquet_path prefix i q, fst (cps ! i) ! q) \<in> set puts"
      unfolding p(2) idxs by (rule UN_I[of i]) (use that len in \<open>auto simp: cp_puts_def\<close>)
    then show ?thesis using G get(2) by auto
  qed
  ultimately show ?thesis using that idxs by blast
qed

subsection \<open>The directory of a download\<close>

lemma download_queries_files:
  assumes "\<forall>q \<in> set qs. ce_get E t (checkpoint_parquet_path prefix i q) = Inr (Some (bs ! q))"
    and "show_nat i \<notin> fst ` set d" "distinct qs" "\<forall>q \<in> set qs. parquet_name q \<notin> fst ` set files"
  shows "download_queries E (\<lambda>_. None) prefix i qs t (d @ [(show_nat i, files)]) =
     Inr (d @ [(show_nat i, files @ map (\<lambda>q. (parquet_name q, bs ! q)) qs)])"
  using assms
proof (induction qs arbitrary: files)
  case (Cons q qs)
  then have "download_queries E (\<lambda>_. None) prefix i qs t (d @ [(show_nat i, files @ [(parquet_name q, bs ! q)])]) =
      Inr (d @ [(show_nat i, (files @ [(parquet_name q, bs ! q)]) @ map (\<lambda>q. (parquet_name q, bs ! q)) qs)])"
    by (intro Cons.IH) auto
  then show ?case using Cons.prems by (simp add: write_file_last)
qed simp

lemma download_dirs_files:
  assumes "\<forall>i \<in> set idxs. ce_get E t (checkpoint_row_counts_path prefix i) = Inr (Some (snd (cps ! i)))
      \<and> length (fst (cps ! i)) = n \<and> (\<forall>q < n. ce_get E t (checkpoint_parquet_path prefix i q) = Inr (Some (fst (cps ! i) ! q)))"
    and "\<forall>i \<in> set idxs. show_nat i \<notin> fst ` set d" "distinct idxs"
  shows "download_dirs E (\<lambda>_. None) prefix idxs [0..<n] t d = Inr (d @ cp_dir idxs cps)"
  using assms
proof (induction idxs arbitrary: d)
  case (Cons i idxs)
  have fresh: "show_nat i \<notin> fst ` set d" using Cons.prems(2) by simp
  have c: "create_dir_all (\<lambda>_. None) (show_nat i) d = Inr (d @ [(show_nat i, [])])"
    using fresh by (simp add: create_dir_all_def map_of_eq_None_iff)
  have q: "download_queries E (\<lambda>_. None) prefix i [0..<n] t (d @ [(show_nat i, [])]) =
      Inr (d @ [(show_nat i, map (\<lambda>q. (parquet_name q, fst (cps ! i) ! q)) [0..<n])])"
    using download_queries_files[of "[0..<n]" E t prefix i "fst (cps ! i)" d "[]"] Cons.prems(1) fresh by simp
  have r: "write_file (\<lambda>_. None) (show_nat i) ''row_counts.json'' (snd (cps ! i))
      (d @ [(show_nat i, map (\<lambda>q. (parquet_name q, fst (cps ! i) ! q)) [0..<n])]) = Inr (d @ [(show_nat i, cp_files (cps ! i))])"
    by (subst write_file_last[OF fresh]) (use Cons.prems(1) in \<open>auto simp: cp_files_def\<close>)
  have "download_dirs E (\<lambda>_. None) prefix idxs [0..<n] t (d @ [(show_nat i, cp_files (cps ! i))]) =
      Inr ((d @ [(show_nat i, cp_files (cps ! i))]) @ cp_dir idxs cps)"
    using Cons.prems by (intro Cons.IH) (auto simp: show_nat_inj)
  then show ?case using Cons.prems(1) c q r by (simp add: cp_dir_def)
qed (simp add: cp_dir_def)

lemma directory_files_cp_dir:
  assumes "i \<in> set idxs" "distinct idxs"
  shows "directory_files E (cp_dir idxs cps) i = Some
    \<lparr>cf_parquet = (\<lambda>q. map_option (ce_parquet_decode E) (map_of (cp_files (cps ! i)) (parquet_name q))),
     cf_row_counts = Some (ce_counts_decode E (snd (cps ! i)))\<rparr>"
proof -
  have "map_of (cp_dir idxs cps) (show_nat i) = Some (cp_files (cps ! i))"
    using assms by (intro map_of_is_SomeI) (auto simp: cp_dir_def comp_def distinct_map inj_on_def show_nat_inj)
  then show ?thesis by (simp add: directory_files_def)
qed

lemma load_results_loop_names:
  assumes "\<forall>j < length names. cf_parquet dir (k + j) = Some (Inr (dec (k + j)))" "distinct names"
  shows "\<exists>r. load_results_loop dir k names m = Inr r \<and> (\<forall>j < length names. r (names ! j) = Some (dec (k + j)))
     \<and> (\<forall>x. x \<notin> set names \<longrightarrow> r x = m x)"
  using assms
proof (induction names arbitrary: k m)
  case (Cons name names)
  have first: "cf_parquet dir k = Some (Inr (dec k))" using Cons.prems(1) by (auto dest: spec[of _ 0])
  have "\<forall>j < length names. cf_parquet dir (k + 1 + j) = Some (Inr (dec (k + 1 + j)))"
    using Cons.prems(1) by (auto dest: spec[of _ "Suc _"])
  moreover have "distinct names" using Cons.prems(2) by simp
  ultimately obtain r where
      r: "load_results_loop dir (k + 1) names (m(name \<mapsto> dec k)) = Inr r"
      "\<forall>j < length names. r (names ! j) = Some (dec (k + 1 + j))"
      "\<forall>x. x \<notin> set names \<longrightarrow> r x = (m(name \<mapsto> dec k)) x"
    using Cons.IH[of "k + 1" "m(name \<mapsto> dec k)"] by blast
  show ?case
  proof (intro exI[of _ r] conjI allI impI)
    show "load_results_loop dir k (name # names) m = Inr r" using first r(1) by simp
    show "r ((name # names) ! j) = Some (dec (k + j))" if "j < length (name # names)" for j
      using that r(2,3) Cons.prems(2) by (cases j) auto
    show "r x = m x" if "x \<notin> set (name # names)" for x using that r(3) by auto
  qed
qed simp

lemma query_parquet_decodes:
  assumes "codecs_ok E" "query_parquet E ev sql = Inr b"
    and "\<forall>bs. ev_query ev sql = Inr bs \<longrightarrow> uniform_batches bs"
  shows "\<exists>bs bs'. ev_query ev sql = Inr bs \<and> ce_parquet_decode E b = Inr bs' \<and> concat (map rows bs') = concat (map rows bs)"
proof -
  obtain bs s where bs: "ev_query ev sql = Inr bs" "ce_parquet_encode E s bs = Inr b"
      "(case bs of first # _ \<Rightarrow> Inr (rb_schema first) | [] \<Rightarrow> ev_query_schema ev sql) = Inr s"
    using assms(2) by (auto simp: query_parquet_def and_then_Inr_iff)
  have "\<forall>x \<in> set bs. wf_batch x \<and> rb_schema x = s"
    using assms(3) bs(1,3) by (cases bs) (auto simp: uniform_batches_def)
  then show ?thesis using assms(1) bs(1,2) unfolding codecs_ok_def by blast
qed

text \<open>What the load command reads of one checkpoint: for every query the rows its event's database answered, and the row counts.\<close>

definition read_as_written :: "calendar \<Rightarrow> checkpoint_args \<Rightarrow> (nat \<rightharpoonup> checkpoint_files) \<Rightarrow> string list \<Rightarrow> nat \<Rightarrow> checkpoint_event \<Rightarrow> bool" where
  "read_as_written C args dirs names i ev \<longleftrightarrow>
     (\<exists>r. load_checkpoint_results dirs i names = Inr r
        \<and> (\<forall>q < length names. \<exists>bs bs'. ev_query ev (ca_queries args ! q) = Inr bs \<and> r (names ! q) = Some bs'
             \<and> concat (map rows bs') = concat (map rows bs)))
   \<and> (\<exists>counts counts'. table_row_counts C ev (ca_tables args) = Inr counts
        \<and> load_checkpoint_row_counts dirs i = Inr counts' \<and> map_of counts' = map_of counts)"

lemma checkpoint_read_as_written:
  assumes E: "codecs_ok E" and w: "written E C ev (ca_queries args) (ca_tables args) (cps ! i)"
    and idxs: "i \<in> set idxs" "distinct idxs"
    and names: "length names = length (ca_queries args)" "distinct names"
    and uni: "\<forall>sql bs. ev_query ev sql = Inr bs \<longrightarrow> uniform_batches bs"
  shows "read_as_written C args (directory_files E (cp_dir idxs cps)) names i ev"
proof -
  note D = directory_files_cp_dir[OF idxs, of E cps]
  have n: "length (fst (cps ! i)) = length names" using w names(1) by (simp add: written_def)
  have "\<forall>q < length names. \<exists>bs bs'. ev_query ev (ca_queries args ! q) = Inr bs
      \<and> ce_parquet_decode E (fst (cps ! i) ! q) = Inr bs' \<and> concat (map rows bs') = concat (map rows bs)"
    using query_parquet_decodes[OF E] w names(1) uni by (simp add: written_def)
  then obtain B B' where B: "\<forall>q < length names. ev_query ev (ca_queries args ! q) = Inr (B q)
      \<and> ce_parquet_decode E (fst (cps ! i) ! q) = Inr (B' q) \<and> concat (map rows (B' q)) = concat (map rows (B q))"
    by metis
  let ?dir = "\<lparr>cf_parquet = (\<lambda>q. map_option (ce_parquet_decode E) (map_of (cp_files (cps ! i)) (parquet_name q))),
     cf_row_counts = Some (ce_counts_decode E (snd (cps ! i)))\<rparr>"
  have "\<forall>j < length names. cf_parquet ?dir (0 + j) = Some (Inr (B' (0 + j)))" using B n by simp
  from load_results_loop_names[OF this names(2), of Map.empty]
  obtain r where r: "load_results_loop ?dir 0 names Map.empty = Inr r" "\<forall>j < length names. r (names ! j) = Some (B' j)"
    by auto
  obtain counts where c: "table_row_counts C ev (ca_tables args) = Inr counts" "ce_counts_encode E counts = Inr (snd (cps ! i))"
    using w by (auto simp: written_def)
  then obtain counts' where c': "ce_counts_decode E (snd (cps ! i)) = Inr counts'" "map_of counts' = map_of counts"
    using E unfolding codecs_ok_def by blast
  show ?thesis
    unfolding read_as_written_def
  proof
    show "\<exists>r. load_checkpoint_results (directory_files E (cp_dir idxs cps)) i names = Inr r
        \<and> (\<forall>q < length names. \<exists>bs bs'. ev_query ev (ca_queries args ! q) = Inr bs \<and> r (names ! q) = Some bs'
             \<and> concat (map rows bs') = concat (map rows bs))"
      using r B by (intro exI[of _ r]) (simp add: load_checkpoint_results_def D)
    show "\<exists>counts counts'. table_row_counts C ev (ca_tables args) = Inr counts
        \<and> load_checkpoint_row_counts (directory_files E (cp_dir idxs cps)) i = Inr counts' \<and> map_of counts' = map_of counts"
      using c c' by (simp add: load_checkpoint_row_counts_def D)
  qed
qed

text \<open>
  C39. Checkpoints reach the load command as they were taken: when the checkpoint command succeeds and
  uploads, the manifest it leaves lists its scenario, a download of that scenario into an
  empty directory succeeds, and for every pause of the pipeline and for its end the load command
  reads from there, under the index of that checkpoint, the rows the database answered to each
  query at that moment and the row count of each table.
\<close>

theorem checkpoints_reach_the_load_command:
  assumes E: "store_ok E" "codecs_ok E"
    and run: "checkpoint_loop E io C args events 0 [] t = Returned (Inr r, d, t')"
    and mode: "\<not> ca_local_archive args" "\<forall>ev \<in> set events. ev_state ev \<noteq> Stopped Cancelled"
    and uni: "\<forall>ev \<in> set events. \<forall>sql bs. ev_query ev sql = Inr bs \<longrightarrow> uniform_batches bs"
    and names: "length names = length (ca_queries args)" "distinct names"
    and small: "length events \<le> usize_max" "length names \<le> usize_max"
  shows "\<exists>m info d' k. download_manifest E (ca_version_prefix args) t' = Inr m
     \<and> cm_scenarios m (ca_scenario args) = Some info
     \<and> sc_checkpoint_interval_steps info = ca_interval_steps args
     \<and> download_checkpoints E (\<lambda>_. None) (ca_version_prefix args) info t' [] = Inr d'
     \<and> k < length events \<and> ev_state (events ! k) = Stopped Completed
     \<and> list_all (\<lambda>i. (i < k \<longrightarrow> ev_state (events ! i) = Paused)
          \<and> read_as_written C args (directory_files E d') names i (events ! i)) [0..<Suc k]"
proof -
  obtain k cps where k: "k < length events" "length cps = Suc k" "\<forall>i < k. ev_state (events ! i) = Paused"
      "ev_state (events ! k) = Stopped Completed"
      "\<forall>i \<le> k. written E C (events ! i) (ca_queries args) (ca_tables args) (cps ! i)"
      "d = cp_dir [0..<length cps] cps"
      "upload_checkpoints E (ca_version_prefix args) (ca_scenario args) (Some d) (ca_interval_steps args) t = (Inr (), t')"
    using checkpoint_loop_files[of E io C args events "[]" t r d t'] run mode by (auto simp: cp_dir_def)
  have len: "\<forall>cp \<in> set cps. length (fst cp) = length names"
  proof -
    have "\<forall>i < length cps. length (fst (cps ! i)) = length names"
      using k(2,5) names(1) by (simp add: written_def less_Suc_eq_le)
    then show ?thesis by (metis in_set_conv_nth)
  qed
  have "cps \<noteq> []" "length cps \<le> usize_max" using k(1,2) small(1) by auto
  from upload_checkpoints_objects[OF E k(7)[unfolded k(6)] this small(2) len]
  obtain m idxs where m: "download_manifest E (ca_version_prefix args) t' = Inr m"
      "cm_scenarios m (ca_scenario args) =
         Some \<lparr>sc_checkpoint_indexes = idxs, sc_query_indexes = [0..<length names], sc_checkpoint_interval_steps = ca_interval_steps args\<rparr>"
      "distinct idxs" "set idxs = {0..<length cps}"
      "\<forall>i < length cps. ce_get E t' (checkpoint_row_counts_path (ca_version_prefix args) i) = Inr (Some (snd (cps ! i)))"
      "\<forall>i < length cps. \<forall>q < length names. ce_get E t' (checkpoint_parquet_path (ca_version_prefix args) i q) = Inr (Some (fst (cps ! i) ! q))"
    by blast
  have "download_dirs E (\<lambda>_. None) (ca_version_prefix args) idxs [0..<length names] t' [] = Inr ([] @ cp_dir idxs cps)"
    by (rule download_dirs_files) (use m(3-6) len in auto)
  then have dl: "download_checkpoints E (\<lambda>_. None) (ca_version_prefix args)
      \<lparr>sc_checkpoint_indexes = idxs, sc_query_indexes = [0..<length names], sc_checkpoint_interval_steps = ca_interval_steps args\<rparr>
      t' [] = Inr (cp_dir idxs cps)"
    by (simp add: download_checkpoints_def)
  have "read_as_written C args (directory_files E (cp_dir idxs cps)) names i (events ! i)" if "i \<le> k" for i
  proof (rule checkpoint_read_as_written[OF E(2)])
    show "\<forall>sql bs. ev_query (events ! i) sql = Inr bs \<longrightarrow> uniform_batches bs"
      using uni that k(1) by (meson le_less_trans nth_mem)
  qed (use that k(2,5) m(3,4) names in auto)
  then show ?thesis
    using m(1,2) dl k(1,3,4) by (intro exI[of _ m] exI conjI) (auto simp: list_all_iff)
qed

subsection \<open>An example\<close>

text \<open>An object store in memory, which never fails, and codecs that keep the value.\<close>

datatype blob = Manifest_blob CheckpointManifest | Parquet_blob "record_batch list" | Counts_blob "(string \<times> nat) list"

definition memory_env :: "(string \<rightharpoonup> blob, blob) checkpoint_env" where
  "memory_env = \<lparr>ce_put = (\<lambda>t p b. (Inr (), t(p \<mapsto> b))), ce_get = (\<lambda>t p. Inr (t p)),
     ce_manifest_encode = (\<lambda>m. Inr (Manifest_blob m)),
     ce_manifest_decode = (\<lambda>b. case b of Manifest_blob m \<Rightarrow> Inr m | _ \<Rightarrow> Inl ''not a manifest''),
     ce_parquet_encode = (\<lambda>s bs. Inr (Parquet_blob bs)),
     ce_parquet_decode = (\<lambda>b. case b of Parquet_blob bs \<Rightarrow> Inr bs | _ \<Rightarrow> Inl ''not a parquet file''),
     ce_counts_encode = (\<lambda>c. Inr (Counts_blob c)),
     ce_counts_decode = (\<lambda>b. case b of Counts_blob c \<Rightarrow> Inr c | _ \<Rightarrow> Inl ''not row counts'')\<rparr>"

lemma memory_env_ok: "store_ok memory_env" "codecs_ok memory_env"
  by (auto simp: memory_env_def store_ok_def codecs_ok_def)

lemma memory_put [simp]: "ce_put memory_env t p b = (Inr (), t(p \<mapsto> b))"
  by (simp add: memory_env_def)

lemma memory_upload_queries: "\<exists>S' t'. upload_queries memory_env prefix i files S t = (Inr S', t')"
  by (induction files arbitrary: S t) (auto simp: Let_def)

lemma memory_upload_dirs: "\<exists>r t'. upload_dirs memory_env prefix dirs I S t = (Inr r, t')"
proof (induction dirs arbitrary: I S t)
  case (Cons dir dirs)
  obtain name files where d: "dir = (name, files)" by (cases dir)
  let ?i = "case parse_unsigned usize_max name of Some i \<Rightarrow> i | None \<Rightarrow> 0"
  obtain S' t' where "upload_queries memory_env prefix ?i (sort_key fst (filter (\<lambda>f. is_parquet (fst f)) files)) S t = (Inr S', t')"
    using memory_upload_queries by blast
  then show ?case using Cons.IH by (simp add: d Let_def split: option.splits)
qed simp

lemma memory_upload: "\<exists>t'. upload_checkpoints memory_env prefix scenario (Some d) steps t = (Inr (), t')"
proof -
  obtain r t1 where "upload_dirs memory_env prefix (sort_key fst d) [] {} t = (Inr r, t1)"
    using memory_upload_dirs by blast
  then show ?thesis
    by (cases r) (simp add: upload_checkpoints_def Let_def put_manifest_def, simp add: memory_env_def)
qed

definition shown_args :: checkpoint_args where
  "shown_args = \<lparr>ca_scenario = ''tpch'', ca_version_prefix = ''tpch/1.0'', ca_queries = [''SELECT 7''], ca_tables = [''orders''],
     ca_interval_steps = 10, ca_local_archive = False\<rparr>"

definition shown_pause :: "PipelineState \<Rightarrow> nat \<Rightarrow> checkpoint_event" where
  "shown_pause state n = \<lparr>ev_state = state, ev_query = (\<lambda>sql. Inr [count_batch (int n)]), ev_query_schema = (\<lambda>sql. Inr []),
     ev_continue = Inr ()\<rparr>"

lemma shown_write:
  assumes "n \<le> usize_max"
  shows "\<exists>d'. write_checkpoint memory_env (\<lambda>_. None) C (shown_pause state n) [''SELECT 7''] [''orders''] idx d = Inr d'"
proof -
  have q: "query_parquet memory_env (shown_pause state n) sql = Inr (Parquet_blob [count_batch (int n)])" for sql
    by (simp add: query_parquet_def shown_pause_def memory_env_def)
  have c: "table_row_counts C (shown_pause state n) [''orders''] = Inr [(''orders'', n)]"
    using count_batch_count[OF assms, of C] by (simp add: shown_pause_def)
  have w: "\<exists>d'. write_file (\<lambda>_. None) name f b d = Inr d' \<and> map_of d' name \<noteq> None" if "map_of d name \<noteq> None"
    for name f and b :: blob and d
    using that by (auto simp: write_file_def update_conv')
  have "\<exists>d1. create_dir_all (\<lambda>_. None) (show_nat idx) d = Inr d1 \<and> map_of d1 (show_nat idx) \<noteq> None"
    by (auto simp: create_dir_all_def map_add_def)
  then obtain d1 where d1: "create_dir_all (\<lambda>_. None) (show_nat idx) d = Inr d1" "map_of d1 (show_nat idx) \<noteq> None" by blast
  from w[OF d1(2)] obtain d2 where d2: "write_file (\<lambda>_. None) (show_nat idx) (parquet_name 0) (Parquet_blob [count_batch (int n)]) d1 = Inr d2"
      "map_of d2 (show_nat idx) \<noteq> None" by blast
  from w[OF d2(2)] obtain d3 where d3: "write_file (\<lambda>_. None) (show_nat idx) ''row_counts.json'' (Counts_blob [(''orders'', n)]) d2 = Inr d3" by blast
  have "create_dir_all (\<lambda>_. None) (show_nat idx) d2 = Inr d2" using d2(2) by (simp add: create_dir_all_def)
  then show ?thesis
    using d1(1) d2(1) d3 c
    by (simp add: write_checkpoint_def run_checkpoint_queries_def write_checkpoint_row_counts_def q) (simp add: memory_env_def)
qed

definition shown_pauses :: "checkpoint_event list" where
  "shown_pauses = [shown_pause Paused 7, shown_pause (Stopped Completed) 9]"

lemma shown_checkpoints:
  "\<exists>d t'. checkpoint_loop memory_env (\<lambda>_. None) fixed_calendar shown_args shown_pauses 0 [] Map.empty = Returned (Inr None, d, t')"
proof -
  obtain d1 where d1: "write_checkpoint memory_env (\<lambda>_. None) fixed_calendar (shown_pause Paused 7) [''SELECT 7''] [''orders''] 0 [] = Inr d1"
    using shown_write[of 7 fixed_calendar Paused 0 "[]"] unfolding usize_max_def by auto
  obtain d2 where d2: "write_checkpoint memory_env (\<lambda>_. None) fixed_calendar (shown_pause (Stopped Completed) 9) [''SELECT 7''] [''orders''] (Suc 0) d1 = Inr d2"
    using shown_write[of 9 fixed_calendar "Stopped Completed" "Suc 0" d1] unfolding usize_max_def by auto
  obtain t' where "upload_checkpoints memory_env ''tpch/1.0'' ''tpch'' (Some d2) 10 Map.empty = (Inr (), t')"
    using memory_upload by blast
  then show ?thesis
    using d1 d2 by (simp add: shown_pauses_def shown_args_def) (simp add: shown_pause_def)
qed

theorem checkpoints_reach_the_load_command_witness:
  "\<exists>d t' m info d' k.
     checkpoint_loop memory_env (\<lambda>_. None) fixed_calendar shown_args shown_pauses 0 [] Map.empty = Returned (Inr None, d, t')
   \<and> download_manifest memory_env ''tpch/1.0'' t' = Inr m \<and> cm_scenarios m ''tpch'' = Some info
   \<and> download_checkpoints memory_env (\<lambda>_. None) ''tpch/1.0'' info t' [] = Inr d'
   \<and> k < 2 \<and> ev_state (shown_pauses ! k) = Stopped Completed
   \<and> list_all (\<lambda>i. read_as_written fixed_calendar shown_args (directory_files memory_env d') [''q1''] i (shown_pauses ! i)) [0..<Suc k]"
proof -
  obtain d t' where run: "checkpoint_loop memory_env (\<lambda>_. None) fixed_calendar shown_args shown_pauses 0 [] Map.empty = Returned (Inr None, d, t')"
    using shown_checkpoints by blast
  have "uniform_batches [count_batch n]" for n by (auto simp: uniform_batches_def count_batch_wf)
  then have uni: "\<forall>ev \<in> set shown_pauses. \<forall>sql bs. ev_query ev sql = Inr bs \<longrightarrow> uniform_batches bs"
    by (auto simp: shown_pauses_def shown_pause_def)
  have "\<not> ca_local_archive shown_args" "\<forall>ev \<in> set shown_pauses. ev_state ev \<noteq> Stopped Cancelled"
      "length [''q1''] = length (ca_queries shown_args)" "distinct [''q1'']"
      "length shown_pauses \<le> usize_max" "length [''q1''] \<le> usize_max"
    by (simp_all add: shown_args_def shown_pauses_def shown_pause_def usize_max_def)
  note T = checkpoints_reach_the_load_command[OF memory_env_ok run this(1,2) uni this(3-6)]
  have "ca_version_prefix shown_args = ''tpch/1.0''" "ca_scenario shown_args = ''tpch''" "length shown_pauses = 2"
    by (simp_all add: shown_args_def shown_pauses_def)
  with T run show ?thesis unfolding list_all_iff by metis
qed

end
