(* ===== verification/Spec2Isabelle.thy ===== *)
theory Spec2Isabelle
  imports EtlPipeline DurationParse Generate Timing Util AdbcSink LoadRun CheckpointStore
begin

text \<open>
  Verification of spicebench, a benchmark for databases under continuous change.

  \<^bold>\<open>The program.\<close> The command \<^verbatim>\<open>generate\<close> draws change batches (creates, updates and deletes, one row
  per operation with the columns \<^verbatim>\<open>_op\<close> and \<^verbatim>\<open>_op_index\<close>) from a dataset, stores them as Parquet
  objects with their metadata in \<^verbatim>\<open>version.json\<close>, packs the directory and uploads it. A run downloads
  the archive; an ETL pipeline reads the batches in the order of their ids, splits them into
  runs of one operation and writes them to the sink of the system under test, pausing at
  checkpoints, where query results are compared with expected ones. The development follows the
  data along this path.

  \<^bold>\<open>Reading guide.\<close> Each theory models one part, with the names of the code (a clash is resolved by a
  prefix, for example \<open>ks_\<close> for \<^verbatim>\<open>IndexedKeySet\<close>, \<open>tp_\<close> for \<^verbatim>\<open>TpchDataset\<close>, \<open>sq_\<close> for
  \<^verbatim>\<open>SimpleSequenceDataset\<close>, \<open>fs_\<close> and \<open>s3_\<close> for the storages, \<open>pl_\<close> for \<^verbatim>\<open>ETLPipeline\<close>).

  \<^item> \<open>Prelude\<close>, \<open>Decimal\<close>, \<open>F64\<close>, \<open>Arrow\<close>: results and panics, decimal text, doubles, record batches
    and the contract \<open>kernels_ok\<close> of the Arrow kernels.
  \<^item> \<open>KeySet\<close>, \<open>Dataset\<close> (\<^verbatim>\<open>crates/data-generation/src/dataset\<close>, \<^verbatim>\<open>version.rs\<close>, \<^verbatim>\<open>config.rs\<close>): the live keys of
    a table, a locale \<open>key_pool\<close> for what the datasets need of them, schema checks, metadata.
  \<^item> \<open>SimpleSequence\<close>; \<open>TpchArrays\<close>, \<open>Tpch\<close>, \<open>TpchRun\<close>: the two datasets. Whatever the random choices and
    however the calls on the tables interleave, the drawn batches replay on a keyed table:
    creates are new keys, updates and deletes hit live ones.
  \<^item> \<open>Storage\<close> (\<^verbatim>\<open>storage/file.rs\<close>, \<^verbatim>\<open>storage/s3.rs\<close>): both backends with their caches over an abstract object
    store. The locales \<open>batch_store\<close> and \<open>versioned_store\<close> say what a writer relies on; both
    backends interpret them.
  \<^item> \<open>Generator\<close>, \<open>GeneratedData\<close> (\<^verbatim>\<open>generator.rs\<close>, \<^verbatim>\<open>metrics.rs\<close>): one task per table, any interleaving,
    counters, metadata. The locales \<open>finite_dataset\<close> and \<open>generation\<close> carry the proof that a run ends
    and that what was drawn is read back; they are interpreted for TPC-H and the sequence on
    S3 and on files.
  \<^item> \<open>Archive\<close>, \<open>Generate\<close> (\<^verbatim>\<open>archive.rs\<close>, \<^verbatim>\<open>src/commands/generate.rs\<close>): packing, chunked transfer, and the whole
    command: a dataset reported as uploaded is complete wherever it is extracted.
  \<^item> \<open>EtlBatch\<close>, \<open>EtlSplit\<close>, \<open>EtlWrite\<close>, \<open>EtlWork\<close>, \<open>EtlRead\<close>, \<open>EtlTask\<close>, \<open>EtlRun\<close>, \<open>EtlLive\<close>, \<open>EtlPipeline\<close>
    (\<^verbatim>\<open>crates/etl/src/lib.rs\<close>): coalescing and splitting of batches, concurrent chunk writes, the shared
    work plan (locale \<open>work_queue\<close>), concurrent reads, a table task with prefetch as a state
    machine, the background task as a step relation, its termination and liveness, and the
    pipeline with \<^verbatim>\<open>initialize\<close>, \<^verbatim>\<open>start\<close>, \<^verbatim>\<open>run\<close>, \<^verbatim>\<open>continue_pipeline\<close>, \<^verbatim>\<open>wait\<close> and \<^verbatim>\<open>cancel\<close>.
  \<^item> \<open>DurationParse\<close> (\<^verbatim>\<open>crates/duration-parse\<close>), \<open>Timing\<close> (\<^verbatim>\<open>crates/util/src/rate_limiter.rs\<close>), \<open>Util\<close>
    (\<^verbatim>\<open>crates/util/src/lib.rs\<close>): durations as text, pacing, helpers.
  \<^item> \<open>Sinks\<close>, \<open>AdbcSql\<close>, \<open>AdbcIngest\<close>, \<open>AdbcSink\<close> (\<^verbatim>\<open>crates/etl/src/sink/adbc.rs\<close>): the sink on databases. A
    locale \<open>ordered_sink\<close> says what the pipeline relies on; the ADBC sink interprets it with its open
    ingest streams, its size limits and retries, and its SQL text, which is read back by a
    reader written from the lexical rules. Order and delivery are stated over the log of the calls that
    succeeded, in the configured catalog and schema.
  \<^item> \<open>Validation\<close> (\<^verbatim>\<open>crates/test-framework/src/queries/validation/mod.rs\<close>): query results against expected
    ones. The loops over columns and rows of rendered text are equivalent to a row-by-row definition,
    and the numeric tolerance is bounded in terms of the exact values.
  \<^item> \<open>Checkpoint\<close>, \<open>LoadRun\<close> (\<^verbatim>\<open>src/commands/load/mod.rs\<close>): the validation window of a checkpoint (row counts, probes with a cap
    on those in flight, the full query set) over arbitrary answers of the system under test, the start of
    the load command with the validation of a bootstrapped snapshot, and its loop over the states of the pipeline. A tick holds what the system, the clock and
    the cancellation token answer in one iteration; a call that outlives the list of ticks is \<open>Waiting\<close>.
  \<^item> \<open>CheckpointStore\<close> (\<^verbatim>\<open>crates/checkpointer/src/lib.rs\<close>, \<^verbatim>\<open>src/commands/checkpoint.rs\<close>): the checkpoint command, which
    writes the expected results at every pause, and the store that moves them; what the load
    command reads after a download is what was written.

  \<^bold>\<open>What is shown.\<close> The pipeline delivers every batch of every table once, in order, for every
  completion order of reads and writes and every interleaving of the table tasks; a run in
  intervals pauses with exactly the batches of its intervals delivered, so checkpoints are
  deterministic and interruptions change nothing; every run ends, and every fair schedule without
  failures pauses or completes as its limit asks. Generated data are consistent and survive storage, archive and transfer. The other
  properties are the functional behaviour, the bounds and the error behaviour of the parts.

  \<^bold>\<open>Conventions.\<close> \<^verbatim>\<open>Result\<close> is a sum with \<open>Inl\<close> the error, a panic is \<open>None\<close>. Unsigned integers are naturals
  with their width written out where the code may reach it; doubles are rationals rounded to 53
  bits after every operation. Third-party code (Arrow kernels, random numbers, \<^verbatim>\<open>tpchgen\<close>, object
  stores, Parquet, JSON, tar and zstd, database drivers) is a parameter, usually a field of a
  record, with its documented behaviour as a predicate (\<open>kernels_ok\<close>, \<open>rng_in_range\<close>, \<open>tpch_env_ok\<close>,
  \<open>objects_ok\<close>, \<open>parquet_ok\<close>, \<open>json_ok\<close>, \<open>archive_ok\<close>, \<open>stream_ok\<close>) and a concrete instance behind each
  witness. On the ADBC connection nothing is assumed: the theorems on that sink read the log of the
  calls it answered with success (\<open>logged\<close>). Concurrency is a schedule argument or a step relation.

  \<^bold>\<open>Bounds.\<close> Row counts below \<open>2 ^ 25\<close> (simple sequence) and \<open>2 ^ 24\<close> (TPC-H) per drawn part (\<open>parts_small\<close>) keep the scaled operation counts
  within the live keys although they are computed in doubles; more steps than 65535 do not fit
  the 16-bit step counters, and 65534 leaves the room of one base step. The generator needs two turns per batch and a last one to see
  the end, so a schedule with that many turns per table is fair. Doubles are exact on integers
  below \<open>2 ^ 53\<close>, and means of two of them below \<open>2 ^ 52\<close>. Loops of the code without an evident bound
  (the run loop, the upload and download loops) are step relations or take the number of
  turns as an argument, and it is proved that enough turns lead to the end.

  \<^bold>\<open>Not modelled.\<close> The sinks for DuckDB, DynamoDB and MongoDB, the commands around the pipeline (\<^verbatim>\<open>run\<close>,
  \<^verbatim>\<open>etl\<close>), the ADBC client below the sink (it casts some column types for some drivers), the system adapters and their protocol, the rest of the query test framework, telemetry and the
  YAML fork: they are either calls of drivers and services or code taken over from other
  projects. Progress logging, signal handling and floating-point pretty printing are left out of
  the parts that are modelled.
\<close>

end
